(* ===== verification/Ripext_Prelude.thy ===== *)
theory Ripext_Prelude
  imports Main "HOL-Library.Word"
begin

unbundle bit_operations_syntax

text \<open>
  Shared vocabulary of the development: bytes and C strings, the allocator seen by
  the JSON library (\<^verbatim>\<open>jansson/src/memory.c\<close>), and the generic lemmas on lists, options
  and words that the component theories use.
\<close>

section \<open>Collections of simplification rules\<close>

named_theorems cbits \<open>masks and shifts of non-negative integers as div and mod\<close>
named_theorems allocs \<open>behaviour of the allocator when no allocation fails\<close>

section \<open>Bytes and C strings\<close>

type_synonym byte = "8 word"

text \<open>A C string literal as the bytes before its terminating NUL.\<close>

definition cstr :: "string \<Rightarrow> byte list" where
  "cstr s = map of_char s"

lemma cstr_Nil [simp]: "cstr [] = []"
  by (simp add: cstr_def)

lemma cstr_Cons [simp]: "cstr (c # s) = of_char c # cstr s"
  by (simp add: cstr_def)

lemma cstr_append [simp]: "cstr (s @ t) = cstr s @ cstr t"
  by (simp add: cstr_def)

lemma length_cstr [simp]: "length (cstr s) = length s"
  by (simp add: cstr_def)

text \<open>The bytes a \<^verbatim>\<open>strlen\<close> of a buffer sees: everything before the first NUL.\<close>

definition c_string :: "byte list \<Rightarrow> byte list" where
  "c_string = takeWhile (\<lambda>b. b \<noteq> 0)"

lemma c_string_no_nul [simp]: "0 \<notin> set xs \<Longrightarrow> c_string xs = xs"
  by (auto simp: c_string_def takeWhile_eq_all_conv)

lemma c_string_append_nul [simp]: "0 \<notin> set xs \<Longrightarrow> c_string (xs @ 0 # ys) = xs"
  by (induction xs) (auto simp: c_string_def)

lemma c_string_append_0: "c_string (xs @ 0 # ys) = c_string xs"
  by (induction xs) (auto simp: c_string_def)

lemma c_string_no_zero [simp]: "0 \<notin> set (c_string xs)"
  by (auto simp: c_string_def dest: set_takeWhileD)

section \<open>Sizes\<close>

text \<open>\<^verbatim>\<open>(size_t)-1\<close> on the 64-bit targets.\<close>

definition SIZE_MAX :: nat where
  "SIZE_MAX = 2 ^ 64 - 1"

section \<open>The allocator\<close>

text \<open>
  An allocator state lists the outcomes of the calls of \<^verbatim>\<open>malloc\<close> that are still to
  come: \<^term>\<open>m 0\<close> tells whether the next one returns memory.  \<^verbatim>\<open>jsonp_malloc\<close>
  (\<^verbatim>\<open>memory.c\<close>) does not ask it for a request of size 0.
\<close>

type_synonym mem = "nat \<Rightarrow> bool"

definition jsonp_malloc :: "nat \<Rightarrow> mem \<Rightarrow> bool \<times> mem" where
  "jsonp_malloc n m = (if n = 0 then (False, m) else (m 0, \<lambda>i. m (Suc i)))"

definition mem_ok :: mem where
  "mem_ok = (\<lambda>_. True)"

lemma jsonp_malloc_ok [simp, allocs]: "0 < n \<Longrightarrow> jsonp_malloc n mem_ok = (True, mem_ok)"
  by (simp add: jsonp_malloc_def mem_ok_def)

lemma jsonp_malloc_0 [simp]: "jsonp_malloc 0 m = (False, m)"
  by (simp add: jsonp_malloc_def)

definition jsonp_strndup :: "byte list \<Rightarrow> nat \<Rightarrow> mem \<Rightarrow> byte list option \<times> mem" where
  "jsonp_strndup str len m =
     (case jsonp_malloc (len + 1) m of
        (False, m') \<Rightarrow> (None, m')
      | (True, m') \<Rightarrow> (Some (take len str), m'))"

definition jsonp_strdup :: "byte list \<Rightarrow> mem \<Rightarrow> byte list option \<times> mem" where
  "jsonp_strdup str m = jsonp_strndup str (length str) m"

lemma jsonp_strndup_ok [simp, allocs]: "jsonp_strndup s n mem_ok = (Some (take n s), mem_ok)"
  by (simp add: jsonp_strndup_def)

lemma jsonp_strdup_ok [simp, allocs]: "jsonp_strdup s mem_ok = (Some s, mem_ok)"
  by (simp add: jsonp_strdup_def)

text \<open>
  The two function pointers behind \<^verbatim>\<open>jsonp_malloc\<close> and \<^verbatim>\<open>jsonp_free\<close>.  \<^verbatim>\<open>json_get_alloc_funcs\<close> writes to the variables it is given, if they
  are not NULL.
\<close>

record ('m, 'f) alloc_funcs =
  do_malloc :: 'm
  do_free :: 'f

definition json_set_alloc_funcs :: "'m \<Rightarrow> 'f \<Rightarrow> ('m, 'f) alloc_funcs \<Rightarrow> ('m, 'f) alloc_funcs" where
  "json_set_alloc_funcs malloc_fn free_fn a = a\<lparr>do_malloc := malloc_fn, do_free := free_fn\<rparr>"

definition json_get_alloc_funcs :: "'m option \<Rightarrow> 'f option \<Rightarrow> ('m, 'f) alloc_funcs \<Rightarrow> 'm option \<times> 'f option" where
  "json_get_alloc_funcs malloc_fn free_fn a = (map_option (\<lambda>_. do_malloc a) malloc_fn, map_option (\<lambda>_. do_free a) free_fn)"

lemma alloc_funcs_get_set:
  "json_get_alloc_funcs (Some m0) (Some f0) (json_set_alloc_funcs m f a) = (Some m, Some f)"
  by (simp add: json_get_alloc_funcs_def json_set_alloc_funcs_def)

section \<open>Masks and shifts\<close>

lemma drop_bit_and_mask_int [cbits]:
  "drop_bit n (x AND m) = drop_bit n x AND drop_bit n (m::int)"
  by (simp add: drop_bit_and)

lemma int_and_mask_mod:
  "(x::int) AND (2 ^ n - 1) = x mod 2 ^ n"
  using take_bit_eq_mask [of n x] by (simp add: mask_eq_exp_minus_1 take_bit_eq_mod)

lemma int_and_masks [cbits]:
  "(x::int) AND 0x3F = x mod 64" "x AND 0x1F = x mod 32" "x AND 0xF = x mod 16"
  "x AND 0x7 = x mod 8" "x AND 0xFF = x mod 256" "x AND 0x3FF = x mod 1024"
  using int_and_mask_mod [of x 6] int_and_mask_mod [of x 5] int_and_mask_mod [of x 4]
    int_and_mask_mod [of x 3] int_and_mask_mod [of x 8] int_and_mask_mod [of x 10] by simp_all

lemma drop_bit_int_div [cbits]:
  "drop_bit 6 (x::int) = x div 64" "drop_bit 12 x = x div 4096" "drop_bit 18 x = x div 262144"
  "drop_bit 10 x = x div 1024"
  by (simp_all add: drop_bit_eq_div)

lemma push_bit_int_mult [cbits]:
  "push_bit 6 (x::int) = x * 64" "push_bit 4 x = x * 16" "push_bit 10 x = x * 1024"
  by (simp_all add: push_bit_eq_mult)

section \<open>Bytes as integers\<close>

text \<open>The C conversion of an \<^verbatim>\<open>int\<close> to a \<^verbatim>\<open>char\<close>: reduction modulo 256.\<close>

definition to_byte :: "int \<Rightarrow> byte" where
  "to_byte i = word_of_int i"

lemma uint_byte_range [simp]: "0 \<le> uint (b::byte)" "uint (b::byte) < 256"
  using uint_bounded [of b] by simp_all

lemma uint_to_byte [cbits]: "0 \<le> i \<Longrightarrow> i < 256 \<Longrightarrow> uint (to_byte i) = i"
  by (simp add: to_byte_def uint_word_of_int)

lemma to_byte_uint [simp]: "to_byte (uint b) = b"
  by (simp add: to_byte_def)

lemma to_byte_numeral [simp]: "to_byte (numeral w) = numeral w" "to_byte 0 = 0" "to_byte 1 = 1"
  by (simp_all add: to_byte_def)

lemma to_byte_sint [simp]: "to_byte (sint b) = b"
  by (simp add: to_byte_def)

lemma uint_eq_to_byte: "uint (b::byte) = i \<Longrightarrow> b = to_byte i"
  by auto

section \<open>Lists\<close>

lemma take_drop_split: "n \<le> length xs \<Longrightarrow> xs = take n xs @ drop n xs"
  by simp

lemma list_update_middle [simp]: "(xs @ y # ys)[length xs := z] = xs @ z # ys"
  by simp

end
