(* ===== verification/Utf8.thy ===== *)
theory Utf8
  imports Ripext_Prelude
begin

text \<open>
  \<^verbatim>\<open>jansson/src/utf.c\<close>: encoding of a code point, and the three checks of byte
  sequences.  An \<^verbatim>\<open>int32_t\<close> code point is an \<^typ>\<open>int\<close> (no operation of the file
  leaves the range of the type), an output buffer is the list of bytes written, and
  the \<^verbatim>\<open>-1\<close>, \<^verbatim>\<open>0\<close> and \<^verbatim>\<open>NULL\<close> results are \<^const>\<open>None\<close>.
\<close>

section \<open>Operations\<close>

definition utf8_encode :: "int \<Rightarrow> byte list option" where
  "utf8_encode codepoint =
     (if codepoint < 0 then None
      else if codepoint < 0x80 then Some [to_byte codepoint]
      else if codepoint < 0x800 then
        Some [to_byte (0xC0 + drop_bit 6 (codepoint AND 0x7C0)),
              to_byte (0x80 + (codepoint AND 0x03F))]
      else if codepoint < 0x10000 then
        Some [to_byte (0xE0 + drop_bit 12 (codepoint AND 0xF000)),
              to_byte (0x80 + drop_bit 6 (codepoint AND 0x0FC0)),
              to_byte (0x80 + (codepoint AND 0x003F))]
      else if codepoint \<le> 0x10FFFF then
        Some [to_byte (0xF0 + drop_bit 18 (codepoint AND 0x1C0000)),
              to_byte (0x80 + drop_bit 12 (codepoint AND 0x03F000)),
              to_byte (0x80 + drop_bit 6 (codepoint AND 0x000FC0)),
              to_byte (0x80 + (codepoint AND 0x00003F))]
      else None)"

definition utf8_check_first :: "byte \<Rightarrow> nat" where
  "utf8_check_first byte =
     (let u = uint byte in
      if u < 0x80 then 1
      else if 0x80 \<le> u \<and> u \<le> 0xBF then 0
      else if u = 0xC0 \<or> u = 0xC1 then 0
      else if 0xC2 \<le> u \<and> u \<le> 0xDF then 2
      else if 0xE0 \<le> u \<and> u \<le> 0xEF then 3
      else if 0xF0 \<le> u \<and> u \<le> 0xF4 then 4
      else 0)"

text \<open>The loop of \<^verbatim>\<open>utf8_check_full\<close> over the bytes after the first.\<close>

fun utf8_check_full_loop :: "byte list \<Rightarrow> int \<Rightarrow> int option" where
  "utf8_check_full_loop [] value = Some value"
| "utf8_check_full_loop (b # bs) value =
     (let u = uint b in
      if u < 0x80 \<or> u > 0xBF then None
      else utf8_check_full_loop bs (push_bit 6 value + (u AND 0x3F)))"

definition utf8_check_full :: "byte list \<Rightarrow> nat \<Rightarrow> int option" where
  "utf8_check_full buffer n =
     (let u = uint (buffer ! 0);
          start = (if n = 2 then Some (u AND 0x1F)
                   else if n = 3 then Some (u AND 0xF)
                   else if n = 4 then Some (u AND 0x7)
                   else None)
      in case start of
           None \<Rightarrow> None
         | Some v \<Rightarrow>
             (case utf8_check_full_loop (drop 1 (take n buffer)) v of
                None \<Rightarrow> None
              | Some value \<Rightarrow>
                  if value > 0x10FFFF then None
                  else if 0xD800 \<le> value \<and> value \<le> 0xDFFF then None
                  else if (n = 2 \<and> value < 0x80) \<or> (n = 3 \<and> value < 0x800) \<or>
                          (n = 4 \<and> value < 0x10000) then None
                  else Some value))"

text \<open>
  The result of \<^verbatim>\<open>utf8_iterate\<close> is the number of bytes the returned pointer is ahead of
  \<^verbatim>\<open>buffer\<close> and the code point, if it was stored.
\<close>

definition utf8_iterate :: "byte list \<Rightarrow> (nat \<times> int option) option" where
  "utf8_iterate buffer =
     (if buffer = [] then Some (0, None)
      else let count = utf8_check_first (buffer ! 0) in
        if count = 0 then None
        else if count = 1 then Some (1, Some (uint (buffer ! 0)))
        else if count > length buffer then None
        else case utf8_check_full buffer count of
               None \<Rightarrow> None
             | Some value \<Rightarrow> Some (count, Some value))"

function utf8_check_string :: "byte list \<Rightarrow> bool" where
  "utf8_check_string string =
     (if string = [] then True
      else let count = utf8_check_first (string ! 0) in
        if count = 0 then False
        else if count > 1 then
          (if count > length string then False
           else if utf8_check_full string count = None then False
           else utf8_check_string (drop count string))
        else utf8_check_string (drop 1 string))"
  by pat_completeness auto
termination
  by (relation "measure length") auto

declare utf8_check_string.simps [simp del]

section \<open>Reference: scalar values and their encodings\<close>

text \<open>Unicode scalar values: the code points that are not surrogate halves.\<close>

definition scalar :: "int \<Rightarrow> bool" where
  "scalar c \<longleftrightarrow> 0 \<le> c \<and> c \<le> 0x10FFFF \<and> \<not> (0xD800 \<le> c \<and> c \<le> 0xDFFF)"

definition utf8_of :: "int list \<Rightarrow> byte list" where
  "utf8_of cps = concat (map (\<lambda>c. the (utf8_encode c)) cps)"

section \<open>Encoding a scalar value and reading it back\<close>

lemma utf8_mask_lemmas [cbits]:
  "drop_bit 6 (c AND 0x7C0) = (c div 64) mod 32"
  "drop_bit 12 (c AND 0xF000) = (c div 4096) mod 16"
  "drop_bit 6 (c AND 0xFC0) = (c div 64) mod 64"
  "drop_bit 18 (c AND 0x1C0000) = (c div 262144) mod 8"
  "drop_bit 12 (c AND 0x3F000) = (c div 4096) mod 64" for c :: int
  by (simp_all add: drop_bit_and_mask_int int_and_masks drop_bit_int_div)

lemma utf8_encode_cases:
  assumes "scalar c"
  obtains (one) "c < 0x80" "utf8_encode c = Some [to_byte c]"
  | (two) "0x80 \<le> c" "c < 0x800"
      "utf8_encode c = Some [to_byte (0xC0 + c div 64), to_byte (0x80 + c mod 64)]"
  | (three) "0x800 \<le> c" "c < 0x10000"
      "utf8_encode c = Some [to_byte (0xE0 + c div 4096),
         to_byte (0x80 + (c div 64) mod 64), to_byte (0x80 + c mod 64)]"
  | (four) "0x10000 \<le> c" "c \<le> 0x10FFFF"
      "utf8_encode c = Some [to_byte (0xF0 + c div 262144),
         to_byte (0x80 + (c div 4096) mod 64), to_byte (0x80 + (c div 64) mod 64),
         to_byte (0x80 + c mod 64)]"
proof -
  have c: "0 \<le> c" "c \<le> 0x10FFFF" using assms by (auto simp: scalar_def)
  have m: "c < 0x800 \<Longrightarrow> (c div 64) mod 32 = c div 64"
    "c < 0x10000 \<Longrightarrow> (c div 4096) mod 16 = c div 4096"
    "(c div 262144) mod 8 = c div 262144"
    using c by (simp_all add: mod_pos_pos_trivial div_int_pos_iff)
  consider "c < 0x80" | "0x80 \<le> c" "c < 0x800" | "0x800 \<le> c" "c < 0x10000" | "0x10000 \<le> c"
    by linarith
  then show thesis
  proof cases
    case 1
    with c show ?thesis by (intro one) (simp_all add: utf8_encode_def)
  next
    case 2
    with c m show ?thesis
      by (intro two) (simp_all add: utf8_encode_def utf8_mask_lemmas int_and_masks drop_bit_int_div)
  next
    case 3
    with c m show ?thesis
      by (intro three) (simp_all add: utf8_encode_def utf8_mask_lemmas int_and_masks drop_bit_int_div)
  next
    case 4
    with c m show ?thesis
      by (intro four) (simp_all add: utf8_encode_def utf8_mask_lemmas int_and_masks drop_bit_int_div)
  qed
qed

text \<open>A continuation byte contributes its low six bits.\<close>

lemma check_full_loop_cont:
  "0 \<le> d \<Longrightarrow> d < 64 \<Longrightarrow>
   utf8_check_full_loop (to_byte (0x80 + d) # bs) v = utf8_check_full_loop bs (v * 64 + d)"
  by (simp add: Let_def uint_to_byte int_and_masks push_bit_int_mult mod_add_eq [of 128, symmetric])

lemma check_first_lead:
  "2 \<le> d \<Longrightarrow> d < 32 \<Longrightarrow> utf8_check_first (to_byte (0xC0 + d)) = 2"
  "0 \<le> d \<Longrightarrow> d < 16 \<Longrightarrow> utf8_check_first (to_byte (0xE0 + d)) = 3"
  "0 \<le> d \<Longrightarrow> d \<le> 4 \<Longrightarrow> utf8_check_first (to_byte (0xF0 + d)) = 4"
  "0 \<le> d \<Longrightarrow> d < 128 \<Longrightarrow> utf8_check_first (to_byte d) = 1"
  by (simp_all add: utf8_check_first_def Let_def uint_to_byte)

lemma lead_bits:
  "0 \<le> d \<Longrightarrow> d < 32 \<Longrightarrow> (0xC0 + d) mod 32 = (d::int)"
  "0 \<le> d \<Longrightarrow> d < 16 \<Longrightarrow> (0xE0 + d) mod 16 = (d::int)"
  "0 \<le> d \<Longrightarrow> d < 8 \<Longrightarrow> (0xF0 + d) mod 8 = (d::int)"
  by presburger+

lemma join_bits:
  "c div 64 * 64 + c mod 64 = (c::int)"
  "(c div 4096 * 64 + c div 64 mod 64) * 64 + c mod 64 = c"
  "((c div 262144 * 64 + c div 4096 mod 64) * 64 + c div 64 mod 64) * 64 + c mod 64 = c"
proof -
  have d: "c div 4096 = c div 64 div 64" "c div 262144 = c div 4096 div 64"
    by (simp_all add: zdiv_zmult2_eq [symmetric])
  show one: "c div 64 * 64 + c mod 64 = c" by simp
  have two: "c div 4096 * 64 + c div 64 mod 64 = c div 64" by (simp add: d)
  have three: "c div 262144 * 64 + c div 4096 mod 64 = c div 4096" by (simp only: d(2)) simp
  show "(c div 4096 * 64 + c div 64 mod 64) * 64 + c mod 64 = c" by (simp only: two one)
  show "((c div 262144 * 64 + c div 4096 mod 64) * 64 + c div 64 mod 64) * 64 + c mod 64 = c"
    by (simp only: three two one)
qed

text \<open>What the full check computes on well-shaped sequences.\<close>

definition utf8_range_ok :: "nat \<Rightarrow> int \<Rightarrow> bool" where
  "utf8_range_ok n value \<longleftrightarrow> value \<le> 0x10FFFF \<and> \<not> (0xD800 \<le> value \<and> value \<le> 0xDFFF) \<and>
     \<not> ((n = 2 \<and> value < 0x80) \<or> (n = 3 \<and> value < 0x800) \<or> (n = 4 \<and> value < 0x10000))"

lemma utf8_check_full_alt:
  "utf8_check_full (b # buf) n =
     (if n \<notin> {2, 3, 4} then None
      else case utf8_check_full_loop (take (n - 1) buf)
                  (uint b mod (if n = 2 then 32 else if n = 3 then 16 else 8)) of
             None \<Rightarrow> None
           | Some v \<Rightarrow> if utf8_range_ok n v then Some v else None)"
  by (auto simp: utf8_check_full_def Let_def int_and_masks utf8_range_ok_def take_Cons'
      split: option.splits)

lemmas utf8_seq_simps = utf8_check_full_alt check_first_lead lead_bits uint_to_byte
  check_full_loop_cont

lemma utf8_iterate_2:
  assumes "2 \<le> a" "a < 32" "0 \<le> b" "b < 64" "a * 64 + b = v" "utf8_range_ok 2 v"
  shows "utf8_iterate (to_byte (0xC0 + a) # to_byte (0x80 + b) # rest) = Some (2, Some v)"
  using assms by (simp add: utf8_iterate_def Let_def utf8_seq_simps del: utf8_check_full_loop.simps(2))

lemma utf8_iterate_3:
  assumes "0 \<le> a" "a < 16" "0 \<le> b" "b < 64" "0 \<le> d" "d < 64"
    "(a * 64 + b) * 64 + d = v" "utf8_range_ok 3 v"
  shows "utf8_iterate (to_byte (0xE0 + a) # to_byte (0x80 + b) # to_byte (0x80 + d) # rest)
    = Some (3, Some v)"
  using assms by (simp add: utf8_iterate_def Let_def utf8_seq_simps del: utf8_check_full_loop.simps(2))

lemma utf8_iterate_4:
  assumes "0 \<le> a" "a \<le> 4" "0 \<le> b" "b < 64" "0 \<le> d" "d < 64" "0 \<le> e" "e < 64"
    "((a * 64 + b) * 64 + d) * 64 + e = v" "utf8_range_ok 4 v"
  shows "utf8_iterate (to_byte (0xF0 + a) # to_byte (0x80 + b) # to_byte (0x80 + d) #
    to_byte (0x80 + e) # rest) = Some (4, Some v)"
  using assms by (simp add: utf8_iterate_def Let_def utf8_seq_simps del: utf8_check_full_loop.simps(2))

text \<open>Encoding a scalar value and reading it back, whatever follows in the buffer.\<close>

lemma utf8_iterate_encode:
  assumes "scalar c" and "utf8_encode c = Some bs"
  shows "utf8_iterate (bs @ rest) = Some (length bs, Some c)"
  using assms(1)
proof (cases rule: utf8_encode_cases)
  case one
  with assms show ?thesis
    by (auto simp: utf8_iterate_def Let_def check_first_lead uint_to_byte scalar_def)
next
  case two
  then have "utf8_range_ok 2 c" "2 \<le> c div 64" "c div 64 < 32"
    using assms(1) by (simp_all add: scalar_def utf8_range_ok_def)
  then show ?thesis
    using two assms(2) utf8_iterate_2 [of "c div 64" "c mod 64" c rest] by (simp add: join_bits)
next
  case three
  then have "utf8_range_ok 3 c" "0 \<le> c div 4096" "c div 4096 < 16"
    using assms(1) by (simp_all add: scalar_def utf8_range_ok_def div_int_pos_iff)
  then show ?thesis
    using three assms(2) utf8_iterate_3 [of "c div 4096" "c div 64 mod 64" "c mod 64" c rest,
        OF _ _ _ _ _ _ join_bits(2)] by simp
next
  case four
  then have "utf8_range_ok 4 c" "0 \<le> c div 262144" "c div 262144 \<le> 4"
    using assms(1) by (simp_all add: scalar_def utf8_range_ok_def div_int_pos_iff)
  then show ?thesis
    using four assms(2) utf8_iterate_4 [of "c div 262144" "c div 4096 mod 64" "c div 64 mod 64"
        "c mod 64" c rest, OF _ _ _ _ _ _ _ _ join_bits(3)] by simp
qed

section \<open>Only shortest encodings of scalar values are accepted\<close>

lemma cont_byte_mod: "0x80 \<le> u \<Longrightarrow> u \<le> 0xBF \<Longrightarrow> u mod 64 = u - (0x80::int)"
  by presburger

lemma check_full_loop_Some:
  "utf8_check_full_loop (b # bs) v = Some w \<Longrightarrow>
   \<exists>d. 0 \<le> d \<and> d < 64 \<and> b = to_byte (0x80 + d) \<and> utf8_check_full_loop bs (v * 64 + d) = Some w"
  by (rule exI [of _ "uint b - 0x80"])
    (auto simp: Let_def int_and_masks push_bit_int_mult cont_byte_mod split: if_splits)

lemma check_first_Some:
  "utf8_check_first b = 2 \<Longrightarrow> \<exists>a. 2 \<le> a \<and> a < 32 \<and> b = to_byte (0xC0 + a)"
  "utf8_check_first b = 3 \<Longrightarrow> \<exists>a. 0 \<le> a \<and> a < 16 \<and> b = to_byte (0xE0 + a)"
  "utf8_check_first b = 4 \<Longrightarrow> \<exists>a. 0 \<le> a \<and> a \<le> 4 \<and> b = to_byte (0xF0 + a)"
  "utf8_check_first b = 1 \<Longrightarrow> uint b < 128"
  by (rule exI [of _ "uint b - 0xC0"], simp add: utf8_check_first_def Let_def split: if_splits)
    (rule exI [of _ "uint b - 0xE0"], simp add: utf8_check_first_def Let_def split: if_splits,
     rule exI [of _ "uint b - 0xF0"], simp add: utf8_check_first_def Let_def split: if_splits,
     simp add: utf8_check_first_def Let_def split: if_splits)

lemma check_first_range: "utf8_check_first b \<in> {0, 1, 2, 3, 4}"
  by (simp add: utf8_check_first_def Let_def)

lemma split64:
  "0 \<le> d \<Longrightarrow> d < 64 \<Longrightarrow> (x * 64 + d) div 64 = (x::int)"
  "0 \<le> d \<Longrightarrow> d < 64 \<Longrightarrow> (x * 64 + d) mod 64 = (d::int)"
  by simp_all

lemma utf8_encode_2:
  "0 \<le> a \<Longrightarrow> a < 32 \<Longrightarrow> 0 \<le> b \<Longrightarrow> b < 64 \<Longrightarrow> utf8_range_ok 2 (a * 64 + b) \<Longrightarrow>
   utf8_encode (a * 64 + b) = Some [to_byte (0xC0 + a), to_byte (0x80 + b)]"
  by (simp add: utf8_encode_def utf8_mask_lemmas int_and_masks drop_bit_int_div utf8_range_ok_def)

lemma utf8_encode_34:
  "0x800 \<le> c \<Longrightarrow> c < 0x10000 \<Longrightarrow> utf8_encode c = Some [to_byte (0xE0 + (c div 4096) mod 16),
     to_byte (0x80 + (c div 64) mod 64), to_byte (0x80 + c mod 64)]"
  "0x10000 \<le> c \<Longrightarrow> c \<le> 0x10FFFF \<Longrightarrow> utf8_encode c = Some [to_byte (0xF0 + (c div 262144) mod 8),
     to_byte (0x80 + (c div 4096) mod 64), to_byte (0x80 + (c div 64) mod 64), to_byte (0x80 + c mod 64)]"
  by (simp_all add: utf8_encode_def utf8_mask_lemmas int_and_masks drop_bit_int_div)

lemma utf8_encode_3:
  assumes "0 \<le> a" "a < 16" "0 \<le> b" "b < 64" "0 \<le> d" "d < 64"
    and "utf8_range_ok 3 ((a * 64 + b) * 64 + d)"
  shows "utf8_encode ((a * 64 + b) * 64 + d)
    = Some [to_byte (0xE0 + a), to_byte (0x80 + b), to_byte (0x80 + d)]"
proof -
  let ?c = "(a * 64 + b) * 64 + d"
  have c64: "?c div 64 = a * 64 + b" "?c mod 64 = d" using assms(5,6) by (rule split64)+
  have "?c div 4096 = ?c div 64 div 64" by (simp add: zdiv_zmult2_eq [symmetric])
  also have "\<dots> = a" unfolding c64 using assms(3,4) by simp
  finally have "?c div 4096 = a" .
  moreover have "?c div 64 mod 64 = b" unfolding c64 using assms(3,4) by simp
  moreover have "0x800 \<le> ?c" using assms(7) by (simp add: utf8_range_ok_def)
  moreover have "?c < 0x10000"
  proof -
    have "a * 64 + b \<le> 1023" using assms(2,4) by linarith
    then have "(a * 64 + b) * 64 \<le> 1023 * 64" by (intro mult_right_mono) simp_all
    then show ?thesis using assms(6) by simp
  qed
  moreover have "a mod 16 = a" using assms(1,2) by simp
  ultimately show ?thesis using utf8_encode_34(1) [of ?c] c64(2) by (simp only:)
qed

lemma utf8_encode_4:
  assumes "0 \<le> a" "a \<le> 4" "0 \<le> b" "b < 64" "0 \<le> d" "d < 64" "0 \<le> e" "e < 64"
    and "utf8_range_ok 4 (((a * 64 + b) * 64 + d) * 64 + e)"
  shows "utf8_encode (((a * 64 + b) * 64 + d) * 64 + e)
    = Some [to_byte (0xF0 + a), to_byte (0x80 + b), to_byte (0x80 + d), to_byte (0x80 + e)]"
proof -
  let ?c = "((a * 64 + b) * 64 + d) * 64 + e"
  have c64: "?c div 64 = (a * 64 + b) * 64 + d" "?c mod 64 = e" using assms(7,8) by (rule split64)+
  have "?c div 4096 = ?c div 64 div 64" by (simp add: zdiv_zmult2_eq [symmetric])
  also have "\<dots> = a * 64 + b" unfolding c64 using assms(5,6) by simp
  finally have c4: "?c div 4096 = a * 64 + b" .
  have "?c div 262144 = ?c div 4096 div 64" by (simp add: zdiv_zmult2_eq [symmetric])
  also have "\<dots> = a" unfolding c4 using assms(3,4) by simp
  finally have "?c div 262144 = a" .
  moreover have "?c div 64 mod 64 = d" unfolding c64 using assms(5,6) by (rule split64)
  moreover have "?c div 4096 mod 64 = b" unfolding c4 using assms(3,4) by simp
  moreover have "0x10000 \<le> ?c" "?c \<le> 0x10FFFF" using assms(9) by (simp_all add: utf8_range_ok_def)
  moreover have "a mod 8 = a" using assms(1,2) by simp
  ultimately show ?thesis using utf8_encode_34(2) [of ?c] c64(2) by (simp only:)
qed

theorem utf8_iterate_sound:
  assumes "utf8_iterate s = Some (n, Some c)"
  shows "scalar c \<and> utf8_encode c = Some (take n s) \<and> 0 < n \<and> n \<le> length s"
proof -
  obtain b t where s: "s = b # t"
    using assms by (cases s) (auto simp: utf8_iterate_def)
  define k where "k = utf8_check_first b"
  consider "k = 1" | "k = 2" | "k = 3" | "k = 4"
    using assms s check_first_range [of b] by (auto simp: utf8_iterate_def k_def)
  then show ?thesis
  proof cases
    case 1
    then have "uint b < 128" "n = 1" "c = uint b"
      using assms s check_first_Some(4) [of b] by (auto simp: utf8_iterate_def k_def)
    with s show ?thesis by (auto simp: scalar_def utf8_encode_def)
  next
    case 2
    then obtain a where a: "2 \<le> a" "a < 32" "b = to_byte (0xC0 + a)"
      using check_first_Some(1) [of b] by (auto simp: k_def)
    from 2 assms s have "utf8_check_full s 2 = Some c" "n = 2" "2 \<le> length s"
      by (auto simp: utf8_iterate_def k_def Suc_le_eq split: if_splits option.splits)
    moreover then obtain b1 u where t: "t = b1 # u" using s by (cases t) auto
    ultimately have "utf8_check_full_loop [b1] a = Some c" "utf8_range_ok 2 c"
      using s a by (auto simp: utf8_check_full_alt lead_bits uint_to_byte
          simp del: utf8_check_full_loop.simps split: option.splits if_splits)
    moreover then obtain d where d: "0 \<le> d" "d < 64" "b1 = to_byte (0x80 + d)" "c = a * 64 + d"
      by (auto dest!: check_full_loop_Some simp del: utf8_check_full_loop.simps(2))
    ultimately show ?thesis
      using a s t \<open>n = 2\<close> utf8_encode_2 [of a d] by (auto simp: scalar_def utf8_range_ok_def)
  next
    case 3
    then obtain a where a: "0 \<le> a" "a < 16" "b = to_byte (0xE0 + a)"
      using check_first_Some(2) [of b] by (auto simp: k_def)
    from 3 assms s have "utf8_check_full s 3 = Some c" "n = 3" "3 \<le> length s"
      by (auto simp: utf8_iterate_def k_def Suc_le_eq split: if_splits option.splits)
    moreover then obtain b1 b2 u where t: "t = b1 # b2 # u"
      using s by (cases t; cases "tl t") auto
    ultimately have "utf8_check_full_loop [b1, b2] a = Some c" "utf8_range_ok 3 c"
      using s a by (auto simp: utf8_check_full_alt lead_bits uint_to_byte
          simp del: utf8_check_full_loop.simps split: option.splits if_splits)
    moreover then obtain d e where "0 \<le> d" "d < 64" "b1 = to_byte (0x80 + d)" "0 \<le> e" "e < 64"
      "b2 = to_byte (0x80 + e)" "c = (a * 64 + d) * 64 + e"
      by (auto dest!: check_full_loop_Some simp del: utf8_check_full_loop.simps(2))
    ultimately show ?thesis
      using a s t \<open>n = 3\<close> utf8_encode_3 [of a d e] by (auto simp: scalar_def utf8_range_ok_def)
  next
    case 4
    then obtain a where a: "0 \<le> a" "a \<le> 4" "b = to_byte (0xF0 + a)"
      using check_first_Some(3) [of b] by (auto simp: k_def)
    from 4 assms s have "utf8_check_full s 4 = Some c" "n = 4" "4 \<le> length s"
      by (auto simp: utf8_iterate_def k_def Suc_le_eq split: if_splits option.splits)
    moreover then obtain b1 b2 b3 u where t: "t = b1 # b2 # b3 # u"
      using s by (cases t; cases "tl t"; cases "tl (tl t)") auto
    ultimately have "utf8_check_full_loop [b1, b2, b3] a = Some c" "utf8_range_ok 4 c"
      using s a by (auto simp: utf8_check_full_alt lead_bits uint_to_byte
          simp del: utf8_check_full_loop.simps split: option.splits if_splits)
    moreover then obtain d e f where "0 \<le> d" "d < 64" "b1 = to_byte (0x80 + d)" "0 \<le> e" "e < 64"
      "b2 = to_byte (0x80 + e)" "0 \<le> f" "f < 64" "b3 = to_byte (0x80 + f)"
      "c = ((a * 64 + d) * 64 + e) * 64 + f"
      by (auto dest!: check_full_loop_Some simp del: utf8_check_full_loop.simps(2))
    ultimately show ?thesis
      using a s t \<open>n = 4\<close> utf8_encode_4 [of a d e f] by (auto simp: scalar_def utf8_range_ok_def)
  qed
qed

section \<open>The string check decides well-formed UTF-8\<close>

lemma utf8_iterate_None_Some:
  "utf8_iterate s = Some (n, None) \<longleftrightarrow> s = [] \<and> n = 0"
  by (auto simp: utf8_iterate_def Let_def split: if_splits option.splits)

lemma utf8_check_string_Nil [simp]: "utf8_check_string []"
  by (simp add: utf8_check_string.simps)

lemma utf8_check_string_iterate:
  "s \<noteq> [] \<Longrightarrow> utf8_check_string s =
     (case utf8_iterate s of None \<Rightarrow> False | Some (n, _) \<Rightarrow> utf8_check_string (drop n s))"
  using check_first_range [of "s ! 0"]
  by (subst utf8_check_string.simps) (auto simp: utf8_iterate_def Let_def split: option.splits)

lemma scalar_encode: "scalar c \<Longrightarrow> \<exists>bs. utf8_encode c = Some bs \<and> bs \<noteq> []"
  by (erule utf8_encode_cases) auto

lemma utf8_of_simps [simp]:
  "utf8_of [] = []" "utf8_of (c # cs) = the (utf8_encode c) @ utf8_of cs"
  by (simp_all add: utf8_of_def)

lemma utf8_check_string_of: "\<forall>c \<in> set cps. scalar c \<Longrightarrow> utf8_check_string (utf8_of cps)"
proof (induction cps)
  case Nil
  then show ?case by simp
next
  case (Cons c cps)
  then obtain bs where bs: "utf8_encode c = Some bs" "bs \<noteq> []" using scalar_encode [of c] by auto
  then have "utf8_iterate (bs @ utf8_of cps) = Some (length bs, Some c)"
    using Cons.prems utf8_iterate_encode by simp
  with bs Cons show ?case by (simp add: utf8_check_string_iterate)
qed

lemma utf8_check_string_sound:
  "utf8_check_string s \<Longrightarrow> \<exists>cps. (\<forall>c \<in> set cps. scalar c) \<and> s = utf8_of cps"
proof (induction s rule: length_induct)
  case (1 s)
  show ?case
  proof (cases "s = []")
    case True
    then show ?thesis by (intro exI [of _ "[]"]) simp
  next
    case False
    with "1.prems" obtain n oc where it: "utf8_iterate s = Some (n, oc)"
      and rest: "utf8_check_string (drop n s)"
      by (auto simp: utf8_check_string_iterate split: option.splits)
    with False obtain c where c: "oc = Some c" by (cases oc) (auto simp: utf8_iterate_None_Some)
    with it have snd: "scalar c" "utf8_encode c = Some (take n s)" "0 < n" "n \<le> length s"
      using utf8_iterate_sound by blast+
    then obtain cps where "\<forall>c \<in> set cps. scalar c" "drop n s = utf8_of cps"
      using "1.IH" rest False by (metis length_drop diff_less length_greater_0_conv)
    with snd show ?thesis
      by (intro exI [of _ "c # cps"]) (simp, metis append_take_drop_id)
  qed
qed

section \<open>Properties of the codec\<close>

text \<open>
  C25: the decoder accepts exactly the shortest encodings of Unicode scalar values.
  \<^verbatim>\<open>utf8_iterate\<close> reads a code point from the front of a buffer if and only if the code
  point is a scalar value (no surrogate, at most 0x10FFFF) and the bytes it consumed are
  the ones \<^verbatim>\<open>utf8_encode\<close> writes for it; overlong forms, truncated sequences and stray
  continuation bytes are all refused.
\<close>

theorem utf8_iterate_exact:
  "utf8_iterate s = Some (n, Some c) \<longleftrightarrow>
     scalar c \<and> utf8_encode c = Some (take n s) \<and> 0 < n \<and> n \<le> length s"
proof
  assume "scalar c \<and> utf8_encode c = Some (take n s) \<and> 0 < n \<and> n \<le> length s"
  then show "utf8_iterate s = Some (n, Some c)"
    using utf8_iterate_encode [of c "take n s" "drop n s"] by simp
qed (use utf8_iterate_sound in blast)

text \<open>
  C26: \<^verbatim>\<open>utf8_check_string\<close> decides well-formed UTF-8: it returns 1 exactly for the
  concatenations of encoded scalar values.
\<close>

theorem utf8_check_string_decides:
  "utf8_check_string s \<longleftrightarrow> (\<exists>cps. list_all scalar cps \<and> s = utf8_of cps)"
  using utf8_check_string_sound [of s] utf8_check_string_of by (auto simp: list_all_iff)

end
