(* ===== verification/Strbuffer.thy ===== *)
theory Strbuffer
  imports Ripext_Prelude
begin

text \<open>
  \<^verbatim>\<open>jansson/src/strbuffer.c\<close>: the growing byte buffer behind the lexer's saved text
  and behind \<^verbatim>\<open>json_dumps\<close>.  The allocated block is a list of \<^verbatim>\<open>size\<close> bytes; the
  content of fresh memory is represented by zero bytes, which no operation reads
  before writing.  Sizes are \<^verbatim>\<open>size_t\<close>, with their wrap-around written out.
\<close>

section \<open>State and operations\<close>

record strbuffer =
  sb_value :: "byte list option"
  sb_length :: nat
  sb_size :: nat

definition STRBUFFER_MIN_SIZE :: nat where "STRBUFFER_MIN_SIZE = 16"
definition STRBUFFER_FACTOR :: nat where "STRBUFFER_FACTOR = 2"
definition STRBUFFER_SIZE_MAX :: nat where "STRBUFFER_SIZE_MAX = SIZE_MAX"

text \<open>\<^verbatim>\<open>a - b\<close> on \<^verbatim>\<open>size_t\<close>.\<close>

definition size_sub :: "nat \<Rightarrow> nat \<Rightarrow> nat" where
  "size_sub a b = (a + 2 ^ 64 - b) mod 2 ^ 64"

text \<open>\<^verbatim>\<open>memcpy(block + off, data, length data)\<close>.\<close>

definition mem_write :: "byte list \<Rightarrow> nat \<Rightarrow> byte list \<Rightarrow> byte list" where
  "mem_write block off data = take off block @ data @ drop (off + length data) block"

definition strbuffer_init :: "mem \<Rightarrow> int \<times> strbuffer \<times> mem" where
  "strbuffer_init m =
     (let sz = STRBUFFER_MIN_SIZE in
      case jsonp_malloc sz m of
        (False, m') \<Rightarrow> (-1, \<lparr>sb_value = None, sb_length = 0, sb_size = sz\<rparr>, m')
      | (True, m') \<Rightarrow>
          (0, \<lparr>sb_value = Some ((replicate sz 0)[0 := 0]), sb_length = 0, sb_size = sz\<rparr>, m'))"

definition strbuffer_close :: "strbuffer \<Rightarrow> strbuffer" where
  "strbuffer_close sb = \<lparr>sb_value = None, sb_length = 0, sb_size = 0\<rparr>"

definition strbuffer_clear :: "strbuffer \<Rightarrow> strbuffer" where
  "strbuffer_clear sb = sb\<lparr>sb_length := 0, sb_value := map_option (\<lambda>v. v[0 := 0]) (sb_value sb)\<rparr>"

definition strbuffer_value :: "strbuffer \<Rightarrow> byte list option" where
  "strbuffer_value sb = sb_value sb"

definition strbuffer_steal_value :: "strbuffer \<Rightarrow> byte list option \<times> strbuffer" where
  "strbuffer_steal_value sb = (sb_value sb, sb\<lparr>sb_value := None\<rparr>)"

text \<open>The growth step of \<^verbatim>\<open>strbuffer_append_bytes\<close>; \<^const>\<open>None\<close> is its \<^verbatim>\<open>return -1\<close>.\<close>

definition strbuffer_grow :: "strbuffer \<Rightarrow> nat \<Rightarrow> mem \<Rightarrow> strbuffer option \<times> mem" where
  "strbuffer_grow sb n m =
     (if sb_size sb > STRBUFFER_SIZE_MAX div STRBUFFER_FACTOR \<or>
         n > STRBUFFER_SIZE_MAX - 1 \<or>
         sb_length sb > STRBUFFER_SIZE_MAX - 1 - n
      then (None, m)
      else
        let new_size = max (sb_size sb * STRBUFFER_FACTOR) (sb_length sb + n + 1) in
        case jsonp_malloc new_size m of
          (False, m') \<Rightarrow> (None, m')
        | (True, m') \<Rightarrow>
            (Some (sb\<lparr>sb_value := Some (mem_write (replicate new_size 0) 0
                                     (take (sb_length sb) (the (sb_value sb)))),
                     sb_size := new_size\<rparr>), m'))"

definition strbuffer_append_bytes ::
  "strbuffer \<Rightarrow> byte list \<Rightarrow> mem \<Rightarrow> int \<times> strbuffer \<times> mem" where
  "strbuffer_append_bytes sb data m =
     (let n = length data;
          (grown, m') = (if n \<ge> size_sub (sb_size sb) (sb_length sb)
                         then strbuffer_grow sb n m else (Some sb, m))
      in case grown of
           None \<Rightarrow> (-1, sb, m')
         | Some sb1 \<Rightarrow>
             let v = mem_write (the (sb_value sb1)) (sb_length sb1) data;
                 len = sb_length sb1 + n
             in (0, sb1\<lparr>sb_value := Some (v[len := 0]), sb_length := len\<rparr>, m'))"

definition strbuffer_append_byte :: "strbuffer \<Rightarrow> byte \<Rightarrow> mem \<Rightarrow> int \<times> strbuffer \<times> mem" where
  "strbuffer_append_byte sb b m = strbuffer_append_bytes sb [b] m"

definition strbuffer_pop :: "strbuffer \<Rightarrow> byte \<times> strbuffer" where
  "strbuffer_pop sb =
     (if sb_length sb > 0 then
        let len = sb_length sb - 1;
            c = the (sb_value sb) ! len
        in (c, sb\<lparr>sb_length := len, sb_value := map_option (\<lambda>v. v[len := 0]) (sb_value sb)\<rparr>)
      else (0, sb))"

section \<open>Invariant and abstraction\<close>

text \<open>A buffer in use: its block has \<^verbatim>\<open>size\<close> bytes and the content is NUL-terminated inside it.\<close>

definition sb_wf :: "strbuffer \<Rightarrow> bool" where
  "sb_wf sb \<longleftrightarrow> (case sb_value sb of None \<Rightarrow> False
     | Some v \<Rightarrow> length v = sb_size sb \<and> sb_length sb < sb_size sb \<and> sb_size sb \<le> SIZE_MAX \<and>
         v ! sb_length sb = 0)"

definition sb_content :: "strbuffer \<Rightarrow> byte list" where
  "sb_content sb = take (sb_length sb) (the (sb_value sb))"

lemma sb_wfE:
  assumes "sb_wf sb"
  obtains v where "sb_value sb = Some v" "length v = sb_size sb" "sb_length sb < sb_size sb"
    "sb_size sb \<le> SIZE_MAX" "v ! sb_length sb = 0"
  using assms by (auto simp: sb_wf_def split: option.splits)

lemma length_sb_content [simp]: "sb_wf sb \<Longrightarrow> length (sb_content sb) = sb_length sb"
  by (auto simp: sb_content_def elim!: sb_wfE)

lemma size_sub_le [simp]:
  assumes "b \<le> a" "a \<le> SIZE_MAX"
  shows "size_sub a b = a - b"
proof -
  have "a < 2 ^ 64" using assms(2) by (auto simp: SIZE_MAX_def)
  then have lt: "a - b < 2 ^ 64" by (rule le_less_trans [OF diff_le_self])
  have "a + 2 ^ 64 - b = (a - b) + 2 ^ 64" using assms(1) by (rule diff_add_assoc2)
  then show ?thesis using lt unfolding size_sub_def by (simp only: mod_add_self2 mod_less)
qed

lemma strbuffer_init_ok [simp]:
  "strbuffer_init mem_ok = (0, \<lparr>sb_value = Some (replicate 16 0), sb_length = 0, sb_size = 16\<rparr>, mem_ok)"
  by (simp add: strbuffer_init_def STRBUFFER_MIN_SIZE_def Let_def list_update_same_conv)

lemma strbuffer_init_wf:
  "strbuffer_init m = (0, sb, m') \<Longrightarrow> sb_wf sb \<and> sb_content sb = []"
  by (auto simp: strbuffer_init_def STRBUFFER_MIN_SIZE_def Let_def sb_wf_def sb_content_def
      SIZE_MAX_def split: prod.splits bool.splits)

lemma strbuffer_clear_wf: "sb_wf sb \<Longrightarrow> sb_wf (strbuffer_clear sb)"
  by (auto simp: strbuffer_clear_def sb_wf_def split: option.splits)

lemma strbuffer_clear_content [simp]: "sb_content (strbuffer_clear sb) = []"
  by (simp add: strbuffer_clear_def sb_content_def)

lemma strbuffer_grow_Some:
  assumes "sb_wf sb" "strbuffer_grow sb n m = (Some sb', m')"
  shows "(\<exists>v. sb_value sb' = Some v \<and> length v = sb_size sb' \<and> take (sb_length sb) v = sb_content sb) \<and>
    sb_length sb' = sb_length sb \<and> sb_length sb + n < sb_size sb' \<and> sb_size sb' \<le> SIZE_MAX"
proof -
  obtain v where v: "sb_value sb = Some v" "length v = sb_size sb" "sb_length sb < sb_size sb"
    using assms(1) by (rule sb_wfE)
  from assms(2) have bounds: "\<not> sb_size sb > SIZE_MAX div 2" "\<not> n > SIZE_MAX - 1"
    "\<not> sb_length sb > SIZE_MAX - 1 - n"
    and sb': "sb' = sb\<lparr>sb_value := Some (mem_write (replicate (max (sb_size sb * 2) (sb_length sb + n + 1)) 0) 0
                (take (sb_length sb) v)), sb_size := max (sb_size sb * 2) (sb_length sb + n + 1)\<rparr>"
    by (auto simp: strbuffer_grow_def STRBUFFER_SIZE_MAX_def STRBUFFER_FACTOR_def v(1) Let_def
        split: if_splits prod.splits bool.splits)
  have "sb_size sb * 2 \<le> SIZE_MAX" "sb_length sb + n + 1 \<le> SIZE_MAX"
    using bounds by (auto simp: SIZE_MAX_def)
  then show ?thesis using v by (auto simp: sb' mem_write_def sb_content_def)
qed

text \<open>Appending: success extends the content, failure leaves the buffer untouched.\<close>

lemma strbuffer_append_bytes_0:
  assumes "sb_wf sb" "strbuffer_append_bytes sb data m = (0, sb', m')"
  shows "sb_wf sb' \<and> sb_content sb' = sb_content sb @ data"
proof -
  obtain v where v: "sb_value sb = Some v" "length v = sb_size sb" "sb_length sb < sb_size sb"
    "sb_size sb \<le> SIZE_MAX"
    using assms(1) by (rule sb_wfE)
  have "\<exists>sb1 v1. sb_value sb1 = Some v1 \<and> length v1 = sb_size sb1 \<and>
      take (sb_length sb) v1 = sb_content sb \<and> sb_length sb1 = sb_length sb \<and>
      sb_length sb + length data < sb_size sb1 \<and> sb_size sb1 \<le> SIZE_MAX \<and>
      sb' = sb1\<lparr>sb_value := Some ((mem_write v1 (sb_length sb) data)[sb_length sb + length data := 0]),
                sb_length := sb_length sb + length data\<rparr>"
  proof (cases "length data \<ge> size_sub (sb_size sb) (sb_length sb)")
    case True
    with assms(2) obtain sb1 m1 where "strbuffer_grow sb (length data) m = (Some sb1, m1)"
      and "sb' = sb1\<lparr>sb_value := Some ((mem_write (the (sb_value sb1)) (sb_length sb1) data)
             [sb_length sb1 + length data := 0]), sb_length := sb_length sb1 + length data\<rparr>"
      by (auto simp: strbuffer_append_bytes_def Let_def split: prod.splits option.splits)
    with strbuffer_grow_Some [OF assms(1)] show ?thesis by (intro exI [of _ sb1]) fastforce
  next
    case False
    with assms(2) v show ?thesis
      by (intro exI [of _ sb]) (auto simp: strbuffer_append_bytes_def Let_def sb_content_def)
  qed
  then obtain sb1 v1 where sb1: "sb_value sb1 = Some v1" "length v1 = sb_size sb1"
      "take (sb_length sb) v1 = sb_content sb" "sb_length sb1 = sb_length sb"
      "sb_length sb + length data < sb_size sb1" "sb_size sb1 \<le> SIZE_MAX"
      "sb' = sb1\<lparr>sb_value := Some ((mem_write v1 (sb_length sb) data)[sb_length sb + length data := 0]),
                sb_length := sb_length sb + length data\<rparr>"
    by blast
  obtain y ys where y: "drop (sb_length sb + length data) v1 = y # ys"
    using sb1(2,5) by (cases "drop (sb_length sb + length data) v1") auto
  have len: "length (sb_content sb @ data) = sb_length sb + length data"
    using assms(1) by simp
  have "mem_write v1 (sb_length sb) data = (sb_content sb @ data) @ y # ys"
    by (simp add: mem_write_def sb1(3) y)
  then have upd: "(mem_write v1 (sb_length sb) data)[sb_length sb + length data := 0]
      = (sb_content sb @ data) @ 0 # ys"
    by (simp only: len [symmetric] list_update_middle)
  have "length (drop (sb_length sb + length data) v1) = Suc (length ys)" by (simp only: y) simp
  then have "sb_size sb1 = sb_length sb + length data + Suc (length ys)" using sb1(2,5) by simp
  then show ?thesis unfolding sb1(7) upd sb_wf_def
    using len sb1(5,6) assms(1) by (simp add: sb_content_def [of "_\<lparr>sb_length := _\<rparr>"] nth_append)
qed

lemma strbuffer_append_bytes_fail:
  "strbuffer_append_bytes sb data m = (r, sb', m') \<Longrightarrow> r = 0 \<or> r = -1 \<and> sb' = sb"
  by (auto simp: strbuffer_append_bytes_def Let_def split: prod.splits option.splits if_splits)

text \<open>With memory available, an append fails only where the sizes would leave \<^verbatim>\<open>size_t\<close>.\<close>

lemma strbuffer_append_bytes_mem_ok:
  assumes "sb_wf sb" "sb_size sb + length data \<le> SIZE_MAX div 2"
  shows "\<exists>sb'. strbuffer_append_bytes sb data mem_ok = (0, sb', mem_ok) \<and>
           sb_size sb' \<le> max (sb_size sb * 2) (sb_length sb + length data + 1)"
proof -
  obtain v where v: "sb_value sb = Some v" "sb_length sb < sb_size sb"
    using assms(1) by (rule sb_wfE)
  have "\<not> sb_size sb > SIZE_MAX div 2" "\<not> length data > SIZE_MAX - 1"
    "\<not> sb_length sb > SIZE_MAX - 1 - length data"
    using assms(2) v(2) by (auto simp: SIZE_MAX_def)
  then show ?thesis
    by (auto simp: strbuffer_append_bytes_def strbuffer_grow_def STRBUFFER_SIZE_MAX_def
        STRBUFFER_FACTOR_def Let_def)
qed

lemma strbuffer_pop_snoc:
  assumes "sb_wf sb" "sb_content sb = xs @ [c]" "strbuffer_pop sb = (d, sb')"
  shows "d = c \<and> sb_wf sb' \<and> sb_content sb' = xs \<and> sb_size sb' = sb_size sb"
proof -
  obtain v where v: "sb_value sb = Some v" "length v = sb_size sb" "sb_length sb < sb_size sb"
    "sb_size sb \<le> SIZE_MAX"
    using assms(1) by (rule sb_wfE)
  have len: "sb_length sb = Suc (length xs)"
    using length_sb_content [OF assms(1)] assms(2) by simp
  have take: "take (Suc (length xs)) v = xs @ [c]"
    using assms(2) v(1) len by (simp add: sb_content_def)
  then have "v ! length xs = c" "take (length xs) v = xs"
    using v len by (simp_all add: take_Suc_conv_app_nth)
  with v len assms(3) show ?thesis
    by (auto simp: strbuffer_pop_def sb_wf_def sb_content_def Let_def)
qed

lemma strbuffer_pop_empty: "sb_wf sb \<Longrightarrow> sb_content sb = [] \<Longrightarrow> strbuffer_pop sb = (0, sb)"
  using length_sb_content [of sb] by (simp add: strbuffer_pop_def)

text \<open>What a reader of \<^verbatim>\<open>strbuffer_value\<close> as a C string sees.\<close>

lemma strbuffer_value_c_string:
  assumes "sb_wf sb"
  shows "\<exists>v. strbuffer_value sb = Some v \<and> c_string v = c_string (sb_content sb)"
proof -
  obtain v where v: "sb_value sb = Some v" "length v = sb_size sb" "sb_length sb < sb_size sb"
    "v ! sb_length sb = 0"
    using assms by (rule sb_wfE)
  then have "v = sb_content sb @ 0 # drop (Suc (sb_length sb)) v"
    using id_take_nth_drop [of "sb_length sb" v] by (simp add: sb_content_def)
  then have "c_string v = c_string (sb_content sb @ 0 # drop (Suc (sb_length sb)) v)" by simp
  also have "\<dots> = c_string (sb_content sb)"
    by (rule c_string_append_0)
  finally show ?thesis using v(1) by (simp add: strbuffer_value_def)
qed

section \<open>Properties of the string buffer\<close>

text \<open>
  C35: on a well-formed buffer \<^verbatim>\<open>strbuffer_append_bytes\<close> either appends exactly the given
  bytes and keeps the buffer well formed (terminated by NUL, within its allocation), or
  returns -1 and leaves the buffer untouched; it is one of the two on every outcome of the
  allocator, and a following \<^verbatim>\<open>strbuffer_pop\<close> takes back the last byte.
\<close>

theorem strbuffer_append_pop:
  assumes "sb_wf sb" "strbuffer_append_bytes sb data m = (r, sb', m')"
  shows "(r = 0 \<and> sb_wf sb' \<and> sb_content sb' = sb_content sb @ data \<and>
      (data \<noteq> [] \<longrightarrow> fst (strbuffer_pop sb') = last data \<and>
         sb_wf (snd (strbuffer_pop sb')) \<and>
         sb_content (snd (strbuffer_pop sb')) = sb_content sb @ butlast data)) \<or>
    (r = -1 \<and> sb' = sb)"
proof (cases "r = 0")
  case True
  then have app: "sb_wf sb'" "sb_content sb' = sb_content sb @ data"
    using strbuffer_append_bytes_0 [of sb data m sb' m'] assms by auto
  have "fst (strbuffer_pop sb') = last data \<and> sb_wf (snd (strbuffer_pop sb')) \<and>
      sb_content (snd (strbuffer_pop sb')) = sb_content sb @ butlast data" if "data \<noteq> []"
  proof -
    have "sb_content sb' = (sb_content sb @ butlast data) @ [last data]" using app that by simp
    then show ?thesis using strbuffer_pop_snoc [OF app(1)] by (metis prod.collapse)
  qed
  with True app show ?thesis by simp
qed (use strbuffer_append_bytes_fail [OF assms(2)] in simp)

theorem strbuffer_append_pop_witness:
  "let sb = fst (snd (strbuffer_init mem_ok)); (r, sb', m') = strbuffer_append_bytes sb [104, 105] mem_ok
   in r = 0 \<and> sb_content sb' = [104, 105] \<and> fst (strbuffer_pop sb') = 105"
proof -
  let ?sb = "fst (snd (strbuffer_init mem_ok))"
  have wf: "sb_wf ?sb" using strbuffer_init_wf [of mem_ok] by (metis prod.collapse strbuffer_init_ok fst_conv snd_conv)
  obtain r sb' m' where st: "strbuffer_append_bytes ?sb [104, 105] mem_ok = (r, sb', m')"
    by (metis surj_pair)
  have "sb_size ?sb + length [104, 105 :: byte] \<le> SIZE_MAX div 2"
    by (simp add: strbuffer_init_def STRBUFFER_MIN_SIZE_def SIZE_MAX_def)
  then have "r = 0" using strbuffer_append_bytes_mem_ok [OF wf] st by (metis prod.inject)
  moreover have "sb_content ?sb = []" by (simp add: strbuffer_init_def STRBUFFER_MIN_SIZE_def sb_content_def)
  ultimately show ?thesis using strbuffer_append_pop [OF wf st] st by simp
qed

end
