(* ===== verification/C_Numbers.thy ===== *)
theory C_Numbers
  imports Ripext_Prelude "HOL-Library.Log_Nat"
begin

text \<open>
  What the sources use of the C library's numeric conversions: \<^verbatim>\<open>%d\<close>, \<^verbatim>\<open>%x\<close> and
  \<^verbatim>\<open>%04X\<close> of \<^verbatim>\<open>snprintf\<close>, \<^verbatim>\<open>strtoll\<close>, and on IEEE 754 binary64 values \<^verbatim>\<open>strtod\<close>
  and \<^verbatim>\<open>%.*g\<close>.  A \<^verbatim>\<open>double\<close> is its 64-bit pattern; conversions are exact rational
  arithmetic followed by one rounding to nearest, ties to even.
\<close>

section \<open>Integers\<close>

fun nat_digits :: "nat \<Rightarrow> nat \<Rightarrow> nat list" where
  "nat_digits b n = (if b < 2 \<or> n < b then [n] else nat_digits b (n div b) @ [n mod b])"

declare nat_digits.simps [simp del]

definition digit_byte :: "bool \<Rightarrow> nat \<Rightarrow> byte" where
  "digit_byte upper d = (if d < 10 then to_byte (48 + int d)
     else if upper then to_byte (55 + int d) else to_byte (87 + int d))"

definition fmt_u :: "nat \<Rightarrow> byte list" where
  "fmt_u n = map (digit_byte False) (nat_digits 10 n)"

definition fmt_d :: "int \<Rightarrow> byte list" where
  "fmt_d i = (if i < 0 then cstr ''-'' @ fmt_u (nat (- i)) else fmt_u (nat i))"

definition fmt_x :: "nat \<Rightarrow> byte list" where
  "fmt_x n = map (digit_byte False) (nat_digits 16 n)"

definition fmt_04X :: "nat \<Rightarrow> byte list" where
  "fmt_04X n = (let ds = map (digit_byte True) (nat_digits 16 n)
                in replicate (4 - length ds) 48 @ ds)"

definition l_isdigit :: "int \<Rightarrow> bool" where
  "l_isdigit c \<longleftrightarrow> 48 \<le> c \<and> c \<le> 57"

definition is_digit_byte :: "byte \<Rightarrow> bool" where
  "is_digit_byte b \<longleftrightarrow> l_isdigit (uint b)"

definition is_space_byte :: "byte \<Rightarrow> bool" where
  "is_space_byte b \<longleftrightarrow> b = 32 \<or> (9 \<le> uint b \<and> uint b \<le> 13)"

definition digits_value :: "byte list \<Rightarrow> nat" where
  "digits_value = foldl (\<lambda>v b. 10 * v + (unat b - 48)) 0"

definition LLONG_MAX :: int where "LLONG_MAX = 2 ^ 63 - 1"
definition LLONG_MIN :: int where "LLONG_MIN = - (2 ^ 63)"

text \<open>
  \<^verbatim>\<open>strtoll(s, &end, 10)\<close>: the value, whether \<^verbatim>\<open>errno\<close> was set to \<^verbatim>\<open>ERANGE\<close>, and the
  offset of \<^verbatim>\<open>end\<close>.
\<close>

definition strtoll :: "byte list \<Rightarrow> int \<times> bool \<times> nat" where
  "strtoll s =
     (let ws = takeWhile is_space_byte s;
          s1 = drop (length ws) s;
          signed = (s1 \<noteq> [] \<and> (s1 ! 0 = 45 \<or> s1 ! 0 = 43));
          neg = (s1 \<noteq> [] \<and> s1 ! 0 = 45);
          s2 = (if signed then drop 1 s1 else s1);
          ds = takeWhile is_digit_byte s2
      in if ds = [] then (0, False, 0)
         else
           let v = (if neg then - int (digits_value ds) else int (digits_value ds));
               e = length ws + (if signed then 1 else 0) + length ds
           in if v > LLONG_MAX then (LLONG_MAX, True, e)
              else if v < LLONG_MIN then (LLONG_MIN, True, e)
              else (v, False, e))"

section \<open>Doubles\<close>

type_synonym double = "64 word"

definition dbl_sign :: "double \<Rightarrow> bool" where
  "dbl_sign x = bit x 63"

definition dbl_exp :: "double \<Rightarrow> nat" where
  "dbl_exp x = (unat x div 2 ^ 52) mod 2 ^ 11"

definition dbl_man :: "double \<Rightarrow> nat" where
  "dbl_man x = unat x mod 2 ^ 52"

definition mk_double :: "bool \<Rightarrow> nat \<Rightarrow> nat \<Rightarrow> double" where
  "mk_double sign e man = of_nat ((if sign then 2 ^ 63 else 0) + e * 2 ^ 52 + man)"

definition c_isnan :: "double \<Rightarrow> bool" where
  "c_isnan x \<longleftrightarrow> dbl_exp x = 2047 \<and> dbl_man x \<noteq> 0"

definition c_isinf :: "double \<Rightarrow> bool" where
  "c_isinf x \<longleftrightarrow> dbl_exp x = 2047 \<and> dbl_man x = 0"

text \<open>The magnitude of a finite double is \<^verbatim>\<open>m * 2^e\<close> for its significand pair.\<close>

definition dbl_sig :: "double \<Rightarrow> nat \<times> int" where
  "dbl_sig x = (if dbl_exp x = 0 then (dbl_man x, -1074)
                else (2 ^ 52 + dbl_man x, int (dbl_exp x) - 1075))"

definition round_half_even :: "nat \<Rightarrow> nat \<Rightarrow> nat" where
  "round_half_even n d =
     (let q = n div d; r = n mod d
      in if 2 * r < d then q else if 2 * r > d then q + 1 else if even q then q else q + 1)"

text \<open>\<^term>\<open>num / den\<close> scaled by a power of the base and rounded to an integer.\<close>

definition scaled_round :: "nat \<Rightarrow> nat \<Rightarrow> nat \<Rightarrow> int \<Rightarrow> nat" where
  "scaled_round base num den e =
     (if e \<ge> 0 then round_half_even num (den * base ^ nat e)
      else round_half_even (num * base ^ nat (- e)) den)"

definition scaled_ge :: "nat \<Rightarrow> nat \<Rightarrow> nat \<Rightarrow> int \<Rightarrow> bool" where
  "scaled_ge base num den e =
     (if e \<ge> 0 then num \<ge> den * base ^ nat e else num * base ^ nat (- e) \<ge> den)"

text \<open>
  The double nearest to \<^term>\<open>num / den\<close> for \<^term>\<open>den \<noteq> (0::nat)\<close>; infinity when the
  rounded significand does not fit below \<^verbatim>\<open>DBL_MAX\<close>.
\<close>

definition round_double :: "bool \<Rightarrow> nat \<Rightarrow> nat \<Rightarrow> double" where
  "round_double sign num den =
     (if num = 0 then mk_double sign 0 0
      else
        let e0 = int (floorlog 2 num) - int (floorlog 2 den) - 53;
            e1 = (if scaled_ge 2 num den (e0 + 53) then e0 + 1 else e0);
            e = max e1 (-1074);
            m = scaled_round 2 num den e;
            (m', e') = (if m = 2 ^ 53 then (2 ^ 52, e + 1) else (m, e))
        in if e' > 971 then mk_double sign 2047 0
           else if m' < 2 ^ 52 then mk_double sign 0 m'
           else mk_double sign (nat (e' + 1075)) (m' - 2 ^ 52))"

subsection \<open>Reading\<close>

text \<open>
  \<^verbatim>\<open>strtod\<close> on a decimal floating constant, in a locale with the given decimal point:
  the value, whether it overflowed (\<^verbatim>\<open>HUGE_VAL\<close> with \<^verbatim>\<open>ERANGE\<close>), and the offset of
  \<^verbatim>\<open>end\<close>.  The callers pass a number of the JSON grammar only.
\<close>

definition strtod :: "byte \<Rightarrow> byte list \<Rightarrow> double \<times> bool \<times> nat" where
  "strtod point s =
     (let neg = (s \<noteq> [] \<and> s ! 0 = 45);
          s1 = (if neg then drop 1 s else s);
          ip = takeWhile is_digit_byte s1;
          s2 = drop (length ip) s1;
          fp = (if s2 \<noteq> [] \<and> s2 ! 0 = point then takeWhile is_digit_byte (drop 1 s2) else []);
          s3 = (if s2 \<noteq> [] \<and> s2 ! 0 = point then drop (1 + length fp) s2 else s2);
          has_e = (s3 \<noteq> [] \<and> (s3 ! 0 = 101 \<or> s3 ! 0 = 69));
          t = drop 1 s3;
          esig = (t \<noteq> [] \<and> (t ! 0 = 45 \<or> t ! 0 = 43));
          eneg = (t \<noteq> [] \<and> t ! 0 = 45);
          ed = takeWhile is_digit_byte (if esig then drop 1 t else t);
          expo = (if has_e \<and> ed \<noteq> [] then (if eneg then - int (digits_value ed) else int (digits_value ed))
                  else 0);
          s4 = (if has_e \<and> ed \<noteq> [] then drop (1 + (if esig then 1 else 0) + length ed) s3 else s3);
          m = digits_value (ip @ fp);
          e10 = expo - int (length fp);
          v = (if e10 \<ge> 0 then round_double neg (m * 10 ^ nat e10) 1
               else round_double neg m (10 ^ nat (- e10)))
      in (v, c_isinf v, length s - length s4))"

subsection \<open>Printing\<close>

text \<open>The \<^term>\<open>P\<close> significant decimal digits of \<^term>\<open>num / den\<close> and its decimal exponent.\<close>

definition sig_digits :: "nat \<Rightarrow> nat \<Rightarrow> nat \<Rightarrow> nat \<times> int" where
  "sig_digits P num den =
     (let x0 = int (length (nat_digits 10 num)) - int (length (nat_digits 10 den));
          x = (if scaled_ge 10 num den x0 then x0 else x0 - 1);
          d = scaled_round 10 num den (x - int P + 1)
      in if d = 10 ^ P then (10 ^ (P - 1), x + 1) else (d, x))"

definition strip_zeros :: "byte list \<Rightarrow> byte list" where
  "strip_zeros ds = rev (dropWhile (\<lambda>b. b = 48) (rev ds))"

definition with_point :: "byte \<Rightarrow> byte list \<Rightarrow> byte list \<Rightarrow> byte list" where
  "with_point point ip fp = (if strip_zeros fp = [] then ip else ip @ [point] @ strip_zeros fp)"

text \<open>\<^verbatim>\<open>printf("%.*g", P, x)\<close> in a locale with the given decimal point.\<close>

definition fmt_g :: "byte \<Rightarrow> nat \<Rightarrow> double \<Rightarrow> byte list" where
  "fmt_g point P x =
     (let sgn = (if dbl_sign x then cstr ''-'' else []) in
      if c_isnan x then sgn @ cstr ''nan''
      else if c_isinf x then sgn @ cstr ''inf''
      else
        let (m, e) = dbl_sig x in
        if m = 0 then sgn @ cstr ''0''
        else
          let num = (if e \<ge> 0 then m * 2 ^ nat e else m);
              den = (if e \<ge> 0 then 1 else 2 ^ nat (- e));
              (d, X) = sig_digits P num den;
              ds = fmt_u d
          in if X < -4 \<or> X \<ge> int P then
               sgn @ with_point point (take 1 ds) (drop 1 ds) @ cstr ''e'' @
               (if X < 0 then cstr ''-'' else cstr ''+'') @
               (let ex = fmt_u (nat \<bar>X\<bar>) in replicate (2 - length ex) 48 @ ex)
             else if X \<ge> 0 then
               sgn @ with_point point (take (nat X + 1) ds) (drop (nat X + 1) ds)
             else
               sgn @ with_point point (cstr ''0'') (replicate (nat (- X) - 1) 48 @ ds))"

subsection \<open>Conversions between widths\<close>

text \<open>\<^verbatim>\<open>(double)i\<close> for a 64-bit integer.\<close>

definition double_of_int :: "int \<Rightarrow> double" where
  "double_of_int i = round_double (i < 0) (nat \<bar>i\<bar>) 1"

text \<open>\<^verbatim>\<open>(float)x\<close> as its 32-bit pattern, and the exact widening of a \<^verbatim>\<open>float\<close>.\<close>

type_synonym float32 = "32 word"

definition mk_float :: "bool \<Rightarrow> nat \<Rightarrow> nat \<Rightarrow> float32" where
  "mk_float sign e man = of_nat ((if sign then 2 ^ 31 else 0) + e * 2 ^ 23 + man)"

definition float_of_double :: "double \<Rightarrow> float32" where
  "float_of_double x =
     (if c_isnan x then mk_float (dbl_sign x) 255 (2 ^ 22 + (dbl_man x div 2 ^ 29) mod 2 ^ 22)
      else if c_isinf x then mk_float (dbl_sign x) 255 0
      else
        let (m, e) = dbl_sig x in
        if m = 0 then mk_float (dbl_sign x) 0 0
        else
          let num = (if e \<ge> 0 then m * 2 ^ nat e else m);
              den = (if e \<ge> 0 then 1 else 2 ^ nat (- e));
              f0 = int (floorlog 2 num) - int (floorlog 2 den) - 24;
              f1 = (if scaled_ge 2 num den (f0 + 24) then f0 + 1 else f0);
              f = max f1 (-149);
              k = scaled_round 2 num den f;
              (k', f') = (if k = 2 ^ 24 then (2 ^ 23, f + 1) else (k, f))
          in if f' > 104 then mk_float (dbl_sign x) 255 0
             else if k' < 2 ^ 23 then mk_float (dbl_sign x) 0 k'
             else mk_float (dbl_sign x) (nat (f' + 150)) (k' - 2 ^ 23))"

definition double_of_float :: "float32 \<Rightarrow> double" where
  "double_of_float x =
     (let sign = bit x 31; ex = (unat x div 2 ^ 23) mod 2 ^ 8; man = unat x mod 2 ^ 23 in
      if ex = 255 then mk_double sign 2047 (if man = 0 then 0 else 2 ^ 51 + (man mod 2 ^ 22) * 2 ^ 29)
      else if ex = 0 then round_double sign man (2 ^ 149)
      else if ex \<ge> 150 then round_double sign ((2 ^ 23 + man) * 2 ^ (ex - 150)) 1
      else round_double sign (2 ^ 23 + man) (2 ^ (150 - ex)))"

section \<open>Digits\<close>

lemma nat_digits_not_Nil [simp]: "nat_digits b n \<noteq> []"
  by (subst nat_digits.simps) simp

lemma nat_digits_less: "2 \<le> b \<Longrightarrow> d \<in> set (nat_digits b n) \<Longrightarrow> d < b"
proof (induction b n rule: nat_digits.induct)
  case (1 b n)
  show ?case
  proof (cases "n < b")
    case True
    with "1.prems" show ?thesis by (simp add: nat_digits.simps [of b n])
  next
    case False
    with "1.prems" have "d \<in> set (nat_digits b (n div b)) \<or> d = n mod b"
      by (auto simp: nat_digits.simps [of b n])
    with "1.IH" False "1.prems" show ?thesis by auto
  qed
qed

lemma nat_digits_value: "2 \<le> b \<Longrightarrow> foldl (\<lambda>v d. b * v + d) 0 (nat_digits b n) = n"
proof (induction b n rule: nat_digits.induct)
  case (1 b n)
  show ?case
  proof (cases "n < b")
    case True
    with "1.prems" show ?thesis by (simp add: nat_digits.simps [of b n])
  next
    case False
    with "1.IH" "1.prems" have "foldl (\<lambda>v d. b * v + d) 0 (nat_digits b (n div b)) = n div b" by simp
    with False "1.prems" show ?thesis by (simp add: nat_digits.simps [of b n])
  qed
qed

lemma nat_digits_hd: "2 \<le> b \<Longrightarrow> 0 < n \<Longrightarrow> hd (nat_digits b n) \<noteq> 0"
proof (induction b n rule: nat_digits.induct)
  case (1 b n)
  show ?case
  proof (cases "n < b")
    case True
    with "1.prems" show ?thesis by (simp add: nat_digits.simps [of b n])
  next
    case False
    with "1.prems" have "0 < n div b" by (simp add: div_greater_zero_iff)
    with "1.IH" False "1.prems" show ?thesis by (simp add: nat_digits.simps [of b n] hd_append)
  qed
qed

lemma nat_digits_0 [simp]: "nat_digits b 0 = [0]"
  by (subst nat_digits.simps) (cases b, auto)

lemma nat_digits_length: "2 \<le> b \<Longrightarrow> n < b ^ k \<Longrightarrow> 0 < k \<Longrightarrow> length (nat_digits b n) \<le> k"
proof (induction k arbitrary: n)
  case 0
  then show ?case by simp
next
  case (Suc k)
  show ?case
  proof (cases "n < b")
    case True
    then show ?thesis by (simp add: nat_digits.simps)
  next
    case False
    then have k: "0 < k" using Suc.prems by (cases k) auto
    have "n div b < b ^ k" using Suc.prems by (simp add: less_mult_imp_div_less mult.commute)
    with Suc.IH [of "n div b"] Suc.prems k False show ?thesis
      by (simp add: nat_digits.simps [of b n])
  qed
qed

lemma uint_digit_byte:
  "d < 10 \<Longrightarrow> uint (digit_byte up d) = 48 + int d"
  "10 \<le> d \<Longrightarrow> d < 16 \<Longrightarrow> uint (digit_byte True d) = 55 + int d"
  "10 \<le> d \<Longrightarrow> d < 16 \<Longrightarrow> uint (digit_byte False d) = 87 + int d"
  by (simp_all add: digit_byte_def uint_to_byte)

lemma unat_digit_byte:
  "d < 10 \<Longrightarrow> unat (digit_byte up d) = 48 + d"
  "10 \<le> d \<Longrightarrow> d < 16 \<Longrightarrow> unat (digit_byte True d) = 55 + d"
  "10 \<le> d \<Longrightarrow> d < 16 \<Longrightarrow> unat (digit_byte False d) = 87 + d"
  by (simp_all add: unat_eq_nat_uint uint_digit_byte nat_add_distrib)

lemma digit_byte_inj: "d < 16 \<Longrightarrow> e < 16 \<Longrightarrow> digit_byte up d = digit_byte up e \<longleftrightarrow> d = e"
proof
  assume "d < 16" "e < 16" and eq: "digit_byte up d = digit_byte up e"
  then have "unat (digit_byte up d) = unat (digit_byte up e)" by simp
  with \<open>d < 16\<close> \<open>e < 16\<close> show "d = e"
    by (cases up; cases "d < 10"; cases "e < 10") (simp_all add: unat_digit_byte)
qed simp

lemma is_digit_byte_digit [simp]: "d < 10 \<Longrightarrow> is_digit_byte (digit_byte up d)"
  by (simp add: is_digit_byte_def l_isdigit_def uint_digit_byte)

lemma digits_value_map:
  "\<forall>d \<in> set ds. d < 10 \<Longrightarrow>
   foldl (\<lambda>v b. 10 * v + (unat b - 48)) v (map (digit_byte up) ds) = foldl (\<lambda>v d. 10 * v + d) v ds"
  by (induction ds arbitrary: v) (simp_all add: unat_digit_byte)

lemma fmt_u_digits: "b \<in> set (fmt_u n) \<Longrightarrow> is_digit_byte b"
  using nat_digits_less [of 10] by (auto simp: fmt_u_def)

lemma fmt_u_value [simp]: "digits_value (fmt_u n) = n"
  using nat_digits_less [of 10 _ n] nat_digits_value [of 10 n]
  by (simp add: fmt_u_def digits_value_def digits_value_map)

lemma fmt_u_not_Nil [simp]: "fmt_u n \<noteq> []"
  by (simp add: fmt_u_def)

lemma fmt_u_0 [simp]: "fmt_u 0 = [48]"
  by (simp add: fmt_u_def digit_byte_def)

lemma fmt_u_hd: "0 < n \<Longrightarrow> hd (fmt_u n) \<noteq> 48"
proof -
  assume n: "0 < n"
  have "hd (nat_digits 10 n) < 10" using nat_digits_less [of 10 "hd (nat_digits 10 n)" n] by simp
  then have "unat (hd (fmt_u n)) = 48 + hd (nat_digits 10 n)"
    by (simp add: fmt_u_def hd_map unat_digit_byte)
  with nat_digits_hd [of 10 n] n show ?thesis by auto
qed

lemma takeWhile_digits:
  "\<forall>b \<in> set ds. is_digit_byte b \<Longrightarrow> rest = [] \<or> \<not> is_digit_byte (hd rest) \<Longrightarrow>
   takeWhile is_digit_byte (ds @ rest) = ds"
  by (induction ds) (cases rest, auto)

lemma digit_not_special:
  "is_digit_byte b \<Longrightarrow> \<not> is_space_byte b \<and> b \<noteq> 45 \<and> b \<noteq> 43 \<and> b \<noteq> 0"
  by (auto simp: is_digit_byte_def l_isdigit_def is_space_byte_def)

text \<open>\<^verbatim>\<open>strtoll\<close> inverts \<^verbatim>\<open>%lld\<close> on every 64-bit integer.\<close>

lemma strtoll_fmt_d:
  assumes "LLONG_MIN \<le> i" "i \<le> LLONG_MAX" "rest = [] \<or> \<not> is_digit_byte (hd rest)"
  shows "strtoll (fmt_d i @ rest) = (i, False, length (fmt_d i))"
proof -
  have tw: "takeWhile is_digit_byte (fmt_u n @ rest) = fmt_u n" for n
    using assms(3) fmt_u_digits by (intro takeWhile_digits) auto
  have hd: "\<not> is_space_byte (hd (fmt_u n)) \<and> hd (fmt_u n) \<noteq> 45 \<and> hd (fmt_u n) \<noteq> 43" for n
    using fmt_u_digits [of "hd (fmt_u n)" n] digit_not_special by simp
  have cons: "fmt_u n @ rest = hd (fmt_u n) # tl (fmt_u n) @ rest" for n
    by (metis append_Cons fmt_u_not_Nil list.collapse)
  show ?thesis
  proof (cases "i < 0")
    case True
    have "takeWhile is_space_byte (45 # fmt_u (nat (- i)) @ rest) = []" by (simp add: is_space_byte_def)
    with True assms tw show ?thesis by (simp add: strtoll_def fmt_d_def Let_def)
  next
    case False
    have "takeWhile is_space_byte (fmt_u (nat i) @ rest) = []" by (subst cons) (simp add: hd)
    moreover have "(fmt_u (nat i) @ rest) ! 0 = hd (fmt_u (nat i))" by (subst cons) simp
    ultimately show ?thesis using False assms tw hd by (simp add: strtoll_def fmt_d_def Let_def)
  qed
qed

lemma map_digit_byte_inj:
  "\<forall>d \<in> set xs \<union> set ys. d < 16 \<Longrightarrow> map (digit_byte up) xs = map (digit_byte up) ys \<Longrightarrow> xs = ys"
proof (induction xs arbitrary: ys)
  case Nil
  then show ?case by simp
next
  case (Cons x xs)
  then show ?case by (cases ys) (auto simp: digit_byte_inj)
qed

lemma fmt_x_inj: "fmt_x m = fmt_x n \<longleftrightarrow> m = n"
proof
  assume "fmt_x m = fmt_x n"
  then have eq: "nat_digits 16 m = nat_digits 16 n"
    using nat_digits_less [of 16] by (intro map_digit_byte_inj [of _ _ False]) (auto simp: fmt_x_def)
  have "m = foldl (\<lambda>v d. 16 * v + d) 0 (nat_digits 16 m)" by (simp add: nat_digits_value)
  also have "\<dots> = n" unfolding eq by (simp add: nat_digits_value)
  finally show "m = n" .
qed simp

lemma fmt_x_no_nul: "0 \<notin> set (fmt_x n)"
proof
  assume "0 \<in> set (fmt_x n)"
  then obtain d where "d \<in> set (nat_digits 16 n)" "digit_byte False d = 0" by (auto simp: fmt_x_def)
  with nat_digits_less [of 16 d n] show False
    by (cases "d < 10") (auto dest: arg_cong [of _ _ unat] simp: unat_digit_byte)
qed

lemma fmt_04X_length: "n < 65536 \<Longrightarrow> length (fmt_04X n) = 4"
  using nat_digits_length [of 16 n 4] by (simp add: fmt_04X_def Let_def)

end
