(* ===== verification/Lookup3.thy ===== *)
theory Lookup3
  imports Ripext_Prelude
begin

text \<open>
  \<^verbatim>\<open>jansson/src/lookup3.h\<close>: Bob Jenkins' \<^verbatim>\<open>hashlittle\<close>, on a little-endian machine.
  The function picks one of three reading loops by the alignment of the key; the
  32-bit loop reads the whole last word and masks off what lies beyond the key.  The
  model keeps the three loops, with the memory that follows the key as an argument,
  and the theorems show that they compute the same hash.
\<close>

type_synonym u32 = "32 word"

section \<open>Operations\<close>

definition hashsize :: "nat \<Rightarrow> nat" where
  "hashsize n = unat (push_bit n (1 :: u32))"

definition hashmask :: "nat \<Rightarrow> nat" where
  "hashmask n = hashsize n - 1"

definition rot :: "u32 \<Rightarrow> nat \<Rightarrow> u32" where
  "rot x k = (push_bit k x) OR (drop_bit (32 - k) x)"

definition mix :: "u32 \<times> u32 \<times> u32 \<Rightarrow> u32 \<times> u32 \<times> u32" where
  "mix = (\<lambda>(a, b, c).
     let a = a - c; a = a XOR rot c 4;  c = c + b;
         b = b - a; b = b XOR rot a 6;  a = a + c;
         c = c - b; c = c XOR rot b 8;  b = b + a;
         a = a - c; a = a XOR rot c 16; c = c + b;
         b = b - a; b = b XOR rot a 19; a = a + c;
         c = c - b; c = c XOR rot b 4;  b = b + a
     in (a, b, c))"

definition final :: "u32 \<times> u32 \<times> u32 \<Rightarrow> u32" where
  "final = (\<lambda>(a, b, c).
     let c = c XOR b; c = c - rot b 14;
         a = a XOR c; a = a - rot c 11;
         b = b XOR a; b = b - rot a 25;
         c = c XOR b; c = c - rot b 16;
         a = a XOR c; a = a - rot c 4;
         b = b XOR a; b = b - rot a 14;
         c = c XOR b; c = c - rot b 24
     in c)"

text \<open>The byte at an offset shifted to its place in a 32-bit word.\<close>

definition byte_at :: "byte list \<Rightarrow> nat \<Rightarrow> nat \<Rightarrow> u32" where
  "byte_at k i s = push_bit s (ucast (k ! i))"

text \<open>Little-endian loads of 32 and 16 bits at a byte offset.\<close>

definition load32 :: "byte list \<Rightarrow> nat \<Rightarrow> u32" where
  "load32 k i = word_of_int (uint (k ! i) + 256 * uint (k ! (i + 1)) +
                  65536 * uint (k ! (i + 2)) + 16777216 * uint (k ! (i + 3)))"

definition load16 :: "byte list \<Rightarrow> nat \<Rightarrow> u32" where
  "load16 k i = word_of_int (uint (k ! i) + 256 * uint (k ! (i + 1)))"

text \<open>\<^verbatim>\<open>hashlittle\<close> reading one byte at a time; the cases of the switch fall through.\<close>

definition last_block8 :: "byte list \<Rightarrow> u32 \<times> u32 \<times> u32 \<Rightarrow> u32" where
  "last_block8 k = (\<lambda>(a, b, c).
     let n = length k in
     if n = 0 then c
     else
       let c = (if n \<ge> 12 then c + byte_at k 11 24 else c);
           c = (if n \<ge> 11 then c + byte_at k 10 16 else c);
           c = (if n \<ge> 10 then c + byte_at k 9 8 else c);
           c = (if n \<ge> 9 then c + byte_at k 8 0 else c);
           b = (if n \<ge> 8 then b + byte_at k 7 24 else b);
           b = (if n \<ge> 7 then b + byte_at k 6 16 else b);
           b = (if n \<ge> 6 then b + byte_at k 5 8 else b);
           b = (if n \<ge> 5 then b + byte_at k 4 0 else b);
           a = (if n \<ge> 4 then a + byte_at k 3 24 else a);
           a = (if n \<ge> 3 then a + byte_at k 2 16 else a);
           a = (if n \<ge> 2 then a + byte_at k 1 8 else a);
           a = a + byte_at k 0 0
       in final (a, b, c))"

function hash_loop8 :: "byte list \<Rightarrow> u32 \<times> u32 \<times> u32 \<Rightarrow> u32" where
  "hash_loop8 k (a, b, c) =
     (if length k > 12 then
        let a = a + byte_at k 0 0; a = a + byte_at k 1 8;
            a = a + byte_at k 2 16; a = a + byte_at k 3 24;
            b = b + byte_at k 4 0; b = b + byte_at k 5 8;
            b = b + byte_at k 6 16; b = b + byte_at k 7 24;
            c = c + byte_at k 8 0; c = c + byte_at k 9 8;
            c = c + byte_at k 10 16; c = c + byte_at k 11 24
        in hash_loop8 (drop 12 k) (mix (a, b, c))
      else last_block8 k (a, b, c))"
  by pat_completeness auto
termination
  by (relation "measure (\<lambda>(k, _). length k)") auto

text \<open>
  Reading 32 bits at a time.  The first argument is the number of bytes of the key
  that are left, the second the memory from there on: the rest of the key and what
  follows it.
\<close>

definition last_block32 :: "nat \<Rightarrow> byte list \<Rightarrow> u32 \<times> u32 \<times> u32 \<Rightarrow> u32" where
  "last_block32 n k = (\<lambda>(a, b, c).
     let k0 = load32 k 0; k1 = load32 k 4; k2 = load32 k 8 in
     if n = 12 then final (a + k0, b + k1, c + k2)
     else if n = 11 then final (a + k0, b + k1, c + (k2 AND 0xffffff))
     else if n = 10 then final (a + k0, b + k1, c + (k2 AND 0xffff))
     else if n = 9 then final (a + k0, b + k1, c + (k2 AND 0xff))
     else if n = 8 then final (a + k0, b + k1, c)
     else if n = 7 then final (a + k0, b + (k1 AND 0xffffff), c)
     else if n = 6 then final (a + k0, b + (k1 AND 0xffff), c)
     else if n = 5 then final (a + k0, b + (k1 AND 0xff), c)
     else if n = 4 then final (a + k0, b, c)
     else if n = 3 then final (a + (k0 AND 0xffffff), b, c)
     else if n = 2 then final (a + (k0 AND 0xffff), b, c)
     else if n = 1 then final (a + (k0 AND 0xff), b, c)
     else c)"

function hash_loop32 :: "nat \<Rightarrow> byte list \<Rightarrow> u32 \<times> u32 \<times> u32 \<Rightarrow> u32" where
  "hash_loop32 n k (a, b, c) =
     (if n > 12 then
        hash_loop32 (n - 12) (drop 12 k) (mix (a + load32 k 0, b + load32 k 4, c + load32 k 8))
      else last_block32 n k (a, b, c))"
  by pat_completeness auto
termination
  by (relation "measure (\<lambda>(n, _). n)") auto

text \<open>Reading 16 bits at a time.\<close>

definition load16x2 :: "byte list \<Rightarrow> nat \<Rightarrow> u32" where
  "load16x2 k i = load16 k i + push_bit 16 (load16 k (i + 2))"

definition last_block16 :: "byte list \<Rightarrow> u32 \<times> u32 \<times> u32 \<Rightarrow> u32" where
  "last_block16 k = (\<lambda>(a, b, c).
     let n = length k in
     if n = 12 then final (a + load16x2 k 0, b + load16x2 k 4, c + load16x2 k 8)
     else if n = 11 then final (a + load16x2 k 0, b + load16x2 k 4, (c + byte_at k 10 16) + load16 k 8)
     else if n = 10 then final (a + load16x2 k 0, b + load16x2 k 4, c + load16 k 8)
     else if n = 9 then final (a + load16x2 k 0, b + load16x2 k 4, c + byte_at k 8 0)
     else if n = 8 then final (a + load16x2 k 0, b + load16x2 k 4, c)
     else if n = 7 then final (a + load16x2 k 0, (b + byte_at k 6 16) + load16 k 4, c)
     else if n = 6 then final (a + load16x2 k 0, b + load16 k 4, c)
     else if n = 5 then final (a + load16x2 k 0, b + byte_at k 4 0, c)
     else if n = 4 then final (a + load16x2 k 0, b, c)
     else if n = 3 then final ((a + byte_at k 2 16) + load16 k 0, b, c)
     else if n = 2 then final (a + load16 k 0, b, c)
     else if n = 1 then final (a + byte_at k 0 0, b, c)
     else c)"

function hash_loop16 :: "byte list \<Rightarrow> u32 \<times> u32 \<times> u32 \<Rightarrow> u32" where
  "hash_loop16 k (a, b, c) =
     (if length k > 12 then
        hash_loop16 (drop 12 k) (mix (a + load16x2 k 0, b + load16x2 k 4, c + load16x2 k 8))
      else last_block16 k (a, b, c))"
  by pat_completeness auto
termination
  by (relation "measure (\<lambda>(k, _). length k)") auto

declare hash_loop8.simps [simp del] hash_loop16.simps [simp del] hash_loop32.simps [simp del]

text \<open>
  \<^verbatim>\<open>hashlittle(key, length, initval)\<close> for a key at an address congruent to
  \<^term>\<open>align\<close> modulo 4 and followed in memory by \<^term>\<open>beyond\<close>.
\<close>

definition hashlittle :: "nat \<Rightarrow> byte list \<Rightarrow> byte list \<Rightarrow> u32 \<Rightarrow> u32" where
  "hashlittle align beyond key initval =
     (let v = 0xdeadbeef + of_nat (length key) + initval in
      if align mod 4 = 0 then hash_loop32 (length key) (key @ beyond) (v, v, v)
      else if align mod 2 = 0 then hash_loop16 key (v, v, v)
      else hash_loop8 key (v, v, v))"

section \<open>The loads and the masks in terms of bytes\<close>

lemma byte_at_int: "byte_at k i s = of_int (uint (k ! i) * 2 ^ s)"
  by (simp only: byte_at_def push_bit_eq_mult ucast_eq of_int_mult of_int_power of_int_numeral)

lemma load32_bytes:
  "load32 k i = byte_at k i 0 + byte_at k (i + 1) 8 + byte_at k (i + 2) 16 + byte_at k (i + 3) 24"
  by (simp only: load32_def byte_at_int of_int_add of_int_mult) (simp add: mult.commute)

lemma load16_bytes: "load16 k i = byte_at k i 0 + byte_at k (i + 1) 8"
  by (simp only: load16_def byte_at_int of_int_add of_int_mult) (simp add: mult.commute)

lemma load16x2_load32: "load16x2 k i = load32 k i"
proof -
  have "i + 2 + 1 = i + 3" by simp
  then show ?thesis
    by (simp only: load16x2_def load32_bytes load16_bytes byte_at_int push_bit_eq_mult of_int_mult
        distrib_right) simp
qed

lemma of_int_and_mask: "(of_int x :: u32) AND of_int (2 ^ n - 1) = of_int (x mod 2 ^ n)"
  by (simp only: of_int_and_eq [symmetric] int_and_mask_mod)

lemma mod_low_bytes:
  fixes a b c d :: int
  assumes "0 \<le> a" "a < 256" "0 \<le> b" "b < 256" "0 \<le> c" "c < 256"
  shows "(a + 256 * b + 65536 * c + 16777216 * d) mod 2 ^ 24 = a + 256 * b + 65536 * c"
    "(a + 256 * b + 65536 * c + 16777216 * d) mod 2 ^ 16 = a + 256 * b"
    "(a + 256 * b + 65536 * c + 16777216 * d) mod 2 ^ 8 = a"
proof -
  have "a + 256 * b + 65536 * c < 2 ^ 24" using assms by simp
  then have "(a + 256 * b + 65536 * c) mod 2 ^ 24 = a + 256 * b + 65536 * c" using assms by simp
  moreover have "a + 256 * b + 65536 * c + 16777216 * d = (a + 256 * b + 65536 * c) + d * 2 ^ 24" by simp
  ultimately show "(a + 256 * b + 65536 * c + 16777216 * d) mod 2 ^ 24 = a + 256 * b + 65536 * c"
    by (simp only: mod_mult_self1)
  have "(a + 256 * b) mod 2 ^ 16 = a + 256 * b" using assms by simp
  moreover have "a + 256 * b + 65536 * c + 16777216 * d = (a + 256 * b) + (c + 256 * d) * 2 ^ 16" by simp
  ultimately show "(a + 256 * b + 65536 * c + 16777216 * d) mod 2 ^ 16 = a + 256 * b"
    by (simp only: mod_mult_self1)
  have "a mod 2 ^ 8 = a" using assms by simp
  moreover have "a + 256 * b + 65536 * c + 16777216 * d = a + (b + 256 * c + 65536 * d) * 2 ^ 8" by simp
  ultimately show "(a + 256 * b + 65536 * c + 16777216 * d) mod 2 ^ 8 = a"
    by (simp only: mod_mult_self1)
qed

lemma load32_masks:
  "load32 k i AND 0xffffff = byte_at k i 0 + byte_at k (i + 1) 8 + byte_at k (i + 2) 16"
  "load32 k i AND 0xffff = byte_at k i 0 + byte_at k (i + 1) 8"
  "load32 k i AND 0xff = byte_at k i 0"
proof -
  note mask = of_int_and_mask [of "uint (k ! i) + 256 * uint (k ! (i + 1)) +
      65536 * uint (k ! (i + 2)) + 16777216 * uint (k ! (i + 3))"]
  show "load32 k i AND 0xffffff = byte_at k i 0 + byte_at k (i + 1) 8 + byte_at k (i + 2) 16"
    using mask [of 24] mod_low_bytes(1) [of "uint (k ! i)" "uint (k ! (i + 1))" "uint (k ! (i + 2))"]
    by (simp add: load32_def byte_at_int mult.commute)
  show "load32 k i AND 0xffff = byte_at k i 0 + byte_at k (i + 1) 8"
    using mask [of 16] mod_low_bytes(2) [of "uint (k ! i)" "uint (k ! (i + 1))" "uint (k ! (i + 2))"]
    by (simp add: load32_def byte_at_int mult.commute)
  show "load32 k i AND 0xff = byte_at k i 0"
    using mask [of 8] mod_low_bytes(3) [of "uint (k ! i)" "uint (k ! (i + 1))" "uint (k ! (i + 2))"]
    by (simp add: load32_def byte_at_int mult.commute)
qed

section \<open>The three loops agree\<close>

lemma byte_at_take [simp]: "i < n \<Longrightarrow> byte_at (take n k) i s = byte_at k i s"
  by (simp add: byte_at_def)

lemma small_cases: "n \<le> (12::nat) \<Longrightarrow> n \<in> {0, 1, 2, 3, 4, 5, 6, 7, 8, 9, 10, 11, 12}"
proof -
  assume "n \<le> 12"
  then have "n \<in> set [0..<13]" by simp
  also have "[0..<13] = [0, 1, 2, 3, 4, 5, 6, 7, 8, 9, 10, 11, 12]" by (simp add: upt_rec)
  finally show ?thesis by simp
qed

lemma last_block32_8:
  assumes "n \<le> 12" "n \<le> length k"
  shows "last_block32 n k abc = last_block8 (take n k) abc"
proof -
  obtain a b c where abc: "abc = (a, b, c)" by (cases abc)
  have len: "length (take n k) = n" using assms by simp
  show ?thesis
    unfolding abc last_block32_def last_block8_def len Let_def prod.case load32_masks
    using small_cases [OF assms(1)] by (elim insertE emptyE) (simp_all add: load32_bytes ac_simps numeral_2_eq_2 [symmetric])
qed

lemma last_block16_8: "length k \<le> 12 \<Longrightarrow> last_block16 k abc = last_block8 k abc"
proof -
  assume le: "length k \<le> 12"
  obtain a b c where abc: "abc = (a, b, c)" by (cases abc)
  show ?thesis
    unfolding abc last_block16_def last_block8_def Let_def prod.case load16x2_load32
    using small_cases [OF le] by (elim insertE emptyE) (simp_all add: load32_bytes load16_bytes ac_simps numeral_2_eq_2 [symmetric])
qed

lemma hash_loop8_words:
  "hash_loop8 k (a, b, c) =
     (if length k > 12 then
        hash_loop8 (drop 12 k) (mix (a + load32 k 0, b + load32 k 4, c + load32 k 8))
      else last_block8 k (a, b, c))"
  by (subst hash_loop8.simps) (simp add: Let_def load32_bytes add.assoc numeral_2_eq_2 [symmetric])

lemma load32_take: "i + 3 < n \<Longrightarrow> load32 (take n k) i = load32 k i"
  by (simp add: load32_def)

lemma hash_loop32_8: "n \<le> length k \<Longrightarrow> hash_loop32 n k abc = hash_loop8 (take n k) abc"
proof (induction n k abc rule: hash_loop32.induct)
  case (1 n k a b c)
  show ?case
  proof (cases "n > 12")
    case True
    moreover have "take (n - 12) (drop 12 k) = drop 12 (take n k)" using True by (simp add: drop_take)
    ultimately show ?thesis
      using 1 by (simp add: hash_loop32.simps [of n k a] hash_loop8_words [of "take n k" a] load32_take)
  next
    case False
    then show ?thesis
      using "1.prems" by (simp add: hash_loop32.simps [of n k a] hash_loop8_words [of "take n k" a] last_block32_8)
  qed
qed

lemma hash_loop16_8: "hash_loop16 k abc = hash_loop8 k abc"
proof (induction k abc rule: hash_loop16.induct)
  case (1 k a b c)
  then show ?case
    by (simp add: hash_loop16.simps [of k a] hash_loop8_words [of k a] load16x2_load32 last_block16_8)
qed

text \<open>The hash of a key depends on the key and the seed only.\<close>

lemma hashlittle_bytes:
  "hashlittle align beyond key initval =
     (let v = 0xdeadbeef + of_nat (length key) + initval in hash_loop8 key (v, v, v))"
  by (simp add: hashlittle_def Let_def hash_loop32_8 hash_loop16_8)

section \<open>Table sizes\<close>

lemma hashsize_mod: "hashsize n = 2 ^ n mod 2 ^ 32"
proof -
  have "push_bit n (1 :: u32) = of_nat (2 ^ n)" by (simp add: push_bit_eq_mult)
  then show ?thesis by (simp only: hashsize_def unat_of_nat len_of_numeral_defs) simp
qed

lemma hashsize_pow: "n < 32 \<Longrightarrow> hashsize n = 2 ^ n"
  using power_strict_increasing [of n 32 "2::nat"] by (simp only: hashsize_mod mod_less)

lemma hashsize_big: "32 \<le> n \<Longrightarrow> hashsize n = 0"
  using le_imp_power_dvd [of 32 n "2::nat"] by (simp only: hashsize_mod mod_eq_0_iff_dvd)

lemma and_hashmask:
  assumes "n < 32"
  shows "h AND hashmask n = h mod 2 ^ n"
proof -
  have "h AND (2 ^ n - 1) = take_bit n h"
    using take_bit_eq_mask [of n h] by (simp add: mask_eq_exp_minus_1)
  with assms show ?thesis by (simp only: hashmask_def hashsize_pow take_bit_eq_mod)
qed

section \<open>Properties of the hash function\<close>

text \<open>
  C36: \<^verbatim>\<open>hashlittle\<close> computes the same value on its three code paths.  The hash of a key does
  not depend on the alignment of the key in memory, nor on the bytes that the word-wise
  path reads beyond its end and masks off: it is the byte-by-byte hash of the key.
\<close>

theorem hashlittle_paths_agree:
  "hashlittle align beyond key initval = hashlittle 1 [] key initval"
  by (simp add: hashlittle_bytes)

end
