(* ===== verification/Hashtable.thy ===== *)
theory Hashtable
  imports Lookup3 "HOL-Library.AList"
begin

text \<open>
  \<^verbatim>\<open>jansson/src/hashtable.c\<close> and \<^verbatim>\<open>hashtable.h\<close>.  A table owns one circular doubly linked
  list that threads all pairs, grouped by bucket, and a second one that keeps the order
  of insertion; a bucket is the pair of pointers to its first and last node.

  Pointers to nodes are natural numbers local to the table: 0 is the head embedded in
  the table (\<^verbatim>\<open>&hashtable->list\<close>, \<^verbatim>\<open>&hashtable->ordered_list\<close>), every other number is an
  allocated pair, whose \<^verbatim>\<open>list\<close> and \<^verbatim>\<open>ordered_list\<close> members share the number.  The two
  memories map a node to its links.  \<^verbatim>\<open>json_decref\<close> on a stored value is a parameter
  that acts on the state \<^typ>\<open>'w\<close> of the rest of the program.
\<close>

section \<open>State\<close>

record list_t =
  l_prev :: nat
  l_next :: nat

record 'v pair_t =
  p_hash :: nat
  p_key :: "byte list"
  p_value :: 'v

type_synonym bucket_t = "nat \<times> nat"

record 'v hashtable =
  ht_size :: nat
  ht_buckets :: "bucket_t list"
  ht_order :: nat
  ht_list :: "nat \<Rightarrow> list_t"
  ht_ordered_list :: "nat \<Rightarrow> list_t"
  ht_pairs :: "nat \<rightharpoonup> 'v pair_t"
  ht_fresh :: nat

definition INITIAL_HASHTABLE_ORDER :: nat where "INITIAL_HASHTABLE_ORDER = 3"

text \<open>\<^verbatim>\<open>sizeof(bucket_t)\<close> and \<^verbatim>\<open>offsetof(pair_t, key)\<close> on the 64-bit targets.\<close>

definition SIZEOF_BUCKET :: nat where "SIZEOF_BUCKET = 16"
definition OFFSETOF_KEY :: nat where "OFFSETOF_KEY = 48"

text \<open>\<^verbatim>\<open>hash_str\<close>; the result does not depend on where the key lies in memory.\<close>

definition hash_str :: "u32 \<Rightarrow> byte list \<Rightarrow> nat" where
  "hash_str seed key = unat (hashlittle 1 [] key seed)"

section \<open>Linked lists\<close>

definition list_init :: "nat \<Rightarrow> (nat \<Rightarrow> list_t) \<Rightarrow> nat \<Rightarrow> list_t" where
  "list_init l m = m(l := \<lparr>l_prev = l, l_next = l\<rparr>)"

definition list_insert :: "nat \<Rightarrow> nat \<Rightarrow> (nat \<Rightarrow> list_t) \<Rightarrow> nat \<Rightarrow> list_t" where
  "list_insert l node m =
     (let m = m(node := (m node)\<lparr>l_next := l\<rparr>);
          m = m(node := (m node)\<lparr>l_prev := l_prev (m l)\<rparr>);
          m = m(l_prev (m l) := (m (l_prev (m l)))\<lparr>l_next := node\<rparr>);
          m = m(l := (m l)\<lparr>l_prev := node\<rparr>)
      in m)"

definition list_remove :: "nat \<Rightarrow> (nat \<Rightarrow> list_t) \<Rightarrow> nat \<Rightarrow> list_t" where
  "list_remove l m =
     (let m = m(l_prev (m l) := (m (l_prev (m l)))\<lparr>l_next := l_next (m l)\<rparr>);
          m = m(l_next (m l) := (m (l_next (m l)))\<lparr>l_prev := l_prev (m l)\<rparr>)
      in m)"

section \<open>Buckets\<close>

definition bucket_is_empty :: "'v hashtable \<Rightarrow> nat \<Rightarrow> bool" where
  "bucket_is_empty h i \<longleftrightarrow>
     fst (ht_buckets h ! i) = 0 \<and> fst (ht_buckets h ! i) = snd (ht_buckets h ! i)"

definition insert_to_bucket :: "'v hashtable \<Rightarrow> nat \<Rightarrow> nat \<Rightarrow> 'v hashtable" where
  "insert_to_bucket h i node =
     (if bucket_is_empty h i then
        h\<lparr>ht_list := list_insert 0 node (ht_list h),
          ht_buckets := (ht_buckets h)[i := (node, node)]\<rparr>
      else
        h\<lparr>ht_list := list_insert (fst (ht_buckets h ! i)) node (ht_list h),
          ht_buckets := (ht_buckets h)[i := (node, snd (ht_buckets h ! i))]\<rparr>)"

text \<open>
  The loop of \<^verbatim>\<open>hashtable_find_pair\<close> from a node to the last node of its bucket.  The
  first argument bounds the number of rounds; \<^const>\<open>None\<close> is running out of it.
\<close>

fun find_loop :: "nat \<Rightarrow> 'v hashtable \<Rightarrow> nat \<Rightarrow> byte list \<Rightarrow> nat \<Rightarrow> nat \<Rightarrow> nat option option" where
  "find_loop 0 h lst key hash l = None"
| "find_loop (Suc fuel) h lst key hash l =
     (case ht_pairs h l of
        None \<Rightarrow> Some None
      | Some pair \<Rightarrow>
          if p_hash pair = hash \<and> p_key pair = key then Some (Some l)
          else if l = lst then Some None
          else find_loop fuel h lst key hash (l_next (ht_list h l)))"

definition hashtable_find_pair :: "'v hashtable \<Rightarrow> nat \<Rightarrow> byte list \<Rightarrow> nat \<Rightarrow> nat option" where
  "hashtable_find_pair h i key hash =
     (if bucket_is_empty h i then None
      else case find_loop (ht_fresh h) h (snd (ht_buckets h ! i)) key hash (fst (ht_buckets h ! i)) of
             None \<Rightarrow> None
           | Some r \<Rightarrow> r)"

section \<open>Operations on a table\<close>

definition bucket_index :: "'v hashtable \<Rightarrow> nat \<Rightarrow> nat" where
  "bucket_index h hash = hash AND hashmask (ht_order h)"

definition hashtable_do_del ::
  "('v \<Rightarrow> 'w \<Rightarrow> 'w) \<Rightarrow> byte list \<Rightarrow> nat \<Rightarrow> 'v hashtable \<Rightarrow> 'w \<Rightarrow> int \<times> 'v hashtable \<times> 'w" where
  "hashtable_do_del decref key hash h w =
     (let index = bucket_index h hash in
      case hashtable_find_pair h index key hash of
        None \<Rightarrow> (-1, h, w)
      | Some pair \<Rightarrow>
          let (first, lst) = ht_buckets h ! index;
              bucket = (if pair = first \<and> pair = lst then (0, 0)
                        else if pair = first then (l_next (ht_list h pair), lst)
                        else if pair = lst then (first, l_prev (ht_list h pair))
                        else (first, lst));
              h1 = h\<lparr>ht_buckets := (ht_buckets h)[index := bucket],
                     ht_list := list_remove pair (ht_list h),
                     ht_ordered_list := list_remove pair (ht_ordered_list h)\<rparr>;
              w1 = decref (p_value (the (ht_pairs h pair))) w
          in (0, h1\<lparr>ht_pairs := (ht_pairs h1)(pair := None), ht_size := ht_size h1 - 1\<rparr>, w1))"

text \<open>The loop of \<^verbatim>\<open>hashtable_do_clear\<close>, which frees the pairs it passes.\<close>

fun do_clear_loop ::
  "nat \<Rightarrow> ('v \<Rightarrow> 'w \<Rightarrow> 'w) \<Rightarrow> nat \<Rightarrow> 'v hashtable \<Rightarrow> 'w \<Rightarrow> 'v hashtable \<times> 'w" where
  "do_clear_loop 0 decref l h w = (h, w)"
| "do_clear_loop (Suc fuel) decref l h w =
     (if l = 0 then (h, w)
      else let nxt = l_next (ht_list h l);
               w1 = (case ht_pairs h l of None \<Rightarrow> w | Some pair \<Rightarrow> decref (p_value pair) w);
               h1 = h\<lparr>ht_pairs := (ht_pairs h)(l := None)\<rparr>
           in do_clear_loop fuel decref nxt h1 w1)"

definition hashtable_do_clear ::
  "('v \<Rightarrow> 'w \<Rightarrow> 'w) \<Rightarrow> 'v hashtable \<Rightarrow> 'w \<Rightarrow> 'v hashtable \<times> 'w" where
  "hashtable_do_clear decref h w = do_clear_loop (ht_fresh h) decref (l_next (ht_list h 0)) h w"

definition clear_buckets :: "'v hashtable \<Rightarrow> 'v hashtable" where
  "clear_buckets h = h\<lparr>ht_buckets := replicate (hashsize (ht_order h)) (0, 0)\<rparr>"

text \<open>The loop of \<^verbatim>\<open>hashtable_do_rehash\<close> that puts every pair back.\<close>

fun rehash_loop :: "nat \<Rightarrow> nat \<Rightarrow> 'v hashtable \<Rightarrow> nat \<Rightarrow> 'v hashtable" where
  "rehash_loop 0 new_size h l = h"
| "rehash_loop (Suc fuel) new_size h l =
     (if l = 0 then h
      else let nxt = l_next (ht_list h l);
               index = (case ht_pairs h l of None \<Rightarrow> 0 | Some pair \<Rightarrow> p_hash pair mod new_size)
           in rehash_loop fuel new_size (insert_to_bucket h index l) nxt)"

definition hashtable_do_rehash :: "'v hashtable \<Rightarrow> mem \<Rightarrow> int \<times> 'v hashtable \<times> mem" where
  "hashtable_do_rehash h m =
     (let new_order = ht_order h + 1;
          new_size = hashsize new_order
      in case jsonp_malloc (new_size * SIZEOF_BUCKET) m of
           (False, m') \<Rightarrow> (-1, h, m')
         | (True, m') \<Rightarrow>
             let h1 = clear_buckets (h\<lparr>ht_order := new_order\<rparr>);
                 l = l_next (ht_list h1 0);
                 h2 = h1\<lparr>ht_list := list_init 0 (ht_list h1)\<rparr>
             in (0, rehash_loop (ht_fresh h) new_size h2 l, m'))"

definition hashtable_init :: "mem \<Rightarrow> 'v hashtable option \<times> mem" where
  "hashtable_init m =
     (let order = INITIAL_HASHTABLE_ORDER in
      case jsonp_malloc (hashsize order * SIZEOF_BUCKET) m of
        (False, m') \<Rightarrow> (None, m')
      | (True, m') \<Rightarrow>
          (Some (clear_buckets \<lparr>ht_size = 0, ht_buckets = [], ht_order = order,
             ht_list = list_init 0 (\<lambda>_. \<lparr>l_prev = 0, l_next = 0\<rparr>),
             ht_ordered_list = list_init 0 (\<lambda>_. \<lparr>l_prev = 0, l_next = 0\<rparr>),
             ht_pairs = Map.empty, ht_fresh = 1\<rparr>), m'))"

definition hashtable_close :: "('v \<Rightarrow> 'w \<Rightarrow> 'w) \<Rightarrow> 'v hashtable \<Rightarrow> 'w \<Rightarrow> 'w" where
  "hashtable_close decref h w = snd (hashtable_do_clear decref h w)"

text \<open>The part of \<^verbatim>\<open>hashtable_set\<close> after the rehash.\<close>

definition hashtable_store ::
  "('v \<Rightarrow> 'w \<Rightarrow> 'w) \<Rightarrow> u32 \<Rightarrow> byte list \<Rightarrow> 'v \<Rightarrow> 'v hashtable \<Rightarrow> mem \<Rightarrow> 'w \<Rightarrow>
   int \<times> 'v hashtable \<times> mem \<times> 'w" where
  "hashtable_store decref seed key v h m w =
     (let hash = hash_str seed key;
          index = bucket_index h hash
      in case hashtable_find_pair h index key hash of
           Some pair \<Rightarrow>
             let p = the (ht_pairs h pair);
                 w1 = decref (p_value p) w
             in (0, h\<lparr>ht_pairs := (ht_pairs h)(pair \<mapsto> p\<lparr>p_value := v\<rparr>)\<rparr>, m, w1)
         | None \<Rightarrow>
             let len = length key in
             if len \<ge> SIZE_MAX - OFFSETOF_KEY then (-1, h, m, w)
             else
               (case jsonp_malloc (OFFSETOF_KEY + len + 1) m of
                  (False, m') \<Rightarrow> (-1, h, m', w)
                | (True, m') \<Rightarrow>
                    let pair = ht_fresh h;
                        h1 = h\<lparr>ht_fresh := pair + 1,
                               ht_pairs := (ht_pairs h)(pair \<mapsto> \<lparr>p_hash = hash, p_key = key, p_value = v\<rparr>),
                               ht_list := list_init pair (ht_list h),
                               ht_ordered_list := list_init pair (ht_ordered_list h)\<rparr>;
                        h2 = insert_to_bucket h1 index pair;
                        h3 = h2\<lparr>ht_ordered_list := list_insert 0 pair (ht_ordered_list h2),
                                ht_size := ht_size h2 + 1\<rparr>
                    in (0, h3, m', w)))"

definition hashtable_set ::
  "('v \<Rightarrow> 'w \<Rightarrow> 'w) \<Rightarrow> u32 \<Rightarrow> byte list \<Rightarrow> 'v \<Rightarrow> 'v hashtable \<Rightarrow> mem \<Rightarrow> 'w \<Rightarrow>
   int \<times> 'v hashtable \<times> mem \<times> 'w" where
  "hashtable_set decref seed key v h m w =
     (let (r, h1, m1) = (if ht_size h \<ge> hashsize (ht_order h) then hashtable_do_rehash h m
                         else (0, h, m))
      in if r \<noteq> 0 then (-1, h1, m1, w)
         else hashtable_store decref seed key v h1 m1 w)"

definition hashtable_get :: "u32 \<Rightarrow> byte list \<Rightarrow> 'v hashtable \<Rightarrow> 'v option" where
  "hashtable_get seed key h =
     (let hash = hash_str seed key in
      case hashtable_find_pair h (bucket_index h hash) key hash of
        None \<Rightarrow> None
      | Some pair \<Rightarrow> Some (p_value (the (ht_pairs h pair))))"

definition hashtable_del ::
  "('v \<Rightarrow> 'w \<Rightarrow> 'w) \<Rightarrow> u32 \<Rightarrow> byte list \<Rightarrow> 'v hashtable \<Rightarrow> 'w \<Rightarrow> int \<times> 'v hashtable \<times> 'w" where
  "hashtable_del decref seed key h w = hashtable_do_del decref key (hash_str seed key) h w"

definition hashtable_clear :: "('v \<Rightarrow> 'w \<Rightarrow> 'w) \<Rightarrow> 'v hashtable \<Rightarrow> 'w \<Rightarrow> 'v hashtable \<times> 'w" where
  "hashtable_clear decref h w =
     (let (h1, w1) = hashtable_do_clear decref h w;
          h2 = clear_buckets h1
      in (h2\<lparr>ht_list := list_init 0 (ht_list h2),
             ht_ordered_list := list_init 0 (ht_ordered_list h2), ht_size := 0\<rparr>, w1))"

section \<open>Iteration\<close>

definition hashtable_iter_next :: "'v hashtable \<Rightarrow> nat \<Rightarrow> nat option" where
  "hashtable_iter_next h iter =
     (let nxt = l_next (ht_ordered_list h iter) in if nxt = 0 then None else Some nxt)"

definition hashtable_iter :: "'v hashtable \<Rightarrow> nat option" where
  "hashtable_iter h = hashtable_iter_next h 0"

definition hashtable_iter_at :: "u32 \<Rightarrow> byte list \<Rightarrow> 'v hashtable \<Rightarrow> nat option" where
  "hashtable_iter_at seed key h =
     (let hash = hash_str seed key in hashtable_find_pair h (bucket_index h hash) key hash)"

definition hashtable_iter_key :: "'v hashtable \<Rightarrow> nat \<Rightarrow> byte list option" where
  "hashtable_iter_key h iter = map_option p_key (ht_pairs h iter)"

definition hashtable_iter_value :: "'v hashtable \<Rightarrow> nat \<Rightarrow> 'v option" where
  "hashtable_iter_value h iter = map_option p_value (ht_pairs h iter)"

definition hashtable_iter_set ::
  "('v \<Rightarrow> 'w \<Rightarrow> 'w) \<Rightarrow> nat \<Rightarrow> 'v \<Rightarrow> 'v hashtable \<Rightarrow> 'w \<Rightarrow> 'v hashtable \<times> 'w" where
  "hashtable_iter_set decref iter v h w =
     (case ht_pairs h iter of
        None \<Rightarrow> (h, w)
      | Some pair \<Rightarrow> (h\<lparr>ht_pairs := (ht_pairs h)(iter \<mapsto> pair\<lparr>p_value := v\<rparr>)\<rparr>,
                       decref (p_value pair) w))"

end
