(* ===== verification/Hashtable_Correct.thy ===== *)
theory Hashtable_Correct
  imports Hashtable "HOL-Library.Multiset"
begin

text \<open>
  The hash table of \<^verbatim>\<open>hashtable.c\<close> refines an association list that keeps the order in
  which keys were first stored.  \<^verbatim>\<open>dll\<close> describes a circular doubly linked list in memory,
  \<^verbatim>\<open>bk_rep\<close> the segments of that list that the buckets delimit, \<^verbatim>\<open>ht_rep\<close> a whole table, and
  \<^verbatim>\<open>ht_rel\<close> relates a table to its association list.  Every operation is shown to
  commute with its counterpart on association lists; the locale \<^verbatim>\<open>ordered_table\<close> states
  the contract that the objects of \<^verbatim>\<open>value.c\<close> and the loop checks rely on.
\<close>

section \<open>Circular doubly linked lists\<close>

fun dseg :: "(nat \<Rightarrow> list_t) \<Rightarrow> nat \<Rightarrow> nat list \<Rightarrow> nat \<Rightarrow> bool" where
  "dseg m a [] b \<longleftrightarrow> l_next (m a) = b \<and> l_prev (m b) = a"
| "dseg m a (x # xs) b \<longleftrightarrow> l_next (m a) = x \<and> l_prev (m x) = a \<and> dseg m x xs b"

definition dll :: "(nat \<Rightarrow> list_t) \<Rightarrow> nat list \<Rightarrow> bool" where
  "dll m xs \<longleftrightarrow> distinct xs \<and> 0 \<notin> set xs \<and> dseg m 0 xs 0"

lemma dseg_append: "dseg m a (xs @ y # ys) b \<longleftrightarrow> dseg m a xs y \<and> dseg m y ys b"
  by (induction xs arbitrary: a) auto

lemma dseg_prev: "dseg m a xs b \<Longrightarrow> l_prev (m b) = last (a # xs)"
  by (induction xs arbitrary: a) auto

lemma dseg_next: "dseg m a xs b \<Longrightarrow> l_next (m a) = hd (xs @ [b])"
  by (cases xs) auto

text \<open>A segment depends on the forward links of its nodes and the backward links of their successors.\<close>

lemma dseg_cong:
  "(\<And>x. x \<in> set (a # xs) \<Longrightarrow> l_next (m' x) = l_next (m x)) \<Longrightarrow>
   (\<And>x. x \<in> set (b # xs) \<Longrightarrow> l_prev (m' x) = l_prev (m x)) \<Longrightarrow>
   dseg m' a xs b = dseg m a xs b"
  by (induction xs arbitrary: a) auto

text \<open>Redirecting the last link of a segment.\<close>

lemma dseg_redirect:
  assumes "dseg m a xs b" "distinct (a # xs)" "n \<notin> set xs"
    and "l_next (m' (last (a # xs))) = n" "l_prev (m' n) = last (a # xs)"
    and "\<And>x. x \<in> set (a # xs) \<Longrightarrow> x \<noteq> last (a # xs) \<Longrightarrow> l_next (m' x) = l_next (m x)"
    and "\<And>x. x \<in> set xs \<Longrightarrow> l_prev (m' x) = l_prev (m x)"
  shows "dseg m' a xs n"
  using assms
proof (induction xs arbitrary: a)
  case Nil
  then show ?case by simp
next
  case (Cons x xs)
  have "a \<noteq> last (x # xs)" using Cons.prems(2) by (metis distinct.simps(2) last_in_set list.discI)
  with Cons show ?case by auto
qed

lemma list_insert_links:
  assumes "n \<noteq> l" "l_prev (m l) \<noteq> n"
  shows "l_next (list_insert l n m x) = (if x = l_prev (m l) then n else if x = n then l else l_next (m x))"
    "l_prev (list_insert l n m x) = (if x = l then n else if x = n then l_prev (m l) else l_prev (m x))"
  using assms by (auto simp: list_insert_def Let_def)

lemma list_remove_links:
  assumes "l_prev (m l) \<noteq> l" "l_next (m l) \<noteq> l"
  shows "l_next (list_remove l m x) = (if x = l_prev (m l) then l_next (m l) else l_next (m x))"
    "l_prev (list_remove l m x) = (if x = l_next (m l) then l_prev (m l) else l_prev (m x))"
  using assms by (auto simp: list_remove_def Let_def)

text \<open>Insertion before a node (or before the head) of a circular list.\<close>

lemma dll_insert:
  assumes "dll m (xs @ ys)" "n \<noteq> 0" "n \<notin> set (xs @ ys)"
  shows "dll (list_insert (hd (ys @ [0])) n m) (xs @ n # ys)"
proof -
  define l where "l = hd (ys @ [0])"
  define p where "p = last (0 # xs)"
  from assms(1) have d: "distinct (xs @ ys)" "0 \<notin> set (xs @ ys)" "dseg m 0 (xs @ ys) 0"
    by (auto simp: dll_def)
  have l: "l \<noteq> n" "l \<notin> set xs" "l \<in> set (0 # ys)"
    using assms(2,3) d by (cases ys; auto simp: l_def)+
  have seg: "dseg m 0 xs l" using d(3) by (cases ys) (auto simp: dseg_append l_def)
  have p: "l_prev (m l) = p" unfolding p_def using seg by (rule dseg_prev)
  have pn: "p \<noteq> n" "p \<in> set (0 # xs)" using assms(2,3) last_in_set [of "0 # xs"] by (auto simp: p_def)
  note links = list_insert_links [OF l(1) [symmetric], of m, unfolded p, OF pn(1)]
  have "dseg (list_insert l n m) 0 xs n"
    using seg
  proof (rule dseg_redirect)
    show "distinct (0 # xs)" "n \<notin> set xs" using d assms by auto
    show "l_prev (list_insert l n m x) = l_prev (m x)" if "x \<in> set xs" for x
      using that l(2) assms(3) by (auto simp: links)
    show "l_next (list_insert l n m x) = l_next (m x)" if "x \<in> set (0 # xs)" "x \<noteq> last (0 # xs)" for x
      using that assms(2,3) by (auto simp: links p_def [symmetric] simp del: last.simps)
  qed (use l in \<open>auto simp: links p_def [symmetric] simp del: last.simps\<close>)
  moreover have "dseg (list_insert l n m) n ys 0"
  proof (cases ys)
    case Nil
    then show ?thesis using pn by (simp add: links l_def [symmetric]) (auto simp: l_def)
  next
    case (Cons y zs)
    then have "dseg m y zs 0" using d(3) by (auto simp: dseg_append)
    moreover have ly: "l = y" using Cons by (simp add: l_def)
    moreover have "dseg (list_insert l n m) y zs 0 = dseg m y zs 0"
    proof (rule dseg_cong)
      show "l_next (list_insert l n m x) = l_next (m x)" if "x \<in> set (y # zs)" for x
        using that Cons d assms(2,3) pn(2) by (auto simp: links)
      show "l_prev (list_insert l n m x) = l_prev (m x)" if "x \<in> set (0 # zs)" for x
        unfolding links using that Cons d assms(2,3) ly by auto
    qed
    moreover have "l_next (list_insert l n m n) = l" "l_prev (list_insert l n m l) = n"
      unfolding links using pn by auto
    ultimately show ?thesis using Cons by auto
  qed
  ultimately show ?thesis using assms d by (auto simp: dll_def dseg_append l_def [symmetric])
qed

text \<open>Removal of a node.\<close>

lemma dll_remove:
  assumes "dll m (xs @ n # ys)"
  shows "dll (list_remove n m) (xs @ ys)"
proof -
  define l where "l = hd (ys @ [0])"
  define p where "p = last (0 # xs)"
  from assms have d: "distinct (xs @ n # ys)" "0 \<notin> set (xs @ n # ys)" "dseg m 0 xs n" "dseg m n ys 0"
    by (auto simp: dll_def dseg_append)
  have p: "l_prev (m n) = p" unfolding p_def using d(3) by (rule dseg_prev)
  have l: "l_next (m n) = l" unfolding l_def using d(4) by (rule dseg_next)
  have pn: "p \<noteq> n" "p \<in> set (0 # xs)" using d(1,2) last_in_set [of "0 # xs"] by (auto simp: p_def)
  have ln: "l \<noteq> n" "l \<in> set (0 # ys)" "l \<notin> set xs" using d(1,2) by (cases ys; auto simp: l_def)+
  note links = list_remove_links [of m n, unfolded p l, OF pn(1) ln(1)]
  have seg: "dseg (list_remove n m) 0 xs l"
    using d(3)
  proof (rule dseg_redirect)
    show "distinct (0 # xs)" "l \<notin> set xs" using d ln by auto
    show "l_prev (list_remove n m x) = l_prev (m x)" if "x \<in> set xs" for x
      using that ln(3) by (auto simp: links)
  qed (auto simp: links p_def [symmetric] simp del: last.simps)
  have "dseg (list_remove n m) 0 (xs @ ys) 0"
  proof (cases ys)
    case Nil
    then show ?thesis using seg by (simp add: l_def)
  next
    case (Cons y zs)
    then have "dseg m y zs 0" "l = y" using d(4) by (auto simp: l_def)
    moreover have "dseg (list_remove n m) y zs 0 = dseg m y zs 0"
    proof (rule dseg_cong)
      show "l_next (list_remove n m x) = l_next (m x)" if "x \<in> set (y # zs)" for x
        using that Cons d(1,2) pn(2) by (auto simp: links)
      show "l_prev (list_remove n m x) = l_prev (m x)" if "x \<in> set (0 # zs)" for x
        using that Cons d(1,2) by (auto simp: links l_def)
    qed
    ultimately show ?thesis using seg Cons by (auto simp: dseg_append)
  qed
  then show ?thesis using d by (auto simp: dll_def)
qed

lemma dll_empty: "dll (list_init 0 m) []"
  by (simp add: dll_def list_init_def)

lemma dll_fresh_init: "dll m xs \<Longrightarrow> n \<noteq> 0 \<Longrightarrow> n \<notin> set xs \<Longrightarrow> dll (list_init n m) xs"
proof -
  assume a: "dll m xs" "n \<noteq> 0" "n \<notin> set xs"
  have "dseg (list_init n m) 0 xs 0 = dseg m 0 xs 0"
    using a by (intro dseg_cong) (auto simp: list_init_def)
  with a show ?thesis by (simp add: dll_def)
qed

section \<open>Buckets as segments of the list\<close>

abbreviation pair_of :: "'v hashtable \<Rightarrow> nat \<Rightarrow> 'v pair_t" where
  "pair_of h z \<equiv> the (ht_pairs h z)"

definition seg_ok :: "'v hashtable \<Rightarrow> nat \<times> nat list \<Rightarrow> bool" where
  "seg_ok h s \<longleftrightarrow> (case s of (i, zs) \<Rightarrow> i < 2 ^ ht_order h \<and> zs \<noteq> [] \<and>
     ht_buckets h ! i = (hd zs, last zs) \<and>
     (\<forall>z \<in> set zs. ht_pairs h z \<noteq> None \<and> p_hash (pair_of h z) mod 2 ^ ht_order h = i))"

abbreviation seg_nodes :: "(nat \<times> nat list) list \<Rightarrow> nat list" where
  "seg_nodes segs \<equiv> concat (map snd segs)"

definition bk_rep :: "'v hashtable \<Rightarrow> (nat \<times> nat list) list \<Rightarrow> bool" where
  "bk_rep h segs \<longleftrightarrow> ht_order h < 32 \<and> length (ht_buckets h) = 2 ^ ht_order h \<and>
     dll (ht_list h) (seg_nodes segs) \<and> distinct (map fst segs) \<and> (\<forall>s \<in> set segs. seg_ok h s) \<and>
     (\<forall>i < 2 ^ ht_order h. i \<notin> fst ` set segs \<longrightarrow> ht_buckets h ! i = (0, 0))"

lemma bk_repD:
  assumes "bk_rep h segs"
  shows "ht_order h < 32" "length (ht_buckets h) = 2 ^ ht_order h" "dll (ht_list h) (seg_nodes segs)"
    "distinct (map fst segs)" "\<And>s. s \<in> set segs \<Longrightarrow> seg_ok h s"
    "\<And>i. i < 2 ^ ht_order h \<Longrightarrow> i \<notin> fst ` set segs \<Longrightarrow> ht_buckets h ! i = (0, 0)"
  using assms by (auto simp: bk_rep_def)

lemma seg_nodes_nonzero: "bk_rep h segs \<Longrightarrow> 0 \<notin> set (seg_nodes segs)"
  using bk_repD(3) unfolding dll_def by blast

lemma bk_bucket_cases:
  assumes "bk_rep h segs" "i < 2 ^ ht_order h"
  obtains (empty) "i \<notin> fst ` set segs" "ht_buckets h ! i = (0, 0)"
  | (seg) A zs B where "segs = A @ (i, zs) # B" "zs \<noteq> []" "ht_buckets h ! i = (hd zs, last zs)" "hd zs \<noteq> 0"
      "i \<notin> fst ` set (A @ B)"
proof (cases "i \<in> fst ` set segs")
  case True
  then obtain zs where "(i, zs) \<in> set segs" by auto
  then obtain A B where segs: "segs = A @ (i, zs) # B" by (auto simp: in_set_conv_decomp)
  moreover have ok: "seg_ok h (i, zs)" using bk_repD(5) [OF assms(1)] segs by auto
  moreover from ok have "hd zs \<in> set (seg_nodes segs)" using segs by (auto simp: seg_ok_def)
  then have "hd zs \<noteq> 0" using seg_nodes_nonzero [OF assms(1)] by metis
  moreover have "i \<notin> fst ` set (A @ B)" using bk_repD(4) [OF assms(1)] segs by auto
  ultimately show thesis by (intro seg) (auto simp: seg_ok_def)
next
  case False
  then show thesis using empty bk_repD(6) [OF assms(1,2)] by auto
qed

lemma bucket_is_empty_iff:
  assumes "bk_rep h segs" "i < 2 ^ ht_order h"
  shows "bucket_is_empty h i \<longleftrightarrow> i \<notin> fst ` set segs"
  using assms by (rule bk_bucket_cases) (auto simp: bucket_is_empty_def)

subsection \<open>Insertion into a bucket\<close>

lemma insert_to_bucket_frame [simp]:
  "ht_pairs (insert_to_bucket h i n) = ht_pairs h"
  "ht_size (insert_to_bucket h i n) = ht_size h"
  "ht_order (insert_to_bucket h i n) = ht_order h"
  "ht_fresh (insert_to_bucket h i n) = ht_fresh h"
  "ht_ordered_list (insert_to_bucket h i n) = ht_ordered_list h"
  by (simp_all add: insert_to_bucket_def)

lemma seg_ok_other:
  assumes "seg_ok h (j, zs)" "j \<noteq> i" "ht_order h' = ht_order h" "ht_pairs h' = ht_pairs h"
    "ht_buckets h' = (ht_buckets h)[i := b]"
  shows "seg_ok h' (j, zs)"
  using assms by (auto simp: seg_ok_def)

lemma insert_to_bucket_rep:
  assumes rep: "bk_rep h segs" and n: "n \<noteq> 0" "n \<notin> set (seg_nodes segs)" "ht_pairs h n \<noteq> None"
    and i: "i = p_hash (pair_of h n) mod 2 ^ ht_order h"
  shows "\<exists>segs'. bk_rep (insert_to_bucket h i n) segs' \<and>
    set (seg_nodes segs') = insert n (set (seg_nodes segs))"
proof -
  have i_lt: "i < 2 ^ ht_order h" by (simp add: i)
  let ?h = "insert_to_bucket h i n"
  show ?thesis
    using rep i_lt
  proof (cases rule: bk_bucket_cases)
    case empty
    then have e: "bucket_is_empty h i" using bucket_is_empty_iff [OF rep i_lt] by simp
    have dll: "dll (ht_list ?h) (seg_nodes (segs @ [(i, [n])]))"
      using dll_insert [of "ht_list h" "seg_nodes segs" "[]" n] bk_repD(3) [OF rep] n
      by (simp add: insert_to_bucket_def e)
    have "seg_ok ?h s" if "s \<in> set (segs @ [(i, [n])])" for s
    proof (cases "s \<in> set segs")
      case True
      then show ?thesis
        using bk_repD(5) [OF rep True] empty(1) seg_ok_other [of h "fst s" "snd s" i ?h "(n, n)"] e
        by (force simp: insert_to_bucket_def)
    next
      case False
      with that have "s = (i, [n])" by auto
      then show ?thesis using n i i_lt bk_repD(2) [OF rep] e by (auto simp: seg_ok_def insert_to_bucket_def)
    qed
    moreover have "ht_buckets ?h ! j = (0, 0)"
      if "j < 2 ^ ht_order h" "j \<notin> fst ` set (segs @ [(i, [n])])" for j
      using that bk_repD(6) [OF rep] e by (auto simp: insert_to_bucket_def)
    ultimately have "bk_rep ?h (segs @ [(i, [n])])"
      using dll bk_repD(1,2,4) [OF rep] empty(1) e by (auto simp: bk_rep_def insert_to_bucket_def)
    then show ?thesis by (intro exI [of _ "segs @ [(i, [n])]"]) auto
  next
    case (seg A zs B)
    then have e: "\<not> bucket_is_empty h i" by (simp add: bucket_is_empty_def)
    let ?segs = "A @ (i, n # zs) # B"
    have "hd ((zs @ seg_nodes B) @ [0]) = hd zs" using seg(2) by simp
    then have dll: "dll (ht_list ?h) (seg_nodes ?segs)"
      using dll_insert [of "ht_list h" "seg_nodes A" "zs @ seg_nodes B" n] bk_repD(3) [OF rep] n seg
      by (simp add: insert_to_bucket_def e)
    have "seg_ok ?h s" if "s \<in> set ?segs" for s
    proof (cases "s \<in> set (A @ B)")
      case True
      then show ?thesis
        using bk_repD(5) [OF rep, of s] seg e
          seg_ok_other [of h "fst s" "snd s" i ?h "(n, last zs)"]
        by (force simp: insert_to_bucket_def)
    next
      case False
      with that have "s = (i, n # zs)" by auto
      moreover have "seg_ok h (i, zs)" using bk_repD(5) [OF rep] seg(1) by auto
      ultimately show ?thesis
        using n i i_lt bk_repD(2) [OF rep] e seg(2,3) by (auto simp: seg_ok_def insert_to_bucket_def)
    qed
    moreover have "ht_buckets ?h ! j = (0, 0)" if "j < 2 ^ ht_order h" "j \<notin> fst ` set ?segs" for j
      using that bk_repD(6) [OF rep] e seg(1) by (auto simp: insert_to_bucket_def)
    moreover have "distinct (map fst ?segs)" using bk_repD(4) [OF rep] seg(1) by auto
    ultimately have "bk_rep ?h ?segs"
      using dll bk_repD(1,2) [OF rep] e by (auto simp: bk_rep_def insert_to_bucket_def)
    then show ?thesis using seg(1) by (intro exI [of _ ?segs]) auto
  qed
qed

subsection \<open>Search in a bucket\<close>

lemma find_loop_seg:
  assumes "zs \<noteq> []" "dseg (ht_list h) a zs b" "distinct zs" "length zs \<le> fuel"
    "\<forall>z \<in> set zs. ht_pairs h z \<noteq> None"
  shows "find_loop fuel h (last zs) key hash (hd zs) =
    Some (List.find (\<lambda>z. p_hash (pair_of h z) = hash \<and> p_key (pair_of h z) = key) zs)"
  using assms
proof (induction zs arbitrary: a fuel)
  case Nil
  then show ?case by simp
next
  case (Cons z zs)
  then obtain f where f: "fuel = Suc f" by (cases fuel) auto
  obtain p where p: "ht_pairs h z = Some p" using Cons.prems by auto
  show ?case
  proof (cases "zs = []")
    case True
    then show ?thesis using f p by simp
  next
    case False
    then have "l_next (ht_list h z) = hd zs" "z \<noteq> last zs" "dseg (ht_list h) z zs b"
      using Cons.prems by (auto dest: dseg_next)
    with False Cons f p show ?thesis by auto
  qed
qed

lemma dseg_sub: "dseg m a (xs @ zs @ ys) b \<Longrightarrow> zs \<noteq> [] \<Longrightarrow> \<exists>a' b'. dseg m a' zs b'"
proof -
  assume d: "dseg m a (xs @ zs @ ys) b" and ne: "zs \<noteq> []"
  then obtain z rest where z: "zs = z # rest" by (cases zs) auto
  with d have "dseg m a (zs @ ys) b \<or> dseg m (last xs) (zs @ ys) b"
  proof (cases xs rule: rev_cases)
    case (snoc us u)
    with d show ?thesis using dseg_append [of m a us u "zs @ ys" b] by simp
  qed simp
  then obtain a' where a': "dseg m a' (zs @ ys) b" by blast
  show ?thesis
  proof (cases ys)
    case Nil
    with a' show ?thesis by auto
  next
    case (Cons y us)
    with a' show ?thesis using dseg_append [of m a' zs y us b] by auto
  qed
qed

lemma card_fresh: "distinct zs \<Longrightarrow> set zs \<subseteq> {1..<n} \<Longrightarrow> length zs < n \<or> zs = []"
proof -
  assume "distinct zs" "set zs \<subseteq> {1..<n}"
  then have "length zs \<le> n - 1"
    by (metis card_atLeastLessThan card_mono distinct_card finite_atLeastLessThan)
  then show ?thesis by (cases zs) auto
qed

text \<open>The search ends within the bound it is given and finds the matching node of the bucket.\<close>

lemma hashtable_find_pair_seg:
  assumes rep: "bk_rep h segs" and i: "i < 2 ^ ht_order h"
    and fresh: "set (seg_nodes segs) \<subseteq> {1..<ht_fresh h}"
  shows "hashtable_find_pair h i key hash =
    List.find (\<lambda>z. p_hash (pair_of h z) = hash \<and> p_key (pair_of h z) = key)
      (case map_of segs i of None \<Rightarrow> [] | Some zs \<Rightarrow> zs)"
  using rep i
proof (cases rule: bk_bucket_cases)
  case empty
  then have "map_of segs i = None" by (simp add: map_of_eq_None_iff)
  with empty show ?thesis by (simp add: hashtable_find_pair_def bucket_is_empty_def)
next
  case (seg A zs B)
  have ne: "\<not> bucket_is_empty h i" using seg by (simp add: bucket_is_empty_def)
  have dll: "distinct (seg_nodes segs)" "dseg (ht_list h) 0 (seg_nodes segs) 0"
    using bk_repD(3) [OF rep] by (auto simp: dll_def)
  obtain a b where ab: "dseg (ht_list h) a zs b"
    using dseg_sub [of "ht_list h" 0 "seg_nodes A" zs "seg_nodes B" 0] dll(2) seg(1,2) by auto
  have zs: "distinct zs" "set zs \<subseteq> {1..<ht_fresh h}" using dll(1) fresh seg(1) by auto
  then have "length zs \<le> ht_fresh h" using card_fresh by fastforce
  moreover have "\<forall>z \<in> set zs. ht_pairs h z \<noteq> None"
    using bk_repD(5) [OF rep, of "(i, zs)"] seg(1) by (auto simp: seg_ok_def)
  moreover have "map_of segs i = Some zs"
    using bk_repD(4) [OF rep] seg(1) by (intro map_of_is_SomeI) auto
  ultimately show ?thesis
    using find_loop_seg [OF seg(2) ab zs(1)] seg(3) ne by (simp add: hashtable_find_pair_def)
qed

section \<open>Tables and the association lists they represent\<close>

text \<open>
  \<^term>\<open>ht_rep seed h segs os\<close>: the buckets hold the segments \<^term>\<open>segs\<close> and the
  insertion-order list holds the nodes \<^term>\<open>os\<close>, the same nodes, with pairwise
  different keys stored under their hashes.
\<close>

definition ht_rep :: "u32 \<Rightarrow> 'v hashtable \<Rightarrow> (nat \<times> nat list) list \<Rightarrow> nat list \<Rightarrow> bool" where
  "ht_rep seed h segs os \<longleftrightarrow> bk_rep h segs \<and> dll (ht_ordered_list h) os \<and>
     set os = set (seg_nodes segs) \<and> dom (ht_pairs h) = set os \<and> set os \<subseteq> {1..<ht_fresh h} \<and>
     0 < ht_fresh h \<and>
     (\<forall>z \<in> set os. p_hash (pair_of h z) = hash_str seed (p_key (pair_of h z))) \<and>
     distinct (map (\<lambda>z. p_key (pair_of h z)) os) \<and> ht_size h = length os"

definition entries :: "'v hashtable \<Rightarrow> nat list \<Rightarrow> (byte list \<times> 'v) list" where
  "entries h os = map (\<lambda>z. (p_key (pair_of h z), p_value (pair_of h z))) os"

definition ht_rel :: "u32 \<Rightarrow> 'v hashtable \<Rightarrow> (byte list \<times> 'v) list \<Rightarrow> bool" where
  "ht_rel seed h al \<longleftrightarrow> (\<exists>segs os. ht_rep seed h segs os \<and> al = entries h os)"

lemma ht_repD:
  assumes "ht_rep seed h segs os"
  shows "bk_rep h segs" "dll (ht_ordered_list h) os" "set os = set (seg_nodes segs)"
    "dom (ht_pairs h) = set os" "set os \<subseteq> {1..<ht_fresh h}" "0 < ht_fresh h"
    "\<And>z. z \<in> set os \<Longrightarrow> p_hash (pair_of h z) = hash_str seed (p_key (pair_of h z))"
    "distinct (map (\<lambda>z. p_key (pair_of h z)) os)" "ht_size h = length os" "distinct os"
  using assms by (auto simp: ht_rep_def dll_def)

lemma map_fst_entries [simp]: "map fst (entries h os) = map (\<lambda>z. p_key (pair_of h z)) os"
  by (simp add: entries_def comp_def)

lemma ht_rel_distinct: "ht_rel seed h al \<Longrightarrow> distinct (map fst al)"
  by (auto simp: ht_rel_def dest: ht_repD(8))

lemma ht_rel_size: "ht_rel seed h al \<Longrightarrow> ht_size h = length al"
  by (auto simp: ht_rel_def entries_def dest: ht_repD(9))

lemma bucket_index_mod:
  "bk_rep h segs \<Longrightarrow> bucket_index h hash = hash mod 2 ^ ht_order h"
  by (simp add: bucket_index_def and_hashmask bk_repD(1))

lemma find_exists: "z \<in> set zs \<Longrightarrow> P z \<Longrightarrow> \<exists>y. List.find P zs = Some y \<and> y \<in> set zs \<and> P y"
  by (induction zs) auto

text \<open>The search returns the node with the key, and only that.\<close>

lemma find_pair_iff:
  fixes key :: "byte list"
  assumes rep: "ht_rep seed h segs os"
  defines "r \<equiv> hashtable_find_pair h (bucket_index h (hash_str seed key)) key (hash_str seed key)"
  shows "r = Some z \<longleftrightarrow> z \<in> set os \<and> p_key (pair_of h z) = key"
proof -
  let ?hash = "hash_str seed key"
  let ?i = "?hash mod 2 ^ ht_order h"
  let ?P = "\<lambda>z. p_hash (pair_of h z) = ?hash \<and> p_key (pair_of h z) = key"
  let ?zs = "case map_of segs ?i of None \<Rightarrow> [] | Some zs \<Rightarrow> zs"
  note R = ht_repD [OF rep]
  have r: "r = List.find ?P ?zs"
    using hashtable_find_pair_seg [OF R(1), of ?i] R(3,5) bucket_index_mod [OF R(1)] by (simp add: r_def)
  have sub: "set ?zs \<subseteq> set os" using R(3) by (auto split: option.splits dest!: map_of_SomeD [OF sym])
  show ?thesis
  proof
    assume "r = Some z"
    with r have "List.find ?P ?zs = Some z" by simp
    then have "z \<in> set ?zs" "?P z" by (auto simp only: find_Some_iff nth_mem)
    then show "z \<in> set os \<and> p_key (pair_of h z) = key" using sub by blast
  next
    assume z: "z \<in> set os \<and> p_key (pair_of h z) = key"
    then have "z \<in> set (seg_nodes segs)" using R(3) by simp
    then obtain j zs where j: "(j, zs) \<in> set segs" "z \<in> set zs" by auto
    then have "seg_ok h (j, zs)" using bk_repD(5) [OF R(1)] by auto
    then have "j = p_hash (pair_of h z) mod 2 ^ ht_order h" using j(2) by (auto simp: seg_ok_def)
    then have "j = ?i" using z R(7) by simp
    with j have "map_of segs ?i = Some zs" using bk_repD(4) [OF R(1)] by (simp add: map_of_is_SomeI)
    then have "z \<in> set ?zs" "?P z" using j z R(7) by auto
    then obtain y where y: "r = Some y" "y \<in> set ?zs" "?P y"
      unfolding r using find_exists [of z ?zs ?P] by blast
    then have "y \<in> set os" using sub by auto
    with R(8) z y have "y = z" by (auto simp: distinct_map inj_on_def)
    with y show "r = Some z" by simp
  qed
qed

lemma find_pair_None:
  assumes rep: "ht_rep seed h segs os"
  shows "hashtable_find_pair h (bucket_index h (hash_str seed key)) key (hash_str seed key) = None
    \<longleftrightarrow> key \<notin> fst ` set (entries h os)"
proof -
  have "key \<in> fst ` set (entries h os) \<longleftrightarrow> (\<exists>z. z \<in> set os \<and> p_key (pair_of h z) = key)"
    by (force simp: entries_def)
  then show ?thesis unfolding find_pair_iff [OF rep, of key, symmetric] by auto
qed

lemma map_of_entries:
  assumes "ht_rep seed h segs os" "z \<in> set os"
  shows "map_of (entries h os) (p_key (pair_of h z)) = Some (p_value (pair_of h z))"
proof (rule map_of_is_SomeI)
  show "distinct (map fst (entries h os))" using ht_repD(8) [OF assms(1)] by simp
qed (use assms in \<open>auto simp: entries_def\<close>)

theorem hashtable_get_map_of:
  assumes "ht_rel seed h al"
  shows "hashtable_get seed key h = map_of al key"
proof -
  obtain segs os where rep: "ht_rep seed h segs os" and al: "al = entries h os"
    using assms by (auto simp: ht_rel_def)
  show ?thesis
  proof (cases "hashtable_find_pair h (bucket_index h (hash_str seed key)) key (hash_str seed key)")
    case None
    then have "key \<notin> fst ` set al" using find_pair_None [OF rep] al by blast
    then have "map_of al key = None" by (simp add: map_of_eq_None_iff)
    then show ?thesis using None by (simp add: hashtable_get_def Let_def)
  next
    case (Some z)
    then have "z \<in> set os" "p_key (pair_of h z) = key" using find_pair_iff [OF rep] by auto
    then show ?thesis using Some al map_of_entries [OF rep] by (auto simp: hashtable_get_def Let_def)
  qed
qed

section \<open>A new table\<close>

lemma hashtable_init_rel: "hashtable_init m = (Some h, m') \<Longrightarrow> ht_rel seed h []"
  by (auto simp: hashtable_init_def INITIAL_HASHTABLE_ORDER_def clear_buckets_def Let_def hashsize_pow
      ht_rel_def ht_rep_def bk_rep_def entries_def dll_empty intro!: exI [of _ "[]"]
      split: prod.splits bool.splits)

lemma hashtable_init_ok: "\<exists>h. hashtable_init mem_ok = (Some h, mem_ok) \<and> ht_rel seed h []"
proof -
  have "\<exists>h. hashtable_init mem_ok = (Some h, mem_ok)"
    by (simp add: hashtable_init_def INITIAL_HASHTABLE_ORDER_def hashsize_pow SIZEOF_BUCKET_def Let_def)
  then show ?thesis using hashtable_init_rel by blast
qed

section \<open>Rehashing\<close>

text \<open>The forward links of nodes still to be moved.\<close>

fun npath :: "(nat \<Rightarrow> list_t) \<Rightarrow> nat list \<Rightarrow> bool" where
  "npath m [] = True"
| "npath m (y # ys) \<longleftrightarrow> l_next (m y) = hd (ys @ [0]) \<and> npath m ys"

lemma npath_cong: "(\<And>y. y \<in> set ys \<Longrightarrow> l_next (m' y) = l_next (m y)) \<Longrightarrow> npath m' ys = npath m ys"
  by (induction ys) auto

lemma dseg_npath: "dseg m a ys 0 \<Longrightarrow> npath m ys \<and> l_next (m a) = hd (ys @ [0])"
  by (induction ys arbitrary: a) auto

lemma dll_prev_in: "dll m xs \<Longrightarrow> l \<in> set (0 # xs) \<Longrightarrow> l_prev (m l) \<in> set (0 # xs)"
proof -
  assume d: "dll m xs" and l: "l \<in> set (0 # xs)"
  show ?thesis
  proof (cases "l = 0")
    case True
    then show ?thesis using d dseg_prev [of m 0 xs 0] last_in_set [of "0 # xs"] by (auto simp: dll_def)
  next
    case False
    with l obtain us vs where xs: "xs = us @ l # vs" by (auto simp: in_set_conv_decomp)
    with d have "dseg m 0 us l" by (simp add: dll_def dseg_append)
    then show ?thesis using xs dseg_prev [of m 0 us l] last_in_set [of "0 # us"] by auto
  qed
qed

lemma insert_to_bucket_next:
  assumes rep: "bk_rep h segs" and "i < 2 ^ ht_order h" and "n \<notin> set (seg_nodes segs)" "n \<noteq> 0"
    and "y \<notin> set (seg_nodes segs)" "y \<noteq> n" "y \<noteq> 0"
  shows "l_next (ht_list (insert_to_bucket h i n) y) = l_next (ht_list h y)"
proof -
  have dll: "dll (ht_list h) (seg_nodes segs)" using bk_repD(3) [OF rep] .
  have "\<exists>l \<in> set (0 # seg_nodes segs). ht_list (insert_to_bucket h i n) = list_insert l n (ht_list h)"
    using rep assms(2) by (rule bk_bucket_cases) (auto simp: insert_to_bucket_def bucket_is_empty_def)
  then obtain l where l: "l \<in> set (0 # seg_nodes segs)"
    "ht_list (insert_to_bucket h i n) = list_insert l n (ht_list h)" by blast
  have "l_prev (ht_list h l) \<in> set (0 # seg_nodes segs)" using dll_prev_in [OF dll l(1)] .
  then have p: "l_prev (ht_list h l) \<noteq> n" "l_prev (ht_list h l) \<noteq> y" using assms by (metis set_ConsD)+
  have "n \<noteq> l" using l(1) assms(3,4) by (metis set_ConsD)
  from list_insert_links(1) [of n l "ht_list h" y, OF this p(1)] p(2) l(2) assms(6) show ?thesis by auto
qed

lemma rehash_loop_rep:
  assumes "bk_rep h segs" "npath (ht_list h) ys" "distinct ys" "0 \<notin> set ys"
    "set ys \<inter> set (seg_nodes segs) = {}" "\<forall>y \<in> set ys. ht_pairs h y \<noteq> None"
    "length ys \<le> fuel" "new_size = 2 ^ ht_order h"
  shows "\<exists>segs'. bk_rep (rehash_loop fuel new_size h (hd (ys @ [0]))) segs' \<and>
    set (seg_nodes segs') = set ys \<union> set (seg_nodes segs)"
  using assms
proof (induction ys arbitrary: h segs fuel)
  case Nil
  then show ?case by (cases fuel) auto
next
  case (Cons y ys)
  then obtain f where f: "fuel = Suc f" by (cases fuel) auto
  obtain p where p: "ht_pairs h y = Some p" using Cons.prems(6) by auto
  let ?i = "p_hash p mod 2 ^ ht_order h"
  let ?h = "insert_to_bucket h ?i y"
  have y: "y \<noteq> 0" "y \<notin> set (seg_nodes segs)" using Cons.prems(4,5) by auto
  obtain segs1 where segs1: "bk_rep ?h segs1" "set (seg_nodes segs1) = insert y (set (seg_nodes segs))"
    using insert_to_bucket_rep [OF Cons.prems(1) y] p by auto
  have path: "npath (ht_list ?h) ys"
  proof -
    have "npath (ht_list ?h) ys = npath (ht_list h) ys"
    proof (rule npath_cong)
      fix x assume "x \<in> set ys"
      moreover from this have "x \<notin> set (seg_nodes segs)" "x \<noteq> y" "x \<noteq> 0" using Cons.prems(3-5) by auto
      ultimately show "l_next (ht_list ?h x) = l_next (ht_list h x)"
        using insert_to_bucket_next [OF Cons.prems(1), of ?i y x] y by simp
    qed
    then show ?thesis using Cons.prems(2) by simp
  qed
  have "\<exists>segs'. bk_rep (rehash_loop f new_size ?h (hd (ys @ [0]))) segs' \<and>
      set (seg_nodes segs') = set ys \<union> set (seg_nodes segs1)"
    using Cons.IH [OF segs1(1) path] Cons.prems segs1(2) f by auto
  then show ?case
    using f y(1) p Cons.prems(2,8) segs1(2) by (auto simp: Let_def)
qed

lemma rehash_loop_frame [simp]:
  "ht_pairs (rehash_loop fuel n h l) = ht_pairs h"
  "ht_size (rehash_loop fuel n h l) = ht_size h"
  "ht_order (rehash_loop fuel n h l) = ht_order h"
  "ht_fresh (rehash_loop fuel n h l) = ht_fresh h"
  "ht_ordered_list (rehash_loop fuel n h l) = ht_ordered_list h"
  by (induction fuel n h l rule: rehash_loop.induct) (auto simp: Let_def)

lemma ht_rep_buckets:
  assumes "ht_rep seed h segs os" "bk_rep h' segs'" "set (seg_nodes segs') = set (seg_nodes segs)"
    "ht_pairs h' = ht_pairs h" "ht_size h' = ht_size h" "ht_fresh h' = ht_fresh h"
    "ht_ordered_list h' = ht_ordered_list h"
  shows "ht_rep seed h' segs' os" "entries h' os = entries h os"
  using assms by (auto simp: ht_rep_def entries_def)

lemma clear_buckets_rep:
  "ht_order h < 32 \<Longrightarrow> dll (ht_list h) [] \<Longrightarrow> bk_rep (clear_buckets h) []"
  by (auto simp: bk_rep_def clear_buckets_def hashsize_pow)

lemma do_rehash_rep:
  assumes rep: "ht_rep seed h segs os" and order: "ht_order h < 31"
    and r: "hashtable_do_rehash h m = (0, h', m')"
  shows "\<exists>segs'. ht_rep seed h' segs' os \<and> entries h' os = entries h os"
proof -
  note R = ht_repD [OF rep]
  let ?h = "h\<lparr>ht_order := Suc (ht_order h)\<rparr>"
  let ?h2 = "clear_buckets ?h\<lparr>ht_list := list_init 0 (ht_list (clear_buckets ?h))\<rparr>"
  let ?l = "l_next (ht_list h 0)"
  have size: "hashsize (Suc (ht_order h)) = 2 ^ ht_order ?h" using order by (simp add: hashsize_pow)
  have h': "h' = rehash_loop (ht_fresh h) (hashsize (Suc (ht_order h))) ?h2 ?l"
    using r by (auto simp: hashtable_do_rehash_def Let_def clear_buckets_def split: prod.splits bool.splits)
  have D: "dseg (ht_list h) 0 (seg_nodes segs) 0" "distinct (seg_nodes segs)" "0 \<notin> set (seg_nodes segs)"
    using bk_repD(3) [OF R(1)] unfolding dll_def by blast+
  have "npath (ht_list h) (seg_nodes segs)" and l: "?l = hd (seg_nodes segs @ [0])"
    using dseg_npath [OF D(1)] by auto
  moreover have "npath (ht_list ?h2) (seg_nodes segs) = npath (ht_list h) (seg_nodes segs)"
    using D(3) by (intro npath_cong) (auto simp: list_init_def clear_buckets_def)
  ultimately have path: "npath (ht_list ?h2) (seg_nodes segs)" by simp
  have "length (seg_nodes segs) \<le> ht_fresh h"
    using card_fresh [OF D(2), of "ht_fresh h"] R(3,5) by (metis le_numeral_extra(3) less_imp_le list.size(3) zero_le)
  moreover have "bk_rep ?h2 []"
    using order by (auto simp: bk_rep_def clear_buckets_def hashsize_pow dll_empty)
  moreover have "\<forall>y \<in> set (seg_nodes segs). ht_pairs ?h2 y \<noteq> None"
    using R(3,4) by (simp add: clear_buckets_def domIff set_eq_iff)
  ultimately obtain segs' where "bk_rep h' segs'" "set (seg_nodes segs') = set (seg_nodes segs)"
    using rehash_loop_rep [of ?h2 "[]" "seg_nodes segs" "ht_fresh h", OF _ path D(2,3)] h' l size
    by (auto simp: clear_buckets_def)
  then show ?thesis
    using ht_rep_buckets [OF rep, of h' segs'] h' by (auto simp: clear_buckets_def)
qed

text \<open>A failing rehash leaves the table as it is.\<close>

lemma do_rehash_fail: "hashtable_do_rehash h m = (r, h', m') \<Longrightarrow> r \<noteq> 0 \<Longrightarrow> h' = h \<and> r = -1"
  by (auto simp: hashtable_do_rehash_def Let_def split: prod.splits bool.splits)

lemma do_rehash_result: "hashtable_do_rehash h m = (r, h', m') \<Longrightarrow> r = 0 \<or> r = -1"
  by (auto simp: hashtable_do_rehash_def Let_def split: prod.splits bool.splits)

section \<open>Storing\<close>

lemma update_map_value:
  assumes "distinct (map k os)" "z \<in> set os"
  shows "AList.update (k z) v (map (\<lambda>x. (k x, f x)) os) = map (\<lambda>x. (k x, if x = z then v else f x)) os"
  using assms by (induction os) (auto simp: rev_image_eqI)

lemma update_new: "k \<notin> fst ` set al \<Longrightarrow> AList.update k v al = al @ [(k, v)]"
  by (induction al) auto

lemma store_existing_rep:
  fixes v :: 'v
  assumes rep: "ht_rep seed h segs os" and z: "z \<in> set os"
  defines "h' \<equiv> h\<lparr>ht_pairs := (ht_pairs h)(z \<mapsto> (pair_of h z)\<lparr>p_value := v\<rparr>)\<rparr>"
  shows "ht_rep seed h' segs os"
    "entries h' os = AList.update (p_key (pair_of h z)) v (entries h os)"
proof -
  note R = ht_repD [OF rep]
  have same: "p_key (pair_of h' x) = p_key (pair_of h x)" "p_hash (pair_of h' x) = p_hash (pair_of h x)"
    "ht_pairs h' x \<noteq> None \<longleftrightarrow> x = z \<or> ht_pairs h x \<noteq> None" for x
    by (auto simp: h'_def)
  have "ht_pairs h z \<noteq> None" using z R(4) by auto
  then have "seg_ok h' s = seg_ok h s" for s
    unfolding seg_ok_def using same(2,3) by (auto simp: h'_def)
  then have "bk_rep h' segs" using R(1) by (simp add: bk_rep_def) (simp add: h'_def)
  moreover have "dom (ht_pairs h') = set os" using R(4) z by (auto simp: h'_def)
  ultimately show "ht_rep seed h' segs os"
    using R(2-9) unfolding ht_rep_def same(1,2) by (simp add: h'_def)
  show "entries h' os = AList.update (p_key (pair_of h z)) v (entries h os)"
    unfolding entries_def same(1) update_map_value [OF R(8) z] by (auto simp: h'_def)
qed

lemma store_new_rep:
  fixes v :: 'v
  assumes rep: "ht_rep seed h segs os" and key: "key \<notin> fst ` set (entries h os)"
  defines "n \<equiv> ht_fresh h" and "hash \<equiv> hash_str seed key"
  defines "h1 \<equiv> h\<lparr>ht_fresh := n + 1,
        ht_pairs := (ht_pairs h)(n \<mapsto> \<lparr>p_hash = hash, p_key = key, p_value = v\<rparr>),
        ht_list := list_init n (ht_list h), ht_ordered_list := list_init n (ht_ordered_list h)\<rparr>"
  defines "h2 \<equiv> insert_to_bucket h1 (bucket_index h hash) n"
  defines "h3 \<equiv> h2\<lparr>ht_ordered_list := list_insert 0 n (ht_ordered_list h2), ht_size := ht_size h2 + 1\<rparr>"
  shows "\<exists>segs'. ht_rep seed h3 segs' (os @ [n])" "entries h3 (os @ [n]) = AList.update key v (entries h os)"
proof -
  note R = ht_repD [OF rep]
  have n: "n \<noteq> 0" "n \<notin> set os" "n \<notin> set (seg_nodes segs)" using R(3,5,6) by (auto simp: n_def)
  have old: "ht_pairs h1 z = ht_pairs h z" if "z \<in> set os" for z
    using that n by (auto simp: h1_def)
  have "seg_ok h1 s" if "s \<in> set segs" for s
  proof -
    have "seg_ok h s" "set (snd s) \<subseteq> set os" using that bk_repD(5) [OF R(1)] R(3) by auto
    then show ?thesis using n(2) by (auto simp: seg_ok_def h1_def split: prod.splits)
  qed
  then have "bk_rep h1 segs"
    using R(1) n dll_fresh_init [of "ht_list h" "seg_nodes segs" n] by (simp add: bk_rep_def) (simp add: h1_def)
  moreover have "bucket_index h hash = p_hash (pair_of h1 n) mod 2 ^ ht_order h1"
    using bucket_index_mod [OF R(1)] by (simp add: h1_def)
  ultimately obtain segs' where segs': "bk_rep h2 segs'" "set (seg_nodes segs') = insert n (set (seg_nodes segs))"
    using insert_to_bucket_rep [of h1 segs n] n unfolding h2_def by (force simp: h1_def)
  have "bk_rep h3 segs'" using segs'(1) by (simp add: bk_rep_def h3_def seg_ok_def)
  moreover have "dll (ht_ordered_list h3) (os @ [n])"
    using dll_insert [of "ht_ordered_list h1" os "[]" n] dll_fresh_init [OF R(2), of n] n
    by (simp add: h3_def h2_def h1_def)
  moreover have "dom (ht_pairs h3) = set (os @ [n])" using R(4) by (auto simp: h3_def h2_def h1_def)
  moreover have eq: "pair_of h3 z = pair_of h z" if "z \<in> set os" for z
    using old [OF that] by (simp add: h3_def h2_def)
  moreover have new: "pair_of h3 n = \<lparr>p_hash = hash, p_key = key, p_value = v\<rparr>"
    by (simp add: h3_def h2_def h1_def)
  moreover have "distinct (map (\<lambda>z. p_key (pair_of h3 z)) os)"
    using R(8) eq by (simp cong: map_cong)
  moreover have "key \<notin> set (map (\<lambda>z. p_key (pair_of h z)) os)" using key by (force simp: entries_def)
  ultimately have "bk_rep h3 segs' \<and> dll (ht_ordered_list h3) (os @ [n]) \<and> dom (ht_pairs h3) = set (os @ [n]) \<and>
      (\<forall>z \<in> set (os @ [n]). p_hash (pair_of h3 z) = hash_str seed (p_key (pair_of h3 z))) \<and>
      distinct (map (\<lambda>z. p_key (pair_of h3 z)) (os @ [n]))"
    using R(7,8) by (simp add: hash_def)
  moreover have "ht_fresh h3 = n + 1" "ht_size h3 = length (os @ [n])"
    using R(9) by (simp_all add: h3_def h2_def h1_def)
  moreover have "set (os @ [n]) = set (seg_nodes segs')" "set (os @ [n]) \<subseteq> {1..<n + 1}"
    using R(3,5,6) segs'(2) by (auto simp: n_def)
  ultimately have "ht_rep seed h3 segs' (os @ [n])"
    unfolding ht_rep_def by (simp only: simp_thms zero_less_Suc add_gr_0 zero_less_one, blast)
  then show "\<exists>segs'. ht_rep seed h3 segs' (os @ [n])" by blast
  show "entries h3 (os @ [n]) = AList.update key v (entries h os)"
    using eq new update_new [OF key] by (simp add: entries_def)
qed

section \<open>Setting a key\<close>

lemma hashtable_store_rel:
  assumes rel: "ht_rel seed h al"
    and st: "hashtable_store decref seed key v h m w = (r, h', m', w')"
  shows "r = 0 \<Longrightarrow> ht_rel seed h' (AList.update key v al)"
    "r = 0 \<Longrightarrow> w' = (case map_of al key of None \<Rightarrow> w | Some old \<Rightarrow> decref old w)"
    "r \<noteq> 0 \<Longrightarrow> r = -1 \<and> h' = h \<and> w' = w \<and> map_of al key = None"
proof -
  obtain segs os where rep: "ht_rep seed h segs os" and al: "al = entries h os"
    using rel by (auto simp: ht_rel_def)
  let ?f = "hashtable_find_pair h (bucket_index h (hash_str seed key)) key (hash_str seed key)"
  have "(r = 0 \<longrightarrow> ht_rel seed h' (AList.update key v al) \<and>
          w' = (case map_of al key of None \<Rightarrow> w | Some old \<Rightarrow> decref old w)) \<and>
        (r \<noteq> 0 \<longrightarrow> r = -1 \<and> h' = h \<and> w' = w \<and> map_of al key = None)"
  proof (cases ?f)
    case (Some z)
    then have z: "z \<in> set os" "p_key (pair_of h z) = key" using find_pair_iff [OF rep] by auto
    moreover have "map_of al key = Some (p_value (pair_of h z))" using map_of_entries [OF rep z(1)] z(2) al by simp
    ultimately show ?thesis
      using st Some store_existing_rep [OF rep z(1)] al
      unfolding hashtable_store_def Let_def ht_rel_def by simp metis
  next
    case None
    then have new: "key \<notin> fst ` set (entries h os)" using find_pair_None [OF rep] by simp
    then have "map_of al key = None" using al by (simp add: map_of_eq_None_iff)
    then show ?thesis
      using st None store_new_rep [OF rep new, of v] al
      unfolding hashtable_store_def Let_def ht_rel_def
      by (auto split: if_splits prod.splits bool.splits) metis
  qed
  then show "r = 0 \<Longrightarrow> ht_rel seed h' (AList.update key v al)"
    "r = 0 \<Longrightarrow> w' = (case map_of al key of None \<Rightarrow> w | Some old \<Rightarrow> decref old w)"
    "r \<noteq> 0 \<Longrightarrow> r = -1 \<and> h' = h \<and> w' = w \<and> map_of al key = None" by blast+
qed

text \<open>
  Below \<^term>\<open>2 ^ 31\<close> keys the order stays below 31, so that the shift in
  \<^verbatim>\<open>hashsize\<close> is defined.
\<close>

lemma rehash_order:
  assumes "ht_rel seed h al" "hashsize (ht_order h) \<le> ht_size h" "length al < 2 ^ 31"
  shows "ht_order h < 31"
proof -
  have "ht_order h < 32" using assms(1) by (auto simp: ht_rel_def dest: ht_repD(1) bk_repD(1))
  then have "2 ^ ht_order h \<le> length al" using assms by (simp add: hashsize_pow ht_rel_size)
  then have "(2::nat) ^ ht_order h < 2 ^ 31" using assms(3) by linarith
  then show ?thesis by (rule power_less_imp_less_exp [rotated]) simp
qed

lemma hashtable_set_rel:
  assumes rel: "ht_rel seed h al" and size: "length al < 2 ^ 31"
    and st: "hashtable_set decref seed key v h m w = (r, h', m', w')"
  shows "r = 0 \<Longrightarrow> ht_rel seed h' (AList.update key v al)"
    "r = 0 \<Longrightarrow> w' = (case map_of al key of None \<Rightarrow> w | Some old \<Rightarrow> decref old w)"
    "r \<noteq> 0 \<Longrightarrow> r = -1 \<and> ht_rel seed h' al \<and> w' = w"
proof -
  let ?big = "ht_size h \<ge> hashsize (ht_order h)"
  have "\<exists>r1 h1 m1. (if ?big then hashtable_do_rehash h m else (0, h, m)) = (r1, h1, m1) \<and> ht_rel seed h1 al"
  proof (cases ?big)
    case True
    obtain r1 h1 m1 where re: "hashtable_do_rehash h m = (r1, h1, m1)" by (cases "hashtable_do_rehash h m")
    have "ht_rel seed h1 al"
    proof (cases "r1 = 0")
      case zero: True
      obtain segs os where "ht_rep seed h segs os" "al = entries h os" using rel by (auto simp: ht_rel_def)
      then show ?thesis
        using do_rehash_rep [of seed h segs os m h1 m1] rehash_order [OF rel True size] re zero
        unfolding ht_rel_def by metis
    qed (use do_rehash_fail [OF re] rel in auto)
    with re True show ?thesis by auto
  qed (use rel in auto)
  then obtain r1 h1 m1 where h1: "(if ?big then hashtable_do_rehash h m else (0, h, m)) = (r1, h1, m1)"
    and rel1: "ht_rel seed h1 al" by blast
  have eq: "hashtable_set decref seed key v h m w =
      (if r1 \<noteq> 0 then (-1, h1, m1, w) else hashtable_store decref seed key v h1 m1 w)"
    by (simp only: hashtable_set_def h1 Let_def split)
  note S = hashtable_store_rel [OF rel1, of decref key v m1 w r h' m' w']
  show "r = 0 \<Longrightarrow> ht_rel seed h' (AList.update key v al)"
    "r = 0 \<Longrightarrow> w' = (case map_of al key of None \<Rightarrow> w | Some old \<Rightarrow> decref old w)"
    "r \<noteq> 0 \<Longrightarrow> r = -1 \<and> ht_rel seed h' al \<and> w' = w"
    using st S rel1 unfolding eq by (auto split: if_splits)
qed

section \<open>Deleting a key\<close>

lemma bucket_remove_rep:
  assumes rep: "bk_rep h segs" and seg: "segs = A @ (i, us @ z # vs) # B"
  defines "b \<equiv> ht_buckets h ! i"
  defines "b' \<equiv> (if z = fst b \<and> z = snd b then (0, 0)
                 else if z = fst b then (l_next (ht_list h z), snd b)
                 else if z = snd b then (fst b, l_prev (ht_list h z)) else b)"
  defines "h' \<equiv> h\<lparr>ht_buckets := (ht_buckets h)[i := b'], ht_list := list_remove z (ht_list h),
                  ht_pairs := (ht_pairs h)(z := None)\<rparr>"
  shows "\<exists>segs'. bk_rep h' segs' \<and> set (seg_nodes segs') = set (seg_nodes segs) - {z}"
proof -
  let ?zs = "us @ vs"
  let ?segs = "A @ (if ?zs = [] then [] else [(i, ?zs)]) @ B"
  have D: "dseg (ht_list h) 0 (seg_nodes segs) 0" "distinct (seg_nodes segs)" "0 \<notin> set (seg_nodes segs)"
    using bk_repD(3) [OF rep] unfolding dll_def by blast+
  have dist: "distinct (us @ z # vs)" using D(2) seg by auto
  have ok: "seg_ok h (i, us @ z # vs)" using bk_repD(5) [OF rep] seg by auto
  then have b: "b = (hd (us @ [z]), last (z # vs))" and i: "i < 2 ^ ht_order h"
    by (auto simp: seg_ok_def b_def hd_append)
  have first: "z = hd (us @ [z]) \<longleftrightarrow> us = []" using dist by (cases us) auto
  have lst: "z = last (z # vs) \<longleftrightarrow> vs = []" using dist by (cases vs rule: rev_cases) auto
  obtain a c where ac: "dseg (ht_list h) a (us @ z # vs) c"
    using dseg_sub [of "ht_list h" 0 "seg_nodes A" "us @ z # vs" "seg_nodes B" 0] D(1) seg by auto
  then have "us \<noteq> [] \<Longrightarrow> l_prev (ht_list h z) = last us" "vs \<noteq> [] \<Longrightarrow> l_next (ht_list h z) = hd vs"
    using dseg_prev [of "ht_list h" a us z] dseg_next [of "ht_list h" z vs c] by (auto simp: dseg_append)
  then have b': "b' = (if ?zs = [] then (0, 0) else (hd ?zs, last ?zs))"
    using first lst unfolding b'_def b by (auto simp: hd_append)
  have nodes: "seg_nodes ?segs = (seg_nodes A @ us) @ vs @ seg_nodes B" by simp
  have dll: "dll (ht_list h') (seg_nodes ?segs)"
    using dll_remove [of "ht_list h" "seg_nodes A @ us" z "vs @ seg_nodes B"] bk_repD(3) [OF rep] seg
    unfolding nodes by (simp add: h'_def)
  have notin: "z \<notin> set (seg_nodes ?segs)" using D(2) seg by auto
  have i_AB: "i \<notin> fst ` set (A @ B)" using bk_repD(4) [OF rep] seg by auto
  have "seg_ok h' s" if s: "s \<in> set ?segs" for s
  proof (cases "s \<in> set (A @ B)")
    case True
    then have "seg_ok h s" "fst s \<noteq> i" using bk_repD(5) [OF rep, of s] seg i_AB by auto
    moreover have "z \<notin> set (snd s)" using s notin by auto
    ultimately show ?thesis by (auto simp: seg_ok_def h'_def split: prod.splits)
  next
    case False
    with s have "s = (i, ?zs)" "?zs \<noteq> []" by (auto split: if_splits)
    then show ?thesis using ok b' i dist bk_repD(2) [OF rep] by (auto simp: seg_ok_def h'_def)
  qed
  moreover have "ht_buckets h' ! j = (0, 0)" if "j < 2 ^ ht_order h'" "j \<notin> fst ` set ?segs" for j
    using that bk_repD(6) [OF rep, of j] bk_repD(2) [OF rep] b' seg by (cases "j = i") (auto simp: h'_def)
  moreover have "distinct (map fst ?segs)" using bk_repD(4) [OF rep] seg by auto
  ultimately have "bk_rep h' ?segs"
    using dll bk_repD(1,2) [OF rep] by (auto simp: bk_rep_def) (auto simp: h'_def)
  moreover have "set (seg_nodes ?segs) = set (seg_nodes segs) - {z}"
    using D(2) seg by auto
  ultimately show ?thesis by blast
qed

lemma delete_map:
  assumes "distinct (map k (us @ z # vs))"
  shows "AList.delete (k z) (map (\<lambda>x. (k x, f x)) (us @ z # vs)) = map (\<lambda>x. (k x, f x)) (us @ vs)"
proof -
  have "k x \<noteq> k z" if "x \<in> set (us @ vs)" for x
    using assms that by (auto simp: image_iff)
  then have "AList.delete (k z) (map (\<lambda>x. (k x, f x)) zs) = map (\<lambda>x. (k x, f x)) zs"
    if "set zs \<subseteq> set (us @ vs)" for zs
    using that by (induction zs) auto
  from this [of us] this [of vs] show ?thesis by (simp add: AList.delete_eq)
qed

lemma hashtable_do_del_found:
  assumes "hashtable_find_pair h (bucket_index h hash) key hash = Some z"
  shows "hashtable_do_del decref key hash h w =
    (let j = bucket_index h hash; b = ht_buckets h ! j in
     (0, h\<lparr>ht_buckets := (ht_buckets h)[j :=
        (if z = fst b \<and> z = snd b then (0, 0) else if z = fst b then (l_next (ht_list h z), snd b)
         else if z = snd b then (fst b, l_prev (ht_list h z)) else b)],
        ht_list := list_remove z (ht_list h), ht_pairs := (ht_pairs h)(z := None),
        ht_ordered_list := list_remove z (ht_ordered_list h), ht_size := ht_size h - 1\<rparr>,
      decref (p_value (pair_of h z)) w))"
  unfolding hashtable_do_del_def Let_def assms option.case case_prod_beta by simp

lemma do_del_rep:
  assumes rep: "ht_rep seed h segs os"
    and del: "hashtable_del decref seed key h w = (r, h', w')"
  shows "(r = 0 \<and> (\<exists>v. map_of (entries h os) key = Some v \<and> w' = decref v w) \<and>
       ht_rel seed h' (AList.delete key (entries h os))) \<or>
    (r = -1 \<and> map_of (entries h os) key = None \<and> h' = h \<and> w' = w)"
proof -
  note R = ht_repD [OF rep]
  let ?hash = "hash_str seed key"
  let ?i = "bucket_index h ?hash"
  show ?thesis
  proof (cases "hashtable_find_pair h ?i key ?hash")
    case None
    then have "map_of (entries h os) key = None"
      using find_pair_None [OF rep, of key] unfolding map_of_eq_None_iff by simp
    with None del show ?thesis by (simp add: hashtable_del_def hashtable_do_del_def Let_def)
  next
    case (Some z)
    then have z: "z \<in> set os" "p_key (pair_of h z) = key" using find_pair_iff [OF rep] by auto
    then have "z \<in> set (seg_nodes segs)" using R(3) by simp
    then obtain j zs where "(j, zs) \<in> set segs" "z \<in> set zs" by auto
    then obtain A B us vs where seg: "segs = A @ (j, us @ z # vs) # B" by (metis split_list)
    then have "seg_ok h (j, us @ z # vs)" using bk_repD(5) [OF R(1)] by auto
    then have "j = p_hash (pair_of h z) mod 2 ^ ht_order h" by (auto simp: seg_ok_def)
    then have j: "j = ?i" using z R(7) bucket_index_mod [OF R(1)] by simp
    define b where "b = ht_buckets h ! j"
    define h1 where "h1 = h\<lparr>ht_buckets := (ht_buckets h)[j :=
        (if z = fst b \<and> z = snd b then (0, 0) else if z = fst b then (l_next (ht_list h z), snd b)
         else if z = snd b then (fst b, l_prev (ht_list h z)) else b)],
        ht_list := list_remove z (ht_list h), ht_pairs := (ht_pairs h)(z := None)\<rparr>"
    have h': "h' = h1\<lparr>ht_ordered_list := list_remove z (ht_ordered_list h), ht_size := ht_size h - 1\<rparr>"
      and rw: "r = 0" "w' = decref (p_value (pair_of h z)) w"
      using del unfolding hashtable_del_def hashtable_do_del_found [OF Some] h1_def b_def j by (simp_all add: Let_def)
    obtain segs1 where segs1: "bk_rep h1 segs1" "set (seg_nodes segs1) = set (seg_nodes segs) - {z}"
      using bucket_remove_rep [OF R(1) seg] unfolding h1_def b_def by blast
    obtain xs ys where os: "os = xs @ z # ys" using z(1) by (metis split_list)
    have dist: "z \<notin> set (xs @ ys)" "distinct (xs @ ys)" using R(10) os by auto
    have same: "pair_of h' x = pair_of h x" if "x \<in> set (xs @ ys)" for x
      using that dist by (auto simp: h' h1_def)
    have "bk_rep h' segs1" using segs1(1) by (simp add: bk_rep_def h' seg_ok_def)
    moreover have "dll (ht_ordered_list h') (xs @ ys)" using dll_remove R(2) os by (simp add: h')
    moreover have "set (xs @ ys) = set (seg_nodes segs1)" using segs1(2) R(3) os dist by auto
    moreover have "dom (ht_pairs h') = set (xs @ ys)" using R(4) os dist by (auto simp: h' h1_def)
    moreover have "set (xs @ ys) \<subseteq> {1..<ht_fresh h'}" "0 < ht_fresh h'" using R(5,6) os by (auto simp: h' h1_def)
    moreover have "\<forall>x \<in> set (xs @ ys). p_hash (pair_of h' x) = hash_str seed (p_key (pair_of h' x))"
      using same R(7) os by auto
    moreover have "distinct (map (\<lambda>x. p_key (pair_of h' x)) (xs @ ys))"
      using same R(8) os by (simp cong: map_cong)
    moreover have "ht_size h' = length (xs @ ys)" using R(9) os by (simp add: h' h1_def)
    ultimately have "ht_rep seed h' segs1 (xs @ ys)" unfolding ht_rep_def by blast
    moreover have "entries h' (xs @ ys) = entries h (xs @ ys)" using same by (auto simp: entries_def)
    moreover have "entries h (xs @ ys) = AList.delete key (entries h os)"
      using delete_map [of "\<lambda>x. p_key (pair_of h x)" xs z ys "\<lambda>x. p_value (pair_of h x)"] R(8) z(2) os
      by (simp add: entries_def)
    ultimately show ?thesis
      using rw map_of_entries [OF rep z(1)] z(2) unfolding ht_rel_def by metis
  qed
qed

lemma hashtable_del_rel:
  assumes rel: "ht_rel seed h al" and del: "hashtable_del decref seed key h w = (r, h', w')"
  shows "(r = 0 \<and> (\<exists>v. map_of al key = Some v \<and> w' = decref v w) \<and> ht_rel seed h' (AList.delete key al)) \<or>
    (r = -1 \<and> map_of al key = None \<and> h' = h \<and> w' = w)"
proof -
  obtain segs os where "ht_rep seed h segs os" "al = entries h os" using rel by (auto simp: ht_rel_def)
  then show ?thesis using do_del_rep [OF _ del, of segs os] by simp
qed

section \<open>Clearing\<close>

text \<open>The values of a table, in the order in which clearing visits them.\<close>

lemma do_clear_loop_path:
  assumes "npath (ht_list h) ys" "0 \<notin> set ys" "length ys < fuel" "distinct ys" "\<forall>y \<in> set ys. ht_pairs h y \<noteq> None"
  shows "do_clear_loop fuel decref (hd (ys @ [0])) h w =
    (h\<lparr>ht_pairs := (ht_pairs h) |` (- set ys)\<rparr>, fold (\<lambda>y. decref (p_value (pair_of h y))) ys w)"
  using assms
proof (induction ys arbitrary: h w fuel)
  case Nil
  then obtain f where "fuel = Suc f" by (cases fuel) auto
  then show ?case by (simp add: restrict_map_def)
next
  case (Cons y ys)
  then obtain f where f: "fuel = Suc f" by (cases fuel) auto
  let ?h = "h\<lparr>ht_pairs := (ht_pairs h)(y := None)\<rparr>"
  obtain p where p: "ht_pairs h y = Some p" using Cons.prems by auto
  have "do_clear_loop f decref (hd (ys @ [0])) ?h (decref (p_value p) w) =
    (?h\<lparr>ht_pairs := (ht_pairs ?h) |` (- set ys)\<rparr>, fold (\<lambda>x. decref (p_value (pair_of ?h x))) ys (decref (p_value p) w))"
    using Cons.prems f by (intro Cons.IH) auto
  moreover have "fold (\<lambda>x. decref (p_value (pair_of ?h x))) ys v = fold (\<lambda>x. decref (p_value (pair_of h x))) ys v" for v
    using Cons.prems(4) by (intro fold_cong) auto
  moreover have "(ht_pairs h)(y := None) |` (- set ys) = ht_pairs h |` (- set (y # ys))"
    by (auto simp: restrict_map_def)
  ultimately show ?case using Cons.prems(1,2) f p by (simp add: Let_def)
qed

lemma hashtable_do_clear_rep:
  assumes rep: "ht_rep seed h segs os"
  shows "hashtable_do_clear decref h w =
    (h\<lparr>ht_pairs := Map.empty\<rparr>, fold (\<lambda>y. decref (p_value (pair_of h y))) (seg_nodes segs) w)"
proof -
  note R = ht_repD [OF rep]
  have D: "dseg (ht_list h) 0 (seg_nodes segs) 0" "distinct (seg_nodes segs)" "0 \<notin> set (seg_nodes segs)"
    using bk_repD(3) [OF R(1)] unfolding dll_def by blast+
  have "length (seg_nodes segs) < ht_fresh h"
    using card_fresh [OF D(2), of "ht_fresh h"] R(3,5,6) by (metis list.size(3))
  moreover have "\<forall>y \<in> set (seg_nodes segs). ht_pairs h y \<noteq> None" using R(3,4) by auto
  moreover have "ht_pairs h |` (- set (seg_nodes segs)) = Map.empty"
    unfolding R(3) [symmetric] R(4) [symmetric] by (auto simp: restrict_map_def)
  ultimately show ?thesis
    using do_clear_loop_path [OF _ D(3) _ D(2), of h "ht_fresh h" decref w] dseg_npath [OF D(1)]
    by (simp only: hashtable_do_clear_def simp_thms)
qed

lemma seg_values:
  assumes rep: "ht_rep seed h segs os"
  shows "mset (map (\<lambda>y. p_value (pair_of h y)) (seg_nodes segs)) = mset (map snd (entries h os))"
proof -
  note R = ht_repD [OF rep]
  have "distinct (seg_nodes segs)" using bk_repD(3) [OF R(1)] unfolding dll_def by blast
  then have "mset (seg_nodes segs) = mset os" using R(3,10) by (metis set_eq_iff_mset_eq_distinct)
  then have "mset (map (\<lambda>y. p_value (pair_of h y)) (seg_nodes segs)) = mset (map (\<lambda>y. p_value (pair_of h y)) os)"
    by (metis mset_map)
  then show ?thesis by (simp add: entries_def comp_def)
qed

lemma fold_map_decref: "fold (\<lambda>y. decref (f y)) ys w = fold decref (map f ys) w"
  by (induction ys arbitrary: w) auto

lemma hashtable_clear_rel:
  assumes rel: "ht_rel seed h al" and cl: "hashtable_clear decref h w = (h', w')"
  shows "ht_rel seed h' []" "\<exists>vs. mset vs = mset (map snd al) \<and> w' = fold decref vs w"
proof -
  obtain segs os where rep: "ht_rep seed h segs os" and al: "al = entries h os" using rel by (auto simp: ht_rel_def)
  note R = ht_repD [OF rep]
  have w': "w' = fold (\<lambda>y. decref (p_value (pair_of h y))) (seg_nodes segs) w"
    and h': "h' = (let h2 = clear_buckets (h\<lparr>ht_pairs := Map.empty\<rparr>) in h2\<lparr>ht_list := list_init 0 (ht_list h2),
             ht_ordered_list := list_init 0 (ht_ordered_list h2), ht_size := 0\<rparr>)"
    using cl unfolding hashtable_clear_def hashtable_do_clear_rep [OF rep] by (simp_all add: Let_def)
  have "ht_rep seed h' [] []"
    using bk_repD(1) [OF R(1)] R(6)
    by (auto simp: h' Let_def ht_rep_def bk_rep_def clear_buckets_def dll_empty hashsize_pow)
  then show "ht_rel seed h' []" unfolding ht_rel_def entries_def by fastforce
  show "\<exists>vs. mset vs = mset (map snd al) \<and> w' = fold decref vs w"
    using w' seg_values [OF rep] al by (metis fold_map_decref)
qed

lemma hashtable_close_rel:
  assumes rel: "ht_rel seed h al"
  shows "\<exists>vs. mset vs = mset (map snd al) \<and> hashtable_close decref h w = fold decref vs w"
proof -
  obtain segs os where rep: "ht_rep seed h segs os" and al: "al = entries h os" using rel by (auto simp: ht_rel_def)
  then show ?thesis using seg_values [OF rep]
    unfolding hashtable_close_def hashtable_do_clear_rep [OF rep] snd_conv by (metis fold_map_decref)
qed

section \<open>Iteration\<close>

text \<open>Walking the iterator from the start passes the entries in insertion order and then stops.\<close>

fun iter_walk :: "nat \<Rightarrow> 'v hashtable \<Rightarrow> nat option \<Rightarrow> (byte list \<times> 'v) list" where
  "iter_walk 0 h it = []"
| "iter_walk (Suc fuel) h it =
     (case it of None \<Rightarrow> []
      | Some z \<Rightarrow> (the (hashtable_iter_key h z), the (hashtable_iter_value h z)) #
          iter_walk fuel h (hashtable_iter_next h z))"

lemma iter_walk_dseg:
  assumes "dseg (ht_ordered_list h) a ys 0" "0 \<notin> set ys" "length ys \<le> fuel" "set ys \<subseteq> dom (ht_pairs h)"
  shows "iter_walk fuel h (hashtable_iter_next h a) = entries h ys"
  using assms
proof (induction ys arbitrary: a fuel)
  case Nil
  then show ?case by (cases fuel) (simp_all add: hashtable_iter_next_def entries_def)
next
  case (Cons y ys)
  then obtain f where f: "fuel = Suc f" by (cases fuel) auto
  obtain p where "ht_pairs h y = Some p" using Cons.prems by auto
  moreover have "iter_walk f h (hashtable_iter_next h y) = entries h ys" using Cons f by auto
  moreover have "hashtable_iter_next h a = Some y" using Cons.prems by (simp add: hashtable_iter_next_def Let_def)
  ultimately show ?case using f by (simp add: entries_def hashtable_iter_key_def hashtable_iter_value_def)
qed

lemma iter_walk_rel: "ht_rel seed h al \<Longrightarrow> iter_walk (ht_size h) h (hashtable_iter h) = al"
proof -
  assume "ht_rel seed h al"
  then obtain segs os where rep: "ht_rep seed h segs os" and al: "al = entries h os" by (auto simp: ht_rel_def)
  note R = ht_repD [OF rep]
  show ?thesis
    using iter_walk_dseg [of h 0 os "ht_size h"] R(2,4,9) al by (simp add: hashtable_iter_def dll_def)
qed

lemma hashtable_iter_at_rel:
  assumes rep: "ht_rep seed h segs os"
  shows "hashtable_iter_at seed key h = Some z \<longleftrightarrow> z \<in> set os \<and> p_key (pair_of h z) = key"
  using find_pair_iff [OF rep] by (simp add: hashtable_iter_at_def Let_def)

lemma hashtable_iter_set_rel:
  assumes rel: "ht_rel seed h al" and key: "hashtable_iter_key h it = Some key"
  shows "ht_rel seed (fst (hashtable_iter_set decref it v h w)) (AList.update key v al)"
    "snd (hashtable_iter_set decref it v h w) = decref (the (map_of al key)) w"
proof -
  obtain segs os where rep: "ht_rep seed h segs os" and al: "al = entries h os" using rel by (auto simp: ht_rel_def)
  obtain p where p: "ht_pairs h it = Some p" "p_key p = key" using key by (auto simp: hashtable_iter_key_def)
  then have z: "it \<in> set os" using ht_repD(4) [OF rep] by auto
  show "ht_rel seed (fst (hashtable_iter_set decref it v h w)) (AList.update key v al)"
    using store_existing_rep [OF rep z, of v] p al unfolding ht_rel_def hashtable_iter_set_def by auto metis
  show "snd (hashtable_iter_set decref it v h w) = decref (the (map_of al key)) w"
    using map_of_entries [OF rep z] p al by (simp add: hashtable_iter_set_def)
qed

section \<open>Stores do not fail while memory lasts\<close>

lemma hashtable_set_mem_ok:
  assumes rel: "ht_rel seed h al" and size: "length al < 2 ^ 31" and key: "length key < 2 ^ 62"
  shows "\<exists>h' w'. hashtable_set decref seed key v h mem_ok w = (0, h', mem_ok, w')"
proof -
  have order: "ht_order h < 31" if "hashsize (ht_order h) \<le> ht_size h" using rehash_order [OF rel that size] .
  then have "0 < hashsize (Suc (ht_order h)) * SIZEOF_BUCKET" if "hashsize (ht_order h) \<le> ht_size h"
    using that by (simp add: hashsize_pow SIZEOF_BUCKET_def)
  then have "\<exists>h1. (if hashsize (ht_order h) \<le> ht_size h then hashtable_do_rehash h mem_ok else (0, h, mem_ok)) = (0, h1, mem_ok)"
    by (auto simp: hashtable_do_rehash_def Let_def)
  moreover have "\<exists>h' w'. hashtable_store decref seed key v h1 mem_ok w = (0, h', mem_ok, w')" for h1
    using key by (auto simp: hashtable_store_def Let_def SIZE_MAX_def OFFSETOF_KEY_def split: option.splits)
  ultimately show ?thesis by (auto simp: hashtable_set_def)
qed

section \<open>The contract of a table\<close>

locale ordered_table =
  fixes rel :: "'s \<Rightarrow> (byte list \<times> 'v) list \<Rightarrow> bool"
    and lookup :: "byte list \<Rightarrow> 's \<Rightarrow> 'v option"
    and put :: "byte list \<Rightarrow> 'v \<Rightarrow> 's \<Rightarrow> 's option"
    and remove :: "byte list \<Rightarrow> 's \<Rightarrow> 's option"
  assumes rel_distinct: "rel s al \<Longrightarrow> distinct (map fst al)"
    and lookup_rel: "rel s al \<Longrightarrow> lookup k s = map_of al k"
    and put_rel: "rel s al \<Longrightarrow> length al < 2 ^ 31 \<Longrightarrow> put k v s = Some s' \<Longrightarrow> rel s' (AList.update k v al)"
    and remove_rel: "rel s al \<Longrightarrow> remove k s = Some s' \<Longrightarrow> rel s' (AList.delete k al)"
    and remove_defined: "rel s al \<Longrightarrow> remove k s = None \<longleftrightarrow> map_of al k = None"
begin

lemma lookup_put:
  assumes "rel s al" "length al < 2 ^ 31" "put k v s = Some s'"
  shows "lookup k' s' = (if k' = k then Some v else lookup k' s)"
  using lookup_rel [OF put_rel [OF assms]] lookup_rel [OF assms(1)] by (simp add: update_conv)

lemma lookup_remove:
  assumes "rel s al" "remove k s = Some s'"
  shows "lookup k' s' = (if k' = k then None else lookup k' s)"
  using lookup_rel [OF remove_rel [OF assms]] lookup_rel [OF assms(1)] by (simp add: delete_conv)

lemma put_keeps_order:
  assumes "rel s al" "length al < 2 ^ 31" "put k v s = Some s'" "lookup k s \<noteq> None"
  shows "\<exists>al'. rel s' al' \<and> map fst al' = map fst al"
proof -
  have "k \<in> fst ` set al" using assms(1,4) lookup_rel by (metis map_of_eq_None_iff)
  then have "map fst (AList.update k v al) = map fst al" by (induction al) auto
  then show ?thesis using assms put_rel by blast
qed

lemma put_remove:
  assumes "rel s al" "length al < 2 ^ 31" "put k v s = Some s'" "remove k s' = Some s''"
  shows "lookup k' s'' = (if k' = k then None else lookup k' s)"
  using lookup_remove [OF put_rel [OF assms(1-3)] assms(4)] lookup_put [OF assms(1-3)] by simp

end

text \<open>Storing and deleting when every allocation succeeds and values need no release.\<close>

definition table_put :: "u32 \<Rightarrow> byte list \<Rightarrow> 'v \<Rightarrow> 'v hashtable \<Rightarrow> 'v hashtable option" where
  "table_put seed k v h =
     (case hashtable_set (\<lambda>_ w. w) seed k v h mem_ok () of
        (r, h', _, _) \<Rightarrow> if r = 0 then Some h' else None)"

definition table_remove :: "u32 \<Rightarrow> byte list \<Rightarrow> 'v hashtable \<Rightarrow> 'v hashtable option" where
  "table_remove seed k h =
     (case hashtable_del (\<lambda>_ w. w) seed k h () of (r, h', _) \<Rightarrow> if r = 0 then Some h' else None)"

interpretation ht: ordered_table "ht_rel seed" "hashtable_get seed" "table_put seed" "table_remove seed"
  for seed :: u32
proof
  fix h :: "'v hashtable" and al k v h'
  assume rel: "ht_rel seed h al"
  show "distinct (map fst al)" using ht_rel_distinct [OF rel] .
  show "hashtable_get seed k h = map_of al k" using hashtable_get_map_of [OF rel] .
  show "ht_rel seed h' (AList.update k v al)" if "length al < 2 ^ 31" "table_put seed k v h = Some h'"
    using that(2) hashtable_set_rel(1) [OF rel that(1) _ refl, of _ k v mem_ok "()" h']
    by (fastforce simp: table_put_def split: prod.splits if_splits)
  show "ht_rel seed h' (AList.delete k al)" if "table_remove seed k h = Some h'"
    using that hashtable_del_rel [OF rel, of "\<lambda>_ w. w" k "()"]
    by (fastforce simp: table_remove_def split: prod.splits if_splits)
  show "table_remove seed k h = None \<longleftrightarrow> map_of al k = None"
    using hashtable_del_rel [OF rel, of "\<lambda>_ w. w" k "()"]
    by (fastforce simp: table_remove_def split: prod.splits)
qed

section \<open>Runs of a table\<close>

text \<open>
  A client's calls in sequence, each with the value it returned; the values stored need no
  release.  The abstract run applies the calls that returned 0 to an association list.
\<close>

datatype 'v table_call =
    Call_Set "byte list" 'v
  | Call_Del "byte list"
  | Call_Clear

fun exec_call :: "u32 \<Rightarrow> 'v table_call \<Rightarrow> 'v hashtable \<times> mem \<Rightarrow> int \<times> 'v hashtable \<times> mem" where
  "exec_call seed (Call_Set k v) (h, m) =
     (case hashtable_set (\<lambda>_ w. w) seed k v h m () of (r, h', m', _) \<Rightarrow> (r, h', m'))"
| "exec_call seed (Call_Del k) (h, m) =
     (case hashtable_del (\<lambda>_ w. w) seed k h () of (r, h', _) \<Rightarrow> (r, h', m))"
| "exec_call seed Call_Clear (h, m) = (0, fst (hashtable_clear (\<lambda>_ w. w) h ()), m)"

fun table_run :: "u32 \<Rightarrow> 'v table_call list \<Rightarrow> 'v hashtable \<times> mem \<Rightarrow> int list \<times> 'v hashtable" where
  "table_run seed [] (h, m) = ([], h)"
| "table_run seed (c # cs) (h, m) =
     (case exec_call seed c (h, m) of
        (r, h', m') \<Rightarrow> (case table_run seed cs (h', m') of (rs, h'') \<Rightarrow> (r # rs, h'')))"

fun spec_call :: "'v table_call \<times> int \<Rightarrow> (byte list \<times> 'v) list \<Rightarrow> (byte list \<times> 'v) list" where
  "spec_call (Call_Set k v, r) al = (if r = 0 then AList.update k v al else al)"
| "spec_call (Call_Del k, r) al = AList.delete k al"
| "spec_call (Call_Clear, r) al = []"

lemma delete_absent: "map_of al k = None \<Longrightarrow> AList.delete k al = al"
  by (induction al) auto

lemma exec_call_rel:
  assumes "ht_rel seed h al" "length al < 2 ^ 31" "exec_call seed c (h, m) = (r, h', m')"
  shows "ht_rel seed h' (spec_call (c, r) al)"
proof (cases c)
  case (Call_Set k v)
  then obtain w where "hashtable_set (\<lambda>_ w. w) seed k v h m () = (r, h', m', w)"
    using assms(3) by (auto split: prod.splits)
  from hashtable_set_rel [OF assms(1,2) this] Call_Set show ?thesis by auto
next
  case (Call_Del k)
  then obtain w where "hashtable_del (\<lambda>_ w. w) seed k h () = (r, h', w)"
    using assms(3) by (auto split: prod.splits)
  from hashtable_del_rel [OF assms(1) this] Call_Del assms(1) show ?thesis by (auto simp: delete_absent)
next
  case Call_Clear
  then show ?thesis using assms hashtable_clear_rel(1) [OF assms(1), of "\<lambda>_ w. w" "()"]
    by (auto simp: prod_eq_iff)
qed

lemma spec_call_length: "length (spec_call cr al) \<le> Suc (length al)"
proof (cases cr)
  case (Pair c r)
  have "length (AList.update k v al) \<le> Suc (length al)" for k v by (induction al) auto
  moreover have "length (AList.delete k al) \<le> length al" for k by (simp add: length_delete_le)
  ultimately show ?thesis using Pair by (cases c) (auto simp: le_Suc_eq intro: le_SucI)
qed

lemma table_run_rel:
  "ht_rel seed h al \<Longrightarrow> length al + length cs \<le> 2 ^ 31 \<Longrightarrow> table_run seed cs (h, m) = (rs, h') \<Longrightarrow>
     ht_rel seed h' (fold spec_call (zip cs rs) al)"
proof (induction cs arbitrary: h m al rs)
  case (Cons c cs)
  obtain r h1 m1 where c: "exec_call seed c (h, m) = (r, h1, m1)" by (metis surj_pair)
  obtain rs1 where rs: "table_run seed cs (h1, m1) = (rs1, h')" "rs = r # rs1"
    using Cons.prems(3) c by (auto split: prod.splits)
  have "ht_rel seed h1 (spec_call (c, r) al)" using exec_call_rel [OF Cons.prems(1) _ c] Cons.prems(2) by simp
  from Cons.IH [OF this _ rs(1)] show ?case
    using rs(2) Cons.prems(2) spec_call_length [of "(c, r)" al] by simp
qed auto

lemma run_sets_ok:
  "ht_rel seed h al \<Longrightarrow> length al + length kvs \<le> 2 ^ 31 \<Longrightarrow> \<forall>(k, v) \<in> set kvs. length k < 2 ^ 62 \<Longrightarrow>
     fst (table_run seed (map (\<lambda>(k, v). Call_Set k v) kvs) (h, mem_ok)) = replicate (length kvs) 0"
proof (induction kvs arbitrary: h al)
  case (Cons kv kvs)
  obtain k v where kv: "kv = (k, v)" by force
  obtain h' w' where st: "hashtable_set (\<lambda>_ w. w) seed k v h mem_ok () = (0, h', mem_ok, w')"
    using hashtable_set_mem_ok [OF Cons.prems(1), of k "\<lambda>_ w. w" v "()"] Cons.prems kv by auto
  then have c: "exec_call seed (Call_Set k v) (h, mem_ok) = (0, h', mem_ok)" by simp
  from exec_call_rel [OF Cons.prems(1) _ this] Cons.prems(2) have "ht_rel seed h' (AList.update k v al)" by simp
  from Cons.IH [OF this] Cons.prems spec_call_length [of "(Call_Set k v, 0)" al] kv c show ?case
    by (auto split: prod.splits)
qed simp

text \<open>
  C4: a hash table is a finite map that remembers insertion order.  After any sequence of
  at most 2^31 calls of \<^verbatim>\<open>hashtable_set\<close>, \<^verbatim>\<open>hashtable_del\<close> and \<^verbatim>\<open>hashtable_clear\<close> on a fresh
  table, whichever allocations failed on the way, \<^verbatim>\<open>hashtable_get\<close> is the lookup in the
  association list the successful calls build, iteration passes exactly that list in its
  order, and \<^verbatim>\<open>size\<close> is its length; rehashing is invisible.
\<close>

theorem hashtable_refines_ordered_map:
  assumes "hashtable_init m = (Some h\<^sub>0, m\<^sub>0)" "length cs \<le> 2 ^ 31" "table_run seed cs (h\<^sub>0, m\<^sub>0) = (rs, h)"
  shows "\<exists>al. al = fold spec_call (zip cs rs) [] \<and> distinct (map fst al) \<and>
    hashtable_get seed key h = map_of al key \<and>
    iter_walk (ht_size h) h (hashtable_iter h) = al \<and> ht_size h = length al"
proof -
  have "ht_rel seed h (fold spec_call (zip cs rs) [])"
    using table_run_rel [OF hashtable_init_rel [OF assms(1)] _ assms(3)] assms(2) by simp
  from ht_rel_distinct [OF this] hashtable_get_map_of [OF this] iter_walk_rel [OF this] ht_rel_size [OF this]
  show ?thesis by blast
qed

theorem hashtable_refines_ordered_map_witness:
  "\<exists>h. table_run 7 [Call_Set [97] True, Call_Set [98] False, Call_Set [97] False]
       (the (fst (hashtable_init mem_ok)), mem_ok) = ([0, 0, 0], h) \<and>
     hashtable_get 7 [97] h = Some False \<and>
     iter_walk (ht_size h) h (hashtable_iter h) = [([97], False), ([98], False)]"
proof -
  let ?cs = "[Call_Set [97] True, Call_Set [98] False, Call_Set [97] False]"
  obtain h0 :: "bool hashtable" where h0: "hashtable_init mem_ok = (Some h0, mem_ok)" "ht_rel 7 h0 []"
    using hashtable_init_ok by metis
  obtain rs and h :: "bool hashtable" where run: "table_run 7 ?cs (h0, mem_ok) = (rs, h)" by (metis surj_pair)
  have "table_run 7 ?cs (h0, mem_ok) = ([0, 0, 0], h)"
    using run run_sets_ok [OF h0(2), of "[([97], True), ([98], False), ([97], False)]"] by (simp add: prod_eq_iff)
  with hashtable_refines_ordered_map [OF h0(1) _ this] h0(1) show ?thesis by fastforce
qed

end
