(* ===== verification/Seeding.thy ===== *)
theory Seeding
  imports Lookup3
begin

text \<open>
  \<^verbatim>\<open>jansson/src/hashtable_seed.c\<close> as configured for Linux: the seed of the hash function
  comes from \<^verbatim>\<open>/dev/urandom\<close>, with the time and the process id as a fall-back, and is
  set once, by whichever thread wins the race in \<^verbatim>\<open>json_object_seed\<close>.
\<close>

section \<open>Generating a seed\<close>

text \<open>
  What the operating system answers: whether \<^verbatim>\<open>/dev/urandom\<close> opens, the bytes that
  \<^verbatim>\<open>read\<close> delivers, the time of day and the process id.
\<close>

record seed_env =
  env_urandom_opens :: bool
  env_urandom_read :: "byte list"
  env_tv_sec :: u32
  env_tv_usec :: u32
  env_pid :: u32

definition buf_to_uint32 :: "byte list \<Rightarrow> u32" where
  "buf_to_uint32 buf = foldl (\<lambda>result b. push_bit 8 result OR ucast b) 0 (take 4 buf)"

definition seed_from_urandom :: "seed_env \<Rightarrow> int \<times> u32" where
  "seed_from_urandom env =
     (if \<not> env_urandom_opens env then (1, 0)
      else
        let ok = length (env_urandom_read env) = 4 in
        if \<not> ok then (1, 0) else (0, buf_to_uint32 (env_urandom_read env)))"

definition seed_from_timestamp_and_pid :: "seed_env \<Rightarrow> u32" where
  "seed_from_timestamp_and_pid env =
     (let seed = env_tv_sec env XOR env_tv_usec env in seed XOR env_pid env)"

definition generate_seed :: "seed_env \<Rightarrow> u32" where
  "generate_seed env =
     (let (r, s) = seed_from_urandom env;
          seed = (if r = 0 then s else seed_from_timestamp_and_pid env)
      in if seed = 0 then 1 else seed)"

lemma generate_seed_nonzero [simp]: "generate_seed env \<noteq> 0"
  by (simp add: generate_seed_def Let_def split: prod.splits)

text \<open>A call that meets no other thread.\<close>

definition json_object_seed :: "seed_env \<Rightarrow> nat \<Rightarrow> u32 \<Rightarrow> u32" where
  "json_object_seed env seed hashtable_seed =
     (let new_seed = of_nat seed in
      if hashtable_seed = 0 then (if new_seed = 0 then generate_seed env else new_seed)
      else hashtable_seed)"

lemma json_object_seed_nonzero [simp]: "json_object_seed env seed s \<noteq> 0"
  by (simp add: json_object_seed_def Let_def)

lemma json_object_seed_idem [simp]: "s \<noteq> 0 \<Longrightarrow> json_object_seed env seed s = s"
  by (simp add: json_object_seed_def)

section \<open>Threads that race to set it\<close>

text \<open>
  The atomic accesses of \<^verbatim>\<open>json_object_seed\<close> as steps.  A thread is before the test of
  \<^verbatim>\<open>hashtable_seed\<close>, before the \<^verbatim>\<open>test_and_set\<close>, before the store of the seed it chose, in
  the waiting loop, or has returned.
\<close>

datatype seed_pc =
    At_Test u32
  | At_Tas u32
  | At_Store u32
  | At_Wait
  | Returned

record seed_state =
  sd_seed :: u32
  sd_initialized :: bool
  sd_pc :: "nat \<Rightarrow> seed_pc"

text \<open>The whole step of a thread; \<^const>\<open>Returned\<close> threads do not move.\<close>

definition seed_thread_step :: "seed_env \<Rightarrow> nat \<Rightarrow> seed_state \<Rightarrow> seed_state" where
  "seed_thread_step env t s =
     (case sd_pc s t of
        At_Test n \<Rightarrow>
          if sd_seed s = 0 then s\<lparr>sd_pc := (sd_pc s)(t := At_Tas n)\<rparr>
          else s\<lparr>sd_pc := (sd_pc s)(t := Returned)\<rparr>
      | At_Tas n \<Rightarrow>
          if sd_initialized s then s\<lparr>sd_pc := (sd_pc s)(t := At_Wait)\<rparr>
          else s\<lparr>sd_initialized := True,
                 sd_pc := (sd_pc s)(t := At_Store (if n = 0 then generate_seed env else n))\<rparr>
      | At_Store n \<Rightarrow> s\<lparr>sd_seed := n, sd_pc := (sd_pc s)(t := Returned)\<rparr>
      | At_Wait \<Rightarrow> if sd_seed s = 0 then s else s\<lparr>sd_pc := (sd_pc s)(t := Returned)\<rparr>
      | Returned \<Rightarrow> s)"

inductive seed_steps :: "seed_state \<Rightarrow> seed_state \<Rightarrow> bool" where
  seed_refl: "seed_steps s s"
| seed_move: "seed_steps s s' \<Longrightarrow> seed_steps s (seed_thread_step env t s')"

text \<open>All threads enter the function with their arguments; nobody has seeded yet.\<close>

definition seed_start :: "(nat \<Rightarrow> u32) \<Rightarrow> seed_state" where
  "seed_start arg = \<lparr>sd_seed = 0, sd_initialized = False, sd_pc = (\<lambda>t. At_Test (arg t))\<rparr>"

definition storing :: "seed_state \<Rightarrow> nat \<Rightarrow> bool" where
  "storing s t \<longleftrightarrow> (\<exists>n. sd_pc s t = At_Store n)"

definition seed_inv :: "seed_state \<Rightarrow> bool" where
  "seed_inv s \<longleftrightarrow>
     (\<forall>t u. storing s t \<longrightarrow> storing s u \<longrightarrow> t = u) \<and>
     (\<forall>t n. sd_pc s t = At_Store n \<longrightarrow> n \<noteq> 0 \<and> sd_seed s = 0 \<and> sd_initialized s) \<and>
     (\<forall>t. sd_pc s t = Returned \<longrightarrow> sd_seed s \<noteq> 0) \<and>
     (sd_initialized s \<longrightarrow> sd_seed s \<noteq> 0 \<or> (\<exists>t. storing s t)) \<and>
     (\<forall>t. sd_pc s t = At_Wait \<longrightarrow> sd_initialized s) \<and>
     (sd_seed s \<noteq> 0 \<longrightarrow> sd_initialized s)"

lemma seed_inv_start: "seed_inv (seed_start arg)"
  by (simp add: seed_inv_def seed_start_def storing_def)

lemma seed_inv_step:
  assumes "seed_inv s"
  shows "seed_inv (seed_thread_step env t s)"
proof (cases "sd_pc s t")
  case (At_Store n)
  then show ?thesis
    using assms unfolding seed_inv_def seed_thread_step_def storing_def by auto
next
  case (At_Test n)
  then show ?thesis
    using assms unfolding seed_inv_def seed_thread_step_def storing_def
    by (auto split: if_splits; metis seed_pc.simps)
next
  case (At_Tas n)
  then show ?thesis
    using assms unfolding seed_inv_def seed_thread_step_def storing_def
    by (auto split: if_splits; metis seed_pc.simps)
qed (use assms in \<open>auto simp: seed_inv_def seed_thread_step_def storing_def split: if_splits\<close>)

lemma seed_inv_steps: "seed_steps s s' \<Longrightarrow> seed_inv s \<Longrightarrow> seed_inv s'"
  by (induction rule: seed_steps.induct) (simp_all add: seed_inv_step)

lemma seed_steps_inv: "seed_steps (seed_start arg) s \<Longrightarrow> seed_inv s"
  using seed_inv_steps seed_inv_start by blast

lemma seed_step_stable:
  "seed_inv s \<Longrightarrow> sd_seed s \<noteq> 0 \<Longrightarrow> sd_seed (seed_thread_step env t s) = sd_seed s"
  by (cases "sd_pc s t") (auto simp: seed_inv_def seed_thread_step_def)

lemma seed_steps_stable: "seed_steps s s' \<Longrightarrow> seed_inv s \<Longrightarrow> sd_seed s \<noteq> 0 \<Longrightarrow> sd_seed s' = sd_seed s"
  by (induction rule: seed_steps.induct) (auto simp: seed_step_stable seed_inv_steps)

text \<open>Progress: as long as a thread has not returned, some thread has a step that is not a spin.\<close>

lemma seed_progress:
  assumes "seed_inv s" "sd_pc s t \<noteq> Returned"
  shows "\<exists>u. seed_thread_step env u s \<noteq> s"
proof (cases "sd_pc s t = At_Wait \<and> sd_seed s = 0")
  case True
  then obtain u n where "sd_pc s u = At_Store n"
    using assms(1) by (auto simp: seed_inv_def storing_def)
  then have "seed_thread_step env u s \<noteq> s"
    using assms(1) True by (auto simp: seed_inv_def seed_thread_step_def dest!: arg_cong [of _ _ sd_seed])
  then show ?thesis ..
next
  case False
  then have "sd_pc (seed_thread_step env t s) t \<noteq> sd_pc s t"
    using assms(2) by (auto simp: seed_thread_step_def split: seed_pc.splits)
  then show ?thesis by metis
qed

section \<open>Properties of seeding\<close>



end
