(* ===== verification/Strconv.thy ===== *)
theory Strconv
  imports C_Numbers Strbuffer
begin

text \<open>
  \<^verbatim>\<open>jansson/src/strconv.c\<close>: conversion between doubles and their JSON text that does not
  depend on the decimal point of the current locale.  The locale is the byte
  \<^term>\<open>point\<close> that \<^verbatim>\<open>localeconv()->decimal_point\<close> starts with.  Assertions are compiled
  out (\<^verbatim>\<open>NDEBUG\<close>); that they hold is stated as a lemma where it matters.
\<close>

text \<open>\<^verbatim>\<open>strchr\<close> for a byte other than NUL, as an offset.\<close>

definition strchr :: "byte list \<Rightarrow> byte \<Rightarrow> nat option" where
  "strchr s c =
     (let n = length (takeWhile (\<lambda>b. b \<noteq> c \<and> b \<noteq> 0) s)
      in if n < length s \<and> s ! n = c then Some n else None)"

definition to_locale :: "byte \<Rightarrow> strbuffer \<Rightarrow> strbuffer" where
  "to_locale point sb =
     (if point = 46 then sb
      else case strchr (the (sb_value sb)) 46 of
             None \<Rightarrow> sb
           | Some pos \<Rightarrow> sb\<lparr>sb_value := map_option (\<lambda>v. v[pos := point]) (sb_value sb)\<rparr>)"

definition from_locale :: "byte \<Rightarrow> byte list \<Rightarrow> byte list" where
  "from_locale point buffer =
     (if point = 46 then buffer
      else case strchr buffer point of
             None \<Rightarrow> buffer
           | Some pos \<Rightarrow> buffer[pos := 46])"

text \<open>The result code, the value on success, and the buffer, which keeps the locale's point.\<close>

definition jsonp_strtod :: "byte \<Rightarrow> strbuffer \<Rightarrow> int \<times> double \<times> strbuffer" where
  "jsonp_strtod point sb =
     (let sb1 = to_locale point sb;
          (v, overflow, _) = strtod point (c_string (the (sb_value sb1)))
      in if overflow then (-1, 0, sb1) else (0, v, sb1))"

text \<open>
  The length and the bytes that \<^verbatim>\<open>jsonp_dtostr\<close> leaves in a buffer of \<^term>\<open>size\<close> bytes, or
  \<^verbatim>\<open>-1\<close>.  The last step drops a \<^verbatim>\<open>+\<close> and leading zeros of the exponent.
\<close>

definition trim_exponent :: "byte list \<Rightarrow> byte list" where
  "trim_exponent buf =
     (case strchr buf 101 of
        None \<Rightarrow> buf
      | Some e \<Rightarrow>
          let start = e + 1;
              fin = start + 1;
              start' = (if buf ! start = 45 then start + 1 else start);
              fin' = fin + length (takeWhile (\<lambda>b. b = 48) (drop fin buf))
          in if fin' \<noteq> start' then take start' buf @ drop fin' buf else buf)"

definition jsonp_dtostr :: "byte \<Rightarrow> nat \<Rightarrow> double \<Rightarrow> nat \<Rightarrow> int \<times> byte list" where
  "jsonp_dtostr point sz v precision =
     (let precision = (if precision = 0 then 17 else precision);
          buf = fmt_g point precision v
      in if length buf \<ge> sz then (-1, [])
         else
           let buf = from_locale point buf;
               dotless = strchr buf 46 = None \<and> strchr buf 101 = None
           in if dotless \<and> length buf + 3 \<ge> sz then (-1, [])
              else
                let buf = trim_exponent (if dotless then buf @ cstr ''.0'' else buf)
                in (int (length buf), buf))"

end
