(* ===== verification/Json_Error.thy ===== *)
theory Json_Error
  imports Ripext_Prelude
begin

text \<open>
  \<^verbatim>\<open>jansson/src/error.c\<close> and the error part of \<^verbatim>\<open>jansson.h\<close>.  The character arrays are
  the C strings they hold; \<^verbatim>\<open>err_code\<close> is the last byte of \<^verbatim>\<open>text\<close>.  A \<^verbatim>\<open>json_error_t *\<close>
  is an option, \<^const>\<open>None\<close> for NULL.
\<close>

datatype json_error_code =
    json_error_unknown
  | json_error_out_of_memory
  | json_error_stack_overflow
  | json_error_cannot_open_file
  | json_error_invalid_argument
  | json_error_invalid_utf8
  | json_error_premature_end_of_input
  | json_error_end_of_input_expected
  | json_error_invalid_syntax
  | json_error_invalid_format
  | json_error_wrong_type
  | json_error_null_character
  | json_error_null_value
  | json_error_null_byte_in_key
  | json_error_duplicate_key
  | json_error_numeric_overflow
  | json_error_item_not_found
  | json_error_index_out_of_range

record json_error_t =
  err_line :: int
  err_column :: int
  err_position :: int
  err_source :: "byte list"
  err_text :: "byte list"
  err_code :: json_error_code

definition JSON_ERROR_TEXT_LENGTH :: nat where "JSON_ERROR_TEXT_LENGTH = 160"
definition JSON_ERROR_SOURCE_LENGTH :: nat where "JSON_ERROR_SOURCE_LENGTH = 80"

text \<open>\<^verbatim>\<open>(int)\<close> of a \<^verbatim>\<open>size_t\<close>.\<close>

definition int_of_size :: "nat \<Rightarrow> int" where
  "int_of_size n = sint (of_nat n :: 32 word)"

definition jsonp_error_set_source :: "json_error_t option \<Rightarrow> byte list option \<Rightarrow> json_error_t option" where
  "jsonp_error_set_source error source =
     (case (error, source) of
        (Some e, Some src) \<Rightarrow>
          let len = length src in
          if len < JSON_ERROR_SOURCE_LENGTH then Some (e\<lparr>err_source := src\<rparr>)
          else
            let extra = len - JSON_ERROR_SOURCE_LENGTH + 4
            in Some (e\<lparr>err_source := cstr ''...'' @ drop extra src\<rparr>)
      | _ \<Rightarrow> error)"

definition jsonp_error_init :: "json_error_t option \<Rightarrow> byte list option \<Rightarrow> json_error_t option" where
  "jsonp_error_init error source =
     (case error of
        None \<Rightarrow> None
      | Some e \<Rightarrow>
          let e = e\<lparr>err_text := [], err_line := -1, err_column := -1, err_position := 0\<rparr>
          in case source of
               Some _ \<Rightarrow> jsonp_error_set_source (Some e) source
             | None \<Rightarrow> Some (e\<lparr>err_source := []\<rparr>))"

text \<open>\<^verbatim>\<open>jsonp_error_vset\<close> after formatting: \<^term>\<open>msg\<close> is the text \<^verbatim>\<open>vsnprintf\<close> produces.\<close>

definition jsonp_error_vset ::
  "json_error_t option \<Rightarrow> int \<Rightarrow> int \<Rightarrow> nat \<Rightarrow> json_error_code \<Rightarrow> byte list \<Rightarrow> json_error_t option" where
  "jsonp_error_vset error line column position code msg =
     (case error of
        None \<Rightarrow> None
      | Some e \<Rightarrow>
          if err_text e \<noteq> [] then Some e
          else
            Some (e\<lparr>err_line := line, err_column := column, err_position := int_of_size position,
                    err_text := take (JSON_ERROR_TEXT_LENGTH - 2) msg, err_code := code\<rparr>))"

definition jsonp_error_set ::
  "json_error_t option \<Rightarrow> int \<Rightarrow> int \<Rightarrow> nat \<Rightarrow> json_error_code \<Rightarrow> byte list \<Rightarrow> json_error_t option" where
  "jsonp_error_set error line column position code msg =
     jsonp_error_vset error line column position code msg"

lemma jsonp_error_set_None [simp]: "jsonp_error_set None l c p code msg = None"
  by (simp add: jsonp_error_set_def jsonp_error_vset_def)

text \<open>Well-formed reports fit the arrays of \<^verbatim>\<open>json_error_t\<close> with their terminating NUL.\<close>

definition err_fits :: "json_error_t option \<Rightarrow> bool" where
  "err_fits error \<longleftrightarrow> (case error of None \<Rightarrow> True
     | Some e \<Rightarrow> length (err_source e) < JSON_ERROR_SOURCE_LENGTH \<and>
         length (err_text e) < JSON_ERROR_TEXT_LENGTH - 1)"

lemma jsonp_error_set_source_fits:
  "err_fits error \<Longrightarrow> err_fits (jsonp_error_set_source error source)"
  by (auto simp: err_fits_def jsonp_error_set_source_def Let_def JSON_ERROR_SOURCE_LENGTH_def
      split: option.splits if_splits)

lemma jsonp_error_vset_fits:
  "err_fits error \<Longrightarrow> err_fits (jsonp_error_vset error l c p code msg)"
  by (auto simp: err_fits_def jsonp_error_vset_def JSON_ERROR_TEXT_LENGTH_def split: option.splits)

text \<open>The first error is kept: a later report does not replace it.\<close>

lemma jsonp_error_first_wins:
  assumes "msg \<noteq> []"
  shows "jsonp_error_set (jsonp_error_set error l c p code msg) l' c' p' code' msg' =
    jsonp_error_set error l c p code msg"
  using assms
  by (auto simp: jsonp_error_set_def jsonp_error_vset_def JSON_ERROR_TEXT_LENGTH_def split: option.splits)

end
