(* ===== verification/Json_Value.thy ===== *)
theory Json_Value
  imports Hashtable Utf8 C_Numbers Seeding
begin

text \<open>
  \<^verbatim>\<open>jansson/src/value.c\<close>, with the inline functions of \<^verbatim>\<open>jansson.h\<close>: JSON values as cells
  of a heap that C code shares through pointers and frees by reference counting.

  A pointer is an address, a natural number; a \<^verbatim>\<open>json_t *\<close> that may be NULL is an option.
  Freed cells leave the heap and addresses are not used again, so that a dangling pointer
  is an address outside the heap.  \<^verbatim>\<open>w_fault\<close> records that a reference count of such a
  cell was touched.  Reference counts are \<^verbatim>\<open>size_t\<close> and wrap around.  The three constants
  \<^verbatim>\<open>true\<close>, \<^verbatim>\<open>false\<close> and \<^verbatim>\<open>null\<close> have fixed addresses.
\<close>

section \<open>Data\<close>

type_synonym ptr = nat

record json_array_t =
  a_size :: nat
  a_entries :: nat
  a_table :: "ptr list"

datatype json_data =
    JObject "ptr hashtable"
  | JArray json_array_t
  | JString "byte list"
  | JInteger int
  | JReal double
  | JTrue
  | JFalse
  | JNull

datatype json_type =
  JSON_OBJECT | JSON_ARRAY | JSON_STRING | JSON_INTEGER | JSON_REAL | JSON_TRUE | JSON_FALSE | JSON_NULL

record json_t =
  j_refcount :: nat
  j_data :: json_data

record world =
  w_heap :: "ptr \<rightharpoonup> json_t"
  w_brk :: ptr
  w_mem :: mem
  w_seed :: u32
  w_env :: seed_env
  w_fault :: bool

fun json_data_type :: "json_data \<Rightarrow> json_type" where
  "json_data_type (JObject _) = JSON_OBJECT"
| "json_data_type (JArray _) = JSON_ARRAY"
| "json_data_type (JString _) = JSON_STRING"
| "json_data_type (JInteger _) = JSON_INTEGER"
| "json_data_type (JReal _) = JSON_REAL"
| "json_data_type JTrue = JSON_TRUE"
| "json_data_type JFalse = JSON_FALSE"
| "json_data_type JNull = JSON_NULL"

definition data_at :: "world \<Rightarrow> ptr option \<Rightarrow> json_data option" where
  "data_at w json = (case json of None \<Rightarrow> None | Some p \<Rightarrow> map_option j_data (w_heap w p))"

definition json_typeof :: "world \<Rightarrow> ptr option \<Rightarrow> json_type option" where
  "json_typeof w json = map_option json_data_type (data_at w json)"

definition json_is_object :: "world \<Rightarrow> ptr option \<Rightarrow> bool" where
  "json_is_object w json \<longleftrightarrow> json_typeof w json = Some JSON_OBJECT"
definition json_is_array :: "world \<Rightarrow> ptr option \<Rightarrow> bool" where
  "json_is_array w json \<longleftrightarrow> json_typeof w json = Some JSON_ARRAY"
definition json_is_string :: "world \<Rightarrow> ptr option \<Rightarrow> bool" where
  "json_is_string w json \<longleftrightarrow> json_typeof w json = Some JSON_STRING"
definition json_is_integer :: "world \<Rightarrow> ptr option \<Rightarrow> bool" where
  "json_is_integer w json \<longleftrightarrow> json_typeof w json = Some JSON_INTEGER"
definition json_is_real :: "world \<Rightarrow> ptr option \<Rightarrow> bool" where
  "json_is_real w json \<longleftrightarrow> json_typeof w json = Some JSON_REAL"
definition json_is_number :: "world \<Rightarrow> ptr option \<Rightarrow> bool" where
  "json_is_number w json \<longleftrightarrow> json_is_integer w json \<or> json_is_real w json"
definition json_is_true :: "world \<Rightarrow> ptr option \<Rightarrow> bool" where
  "json_is_true w json \<longleftrightarrow> json_typeof w json = Some JSON_TRUE"
definition json_is_false :: "world \<Rightarrow> ptr option \<Rightarrow> bool" where
  "json_is_false w json \<longleftrightarrow> json_typeof w json = Some JSON_FALSE"
definition json_is_boolean :: "world \<Rightarrow> ptr option \<Rightarrow> bool" where
  "json_is_boolean w json \<longleftrightarrow> json_is_true w json \<or> json_is_false w json"
definition json_is_null :: "world \<Rightarrow> ptr option \<Rightarrow> bool" where
  "json_is_null w json \<longleftrightarrow> json_typeof w json = Some JSON_NULL"

section \<open>Cells\<close>

text \<open>\<^verbatim>\<open>sizeof\<close> of the structures; the allocator only distinguishes 0 from the rest.\<close>

definition SIZEOF_JSON_OBJECT :: nat where "SIZEOF_JSON_OBJECT = 72"
definition SIZEOF_JSON_ARRAY :: nat where "SIZEOF_JSON_ARRAY = 40"
definition SIZEOF_JSON_STRING :: nat where "SIZEOF_JSON_STRING = 32"
definition SIZEOF_JSON_INTEGER :: nat where "SIZEOF_JSON_INTEGER = 24"
definition SIZEOF_JSON_REAL :: nat where "SIZEOF_JSON_REAL = 24"
definition SIZEOF_POINTER :: nat where "SIZEOF_POINTER = 8"

lemmas sizeof_defs = SIZEOF_JSON_OBJECT_def SIZEOF_JSON_ARRAY_def SIZEOF_JSON_STRING_def
  SIZEOF_JSON_INTEGER_def SIZEOF_JSON_REAL_def SIZEOF_POINTER_def

definition w_malloc :: "nat \<Rightarrow> world \<Rightarrow> bool \<times> world" where
  "w_malloc n w = (let (ok, m) = jsonp_malloc n (w_mem w) in (ok, w\<lparr>w_mem := m\<rparr>))"

definition set_cell :: "ptr \<Rightarrow> json_t \<Rightarrow> world \<Rightarrow> world" where
  "set_cell p c w = w\<lparr>w_heap := (w_heap w)(p \<mapsto> c)\<rparr>"

definition set_data :: "ptr \<Rightarrow> json_data \<Rightarrow> world \<Rightarrow> world" where
  "set_data p d w =
     (case w_heap w p of None \<Rightarrow> w | Some c \<Rightarrow> set_cell p (c\<lparr>j_data := d\<rparr>) w)"

definition jsonp_free :: "ptr \<Rightarrow> world \<Rightarrow> world" where
  "jsonp_free p w = w\<lparr>w_heap := (w_heap w)(p := None)\<rparr>"

text \<open>A fresh cell after \<^verbatim>\<open>json_init\<close>: reference count 1.\<close>

definition json_init :: "json_data \<Rightarrow> world \<Rightarrow> ptr \<times> world" where
  "json_init d w = (w_brk w, set_cell (w_brk w) \<lparr>j_refcount = 1, j_data = d\<rparr> (w\<lparr>w_brk := w_brk w + 1\<rparr>))"

definition true_ptr :: ptr where "true_ptr = 1"
definition false_ptr :: ptr where "false_ptr = 2"
definition null_ptr :: ptr where "null_ptr = 3"

text \<open>The heap when the program starts holds the three constants.\<close>

definition initial_world :: "mem \<Rightarrow> seed_env \<Rightarrow> world" where
  "initial_world m env =
     \<lparr>w_heap = [true_ptr \<mapsto> \<lparr>j_refcount = SIZE_MAX, j_data = JTrue\<rparr>,
                false_ptr \<mapsto> \<lparr>j_refcount = SIZE_MAX, j_data = JFalse\<rparr>,
                null_ptr \<mapsto> \<lparr>j_refcount = SIZE_MAX, j_data = JNull\<rparr>],
      w_brk = 4, w_mem = m, w_seed = 0, w_env = env, w_fault = False\<rparr>"

section \<open>Reference counting and deletion\<close>

definition json_incref :: "ptr option \<Rightarrow> world \<Rightarrow> world" where
  "json_incref json w =
     (case json of
        None \<Rightarrow> w
      | Some p \<Rightarrow>
          case w_heap w p of
            None \<Rightarrow> w\<lparr>w_fault := True\<rparr>
          | Some c \<Rightarrow>
              if j_refcount c \<noteq> SIZE_MAX
              then set_cell p (c\<lparr>j_refcount := (j_refcount c + 1) mod 2 ^ 64\<rparr>) w else w)"

definition json_delete_object :: "(ptr \<Rightarrow> world \<Rightarrow> world) \<Rightarrow> ptr \<Rightarrow> ptr hashtable \<Rightarrow> world \<Rightarrow> world" where
  "json_delete_object decref p h w = jsonp_free p (hashtable_close decref h w)"

definition json_delete_array :: "(ptr \<Rightarrow> world \<Rightarrow> world) \<Rightarrow> ptr \<Rightarrow> json_array_t \<Rightarrow> world \<Rightarrow> world" where
  "json_delete_array decref p a w = jsonp_free p (fold decref (take (a_entries a) (a_table a)) w)"

definition json_delete :: "(ptr \<Rightarrow> world \<Rightarrow> world) \<Rightarrow> ptr \<Rightarrow> world \<Rightarrow> world" where
  "json_delete decref p w =
     (case data_at w (Some p) of
        None \<Rightarrow> w
      | Some (JObject h) \<Rightarrow> json_delete_object decref p h w
      | Some (JArray a) \<Rightarrow> json_delete_array decref p a w
      | Some (JString _) \<Rightarrow> jsonp_free p w
      | Some (JInteger _) \<Rightarrow> jsonp_free p w
      | Some (JReal _) \<Rightarrow> jsonp_free p w
      | Some _ \<Rightarrow> w)"

text \<open>
  \<^verbatim>\<open>json_decref\<close> and \<^verbatim>\<open>json_delete\<close> call each other.  The first argument bounds the depth
  of that recursion; running out of it raises \<^verbatim>\<open>w_fault\<close>.
\<close>

fun json_decref_n :: "nat \<Rightarrow> ptr \<Rightarrow> world \<Rightarrow> world" where
  "json_decref_n 0 p w = w\<lparr>w_fault := True\<rparr>"
| "json_decref_n (Suc n) p w =
     (case w_heap w p of
        None \<Rightarrow> w\<lparr>w_fault := True\<rparr>
      | Some c \<Rightarrow>
          if j_refcount c = SIZE_MAX then w
          else
            let rc = (j_refcount c + SIZE_MAX) mod 2 ^ 64;
                w1 = set_cell p (c\<lparr>j_refcount := rc\<rparr>) w
            in if rc = 0 then json_delete (json_decref_n n) p w1 else w1)"

definition decref_ptr :: "ptr \<Rightarrow> world \<Rightarrow> world" where
  "decref_ptr p w = json_decref_n (w_brk w + 1) p w"

definition json_decref :: "ptr option \<Rightarrow> world \<Rightarrow> world" where
  "json_decref json w = (case json of None \<Rightarrow> w | Some p \<Rightarrow> decref_ptr p w)"

text \<open>\<^verbatim>\<open>json_decrefp\<close> takes the address of a variable; the result is its new content.\<close>

definition json_decrefp :: "ptr option \<Rightarrow> world \<Rightarrow> ptr option \<times> world" where
  "json_decrefp json w = (None, json_decref json w)"

section \<open>Loop check\<close>

definition LOOP_KEY_LEN :: nat where "LOOP_KEY_LEN = 2 + SIZEOF_POINTER * 2 + 1"

text \<open>\<^verbatim>\<open>snprintf(key, LOOP_KEY_LEN, "%p", json)\<close>.\<close>

definition loop_key :: "ptr \<Rightarrow> byte list" where
  "loop_key p = take (LOOP_KEY_LEN - 1) (cstr ''0x'' @ fmt_x p)"

definition jsonp_loop_check ::
  "ptr hashtable \<Rightarrow> ptr \<Rightarrow> world \<Rightarrow> int \<times> ptr hashtable \<times> world" where
  "jsonp_loop_check parents json w =
     (let key = loop_key json in
      case hashtable_get (w_seed w) key parents of
        Some _ \<Rightarrow> (-1, parents, w)
      | None \<Rightarrow>
          case hashtable_set decref_ptr (w_seed w) key null_ptr parents (w_mem w) w of
            (r, parents', m, w') \<Rightarrow> (r, parents', w'\<lparr>w_mem := m\<rparr>))"

definition parents_del :: "ptr hashtable \<Rightarrow> ptr \<Rightarrow> world \<Rightarrow> ptr hashtable \<times> world" where
  "parents_del parents json w =
     (case hashtable_del decref_ptr (w_seed w) (loop_key json) parents w of (_, h, w') \<Rightarrow> (h, w'))"

definition parents_init :: "world \<Rightarrow> ptr hashtable option \<times> world" where
  "parents_init w = (case hashtable_init (w_mem w) of (h, m) \<Rightarrow> (h, w\<lparr>w_mem := m\<rparr>))"

section \<open>Objects\<close>

definition json_object :: "world \<Rightarrow> ptr option \<times> world" where
  "json_object w =
     (case w_malloc SIZEOF_JSON_OBJECT w of
        (False, w1) \<Rightarrow> (None, w1)
      | (True, w1) \<Rightarrow>
          let w2 = w1\<lparr>w_seed := (if w_seed w1 = 0 then json_object_seed (w_env w1) 0 (w_seed w1)
                                   else w_seed w1)\<rparr>
          in case hashtable_init (w_mem w2) of
               (None, m) \<Rightarrow> (None, w2\<lparr>w_mem := m\<rparr>)
             | (Some h, m) \<Rightarrow>
                 let (p, w3) = json_init (JObject h) (w2\<lparr>w_mem := m\<rparr>) in (Some p, w3))"

definition object_table :: "world \<Rightarrow> ptr option \<Rightarrow> ptr hashtable option" where
  "object_table w json = (case data_at w json of Some (JObject h) \<Rightarrow> Some h | _ \<Rightarrow> None)"

definition json_object_size :: "world \<Rightarrow> ptr option \<Rightarrow> nat" where
  "json_object_size w json = (case object_table w json of None \<Rightarrow> 0 | Some h \<Rightarrow> ht_size h)"

definition json_object_get :: "world \<Rightarrow> ptr option \<Rightarrow> byte list option \<Rightarrow> ptr option" where
  "json_object_get w json key =
     (case (key, object_table w json) of
        (Some k, Some h) \<Rightarrow> hashtable_get (w_seed w) k h
      | _ \<Rightarrow> None)"

definition json_object_set_new_nocheck ::
  "ptr option \<Rightarrow> byte list option \<Rightarrow> ptr option \<Rightarrow> world \<Rightarrow> int \<times> world" where
  "json_object_set_new_nocheck json key v w =
     (case v of
        None \<Rightarrow> (-1, w)
      | Some vp \<Rightarrow>
          case (key, json, object_table w json) of
            (Some k, Some p, Some h) \<Rightarrow>
              if json = v then (-1, json_decref v w)
              else
                (case hashtable_set decref_ptr (w_seed w) k vp h (w_mem w) w of
                   (r, h', m, w1) \<Rightarrow>
                     let w2 = set_data p (JObject h') (w1\<lparr>w_mem := m\<rparr>)
                     in if r \<noteq> 0 then (-1, json_decref v w2) else (0, w2))
          | _ \<Rightarrow> (-1, json_decref v w))"

definition json_object_set_new ::
  "ptr option \<Rightarrow> byte list option \<Rightarrow> ptr option \<Rightarrow> world \<Rightarrow> int \<times> world" where
  "json_object_set_new json key v w =
     (case key of
        None \<Rightarrow> (-1, json_decref v w)
      | Some k \<Rightarrow>
          if \<not> utf8_check_string k then (-1, json_decref v w)
          else json_object_set_new_nocheck json key v w)"

definition json_object_set ::
  "ptr option \<Rightarrow> byte list option \<Rightarrow> ptr option \<Rightarrow> world \<Rightarrow> int \<times> world" where
  "json_object_set json key v w = json_object_set_new json key v (json_incref v w)"

definition json_object_set_nocheck ::
  "ptr option \<Rightarrow> byte list option \<Rightarrow> ptr option \<Rightarrow> world \<Rightarrow> int \<times> world" where
  "json_object_set_nocheck json key v w = json_object_set_new_nocheck json key v (json_incref v w)"

definition json_object_del :: "ptr option \<Rightarrow> byte list option \<Rightarrow> world \<Rightarrow> int \<times> world" where
  "json_object_del json key w =
     (case (key, json, object_table w json) of
        (Some k, Some p, Some h) \<Rightarrow>
          (case hashtable_del decref_ptr (w_seed w) k h w of
             (r, h', w1) \<Rightarrow> (r, set_data p (JObject h') w1))
      | _ \<Rightarrow> (-1, w))"

definition json_object_clear :: "ptr option \<Rightarrow> world \<Rightarrow> int \<times> world" where
  "json_object_clear json w =
     (case (json, object_table w json) of
        (Some p, Some h) \<Rightarrow>
          (case hashtable_clear decref_ptr h w of (h', w1) \<Rightarrow> (0, set_data p (JObject h') w1))
      | _ \<Rightarrow> (-1, w))"

subsection \<open>Iteration\<close>

text \<open>
  An iterator is the address of a node of the insertion-order list; the model keeps the
  object the node belongs to beside it.
\<close>

type_synonym iter = "ptr \<times> nat"

definition json_object_iter :: "world \<Rightarrow> ptr option \<Rightarrow> iter option" where
  "json_object_iter w json =
     (case (json, object_table w json) of
        (Some p, Some h) \<Rightarrow> map_option (Pair p) (hashtable_iter h)
      | _ \<Rightarrow> None)"

definition json_object_iter_at :: "world \<Rightarrow> ptr option \<Rightarrow> byte list option \<Rightarrow> iter option" where
  "json_object_iter_at w json key =
     (case (key, json, object_table w json) of
        (Some k, Some p, Some h) \<Rightarrow> map_option (Pair p) (hashtable_iter_at (w_seed w) k h)
      | _ \<Rightarrow> None)"

definition json_object_iter_next :: "world \<Rightarrow> ptr option \<Rightarrow> iter option \<Rightarrow> iter option" where
  "json_object_iter_next w json iter =
     (case (json, iter, object_table w json) of
        (Some p, Some (_, z), Some h) \<Rightarrow> map_option (Pair p) (hashtable_iter_next h z)
      | _ \<Rightarrow> None)"

definition json_object_iter_key :: "world \<Rightarrow> iter option \<Rightarrow> byte list option" where
  "json_object_iter_key w iter =
     (case iter of
        None \<Rightarrow> None
      | Some (p, z) \<Rightarrow>
          (case object_table w (Some p) of None \<Rightarrow> None | Some h \<Rightarrow> hashtable_iter_key h z))"

definition json_object_iter_value :: "world \<Rightarrow> iter option \<Rightarrow> ptr option" where
  "json_object_iter_value w iter =
     (case iter of
        None \<Rightarrow> None
      | Some (p, z) \<Rightarrow>
          (case object_table w (Some p) of None \<Rightarrow> None | Some h \<Rightarrow> hashtable_iter_value h z))"

definition json_object_iter_set_new :: "ptr option \<Rightarrow> iter option \<Rightarrow> ptr option \<Rightarrow> world \<Rightarrow> int \<times> world" where
  "json_object_iter_set_new json iter v w =
     (case (json, iter, v, object_table w json) of
        (Some p, Some (_, z), Some vp, Some h) \<Rightarrow>
          (case hashtable_iter_set decref_ptr z vp h w of (h', w1) \<Rightarrow> (0, set_data p (JObject h') w1))
      | _ \<Rightarrow> (-1, json_decref v w))"

text \<open>
  The loop \<^verbatim>\<open>json_object_foreach\<close>; the body returns \<^term>\<open>Some r\<close> to leave the loop with
  \<^term>\<open>r\<close>.  A key points into its pair, so \<^verbatim>\<open>json_object_key_to_iter\<close> gives the iterator
  back.  The bound is the number of nodes the table ever had.
\<close>

fun foreach_loop ::
  "nat \<Rightarrow> ptr option \<Rightarrow> (byte list \<Rightarrow> ptr \<Rightarrow> 's \<Rightarrow> world \<Rightarrow> 'r option \<times> 's \<times> world) \<Rightarrow> iter option \<Rightarrow>
   's \<Rightarrow> world \<Rightarrow> 'r option \<times> 's \<times> world" where
  "foreach_loop 0 json body iter s w = (None, s, w)"
| "foreach_loop (Suc n) json body iter s w =
     (case (json_object_iter_key w iter, json_object_iter_value w iter) of
        (Some key, Some v) \<Rightarrow>
          (case body key v s w of
             (Some r, s1, w1) \<Rightarrow> (Some r, s1, w1)
           | (None, s1, w1) \<Rightarrow> foreach_loop n json body (json_object_iter_next w1 json iter) s1 w1)
      | _ \<Rightarrow> (None, s, w))"

definition json_object_foreach ::
  "ptr option \<Rightarrow> (byte list \<Rightarrow> ptr \<Rightarrow> 's \<Rightarrow> world \<Rightarrow> 'r option \<times> 's \<times> world) \<Rightarrow> 's \<Rightarrow> world \<Rightarrow>
   'r option \<times> 's \<times> world" where
  "json_object_foreach json body s w =
     foreach_loop (case object_table w json of None \<Rightarrow> 0 | Some h \<Rightarrow> ht_fresh h)
       json body (json_object_iter w json) s w"

subsection \<open>Updates\<close>

definition json_object_update :: "ptr option \<Rightarrow> ptr option \<Rightarrow> world \<Rightarrow> int \<times> world" where
  "json_object_update object other w =
     (if \<not> json_is_object w object \<or> \<not> json_is_object w other then (-1, w)
      else
        case json_object_foreach other
               (\<lambda>key v _ w. case json_object_set_nocheck object (Some key) (Some v) w of
                  (r, w1) \<Rightarrow> (if r \<noteq> 0 then Some (-1) else None, (), w1)) () w of
          (Some r, _, w1) \<Rightarrow> (r, w1)
        | (None, _, w1) \<Rightarrow> (0, w1))"

definition json_object_update_existing :: "ptr option \<Rightarrow> ptr option \<Rightarrow> world \<Rightarrow> int \<times> world" where
  "json_object_update_existing object other w =
     (if \<not> json_is_object w object \<or> \<not> json_is_object w other then (-1, w)
      else
        case json_object_foreach other
               (\<lambda>key v _ w. if json_object_get w object (Some key) \<noteq> None
                  then (None :: unit option, (), snd (json_object_set_nocheck object (Some key) (Some v) w))
                  else (None, (), w)) () w of
          (_, _, w1) \<Rightarrow> (0, w1))"

definition json_object_update_missing :: "ptr option \<Rightarrow> ptr option \<Rightarrow> world \<Rightarrow> int \<times> world" where
  "json_object_update_missing object other w =
     (if \<not> json_is_object w object \<or> \<not> json_is_object w other then (-1, w)
      else
        case json_object_foreach other
               (\<lambda>key v _ w. if json_object_get w object (Some key) = None
                  then (None :: unit option, (), snd (json_object_set_nocheck object (Some key) (Some v) w))
                  else (None, (), w)) () w of
          (_, _, w1) \<Rightarrow> (0, w1))"

text \<open>The bound on the depth is the number of cells ever allocated; see the loop check.\<close>

fun do_object_update_recursive ::
  "nat \<Rightarrow> ptr option \<Rightarrow> ptr option \<Rightarrow> ptr hashtable \<Rightarrow> world \<Rightarrow> int \<times> ptr hashtable \<times> world" where
  "do_object_update_recursive 0 object other parents w = (-1, parents, w\<lparr>w_fault := True\<rparr>)"
| "do_object_update_recursive (Suc n) object other parents w =
     (if \<not> json_is_object w object \<or> \<not> json_is_object w other then (-1, parents, w)
      else
        case jsonp_loop_check parents (the other) w of
          (r, parents1, w1) \<Rightarrow>
            if r \<noteq> 0 then (-1, parents1, w1)
            else
              case json_object_foreach other
                     (\<lambda>key v ps w.
                        let ov = json_object_get w object (Some key) in
                        if json_is_object w ov \<and> json_is_object w (Some v) then
                          (case do_object_update_recursive n ov (Some v) ps w of
                             (r, ps1, w1) \<Rightarrow> (if r \<noteq> 0 then Some (-1) else None, ps1, w1))
                        else
                          (case json_object_set_nocheck object (Some key) (Some v) w of
                             (r, w1) \<Rightarrow> (if r \<noteq> 0 then Some (-1) else None, ps, w1)))
                     parents1 w1 of
                (res, parents2, w2) \<Rightarrow>
                  (case parents_del parents2 (the other) w2 of
                     (parents3, w3) \<Rightarrow> (case res of None \<Rightarrow> 0 | Some r \<Rightarrow> r, parents3, w3)))"

definition json_object_update_recursive :: "ptr option \<Rightarrow> ptr option \<Rightarrow> world \<Rightarrow> int \<times> world" where
  "json_object_update_recursive object other w =
     (case parents_init w of
        (None, w1) \<Rightarrow> (-1, w1)
      | (Some parents_set, w1) \<Rightarrow>
          (case do_object_update_recursive (w_brk w1 + 1) object other parents_set w1 of
             (res, parents_set', w2) \<Rightarrow> (res, hashtable_close decref_ptr parents_set' w2)))"

definition json_object_update_new :: "ptr option \<Rightarrow> ptr option \<Rightarrow> world \<Rightarrow> int \<times> world" where
  "json_object_update_new object other w =
     (case json_object_update object other w of (ret, w1) \<Rightarrow> (ret, json_decref other w1))"

definition json_object_update_existing_new :: "ptr option \<Rightarrow> ptr option \<Rightarrow> world \<Rightarrow> int \<times> world" where
  "json_object_update_existing_new object other w =
     (case json_object_update_existing object other w of (ret, w1) \<Rightarrow> (ret, json_decref other w1))"

definition json_object_update_missing_new :: "ptr option \<Rightarrow> ptr option \<Rightarrow> world \<Rightarrow> int \<times> world" where
  "json_object_update_missing_new object other w =
     (case json_object_update_missing object other w of (ret, w1) \<Rightarrow> (ret, json_decref other w1))"

section \<open>Arrays\<close>

definition array_at :: "world \<Rightarrow> ptr option \<Rightarrow> json_array_t option" where
  "array_at w json = (case data_at w json of Some (JArray a) \<Rightarrow> Some a | _ \<Rightarrow> None)"

text \<open>The content of fresh memory is represented by zeros, which are not read before written.\<close>

definition json_array :: "world \<Rightarrow> ptr option \<times> world" where
  "json_array w =
     (case w_malloc SIZEOF_JSON_ARRAY w of
        (False, w1) \<Rightarrow> (None, w1)
      | (True, w1) \<Rightarrow>
          let sz = 8 in
          case w_malloc (sz * SIZEOF_POINTER) w1 of
            (False, w2) \<Rightarrow> (None, w2)
          | (True, w2) \<Rightarrow>
              let (p, w3) = json_init (JArray \<lparr>a_size = sz, a_entries = 0, a_table = replicate sz 0\<rparr>) w2
              in (Some p, w3))"

definition json_array_size :: "world \<Rightarrow> ptr option \<Rightarrow> nat" where
  "json_array_size w json = (case array_at w json of None \<Rightarrow> 0 | Some a \<Rightarrow> a_entries a)"

definition json_array_get :: "world \<Rightarrow> ptr option \<Rightarrow> nat \<Rightarrow> ptr option" where
  "json_array_get w json index =
     (case array_at w json of
        None \<Rightarrow> None
      | Some a \<Rightarrow> if index \<ge> a_entries a then None else Some (a_table a ! index))"

definition json_array_set_new :: "ptr option \<Rightarrow> nat \<Rightarrow> ptr option \<Rightarrow> world \<Rightarrow> int \<times> world" where
  "json_array_set_new json index v w =
     (case v of
        None \<Rightarrow> (-1, w)
      | Some vp \<Rightarrow>
          case (json, array_at w json) of
            (Some p, Some a) \<Rightarrow>
              if json = v then (-1, json_decref v w)
              else if index \<ge> a_entries a then (-1, json_decref v w)
              else
                let w1 = decref_ptr (a_table a ! index) w
                in (0, set_data p (JArray (a\<lparr>a_table := (a_table a)[index := vp]\<rparr>)) w1)
          | _ \<Rightarrow> (-1, json_decref v w))"

definition array_copy :: "ptr list \<Rightarrow> nat \<Rightarrow> ptr list \<Rightarrow> nat \<Rightarrow> nat \<Rightarrow> ptr list" where
  "array_copy dest dpos src spos count =
     take dpos dest @ take count (drop spos src) @ drop (dpos + count) dest"

definition array_move :: "json_array_t \<Rightarrow> nat \<Rightarrow> nat \<Rightarrow> nat \<Rightarrow> json_array_t" where
  "array_move a dest src count = a\<lparr>a_table := array_copy (a_table a) dest (a_table a) src count\<rparr>"

text \<open>
  The table that \<^verbatim>\<open>json_array_grow\<close> returns, with the information whether it differs from
  \<^verbatim>\<open>array->table\<close> afterwards.
\<close>

definition json_array_grow ::
  "json_array_t \<Rightarrow> nat \<Rightarrow> bool \<Rightarrow> world \<Rightarrow> (ptr list \<times> bool) option \<times> json_array_t \<times> world" where
  "json_array_grow a amount copy w =
     (if a_entries a + amount \<le> a_size a then (Some (a_table a, False), a, w)
      else
        let old_table = a_table a;
            new_size = max (a_size a + amount) (a_size a * 2)
        in case w_malloc (new_size * SIZEOF_POINTER) w of
             (False, w1) \<Rightarrow> (None, a, w1)
           | (True, w1) \<Rightarrow>
               let a1 = a\<lparr>a_size := new_size, a_table := replicate new_size 0\<rparr> in
               if copy then
                 let a2 = a1\<lparr>a_table := array_copy (a_table a1) 0 old_table 0 (a_entries a)\<rparr>
                 in (Some (a_table a2, False), a2, w1)
               else (Some (old_table, True), a1, w1))"

definition json_array_append_new :: "ptr option \<Rightarrow> ptr option \<Rightarrow> world \<Rightarrow> int \<times> world" where
  "json_array_append_new json v w =
     (case v of
        None \<Rightarrow> (-1, w)
      | Some vp \<Rightarrow>
          case (json, array_at w json) of
            (Some p, Some a) \<Rightarrow>
              if json = v then (-1, json_decref v w)
              else
                (case json_array_grow a 1 True w of
                   (None, _, w1) \<Rightarrow> (-1, json_decref v w1)
                 | (Some _, a1, w1) \<Rightarrow>
                     (0, set_data p (JArray (a1\<lparr>a_table := (a_table a1)[a_entries a1 := vp],
                                               a_entries := a_entries a1 + 1\<rparr>)) w1))
          | _ \<Rightarrow> (-1, json_decref v w))"

definition json_array_insert_new :: "ptr option \<Rightarrow> nat \<Rightarrow> ptr option \<Rightarrow> world \<Rightarrow> int \<times> world" where
  "json_array_insert_new json index v w =
     (case v of
        None \<Rightarrow> (-1, w)
      | Some vp \<Rightarrow>
          case (json, array_at w json) of
            (Some p, Some a) \<Rightarrow>
              if json = v then (-1, json_decref v w)
              else if index > a_entries a then (-1, json_decref v w)
              else
                (case json_array_grow a 1 False w of
                   (None, _, w1) \<Rightarrow> (-1, json_decref v w1)
                 | (Some (old_table, moved), a1, w1) \<Rightarrow>
                     let a2 = (if moved then
                                 a1\<lparr>a_table :=
                                    array_copy (array_copy (a_table a1) 0 old_table 0 index)
                                      (index + 1) old_table index (a_entries a1 - index)\<rparr>
                               else array_move a1 (index + 1) index (a_entries a1 - index))
                     in (0, set_data p (JArray (a2\<lparr>a_table := (a_table a2)[index := vp],
                                                  a_entries := a_entries a2 + 1\<rparr>)) w1))
          | _ \<Rightarrow> (-1, json_decref v w))"

definition json_array_set :: "ptr option \<Rightarrow> nat \<Rightarrow> ptr option \<Rightarrow> world \<Rightarrow> int \<times> world" where
  "json_array_set json index v w = json_array_set_new json index v (json_incref v w)"

definition json_array_append :: "ptr option \<Rightarrow> ptr option \<Rightarrow> world \<Rightarrow> int \<times> world" where
  "json_array_append json v w = json_array_append_new json v (json_incref v w)"

definition json_array_insert :: "ptr option \<Rightarrow> nat \<Rightarrow> ptr option \<Rightarrow> world \<Rightarrow> int \<times> world" where
  "json_array_insert json index v w = json_array_insert_new json index v (json_incref v w)"

definition json_array_remove :: "ptr option \<Rightarrow> nat \<Rightarrow> world \<Rightarrow> int \<times> world" where
  "json_array_remove json index w =
     (case (json, array_at w json) of
        (Some p, Some a) \<Rightarrow>
          if index \<ge> a_entries a then (-1, w)
          else
            let w1 = decref_ptr (a_table a ! index) w;
                a1 = (if index < a_entries a - 1
                      then array_move a index (index + 1) (a_entries a - index - 1) else a)
            in (0, set_data p (JArray (a1\<lparr>a_entries := a_entries a1 - 1\<rparr>)) w1)
      | _ \<Rightarrow> (-1, w))"

definition json_array_clear :: "ptr option \<Rightarrow> world \<Rightarrow> int \<times> world" where
  "json_array_clear json w =
     (case (json, array_at w json) of
        (Some p, Some a) \<Rightarrow>
          let w1 = fold decref_ptr (take (a_entries a) (a_table a)) w
          in (0, set_data p (JArray (a\<lparr>a_entries := 0\<rparr>)) w1)
      | _ \<Rightarrow> (-1, w))"

text \<open>The other array may be the same one, so it is read again after the table has grown.\<close>

definition json_array_extend :: "ptr option \<Rightarrow> ptr option \<Rightarrow> world \<Rightarrow> int \<times> world" where
  "json_array_extend json other_json w =
     (case (json, array_at w json, array_at w other_json) of
        (Some p, Some a, Some other0) \<Rightarrow>
          (case json_array_grow a (a_entries other0) True w of
             (None, _, w1) \<Rightarrow> (-1, w1)
           | (Some _, a1, w1) \<Rightarrow>
               let w2 = set_data p (JArray a1) w1;
                   other = the (array_at w2 other_json);
                   w3 = fold (\<lambda>q. json_incref (Some q)) (take (a_entries other) (a_table other)) w2
               in (0, set_data p (JArray (a1\<lparr>a_table :=
                          array_copy (a_table a1) (a_entries a1) (a_table other) 0 (a_entries other),
                        a_entries := a_entries a1 + a_entries other\<rparr>)) w3))
      | _ \<Rightarrow> (-1, w))"

section \<open>Strings\<close>

text \<open>With \<^term>\<open>own\<close>, the caller's buffer becomes the value and is freed on failure.\<close>

definition string_create :: "byte list option \<Rightarrow> nat \<Rightarrow> bool \<Rightarrow> world \<Rightarrow> ptr option \<times> world" where
  "string_create value len own w =
     (case value of
        None \<Rightarrow> (None, w)
      | Some bytes \<Rightarrow>
          let (v, w1) = (if own then (Some (take len bytes), w)
                         else case jsonp_strndup bytes len (w_mem w) of (d, m) \<Rightarrow> (d, w\<lparr>w_mem := m\<rparr>))
          in case v of
               None \<Rightarrow> (None, w1)
             | Some s \<Rightarrow>
                 (case w_malloc SIZEOF_JSON_STRING w1 of
                    (False, w2) \<Rightarrow> (None, w2)
                  | (True, w2) \<Rightarrow> let (p, w3) = json_init (JString s) w2 in (Some p, w3)))"

definition json_stringn_nocheck :: "byte list option \<Rightarrow> nat \<Rightarrow> world \<Rightarrow> ptr option \<times> world" where
  "json_stringn_nocheck value len w = string_create value len False w"

definition json_string_nocheck :: "byte list option \<Rightarrow> world \<Rightarrow> ptr option \<times> world" where
  "json_string_nocheck value w =
     (case value of None \<Rightarrow> (None, w) | Some s \<Rightarrow> string_create value (length s) False w)"

definition jsonp_stringn_nocheck_own :: "byte list option \<Rightarrow> nat \<Rightarrow> world \<Rightarrow> ptr option \<times> world" where
  "jsonp_stringn_nocheck_own value len w = string_create value len True w"

definition json_stringn :: "byte list option \<Rightarrow> nat \<Rightarrow> world \<Rightarrow> ptr option \<times> world" where
  "json_stringn value len w =
     (case value of
        None \<Rightarrow> (None, w)
      | Some s \<Rightarrow> if \<not> utf8_check_string (take len s) then (None, w) else json_stringn_nocheck value len w)"

definition json_string :: "byte list option \<Rightarrow> world \<Rightarrow> ptr option \<times> world" where
  "json_string value w =
     (case value of None \<Rightarrow> (None, w) | Some s \<Rightarrow> json_stringn value (length s) w)"

definition json_string_value :: "world \<Rightarrow> ptr option \<Rightarrow> byte list option" where
  "json_string_value w json = (case data_at w json of Some (JString s) \<Rightarrow> Some s | _ \<Rightarrow> None)"

definition json_string_length :: "world \<Rightarrow> ptr option \<Rightarrow> nat" where
  "json_string_length w json = (case data_at w json of Some (JString s) \<Rightarrow> length s | _ \<Rightarrow> 0)"

definition json_string_setn_nocheck :: "ptr option \<Rightarrow> byte list option \<Rightarrow> nat \<Rightarrow> world \<Rightarrow> int \<times> world" where
  "json_string_setn_nocheck json value len w =
     (case (json, value) of
        (Some p, Some s) \<Rightarrow>
          if \<not> json_is_string w json then (-1, w)
          else
            (case jsonp_strndup s len (w_mem w) of
               (None, m) \<Rightarrow> (-1, w\<lparr>w_mem := m\<rparr>)
             | (Some dup, m) \<Rightarrow> (0, set_data p (JString dup) (w\<lparr>w_mem := m\<rparr>)))
      | _ \<Rightarrow> (-1, w))"

definition json_string_set_nocheck :: "ptr option \<Rightarrow> byte list option \<Rightarrow> world \<Rightarrow> int \<times> world" where
  "json_string_set_nocheck json value w =
     (case value of None \<Rightarrow> (-1, w) | Some s \<Rightarrow> json_string_setn_nocheck json value (length s) w)"

definition json_string_setn :: "ptr option \<Rightarrow> byte list option \<Rightarrow> nat \<Rightarrow> world \<Rightarrow> int \<times> world" where
  "json_string_setn json value len w =
     (case value of
        None \<Rightarrow> (-1, w)
      | Some s \<Rightarrow>
          if \<not> utf8_check_string (take len s) then (-1, w) else json_string_setn_nocheck json value len w)"

definition json_string_set :: "ptr option \<Rightarrow> byte list option \<Rightarrow> world \<Rightarrow> int \<times> world" where
  "json_string_set json value w =
     (case value of None \<Rightarrow> (-1, w) | Some s \<Rightarrow> json_string_setn json value (length s) w)"

definition json_string_equal :: "byte list \<Rightarrow> byte list \<Rightarrow> bool" where
  "json_string_equal s1 s2 \<longleftrightarrow> length s1 = length s2 \<and> take (length s1) s1 = take (length s1) s2"

definition json_string_copy :: "byte list \<Rightarrow> world \<Rightarrow> ptr option \<times> world" where
  "json_string_copy s w = json_stringn_nocheck (Some s) (length s) w"

text \<open>\<^verbatim>\<open>json_vsprintf\<close> for a format and arguments that \<^verbatim>\<open>vsnprintf\<close> turns into \<^term>\<open>txt\<close>.\<close>

definition json_vsprintf :: "byte list \<Rightarrow> world \<Rightarrow> ptr option \<times> world" where
  "json_vsprintf txt w =
     (let len = length txt in
      if len = 0 then json_string (Some []) w
      else
        case w_malloc (len + 1) w of
          (False, w1) \<Rightarrow> (None, w1)
        | (True, w1) \<Rightarrow>
            if \<not> utf8_check_string txt then (None, w1)
            else jsonp_stringn_nocheck_own (Some txt) len w1)"

definition json_sprintf :: "byte list \<Rightarrow> world \<Rightarrow> ptr option \<times> world" where
  "json_sprintf txt w = json_vsprintf txt w"

section \<open>Numbers and constants\<close>

definition json_integer :: "int \<Rightarrow> world \<Rightarrow> ptr option \<times> world" where
  "json_integer v w =
     (case w_malloc SIZEOF_JSON_INTEGER w of
        (False, w1) \<Rightarrow> (None, w1)
      | (True, w1) \<Rightarrow> let (p, w2) = json_init (JInteger v) w1 in (Some p, w2))"

definition json_integer_value :: "world \<Rightarrow> ptr option \<Rightarrow> int" where
  "json_integer_value w json = (case data_at w json of Some (JInteger i) \<Rightarrow> i | _ \<Rightarrow> 0)"

definition json_integer_set :: "ptr option \<Rightarrow> int \<Rightarrow> world \<Rightarrow> int \<times> world" where
  "json_integer_set json v w =
     (if \<not> json_is_integer w json then (-1, w) else (0, set_data (the json) (JInteger v) w))"

definition json_real :: "double \<Rightarrow> world \<Rightarrow> ptr option \<times> world" where
  "json_real v w =
     (if c_isnan v \<or> c_isinf v then (None, w)
      else
        case w_malloc SIZEOF_JSON_REAL w of
          (False, w1) \<Rightarrow> (None, w1)
        | (True, w1) \<Rightarrow> let (p, w2) = json_init (JReal v) w1 in (Some p, w2))"

definition json_real_value :: "world \<Rightarrow> ptr option \<Rightarrow> double" where
  "json_real_value w json = (case data_at w json of Some (JReal x) \<Rightarrow> x | _ \<Rightarrow> 0)"

definition json_real_set :: "ptr option \<Rightarrow> double \<Rightarrow> world \<Rightarrow> int \<times> world" where
  "json_real_set json v w =
     (if \<not> json_is_real w json \<or> c_isnan v \<or> c_isinf v then (-1, w)
      else (0, set_data (the json) (JReal v) w))"

text \<open>\<^verbatim>\<open>==\<close> on doubles: the two zeros are equal and a NaN equals nothing.\<close>

definition c_dbl_eq :: "double \<Rightarrow> double \<Rightarrow> bool" where
  "c_dbl_eq x y \<longleftrightarrow> \<not> c_isnan x \<and> \<not> c_isnan y \<and>
     (x = y \<or> (dbl_exp x = 0 \<and> dbl_man x = 0 \<and> dbl_exp y = 0 \<and> dbl_man y = 0))"

definition json_number_value :: "world \<Rightarrow> ptr option \<Rightarrow> double" where
  "json_number_value w json =
     (if json_is_integer w json then double_of_int (json_integer_value w json)
      else if json_is_real w json then json_real_value w json
      else 0)"

definition json_true :: "ptr option" where "json_true = Some true_ptr"
definition json_false :: "ptr option" where "json_false = Some false_ptr"
definition json_null :: "ptr option" where "json_null = Some null_ptr"

definition json_boolean :: "bool \<Rightarrow> ptr option" where
  "json_boolean val = (if val then json_true else json_false)"

section \<open>Equality\<close>

text \<open>
  \<^verbatim>\<open>json_equal\<close> follows the structure without a check for cycles.  The first argument bounds
  the depth; \<^const>\<open>None\<close> is running out of it.
\<close>

fun equal_indexes :: "(nat \<Rightarrow> bool option) \<Rightarrow> nat list \<Rightarrow> bool option" where
  "equal_indexes eq [] = Some True"
| "equal_indexes eq (i # is) =
     (case eq i of None \<Rightarrow> None | Some False \<Rightarrow> Some False | Some True \<Rightarrow> equal_indexes eq is)"

text \<open>\<^term>\<open>eq\<close> stands for the recursive calls.\<close>

definition json_object_equal ::
  "(ptr option \<Rightarrow> ptr option \<Rightarrow> bool option) \<Rightarrow> world \<Rightarrow> ptr option \<Rightarrow> ptr option \<Rightarrow> bool option" where
  "json_object_equal eq w object1 object2 =
     (if json_object_size w object1 \<noteq> json_object_size w object2 then Some False
      else
        case json_object_foreach object1
               (\<lambda>key value1 _ w1.
                  let value2 = json_object_get w object2 (Some key) in
                  case eq (Some value1) value2 of
                    Some True \<Rightarrow> (None, (), w1)
                  | r \<Rightarrow> (Some r, (), w1)) () w of
          (None, _, _) \<Rightarrow> Some True
        | (Some r, _, _) \<Rightarrow> r)"

definition json_array_equal ::
  "(ptr option \<Rightarrow> ptr option \<Rightarrow> bool option) \<Rightarrow> world \<Rightarrow> ptr option \<Rightarrow> ptr option \<Rightarrow> bool option" where
  "json_array_equal eq w array1 array2 =
     (let sz = json_array_size w array1 in
      if sz \<noteq> json_array_size w array2 then Some False
      else equal_indexes (\<lambda>i. eq (json_array_get w array1 i) (json_array_get w array2 i)) [0..<sz])"

definition json_integer_equal :: "world \<Rightarrow> ptr option \<Rightarrow> ptr option \<Rightarrow> bool" where
  "json_integer_equal w integer1 integer2 \<longleftrightarrow> json_integer_value w integer1 = json_integer_value w integer2"

definition json_real_equal :: "world \<Rightarrow> ptr option \<Rightarrow> ptr option \<Rightarrow> bool" where
  "json_real_equal w real1 real2 \<longleftrightarrow> c_dbl_eq (json_real_value w real1) (json_real_value w real2)"

fun json_equal :: "nat \<Rightarrow> world \<Rightarrow> ptr option \<Rightarrow> ptr option \<Rightarrow> bool option" where
  "json_equal 0 w json1 json2 = None"
| "json_equal (Suc n) w json1 json2 =
     (if json1 = None \<or> json2 = None then Some False
      else if json_typeof w json1 \<noteq> json_typeof w json2 then Some False
      else if json1 = json2 then Some True
      else
        case json_typeof w json1 of
          Some JSON_OBJECT \<Rightarrow> json_object_equal (json_equal n w) w json1 json2
        | Some JSON_ARRAY \<Rightarrow> json_array_equal (json_equal n w) w json1 json2
        | Some JSON_STRING \<Rightarrow>
            Some (json_string_equal (the (json_string_value w json1)) (the (json_string_value w json2)))
        | Some JSON_INTEGER \<Rightarrow> Some (json_integer_equal w json1 json2)
        | Some JSON_REAL \<Rightarrow> Some (json_real_equal w json1 json2)
        | _ \<Rightarrow> Some False)"

section \<open>Copies\<close>

definition json_object_copy :: "ptr option \<Rightarrow> world \<Rightarrow> ptr option \<times> world" where
  "json_object_copy object w =
     (case json_object w of
        (None, w1) \<Rightarrow> (None, w1)
      | (Some result, w1) \<Rightarrow>
          (case json_object_foreach object
                  (\<lambda>key v _ w. (None :: unit option, (),
                     snd (json_object_set_nocheck (Some result) (Some key) (Some v) w))) () w1 of
             (_, _, w2) \<Rightarrow> (Some result, w2)))"

definition json_array_copy :: "ptr option \<Rightarrow> world \<Rightarrow> ptr option \<times> world" where
  "json_array_copy array w =
     (case json_array w of
        (None, w1) \<Rightarrow> (None, w1)
      | (Some result, w1) \<Rightarrow>
          (Some result,
           fold (\<lambda>i w. snd (json_array_append (Some result) (json_array_get w array i) w))
             [0..<json_array_size w1 array] w1))"

definition json_integer_copy :: "ptr option \<Rightarrow> world \<Rightarrow> ptr option \<times> world" where
  "json_integer_copy json w = json_integer (json_integer_value w json) w"

definition json_real_copy :: "ptr option \<Rightarrow> world \<Rightarrow> ptr option \<times> world" where
  "json_real_copy json w = json_real (json_real_value w json) w"

definition json_copy :: "ptr option \<Rightarrow> world \<Rightarrow> ptr option \<times> world" where
  "json_copy json w =
     (case data_at w json of
        None \<Rightarrow> (None, w)
      | Some (JObject _) \<Rightarrow> json_object_copy json w
      | Some (JArray _) \<Rightarrow> json_array_copy json w
      | Some (JString s) \<Rightarrow> json_string_copy s w
      | Some (JInteger _) \<Rightarrow> json_integer_copy json w
      | Some (JReal _) \<Rightarrow> json_real_copy json w
      | Some _ \<Rightarrow> (json, w))"

text \<open>An array loop whose body may leave it, as in the deep copy.\<close>

fun index_loop ::
  "nat list \<Rightarrow> (nat \<Rightarrow> 's \<Rightarrow> world \<Rightarrow> bool \<times> 's \<times> world) \<Rightarrow> 's \<Rightarrow> world \<Rightarrow> bool \<times> 's \<times> world" where
  "index_loop [] body s w = (False, s, w)"
| "index_loop (i # is) body s w =
     (case body i s w of
        (True, s1, w1) \<Rightarrow> (True, s1, w1)
      | (False, s1, w1) \<Rightarrow> index_loop is body s1 w1)"

text \<open>\<^term>\<open>copy\<close> stands for the recursive calls.\<close>

type_synonym copier = "ptr option \<Rightarrow> ptr hashtable \<Rightarrow> world \<Rightarrow> ptr option \<times> ptr hashtable \<times> world"

definition json_object_deep_copy :: "copier \<Rightarrow> copier" where
  "json_object_deep_copy copy object parents w =
     (case jsonp_loop_check parents (the object) w of
        (r, parents1, w1) \<Rightarrow>
          if r \<noteq> 0 then (None, parents1, w1)
          else
            let (result, parents2, w2) =
                  (case json_object w1 of
                     (None, w2) \<Rightarrow> (None, parents1, w2)
                   | (Some res, w2) \<Rightarrow>
                       (case json_object_foreach object
                               (\<lambda>key v ps w.
                                  case copy (Some v) ps w of
                                    (c, ps1, w1) \<Rightarrow>
                                      (case json_object_set_new_nocheck (Some res) (Some key) c w1 of
                                         (r, w2) \<Rightarrow> (if r \<noteq> 0 then Some () else None, ps1, w2)))
                               parents1 w2 of
                          (Some _, ps, w3) \<Rightarrow> (None, ps, json_decref (Some res) w3)
                        | (None, ps, w3) \<Rightarrow> (Some res, ps, w3)))
            in (case parents_del parents2 (the object) w2 of (parents3, w3) \<Rightarrow> (result, parents3, w3)))"

definition json_array_deep_copy :: "copier \<Rightarrow> copier" where
  "json_array_deep_copy copy array parents w =
     (case jsonp_loop_check parents (the array) w of
        (r, parents1, w1) \<Rightarrow>
          if r \<noteq> 0 then (None, parents1, w1)
          else
            let (result, parents2, w2) =
                  (case json_array w1 of
                     (None, w2) \<Rightarrow> (None, parents1, w2)
                   | (Some res, w2) \<Rightarrow>
                       (case index_loop [0..<json_array_size w2 array]
                               (\<lambda>i ps w.
                                  case copy (json_array_get w array i) ps w of
                                    (c, ps1, w1) \<Rightarrow>
                                      (case json_array_append_new (Some res) c w1 of
                                         (r, w2) \<Rightarrow> (r \<noteq> 0, ps1, w2)))
                               parents1 w2 of
                          (True, ps, w3) \<Rightarrow> (None, ps, json_decref (Some res) w3)
                        | (False, ps, w3) \<Rightarrow> (Some res, ps, w3)))
            in (case parents_del parents2 (the array) w2 of (parents3, w3) \<Rightarrow> (result, parents3, w3)))"

fun do_deep_copy :: "nat \<Rightarrow> copier" where
  "do_deep_copy 0 json parents w = (None, parents, w\<lparr>w_fault := True\<rparr>)"
| "do_deep_copy (Suc n) json parents w =
     (case data_at w json of
        None \<Rightarrow> (None, parents, w)
      | Some (JObject _) \<Rightarrow> json_object_deep_copy (do_deep_copy n) json parents w
      | Some (JArray _) \<Rightarrow> json_array_deep_copy (do_deep_copy n) json parents w
      | Some (JString s) \<Rightarrow> (case json_string_copy s w of (r, w1) \<Rightarrow> (r, parents, w1))
      | Some (JInteger _) \<Rightarrow> (case json_integer_copy json w of (r, w1) \<Rightarrow> (r, parents, w1))
      | Some (JReal _) \<Rightarrow> (case json_real_copy json w of (r, w1) \<Rightarrow> (r, parents, w1))
      | Some _ \<Rightarrow> (json, parents, w))"

definition json_deep_copy :: "ptr option \<Rightarrow> world \<Rightarrow> ptr option \<times> world" where
  "json_deep_copy json w =
     (case parents_init w of
        (None, w1) \<Rightarrow> (None, w1)
      | (Some parents_set, w1) \<Rightarrow>
          (case do_deep_copy (w_brk w1 + 1) json parents_set w1 of
             (res, parents_set', w2) \<Rightarrow> (res, hashtable_close decref_ptr parents_set' w2)))"

end
