(* ===== verification/Json_Load.thy ===== *)
theory Json_Load
  imports Json_Value Json_Error Strconv "HOL-Library.Monad_Syntax"
begin

text \<open>
  \<^verbatim>\<open>jansson/src/load.c\<close>: the byte stream with one code point of push-back, the lexical
  analyser and the recursive-descent parser.

  The parser's state is its \<^verbatim>\<open>lex_t\<close>, the \<^verbatim>\<open>json_error_t\<close> of the caller and the heap.  A
  source of bytes is a function on its own state, as the \<^verbatim>\<open>get_func\<close> and its \<^verbatim>\<open>data\<close>; it
  returns \<^verbatim>\<open>EOF\<close> (-1) or a byte.  \<^verbatim>\<open>char\<close> is signed: a byte above 127 is a negative
  \<^verbatim>\<open>int\<close>.  A source may deliver bytes forever, so loops and the recursion take a bound and
  their outermost option is \<^const>\<open>None\<close> when it is used up; a separate theorem gives the
  bound for the sources that end.
\<close>

section \<open>State\<close>

record 'd stream_t =
  st_get :: "'d \<Rightarrow> int \<times> 'd"
  st_data :: 'd
  st_buffer :: "byte list"
  st_buffer_pos :: nat
  st_state :: int
  st_line :: int
  st_column :: int
  st_last_column :: int
  st_position :: nat

record 'd lex_t =
  lx_stream :: "'d stream_t"
  lx_saved_text :: strbuffer
  lx_flags :: nat
  lx_depth :: nat
  lx_token :: int
  lx_string :: "byte list option"
  lx_integer :: int
  lx_real :: double

record 'd parser =
  ps_lex :: "'d lex_t"
  ps_error :: "json_error_t option"
  ps_world :: world

definition STREAM_STATE_OK :: int where "STREAM_STATE_OK = 0"
definition STREAM_STATE_EOF :: int where "STREAM_STATE_EOF = -1"
definition STREAM_STATE_ERROR :: int where "STREAM_STATE_ERROR = -2"

definition TOKEN_INVALID :: int where "TOKEN_INVALID = -1"
definition TOKEN_EOF :: int where "TOKEN_EOF = 0"
definition TOKEN_STRING :: int where "TOKEN_STRING = 256"
definition TOKEN_INTEGER :: int where "TOKEN_INTEGER = 257"
definition TOKEN_REAL :: int where "TOKEN_REAL = 258"
definition TOKEN_TRUE :: int where "TOKEN_TRUE = 259"
definition TOKEN_FALSE :: int where "TOKEN_FALSE = 260"
definition TOKEN_NULL :: int where "TOKEN_NULL = 261"

lemmas stream_states = STREAM_STATE_OK_def STREAM_STATE_EOF_def STREAM_STATE_ERROR_def
lemmas tokens = TOKEN_INVALID_def TOKEN_EOF_def TOKEN_STRING_def TOKEN_INTEGER_def TOKEN_REAL_def
  TOKEN_TRUE_def TOKEN_FALSE_def TOKEN_NULL_def

definition JSON_REJECT_DUPLICATES :: nat where "JSON_REJECT_DUPLICATES = 0x1"
definition JSON_DISABLE_EOF_CHECK :: nat where "JSON_DISABLE_EOF_CHECK = 0x2"
definition JSON_DECODE_ANY :: nat where "JSON_DECODE_ANY = 0x4"
definition JSON_DECODE_INT_AS_REAL :: nat where "JSON_DECODE_INT_AS_REAL = 0x8"
definition JSON_ALLOW_NUL :: nat where "JSON_ALLOW_NUL = 0x10"

definition JSON_PARSER_MAX_DEPTH :: nat where "JSON_PARSER_MAX_DEPTH = 2048"

definition flag_set :: "nat \<Rightarrow> nat \<Rightarrow> bool" where
  "flag_set flags msk \<longleftrightarrow> flags AND msk \<noteq> 0"

text \<open>A character constant as an \<^verbatim>\<open>int\<close>.\<close>

definition ch :: "char \<Rightarrow> int" where
  "ch c = of_char c"

definition l_isupper :: "int \<Rightarrow> bool" where "l_isupper c \<longleftrightarrow> 65 \<le> c \<and> c \<le> 90"
definition l_islower :: "int \<Rightarrow> bool" where "l_islower c \<longleftrightarrow> 97 \<le> c \<and> c \<le> 122"
definition l_isalpha :: "int \<Rightarrow> bool" where "l_isalpha c \<longleftrightarrow> l_isupper c \<or> l_islower c"
definition l_isxdigit :: "int \<Rightarrow> bool" where
  "l_isxdigit c \<longleftrightarrow> l_isdigit c \<or> (65 \<le> c \<and> c \<le> 70) \<or> (97 \<le> c \<and> c \<le> 102)"

definition upd_lex :: "('d lex_t \<Rightarrow> 'd lex_t) \<Rightarrow> 'd parser \<Rightarrow> 'd parser" where
  "upd_lex f s = s\<lparr>ps_lex := f (ps_lex s)\<rparr>"

definition upd_stream :: "('d stream_t \<Rightarrow> 'd stream_t) \<Rightarrow> 'd parser \<Rightarrow> 'd parser" where
  "upd_stream f s = upd_lex (\<lambda>l. l\<lparr>lx_stream := f (lx_stream l)\<rparr>) s"

definition set_token :: "int \<Rightarrow> 'd parser \<Rightarrow> 'd parser" where
  "set_token t = upd_lex (\<lambda>l. l\<lparr>lx_token := t\<rparr>)"

abbreviation ps_stream :: "'d parser \<Rightarrow> 'd stream_t" where
  "ps_stream s \<equiv> lx_stream (ps_lex s)"

abbreviation ps_token :: "'d parser \<Rightarrow> int" where
  "ps_token s \<equiv> lx_token (ps_lex s)"

section \<open>Error reporting\<close>

text \<open>\<^term>\<open>msg\<close> is the text that the format and its arguments produce.\<close>

definition error_msg_text :: "byte list \<Rightarrow> byte list" where
  "error_msg_text msg = take (JSON_ERROR_TEXT_LENGTH - 1) msg"

definition error_set_lex ::
  "json_error_t option \<Rightarrow> 'd lex_t option \<Rightarrow> json_error_code \<Rightarrow> byte list \<Rightarrow> json_error_t option" where
  "error_set_lex error lexer code msg =
     (let msg_text = error_msg_text msg in
      case lexer of
        None \<Rightarrow> jsonp_error_set error (-1) (-1) 0 code msg_text
      | Some lx \<Rightarrow>
          let saved_text = strbuffer_value (lx_saved_text lx);
              line = st_line (lx_stream lx);
              col = st_column (lx_stream lx);
              pos = st_position (lx_stream lx);
              saved = (case saved_text of None \<Rightarrow> [] | Some v \<Rightarrow> c_string v);
              (result, code) =
                (if saved \<noteq> [] then
                   (if sb_length (lx_saved_text lx) \<le> 20
                    then error_msg_text (msg_text @ cstr '' near '' @ [39] @ saved @ [39])
                    else msg_text, code)
                 else
                   (if st_state (lx_stream lx) = STREAM_STATE_ERROR then msg_text
                    else error_msg_text (msg_text @ cstr '' near end of file''),
                    if code = json_error_invalid_syntax then json_error_premature_end_of_input
                    else code))
          in jsonp_error_set error line col pos code result)"

definition error_set :: "json_error_code \<Rightarrow> byte list \<Rightarrow> 'd parser \<Rightarrow> 'd parser" where
  "error_set code msg s = s\<lparr>ps_error := error_set_lex (ps_error s) (Some (ps_lex s)) code msg\<rparr>"

section \<open>Stream\<close>

definition stream_init :: "('d \<Rightarrow> int \<times> 'd) \<Rightarrow> 'd \<Rightarrow> 'd stream_t" where
  "stream_init get data =
     \<lparr>st_get = get, st_data = data, st_buffer = replicate 5 0, st_buffer_pos = 0,
      st_state = STREAM_STATE_OK, st_line = 1, st_column = 0, st_last_column = 0, st_position = 0\<rparr>"

text \<open>The bytes 1 to \<^verbatim>\<open>count - 1\<close> of a multi-byte sequence.\<close>

fun stream_fill :: "nat \<Rightarrow> nat \<Rightarrow> 'd stream_t \<Rightarrow> 'd stream_t" where
  "stream_fill i 0 st = st"
| "stream_fill i (Suc k) st =
     (case st_get st (st_data st) of
        (c, d) \<Rightarrow> stream_fill (i + 1) k (st\<lparr>st_data := d, st_buffer := (st_buffer st)[i := to_byte c]\<rparr>))"

text \<open>The reading of the next code point into the buffer.  The first component tells how it ended.\<close>

datatype refill = Refill_OK | Refill_EOF | Refill_Bad int

definition stream_refill :: "'d stream_t \<Rightarrow> refill \<times> 'd stream_t" where
  "stream_refill st =
     (case st_get st (st_data st) of
        (c, d) \<Rightarrow>
          let st1 = st\<lparr>st_data := d\<rparr> in
          if c = -1 then (Refill_EOF, st1\<lparr>st_state := STREAM_STATE_EOF\<rparr>)
          else
            let st2 = st1\<lparr>st_buffer := (st_buffer st1)[0 := to_byte c], st_buffer_pos := 0\<rparr> in
            if 0x80 \<le> c \<and> c \<le> 0xFF then
              let count = utf8_check_first (to_byte c) in
              if count = 0 then (Refill_Bad c, st2)
              else
                let st3 = stream_fill 1 (count - 1) st2 in
                if utf8_check_full (st_buffer st3) count = None then (Refill_Bad c, st3)
                else (Refill_OK, st3\<lparr>st_buffer := (st_buffer st3)[count := 0]\<rparr>)
            else (Refill_OK, st2\<lparr>st_buffer := (st_buffer st2)[1 := 0]\<rparr>))"

definition stream_take :: "'d stream_t \<Rightarrow> int \<times> 'd stream_t" where
  "stream_take st =
     (let b = st_buffer st ! st_buffer_pos st;
          c = sint b;
          st1 = st\<lparr>st_buffer_pos := st_buffer_pos st + 1, st_position := st_position st + 1\<rparr>
      in (c, if c = 10 then
               st1\<lparr>st_line := st_line st1 + 1, st_last_column := st_column st1, st_column := 0\<rparr>
             else if utf8_check_first b \<noteq> 0 then st1\<lparr>st_column := st_column st1 + 1\<rparr>
             else st1))"

definition stream_get :: "'d parser \<Rightarrow> int \<times> 'd parser" where
  "stream_get s =
     (let st = ps_stream s in
      if st_state st \<noteq> STREAM_STATE_OK then (st_state st, s)
      else
        case (if st_buffer st ! st_buffer_pos st = 0 then stream_refill st else (Refill_OK, st)) of
          (Refill_EOF, st1) \<Rightarrow> (STREAM_STATE_EOF, upd_stream (\<lambda>_. st1) s)
        | (Refill_Bad c, st1) \<Rightarrow>
            (STREAM_STATE_ERROR,
             error_set json_error_invalid_utf8 (cstr ''unable to decode byte 0x'' @ fmt_x (nat c))
               (upd_stream (\<lambda>_. st1\<lparr>st_state := STREAM_STATE_ERROR\<rparr>) s))
        | (Refill_OK, st1) \<Rightarrow>
            (case stream_take st1 of (c, st2) \<Rightarrow> (c, upd_stream (\<lambda>_. st2) s)))"

definition stream_unget :: "int \<Rightarrow> 'd stream_t \<Rightarrow> 'd stream_t" where
  "stream_unget c st =
     (if c = STREAM_STATE_EOF \<or> c = STREAM_STATE_ERROR then st
      else
        let st1 = st\<lparr>st_position := st_position st - 1\<rparr>;
            st2 = (if c = 10 then st1\<lparr>st_line := st_line st1 - 1, st_column := st_last_column st1\<rparr>
                   else if utf8_check_first (to_byte c) \<noteq> 0 then st1\<lparr>st_column := st_column st1 - 1\<rparr>
                   else st1)
        in st2\<lparr>st_buffer_pos := st_buffer_pos st2 - 1\<rparr>)"

section \<open>Lexical analyser\<close>

definition lex_get :: "'d parser \<Rightarrow> int \<times> 'd parser" where
  "lex_get s = stream_get s"

definition lex_save :: "int \<Rightarrow> 'd parser \<Rightarrow> 'd parser" where
  "lex_save c s =
     (case strbuffer_append_byte (lx_saved_text (ps_lex s)) (to_byte c) (w_mem (ps_world s)) of
        (_, sb, m) \<Rightarrow>
          upd_lex (\<lambda>l. l\<lparr>lx_saved_text := sb\<rparr>) (s\<lparr>ps_world := (ps_world s)\<lparr>w_mem := m\<rparr>\<rparr>))"

definition lex_get_save :: "'d parser \<Rightarrow> int \<times> 'd parser" where
  "lex_get_save s =
     (case stream_get s of
        (c, s1) \<Rightarrow>
          (c, if c \<noteq> STREAM_STATE_EOF \<and> c \<noteq> STREAM_STATE_ERROR then lex_save c s1 else s1))"

definition lex_unget :: "int \<Rightarrow> 'd parser \<Rightarrow> 'd parser" where
  "lex_unget c s = upd_stream (stream_unget c) s"

definition lex_unget_unsave :: "int \<Rightarrow> 'd parser \<Rightarrow> 'd parser" where
  "lex_unget_unsave c s =
     (if c \<noteq> STREAM_STATE_EOF \<and> c \<noteq> STREAM_STATE_ERROR then
        upd_lex (\<lambda>l. l\<lparr>lx_saved_text := snd (strbuffer_pop (lx_saved_text l))\<rparr>) (upd_stream (stream_unget c) s)
      else s)"

text \<open>The buffer has five bytes and a NUL after the code point it holds.\<close>

fun save_cached_loop :: "nat \<Rightarrow> 'd parser \<Rightarrow> 'd parser" where
  "save_cached_loop 0 s = s"
| "save_cached_loop (Suc n) s =
     (let st = ps_stream s; b = st_buffer st ! st_buffer_pos st in
      if b = 0 then s
      else
        let s1 = lex_save (sint b) s
        in save_cached_loop n
             (upd_stream (\<lambda>st. st\<lparr>st_buffer_pos := st_buffer_pos st + 1, st_position := st_position st + 1\<rparr>) s1))"

definition lex_save_cached :: "'d parser \<Rightarrow> 'd parser" where
  "lex_save_cached s = save_cached_loop 5 s"

definition lex_free_string :: "'d parser \<Rightarrow> 'd parser" where
  "lex_free_string = upd_lex (\<lambda>l. l\<lparr>lx_string := None\<rparr>)"

fun unicode_escape_loop :: "byte list \<Rightarrow> int \<Rightarrow> int" where
  "unicode_escape_loop [] value = value"
| "unicode_escape_loop (b # bs) value =
     (let c = sint b; value = push_bit 4 value in
      if l_isdigit c then unicode_escape_loop bs (value + (c - 48))
      else if l_islower c then unicode_escape_loop bs (value + (c - 97 + 10))
      else if l_isupper c then unicode_escape_loop bs (value + (c - 65 + 10))
      else -1)"

text \<open>The argument starts at the \<^verbatim>\<open>u\<close> of the escape.\<close>

definition decode_unicode_escape :: "byte list \<Rightarrow> int" where
  "decode_unicode_escape str = unicode_escape_loop (take 4 (drop 1 str)) 0"

subsection \<open>Strings\<close>

text \<open>The four hexadecimal digits after \<^verbatim>\<open>\u\<close>; \<^const>\<open>None\<close> is the jump to \<^verbatim>\<open>out\<close>.\<close>

fun scan_hex :: "nat \<Rightarrow> int \<Rightarrow> 'd parser \<Rightarrow> int option \<times> 'd parser" where
  "scan_hex 0 c s = (Some c, s)"
| "scan_hex (Suc i) c s =
     (if \<not> l_isxdigit c then (None, error_set json_error_invalid_syntax (cstr ''invalid escape'') s)
      else case lex_get_save s of (c1, s1) \<Rightarrow> scan_hex i c1 s1)"

definition scan_escape :: "'d parser \<Rightarrow> int option \<times> 'd parser" where
  "scan_escape s =
     (case lex_get_save s of
        (c, s1) \<Rightarrow>
          if c = 117 then (case lex_get_save s1 of (c1, s2) \<Rightarrow> scan_hex 4 c1 s2)
          else if c = 34 \<or> c = 92 \<or> c = 47 \<or> c = 98 \<or> c = 102 \<or> c = 110 \<or> c = 114 \<or> c = 116
          then (case lex_get_save s1 of (c1, s2) \<Rightarrow> (Some c1, s2))
          else (None, error_set json_error_invalid_syntax (cstr ''invalid escape'') s1))"

text \<open>
  The first loop of \<^verbatim>\<open>lex_scan_string\<close>, which saves the source text up to the closing
  quote.  The result tells whether the quote was reached.
\<close>

fun scan_string_loop :: "nat \<Rightarrow> int \<Rightarrow> 'd parser \<Rightarrow> (bool \<times> 'd parser) option" where
  "scan_string_loop 0 c s = None"
| "scan_string_loop (Suc n) c s =
     (if c = 34 then Some (True, s)
      else if c = STREAM_STATE_ERROR then Some (False, s)
      else if c = STREAM_STATE_EOF then
        Some (False, error_set json_error_premature_end_of_input (cstr ''premature end of input'') s)
      else if 0 \<le> c \<and> c \<le> 0x1F then
        (let s1 = lex_unget_unsave c s in
         Some (False,
           if c = 10 then error_set json_error_invalid_syntax (cstr ''unexpected newline'') s1
           else error_set json_error_invalid_syntax (cstr ''control character 0x'' @ fmt_x (nat c)) s1))
      else if c = 92 then
        (case scan_escape s of
           (None, s1) \<Rightarrow> Some (False, s1)
         | (Some c1, s1) \<Rightarrow> scan_string_loop n c1 s1)
      else
        (case lex_get_save s of (c1, s1) \<Rightarrow> scan_string_loop n c1 s1))"

text \<open>
  The second loop decodes the saved text from the byte after the opening quote.  A result
  \<^const>\<open>Inl\<close> is the message of an error.
\<close>

definition escape_byte :: "byte \<Rightarrow> byte" where
  "escape_byte b =
     (if b = 98 then 8 else if b = 102 then 12 else if b = 110 then 10 else if b = 114 then 13
      else if b = 116 then 9 else b)"

text \<open>One \<^verbatim>\<open>\u\<close> escape: the code point and the number of bytes after the \<^verbatim>\<open>u\<close> it takes.\<close>

definition invalid_escape_msg :: "byte list \<Rightarrow> byte list" where
  "invalid_escape_msg p = cstr ''invalid Unicode escape '' @ [39] @ take 6 (c_string (92 # p)) @ [39]"

definition decode_u :: "byte list \<Rightarrow> byte list + int \<times> nat" where
  "decode_u p =
     (let value = decode_unicode_escape p in
      if value < 0 then Inl (invalid_escape_msg p)
      else
        let q = drop 5 p in
        if 0xD800 \<le> value \<and> value \<le> 0xDBFF then
          (if take 2 q = [92, 117] then
             let value2 = decode_unicode_escape (drop 1 q) in
             if value2 < 0 then Inl (invalid_escape_msg (drop 1 q))
             else if 0xDC00 \<le> value2 \<and> value2 \<le> 0xDFFF then
               Inr (push_bit 10 (value - 0xD800) + (value2 - 0xDC00) + 0x10000, 11)
             else
               Inl (cstr ''invalid Unicode '' @ [39, 92, 117] @ fmt_04X (nat value) @ [92, 117] @
                    fmt_04X (nat value2) @ [39])
           else Inl (cstr ''invalid Unicode '' @ [39, 92, 117] @ fmt_04X (nat value) @ [39]))
        else if 0xDC00 \<le> value \<and> value \<le> 0xDFFF then
          Inl (cstr ''invalid Unicode '' @ [39, 92, 117] @ fmt_04X (nat value) @ [39])
        else Inr (value, 5))"

function decode_string :: "byte list \<Rightarrow> byte list \<Rightarrow> byte list + byte list" where
  "decode_string p t =
     (if p = [] \<or> hd p = 34 then Inr t
      else if hd p = 92 then
        (if length p \<ge> 2 \<and> p ! 1 = 117 then
           (case decode_u (drop 1 p) of
              Inl msg \<Rightarrow> Inl msg
            | Inr (value, k) \<Rightarrow>
                decode_string (drop (k + 1) p)
                  (t @ (case utf8_encode value of None \<Rightarrow> [] | Some bs \<Rightarrow> bs)))
         else decode_string (drop 2 p) (t @ [escape_byte (p ! 1)]))
      else decode_string (tl p) (t @ [hd p]))"
  by pat_completeness auto
termination
  by (relation "measure (length \<circ> fst)") auto

declare decode_string.simps [simp del]

definition lex_scan_string :: "nat \<Rightarrow> 'd parser \<Rightarrow> 'd parser option" where
  "lex_scan_string n s =
     (let s0 = set_token TOKEN_INVALID (upd_lex (\<lambda>l. l\<lparr>lx_string := None\<rparr>) s) in
      case lex_get_save s0 of
        (c, s1) \<Rightarrow> do {
          (ok, s2) \<leftarrow> scan_string_loop n c s1;
          if \<not> ok then Some (lex_free_string s2)
          else
            (case w_malloc (sb_length (lx_saved_text (ps_lex s2)) + 1) (ps_world s2) of
               (False, w) \<Rightarrow> Some (lex_free_string (s2\<lparr>ps_world := w\<rparr>))
             | (True, w) \<Rightarrow>
                 let s3 = s2\<lparr>ps_world := w\<rparr>;
                     p = drop 1 (the (strbuffer_value (lx_saved_text (ps_lex s3))))
                 in case decode_string p [] of
                      Inl msg \<Rightarrow> Some (lex_free_string (error_set json_error_invalid_syntax msg s3))
                    | Inr t \<Rightarrow>
                        Some (set_token TOKEN_STRING (upd_lex (\<lambda>l. l\<lparr>lx_string := Some t\<rparr>) s3)))
        })"

subsection \<open>Numbers\<close>

text \<open>The loop \<^verbatim>\<open>do c = lex_get_save(lex, error); while (l_isdigit(c));\<close>.\<close>

fun scan_digits :: "nat \<Rightarrow> 'd parser \<Rightarrow> (int \<times> 'd parser) option" where
  "scan_digits 0 s = None"
| "scan_digits (Suc n) s =
     (case lex_get_save s of (c, s1) \<Rightarrow> if l_isdigit c then scan_digits n s1 else Some (c, s1))"

text \<open>
  The integer part, the fraction and the exponent.  The first component of a result is
  the next character, or \<^const>\<open>None\<close> for the jump to \<^verbatim>\<open>out\<close>.
\<close>

definition scan_int_part :: "nat \<Rightarrow> int \<Rightarrow> 'd parser \<Rightarrow> (int option \<times> 'd parser) option" where
  "scan_int_part n c s =
     (let (c1, s1) = (if c = 45 then lex_get_save s else (c, s)) in
      if c1 = 48 then
        (case lex_get_save s1 of
           (c2, s2) \<Rightarrow>
             if l_isdigit c2 then Some (None, lex_unget_unsave c2 s2) else Some (Some c2, s2))
      else if l_isdigit c1 then do { (c2, s2) \<leftarrow> scan_digits n s1; Some (Some c2, s2) }
      else Some (None, lex_unget_unsave c1 s1))"

definition scan_frac :: "nat \<Rightarrow> int \<Rightarrow> 'd parser \<Rightarrow> (int option \<times> 'd parser) option" where
  "scan_frac n c s =
     (if c = 46 then
        (case lex_get s of
           (c1, s1) \<Rightarrow>
             if \<not> l_isdigit c1 then Some (None, lex_unget c1 s1)
             else do { (c2, s2) \<leftarrow> scan_digits n (lex_save c1 s1); Some (Some c2, s2) })
      else Some (Some c, s))"

definition scan_exp :: "nat \<Rightarrow> int \<Rightarrow> 'd parser \<Rightarrow> (int option \<times> 'd parser) option" where
  "scan_exp n c s =
     (if c = 69 \<or> c = 101 then
        (case lex_get_save s of
           (c0, s0) \<Rightarrow>
             let (c1, s1) = (if c0 = 43 \<or> c0 = 45 then lex_get_save s0 else (c0, s0)) in
             if \<not> l_isdigit c1 then Some (None, lex_unget_unsave c1 s1)
             else do { (c2, s2) \<leftarrow> scan_digits n s1; Some (Some c2, s2) })
      else Some (Some c, s))"

text \<open>\<^verbatim>\<open>return 0\<close> is \<^const>\<open>True\<close>.  \<^term>\<open>point\<close> is the decimal point of the locale.\<close>

definition finish_integer :: "int \<Rightarrow> 'd parser \<Rightarrow> bool \<times> 'd parser" where
  "finish_integer c s =
     (let s1 = lex_unget_unsave c s;
          saved_text = c_string (the (strbuffer_value (lx_saved_text (ps_lex s1))));
          (intval, erange, _) = strtoll saved_text
      in if erange then
           (False, if intval < 0
                   then error_set json_error_numeric_overflow (cstr ''too big negative integer'') s1
                   else error_set json_error_numeric_overflow (cstr ''too big integer'') s1)
         else (True, set_token TOKEN_INTEGER (upd_lex (\<lambda>l. l\<lparr>lx_integer := intval\<rparr>) s1)))"

definition finish_real :: "byte \<Rightarrow> int \<Rightarrow> 'd parser \<Rightarrow> bool \<times> 'd parser" where
  "finish_real point c s =
     (let s1 = lex_unget_unsave c s in
      case jsonp_strtod point (lx_saved_text (ps_lex s1)) of
        (r, doubleval, sb) \<Rightarrow>
          let s2 = upd_lex (\<lambda>l. l\<lparr>lx_saved_text := sb\<rparr>) s1 in
          if r \<noteq> 0 then (False, error_set json_error_numeric_overflow (cstr ''real number overflow'') s2)
          else (True, set_token TOKEN_REAL (upd_lex (\<lambda>l. l\<lparr>lx_real := doubleval\<rparr>) s2)))"

definition lex_scan_number :: "byte \<Rightarrow> nat \<Rightarrow> int \<Rightarrow> 'd parser \<Rightarrow> (bool \<times> 'd parser) option" where
  "lex_scan_number point n c s = do {
     (c1, s1) \<leftarrow> scan_int_part n c (set_token TOKEN_INVALID s);
     case c1 of
       None \<Rightarrow> Some (False, s1)
     | Some c2 \<Rightarrow>
         if \<not> flag_set (lx_flags (ps_lex s1)) JSON_DECODE_INT_AS_REAL \<and> c2 \<noteq> 46 \<and> c2 \<noteq> 69 \<and> c2 \<noteq> 101
         then Some (finish_integer c2 s1)
         else do {
           (c3, s3) \<leftarrow> scan_frac n c2 s1;
           case c3 of
             None \<Rightarrow> Some (False, s3)
           | Some c4 \<Rightarrow> do {
               (c5, s5) \<leftarrow> scan_exp n c4 s3;
               case c5 of
                 None \<Rightarrow> Some (False, s5)
               | Some c6 \<Rightarrow> Some (finish_real point c6 s5)
             }
         }
   }"

subsection \<open>Tokens\<close>

fun skip_space :: "nat \<Rightarrow> 'd parser \<Rightarrow> (int \<times> 'd parser) option" where
  "skip_space 0 s = None"
| "skip_space (Suc n) s =
     (case lex_get s of
        (c, s1) \<Rightarrow> if c = 32 \<or> c = 9 \<or> c = 10 \<or> c = 13 then skip_space n s1 else Some (c, s1))"

fun scan_alpha :: "nat \<Rightarrow> 'd parser \<Rightarrow> (int \<times> 'd parser) option" where
  "scan_alpha 0 s = None"
| "scan_alpha (Suc n) s =
     (case lex_get_save s of (c, s1) \<Rightarrow> if l_isalpha c then scan_alpha n s1 else Some (c, s1))"

definition keyword_token :: "byte list \<Rightarrow> int" where
  "keyword_token saved_text =
     (if saved_text = cstr ''true'' then TOKEN_TRUE
      else if saved_text = cstr ''false'' then TOKEN_FALSE
      else if saved_text = cstr ''null'' then TOKEN_NULL
      else TOKEN_INVALID)"

definition lex_scan :: "byte \<Rightarrow> nat \<Rightarrow> 'd parser \<Rightarrow> 'd parser option" where
  "lex_scan point n s0 =
     (let s1 = upd_lex (\<lambda>l. l\<lparr>lx_saved_text := strbuffer_clear (lx_saved_text l)\<rparr>) s0;
          s2 = (if ps_token s1 = TOKEN_STRING then lex_free_string s1 else s1)
      in do {
        (c, s3) \<leftarrow> skip_space n s2;
        if c = STREAM_STATE_EOF then Some (set_token TOKEN_EOF s3)
        else if c = STREAM_STATE_ERROR then Some (set_token TOKEN_INVALID s3)
        else
          let s4 = lex_save c s3 in
          if c = 123 \<or> c = 125 \<or> c = 91 \<or> c = 93 \<or> c = 58 \<or> c = 44 then Some (set_token c s4)
          else if c = 34 then lex_scan_string n s4
          else if l_isdigit c \<or> c = 45 then do { (_, s5) \<leftarrow> lex_scan_number point n c s4; Some s5 }
          else if l_isalpha c then do {
            (c1, s5) \<leftarrow> scan_alpha n s4;
            let s6 = lex_unget_unsave c1 s5;
                saved_text = c_string (the (strbuffer_value (lx_saved_text (ps_lex s6))));
                t = keyword_token saved_text
            in Some (set_token t s6)
          }
          else Some (set_token TOKEN_INVALID (lex_save_cached s4))
      })"

definition lex_steal_string :: "'d parser \<Rightarrow> byte list option \<times> 'd parser" where
  "lex_steal_string s =
     (if ps_token s = TOKEN_STRING
      then (lx_string (ps_lex s), upd_lex (\<lambda>l. l\<lparr>lx_string := None\<rparr>) s)
      else (None, s))"

text \<open>The members that \<^verbatim>\<open>lex_init\<close> leaves alone hold arbitrary values, here 0.\<close>

definition lex_init ::
  "('d \<Rightarrow> int \<times> 'd) \<Rightarrow> nat \<Rightarrow> 'd \<Rightarrow> json_error_t option \<Rightarrow> world \<Rightarrow> int \<times> 'd parser" where
  "lex_init get flags data error w =
     (case strbuffer_init (w_mem w) of
        (r, sb, m) \<Rightarrow>
          (if r \<noteq> 0 then -1 else 0,
           \<lparr>ps_lex = \<lparr>lx_stream = stream_init get data, lx_saved_text = sb, lx_flags = flags,
                       lx_depth = 0, lx_token = TOKEN_INVALID, lx_string = None, lx_integer = 0,
                       lx_real = 0\<rparr>,
            ps_error = error, ps_world = w\<lparr>w_mem := m\<rparr>\<rparr>))"

definition lex_close :: "'d parser \<Rightarrow> 'd parser" where
  "lex_close s =
     (let s1 = (if ps_token s = TOKEN_STRING then lex_free_string s else s)
      in upd_lex (\<lambda>l. l\<lparr>lx_saved_text := strbuffer_close (lx_saved_text l)\<rparr>) s1)"

section \<open>Parser\<close>

text \<open>
  The loops of \<^verbatim>\<open>parse_object\<close> and \<^verbatim>\<open>parse_array\<close> are functions of their own, entered with
  the token that starts a member or an element.  Leaving a loop by \<^verbatim>\<open>goto error\<close> releases
  the container.
\<close>

definition parse_fail :: "ptr \<Rightarrow> 'd parser \<Rightarrow> ptr option \<times> 'd parser" where
  "parse_fail p s = (None, s\<lparr>ps_world := json_decref (Some p) (ps_world s)\<rparr>)"

definition lift_world :: "(world \<Rightarrow> 'r \<times> world) \<Rightarrow> 'd parser \<Rightarrow> 'r \<times> 'd parser" where
  "lift_world f s = (case f (ps_world s) of (r, w) \<Rightarrow> (r, s\<lparr>ps_world := w\<rparr>))"

text \<open>The value of a token that is not a container; the tokens of \<^verbatim>\<open>parse_value\<close> in its order.\<close>

definition parse_string_token :: "nat \<Rightarrow> 'd parser \<Rightarrow> ptr option \<times> 'd parser" where
  "parse_string_token flags s =
     (let v = lx_string (ps_lex s) in
      if \<not> flag_set flags JSON_ALLOW_NUL \<and> v \<noteq> None \<and> 0 \<in> set (the v) then
        (None, error_set json_error_null_character
           (cstr [CHR 0x5C] @ cstr ''u0000 is not allowed without JSON_ALLOW_NUL'') s)
      else
        case lift_world (jsonp_stringn_nocheck_own v (case v of None \<Rightarrow> 0 | Some t \<Rightarrow> length t)) s of
          (r, s1) \<Rightarrow> (r, upd_lex (\<lambda>l. l\<lparr>lx_string := None\<rparr>) s1))"

definition parse_scalar :: "nat \<Rightarrow> 'd parser \<Rightarrow> ptr option \<times> 'd parser" where
  "parse_scalar flags s =
     (if ps_token s = TOKEN_STRING then parse_string_token flags s
      else if ps_token s = TOKEN_INTEGER then lift_world (json_integer (lx_integer (ps_lex s))) s
      else if ps_token s = TOKEN_REAL then lift_world (json_real (lx_real (ps_lex s))) s
      else if ps_token s = TOKEN_TRUE then (json_true, s)
      else if ps_token s = TOKEN_FALSE then (json_false, s)
      else if ps_token s = TOKEN_NULL then (json_null, s)
      else if ps_token s = TOKEN_INVALID then
        (None, error_set json_error_invalid_syntax (cstr ''invalid token'') s)
      else (None, error_set json_error_invalid_syntax (cstr ''unexpected token'') s))"

text \<open>
  The part of the object loop up to the colon: the key, or the failed result of
  \<^verbatim>\<open>parse_object\<close>.
\<close>

definition parse_key ::
  "byte \<Rightarrow> nat \<Rightarrow> nat \<Rightarrow> ptr \<Rightarrow> 'd parser \<Rightarrow> (byte list option \<times> 'd parser) option" where
  "parse_key point n flags object s =
     (if ps_token s \<noteq> TOKEN_STRING then
        Some (None, snd (parse_fail object
          (error_set json_error_invalid_syntax (cstr ''string or '' @ [39, 125, 39] @ cstr '' expected'') s)))
      else
        case lex_steal_string s of
          (None, s1) \<Rightarrow> Some (None, s1)
        | (Some key, s1) \<Rightarrow>
            if 0 \<in> set key then
              Some (None, snd (parse_fail object
                (error_set json_error_null_byte_in_key (cstr ''NUL byte in object key not supported'') s1)))
            else if flag_set flags JSON_REJECT_DUPLICATES \<and>
                    json_object_get (ps_world s1) (Some object) (Some key) \<noteq> None then
              Some (None, snd (parse_fail object
                (error_set json_error_duplicate_key (cstr ''duplicate object key'') s1)))
            else do {
              s2 \<leftarrow> lex_scan point n s1;
              if ps_token s2 \<noteq> 58 then
                Some (None, snd (parse_fail object
                  (error_set json_error_invalid_syntax ([39, 58, 39] @ cstr '' expected'') s2)))
              else Some (Some key, s2)
            })"

definition parse_end :: "int \<Rightarrow> byte list \<Rightarrow> ptr \<Rightarrow> 'd parser \<Rightarrow> ptr option \<times> 'd parser" where
  "parse_end closing msg p s =
     (if ps_token s \<noteq> closing then parse_fail p (error_set json_error_invalid_syntax msg s)
      else (Some p, s))"

fun parse_value :: "nat \<Rightarrow> byte \<Rightarrow> nat \<Rightarrow> 'd parser \<Rightarrow> (ptr option \<times> 'd parser) option"
and parse_object_loop :: "nat \<Rightarrow> byte \<Rightarrow> nat \<Rightarrow> ptr \<Rightarrow> 'd parser \<Rightarrow> (ptr option \<times> 'd parser) option"
and parse_array_loop :: "nat \<Rightarrow> byte \<Rightarrow> nat \<Rightarrow> ptr \<Rightarrow> 'd parser \<Rightarrow> (ptr option \<times> 'd parser) option" where
  "parse_value 0 point flags s = None"
| "parse_value (Suc n) point flags s0 =
     (let s = upd_lex (\<lambda>l. l\<lparr>lx_depth := lx_depth l + 1\<rparr>) s0 in
      if lx_depth (ps_lex s) > JSON_PARSER_MAX_DEPTH then
        Some (None, error_set json_error_stack_overflow (cstr ''maximum parsing depth reached'') s)
      else do {
        (json, s2) \<leftarrow>
          (if ps_token s = 123 then
             (case lift_world json_object s of
                (None, s1) \<Rightarrow> Some (None, s1)
              | (Some p, s1) \<Rightarrow> do {
                  s2 \<leftarrow> lex_scan point n s1;
                  if ps_token s2 = 125 then Some (Some p, s2) else parse_object_loop n point flags p s2
                })
           else if ps_token s = 91 then
             (case lift_world json_array s of
                (None, s1) \<Rightarrow> Some (None, s1)
              | (Some p, s1) \<Rightarrow> do {
                  s2 \<leftarrow> lex_scan point n s1;
                  if ps_token s2 = 93 then Some (Some p, s2) else parse_array_loop n point flags p s2
                })
           else Some (parse_scalar flags s));
        case json of
          None \<Rightarrow> Some (None, s2)
        | Some p \<Rightarrow> Some (Some p, upd_lex (\<lambda>l. l\<lparr>lx_depth := lx_depth l - 1\<rparr>) s2)
      })"
| "parse_object_loop 0 point flags object s = None"
| "parse_object_loop (Suc n) point flags object s = do {
     (key, s1) \<leftarrow> parse_key point n flags object s;
     case key of
       None \<Rightarrow> Some (None, s1)
     | Some k \<Rightarrow> do {
         s2 \<leftarrow> lex_scan point n s1;
         (v, s3) \<leftarrow> parse_value n point flags s2;
         case v of
           None \<Rightarrow> Some (parse_fail object s3)
         | Some vp \<Rightarrow>
             (case lift_world (json_object_set_new_nocheck (Some object) (Some k) (Some vp)) s3 of
                (r, s4) \<Rightarrow>
                  if r \<noteq> 0 then Some (parse_fail object s4)
                  else do {
                    s5 \<leftarrow> lex_scan point n s4;
                    if ps_token s5 \<noteq> 44 then
                      Some (parse_end 125 ([39, 125, 39] @ cstr '' expected'') object s5)
                    else do { s6 \<leftarrow> lex_scan point n s5; parse_object_loop n point flags object s6 }
                  })
       }
   }"
| "parse_array_loop 0 point flags array s = None"
| "parse_array_loop (Suc n) point flags array s =
     (if ps_token s = 0 then Some (parse_end 93 ([39, 93, 39] @ cstr '' expected'') array s)
      else do {
        (elem, s1) \<leftarrow> parse_value n point flags s;
        case elem of
          None \<Rightarrow> Some (parse_fail array s1)
        | Some e \<Rightarrow>
            (case lift_world (json_array_append_new (Some array) (Some e)) s1 of
               (r, s2) \<Rightarrow>
                 if r \<noteq> 0 then Some (parse_fail array s2)
                 else do {
                   s3 \<leftarrow> lex_scan point n s2;
                   if ps_token s3 \<noteq> 44 then
                     Some (parse_end 93 ([39, 93, 39] @ cstr '' expected'') array s3)
                   else do { s4 \<leftarrow> lex_scan point n s3; parse_array_loop n point flags array s4 }
                 })
      })"

definition parse_json :: "nat \<Rightarrow> byte \<Rightarrow> nat \<Rightarrow> 'd parser \<Rightarrow> (ptr option \<times> 'd parser) option" where
  "parse_json n point flags s0 = do {
     s1 \<leftarrow> lex_scan point n (upd_lex (\<lambda>l. l\<lparr>lx_depth := 0\<rparr>) s0);
     if \<not> flag_set flags JSON_DECODE_ANY \<and> ps_token s1 \<noteq> 91 \<and> ps_token s1 \<noteq> 123 then
       Some (None, error_set json_error_invalid_syntax
         ([39, 91, 39] @ cstr '' or '' @ [39, 123, 39] @ cstr '' expected'') s1)
     else do {
       (result, s2) \<leftarrow> parse_value n point flags s1;
       case result of
         None \<Rightarrow> Some (None, s2)
       | Some p \<Rightarrow> do {
           (ok, s3) \<leftarrow>
             (if flag_set flags JSON_DISABLE_EOF_CHECK then Some (True, s2)
              else do { s3 \<leftarrow> lex_scan point n s2; Some (ps_token s3 = TOKEN_EOF, s3) });
           if \<not> ok then
             Some (parse_fail p
               (error_set json_error_end_of_input_expected (cstr ''end of file expected'') s3))
           else
             Some (Some p,
               s3\<lparr>ps_error := map_option
                     (\<lambda>e. e\<lparr>err_position := int_of_size (st_position (ps_stream s3))\<rparr>) (ps_error s3)\<rparr>)
         }
     }
   }"

section \<open>Sources and entry points\<close>

text \<open>The result of an entry point: the value, the error report and the heap.\<close>

type_synonym load_result = "ptr option \<times> json_error_t option \<times> world"

definition load_result :: "ptr option \<times> 'd parser \<Rightarrow> load_result" where
  "load_result r = (case r of (p, s) \<Rightarrow> let s1 = lex_close s in (p, ps_error s1, ps_world s1))"

text \<open>\<^verbatim>\<open>lex_init\<close>, \<^verbatim>\<open>parse_json\<close> and \<^verbatim>\<open>lex_close\<close>, as every entry point has them.\<close>

definition load_with ::
  "nat \<Rightarrow> byte \<Rightarrow> ('d \<Rightarrow> int \<times> 'd) \<Rightarrow> 'd \<Rightarrow> nat \<Rightarrow> json_error_t option \<Rightarrow> world \<Rightarrow> load_result option" where
  "load_with n point get data flags error w =
     (case lex_init get flags data error w of
        (r, s) \<Rightarrow>
          if r \<noteq> 0 then Some (None, ps_error s, ps_world s)
          else map_option load_result (parse_json n point flags s))"

record string_data_t =
  sd_data :: "byte list"
  sd_pos :: nat

definition string_get :: "string_data_t \<Rightarrow> int \<times> string_data_t" where
  "string_get stream =
     (let c = (if sd_pos stream < length (sd_data stream) then sd_data stream ! sd_pos stream else 0)
      in if c = 0 then (-1, stream) else (uint c, stream\<lparr>sd_pos := sd_pos stream + 1\<rparr>))"

text \<open>
  The bound on loops and recursion: every round takes at least one byte of the input, so
  the length of the input and a constant suffice.
\<close>

definition load_fuel :: "nat \<Rightarrow> nat" where
  "load_fuel len = 2 * len + 8"

definition json_loads ::
  "byte \<Rightarrow> byte list option \<Rightarrow> nat \<Rightarrow> json_error_t option \<Rightarrow> world \<Rightarrow> load_result option" where
  "json_loads point str flags error w =
     (let error1 = jsonp_error_init error (Some (cstr ''<string>'')) in
      case str of
        None \<Rightarrow>
          Some (None, error_set_lex error1 (None :: unit lex_t option) json_error_invalid_argument
                        (cstr ''wrong arguments''), w)
      | Some bytes \<Rightarrow>
          load_with (load_fuel (length bytes)) point string_get \<lparr>sd_data = bytes, sd_pos = 0\<rparr>
            flags error1 w)"

record buffer_data_t =
  bd_data :: "byte list"
  bd_len :: nat
  bd_pos :: nat

definition buffer_get :: "buffer_data_t \<Rightarrow> int \<times> buffer_data_t" where
  "buffer_get stream =
     (if bd_pos stream \<ge> bd_len stream then (-1, stream)
      else (uint (bd_data stream ! bd_pos stream), stream\<lparr>bd_pos := bd_pos stream + 1\<rparr>))"

definition json_loadb ::
  "byte \<Rightarrow> byte list option \<Rightarrow> nat \<Rightarrow> nat \<Rightarrow> json_error_t option \<Rightarrow> world \<Rightarrow> load_result option" where
  "json_loadb point buffer buflen flags error w =
     (let error1 = jsonp_error_init error (Some (cstr ''<buffer>'')) in
      case buffer of
        None \<Rightarrow>
          Some (None, error_set_lex error1 (None :: unit lex_t option) json_error_invalid_argument
                        (cstr ''wrong arguments''), w)
      | Some bytes \<Rightarrow>
          load_with (load_fuel buflen) point buffer_get
            \<lparr>bd_data = bytes, bd_len = buflen, bd_pos = 0\<rparr> flags error1 w)"

text \<open>
  \<^verbatim>\<open>json_loadf\<close>: \<^term>\<open>fgetc\<close> is the C library's function on the state of the file, \<^const>\<open>None\<close>
  for a NULL \<^verbatim>\<open>FILE *\<close>.  \<^verbatim>\<open>json_loadfd\<close> reads single bytes with \<^verbatim>\<open>read\<close>.
\<close>

definition json_loadf ::
  "nat \<Rightarrow> byte \<Rightarrow> ('f \<Rightarrow> int \<times> 'f) \<Rightarrow> bool \<Rightarrow> 'f option \<Rightarrow> nat \<Rightarrow> json_error_t option \<Rightarrow> world \<Rightarrow>
   load_result option" where
  "json_loadf n point fgetc is_stdin input flags error w =
     (let source = (if is_stdin then cstr ''<stdin>'' else cstr ''<stream>'');
          error1 = jsonp_error_init error (Some source)
      in case input of
           None \<Rightarrow>
             Some (None, error_set_lex error1 (None :: unit lex_t option) json_error_invalid_argument
                           (cstr ''wrong arguments''), w)
         | Some f \<Rightarrow> load_with n point fgetc f flags error1 w)"

definition fd_get_func :: "('f \<Rightarrow> (nat \<times> byte) \<times> 'f) \<Rightarrow> 'f \<Rightarrow> int \<times> 'f" where
  "fd_get_func read1 fd =
     (case read1 fd of ((r, c), fd') \<Rightarrow> if r = 1 then (uint c, fd') else (-1, fd'))"

definition json_loadfd ::
  "nat \<Rightarrow> byte \<Rightarrow> ('f \<Rightarrow> (nat \<times> byte) \<times> 'f) \<Rightarrow> 'f \<Rightarrow> int \<Rightarrow> nat \<Rightarrow> json_error_t option \<Rightarrow> world \<Rightarrow>
   load_result option" where
  "json_loadfd n point read1 file input flags error w =
     (let source = (if input = 0 then cstr ''<stdin>'' else cstr ''<stream>'');
          error1 = jsonp_error_init error (Some source)
      in if input < 0 then
           Some (None, error_set_lex error1 (None :: unit lex_t option) json_error_invalid_argument
                         (cstr ''wrong arguments''), w)
         else load_with n point (fd_get_func read1) file flags error1 w)"

text \<open>\<^term>\<open>fopen\<close> gives the state of the opened file or the text of \<^verbatim>\<open>strerror(errno)\<close>.\<close>

definition json_load_file ::
  "nat \<Rightarrow> byte \<Rightarrow> (byte list \<Rightarrow> byte list + 'f) \<Rightarrow> ('f \<Rightarrow> int \<times> 'f) \<Rightarrow> byte list option \<Rightarrow> nat \<Rightarrow>
   json_error_t option \<Rightarrow> world \<Rightarrow> load_result option" where
  "json_load_file n point fopen fgetc path flags error w =
     (let error1 = jsonp_error_init error path in
      case path of
        None \<Rightarrow>
          Some (None, error_set_lex error1 (None :: unit lex_t option) json_error_invalid_argument
                        (cstr ''wrong arguments''), w)
      | Some file \<Rightarrow>
          (case fopen file of
             Inl reason \<Rightarrow>
               Some (None, error_set_lex error1 (None :: unit lex_t option) json_error_cannot_open_file
                             (cstr ''unable to open '' @ file @ cstr '': '' @ reason), w)
           | Inr f \<Rightarrow> json_loadf n point fgetc False (Some f) flags error1 w))"

definition MAX_BUF_LEN :: nat where "MAX_BUF_LEN = 1024"

record 'a callback_data_t =
  cb_data :: "byte list"
  cb_len :: nat
  cb_pos :: nat
  cb_arg :: 'a

text \<open>The callback fills the buffer it is given and returns a length or \<^verbatim>\<open>(size_t)-1\<close>.\<close>

definition callback_get ::
  "(byte list \<Rightarrow> nat \<Rightarrow> 'a \<Rightarrow> nat \<times> byte list \<times> 'a) \<Rightarrow> 'a callback_data_t \<Rightarrow> int \<times> 'a callback_data_t" where
  "callback_get callback stream =
     (let (eof, st) =
            (if cb_pos stream \<ge> cb_len stream then
               case callback (cb_data stream) MAX_BUF_LEN (cb_arg stream) of
                 (len, data, arg) \<Rightarrow>
                   (len = 0 \<or> len = SIZE_MAX,
                    stream\<lparr>cb_data := data, cb_len := len, cb_pos := 0, cb_arg := arg\<rparr>)
             else (False, stream))
      in if eof then (-1, st)
         else (uint (cb_data st ! cb_pos st), st\<lparr>cb_pos := cb_pos st + 1\<rparr>))"

definition json_load_callback ::
  "nat \<Rightarrow> byte \<Rightarrow> (byte list \<Rightarrow> nat \<Rightarrow> 'a \<Rightarrow> nat \<times> byte list \<times> 'a) option \<Rightarrow> 'a \<Rightarrow> nat \<Rightarrow>
   json_error_t option \<Rightarrow> world \<Rightarrow> load_result option" where
  "json_load_callback n point callback arg flags error w =
     (let error1 = jsonp_error_init error (Some (cstr ''<callback>'')) in
      case callback of
        None \<Rightarrow>
          Some (None, error_set_lex error1 (None :: unit lex_t option) json_error_invalid_argument
                        (cstr ''wrong arguments''), w)
      | Some cb \<Rightarrow>
          load_with n point (callback_get cb)
            \<lparr>cb_data = replicate MAX_BUF_LEN 0, cb_len = 0, cb_pos = 0, cb_arg = arg\<rparr> flags error1 w)"

end
