(* ===== verification/Json_Refcount.thy ===== *)
theory Json_Refcount
  imports Json_Value Hashtable_Correct
begin

text \<open>
  Reference counting is exact.  The invariant \<^verbatim>\<open>rc_inv\<close> says of a heap that every count is
  the number of references held outside and by other cells, that every reference leads to
  a live cell and that no freed cell was touched.  Each operation of \<^verbatim>\<open>value.c\<close> is shown to
  keep it under its ownership rule, and so does every run of a client that respects the
  rules.  Deletion recurses through shared and nested containers; the proof follows the
  release of one reference through the cells whose references are already being given up.
\<close>

section \<open>References between cells\<close>

fun cell_refs :: "json_data \<Rightarrow> ptr multiset" where
  "cell_refs (JObject h) = image_mset (\<lambda>z. p_value (pair_of h z)) (mset_set (dom (ht_pairs h)))"
| "cell_refs (JArray a) = mset (take (a_entries a) (a_table a))"
| "cell_refs _ = {#}"

lemma cell_refs_object: "ht_rel seed h al \<Longrightarrow> cell_refs (JObject h) = mset (map snd al)"
proof -
  assume "ht_rel seed h al"
  then obtain segs os where rep: "ht_rep seed h segs os" and al: "al = entries h os" by (auto simp: ht_rel_def)
  have "mset_set (dom (ht_pairs h)) = mset os"
    using ht_repD(4,10) [OF rep] by (simp add: mset_set_set)
  then show ?thesis using al by (simp add: entries_def comp_def)
qed

definition heap_refs :: "ptr set \<Rightarrow> world \<Rightarrow> ptr multiset" where
  "heap_refs D w = (\<Sum>q \<in> dom (w_heap w) - D. cell_refs (j_data (the (w_heap w q))))"

definition statics :: "ptr set" where
  "statics = {true_ptr, false_ptr, null_ptr}"

definition statics_ok :: "world \<Rightarrow> bool" where
  "statics_ok w \<longleftrightarrow>
     w_heap w true_ptr = Some \<lparr>j_refcount = SIZE_MAX, j_data = JTrue\<rparr> \<and>
     w_heap w false_ptr = Some \<lparr>j_refcount = SIZE_MAX, j_data = JFalse\<rparr> \<and>
     w_heap w null_ptr = Some \<lparr>j_refcount = SIZE_MAX, j_data = JNull\<rparr>"

fun data_wf :: "u32 \<Rightarrow> json_data \<Rightarrow> bool" where
  "data_wf seed (JObject h) \<longleftrightarrow> seed \<noteq> 0 \<and> (\<exists>al. ht_rel seed h al)"
| "data_wf seed (JArray a) \<longleftrightarrow> a_entries a \<le> a_size a \<and> length (a_table a) = a_size a"
| "data_wf seed (JReal x) \<longleftrightarrow> \<not> c_isnan x \<and> \<not> c_isinf x"
| "data_wf seed (JString s) \<longleftrightarrow> True"
| "data_wf seed (JInteger i) \<longleftrightarrow> True"
| "data_wf seed _ \<longleftrightarrow> False"

abbreviation rc_of :: "world \<Rightarrow> ptr \<Rightarrow> nat" where
  "rc_of w q \<equiv> j_refcount (the (w_heap w q))"

text \<open>
  \<^term>\<open>rc_inv D E w\<close>: in the heap of \<^term>\<open>w\<close> every reference count is the number of
  references from outside, the multiset \<^term>\<open>E\<close>, and from the cells not in \<^term>\<open>D\<close>; the
  references of the cells in \<^term>\<open>D\<close> are accounted for in \<^term>\<open>E\<close>.
\<close>

definition rc_inv :: "ptr set \<Rightarrow> ptr multiset \<Rightarrow> world \<Rightarrow> bool" where
  "rc_inv D E w \<longleftrightarrow>
     \<not> w_fault w \<and> finite (dom (w_heap w)) \<and> dom (w_heap w) \<subseteq> {1..<w_brk w} \<and> statics_ok w \<and>
     (\<forall>q c. w_heap w q = Some c \<longrightarrow> q \<notin> statics \<longrightarrow>
        data_wf (w_seed w) (j_data c) \<and> j_refcount c < SIZE_MAX \<and>
        j_refcount c = count E q + count (heap_refs D w) q \<and> (q \<notin> D \<longrightarrow> 0 < j_refcount c)) \<and>
     set_mset E \<subseteq> dom (w_heap w) \<and> set_mset (heap_refs D w) \<subseteq> dom (w_heap w) \<and>
     D \<subseteq> dom (w_heap w) - statics"

lemma rc_invI:
  assumes "\<And>q c. w_heap w q = Some c \<Longrightarrow> q \<notin> statics \<Longrightarrow>
      data_wf (w_seed w) (j_data c) \<and> j_refcount c < SIZE_MAX \<and>
      j_refcount c = count E q + count (heap_refs D w) q \<and> (q \<notin> D \<longrightarrow> 0 < j_refcount c)"
    and "\<not> w_fault w" "finite (dom (w_heap w))" "dom (w_heap w) \<subseteq> {1..<w_brk w}" "statics_ok w"
    "set_mset E \<subseteq> dom (w_heap w)" "set_mset (heap_refs D w) \<subseteq> dom (w_heap w)" "D \<subseteq> dom (w_heap w) - statics"
  shows "rc_inv D E w"
  using assms unfolding rc_inv_def by blast

lemma rc_invD:
  assumes "rc_inv D E w"
  shows "\<not> w_fault w" "finite (dom (w_heap w))" "dom (w_heap w) \<subseteq> {1..<w_brk w}" "statics_ok w"
    "\<And>q c. w_heap w q = Some c \<Longrightarrow> q \<notin> statics \<Longrightarrow> data_wf (w_seed w) (j_data c)"
    "\<And>q c. w_heap w q = Some c \<Longrightarrow> q \<notin> statics \<Longrightarrow> j_refcount c < SIZE_MAX"
    "\<And>q c. w_heap w q = Some c \<Longrightarrow> q \<notin> statics \<Longrightarrow>
       j_refcount c = count E q + count (heap_refs D w) q"
    "\<And>q c. w_heap w q = Some c \<Longrightarrow> q \<notin> statics \<Longrightarrow> q \<notin> D \<Longrightarrow> 0 < j_refcount c"
    "set_mset E \<subseteq> dom (w_heap w)" "set_mset (heap_refs D w) \<subseteq> dom (w_heap w)"
    "D \<subseteq> dom (w_heap w) - statics"
  using assms unfolding rc_inv_def by blast+

lemma statics_cell:
  assumes "statics_ok w" "q \<in> statics"
  obtains c where "w_heap w q = Some c" "j_refcount c = SIZE_MAX" "cell_refs (j_data c) = {#}"
  using assms by (auto simp: statics_ok_def statics_def)

section \<open>Moving the references of a cell outside and back\<close>

lemma heap_refs_detach:
  assumes "finite (dom (w_heap w))" "w_heap w p = Some c" "p \<notin> D"
  shows "heap_refs D w = cell_refs (j_data c) + heap_refs (insert p D) w"
proof -
  have "dom (w_heap w) - D - {p} = dom (w_heap w) - insert p D" by auto
  then show ?thesis
    using assms sum.remove [of "dom (w_heap w) - D" p "\<lambda>q. cell_refs (j_data (the (w_heap w q)))"]
    by (simp add: heap_refs_def domI)
qed

lemma rc_inv_detach:
  assumes "rc_inv D E w" "w_heap w p = Some c" "p \<notin> D" "p \<notin> statics"
  shows "rc_inv (insert p D) (cell_refs (j_data c) + E) w"
proof (rule rc_invI)
  note I = rc_invD [OF assms(1)]
  have refs: "heap_refs D w = cell_refs (j_data c) + heap_refs (insert p D) w"
    by (rule heap_refs_detach [OF I(2) assms(2,3)])
  show "data_wf (w_seed w) (j_data c') \<and> j_refcount c' < SIZE_MAX \<and>
      j_refcount c' = count (cell_refs (j_data c) + E) q + count (heap_refs (insert p D) w) q \<and>
      (q \<notin> insert p D \<longrightarrow> 0 < j_refcount c')"
    if "w_heap w q = Some c'" "q \<notin> statics" for q c'
    using I(5-8) that refs by simp
  show "set_mset (cell_refs (j_data c) + E) \<subseteq> dom (w_heap w)" "set_mset (heap_refs (insert p D) w) \<subseteq> dom (w_heap w)"
    using I(9,10) refs by auto
qed (use rc_invD [OF assms(1)] assms(2,4) in auto)

lemma heap_refs_cong:
  assumes "dom (w_heap w') - D = dom (w_heap w) - D"
    "\<And>q. q \<in> dom (w_heap w) - D \<Longrightarrow> j_data (the (w_heap w' q)) = j_data (the (w_heap w q))"
  shows "heap_refs D w' = heap_refs D w"
  unfolding heap_refs_def using assms by (intro sum.cong) auto

lemma set_data_heap:
  "w_heap w p = Some c \<Longrightarrow> w_heap (set_data p d w) = (w_heap w)(p \<mapsto> c\<lparr>j_data := d\<rparr>)"
  by (simp add: set_data_def set_cell_def)

lemma set_data_frame [simp]:
  "w_brk (set_data p d w) = w_brk w" "w_mem (set_data p d w) = w_mem w" "w_seed (set_data p d w) = w_seed w"
  "w_env (set_data p d w) = w_env w" "w_fault (set_data p d w) = w_fault w"
  by (simp_all add: set_data_def set_cell_def split: option.splits)

lemma set_cell_frame [simp]:
  "w_heap (set_cell p c w) = (w_heap w)(p \<mapsto> c)" "w_brk (set_cell p c w) = w_brk w"
  "w_mem (set_cell p c w) = w_mem w" "w_seed (set_cell p c w) = w_seed w"
  "w_env (set_cell p c w) = w_env w" "w_fault (set_cell p c w) = w_fault w"
  by (simp_all add: set_cell_def)

text \<open>Giving a detached cell its new content.\<close>

lemma rc_inv_attach:
  assumes inv: "rc_inv (insert p D) (cell_refs d + E) w" and p: "w_heap w p = Some c" "p \<notin> D" "p \<notin> statics"
    and d: "data_wf (w_seed w) d" and rc: "0 < j_refcount c"
  shows "rc_inv D E (set_data p d w)"
proof -
  let ?w = "set_data p d w"
  have heap: "w_heap ?w = (w_heap w)(p \<mapsto> c\<lparr>j_data := d\<rparr>)" by (rule set_data_heap [OF p(1)])
  have dom: "dom (w_heap ?w) = dom (w_heap w)" using heap p(1) by auto
  note I = rc_invD [OF inv]
  have "heap_refs (insert p D) ?w = heap_refs (insert p D) w"
    using heap dom by (intro heap_refs_cong) auto
  moreover have "heap_refs D ?w = cell_refs d + heap_refs (insert p D) ?w"
    using heap_refs_detach [of ?w p "c\<lparr>j_data := d\<rparr>" D] heap I(2) p(2) by auto
  ultimately have refs: "heap_refs D ?w = cell_refs d + heap_refs (insert p D) w" by simp
  show ?thesis
  proof (rule rc_invI)
    show "data_wf (w_seed ?w) (j_data c') \<and> j_refcount c' < SIZE_MAX \<and>
        j_refcount c' = count E q + count (heap_refs D ?w) q \<and> (q \<notin> D \<longrightarrow> 0 < j_refcount c')"
      if c': "w_heap ?w q = Some c'" and q: "q \<notin> statics" for q c'
    proof (cases "q = p")
      case True
      then have "c' = c\<lparr>j_data := d\<rparr>" using c' heap by simp
      then show ?thesis using True d rc I(6,7) [OF p(1)] p(3) refs by simp
    next
      case False
      then have "w_heap w q = Some c'" using c' heap by simp
      then show ?thesis using I(5-8) q False refs by simp
    qed
    show "statics_ok ?w" using I(4) p(3) heap by (auto simp: statics_ok_def statics_def)
    show "set_mset (heap_refs D ?w) \<subseteq> dom (w_heap ?w)" using refs I(9,10) dom by auto
  qed (use I dom in auto)
qed

section \<open>Releasing references\<close>

text \<open>What a release may change: reference counts, and cells may disappear.\<close>

definition shrinks :: "world \<Rightarrow> world \<Rightarrow> bool" where
  "shrinks w w' \<longleftrightarrow> w_brk w' = w_brk w \<and> w_mem w' = w_mem w \<and> w_seed w' = w_seed w \<and> w_env w' = w_env w \<and>
     (\<forall>q c'. w_heap w' q = Some c' \<longrightarrow> (\<exists>c. w_heap w q = Some c \<and> j_data c' = j_data c))"

lemma shrinks_refl [simp]: "shrinks w w"
  by (auto simp: shrinks_def)

lemma shrinks_trans: "shrinks u v \<Longrightarrow> shrinks v w \<Longrightarrow> shrinks u w"
  by (fastforce simp: shrinks_def)

lemma shrinks_dom: "shrinks w w' \<Longrightarrow> dom (w_heap w') \<subseteq> dom (w_heap w)"
  by (auto simp: shrinks_def)

lemma shrinks_refs:
  assumes "shrinks w w'" "finite (dom (w_heap w))"
  shows "heap_refs D w' \<subseteq># heap_refs D w"
proof -
  have "heap_refs D w' = (\<Sum>q \<in> dom (w_heap w') - D. cell_refs (j_data (the (w_heap w q))))"
    unfolding heap_refs_def using assms(1) by (intro sum.cong) (fastforce simp: shrinks_def)+
  also have "\<dots> \<subseteq># heap_refs D w"
  proof -
    have "dom (w_heap w) - D = (dom (w_heap w') - D) \<union> (dom (w_heap w) - dom (w_heap w') - D)"
      using shrinks_dom [OF assms(1)] by auto
    then have "heap_refs D w = (\<Sum>q \<in> dom (w_heap w') - D. cell_refs (j_data (the (w_heap w q)))) +
        (\<Sum>q \<in> dom (w_heap w) - dom (w_heap w') - D. cell_refs (j_data (the (w_heap w q))))"
      unfolding heap_refs_def
      using assms shrinks_dom [OF assms(1)] by (metis (no_types, lifting) DiffE Diff_Diff_Int Int_commute
        finite_Diff rev_finite_subset sum.union_disjoint disjoint_iff)
    then show ?thesis by simp
  qed
  finally show ?thesis .
qed

lemma shrinks_count_0:
  "shrinks w w' \<Longrightarrow> finite (dom (w_heap w)) \<Longrightarrow> count (heap_refs D w) q = 0 \<Longrightarrow> count (heap_refs D w') q = 0"
  using mset_subset_eq_count [OF shrinks_refs, of w w' D q] by simp

text \<open>A reference count goes down because one outside reference is given up.\<close>

lemma rc_inv_set_rc:
  assumes inv: "rc_inv D (add_mset p E) w" and p: "w_heap w p = Some c" "p \<notin> statics"
    and ok: "1 < j_refcount c \<or> p \<in> D"
  shows "rc_inv D E (set_cell p (c\<lparr>j_refcount := j_refcount c - 1\<rparr>) w)" (is "rc_inv D E ?w")
proof (rule rc_invI)
  note I = rc_invD [OF inv]
  have dom: "dom (w_heap ?w) = dom (w_heap w)" using p(1) by auto
  have refs: "heap_refs D ?w = heap_refs D w"
    using dom p(1) by (intro heap_refs_cong) auto
  have pos: "0 < j_refcount c" using I(7) [OF p] by simp
  show "data_wf (w_seed ?w) (j_data c') \<and> j_refcount c' < SIZE_MAX \<and>
      j_refcount c' = count E q + count (heap_refs D ?w) q \<and> (q \<notin> D \<longrightarrow> 0 < j_refcount c')"
    if c': "w_heap ?w q = Some c'" and q: "q \<notin> statics" for q c'
  proof (cases "q = p")
    case True
    then have "c' = c\<lparr>j_refcount := j_refcount c - 1\<rparr>" using c' by simp
    then show ?thesis using True ok pos refs I(5-7) [OF p] by auto
  next
    case False
    then have h: "w_heap w q = Some c'" using c' by simp
    show ?thesis using I(5-7) [OF h q] I(8) [OF h q] False refs by simp
  qed
  show "statics_ok ?w" using I(4) p(2) by (auto simp: statics_ok_def statics_def)
  show "set_mset (heap_refs D ?w) \<subseteq> dom (w_heap ?w)" using refs I(10) dom by simp
  show "set_mset E \<subseteq> dom (w_heap ?w)" using I(9) dom by auto
qed (use rc_invD [OF inv] p in auto)

text \<open>A cell with no references left is freed.\<close>

lemma rc_inv_free:
  assumes inv: "rc_inv (insert p D) E w" and p: "w_heap w p = Some c" "j_refcount c = 0" "p \<notin> D"
  shows "rc_inv D E (jsonp_free p w)" (is "rc_inv D E ?w")
proof (rule rc_invI)
  note I = rc_invD [OF inv]
  have ps: "p \<notin> statics" using I(11) by auto
  have dom: "dom (w_heap ?w) = dom (w_heap w) - {p}" by (auto simp: jsonp_free_def)
  have refs: "heap_refs D ?w = heap_refs (insert p D) w"
    unfolding heap_refs_def dom by (intro sum.cong) (auto simp: jsonp_free_def)
  have none: "count E p = 0" "count (heap_refs (insert p D) w) p = 0" using I(7) [OF p(1) ps] p(2) by auto
  show "data_wf (w_seed ?w) (j_data c') \<and> j_refcount c' < SIZE_MAX \<and>
      j_refcount c' = count E q + count (heap_refs D ?w) q \<and> (q \<notin> D \<longrightarrow> 0 < j_refcount c')"
    if c': "w_heap ?w q = Some c'" and q: "q \<notin> statics" for q c'
  proof -
    have "w_heap w q = Some c'" "q \<noteq> p" using c' by (auto simp: jsonp_free_def split: if_splits)
    then show ?thesis using I(5-8) q refs by (simp add: jsonp_free_def)
  qed
  show "statics_ok ?w" using I(4) ps by (auto simp: statics_ok_def statics_def jsonp_free_def)
  show "set_mset (heap_refs D ?w) \<subseteq> dom (w_heap ?w)" using refs I(10) dom none by (auto simp: count_eq_zero_iff)
  show "set_mset E \<subseteq> dom (w_heap ?w)" using I(9) dom none by (auto simp: count_eq_zero_iff)
  show "D \<subseteq> dom (w_heap ?w) - statics" using I(11) dom p(3) by auto
qed (use rc_invD [OF inv] in \<open>auto simp: jsonp_free_def\<close>)

lemma rc_dec: "0 < rc \<Longrightarrow> rc < SIZE_MAX \<Longrightarrow> (rc + SIZE_MAX) mod 2 ^ 64 = rc - 1"
proof -
  assume a: "0 < rc" "rc < SIZE_MAX"
  then have "rc + SIZE_MAX = (rc - 1) + 2 ^ 64" by (simp add: SIZE_MAX_def)
  moreover have "(rc - 1) mod 2 ^ 64 = rc - 1" using a by (simp add: SIZE_MAX_def)
  ultimately show ?thesis by simp
qed

text \<open>
  A pending release keeps every detached cell in use: it has an outside reference that
  stays, or no reference at all.
\<close>

definition kept :: "ptr set \<Rightarrow> ptr multiset \<Rightarrow> world \<Rightarrow> bool" where
  "kept D E w \<longleftrightarrow> (\<forall>q \<in> D. q \<in># E \<or> rc_of w q = 0)"

lemma kept_shrinks:
  assumes "kept D E w" "rc_inv D (F + E) w" "rc_inv D E w'" "shrinks w w'"
  shows "kept D E w'"
  unfolding kept_def
proof
  fix q assume q: "q \<in> D"
  obtain c' where c': "w_heap w' q = Some c'" "q \<notin> statics" using rc_invD(11) [OF assms(3)] q by blast
  obtain c where c: "w_heap w q = Some c" using c'(1) assms(4) by (auto simp: shrinks_def)
  show "q \<in># E \<or> rc_of w' q = 0"
  proof (cases "q \<in># E")
    case False
    then have "rc_of w q = 0" using assms(1) q by (auto simp: kept_def)
    then have "count (heap_refs D w) q = 0" using rc_invD(7) [OF assms(2) c c'(2)] c by simp
    then have "count (heap_refs D w') q = 0" using shrinks_count_0 [OF assms(4) rc_invD(2) [OF assms(2)]] by simp
    then show ?thesis using rc_invD(7) [OF assms(3) c'] False c' by (simp add: count_eq_zero_iff)
  qed simp
qed

lemma fold_decref_inv:
  assumes step: "\<And>p E w. rc_inv D (add_mset p E) w \<Longrightarrow> card (dom (w_heap w) - D) < n \<Longrightarrow> kept D E w \<Longrightarrow>
      rc_inv D E (decr p w) \<and> shrinks w (decr p w)"
    and "rc_inv D (mset vs + E) w" "card (dom (w_heap w) - D) < n" "kept D E w"
  shows "rc_inv D E (fold decr vs w) \<and> shrinks w (fold decr vs w)"
  using assms(2-)
proof (induction vs arbitrary: w)
  case Nil
  then show ?case by simp
next
  case (Cons v vs)
  have inv: "rc_inv D (add_mset v (mset vs + E)) w" using Cons.prems(1) by simp
  have k: "kept D (mset vs + E) w" using Cons.prems(3) by (auto simp: kept_def)
  have s: "rc_inv D (mset vs + E) (decr v w)" "shrinks w (decr v w)"
    using step [OF inv Cons.prems(2) k] by auto
  have fin: "finite (dom (w_heap w))" using rc_invD(2) [OF Cons.prems(1)] .
  have "card (dom (w_heap (decr v w)) - D) \<le> card (dom (w_heap w) - D)"
    using shrinks_dom [OF s(2)] fin by (intro card_mono) auto
  moreover have "kept D E (decr v w)"
    using Cons.prems(3)
  proof -
    have "kept D (mset vs + E) (decr v w)"
      using kept_shrinks [OF k _ s(1,2), of "{#v#}"] inv by simp
    moreover have "rc_of (decr v w) q = 0" if qD: "q \<in> D" and z: "rc_of w q = 0" for q
    proof -
      obtain c' where c': "w_heap (decr v w) q = Some c'" "q \<notin> statics" using rc_invD(11) [OF s(1)] qD by blast
      obtain c where c: "w_heap w q = Some c" using c'(1) s(2) by (auto simp: shrinks_def)
      have "count (mset vs + E) q = 0" "count (heap_refs D w) q = 0"
        using rc_invD(7) [OF inv c c'(2)] z c by (simp_all del: count_union split: if_splits)
      moreover from this(2) have "count (heap_refs D (decr v w)) q = 0" using shrinks_count_0 [OF s(2) fin] by simp
      ultimately show ?thesis using rc_invD(7) [OF s(1) c'] c' by simp
    qed
    ultimately show ?thesis using Cons.prems(3) by (auto simp: kept_def)
  qed
  ultimately show ?case
    using Cons.IH [OF s(1)] Cons.prems(2) s(2) shrinks_trans by force
qed

lemma json_decref_n_inv:
  "rc_inv D (add_mset p E) w \<Longrightarrow> card (dom (w_heap w) - D) < n \<Longrightarrow> kept D E w \<Longrightarrow>
   rc_inv D E (json_decref_n n p w) \<and> shrinks w (json_decref_n n p w)"
proof (induction n arbitrary: D p E w)
  case 0
  then show ?case by simp
next
  case (Suc n)
  note I = rc_invD [OF Suc.prems(1)]
  obtain c where c: "w_heap w p = Some c" using I(9) by auto
  show ?case
  proof (cases "p \<in> statics")
    case True
    have "j_refcount c = SIZE_MAX" using I(4) True by (rule statics_cell) (use c in simp)
    then have eq: "json_decref_n (Suc n) p w = w" using c by simp
    have "rc_inv D E w"
    proof (rule rc_invI)
      show "data_wf (w_seed w) (j_data c') \<and> j_refcount c' < SIZE_MAX \<and>
          j_refcount c' = count E q + count (heap_refs D w) q \<and> (q \<notin> D \<longrightarrow> 0 < j_refcount c')"
        if "w_heap w q = Some c'" "q \<notin> statics" for q c'
        using I(5-7) [OF that] I(8) [OF that] that True by (cases "p = q") auto
    qed (use I in auto)
    then show ?thesis using eq by simp
  next
    case False
    have rc: "0 < j_refcount c" "j_refcount c < SIZE_MAX" using I(6,7) [OF c False] by auto
    let ?c = "c\<lparr>j_refcount := j_refcount c - 1\<rparr>"
    let ?w1 = "set_cell p ?c w"
    have sh1: "shrinks w ?w1" using c by (auto simp: shrinks_def)
    have unfold: "json_decref_n (Suc n) p w =
        (if j_refcount c - 1 = 0 then json_delete (json_decref_n n) p ?w1 else ?w1)"
      using c rc rc_dec [OF rc] by (simp add: Let_def)
    show ?thesis
    proof (cases "1 < j_refcount c")
      case True
      then show ?thesis using rc_inv_set_rc [OF Suc.prems(1) c False] unfold sh1 by auto
    next
      case one: False
      then have rc1: "j_refcount c = 1" using rc by simp
      have pD: "p \<notin> D"
      proof
        assume "p \<in> D"
        then have "p \<in># E" using Suc.prems(3) rc1 c by (auto simp: kept_def)
        then show False using I(7) [OF c False] rc1 by (simp add: count_eq_zero_iff)
      qed
      let ?D = "insert p D" and ?R = "cell_refs (j_data c)"
      have det: "rc_inv ?D (add_mset p (?R + E)) w" using rc_inv_detach [OF Suc.prems(1) c pD False] by simp
      have inv1: "rc_inv ?D (?R + E) ?w1" using rc_inv_set_rc [OF det c False] by simp
      have dom1: "dom (w_heap ?w1) = dom (w_heap w)" using c by auto
      have d1: "dom (w_heap ?w1) - ?D = (dom (w_heap w) - D) - {p}" using dom1 by auto
      have card1: "card (dom (w_heap ?w1) - ?D) < n"
      proof -
        have "p \<in> dom (w_heap w) - D" using c pD by auto
        then have "0 < card (dom (w_heap w) - D)" using I(2) by (auto simp: card_gt_0_iff)
        then show ?thesis using Suc.prems(2) I(2) \<open>p \<in> dom (w_heap w) - D\<close> d1 by (simp add: card_Diff_singleton)
      qed
      have kept1: "kept ?D E ?w1"
        using Suc.prems(3) rc1 by (auto simp: kept_def)
      have release: "rc_inv D E (jsonp_free p w2) \<and> shrinks w (jsonp_free p w2)"
        if vs: "mset vs = ?R" and w2: "w2 = fold (json_decref_n n) vs ?w1" for vs w2
      proof -
        have f: "rc_inv ?D E w2 \<and> shrinks ?w1 w2"
          unfolding w2
        proof (rule fold_decref_inv)
          show "rc_inv ?D E' (json_decref_n n p' w') \<and> shrinks w' (json_decref_n n p' w')"
            if "rc_inv ?D (add_mset p' E') w'" "card (dom (w_heap w') - ?D) < n" "kept ?D E' w'" for p' E' w'
            using Suc.IH that .
        qed (use inv1 card1 kept1 vs in auto)
        then have "p \<in> dom (w_heap w2)" using rc_invD(11) by blast
        then obtain c2 where c2: "w_heap w2 p = Some c2" by auto
        have kept2: "kept ?D E w2"
          using kept_shrinks [OF kept1, of ?R w2] inv1 f by simp
        have "p \<notin># E" using I(7) [OF c False] rc1 by (simp add: count_eq_zero_iff)
        then have "j_refcount c2 = 0" using kept2 c2 by (auto simp: kept_def)
        then have "rc_inv D E (jsonp_free p w2)" using rc_inv_free [OF _ c2] f pD by blast
        moreover have "shrinks w2 (jsonp_free p w2)" by (auto simp: shrinks_def jsonp_free_def)
        ultimately show ?thesis using f sh1 shrinks_trans by blast
      qed
      have data: "data_at ?w1 (Some p) = Some (j_data c)" by (simp add: data_at_def)
      have wf: "data_wf (w_seed w) (j_data c)" using I(5) [OF c False] .
      have "\<exists>vs. mset vs = ?R \<and>
          json_delete (json_decref_n n) p ?w1 = jsonp_free p (fold (json_decref_n n) vs ?w1)"
      proof (cases "j_data c")
        case (JObject h)
        then obtain al where al: "ht_rel (w_seed w) h al" using wf by auto
        obtain vs where vs: "mset vs = mset (map snd al)"
          "hashtable_close (json_decref_n n) h ?w1 = fold (json_decref_n n) vs ?w1"
          using hashtable_close_rel [OF al, where decref = "json_decref_n n" and w = ?w1] by (elim exE conjE)
        then show ?thesis
          using JObject data cell_refs_object [OF al]
          by (intro exI [of _ vs]) (simp add: json_delete_def json_delete_object_def del: cell_refs.simps)
      next
        case (JArray a)
        then show ?thesis
          using data by (intro exI [of _ "take (a_entries a) (a_table a)"])
            (simp add: json_delete_def json_delete_array_def)
      qed (use data wf in \<open>auto simp: json_delete_def\<close>)
      then show ?thesis using release unfold rc1 by force
    qed
  qed
qed

lemma rc_inv_mem [simp]: "rc_inv D E (w\<lparr>w_mem := m\<rparr>) = rc_inv D E w"
  by (simp add: rc_inv_def heap_refs_def statics_ok_def)

lemma kept_empty [simp]: "kept {} E w"
  by (simp add: kept_def)

lemma decref_ptr_inv_gen:
  assumes "rc_inv D (add_mset p E) w" "kept D E w"
  shows "rc_inv D E (decref_ptr p w) \<and> shrinks w (decref_ptr p w)"
proof -
  have "card (dom (w_heap w) - D) \<le> card {1..<w_brk w}"
    using rc_invD(3) [OF assms(1)] by (intro card_mono) auto
  then have "card (dom (w_heap w) - D) < w_brk w + 1" by simp
  then show ?thesis unfolding decref_ptr_def by (rule json_decref_n_inv [OF assms(1) _ assms(2)])
qed

lemma fold_decref_ptr_inv:
  assumes "rc_inv D (mset vs + E) w" "kept D E w"
  shows "rc_inv D E (fold decref_ptr vs w) \<and> shrinks w (fold decref_ptr vs w)"
  using assms decref_ptr_inv_gen
  by (intro fold_decref_inv [where n = "Suc (card (dom (w_heap w) - D))"]) auto

lemma decref_ptr_inv: "rc_inv {} (add_mset p E) w \<Longrightarrow> rc_inv {} E (decref_ptr p w)"
  using decref_ptr_inv_gen [of "{}"] by simp

lemma json_decref_inv: "rc_inv {} (add_mset p E) w \<Longrightarrow> rc_inv {} E (json_decref (Some p) w)"
  by (simp add: json_decref_def decref_ptr_inv)

section \<open>Replacing the content of a container\<close>

lemma container_update:
  assumes inv: "rc_inv {} (R + E) w" and p: "w_heap w p = Some c" "p \<in># E" "p \<notin> statics"
    and refs: "cell_refs (j_data c) = mset vs + B" and d: "cell_refs d = B + R" "data_wf (w_seed w) d"
  shows "rc_inv {} E (set_data p d (fold decref_ptr vs w))"
proof -
  let ?w1 = "fold decref_ptr vs w"
  have det: "rc_inv {p} (mset vs + (B + R + E)) w"
    using rc_inv_detach [OF inv p(1) _ p(3)] refs by (simp add: ac_simps)
  have "kept {p} (B + R + E) w" using p(2) by (simp add: kept_def)
  then have f: "rc_inv {p} (cell_refs d + E) ?w1" "shrinks w ?w1"
    using fold_decref_ptr_inv [OF det] d(1) by auto
  have "p \<in> dom (w_heap ?w1)" using rc_invD(9) [OF f(1)] p(2) by auto
  then obtain c1 where c1: "w_heap ?w1 p = Some c1" by auto
  have "0 < count E p" using p(2) by simp
  then have "0 < j_refcount c1" using rc_invD(7) [OF f(1) c1 p(3)] by simp
  moreover have "w_seed ?w1 = w_seed w" using f(2) by (simp add: shrinks_def)
  ultimately show ?thesis using rc_inv_attach [OF f(1) c1 _ p(3)] d(2) by simp
qed

text \<open>The references are the same and nothing is released.\<close>

lemma container_same:
  assumes "rc_inv {} E w" "w_heap w p = Some c" "p \<in># E" "p \<notin> statics"
    "cell_refs d = cell_refs (j_data c)" "data_wf (w_seed w) d"
  shows "rc_inv {} E (set_data p d w)"
  using container_update [of "{#}" E w p c "[]" "cell_refs d" d] assms by simp

lemma rc_inv_not_static:
  "rc_inv D E w \<Longrightarrow> w_heap w p = Some c \<Longrightarrow> j_data c \<notin> {JTrue, JFalse, JNull} \<Longrightarrow> p \<notin> statics"
  using rc_invD(4) by (fastforce simp: statics_ok_def statics_def)

lemma object_tableD:
  assumes "rc_inv D E w" "object_table w (Some p) = Some h"
  obtains c al where "w_heap w p = Some c" "j_data c = JObject h" "p \<notin> statics"
    "w_seed w \<noteq> 0" "ht_rel (w_seed w) h al" "cell_refs (JObject h) = mset (map snd al)"
proof -
  obtain c where c: "w_heap w p = Some c" "j_data c = JObject h"
    using assms(2) by (auto simp: object_table_def data_at_def split: option.splits json_data.splits)
  moreover have ps: "p \<notin> statics" using rc_inv_not_static [OF assms(1) c(1)] c(2) by simp
  moreover have "data_wf (w_seed w) (JObject h)" using rc_invD(5) [OF assms(1) c(1) ps] c(2) by simp
  ultimately show thesis using that cell_refs_object by (auto simp del: cell_refs.simps)
qed

lemma array_atD:
  assumes "rc_inv D E w" "array_at w (Some p) = Some a"
  obtains c where "w_heap w p = Some c" "j_data c = JArray a" "p \<notin> statics"
    "a_entries a \<le> a_size a" "length (a_table a) = a_size a"
proof -
  obtain c where c: "w_heap w p = Some c" "j_data c = JArray a"
    using assms(2) by (auto simp: array_at_def data_at_def split: option.splits json_data.splits)
  moreover have ps: "p \<notin> statics" using rc_inv_not_static [OF assms(1) c(1)] c(2) by simp
  moreover have "data_wf (w_seed w) (JArray a)" using rc_invD(5) [OF assms(1) c(1) ps] c(2) by simp
  ultimately show thesis using that by auto
qed

section \<open>Association lists and their values\<close>

lemma update_values_new:
  "map_of al k = None \<Longrightarrow> mset (map snd (AList.update k v al)) = add_mset v (mset (map snd al))"
  by (simp add: update_new map_of_eq_None_iff)

lemma update_values_old:
  "map_of al k = Some old \<Longrightarrow>
   add_mset old (mset (map snd (AList.update k v al))) = add_mset v (mset (map snd al))"
  by (induction al) (auto split: if_splits simp: add_mset_commute)

lemma delete_values:
  "distinct (map fst al) \<Longrightarrow> map_of al k = Some old \<Longrightarrow>
   mset (map snd al) = add_mset old (mset (map snd (AList.delete k al)))"
  by (induction al) (auto split: if_splits simp: AList.delete_notin_dom map_of_eq_None_iff)

section \<open>Objects\<close>

lemma json_object_set_new_nocheck_inv:
  assumes inv: "rc_inv {} (add_mset v E) w" and p: "p \<in># E"
    and size: "json_object_size w (Some p) < 2 ^ 31"
  shows "rc_inv {} E (snd (json_object_set_new_nocheck (Some p) key (Some v) w))"
proof (cases "key = None \<or> object_table w (Some p) = None \<or> p = v")
  case True
  then have "snd (json_object_set_new_nocheck (Some p) key (Some v) w) = json_decref (Some v) w"
    by (auto simp: json_object_set_new_nocheck_def split: option.splits)
  then show ?thesis using json_decref_inv [OF inv] by simp
next
  case False
  then obtain k h where k: "key = Some k" and h: "object_table w (Some p) = Some h" and pv: "p \<noteq> v" by auto
  obtain c al where c: "w_heap w p = Some c" "j_data c = JObject h" "p \<notin> statics"
    and al: "w_seed w \<noteq> 0" "ht_rel (w_seed w) h al" "cell_refs (JObject h) = mset (map snd al)"
    using object_tableD [OF inv h] .
  have len: "length al < 2 ^ 31" using size h ht_rel_size [OF al(2)] by (simp add: json_object_size_def)
  obtain r h' m' w' where set: "hashtable_set decref_ptr (w_seed w) k v h (w_mem w) w = (r, h', m', w')"
    by (metis prod_cases4)
  note S = hashtable_set_rel [OF al(2) len set]
  let ?w2 = "set_data p (JObject h') (w'\<lparr>w_mem := m'\<rparr>)"
  have eq: "snd (json_object_set_new_nocheck (Some p) key (Some v) w) =
      (if r \<noteq> 0 then json_decref (Some v) ?w2 else ?w2)"
    using k h pv set by (simp add: json_object_set_new_nocheck_def Let_def)
  have swap: "set_data p d (u\<lparr>w_mem := m\<rparr>) = (set_data p d u)\<lparr>w_mem := m\<rparr>" for d u m
    by (simp add: set_data_def set_cell_def split: option.splits)
  show ?thesis
  proof (cases "r = 0")
    case True
    let ?al = "AList.update k v al"
    have rel: "ht_rel (w_seed w) h' ?al" using S(1) True by simp
    have refs': "cell_refs (JObject h') = mset (map snd ?al)" using cell_refs_object [OF rel] .
    have "\<exists>vs B. w' = fold decref_ptr vs w \<and> cell_refs (j_data c) = mset vs + B \<and>
        cell_refs (JObject h') = B + {#v#}"
    proof (cases "map_of al k")
      case None
      then show ?thesis using S(2) True c(2) al(3) refs' update_values_new [OF None, of v]
        by (intro exI [of _ "[]"] exI [of _ "mset (map snd al)"]) (simp del: cell_refs.simps)
    next
      case (Some old)
      have "v \<in># mset (map snd ?al)" using Some by (induction al) (auto split: if_splits)
      then obtain B where B: "mset (map snd ?al) = add_mset v B" by (metis multi_member_split)
      have "add_mset v (mset (map snd al)) = add_mset v (add_mset old B)"
        unfolding update_values_old [OF Some, of v, symmetric] B by (rule add_mset_commute)
      then have "mset (map snd al) = add_mset old B" by simp
      then show ?thesis using S(2) True c(2) al(3) refs' B Some
        by (intro exI [of _ "[old]"] exI [of _ B]) (simp del: cell_refs.simps)
    qed
    then obtain vs B where vs: "w' = fold decref_ptr vs w" "cell_refs (j_data c) = mset vs + B"
      "cell_refs (JObject h') = B + {#v#}" by blast
    have "data_wf (w_seed w) (JObject h')" using al(1) rel by auto
    then have "rc_inv {} E (set_data p (JObject h') w')"
      using container_update [of "{#v#}" E w p c vs B "JObject h'"] inv c p vs by simp
    then show ?thesis using eq True by (simp add: swap)
  next
    case False
    then have rel: "ht_rel (w_seed w) h' al" "w' = w" using S(3) by auto
    then have "data_wf (w_seed w) (JObject h')" "cell_refs (JObject h') = cell_refs (j_data c)"
      using al c(2) cell_refs_object [OF rel(1)] by (auto simp del: cell_refs.simps)
    then have "rc_inv {} (add_mset v E) (set_data p (JObject h') w')"
      using container_same [OF inv c(1)] p c(3) rel(2) by simp
    then show ?thesis using eq False json_decref_inv [of v E ?w2] by (simp add: swap)
  qed
qed

lemma json_object_set_new_inv:
  assumes "rc_inv {} (add_mset v E) w" "p \<in># E" "json_object_size w (Some p) < 2 ^ 31"
  shows "rc_inv {} E (snd (json_object_set_new (Some p) key (Some v) w))"
  using json_object_set_new_nocheck_inv [OF assms] json_decref_inv [OF assms(1)]
  by (auto simp: json_object_set_new_def split: option.splits)

lemma json_object_del_inv:
  assumes inv: "rc_inv {} E w" and p: "p \<in># E"
  shows "rc_inv {} E (snd (json_object_del (Some p) key w))"
proof (cases "key = None \<or> object_table w (Some p) = None")
  case True
  then have "snd (json_object_del (Some p) key w) = w"
    by (auto simp: json_object_del_def split: option.splits)
  then show ?thesis using inv by simp
next
  case False
  then obtain k h where k: "key = Some k" and h: "object_table w (Some p) = Some h" by auto
  obtain c al where c: "w_heap w p = Some c" "j_data c = JObject h" "p \<notin> statics"
    and al: "w_seed w \<noteq> 0" "ht_rel (w_seed w) h al" "cell_refs (JObject h) = mset (map snd al)"
    using object_tableD [OF inv h] .
  obtain r h' w' where del: "hashtable_del decref_ptr (w_seed w) k h w = (r, h', w')" by (metis prod_cases3)
  have eq: "snd (json_object_del (Some p) key w) = set_data p (JObject h') w'"
    using k h del by (simp add: json_object_del_def)
  consider (found) old where "map_of al k = Some old" "w' = decref_ptr old w"
      "ht_rel (w_seed w) h' (AList.delete k al)"
    | (missing) "h' = h" "w' = w"
    using hashtable_del_rel [OF al(2) del] by blast
  then show ?thesis
  proof cases
    case found
    have dist: "distinct (map fst al)" using ht_rel_distinct [OF al(2)] .
    have "cell_refs (j_data c) = mset [old] + cell_refs (JObject h')"
      using delete_values [OF dist found(1)] c(2) al(3) cell_refs_object [OF found(3)] by (simp del: cell_refs.simps)
    moreover have "data_wf (w_seed w) (JObject h')" using al(1) found(3) by auto
    ultimately show ?thesis
      using container_update [of "{#}" E w p c "[old]" "cell_refs (JObject h')" "JObject h'"] inv c p found eq
      by (simp del: cell_refs.simps)
  next
    case missing
    have "data_wf (w_seed w) (JObject h)" using al by auto
    then show ?thesis using container_same [OF inv c(1) p c(3), of "JObject h"] c(2) eq missing by simp
  qed
qed

lemma json_object_clear_inv:
  assumes inv: "rc_inv {} E w" and p: "p \<in># E"
  shows "rc_inv {} E (snd (json_object_clear (Some p) w))"
proof (cases "object_table w (Some p)")
  case None
  then show ?thesis using inv by (simp add: json_object_clear_def)
next
  case (Some h)
  obtain c al where c: "w_heap w p = Some c" "j_data c = JObject h" "p \<notin> statics"
    and al: "w_seed w \<noteq> 0" "ht_rel (w_seed w) h al" "cell_refs (JObject h) = mset (map snd al)"
    using object_tableD [OF inv Some] .
  obtain h' w' where cl: "hashtable_clear decref_ptr h w = (h', w')" by (metis surj_pair)
  have rel: "ht_rel (w_seed w) h' []" using hashtable_clear_rel(1) [OF al(2) cl] .
  obtain vs where vs: "mset vs = mset (map snd al)" "w' = fold decref_ptr vs w"
    using hashtable_clear_rel(2) [OF al(2) cl] by (elim exE conjE)
  have "cell_refs (JObject h') = {#}" using cell_refs_object [OF rel] by simp
  moreover have "data_wf (w_seed w) (JObject h')" using al(1) rel by auto
  ultimately show ?thesis
    using container_update [of "{#}" E w p c vs "{#}" "JObject h'"] inv c p vs al(3) Some cl
    by (simp add: json_object_clear_def del: cell_refs.simps)
qed

section \<open>Arrays\<close>

lemma take_update_mset:
  "i < n \<Longrightarrow> n \<le> length xs \<Longrightarrow> add_mset (xs ! i) (mset (take n (xs[i := v]))) = add_mset v (mset (take n xs))"
proof -
  assume a: "i < n" "n \<le> length xs"
  have "take n (xs[i := v]) = (take n xs)[i := v]" by (simp add: take_update_swap)
  moreover have "xs ! i = take n xs ! i" using a by simp
  moreover have "i < length (take n xs)" using a by simp
  ultimately show ?thesis by (simp only: mset_update add_mset_remove_trivial_eq)
      (metis add_mset_commute insert_DiffM nth_mem_mset)
qed

lemma json_array_set_new_inv:
  assumes inv: "rc_inv {} (add_mset v E) w" and p: "p \<in># E"
  shows "rc_inv {} E (snd (json_array_set_new (Some p) index (Some v) w))"
proof (cases "array_at w (Some p)")
  case None
  then show ?thesis using json_decref_inv [OF inv] by (simp add: json_array_set_new_def)
next
  case (Some a)
  obtain c where c: "w_heap w p = Some c" "j_data c = JArray a" "p \<notin> statics"
    "a_entries a \<le> a_size a" "length (a_table a) = a_size a"
    using array_atD [OF inv Some] .
  show ?thesis
  proof (cases "p = v \<or> a_entries a \<le> index")
    case True
    then show ?thesis using json_decref_inv [OF inv] Some by (auto simp: json_array_set_new_def)
  next
    case False
    let ?d = "JArray (a\<lparr>a_table := (a_table a)[index := v]\<rparr>)"
    let ?B = "mset (take (a_entries a) (a_table a)) - {#a_table a ! index#}"
    have m: "add_mset (a_table a ! index) (cell_refs ?d) = add_mset v (cell_refs (j_data c))"
      using take_update_mset [of index "a_entries a" "a_table a" v] False c by simp
    have "a_table a ! index \<in># cell_refs (j_data c)"
      using False c by (auto simp: in_set_conv_nth intro!: exI [of _ index])
    then have old: "cell_refs (j_data c) = mset [a_table a ! index] + ?B" using c(2) by simp
    then have "cell_refs ?d = ?B + {#v#}" using m by (simp del: cell_refs.simps)
    moreover have "data_wf (w_seed w) ?d" using c by simp
    ultimately have "rc_inv {} E (set_data p ?d (fold decref_ptr [a_table a ! index] w))"
      using container_update [of "{#v#}" E w p c _ ?B ?d] old inv c(1,3) p by simp
    then show ?thesis using False Some by (simp add: json_array_set_new_def)
  qed
qed

lemma array_copy_length:
  "dpos + k \<le> length dest \<Longrightarrow> spos + k \<le> length src \<Longrightarrow>
   length (array_copy dest dpos src spos k) = length dest"
  by (simp add: array_copy_def)

lemma json_array_grow_ok:
  assumes "json_array_grow a n True w = (Some t, a', w')" "a_entries a \<le> a_size a" "length (a_table a) = a_size a"
  shows "a_entries a' = a_entries a" "a_entries a + n \<le> a_size a'" "length (a_table a') = a_size a'"
    "take (a_entries a) (a_table a') = take (a_entries a) (a_table a)"
  using assms
  by (auto simp: json_array_grow_def Let_def array_copy_def w_malloc_def split: if_splits prod.splits bool.splits)

lemma json_array_grow_world:
  "json_array_grow a n b w = (t, a', w') \<Longrightarrow> \<exists>m. w' = w\<lparr>w_mem := m\<rparr>"
proof -
  have same: "\<exists>m. w = w\<lparr>w_mem := m\<rparr>" by (rule exI [of _ "w_mem w"]) simp
  assume "json_array_grow a n b w = (t, a', w')"
  then show ?thesis using same
    by (auto simp: json_array_grow_def Let_def w_malloc_def split: if_splits prod.splits bool.splits)
qed

lemma set_data_mem: "set_data p d (u\<lparr>w_mem := m\<rparr>) = (set_data p d u)\<lparr>w_mem := m\<rparr>"
  by (simp add: set_data_def set_cell_def split: option.splits)

lemma json_array_append_new_inv:
  assumes inv: "rc_inv {} (add_mset v E) w" and p: "p \<in># E"
  shows "rc_inv {} E (snd (json_array_append_new (Some p) (Some v) w))"
proof (cases "array_at w (Some p) = None \<or> p = v")
  case True
  then show ?thesis using json_decref_inv [OF inv]
    by (auto simp: json_array_append_new_def split: option.splits)
next
  case False
  then obtain a where a: "array_at w (Some p) = Some a" and pv: "p \<noteq> v" by auto
  obtain c where c: "w_heap w p = Some c" "j_data c = JArray a" "p \<notin> statics"
    "a_entries a \<le> a_size a" "length (a_table a) = a_size a"
    using array_atD [OF inv a] .
  obtain t a1 w1 where g: "json_array_grow a 1 True w = (t, a1, w1)" by (metis prod_cases3)
  obtain m where w1: "w1 = w\<lparr>w_mem := m\<rparr>" using json_array_grow_world [OF g] by blast
  show ?thesis
  proof (cases t)
    case None
    then show ?thesis using a pv g w1 json_decref_inv [of v E w1] inv
      by (simp add: json_array_append_new_def)
  next
    case (Some tab)
    note G = json_array_grow_ok [OF g [unfolded Some] c(4,5)]
    let ?d = "JArray (a1\<lparr>a_table := (a_table a1)[a_entries a1 := v], a_entries := a_entries a1 + 1\<rparr>)"
    have "take (Suc (a_entries a)) ((a_table a1)[a_entries a := v]) = take (a_entries a) (a_table a) @ [v]"
      using G by (simp add: take_Suc_conv_app_nth)
    then have "cell_refs ?d = cell_refs (j_data c) + {#v#}" using G(1) c(2) by simp
    moreover have "data_wf (w_seed w) ?d" using G by simp
    ultimately have "rc_inv {} E (set_data p ?d w)"
      using container_update [of "{#v#}" E w p c "[]" "cell_refs (j_data c)" ?d] inv c(1,3) p by simp
    then show ?thesis using a pv g Some w1 by (simp add: json_array_append_new_def set_data_mem)
  qed
qed

lemma json_array_clear_inv:
  assumes inv: "rc_inv {} E w" and p: "p \<in># E"
  shows "rc_inv {} E (snd (json_array_clear (Some p) w))"
proof (cases "array_at w (Some p)")
  case None
  then show ?thesis using inv by (simp add: json_array_clear_def)
next
  case (Some a)
  obtain c where c: "w_heap w p = Some c" "j_data c = JArray a" "p \<notin> statics"
    "a_entries a \<le> a_size a" "length (a_table a) = a_size a"
    using array_atD [OF inv Some] .
  then show ?thesis
    using container_update [of "{#}" E w p c "take (a_entries a) (a_table a)" "{#}" "JArray (a\<lparr>a_entries := 0\<rparr>)"]
      inv p Some by (simp add: json_array_clear_def Let_def)
qed

lemma array_remove_table:
  assumes "i < n" "n \<le> length xs"
  shows "take (n - 1) (if i < n - 1 then array_copy xs i xs (i + 1) (n - i - 1) else xs) =
    take i xs @ drop (i + 1) (take n xs)"
proof (cases "i < n - 1")
  case True
  then show ?thesis using assms by (auto simp: array_copy_def take_drop min_def)
next
  case False
  then have "n - 1 = i" using assms by simp
  then show ?thesis using False assms by simp
qed

lemma mset_remove_nth:
  "i < n \<Longrightarrow> n \<le> length xs \<Longrightarrow> mset (take n xs) = add_mset (xs ! i) (mset (take i xs @ drop (i + 1) (take n xs)))"
proof -
  assume a: "i < n" "n \<le> length xs"
  then have "take n xs = take i xs @ xs ! i # drop (i + 1) (take n xs)"
    using id_take_nth_drop [of i "take n xs"] by (simp add: min_def)
  then show ?thesis by (metis mset_append mset.simps(2) union_mset_add_mset_right)
qed

lemma json_array_remove_inv:
  assumes inv: "rc_inv {} E w" and p: "p \<in># E"
  shows "rc_inv {} E (snd (json_array_remove (Some p) index w))"
proof (cases "array_at w (Some p)")
  case None
  then show ?thesis using inv by (simp add: json_array_remove_def)
next
  case (Some a)
  obtain c where c: "w_heap w p = Some c" "j_data c = JArray a" "p \<notin> statics"
    "a_entries a \<le> a_size a" "length (a_table a) = a_size a"
    using array_atD [OF inv Some] .
  show ?thesis
  proof (cases "a_entries a \<le> index")
    case True
    then show ?thesis using inv Some by (simp add: json_array_remove_def)
  next
    case False
    let ?n = "a_entries a"
    let ?a1 = "if index < ?n - 1 then array_move a index (index + 1) (?n - index - 1) else a"
    let ?d = "JArray (?a1\<lparr>a_entries := a_entries ?a1 - 1\<rparr>)"
    have tab: "a_table ?a1 = (if index < ?n - 1 then array_copy (a_table a) index (a_table a) (index + 1) (?n - index - 1)
        else a_table a)" "a_entries ?a1 = ?n" "a_size ?a1 = a_size a"
      by (simp_all add: array_move_def)
    have refs: "cell_refs ?d = mset (take index (a_table a) @ drop (index + 1) (take ?n (a_table a)))"
      using array_remove_table [of index ?n "a_table a"] False c(4,5) tab by simp
    then have "cell_refs (j_data c) = mset [a_table a ! index] + cell_refs ?d"
      using mset_remove_nth [of index ?n "a_table a"] False c(2,4,5) by simp
    moreover have "data_wf (w_seed w) ?d"
      using tab c(4,5) False by (auto simp: array_copy_length)
    ultimately have "rc_inv {} E (set_data p ?d (fold decref_ptr [a_table a ! index] w))"
      using container_update [of "{#}" E w p c "[a_table a ! index]" "cell_refs ?d" ?d] inv c(1,3) p by simp
    then show ?thesis using False Some by (simp add: json_array_remove_def Let_def)
  qed
qed

lemma array_insert_table:
  assumes "i \<le> n" "n < length xs" "n \<le> length ys"
  shows "take (n + 1) ((array_copy xs (i + 1) ys i (n - i))[i := v]) = take i xs @ v # drop i (take n ys)"
proof -
  let ?l = "array_copy xs (i + 1) ys i (n - i)"
  have len: "i < length ?l" using assms by (simp add: array_copy_def)
  have l: "?l = take i xs @ xs ! i # drop i (take n ys) @ drop (n + 1) xs"
    using assms by (simp add: array_copy_def take_Suc_conv_app_nth take_drop)
  have "?l[i := v] = take i xs @ v # drop i (take n ys) @ drop (n + 1) xs"
    unfolding l using assms by (simp add: list_update_append)
  then show ?thesis using assms by (simp add: min_def Suc_diff_le)
qed

lemma mset_insert_nth:
  "i \<le> n \<Longrightarrow> n \<le> length xs \<Longrightarrow> mset (take i xs @ v # drop i (take n xs)) = add_mset v (mset (take n xs))"
proof -
  assume a: "i \<le> n" "n \<le> length xs"
  then have "take n xs = take i xs @ drop i (take n xs)"
    by (metis append_take_drop_id min.absorb1 take_take)
  then show ?thesis by (metis mset_append mset.simps(2) union_mset_add_mset_right)
qed

lemma json_array_insert_new_inv:
  assumes inv: "rc_inv {} (add_mset v E) w" and p: "p \<in># E"
  shows "rc_inv {} E (snd (json_array_insert_new (Some p) index (Some v) w))"
proof (cases "array_at w (Some p)")
  case None
  then show ?thesis using json_decref_inv [OF inv] by (simp add: json_array_insert_new_def)
next
  case (Some a)
  obtain c where c: "w_heap w p = Some c" "j_data c = JArray a" "p \<notin> statics"
    "a_entries a \<le> a_size a" "length (a_table a) = a_size a"
    using array_atD [OF inv Some] .
  show ?thesis
  proof (cases "p = v \<or> a_entries a < index")
    case True
    then show ?thesis using json_decref_inv [OF inv] Some by (auto simp: json_array_insert_new_def)
  next
    case ok: False
    let ?n = "a_entries a"
    obtain t a1 w1 where g: "json_array_grow a 1 False w = (t, a1, w1)" by (metis prod_cases3)
    obtain m where w1: "w1 = w\<lparr>w_mem := m\<rparr>" using json_array_grow_world [OF g] by blast
    show ?thesis
    proof (cases t)
      case None
      then show ?thesis using Some ok g w1 json_decref_inv [of v E w1] inv
        by (simp add: json_array_insert_new_def)
    next
      case tm: (Some tm)
      obtain old moved where t: "tm = (old, moved)" by (cases tm)
      let ?T = "if moved then array_copy (array_copy (a_table a1) 0 old 0 index) (index + 1) old index (?n - index)
          else array_copy (a_table a1) (index + 1) (a_table a1) index (?n - index)"
      let ?d = "JArray (a1\<lparr>a_table := ?T[index := v], a_entries := ?n + 1\<rparr>)"
      have G: "a_entries a1 = ?n" "?n < a_size a1" "length (a_table a1) = a_size a1" "old = a_table a"
        "\<not> moved \<Longrightarrow> a1 = a"
        using g tm t c(4,5)
        by (auto simp: json_array_grow_def Let_def w_malloc_def split: if_splits prod.splits bool.splits)
      have take: "take (?n + 1) (?T[index := v]) = take index (a_table a) @ v # drop index (take ?n (a_table a))"
      proof (cases moved)
        case True
        let ?x = "array_copy (a_table a1) 0 old 0 index"
        have "length ?x = a_size a1" "take index ?x = take index (a_table a)"
          using G ok c(4,5) by (auto simp: array_copy_def)
        then show ?thesis using True G ok c(4,5) array_insert_table [of index ?n ?x old v] by simp
      next
        case False
        then show ?thesis using G ok c(4,5) array_insert_table [of index ?n "a_table a" "a_table a" v] by simp
      qed
      have "cell_refs ?d = cell_refs (j_data c) + {#v#}"
        using take c(2,4,5) ok mset_insert_nth [of index ?n "a_table a" v] by simp
      moreover have "data_wf (w_seed w) ?d"
        using G ok c(4,5) by (auto simp: array_copy_length)
      ultimately have "rc_inv {} E (set_data p ?d w)"
        using container_update [of "{#v#}" E w p c "[]" "cell_refs (j_data c)" ?d] inv c(1,3) p by simp
      moreover have "snd (json_array_insert_new (Some p) index (Some v) w) = set_data p ?d w1"
        using Some ok g tm t G(1) by (cases moved) (auto simp: json_array_insert_new_def Let_def array_move_def)
      ultimately show ?thesis using w1 by (simp add: set_data_mem)
    qed
  qed
qed

section \<open>Taking references and new cells\<close>

lemma json_incref_inv:
  assumes inv: "rc_inv {} E w" and p: "p \<in> dom (w_heap w)"
    and room: "p \<in> statics \<or> Suc (rc_of w p) < SIZE_MAX"
  shows "rc_inv {} (add_mset p E) (json_incref (Some p) w)"
proof -
  note I = rc_invD [OF inv]
  obtain c where c: "w_heap w p = Some c" using p by auto
  show ?thesis
  proof (cases "p \<in> statics")
    case True
    have "j_refcount c = SIZE_MAX" using I(4) True by (rule statics_cell) (use c in simp)
    then have eq: "json_incref (Some p) w = w" using c by (simp add: json_incref_def)
    show ?thesis unfolding eq
    proof (rule rc_invI)
      show "data_wf (w_seed w) (j_data c') \<and> j_refcount c' < SIZE_MAX \<and>
          j_refcount c' = count (add_mset p E) q + count (heap_refs {} w) q \<and> (q \<notin> {} \<longrightarrow> 0 < j_refcount c')"
        if "w_heap w q = Some c'" "q \<notin> statics" for q c'
        using I(5-7) [OF that] I(8) [OF that] that True by (cases "p = q") auto
    qed (use I p in auto)
  next
    case False
    let ?c = "c\<lparr>j_refcount := j_refcount c + 1\<rparr>"
    let ?w = "set_cell p ?c w"
    have "j_refcount c + 1 < 2 ^ 64" using room False c by (simp add: SIZE_MAX_def)
    then have eq: "json_incref (Some p) w = ?w"
      using c I(6) [OF c False] by (simp add: json_incref_def SIZE_MAX_def)
    have dom: "dom (w_heap ?w) = dom (w_heap w)" using c by auto
    have refs: "heap_refs {} ?w = heap_refs {} w" using dom c by (intro heap_refs_cong) auto
    show ?thesis unfolding eq
    proof (rule rc_invI)
      show "data_wf (w_seed ?w) (j_data c') \<and> j_refcount c' < SIZE_MAX \<and>
          j_refcount c' = count (add_mset p E) q + count (heap_refs {} ?w) q \<and> (q \<notin> {} \<longrightarrow> 0 < j_refcount c')"
        if c': "w_heap ?w q = Some c'" and q: "q \<notin> statics" for q c'
      proof (cases "q = p")
        case True
        then have "c' = ?c" using c' by simp
        then show ?thesis using True refs room False c I(5-7) [OF c False] by simp
      next
        case False
        then have h: "w_heap w q = Some c'" using c' by simp
        show ?thesis using I(5-7) [OF h q] I(8) [OF h q] False refs by simp
      qed
      show "statics_ok ?w" using I(4) False by (auto simp: statics_ok_def statics_def)
      show "set_mset (heap_refs {} ?w) \<subseteq> dom (w_heap ?w)" using refs I(10) dom by simp
      show "set_mset (add_mset p E) \<subseteq> dom (w_heap ?w)" using I(9) dom p by auto
    qed (use I c in auto)
  qed
qed

lemma json_init_inv:
  assumes inv: "rc_inv {} E w" and d: "cell_refs d = {#}" "data_wf (w_seed w) d"
    and i: "json_init d w = (p, w')"
  shows "rc_inv {} (add_mset p E) w'"
proof -
  note I = rc_invD [OF inv]
  have p: "p = w_brk w" and w': "w' = set_cell p \<lparr>j_refcount = 1, j_data = d\<rparr> (w\<lparr>w_brk := p + 1\<rparr>)"
    using i by (auto simp: json_init_def)
  have fresh: "p \<notin> dom (w_heap w)" using I(3) p by auto
  have ps: "p \<notin> statics" using fresh I(4) by (auto simp: statics_ok_def statics_def)
  have "heap_refs {} w' = cell_refs d + heap_refs {p} w'"
    using heap_refs_detach [of w' p "\<lparr>j_refcount = 1, j_data = d\<rparr>" "{}"] w' I(2) by simp
  moreover have "heap_refs {p} w' = heap_refs {} w"
  proof -
    have "dom (w_heap w') - {p} = dom (w_heap w) - {}" using w' fresh by auto
    then show ?thesis unfolding heap_refs_def using w' fresh by (intro sum.cong) auto
  qed
  ultimately have refs: "heap_refs {} w' = heap_refs {} w" using d(1) by simp
  have none: "count E p = 0" "count (heap_refs {} w) p = 0"
    using I(9,10) fresh by (auto simp: count_eq_zero_iff)
  show ?thesis
  proof (rule rc_invI)
    show "data_wf (w_seed w') (j_data c') \<and> j_refcount c' < SIZE_MAX \<and>
        j_refcount c' = count (add_mset p E) q + count (heap_refs {} w') q \<and> (q \<notin> {} \<longrightarrow> 0 < j_refcount c')"
      if c': "w_heap w' q = Some c'" and q: "q \<notin> statics" for q c'
    proof (cases "q = p")
      case True
      then have "c' = \<lparr>j_refcount = 1, j_data = d\<rparr>" using c' w' by simp
      then show ?thesis using True w' d none refs by (simp add: SIZE_MAX_def)
    next
      case False
      then have h: "w_heap w q = Some c'" using c' w' by simp
      show ?thesis using I(5-7) [OF h q] I(8) [OF h q] False refs w' by simp
    qed
    show "statics_ok w'" using I(4) ps w' by (auto simp: statics_ok_def statics_def)
    show "dom (w_heap w') \<subseteq> {1..<w_brk w'}"
    proof -
      have "w_heap w true_ptr \<noteq> None" using I(4) by (simp add: statics_ok_def)
      then have "true_ptr \<in> {1..<w_brk w}" using I(3) by blast
      then show ?thesis using I(3) w' p by auto
    qed
  qed (use I w' refs in auto)
qed

text \<open>The outside references after a constructor: one more if it succeeded.\<close>

definition plus_result :: "ptr option \<Rightarrow> ptr multiset \<Rightarrow> ptr multiset" where
  "plus_result r E = (case r of None \<Rightarrow> E | Some p \<Rightarrow> add_mset p E)"

lemma plus_result_simps [simp]: "plus_result None E = E" "plus_result (Some p) E = add_mset p E"
  by (simp_all add: plus_result_def)

lemma rc_inv_seed: "rc_inv D E w \<Longrightarrow> w_seed w = 0 \<Longrightarrow> rc_inv D E (w\<lparr>w_seed := s\<rparr>)"
proof -
  assume inv: "rc_inv D E w" and s: "w_seed w = 0"
  have wf: "data_wf s d" if "data_wf 0 d" for d using that by (cases d) auto
  have refs: "heap_refs D (w\<lparr>w_seed := s\<rparr>) = heap_refs D w" by (simp add: heap_refs_def)
  note I = rc_invD [OF inv]
  show ?thesis
  proof (rule rc_invI)
    show "data_wf (w_seed (w\<lparr>w_seed := s\<rparr>)) (j_data c) \<and> j_refcount c < SIZE_MAX \<and>
        j_refcount c = count E q + count (heap_refs D (w\<lparr>w_seed := s\<rparr>)) q \<and> (q \<notin> D \<longrightarrow> 0 < j_refcount c)"
      if "w_heap (w\<lparr>w_seed := s\<rparr>) q = Some c" "q \<notin> statics" for q c
      using I(5-8) [of q c] that refs wf s by simp
  qed (use I refs in \<open>auto simp: statics_ok_def\<close>)
qed

lemma json_object_inv:
  assumes inv: "rc_inv {} E w" and o: "json_object w = (r, w')"
  shows "rc_inv {} (plus_result r E) w'"
proof -
  obtain ok w1 where m: "w_malloc SIZEOF_JSON_OBJECT w = (ok, w1)" by (metis surj_pair)
  then have w1: "\<exists>m. w1 = w\<lparr>w_mem := m\<rparr>" by (auto simp: w_malloc_def split: prod.splits)
  let ?w2 = "w1\<lparr>w_seed := (if w_seed w1 = 0 then json_object_seed (w_env w1) 0 (w_seed w1) else w_seed w1)\<rparr>"
  have inv1: "rc_inv {} E w1" using inv w1 by auto
  have inv2: "rc_inv {} E ?w2"
    using inv1 rc_inv_seed [OF inv1] by (cases "w_seed w1 = 0") simp_all
  obtain t :: "ptr hashtable option" and mm where h: "hashtable_init (w_mem ?w2) = (t, mm)" by (metis surj_pair)
  show ?thesis
  proof (cases "ok \<and> t \<noteq> None")
    case True
    then obtain ht where t: "t = Some ht" by auto
    have rel: "ht_rel (w_seed ?w2) ht []" using hashtable_init_rel h t by blast
    obtain p w3 where i: "json_init (JObject ht) (?w2\<lparr>w_mem := mm\<rparr>) = (p, w3)" by (metis surj_pair)
    have "rc_inv {} E (?w2\<lparr>w_mem := mm\<rparr>)" using inv2 by simp
    moreover have "cell_refs (JObject ht) = {#}" using cell_refs_object [OF rel] by simp
    moreover have "data_wf (w_seed (?w2\<lparr>w_mem := mm\<rparr>)) (JObject ht)" using rel by auto
    ultimately have "rc_inv {} (add_mset p E) w3" using json_init_inv i by blast
    moreover have "r = Some p" "w' = w3" using o m True h t i by (auto simp: json_object_def Let_def)
    ultimately show ?thesis by (simp add: plus_result_def)
  next
    case False
    then have "r = None \<and> (w' = w1 \<or> w' = ?w2\<lparr>w_mem := mm\<rparr>)"
      using o m h by (cases ok) (auto simp: json_object_def Let_def)
    then show ?thesis using inv1 inv2 by (auto simp: plus_result_def)
  qed
qed

lemma w_malloc_inv: "w_malloc n w = (ok, w') \<Longrightarrow> rc_inv D E w' = rc_inv D E w"
  by (auto simp: w_malloc_def split: prod.splits)

lemma w_malloc_seed [simp]: "w_malloc n w = (ok, w') \<Longrightarrow> w_seed w' = w_seed w"
  by (auto simp: w_malloc_def split: prod.splits)

lemma alloc_cell_inv:
  assumes inv: "rc_inv {} E w" and d: "cell_refs d = {#}" "data_wf (w_seed w) d"
    and r: "(case w_malloc n w of (False, w1) \<Rightarrow> (None, w1)
       | (True, w1) \<Rightarrow> let (p, w2) = json_init d w1 in (Some p, w2)) = (r, w')"
  shows "rc_inv {} (plus_result r E) w'"
proof -
  obtain ok w1 where m: "w_malloc n w = (ok, w1)" by (metis surj_pair)
  have inv1: "rc_inv {} E w1" "w_seed w1 = w_seed w" using w_malloc_inv [OF m] m inv by auto
  obtain p w2 where i: "json_init d w1 = (p, w2)" by (metis surj_pair)
  show ?thesis
    using r m i inv1 json_init_inv [OF inv1(1) d(1) _ i] d(2)
    by (cases ok) (auto simp: plus_result_def)
qed

lemma json_integer_inv:
  "rc_inv {} E w \<Longrightarrow> json_integer i w = (r, w') \<Longrightarrow> rc_inv {} (plus_result r E) w'"
  unfolding json_integer_def by (rule alloc_cell_inv) auto

lemma json_real_inv:
  "rc_inv {} E w \<Longrightarrow> json_real x w = (r, w') \<Longrightarrow> rc_inv {} (plus_result r E) w'"
  using alloc_cell_inv [of E w "JReal x" SIZEOF_JSON_REAL r w']
  by (auto simp: json_real_def plus_result_def split: if_splits)

lemma json_array_inv:
  assumes inv: "rc_inv {} E w" and r: "json_array w = (r, w')"
  shows "rc_inv {} (plus_result r E) w'"
proof -
  obtain ok w1 where m: "w_malloc SIZEOF_JSON_ARRAY w = (ok, w1)" by (metis surj_pair)
  have inv1: "rc_inv {} E w1" using w_malloc_inv [OF m] inv by simp
  show ?thesis
    using r m inv1 alloc_cell_inv [OF inv1, of "JArray \<lparr>a_size = 8, a_entries = 0, a_table = replicate 8 0\<rparr>"
        "8 * SIZEOF_POINTER" r w']
    by (cases ok) (auto simp: json_array_def plus_result_def Let_def)
qed

lemma string_create_inv:
  assumes inv: "rc_inv {} E w" and r: "string_create s len own w = (r, w')"
  shows "rc_inv {} (plus_result r E) w'"
proof (cases s)
  case None
  then show ?thesis using inv r by (simp add: string_create_def plus_result_def)
next
  case (Some bytes)
  let ?c = "if own then (Some (take len bytes), w)
    else case jsonp_strndup bytes len (w_mem w) of (d, m) \<Rightarrow> (d, w\<lparr>w_mem := m\<rparr>)"
  obtain v w1 where c: "?c = (v, w1)" by (metis surj_pair)
  then have inv1: "rc_inv {} E w1" using inv by (auto split: if_splits prod.splits)
  show ?thesis
  proof (cases v)
    case None
    then show ?thesis using inv1 r c Some by (simp add: string_create_def plus_result_def)
  next
    case (Some t)
    then show ?thesis using alloc_cell_inv [OF inv1, of "JString t" SIZEOF_JSON_STRING r w'] r c \<open>s = Some bytes\<close>
      by (simp add: string_create_def)
  qed
qed

lemma json_string_inv:
  assumes "rc_inv {} E w" "json_string s w = (r, w')"
  shows "rc_inv {} (plus_result r E) w'"
  using assms string_create_inv [OF assms(1), of s "length (the s)" False r w']
  by (cases s) (auto simp: json_string_def json_stringn_def json_stringn_nocheck_def split: if_splits)

section \<open>Programs that respect ownership\<close>

text \<open>
  A client state is the multiset of the references the client owns and the heap.  The
  steps are the calls of the library: a constructor gives a reference to the client,
  \<^verbatim>\<open>json_incref\<close> one more, \<^verbatim>\<open>json_decref\<close> and the \<^verbatim>\<open>_new\<close> setters take one away.  The
  client owns the containers it modifies.
\<close>

inductive api_step :: "ptr multiset \<times> world \<Rightarrow> ptr multiset \<times> world \<Rightarrow> bool" where
  new_object: "json_object w = (r, w') \<Longrightarrow> api_step (E, w) (plus_result r E, w')"
| new_array: "json_array w = (r, w') \<Longrightarrow> api_step (E, w) (plus_result r E, w')"
| new_string: "json_string s w = (r, w') \<Longrightarrow> api_step (E, w) (plus_result r E, w')"
| new_integer: "json_integer i w = (r, w') \<Longrightarrow> api_step (E, w) (plus_result r E, w')"
| new_real: "json_real x w = (r, w') \<Longrightarrow> api_step (E, w) (plus_result r E, w')"
| incref: "p \<in> dom (w_heap w) \<Longrightarrow> p \<in> statics \<or> Suc (rc_of w p) < SIZE_MAX \<Longrightarrow>
    api_step (E, w) (add_mset p E, json_incref (Some p) w)"
| decref: "api_step (add_mset p E, w) (E, json_decref (Some p) w)"
| object_set: "p \<in># E \<Longrightarrow> json_object_size w (Some p) < 2 ^ 31 \<Longrightarrow>
    api_step (add_mset v E, w) (E, snd (json_object_set_new (Some p) key (Some v) w))"
| object_del: "p \<in># E \<Longrightarrow> api_step (E, w) (E, snd (json_object_del (Some p) key w))"
| object_clear: "p \<in># E \<Longrightarrow> api_step (E, w) (E, snd (json_object_clear (Some p) w))"
| array_set: "p \<in># E \<Longrightarrow>
    api_step (add_mset v E, w) (E, snd (json_array_set_new (Some p) index (Some v) w))"
| array_append: "p \<in># E \<Longrightarrow> api_step (add_mset v E, w) (E, snd (json_array_append_new (Some p) (Some v) w))"
| array_insert: "p \<in># E \<Longrightarrow>
    api_step (add_mset v E, w) (E, snd (json_array_insert_new (Some p) index (Some v) w))"
| array_remove: "p \<in># E \<Longrightarrow> api_step (E, w) (E, snd (json_array_remove (Some p) index w))"
| array_clear: "p \<in># E \<Longrightarrow> api_step (E, w) (E, snd (json_array_clear (Some p) w))"

inductive api_run :: "ptr multiset \<times> world \<Rightarrow> ptr multiset \<times> world \<Rightarrow> bool" where
  run_start: "api_run s s"
| run_step: "api_run s s' \<Longrightarrow> api_step s' s'' \<Longrightarrow> api_run s s''"

lemma api_step_inv: "api_step s s' \<Longrightarrow> rc_inv {} (fst s) (snd s) \<Longrightarrow> rc_inv {} (fst s') (snd s')"
  by (induction rule: api_step.induct)
    (simp_all add: json_object_inv json_array_inv json_string_inv json_integer_inv json_real_inv
      json_incref_inv json_decref_inv json_object_set_new_inv json_object_del_inv json_object_clear_inv
      json_array_set_new_inv json_array_append_new_inv json_array_insert_new_inv json_array_remove_inv
      json_array_clear_inv)

lemma api_run_inv: "api_run s s' \<Longrightarrow> rc_inv {} (fst s) (snd s) \<Longrightarrow> rc_inv {} (fst s') (snd s')"
  by (induction rule: api_run.induct) (auto intro: api_step_inv)

lemma initial_world_inv: "rc_inv {} {#} (initial_world m env)"
proof (rule rc_invI)
  let ?w = "initial_world m env"
  have refs: "heap_refs {} ?w = {#}"
    unfolding heap_refs_def by (rule sum.neutral) (auto simp: initial_world_def split: if_splits)
  show "set_mset (heap_refs {} ?w) \<subseteq> dom (w_heap ?w)" using refs by simp
  show "data_wf (w_seed ?w) (j_data c) \<and> j_refcount c < SIZE_MAX \<and>
      j_refcount c = count {#} q + count (heap_refs {} ?w) q \<and> (q \<notin> {} \<longrightarrow> 0 < j_refcount c)"
    if "w_heap ?w q = Some c" "q \<notin> statics" for q c
    using that by (auto simp: initial_world_def statics_def split: if_splits)
qed (auto simp: initial_world_def statics_ok_def true_ptr_def false_ptr_def null_ptr_def split: if_splits)

text \<open>A value is freed exactly when its last reference is given up.\<close>

lemma json_decref_frees:
  assumes inv: "rc_inv {} (add_mset p E) w" and p: "p \<notin> statics"
  shows "w_heap (json_decref (Some p) w) p = None \<longleftrightarrow> rc_of w p = 1"
proof -
  have d: "rc_inv {} E (decref_ptr p w)" "shrinks w (decref_ptr p w)"
    using decref_ptr_inv_gen [OF inv] by auto
  obtain c where c: "w_heap w p = Some c" using rc_invD(9) [OF inv] by auto
  have rc: "j_refcount c = Suc (count E p + count (heap_refs {} w) p)" using rc_invD(7) [OF inv c p] by simp
  show ?thesis
  proof
    assume one: "rc_of w p = 1"
    show "w_heap (json_decref (Some p) w) p = None"
    proof (rule ccontr)
      assume "w_heap (json_decref (Some p) w) p \<noteq> None"
      then obtain c' where c': "w_heap (decref_ptr p w) p = Some c'" by (auto simp: json_decref_def)
      have "count E p = 0" "count (heap_refs {} w) p = 0" using one rc c by auto
      then have "count (heap_refs {} (decref_ptr p w)) p = 0"
        using shrinks_count_0 [OF d(2) rc_invD(2) [OF inv]] by simp
      then have "j_refcount c' = 0" using rc_invD(7) [OF d(1) c' p] \<open>count E p = 0\<close> by simp
      then show False using rc_invD(8) [OF d(1) c' p] by simp
    qed
  next
    assume none: "w_heap (json_decref (Some p) w) p = None"
    show "rc_of w p = 1"
    proof (rule ccontr)
      assume "rc_of w p \<noteq> 1"
      then have "j_refcount c - 1 \<noteq> 0" using rc c by auto
      moreover have "j_refcount c \<noteq> SIZE_MAX" "(j_refcount c + SIZE_MAX) mod 2 ^ 64 = j_refcount c - 1"
        using rc_invD(6) [OF inv c p] rc_dec [of "j_refcount c"] rc by auto
      ultimately have "decref_ptr p w = set_cell p (c\<lparr>j_refcount := j_refcount c - 1\<rparr>) w"
        unfolding decref_ptr_def Suc_eq_plus1 [symmetric] json_decref_n.simps c by simp
      then have "w_heap (decref_ptr p w) p \<noteq> None" by simp
      then show False using none by (simp add: json_decref_def)
    qed
  qed
qed

text \<open>No leaks: without outside references an acyclic heap holds the three constants only.\<close>

lemma no_leak:
  assumes inv: "rc_inv {} {#} w"
    and acyclic: "\<And>p c q. w_heap w p = Some c \<Longrightarrow> q \<in># cell_refs (j_data c) \<Longrightarrow> (rank q :: nat) < rank p"
  shows "dom (w_heap w) = statics"
proof (rule ccontr)
  assume "dom (w_heap w) \<noteq> statics"
  moreover have "statics \<subseteq> dom (w_heap w)" using rc_invD(4) [OF inv] by (auto simp: statics_ok_def statics_def)
  ultimately have ne: "dom (w_heap w) - statics \<noteq> {}" by auto
  have fin: "finite (dom (w_heap w) - statics)" using rc_invD(2) [OF inv] by simp
  let ?S = "dom (w_heap w) - statics"
  have "Max (rank ` ?S) \<in> rank ` ?S" using fin ne by (intro Max_in) auto
  then obtain p where max: "p \<in> ?S" "rank p = Max (rank ` ?S)" by (metis imageE)
  then have p: "p \<in> ?S" "\<And>q. q \<in> ?S \<Longrightarrow> rank q \<le> rank p" using fin by auto
  then obtain c where c: "w_heap w p = Some c" by auto
  have "0 < count (heap_refs {} w) p" using rc_invD(7,8) [OF inv c] p(1) by auto
  then have "p \<in># heap_refs {} w" by (simp add: count_greater_zero_iff)
  then obtain q where q: "q \<in> dom (w_heap w)" "p \<in># cell_refs (j_data (the (w_heap w q)))"
    using rc_invD(2) [OF inv] by (auto simp: heap_refs_def set_mset_sum)
  then obtain cq where cq: "w_heap w q = Some cq" by auto
  then have "q \<notin> statics" using q(2) rc_invD(4) [OF inv] statics_cell [of w q] by (metis empty_iff option.sel set_mset_empty)
  then have "rank q \<le> rank p" using p(2) q(1) by simp
  moreover have "rank p < rank q" using acyclic [OF cq] q(2) cq by simp
  ultimately show False by simp
qed

section \<open>Properties of the heap\<close>

lemma run_inv: "api_run ({#}, initial_world m env) (E, w) \<Longrightarrow> rc_inv {} E w"
  using api_run_inv initial_world_inv by fastforce

lemma heap_refs_none:
  "finite (dom (w_heap w)) \<Longrightarrow>
     count (heap_refs {} w) p = 0 \<longleftrightarrow> (\<nexists>q c. w_heap w q = Some c \<and> p \<in># cell_refs (j_data c))"
  by (force simp: heap_refs_def count_eq_zero_iff set_mset_sum)

text \<open>An operating system without a random device, for the examples.\<close>

definition plain_env :: seed_env where
  "plain_env = \<lparr>env_urandom_opens = False, env_urandom_read = [], env_tv_sec = 1, env_tv_usec = 2, env_pid = 3\<rparr>"

definition one_integer :: world where
  "one_integer = set_cell 4 \<lparr>j_refcount = 1, j_data = JInteger 5\<rparr> ((initial_world mem_ok plain_env)\<lparr>w_brk := 5\<rparr>)"

lemma one_integer_cell: "w_heap one_integer 4 = Some \<lparr>j_refcount = 1, j_data = JInteger 5\<rparr>"
  by (simp add: one_integer_def)

lemma four_not_static: "4 \<notin> statics"
  by (simp add: statics_def true_ptr_def false_ptr_def null_ptr_def)

lemma one_integer_refs: "w_heap one_integer q = Some c \<Longrightarrow> cell_refs (j_data c) = {#}"
  by (auto simp: one_integer_def initial_world_def set_cell_def split: if_splits)

lemma one_integer_run: "api_run ({#}, initial_world mem_ok plain_env) ({#4#}, one_integer)"
proof -
  have "json_integer 5 (initial_world mem_ok plain_env) = (Some 4, one_integer)"
    by (simp add: json_integer_def w_malloc_def SIZEOF_JSON_INTEGER_def initial_world_def json_init_def
        set_cell_def one_integer_def)
  from run_step [OF run_start new_integer [OF this, of "{#}"]] show ?thesis by simp
qed

lemma one_integer_freed: "api_run ({#}, initial_world mem_ok plain_env) ({#}, json_decref (Some 4) one_integer)"
  using run_step [OF one_integer_run decref] by simp

text \<open>
  C1: reference counts are exact, and there is no use after free.  In every state a client
  reaches from the start of the program through the calls of the library, whichever
  allocations fail, no freed cell was ever touched, the references of the client and of the
  containers all lead to live values, and the count of each value is the number of
  references the client owns plus the number of references held by containers, and is
  positive.
\<close>

theorem reference_counts_exact:
  assumes "api_run ({#}, initial_world m env) (E, w)"
  shows "\<not> w_fault w \<and> set_mset (E + heap_refs {} w) \<subseteq> dom (w_heap w) \<and>
    (\<forall>p c. w_heap w p = Some c \<longrightarrow> p \<notin> statics \<longrightarrow>
       0 < j_refcount c \<and> j_refcount c = count E p + count (heap_refs {} w) p)"
  using rc_invD [OF run_inv [OF assms]] by auto

theorem reference_counts_exact_witness:
  "api_run ({#}, initial_world mem_ok plain_env) ({#4#}, one_integer) \<and> \<not> w_fault one_integer \<and>
     rc_of one_integer 4 = count {#4 :: ptr#} 4 + count (heap_refs {} one_integer) 4"
proof -
  note exact = reference_counts_exact [OF one_integer_run]
  have "rc_of one_integer 4 = count {#4 :: ptr#} 4 + count (heap_refs {} one_integer) 4"
    using conjunct2 [OF conjunct2 [OF exact], rule_format, OF one_integer_cell four_not_static] one_integer_cell
    by (simp only: option.sel)
  then show ?thesis using conjunct1 [OF exact] one_integer_run by (intro conjI) assumption+
qed

text \<open>
  C19: a value is freed exactly when its last reference goes.  \<^verbatim>\<open>json_decref\<close> of a reference
  the client owns removes the value from the heap if and only if the client owns no other
  reference to it and no container holds one.
\<close>

theorem decref_frees_last_reference:
  assumes "api_run ({#}, initial_world m env) (add_mset p E, w)" "p \<notin> statics"
  shows "w_heap (json_decref (Some p) w) p = None \<longleftrightarrow>
    p \<notin># E \<and> (\<nexists>q c. w_heap w q = Some c \<and> p \<in># cell_refs (j_data c))"
proof -
  note inv = run_inv [OF assms(1)]
  obtain c where c: "w_heap w p = Some c" using rc_invD(9) [OF inv] by auto
  have "rc_of w p = Suc (count E p + count (heap_refs {} w) p)" using rc_invD(7) [OF inv c assms(2)] c by simp
  then show ?thesis
    using json_decref_frees [OF inv assms(2)] heap_refs_none [OF rc_invD(2) [OF inv], of p]
    by (simp add: not_in_iff)
qed

theorem decref_frees_last_reference_witness:
  "api_run ({#}, initial_world mem_ok plain_env) ({#4#}, one_integer) \<and> 4 \<notin> statics \<and>
     w_heap one_integer 4 \<noteq> None \<and> w_heap (json_decref (Some 4) one_integer) 4 = None"
proof -
  have "w_heap (json_decref (Some 4) one_integer) 4 = None"
    unfolding decref_frees_last_reference [OF one_integer_run four_not_static] using one_integer_refs by fastforce
  then show ?thesis using one_integer_run one_integer_cell four_not_static by simp
qed

text \<open>
  C21: nothing leaks.  When a client has given back all its references and no containers
  form a cycle (each reference leads to a value of smaller rank), the heap holds the three
  constants of the library and nothing else.
\<close>

theorem all_released_no_leak:
  assumes "api_run ({#}, initial_world m env) ({#}, w)"
    and "\<And>p c q. w_heap w p = Some c \<Longrightarrow> q \<in># cell_refs (j_data c) \<Longrightarrow> (rank q :: nat) < rank p"
  shows "dom (w_heap w) = statics"
  using no_leak [OF run_inv [OF assms(1)]] assms(2) by blast

theorem all_released_no_leak_witness:
  "api_run ({#}, initial_world mem_ok plain_env) ({#}, json_decref (Some 4) one_integer) \<and>
     dom (w_heap (json_decref (Some 4) one_integer)) = statics"
proof -
  have "shrinks one_integer (json_decref (Some 4) one_integer)"
    using decref_ptr_inv_gen [OF run_inv [OF one_integer_run]] by (simp add: json_decref_def)
  then have "cell_refs (j_data c) = {#}" if "w_heap (json_decref (Some 4) one_integer) p = Some c" for p c
    using that one_integer_refs unfolding shrinks_def by (metis option.sel)
  then have "dom (w_heap (json_decref (Some 4) one_integer)) = statics"
    by (intro all_released_no_leak [OF one_integer_freed, of id]) simp
  then show ?thesis using one_integer_freed by blast
qed

end
