(* ===== verification/Json_Lex.thy ===== *)
theory Json_Lex
  imports Json_Load Json_Refcount
begin

text \<open>
  The lexical analyser of \<^verbatim>\<open>load.c\<close> on an input that ends.  A source of bytes is an interface
  (locale \<^verbatim>\<open>byte_source\<close>): the bytes it still delivers, one per call, then \<^verbatim>\<open>EOF\<close> for ever.
  The theory describes one call of \<^verbatim>\<open>stream_get\<close> exactly, shows that the lexer only touches its
  own state and the allocator, that putting a character back is always possible after reading
  it, that every token other than the end and an error takes at least one byte, and that a
  bound above the number of bytes left is enough for all its loops.
\<close>

section \<open>Sources of bytes\<close>

locale byte_source =
  fixes get :: "'d \<Rightarrow> int \<times> 'd" and bytes :: "'d \<Rightarrow> byte list"
  assumes get_end: "bytes d = [] \<Longrightarrow> fst (get d) = -1 \<and> bytes (snd (get d)) = []"
    and get_byte: "bytes d = b # bs \<Longrightarrow> fst (get d) = uint b \<and> bytes (snd (get d)) = bs"

definition held :: "'d stream_t \<Rightarrow> byte list" where
  "held st = c_string (drop (st_buffer_pos st) (st_buffer st))"

definition buffer_ok :: "'d stream_t \<Rightarrow> bool" where
  "buffer_ok st \<longleftrightarrow> length (st_buffer st) = 5 \<and> st_buffer_pos st < 5 \<and>
     0 \<in> set (drop (st_buffer_pos st) (st_buffer st)) \<and> 254 \<notin> set (st_buffer st) \<and> 255 \<notin> set (st_buffer st)"

lemma sint_byte_special: "sint (b::byte) = -1 \<longleftrightarrow> b = 255" "sint (b::byte) = -2 \<longleftrightarrow> b = 254"
proof -
  have "to_byte (-1) = 255" "to_byte (-2) = 254" by (simp_all add: to_byte_def)
  then have "sint b = -1 \<Longrightarrow> b = 255" "sint b = -2 \<Longrightarrow> b = 254" using to_byte_sint [of b] by metis+
  then show "sint b = -1 \<longleftrightarrow> b = 255" "sint b = -2 \<longleftrightarrow> b = 254" by auto
qed

lemma uint_byte_not_neg: "uint (b::byte) \<noteq> -1" by (metis uint_ge_0 not_one_le_zero neg_0_le_iff_le zero_le_one order_trans zero_neq_one order_antisym neg_equal_0_iff_equal)

lemma held_nth:
  assumes "buffer_ok st" "st_buffer st ! st_buffer_pos st \<noteq> 0"
  shows "held st = st_buffer st ! st_buffer_pos st # held (st\<lparr>st_buffer_pos := st_buffer_pos st + 1\<rparr>)"
    and "buffer_ok (st\<lparr>st_buffer_pos := st_buffer_pos st + 1\<rparr>)"
proof -
  have d: "drop (st_buffer_pos st) (st_buffer st) = st_buffer st ! st_buffer_pos st # drop (Suc (st_buffer_pos st)) (st_buffer st)"
    using assms(1) by (intro Cons_nth_drop_Suc [symmetric]) (simp add: buffer_ok_def)
  show "held st = st_buffer st ! st_buffer_pos st # held (st\<lparr>st_buffer_pos := st_buffer_pos st + 1\<rparr>)"
    using d assms(2) by (simp add: held_def c_string_def)
  have "0 \<in> set (drop (Suc (st_buffer_pos st)) (st_buffer st))" using d assms by (auto simp: buffer_ok_def)
  moreover then have "Suc (st_buffer_pos st) < 5" using assms(1) by (cases "Suc (st_buffer_pos st) < 5") (auto simp: buffer_ok_def)
  ultimately show "buffer_ok (st\<lparr>st_buffer_pos := st_buffer_pos st + 1\<rparr>)" using assms(1) by (simp add: buffer_ok_def)
qed

lemma held_empty:
  assumes "buffer_ok st" shows "held st = [] \<longleftrightarrow> st_buffer st ! st_buffer_pos st = 0"
proof -
  have "drop (st_buffer_pos st) (st_buffer st) = st_buffer st ! st_buffer_pos st # drop (Suc (st_buffer_pos st)) (st_buffer st)"
    using assms by (intro Cons_nth_drop_Suc [symmetric]) (simp add: buffer_ok_def)
  then show ?thesis by (simp add: held_def c_string_def)
qed


section \<open>Reading a code point\<close>

lemma check_full_loop_range:
  "utf8_check_full_loop bs v = Some w \<Longrightarrow> b \<in> set bs \<Longrightarrow> 0x80 \<le> uint b \<and> uint b \<le> 0xBF"
  by (induction bs v rule: utf8_check_full_loop.induct) (auto simp: Let_def split: if_splits)

lemma utf8_check_full_range:
  "utf8_check_full buf n = Some v \<Longrightarrow> b \<in> set (drop 1 (take n buf)) \<Longrightarrow> 0x80 \<le> uint b \<and> uint b \<le> 0xBF"
  by (auto simp: utf8_check_full_def Let_def split: if_splits option.splits dest: check_full_loop_range)

lemma utf8_check_full_take: "0 < n \<Longrightarrow> utf8_check_full (take n buf) n = utf8_check_full buf n"
proof -
  assume "0 < n"
  then have "take n (take n buf) = take n buf" "take n buf ! 0 = buf ! 0" by simp_all
  then show ?thesis by (simp only: utf8_check_full_def)
qed

lemma high_byte: "0x80 \<le> uint (b::byte) \<Longrightarrow> uint b \<le> 0xF4 \<Longrightarrow> b \<noteq> 0 \<and> b \<noteq> 254 \<and> b \<noteq> 255"
  by auto

definition ahead :: "('d \<Rightarrow> byte list) \<Rightarrow> 'd stream_t \<Rightarrow> byte list" where
  "ahead bytes st = (if st_state st = STREAM_STATE_OK then held st @ bytes (st_data st) else [])"

definition stream_ok :: "('d \<Rightarrow> int \<times> 'd) \<Rightarrow> 'd stream_t \<Rightarrow> bool" where
  "stream_ok get st \<longleftrightarrow> st_get st = get \<and> st_state st \<in> {STREAM_STATE_OK, STREAM_STATE_EOF, STREAM_STATE_ERROR} \<and>
     (st_state st = STREAM_STATE_OK \<longrightarrow> buffer_ok st)"

definition weight :: "('d \<Rightarrow> byte list) \<Rightarrow> 'd stream_t \<Rightarrow> nat" where
  "weight bytes st = length (ahead bytes st) + (if st_state st = STREAM_STATE_OK then 1 else 0)"

lemma check_first_4: "utf8_check_first b \<le> 4" using check_first_range [of b] by auto

lemma check_full_high:
  assumes "utf8_check_full (b # bs) n = Some v" "utf8_check_first b = n" "x \<in> set (take n (b # bs))"
  shows "x \<noteq> 0 \<and> x \<noteq> 254 \<and> x \<noteq> 255"
proof -
  have n: "n \<noteq> 0" "n \<noteq> 1" using assms(1) by (auto simp: utf8_check_full_alt split: if_splits)
  have "0x80 \<le> uint x \<and> uint x \<le> 0xF4"
  proof (cases "x = b")
    case True
    then show ?thesis using assms(2) n by (auto simp: utf8_check_first_def Let_def split: if_splits)
  next
    case False
    then have "x \<in> set (drop 1 (take n (b # bs)))" using assms(3) by (cases n) auto
    then show ?thesis using utf8_check_full_range [OF assms(1)] by force
  qed
  then show ?thesis using high_byte by blast
qed

lemma take_byte:
  assumes "buffer_ok st" "b = st_buffer st ! st_buffer_pos st" "buffer_ok (st\<lparr>st_buffer_pos := st_buffer_pos st + 1\<rparr>)"
  shows "\<exists>st'. stream_take st = (sint b, st') \<and> st_get st' = st_get st \<and> st_data st' = st_data st \<and> st_state st' = st_state st \<and>
     st_buffer st' = st_buffer st \<and> st_buffer_pos st' = st_buffer_pos st + 1 \<and> buffer_ok st' \<and>
     held st' = held (st\<lparr>st_buffer_pos := st_buffer_pos st + 1\<rparr>)"
  using assms by (auto simp: stream_take_def Let_def held_def buffer_ok_def)

context byte_source
begin

lemma stream_fill_buffer:
  assumes "st_get st = get" "i + k \<le> length (st_buffer st)"
  shows "\<exists>d. stream_fill i k st = st\<lparr>st_data := d, st_buffer := take i (st_buffer st) @
      take k (bytes (st_data st) @ replicate k 255) @ drop (i + k) (st_buffer st)\<rparr> \<and> bytes d = drop k (bytes (st_data st))"
  using assms
proof (induction k arbitrary: i st)
  case (Suc k)
  let ?buf = "st_buffer st" and ?bs = "bytes (st_data st)"
  obtain c d where g: "get (st_data st) = (c, d)" by fastforce
  have cd: "to_byte c = hd (?bs @ [255]) \<and> bytes d = tl ?bs"
    using get_end [of "st_data st"] get_byte [of "st_data st"] g by (cases ?bs) (auto simp: to_byte_def)
  let ?st = "st\<lparr>st_data := d, st_buffer := ?buf[i := to_byte c]\<rparr>"
  obtain d' where IH: "stream_fill (i + 1) k ?st = ?st\<lparr>st_data := d', st_buffer := take (i + 1) (st_buffer ?st) @
      take k (bytes (st_data ?st) @ replicate k 255) @ drop (i + 1 + k) (st_buffer ?st)\<rparr>" "bytes d' = drop k (bytes (st_data ?st))"
    using Suc.IH [of ?st "i + 1"] Suc.prems by auto
  have "take (i + 1) (?buf[i := to_byte c]) = take i ?buf @ [to_byte c]"
    using Suc.prems by (simp add: take_Suc_conv_app_nth)
  moreover have "to_byte c # take k (tl ?bs @ replicate k 255) = take (Suc k) (?bs @ replicate (Suc k) 255)"
    using cd by (cases ?bs) (auto simp: replicate_append_same [symmetric])
  moreover have "drop (i + 1 + k) (?buf[i := to_byte c]) = drop (i + Suc k) ?buf" by simp
  ultimately show ?case using g Suc.prems IH cd by (intro exI [of _ d']) (simp add: drop_Suc del: take_append drop_append)
next
  case 0
  then show ?case by (intro exI [of _ "st_data st"]) simp
qed

lemma stream_refill_end:
  assumes "st_get st = get" "bytes (st_data st) = []"
  shows "\<exists>d. stream_refill st = (Refill_EOF, st\<lparr>st_data := d, st_state := STREAM_STATE_EOF\<rparr>) \<and> bytes d = []"
  using get_end [OF assms(2)] assms(1)
  by (auto simp: stream_refill_def Let_def split: prod.splits)

lemma stream_refill_byte:
  assumes "st_get st = get" "length (st_buffer st) = 5" "bytes (st_data st) = b # bs"
  defines "cnt \<equiv> utf8_check_first b"
  defines "buf \<equiv> b # take (cnt - 1) (bs @ replicate (cnt - 1) 255) @ drop cnt (st_buffer st)"
  shows "\<exists>d. bytes d = drop (cnt - 1) bs \<and> stream_refill st =
     (if cnt = 0 then (Refill_Bad (uint b), st\<lparr>st_data := d, st_buffer := (st_buffer st)[0 := b], st_buffer_pos := 0\<rparr>)
      else if 1 < cnt \<and> utf8_check_full buf cnt = None
        then (Refill_Bad (uint b), st\<lparr>st_data := d, st_buffer := buf, st_buffer_pos := 0\<rparr>)
      else (Refill_OK, st\<lparr>st_data := d, st_buffer := buf[cnt := 0], st_buffer_pos := 0\<rparr>))"
proof -
  obtain d where g: "get (st_data st) = (uint b, d)" "bytes d = bs" using get_byte [OF assms(3)] by (metis prod.collapse)
  let ?st2 = "st\<lparr>st_data := d, st_buffer := (st_buffer st)[0 := b], st_buffer_pos := 0\<rparr>"
  have range: "cnt = 0 \<or> cnt = 1 \<or> cnt = 2 \<or> cnt = 3 \<or> cnt = 4"
    using check_first_range [of b] by (simp add: cnt_def)
  have ascii: "cnt = 1 \<longleftrightarrow> uint b < 0x80" by (simp add: cnt_def utf8_check_first_def Let_def)
  obtain x xs where buf0: "st_buffer st = x # xs" "length xs = 4" using assms(2) by (cases "st_buffer st") auto
  consider (zero) "cnt = 0" | (one) "cnt = 1" | (more) "1 < cnt" by linarith
  then show ?thesis
  proof cases
    case zero
    then show ?thesis using g assms(1) ascii uint_byte_range(2) [of b]
      by (intro exI [of _ d]) (auto simp: stream_refill_def Let_def cnt_def [symmetric] not_less linorder_not_le [symmetric])
  next
    case one
    then show ?thesis using g assms(1) ascii buf0
      by (intro exI [of _ d]) (simp add: stream_refill_def Let_def buf_def uint_byte_not_neg)
  next
    case more
    have "1 + (cnt - 1) \<le> length (st_buffer ?st2)" using range assms(2) by auto
    from stream_fill_buffer [of ?st2, OF _ this] assms(1) g(2) obtain d' where
      d': "stream_fill 1 (cnt - 1) ?st2 = ?st2\<lparr>st_data := d', st_buffer := buf\<rparr>" "bytes d' = drop (cnt - 1) bs"
      using more buf0 by (cases cnt) (auto simp: buf_def)
    have "\<not> uint b < 0x80" using ascii more by simp
    then show ?thesis using g assms(1) more d' uint_byte_range(2) [of b]
      by (intro exI [of _ d']) (simp add: stream_refill_def Let_def cnt_def [symmetric] uint_byte_not_neg linorder_not_le [symmetric])
  qed
qed

lemma refill_cases:
  assumes inv: "buffer_ok st" "st_get st = get" "bytes (st_data st) = b # bs"
  obtains (bad) st' where "stream_refill st = (Refill_Bad (uint b), st')" "st_get st' = get" "\<not> utf8_check_string (b # bs)"
  | (ok) st' n where "stream_refill st = (Refill_OK, st')" "st_get st' = get" "st_state st' = st_state st"
      "0 < n" "bytes (st_data st') = drop n (b # bs)" "buffer_ok st'" "st_buffer_pos st' = 0" "st_buffer st' ! 0 = b"
      "buffer_ok (st'\<lparr>st_buffer_pos := 1\<rparr>)" "held (st'\<lparr>st_buffer_pos := 1\<rparr>) @ drop n (b # bs) = bs"
      "utf8_check_string (b # bs) \<Longrightarrow> utf8_check_string (drop n (b # bs))"
proof -
  let ?n = "utf8_check_first b" and ?all = "b # bs"
  let ?buf = "b # take (?n - 1) (bs @ replicate (?n - 1) 255) @ drop ?n (st_buffer st)"
  have len: "length (st_buffer st) = 5" using inv by (simp add: buffer_ok_def)
  from stream_refill_byte [OF inv(2) len inv(3)] obtain d where d: "bytes d = drop (?n - 1) bs" "stream_refill st =
     (if ?n = 0 then (Refill_Bad (uint b), st\<lparr>st_data := d, st_buffer := (st_buffer st)[0 := b], st_buffer_pos := 0\<rparr>)
      else if 1 < ?n \<and> utf8_check_full ?buf ?n = None
        then (Refill_Bad (uint b), st\<lparr>st_data := d, st_buffer := ?buf, st_buffer_pos := 0\<rparr>)
      else (Refill_OK, st\<lparr>st_data := d, st_buffer := ?buf[?n := 0], st_buffer_pos := 0\<rparr>))" by blast
  have cs: "utf8_check_string ?all = (if ?n = 0 then False else if 1 < ?n then
      (if ?n > length ?all then False else if utf8_check_full ?all ?n = None then False else utf8_check_string (drop ?n ?all))
      else utf8_check_string (drop 1 ?all))"
    by (subst utf8_check_string.simps) (simp add: Let_def)
  have short: "utf8_check_full ?buf ?n = None" if "1 < ?n" "?n > length ?all"
  proof (rule ccontr)
    assume "utf8_check_full ?buf ?n \<noteq> None"
    then obtain v where v: "utf8_check_full ?buf ?n = Some v" by auto
    have "255 \<in> set (take ?n ?buf)" using that by (cases ?n) (auto simp: take_Cons')
    with check_full_high [OF v refl] show False by blast
  qed
  have long: "take ?n ?buf = take ?n ?all" if "0 < ?n" "?n \<le> length ?all" using that by (cases ?n) auto
  then have full: "utf8_check_full ?buf ?n = utf8_check_full ?all ?n" if "0 < ?n" "?n \<le> length ?all"
    using that utf8_check_full_take by metis
  show thesis
  proof (cases "?n = 0 \<or> 1 < ?n \<and> utf8_check_full ?buf ?n = None")
    case True
    then have "\<not> utf8_check_string ?all" using cs full by auto
    then show ?thesis using True d(2) inv(2) by (intro bad [of "snd (stream_refill st)"]) auto
  next
    case False
    have n: "0 < ?n" using False by simp
    have n2: "?n \<le> length ?all"
    proof (rule ccontr)
      assume "\<not> ?n \<le> length ?all"
      then have "1 < ?n" "?n > length ?all" by simp_all
      with short False show False by blast
    qed
    note n = n n2
    have lb: "length ?buf = 5" "?n \<le> 4" using n len check_first_4 [of b] by auto
    define buf tl where "buf = ?buf[?n := 0]" and "tl = drop (Suc ?n) ?buf"
    let ?st = "st\<lparr>st_data := d, st_buffer := buf, st_buffer_pos := 0\<rparr>"
    have split: "buf = take ?n ?all @ 0 # tl" unfolding buf_def tl_def
      using upd_conv_take_nth_drop [of ?n ?buf 0] long [OF n] lb by simp
    have five: "length buf = 5" unfolding buf_def using lb(1) by (simp only: length_list_update)
    have special: "x \<noteq> 254 \<and> x \<noteq> 255" if "x \<in> set (take ?n ?all)" for x
    proof (cases "1 < ?n")
      case True
      then obtain v where "utf8_check_full ?all ?n = Some v" using False full n by auto
      from check_full_high [OF this refl that] show ?thesis by simp
    next
      case one: False
      then have "?n = 1" using n by simp
      then have "x = b" "uint b < 128" using that check_first_Some(4) by auto
      then show ?thesis by auto
    qed
    have "set tl \<subseteq> set (st_buffer st)" unfolding tl_def using n by (cases ?n) (auto dest: in_set_dropD)
    then have high: "254 \<notin> set buf" "255 \<notin> set buf" using inv(1) special unfolding split buffer_ok_def by auto
    have z: "0 \<notin> set (take (?n - 1) bs)"
    proof (cases "1 < ?n")
      case many: True
      then obtain v where "utf8_check_full ?all ?n = Some v" using False full n by auto
      from check_full_high [OF this refl] show ?thesis using many by (cases ?n) auto
    qed simp
    have rest: "drop 1 buf = take (?n - 1) bs @ 0 # tl" unfolding split using n by (cases ?n) auto
    have bok: "buffer_ok ?st" "buffer_ok (?st\<lparr>st_buffer_pos := 1\<rparr>)"
      using five high rest split by (simp_all add: buffer_ok_def)
    have h: "held (?st\<lparr>st_buffer_pos := 1\<rparr>) @ drop ?n ?all = bs"
    proof -
      have "held (?st\<lparr>st_buffer_pos := 1\<rparr>) = take (?n - 1) bs" using z rest by (simp add: held_def)
      then show ?thesis using n by (cases ?n) auto
    qed
    have y: "bytes (st_data ?st) = drop ?n ?all" using d(1) n by (cases ?n) auto
    have u: "utf8_check_string ?all \<Longrightarrow> utf8_check_string (drop ?n ?all)"
      using cs n by (cases "1 < ?n") (auto split: if_splits simp: not_less le_Suc_eq)
    have first: "st_buffer ?st ! 0 = b" using n(1) split by (cases ?n) auto
    have res: "stream_refill st = (Refill_OK, ?st)" unfolding buf_def using False d(2) by (simp only: if_False) simp
    show ?thesis by (rule ok [OF res _ _ n(1) y bok(1) _ first bok(2) h u]) (use inv(2) in simp_all)
  qed
qed


lemma stream_get_cases:
  assumes ok: "stream_ok get (ps_stream s)"
  obtains (stopped) "st_state (ps_stream s) = STREAM_STATE_EOF \<or> st_state (ps_stream s) = STREAM_STATE_ERROR"
      "stream_get s = (st_state (ps_stream s), s)"
  | (eof) st' where "st_state (ps_stream s) = STREAM_STATE_OK" "ahead bytes (ps_stream s) = []"
      "stream_get s = (STREAM_STATE_EOF, upd_stream (\<lambda>_. st') s)" "st_state st' = STREAM_STATE_EOF" "stream_ok get st'"
  | (bad) st' e where "st_state (ps_stream s) = STREAM_STATE_OK"
      "stream_get s = (STREAM_STATE_ERROR, (upd_stream (\<lambda>_. st') s)\<lparr>ps_error := e\<rparr>)" "st_state st' = STREAM_STATE_ERROR"
      "stream_ok get st'" "\<not> utf8_check_string (bytes (st_data (ps_stream s)))"
  | (byte) b bs st' where "st_state (ps_stream s) = STREAM_STATE_OK" "ahead bytes (ps_stream s) = b # bs"
      "stream_get s = (sint b, upd_stream (\<lambda>_. st') s)" "st_state st' = STREAM_STATE_OK" "stream_ok get st'"
      "ahead bytes st' = bs" "b \<noteq> 254" "b \<noteq> 255" "0 < st_buffer_pos st'" "st_buffer st' ! (st_buffer_pos st' - 1) = b"
      "utf8_check_string (bytes (st_data (ps_stream s))) \<Longrightarrow> utf8_check_string (bytes (st_data st'))"
proof -
  let ?st = "ps_stream s"
  have sg: "st_get ?st = get" using ok by (simp add: stream_ok_def)
  have ahead_eq: "ahead bytes ?st = held ?st @ bytes (st_data ?st)" if "st_state ?st = STREAM_STATE_OK"
    using that by (simp add: ahead_def)
  consider (no) "st_state ?st \<noteq> STREAM_STATE_OK"
    | (buffered) "st_state ?st = STREAM_STATE_OK" "st_buffer ?st ! st_buffer_pos ?st \<noteq> 0"
    | (fresh) "st_state ?st = STREAM_STATE_OK" "st_buffer ?st ! st_buffer_pos ?st = 0" "bytes (st_data ?st) = []"
    | (refill) b bs where "st_state ?st = STREAM_STATE_OK" "st_buffer ?st ! st_buffer_pos ?st = 0" "bytes (st_data ?st) = b # bs"
    by (metis list.exhaust)
  then show thesis
  proof cases
    case no
    then show ?thesis using ok by (intro stopped) (auto simp: stream_ok_def stream_get_def)
  next
    case buffered
    have bok: "buffer_ok ?st" using ok buffered by (simp add: stream_ok_def)
    note h = held_nth [OF bok buffered(2)]
    obtain st' where t: "stream_take ?st = (sint (st_buffer ?st ! st_buffer_pos ?st), st')" "st_get st' = st_get ?st" "st_data st' = st_data ?st"
      "st_state st' = st_state ?st" "st_buffer st' = st_buffer ?st" "st_buffer_pos st' = st_buffer_pos ?st + 1" "buffer_ok st'"
      "held st' = held (?st\<lparr>st_buffer_pos := st_buffer_pos ?st + 1\<rparr>)"
      using take_byte [OF bok refl h(2)] by blast
    have got: "stream_get s = (sint (st_buffer ?st ! st_buffer_pos ?st), upd_stream (\<lambda>_. st') s)"
      using buffered t(1) by (simp add: stream_get_def Let_def)
    have "st_buffer ?st ! st_buffer_pos ?st \<in> set (st_buffer ?st)" using bok by (simp add: buffer_ok_def)
    then have special: "st_buffer ?st ! st_buffer_pos ?st \<noteq> 254" "st_buffer ?st ! st_buffer_pos ?st \<noteq> 255"
      using bok unfolding buffer_ok_def by metis+
    show ?thesis
      by (rule byte [of "st_buffer ?st ! st_buffer_pos ?st" "held st' @ bytes (st_data ?st)" st'])
        (use buffered t h ahead_eq sg got special in \<open>auto simp: stream_ok_def ahead_def\<close>)
  next
    case fresh
    then obtain d where d: "stream_refill ?st = (Refill_EOF, ?st\<lparr>st_data := d, st_state := STREAM_STATE_EOF\<rparr>)"
      using stream_refill_end sg by blast
    have "held ?st = []" using held_empty [of ?st] ok fresh by (simp add: stream_ok_def)
    then show ?thesis using fresh d sg ahead_eq
      by (intro eof [of "?st\<lparr>st_data := d, st_state := STREAM_STATE_EOF\<rparr>"]) (auto simp: stream_get_def stream_ok_def stream_states)
  next
    case refill
    have bok: "buffer_ok ?st" using ok refill by (simp add: stream_ok_def)
    have he: "held ?st = []" using held_empty [OF bok] refill by simp
    show ?thesis
    proof (cases rule: refill_cases [OF bok sg refill(3)])
      case (1 st')
      then show ?thesis using refill sg
        by (intro bad [where st' = "st'\<lparr>st_state := STREAM_STATE_ERROR\<rparr>" and e =
              "error_set_lex (ps_error s) (Some (ps_lex (upd_stream (\<lambda>_. st'\<lparr>st_state := STREAM_STATE_ERROR\<rparr>) s)))
                 json_error_invalid_utf8 (cstr ''unable to decode byte 0x'' @ fmt_x (nat (uint b)))"])
          (simp_all add: stream_get_def stream_ok_def stream_states error_set_def upd_stream_def upd_lex_def)
    next
      case (2 st1 n)
      have b1: "buffer_ok (st1\<lparr>st_buffer_pos := st_buffer_pos st1 + 1\<rparr>)"
        and h1: "held (st1\<lparr>st_buffer_pos := st_buffer_pos st1 + 1\<rparr>) @ drop n (b # bs) = bs" using 2(7,9,10) by simp_all
      obtain st' where t: "stream_take st1 = (sint b, st')" "st_get st' = st_get st1" "st_data st' = st_data st1"
        "st_state st' = st_state st1" "st_buffer st' = st_buffer st1" "st_buffer_pos st' = st_buffer_pos st1 + 1" "buffer_ok st'"
        "held st' = held (st1\<lparr>st_buffer_pos := st_buffer_pos st1 + 1\<rparr>)"
        using take_byte [OF 2(6) _ b1, of b] 2(7,8) by auto
      have "b \<in> set (st_buffer st1)" using 2(6-8) by (metis buffer_ok_def nth_mem)
      then have special: "b \<noteq> 254" "b \<noteq> 255" using 2(6) unfolding buffer_ok_def by metis+
      have got: "stream_get s = (sint b, upd_stream (\<lambda>_. st') s)"
        using refill 2(1) t(1) by (simp add: stream_get_def Let_def)
      show ?thesis
        by (rule byte [of b bs st']) (use refill t 2 ahead_eq sg h1 he got special in \<open>auto simp: stream_ok_def ahead_def\<close>)
    qed
  qed
qed

end

definition same_heap :: "world \<Rightarrow> world \<Rightarrow> bool" where
  "same_heap w w' \<longleftrightarrow> w'\<lparr>w_mem := mem_ok\<rparr> = w\<lparr>w_mem := mem_ok\<rparr>"

definition lexed :: "('d \<Rightarrow> int \<times> 'd) \<Rightarrow> ('d \<Rightarrow> byte list) \<Rightarrow> 'd parser \<Rightarrow> 'd parser \<Rightarrow> bool" where
  "lexed get bytes s s' \<longleftrightarrow> stream_ok get (ps_stream s') \<and> weight bytes (ps_stream s') \<le> weight bytes (ps_stream s) \<and>
     same_heap (ps_world s) (ps_world s') \<and> lx_depth (ps_lex s') = lx_depth (ps_lex s) \<and> lx_flags (ps_lex s') = lx_flags (ps_lex s)"

abbreviation undo :: "int \<Rightarrow> 'd parser \<Rightarrow> 'd parser" where
  "undo c \<equiv> upd_stream (stream_unget c)"

lemma lexed_refl: "stream_ok get (ps_stream s) \<Longrightarrow> lexed get bytes s s"
  by (simp add: lexed_def same_heap_def)

lemma lexed_trans: "lexed get bytes s s1 \<Longrightarrow> lexed get bytes s1 s2 \<Longrightarrow> lexed get bytes s s2"
  by (simp add: lexed_def same_heap_def)

lemma upd_sel [simp]:
  "ps_lex (upd_lex f s) = f (ps_lex s)" "ps_world (upd_lex f s) = ps_world s" "ps_error (upd_lex f s) = ps_error s"
  "ps_stream (upd_stream g s) = g (ps_stream s)" "ps_world (upd_stream g s) = ps_world s"
  "lx_depth (ps_lex (upd_stream g s)) = lx_depth (ps_lex s)" "lx_flags (ps_lex (upd_stream g s)) = lx_flags (ps_lex s)"
  "lx_saved_text (ps_lex (upd_stream g s)) = lx_saved_text (ps_lex s)" "lx_token (ps_lex (upd_stream g s)) = lx_token (ps_lex s)"
  "lx_string (ps_lex (upd_stream g s)) = lx_string (ps_lex s)"
  by (simp_all add: upd_lex_def upd_stream_def)

text \<open>Two states that differ in what the lexer keeps for itself: the saved text, the token, the error and the memory.\<close>

definition inward :: "'d parser \<Rightarrow> 'd parser \<Rightarrow> bool" where
  "inward s s' \<longleftrightarrow> ps_stream s' = ps_stream s \<and> same_heap (ps_world s) (ps_world s') \<and>
     lx_depth (ps_lex s') = lx_depth (ps_lex s) \<and> lx_flags (ps_lex s') = lx_flags (ps_lex s)"

lemma inward_intros [intro!, simp]:
  "inward s s"
  "inward s (lex_save c s)"
  "inward s (error_set code msg s)"
  "inward s (set_token t s)"
  "inward s (lex_free_string s)"
  "inward s (upd_lex (\<lambda>l. l\<lparr>lx_saved_text := f l\<rparr>) s)"
  "inward s (upd_lex (\<lambda>l. l\<lparr>lx_string := g l\<rparr>) s)"
  "inward s (upd_lex (\<lambda>l. l\<lparr>lx_integer := i\<rparr>) s)"
  "inward s (upd_lex (\<lambda>l. l\<lparr>lx_real := x\<rparr>) s)"
  by (auto simp: inward_def same_heap_def lex_save_def error_set_def set_token_def lex_free_string_def split: prod.splits)

lemma lex_save_stream [simp]: "ps_stream (lex_save c s) = ps_stream s"
  using inward_intros(2) [of s c] by (simp add: inward_def)

lemma inward_trans: "inward s s1 \<Longrightarrow> inward s1 s2 \<Longrightarrow> inward s s2"
  by (simp add: inward_def same_heap_def)

lemma inward_malloc: "w_malloc n (ps_world s) = (b, w) \<Longrightarrow> inward s (s\<lparr>ps_world := w\<rparr>)"
  by (auto simp: inward_def same_heap_def w_malloc_def split: prod.splits)

lemma lexed_inward: "inward s1 s2 \<Longrightarrow> lexed get bytes s s2 = lexed get bytes s s1"
  by (auto simp: lexed_def inward_def same_heap_def)

lemma inward_undo: "inward s1 s2 \<Longrightarrow> inward (undo c s1) (undo c s2)"
  by (auto simp: inward_def upd_stream_def)

lemma lexed_simps [simp]:
  "lexed get bytes s (lex_save c s') = lexed get bytes s s'"
  "lexed get bytes s (error_set code msg s') = lexed get bytes s s'"
  "lexed get bytes s (set_token t s') = lexed get bytes s s'"
  "lexed get bytes s (lex_free_string s') = lexed get bytes s s'"
  "lexed get bytes s (upd_lex (\<lambda>l. l\<lparr>lx_saved_text := f l\<rparr>) s') = lexed get bytes s s'"
  "lexed get bytes s (upd_lex (\<lambda>l. l\<lparr>lx_string := g l\<rparr>) s') = lexed get bytes s s'"
  "lexed get bytes s (upd_lex (\<lambda>l. l\<lparr>lx_integer := i\<rparr>) s') = lexed get bytes s s'"
  "lexed get bytes s (upd_lex (\<lambda>l. l\<lparr>lx_real := x\<rparr>) s') = lexed get bytes s s'"
  "lexed get bytes s (undo c (lex_save d s')) = lexed get bytes s (undo c s')"
  by (rule lexed_inward, simp add: inward_undo)+

lemma lexed_unsave [simp]: "lexed get bytes s (lex_unget_unsave c s') = lexed get bytes s (undo c s')"
proof (cases "c \<noteq> STREAM_STATE_EOF \<and> c \<noteq> STREAM_STATE_ERROR")
  case False
  then have "inward s' (undo c s')" by (auto simp: inward_def same_heap_def stream_unget_def)
  from lexed_inward [OF this] show ?thesis using False by (auto simp: lex_unget_unsave_def)
qed (simp add: lex_unget_unsave_def)

lemma unget_keeps:
  assumes "buffer_ok st" "0 < st_buffer_pos st"
  shows "buffer_ok (stream_unget c st)" "length (held (stream_unget c st)) \<le> Suc (length (held st))"
    "st_get (stream_unget c st) = st_get st" "st_state (stream_unget c st) = st_state st" "st_data (stream_unget c st) = st_data st"
proof -
  have d: "drop (st_buffer_pos st - 1) (st_buffer st) = st_buffer st ! (st_buffer_pos st - 1) # drop (st_buffer_pos st) (st_buffer st)"
    using assms Cons_nth_drop_Suc [of "st_buffer_pos st - 1" "st_buffer st"] by (force simp: buffer_ok_def)
  show "buffer_ok (stream_unget c st)" "length (held (stream_unget c st)) \<le> Suc (length (held st))"
    using assms d by (auto simp: stream_unget_def Let_def buffer_ok_def held_def c_string_def)
qed (simp_all add: stream_unget_def Let_def)

text \<open>The loops over digits and over letters.\<close>

fun scan_while :: "(int \<Rightarrow> bool) \<Rightarrow> nat \<Rightarrow> 'd parser \<Rightarrow> (int \<times> 'd parser) option" where
  "scan_while P 0 s = None"
| "scan_while P (Suc n) s = (case lex_get_save s of (c, s1) \<Rightarrow> if P c then scan_while P n s1 else Some (c, s1))"

lemma scan_digits_while: "scan_digits n s = scan_while l_isdigit n s"
  by (induction n s rule: scan_digits.induct) (auto split: prod.splits)

lemma scan_alpha_while: "scan_alpha n s = scan_while l_isalpha n s"
  by (induction n s rule: scan_alpha.induct) (auto split: prod.splits)

lemma not_character [simp]:
  "\<not> l_isdigit STREAM_STATE_EOF" "\<not> l_isdigit STREAM_STATE_ERROR" "\<not> l_isalpha STREAM_STATE_EOF" "\<not> l_isalpha STREAM_STATE_ERROR"
  by (simp_all add: l_isdigit_def l_isalpha_def l_isupper_def l_islower_def stream_states)

context byte_source
begin

lemma stream_get_lexed:
  assumes "stream_ok get (ps_stream s)" "stream_get s = (c, s')"
  shows "lexed get bytes s s' \<and> lexed get bytes s (undo c s') \<and>
     (c \<noteq> STREAM_STATE_EOF \<and> c \<noteq> STREAM_STATE_ERROR \<longrightarrow> weight bytes (ps_stream s') < weight bytes (ps_stream s))"
  using assms(1)
proof (cases rule: stream_get_cases)
  case stopped
  then show ?thesis using assms by (auto simp: lexed_def same_heap_def stream_unget_def)
next
  case (eof st')
  then show ?thesis using assms by (auto simp: lexed_def same_heap_def stream_unget_def weight_def ahead_def stream_states)
next
  case (bad st' e)
  then show ?thesis using assms
    by (auto simp: lexed_def same_heap_def stream_unget_def weight_def ahead_def stream_states upd_stream_def upd_lex_def)
next
  case (byte b bs st')
  then have bok: "buffer_ok st'" by (simp add: stream_ok_def)
  note u = unget_keeps [OF bok byte(9)]
  have "weight bytes (ps_stream s) = Suc (Suc (length bs))" "weight bytes st' = Suc (length bs)"
    using byte(1,2,4,6) by (simp_all add: weight_def)
  moreover have "weight bytes (stream_unget c st') \<le> Suc (Suc (length bs))"
    using u(2,4,5) byte(4,6) by (auto simp: weight_def ahead_def)
  moreover have "stream_ok get (stream_unget c st')" using u(1,3,4) byte(5) by (simp add: stream_ok_def)
  ultimately show ?thesis using byte(3,5) assms(2) by (auto simp: lexed_def same_heap_def)
qed

lemma lex_get_save_lexed:
  assumes "stream_ok get (ps_stream s)" "lex_get_save s = (c, s')"
  shows "lexed get bytes s s' \<and> lexed get bytes s (undo c s') \<and>
     (c \<noteq> STREAM_STATE_EOF \<and> c \<noteq> STREAM_STATE_ERROR \<longrightarrow> weight bytes (ps_stream s') < weight bytes (ps_stream s))"
proof -
  obtain c1 s1 where "stream_get s = (c1, s1)" by fastforce
  with stream_get_lexed [OF assms(1) this] show ?thesis using assms(2)
    by (auto simp: lex_get_save_def)
qed

lemma scan_while_lexed:
  "scan_while P n s = Some (c, s') \<Longrightarrow> stream_ok get (ps_stream s) \<Longrightarrow> lexed get bytes s s' \<and> lexed get bytes s (undo c s')"
proof (induction P n s rule: scan_while.induct)
  case (2 P n s)
  obtain c1 s1 where g: "lex_get_save s = (c1, s1)" by fastforce
  note L = lex_get_save_lexed [OF 2(3) g]
  show ?case
  proof (cases "P c1")
    case True
    then have "lexed get bytes s1 s' \<and> lexed get bytes s1 (undo c s')" using 2(1) [OF g [symmetric] True] 2(2) g L
      by (simp add: lexed_def)
    then show ?thesis using L lexed_trans by blast
  qed (use 2(2) g L in auto)
qed simp

lemma scan_while_total:
  "stream_ok get (ps_stream s) \<Longrightarrow> weight bytes (ps_stream s) < n \<Longrightarrow>
     \<not> P STREAM_STATE_EOF \<Longrightarrow> \<not> P STREAM_STATE_ERROR \<Longrightarrow> \<exists>r. scan_while P n s = Some r"
proof (induction P n s rule: scan_while.induct)
  case (2 P n s)
  obtain c1 s1 where g: "lex_get_save s = (c1, s1)" by fastforce
  note L = lex_get_save_lexed [OF 2(2) g]
  show ?case
  proof (cases "P c1")
    case True
    then have "c1 \<noteq> STREAM_STATE_EOF \<and> c1 \<noteq> STREAM_STATE_ERROR" using 2(4,5) by auto
    then show ?thesis using 2 g L True by (auto simp: lexed_def)
  qed (use g in auto)
qed simp

lemma skip_space_lexed:
  "skip_space n s = Some (c, s') \<Longrightarrow> stream_ok get (ps_stream s) \<Longrightarrow> lexed get bytes s s' \<and>
     (c \<noteq> STREAM_STATE_EOF \<and> c \<noteq> STREAM_STATE_ERROR \<longrightarrow> weight bytes (ps_stream s') < weight bytes (ps_stream s))"
proof (induction n s rule: skip_space.induct)
  case (2 n s)
  obtain c1 s1 where g: "lex_get s = (c1, s1)" by fastforce
  note L = stream_get_lexed [OF 2(3) g [unfolded lex_get_def]]
  show ?case
  proof (cases "c1 = 32 \<or> c1 = 9 \<or> c1 = 10 \<or> c1 = 13")
    case True
    then have "skip_space n s1 = Some (c, s')" using 2(2) g by simp
    then show ?thesis using 2(1) [OF g [symmetric]] True L by (auto simp: lexed_def same_heap_def)
  qed (use 2(2) g L in auto)
qed simp

lemma skip_space_total:
  "stream_ok get (ps_stream s) \<Longrightarrow> weight bytes (ps_stream s) < n \<Longrightarrow> \<exists>r. skip_space n s = Some r"
proof (induction n s rule: skip_space.induct)
  case (2 n s)
  obtain c1 s1 where g: "lex_get s = (c1, s1)" by fastforce
  note L = stream_get_lexed [OF 2(2) g [unfolded lex_get_def]]
  show ?case
  proof (cases "c1 = 32 \<or> c1 = 9 \<or> c1 = 10 \<or> c1 = 13")
    case True
    then have "c1 \<noteq> STREAM_STATE_EOF \<and> c1 \<noteq> STREAM_STATE_ERROR" by (auto simp: stream_states)
    then show ?thesis using 2(1) [OF g [symmetric]] 2(2,3) g L True by (auto simp: lexed_def)
  qed (use g in auto)
qed simp

end

lemma lexedD: "lexed get bytes s s' \<Longrightarrow> stream_ok get (ps_stream s')"
  by (simp add: lexed_def)

lemma lexed_token [simp]: "lexed get bytes (set_token t s) s' = lexed get bytes s s'"
  "lexed get bytes (upd_lex (\<lambda>l. l\<lparr>lx_string := g l\<rparr>) s) s' = lexed get bytes s s'"
  "lexed get bytes (upd_lex (\<lambda>l. l\<lparr>lx_saved_text := f l\<rparr>) s) s' = lexed get bytes s s'"
  "lexed get bytes (lex_free_string s) s' = lexed get bytes s s'"
  by (simp_all add: lexed_def set_token_def lex_free_string_def)

lemma lexed_save [simp]: "lexed get bytes (lex_save c s) s' = lexed get bytes s s'"
  using inward_intros(2) [of s c] by (auto simp: lexed_def inward_def same_heap_def)

lemma stream_simps [simp]:
  "ps_stream (set_token t s) = ps_stream s" "ps_stream (lex_free_string s) = ps_stream s"
  "ps_stream (error_set code msg s) = ps_stream s"
  by (simp_all add: set_token_def lex_free_string_def error_set_def)

lemma lexed_malloc: "w_malloc n (ps_world s1) = (b, w) \<Longrightarrow> lexed get bytes s (s1\<lparr>ps_world := w\<rparr>) = lexed get bytes s s1"
  by (rule lexed_inward) (rule inward_malloc)

lemma skip_held:
  assumes "stream_ok get st" "st_buffer st ! st_buffer_pos st \<noteq> 0"
  defines "st' \<equiv> st\<lparr>st_buffer_pos := st_buffer_pos st + 1, st_position := st_position st + 1\<rparr>"
  shows "stream_ok get st' \<and> weight bytes st' \<le> weight bytes st"
proof (cases "st_state st = STREAM_STATE_OK")
  case True
  then have ok: "buffer_ok st" using assms(1) by (simp add: stream_ok_def)
  note h = held_nth [OF ok assms(2)]
  have "held st' = held (st\<lparr>st_buffer_pos := st_buffer_pos st + 1\<rparr>)" "buffer_ok st'"
    using h(2) by (simp_all add: st'_def held_def buffer_ok_def)
  then show ?thesis using h(1) assms(1) by (auto simp: st'_def stream_ok_def weight_def ahead_def)
qed (use assms(1) in \<open>auto simp: st'_def stream_ok_def weight_def ahead_def\<close>)

lemma save_cached_lexed: "lexed get bytes s s' \<Longrightarrow> lexed get bytes s (save_cached_loop n s')"
proof (induction n s' rule: save_cached_loop.induct)
  case (2 n s')
  let ?b = "st_buffer (ps_stream s') ! st_buffer_pos (ps_stream s')"
  let ?s1 = "lex_save (sint ?b) s'"
  let ?s2 = "upd_stream (\<lambda>st. st\<lparr>st_buffer_pos := st_buffer_pos st + 1, st_position := st_position st + 1\<rparr>) ?s1"
  show ?case
  proof (cases "?b = 0")
    case False
    have "lexed get bytes s ?s1" using 2(2) by simp
    then have "lexed get bytes s ?s2" using skip_held [OF lexedD [OF 2(2)] False, of bytes] by (auto simp: lexed_def)
    then show ?thesis using 2(1) [OF refl refl False refl] False by (simp add: Let_def)
  qed (use 2(2) in \<open>simp add: Let_def\<close>)
qed simp

text \<open>The character \<^term>\<open>c\<close> was just read, and can be put back.\<close>

definition got :: "('d \<Rightarrow> int \<times> 'd) \<Rightarrow> ('d \<Rightarrow> byte list) \<Rightarrow> 'd parser \<Rightarrow> int \<Rightarrow> 'd parser \<Rightarrow> bool" where
  "got get bytes s c s' \<longleftrightarrow> lexed get bytes s s' \<and> lexed get bytes s (undo c s')"

lemma got_trans: "lexed get bytes s s1 \<Longrightarrow> got get bytes s1 c s' \<Longrightarrow> got get bytes s c s'"
  using lexed_trans by (auto simp: got_def)

lemma gotD [dest]: "got get bytes s c s' \<Longrightarrow> lexed get bytes s s'"
  by (simp add: got_def)

lemma got_unsave [simp]: "got get bytes s c s' \<Longrightarrow> lexed get bytes s (lex_unget_unsave c s')"
  by (simp add: got_def)

context byte_source
begin

abbreviation lxd where "lxd \<equiv> lexed get bytes"
abbreviation gt where "gt \<equiv> got get bytes"
abbreviation ready where "ready s \<equiv> stream_ok get (ps_stream s)"
abbreviation wt where "wt s \<equiv> weight bytes (ps_stream s)"

lemma get_save:
  assumes "ready s" "lex_get_save s = (c, s')"
  shows "gt s c s'" "lxd s s'" "ready s'" "c \<noteq> STREAM_STATE_EOF \<Longrightarrow> c \<noteq> STREAM_STATE_ERROR \<Longrightarrow> wt s' < wt s"
  using lex_get_save_lexed [OF assms] by (auto simp: got_def lexed_def)

lemma scan_hex_got:
  "scan_hex k c s = (r, s') \<Longrightarrow> gt s0 c s \<Longrightarrow> lxd s0 s' \<and> (\<forall>c'. r = Some c' \<longrightarrow> gt s0 c' s')"
proof (induction k c s rule: scan_hex.induct)
  case (2 i c s)
  obtain c1 s1 where g: "lex_get_save s = (c1, s1)" by fastforce
  have l: "lxd s0 s" using 2(3) by blast
  show ?case
  proof (cases "l_isxdigit c")
    case True
    have "gt s0 c1 s1" using got_trans [OF l get_save(1) [OF lexedD [OF l] g]] .
    then show ?thesis using 2(1) [OF _ g [symmetric]] 2(2) g True by simp
  qed (use 2(2) l in auto)
qed auto

lemma scan_escape_got:
  assumes "scan_escape s = (r, s')" "ready s"
  shows "lxd s s' \<and> (\<forall>c'. r = Some c' \<longrightarrow> gt s c' s' \<and> wt s' < wt s)"
proof -
  obtain c1 s1 where g1: "lex_get_save s = (c1, s1)" by fastforce
  obtain c2 s2 where g2: "lex_get_save s1 = (c2, s2)" by fastforce
  note G1 = get_save [OF assms(2) g1] and G2 = get_save [OF get_save(3) [OF assms(2) g1] g2]
  have A: "lxd s1 s' \<and> (\<forall>c'. r = Some c' \<longrightarrow> gt s1 c' s' \<and> c1 \<noteq> STREAM_STATE_EOF \<and> c1 \<noteq> STREAM_STATE_ERROR)"
  proof (cases "c1 = 117")
    case True
    then show ?thesis using assms(1) g1 g2 scan_hex_got [OF _ G2(1), of 4 r s'] by (auto simp: scan_escape_def stream_states)
  next
    case False
    show ?thesis
    proof (cases "c1 \<in> {34, 92, 47, 98, 102, 110, 114, 116}")
      case True
      then have "r = Some c2 \<and> s' = s2" using assms(1) g1 g2 False by (simp add: scan_escape_def)
      moreover have "c1 \<noteq> STREAM_STATE_EOF \<and> c1 \<noteq> STREAM_STATE_ERROR" using True by (auto simp: stream_states)
      ultimately show ?thesis using G2(1,2) by simp
    next
      case other: False
      then have "r = None \<and> s' = error_set json_error_invalid_syntax (cstr ''invalid escape'') s1"
        using assms(1) g1 False by (simp add: scan_escape_def del: cstr_Cons)
      then show ?thesis using lexed_refl [OF G1(3)] by (simp del: cstr_Cons)
    qed
  qed
  then have "wt s' \<le> wt s1" by (simp add: lexed_def)
  then show ?thesis using lexed_trans [OF G1(2)] got_trans [OF G1(2)] G1(4) A by fastforce
qed

lemma scan_string_loop_lexed:
  "scan_string_loop n c s = Some (r, s') \<Longrightarrow> gt s0 c s \<Longrightarrow> lxd s0 s'"
proof (induction n c s rule: scan_string_loop.induct)
  case (2 n c s)
  obtain c1 s1 where g: "lex_get_save s = (c1, s1)" by fastforce
  obtain ro s2 where e: "scan_escape s = (ro, s2)" by fastforce
  have l: "lxd s0 s" "lxd s0 (undo c s)" using 2(4) by (auto simp: got_def)
  note l1 = l(1)
  have g1: "gt s0 c1 s1" using got_trans [OF l1 get_save(1) [OF lexedD [OF l1] g]] .
  have e1: "lxd s0 s2" "ro = Some c' \<Longrightarrow> gt s0 c' s2" for c'
    using scan_escape_got [OF e lexedD [OF l1]] l1 lexed_trans got_trans by blast+
  show ?case using 2 g e g1 e1 l
    by (auto simp: Let_def split: if_splits option.splits)
qed simp

lemma scan_string_loop_total:
  "ready s \<Longrightarrow> wt s + 1 < n \<Longrightarrow> \<exists>r. scan_string_loop n c s = Some r"
proof (induction n c s rule: scan_string_loop.induct)
  case (2 n c s)
  obtain c1 s1 where g: "lex_get_save s = (c1, s1)" by fastforce
  note G = get_save [OF 2(3) g]
  obtain k where k: "n = Suc k" using 2(4) by (cases n) auto
  have plain: "\<exists>r. scan_string_loop n c1 s1 = Some r" if "c \<noteq> 34" "c \<noteq> STREAM_STATE_ERROR" "c \<noteq> STREAM_STATE_EOF" "\<not> (0 \<le> c \<and> c \<le> 0x1F)" "c \<noteq> 92"
  proof (cases "c1 = STREAM_STATE_ERROR \<or> c1 = STREAM_STATE_EOF")
    case True
    then show ?thesis by (auto simp: k stream_states)
  next
    case False
    then show ?thesis using 2(2) [OF that g [symmetric]] G 2(4) by auto
  qed
  have "\<exists>r. scan_string_loop n c' s' = Some r" if "c = 92" "scan_escape s = (Some c', s')" for c' s'
    using 2(1) [OF _ _ _ _ that(1) that(2) [symmetric] refl] scan_escape_got [OF that(2) 2(3)] 2(4) that(1)
    by (auto simp: stream_states lexed_def)
  then show ?case using plain g by (auto simp: Let_def split: option.splits prod.splits)
qed simp

end

section \<open>The token\<close>

lemma token_simps [simp]:
  "ps_token (lex_save c s) = ps_token s" "ps_token (error_set code msg s) = ps_token s"
  "ps_token (lex_unget_unsave c s) = ps_token s" "ps_token (lex_free_string s) = ps_token s"
  "ps_token (set_token t s) = t" "lx_string (ps_lex (set_token t s)) = lx_string (ps_lex s)"
  by (auto simp: lex_save_def error_set_def lex_unget_unsave_def lex_free_string_def set_token_def split: prod.splits)

lemma stream_get_token: "stream_get s = (c, s') \<Longrightarrow> ps_token s' = ps_token s"
  by (auto simp: stream_get_def Let_def split: prod.splits if_splits refill.splits)

lemma lex_get_save_token: "lex_get_save s = (c, s') \<Longrightarrow> ps_token s' = ps_token s"
  by (auto simp: lex_get_save_def stream_get_token split: prod.splits if_splits)

lemma scan_hex_token: "scan_hex k c s = (r, s') \<Longrightarrow> ps_token s' = ps_token s"
  by (induction k c s rule: scan_hex.induct) (auto simp: lex_get_save_token split: if_splits prod.splits)

lemma scan_escape_token: "scan_escape s = (r, s') \<Longrightarrow> ps_token s' = ps_token s"
  by (auto simp: scan_escape_def lex_get_save_token scan_hex_token split: if_splits prod.splits)

lemma scan_string_loop_token: "scan_string_loop n c s = Some (r, s') \<Longrightarrow> ps_token s' = ps_token s"
proof (induction n c s rule: scan_string_loop.induct)
  case (2 n c s)
  then show ?case
    by (auto simp: Let_def lex_get_save_token scan_escape_token split: if_splits prod.splits option.splits)
qed simp

lemma scan_while_token: "scan_while P n s = Some (c, s') \<Longrightarrow> ps_token s' = ps_token s"
  by (induction P n s rule: scan_while.induct) (auto simp: lex_get_save_token split: if_splits prod.splits)

lemma lex_unget_stream [simp]: "ps_token (lex_unget c s) = ps_token s"
  by (simp add: lex_unget_def)

lemma lex_unget_undo: "lex_unget c s = undo c s" by (simp add: lex_unget_def)

text \<open>A part of a number: the character after the part can be put back.\<close>

definition number_part ::
  "('d \<Rightarrow> int \<times> 'd) \<Rightarrow> ('d \<Rightarrow> byte list) \<Rightarrow> 'd parser \<Rightarrow> int option \<Rightarrow> 'd parser \<Rightarrow> bool" where
  "number_part get bytes s r s' \<longleftrightarrow> lexed get bytes s s' \<and> ps_token s' = ps_token s \<and>
     (\<forall>c. r = Some c \<longrightarrow> got get bytes s c s')"

context byte_source
begin

lemma lex_scan_string_lexed:
  assumes "lex_scan_string n s = Some s'" "ready s"
  shows "lxd s s' \<and> (ps_token s' = TOKEN_STRING \<longrightarrow> lx_string (ps_lex s') \<noteq> None)"
proof -
  let ?s0 = "set_token TOKEN_INVALID (upd_lex (\<lambda>l. l\<lparr>lx_string := None\<rparr>) s)"
  obtain c s1 where g: "lex_get_save ?s0 = (c, s1)" by fastforce
  have G: "gt ?s0 c s1" using get_save(1) [OF _ g] assms(2) by simp
  obtain ok s2 where l: "scan_string_loop n c s1 = Some (ok, s2)"
    using assms(1) g by (auto simp: lex_scan_string_def bind_eq_Some_conv)
  have L: "lxd s s2" using scan_string_loop_lexed [OF l G] by simp
  have T: "ps_token s2 = TOKEN_INVALID" using scan_string_loop_token [OF l] lex_get_save_token [OF g] by simp
  obtain b w where m: "w_malloc (sb_length (lx_saved_text (ps_lex s2)) + 1) (ps_world s2) = (b, w)" by fastforce
  have M: "lxd s (s2\<lparr>ps_world := w\<rparr>)" using L lexed_malloc [OF m] by blast
  show ?thesis
  proof (cases "ok \<and> b")
    case True
    show ?thesis using assms(1) g l m True M T
      by (auto simp: lex_scan_string_def Let_def tokens split: sum.splits)
  next
    case False
    then show ?thesis using assms(1) g l m L M T
      by (cases ok; cases b) (auto simp: lex_scan_string_def Let_def tokens)
  qed
qed

lemma lex_scan_string_total:
  assumes "ready s" "wt s + 1 < n"
  shows "\<exists>s'. lex_scan_string n s = Some s'"
proof -
  let ?s0 = "set_token TOKEN_INVALID (upd_lex (\<lambda>l. l\<lparr>lx_string := None\<rparr>) s)"
  obtain c s1 where g: "lex_get_save ?s0 = (c, s1)" by fastforce
  have "ready s1" "wt s1 \<le> wt s" using get_save(2,3) [OF _ g] assms(1) by (simp_all add: lexed_def)
  then obtain ok s2 where "scan_string_loop n c s1 = Some (ok, s2)"
    using scan_string_loop_total [of s1 n c] assms(2) by auto
  then show ?thesis using g
    by (cases ok; cases "w_malloc (sb_length (lx_saved_text (ps_lex s2)) + 1) (ps_world s2)")
      (auto simp: lex_scan_string_def Let_def split: bool.splits sum.splits)
qed

lemma scan_while_got: "scan_while P n s = Some (c, s') \<Longrightarrow> ready s \<Longrightarrow> gt s c s' \<and> ready s'"
  using scan_while_lexed by (auto simp: got_def lexed_def)

lemma digits_got: "scan_digits n s = Some (c, s') \<Longrightarrow> ready s \<Longrightarrow> gt s c s' \<and> ready s' \<and> ps_token s' = ps_token s"
  using scan_while_got scan_while_token by (auto simp: scan_digits_while)

lemma scan_int_part_part:
  assumes "scan_int_part n c s = Some (r, s')" "ready s" "l_isdigit c \<or> c = 45"
  shows "number_part get bytes s r s'"
proof -
  obtain c1 s1 where g: "(if c = 45 then lex_get_save s else (c, s)) = (c1, s1)" by fastforce
  obtain c2 s2 where g2: "lex_get_save s1 = (c2, s2)" by fastforce
  have 1: "lxd s s1" "ps_token s1 = ps_token s" "l_isdigit c1 \<or> gt s c1 s1"
    using g assms(2,3) get_save(1,2) [OF assms(2)] lexed_refl [OF assms(2)] lex_get_save_token by (auto split: if_splits)
  have 2: "gt s1 c2 s2" using get_save(1) [OF lexedD [OF 1(1)] g2] .
  consider "c1 = 48" "l_isdigit c2" | "c1 = 48" "\<not> l_isdigit c2" | "c1 \<noteq> 48" "l_isdigit c1" | "c1 \<noteq> 48" "\<not> l_isdigit c1" by blast
  then show ?thesis
  proof cases
    case 1
    then have "r = None \<and> s' = lex_unget_unsave c2 s2" using assms(1) g g2 by (simp add: scan_int_part_def)
    then show ?thesis using got_trans [OF \<open>lxd s s1\<close> 2] lex_get_save_token [OF g2] \<open>ps_token s1 = ps_token s\<close>
      by (simp add: number_part_def got_def)
  next
    case 2
    then have "r = Some c2 \<and> s' = s2" using assms(1) g g2 by (simp add: scan_int_part_def)
    then show ?thesis using got_trans [OF \<open>lxd s s1\<close> \<open>gt s1 c2 s2\<close>] lex_get_save_token [OF g2] \<open>ps_token s1 = ps_token s\<close>
      by (auto simp: number_part_def)
  next
    case 3
    then obtain c3 where c3: "scan_digits n s1 = Some (c3, s')" "r = Some c3"
      using assms(1) g by (auto simp: scan_int_part_def bind_eq_Some_conv)
    then show ?thesis using digits_got [OF c3(1) lexedD [OF 1(1)]] got_trans [OF 1(1)] 1(2) by (auto simp: number_part_def)
  next
    case 4
    then have "r = None \<and> s' = lex_unget_unsave c1 s1" using assms(1) g by (simp add: scan_int_part_def)
    then show ?thesis using 1(2,3) 4 by (auto simp: number_part_def got_def)
  qed
qed


lemma scan_int_part_total:
  assumes "ready s" "wt s < n" shows "\<exists>r. scan_int_part n c s = Some r"
proof -
  obtain c1 s1 where g: "(if c = 45 then lex_get_save s else (c, s)) = (c1, s1)" by fastforce
  have "ready s1" "wt s1 \<le> wt s" using g assms(1) get_save(2,3) [OF assms(1)] by (auto simp: lexed_def split: if_splits)
  then obtain c2 s2 where "scan_digits n s1 = Some (c2, s2)"
    using scan_while_total [of s1 n l_isdigit] assms(2) by (auto simp: scan_digits_while)
  then show ?thesis using g by (auto simp: scan_int_part_def split: prod.splits)
qed

lemma stream_got:
  assumes "ready s" "stream_get s = (c, s')"
  shows "gt s c s'" "lxd s s'" "ready s'" "c \<noteq> STREAM_STATE_EOF \<Longrightarrow> c \<noteq> STREAM_STATE_ERROR \<Longrightarrow> wt s' < wt s"
  using stream_get_lexed [OF assms] by (auto simp: got_def lexed_def)

lemma scan_frac_part:
  assumes "scan_frac n c s = Some (r, s')" "gt s0 c s"
  shows "lxd s0 s' \<and> ps_token s' = ps_token s \<and> (\<forall>c. r = Some c \<longrightarrow> gt s0 c s')"
proof (cases "c = 46")
  case True
  obtain c1 s1 where g: "stream_get s = (c1, s1)" by fastforce
  have l: "lxd s0 s" using assms(2) by blast
  note G = stream_got [OF lexedD [OF l] g]
  have G1: "gt s0 c1 s1" using got_trans [OF l G(1)] .
  show ?thesis
  proof (cases "l_isdigit c1")
    case d: True
    then obtain c2 where c2: "scan_digits n (lex_save c1 s1) = Some (c2, s')" "r = Some c2"
      using assms(1) True g by (auto simp: scan_frac_def lex_get_def bind_eq_Some_conv)
    from digits_got [OF c2(1)] G(3) have "gt (lex_save c1 s1) c2 s'" "ps_token s' = ps_token s1" by simp_all
    moreover have "lxd s0 (lex_save c1 s1)" using G1 by (simp add: got_def)
    ultimately show ?thesis using got_trans c2(2) stream_get_token [OF g] by (metis gotD option.inject)
  next
    case False
    then have "r = None \<and> s' = lex_unget c1 s1" using assms(1) True g by (auto simp: scan_frac_def lex_get_def)
    then show ?thesis using G1 stream_get_token [OF g] by (simp add: got_def lex_unget_undo)
  qed
qed (use assms in \<open>auto simp: scan_frac_def\<close>)

lemma scan_exp_part:
  assumes "scan_exp n c s = Some (r, s')" "gt s0 c s"
  shows "lxd s0 s' \<and> ps_token s' = ps_token s \<and> (\<forall>c. r = Some c \<longrightarrow> gt s0 c s')"
proof (cases "c = 69 \<or> c = 101")
  case True
  obtain a sa where ga: "lex_get_save s = (a, sa)" by fastforce
  obtain c1 s1 where g: "(if a = 43 \<or> a = 45 then lex_get_save sa else (a, sa)) = (c1, s1)" by fastforce
  have l: "lxd s0 s" using assms(2) by blast
  note G = get_save [OF lexedD [OF l] ga]
  have Ga: "gt s0 a sa" "lxd s0 sa" using got_trans [OF l G(1)] by auto
  have G1: "gt s0 c1 s1" using g Ga got_trans [OF Ga(2) get_save(1) [OF G(3)]] by (auto split: if_splits)
  have T: "ps_token s1 = ps_token s" using g ga lex_get_save_token by (metis prod.inject)
  show ?thesis
  proof (cases "l_isdigit c1")
    case d: True
    then obtain c2 where c2: "scan_digits n s1 = Some (c2, s')" "r = Some c2"
      using assms(1) True ga g by (auto simp: scan_exp_def bind_eq_Some_conv)
    from digits_got [OF c2(1)] G1 have "gt s1 c2 s'" "ps_token s' = ps_token s1" by (auto simp: got_def lexed_def)
    then show ?thesis using got_trans G1 c2(2) T by (metis gotD option.inject)
  next
    case False
    then have "r = None \<and> s' = lex_unget_unsave c1 s1" using assms(1) True ga g by (auto simp: scan_exp_def)
    then show ?thesis using G1 T by (simp add: got_def)
  qed
qed (use assms in \<open>auto simp: scan_exp_def\<close>)

lemma scan_frac_total:
  assumes "ready s" "wt s < n" shows "\<exists>r. scan_frac n c s = Some r"
proof -
  obtain c1 s1 where g: "stream_get s = (c1, s1)" by fastforce
  note G = stream_got [OF assms(1) g]
  then have "ready (lex_save c1 s1)" "wt (lex_save c1 s1) < n" using assms(2) by (auto simp: lexed_def)
  then obtain c2 s2 where "scan_digits n (lex_save c1 s1) = Some (c2, s2)"
    using scan_while_total [of "lex_save c1 s1" n l_isdigit] by (auto simp: scan_digits_while)
  then show ?thesis using g by (auto simp: scan_frac_def lex_get_def)
qed

lemma scan_exp_total:
  assumes "ready s" "wt s < n" shows "\<exists>r. scan_exp n c s = Some r"
proof -
  obtain a sa where ga: "lex_get_save s = (a, sa)" by fastforce
  obtain c1 s1 where g: "(if a = 43 \<or> a = 45 then lex_get_save sa else (a, sa)) = (c1, s1)" by fastforce
  note G = get_save [OF assms(1) ga]
  have "ready s1" "wt s1 \<le> wt s" using g G get_save(2,3) [OF G(3)] by (force simp: lexed_def split: if_splits)+
  then obtain c2 s2 where "scan_digits n s1 = Some (c2, s2)"
    using scan_while_total [of s1 n l_isdigit] assms(2) by (auto simp: scan_digits_while)
  then show ?thesis using g ga by (auto simp: scan_exp_def split: prod.splits)
qed

end

lemma keyword_not_string: "keyword_token x \<noteq> TOKEN_STRING"
  by (simp add: keyword_token_def tokens del: cstr_Cons)

text \<open>A call of \<^verbatim>\<open>lex_scan\<close>: a token that is not the end or an error took a byte from the input.\<close>

definition scanned :: "('d \<Rightarrow> int \<times> 'd) \<Rightarrow> ('d \<Rightarrow> byte list) \<Rightarrow> 'd parser \<Rightarrow> 'd parser \<Rightarrow> bool" where
  "scanned get bytes s s' \<longleftrightarrow> lexed get bytes s s' \<and> (ps_token s' = TOKEN_STRING \<longrightarrow> lx_string (ps_lex s') \<noteq> None) \<and>
     (ps_token s' \<noteq> TOKEN_EOF \<and> ps_token s' \<noteq> TOKEN_INVALID \<longrightarrow> weight bytes (ps_stream s') < weight bytes (ps_stream s))"

context byte_source
begin

lemma finish_integer_lexed:
  "gt s0 c s \<Longrightarrow> finish_integer c s = (r, s') \<Longrightarrow> lxd s0 s' \<and> (ps_token s' = ps_token s \<or> ps_token s' = TOKEN_INTEGER)"
  by (auto simp: finish_integer_def Let_def got_def split: prod.splits if_splits)

lemma finish_real_lexed:
  "gt s0 c s \<Longrightarrow> finish_real point c s = (r, s') \<Longrightarrow> lxd s0 s' \<and> (ps_token s' = ps_token s \<or> ps_token s' = TOKEN_REAL)"
  by (auto simp: finish_real_def Let_def got_def split: prod.splits if_splits)

lemma lex_scan_number_lexed:
  assumes "lex_scan_number point n c s = Some (r, s')" "ready s" "l_isdigit c \<or> c = 45"
  shows "lxd s s' \<and> ps_token s' \<noteq> TOKEN_STRING"
proof -
  let ?s = "set_token TOKEN_INVALID s"
  obtain c1 s1 where 1: "scan_int_part n c ?s = Some (c1, s1)"
    using assms(1) by (auto simp: lex_scan_number_def bind_eq_Some_conv)
  have P1: "number_part get bytes ?s c1 s1" using scan_int_part_part [OF 1] assms(2,3) by simp
  then have T1: "lxd s s1" "ps_token s1 = TOKEN_INVALID" "\<And>d. c1 = Some d \<Longrightarrow> gt ?s d s1"
    by (auto simp: number_part_def)
  have fin: "lxd s s' \<and> ps_token s' \<noteq> TOKEN_STRING" if "gt ?s d t" "ps_token t = TOKEN_INVALID"
    "finish_integer d t = (r, s') \<or> finish_real point d t = (r, s')" for d t
    using finish_integer_lexed [OF that(1), of r s'] finish_real_lexed [OF that(1), of point r s'] that(2,3)
    by (auto simp: tokens)
  show ?thesis
  proof (cases c1)
    case None
    then show ?thesis using assms(1) 1 T1 by (auto simp: lex_scan_number_def tokens)
  next
    case (Some d)
    show ?thesis
    proof (cases "\<not> flag_set (lx_flags (ps_lex s1)) JSON_DECODE_INT_AS_REAL \<and> d \<noteq> 46 \<and> d \<noteq> 69 \<and> d \<noteq> 101")
      case True
      then have "finish_integer d s1 = (r, s')" using assms(1) 1 Some by (simp add: lex_scan_number_def)
      then show ?thesis using fin T1 Some by blast
    next
      case False
      then have eq: "lex_scan_number point n c s = do {
           (c3, s3) \<leftarrow> scan_frac n d s1;
           case c3 of None \<Rightarrow> Some (False, s3)
           | Some c4 \<Rightarrow> do {
               (c5, s5) \<leftarrow> scan_exp n c4 s3;
               case c5 of None \<Rightarrow> Some (False, s5) | Some c6 \<Rightarrow> Some (finish_real point c6 s5) } }"
        using 1 Some by (auto simp: lex_scan_number_def)
      then obtain c3 s3 where 3: "scan_frac n d s1 = Some (c3, s3)" using assms(1) by (cases "scan_frac n d s1") auto
      note F = scan_frac_part [OF 3 T1(3) [OF Some]]
      show ?thesis
      proof (cases c3)
        case None
        then show ?thesis using assms(1) eq 3 F T1(2) by (simp add: tokens)
      next
        case e: (Some e)
        then obtain c5 s5 where 5: "scan_exp n e s3 = Some (c5, s5)" using assms(1) eq 3 by (cases "scan_exp n e s3") auto
        have "gt ?s e s3" using F e by blast
        note E = scan_exp_part [OF 5 this]
        have T5: "ps_token s5 = TOKEN_INVALID" using E F T1(2) by simp
        show ?thesis
        proof (cases c5)
          case None
          then show ?thesis using assms(1) eq 3 5 e E T5 by (simp add: tokens)
        next
          case f: (Some f)
          then have "finish_real point f s5 = (r, s')" using assms(1) eq 3 5 e by simp
          then show ?thesis using fin E f T5 by blast
        qed
      qed
    qed
  qed
qed

lemma lex_scan_number_total:
  assumes "ready s" "wt s < n" "l_isdigit c \<or> c = 45"
  shows "\<exists>r. lex_scan_number point n c s = Some r"
proof -
  let ?s = "set_token TOKEN_INVALID s"
  obtain c1 s1 where 1: "scan_int_part n c ?s = Some (c1, s1)" using scan_int_part_total [of ?s n c] assms by auto
  have P1: "number_part get bytes ?s c1 s1" using scan_int_part_part [OF 1] assms by simp
  then have L1: "ready s1" "wt s1 < n" using assms(2) by (auto simp: number_part_def lexed_def)
  show ?thesis
  proof (cases c1)
    case (Some d)
    obtain c3 s3 where 3: "scan_frac n d s1 = Some (c3, s3)" using scan_frac_total [OF L1, of d] by auto
    have "gt ?s d s1" using P1 Some by (simp add: number_part_def)
    from scan_frac_part [OF 3 this] have "ready s3" "wt s3 < n" using assms(2) by (auto simp: lexed_def)
    then have "\<exists>c5 s5. scan_exp n e s3 = Some (c5, s5)" for e using scan_exp_total by fastforce
    then obtain c5 s5 where "scan_exp n (the c3) s3 = Some (c5, s5)" by blast
    then show ?thesis using 1 3 Some by (cases c3; cases c5) (auto simp: lex_scan_number_def)
  qed (use 1 in \<open>auto simp: lex_scan_number_def\<close>)
qed

abbreviation scd where "scd \<equiv> scanned get bytes"

lemma lex_scan_scanned:
  assumes "lex_scan point n s = Some s'" "ready s"
  shows "scd s s'"
proof -
  let ?s1 = "upd_lex (\<lambda>l. l\<lparr>lx_saved_text := strbuffer_clear (lx_saved_text l)\<rparr>) s"
  let ?s2 = "if ps_token ?s1 = TOKEN_STRING then lex_free_string ?s1 else ?s1"
  obtain c s3 where k: "skip_space n ?s2 = Some (c, s3)" using assms(1) by (auto simp: lex_scan_def Let_def bind_eq_Some_conv)
  have r2: "ready ?s2" "wt ?s2 = wt s" "lxd s ?s2" using assms(2) lexed_refl [OF assms(2)] by auto
  note K = skip_space_lexed [OF k r2(1)]
  have L3: "lxd s s3" using K r2(3) lexed_trans by blast
  show ?thesis
  proof (cases "c = STREAM_STATE_EOF \<or> c = STREAM_STATE_ERROR")
    case True
    then show ?thesis using assms(1) k L3 by (auto simp: lex_scan_def Let_def scanned_def tokens stream_states)
  next
    case False
    let ?s4 = "lex_save c s3"
    have w: "wt ?s4 < wt s" "ready ?s4" using K False r2(2) by (auto simp: lexed_def)
    have from4: "scd s s'" if "lxd ?s4 s'" "ps_token s' = TOKEN_STRING \<longrightarrow> lx_string (ps_lex s') \<noteq> None"
    proof -
      have "lxd s s'" using lexed_trans [OF L3] that(1) by simp
      moreover have "wt s' < wt s" using that(1) w(1) by (simp add: lexed_def)
      ultimately show ?thesis using that(2) by (simp add: scanned_def)
    qed
    have self: "lxd ?s4 ?s4" using w(2) lexed_refl by blast
    consider (punct) "c \<in> {123, 125, 91, 93, 58, 44}" | (str) "c = 34"
      | (num) "c \<notin> {123, 125, 91, 93, 58, 44, 34}" "l_isdigit c \<or> c = 45"
      | (alpha) "c \<notin> {123, 125, 91, 93, 58, 44, 34}" "\<not> (l_isdigit c \<or> c = 45)" "l_isalpha c"
      | (other) "c \<notin> {123, 125, 91, 93, 58, 44, 34}" "\<not> (l_isdigit c \<or> c = 45)" "\<not> l_isalpha c" by blast
    then show ?thesis
    proof cases
      case punct
      then have "s' = set_token c ?s4" using assms(1) k False by (simp add: lex_scan_def Let_def)
      moreover have "c \<noteq> TOKEN_STRING" using punct by (auto simp: tokens)
      ultimately show ?thesis using self by (intro from4) simp_all
    next
      case str
      then have "lex_scan_string n ?s4 = Some s'" using assms(1) k False by (simp add: lex_scan_def Let_def)
      from lex_scan_string_lexed [OF this w(2)] show ?thesis using from4 by blast
    next
      case num
      then obtain r where "lex_scan_number point n c ?s4 = Some (r, s')"
        using assms(1) k False by (auto simp: lex_scan_def Let_def bind_eq_Some_conv)
      from lex_scan_number_lexed [OF this w(2) num(2)] show ?thesis using from4 by blast
    next
      case alpha
      then obtain c1 s5 x where a: "scan_alpha n ?s4 = Some (c1, s5)" "s' = set_token (keyword_token x) (lex_unget_unsave c1 s5)"
        using assms(1) k False by (simp add: lex_scan_def Let_def bind_eq_Some_conv) blast
      have "gt ?s4 c1 s5" using scan_while_got [OF _ w(2)] a(1) by (simp add: scan_alpha_while)
      then show ?thesis using a(2) by (intro from4) (simp_all add: got_def keyword_not_string)
    next
      case other
      then have "s' = set_token TOKEN_INVALID (lex_save_cached ?s4)" using assms(1) k False by (simp add: lex_scan_def Let_def)
      then show ?thesis using save_cached_lexed [OF self] by (intro from4) (auto simp: lex_save_cached_def tokens)
    qed
  qed
qed

lemma lex_scan_total:
  assumes "ready s" "wt s < n"
  shows "\<exists>s'. lex_scan point n s = Some s'"
proof -
  let ?s1 = "upd_lex (\<lambda>l. l\<lparr>lx_saved_text := strbuffer_clear (lx_saved_text l)\<rparr>) s"
  let ?s2 = "if ps_token ?s1 = TOKEN_STRING then lex_free_string ?s1 else ?s1"
  have r2: "ready ?s2" "wt ?s2 < n" using assms by auto
  obtain c s3 where k: "skip_space n ?s2 = Some (c, s3)" using skip_space_total [OF r2] by auto
  note K = skip_space_lexed [OF k r2(1)]
  show ?thesis
  proof (cases "c = STREAM_STATE_EOF \<or> c = STREAM_STATE_ERROR")
    case True
    then show ?thesis using k by (auto simp: lex_scan_def Let_def)
  next
    case False
    let ?s4 = "lex_save c s3"
    have w: "ready ?s4" "wt ?s4 + 1 < n" using K False r2(2) by (auto simp: lexed_def)
    have "\<exists>s'. lex_scan_string n ?s4 = Some s'" using lex_scan_string_total w by blast
    moreover have "\<exists>r. scan_alpha n ?s4 = Some r" using scan_while_total [of ?s4 n l_isalpha] w by (simp add: scan_alpha_while)
    moreover have "\<exists>r. lex_scan_number point n c ?s4 = Some r" if "l_isdigit c \<or> c = 45"
      using lex_scan_number_total [of ?s4 n c point] w that by simp
    ultimately show ?thesis using k False by (auto simp: lex_scan_def Let_def)
  qed
qed

end

end
