(* ===== verification/Json_Parse.thy ===== *)
theory Json_Parse
  imports Json_Lex
begin

text \<open>
  The parser of \<^verbatim>\<open>load.c\<close> ends on every input.  The bytes left and the token just read bound
  the rounds; case rules for the three mutually recursive parts and for a container serve
  this and the following theories.  Strings and buffers are sources of bytes.
\<close>

section \<open>The parser ends\<close>

text \<open>A bound on the rounds left: bytes to read, and one for a token that has been read.\<close>

definition potential :: "('d \<Rightarrow> byte list) \<Rightarrow> 'd parser \<Rightarrow> nat" where
  "potential bytes s = weight bytes (ps_stream s) + (if ps_token s = TOKEN_EOF \<or> ps_token s = TOKEN_INVALID then 0 else 1)"

lemma scanned_potential: "scanned get bytes s s' \<Longrightarrow> potential bytes s' \<le> weight bytes (ps_stream s)"
  by (auto simp: scanned_def lexed_def potential_def)

lemma scannedD: "scanned get bytes s s' \<Longrightarrow> stream_ok get (ps_stream s') \<and> weight bytes (ps_stream s') \<le> weight bytes (ps_stream s)"
  by (simp add: scanned_def lexed_def)

lemma parse_fail_stream [simp]: "ps_stream (snd (parse_fail p s)) = ps_stream s"
  by (simp add: parse_fail_def)

lemma parse_fail_eq: "parse_fail p s = (r, s') \<Longrightarrow> r = None \<and> ps_stream s' = ps_stream s"
  by (auto simp: parse_fail_def)

lemma lift_world_stream: "lift_world f s = (r, s') \<Longrightarrow> ps_lex s' = ps_lex s"
  by (auto simp: lift_world_def split: prod.splits)

lemma parse_scalar_stream: "parse_scalar flags s = (r, s') \<Longrightarrow> ps_stream s' = ps_stream s"
  by (auto simp: parse_scalar_def parse_string_token_def Let_def dest!: lift_world_stream split: if_splits prod.splits)

lemma parse_end_stream: "parse_end closing msg p s = (r, s') \<Longrightarrow> ps_stream s' = ps_stream s"
  by (auto simp: parse_end_def parse_fail_def split: if_splits)

context byte_source
begin

lemma parse_key_moved:
  assumes "parse_key point n flags object s = Some (key, s')" "ready s"
  shows "ready s' \<and> wt s' \<le> wt s \<and> (key \<noteq> None \<longrightarrow> wt s' < wt s)"
proof -
  have stolen: "ps_stream s1 = ps_stream s" if "lex_steal_string s = (k, s1)" for k s1
    using that by (auto simp: lex_steal_string_def split: if_splits)
  show ?thesis
  proof (cases "key")
    case None
    show ?thesis using assms None stolen
      by (auto simp: parse_key_def parse_fail_def bind_eq_Some_conv dest: lex_scan_scanned
          split: if_splits prod.splits option.splits)
        (metis lex_scan_scanned scannedD stolen)+
  next
    case (Some k)
    then obtain s1 where k: "lex_steal_string s = (Some k, s1)" "lex_scan point n s1 = Some s'" "ps_token s' = 58"
      using assms(1) by (auto simp: parse_key_def bind_eq_Some_conv split: if_splits prod.splits option.splits)
    have "scd s1 s'" using lex_scan_scanned [OF k(2)] stolen [OF k(1)] assms(2) by simp
    then show ?thesis using stolen [OF k(1)] k(3) by (auto simp: scanned_def lexed_def tokens)
  qed
qed

end

definition deeper :: "'d parser \<Rightarrow> 'd parser" where
  "deeper = upd_lex (\<lambda>l. l\<lparr>lx_depth := lx_depth l + 1\<rparr>)"

definition shallower :: "'d parser \<Rightarrow> 'd parser" where
  "shallower = upd_lex (\<lambda>l. l\<lparr>lx_depth := lx_depth l - 1\<rparr>)"

definition leave :: "ptr option \<Rightarrow> 'd parser \<Rightarrow> 'd parser" where
  "leave r s = (if r = None then s else shallower s)"

lemma level_stream [simp]:
  "ps_stream (deeper s) = ps_stream s" "ps_stream (shallower s) = ps_stream s" "ps_stream (leave r s) = ps_stream s"
  "ps_world (deeper s) = ps_world s" "ps_world (shallower s) = ps_world s" "ps_world (leave r s) = ps_world s"
  "ps_token (deeper s) = ps_token s" "lx_string (ps_lex (deeper s)) = lx_string (ps_lex s)"
  "lx_depth (ps_lex (deeper s)) = lx_depth (ps_lex s) + 1" "lx_integer (ps_lex (deeper s)) = lx_integer (ps_lex s)"
  "lx_real (ps_lex (deeper s)) = lx_real (ps_lex s)"
  by (simp_all add: deeper_def shallower_def leave_def)

text \<open>The container part of \<^verbatim>\<open>parse_value\<close>: its allocation, the first token and the loop.\<close>

definition parse_container where
  "parse_container create point n closing loop s =
     (case lift_world create s of
        (None, s1) \<Rightarrow> Some (None, s1)
      | (Some p, s1) \<Rightarrow> do { s2 \<leftarrow> lex_scan point n s1; if ps_token s2 = closing then Some (Some p, s2) else loop p s2 })"

lemma parse_value_Suc:
  "parse_value (Suc n) point flags s =
     (if lx_depth (ps_lex s) + 1 > JSON_PARSER_MAX_DEPTH
      then Some (None, error_set json_error_stack_overflow (cstr ''maximum parsing depth reached'') (deeper s))
      else map_option (\<lambda>(r, s'). (r, leave r s'))
        (if ps_token s = 123 then parse_container json_object point n 125 (parse_object_loop n point flags) (deeper s)
         else if ps_token s = 91 then parse_container json_array point n 93 (parse_array_loop n point flags) (deeper s)
         else Some (parse_scalar flags (deeper s))))"
proof -
  have leave_eq: "(case r of None \<Rightarrow> Some (None, s2) | Some p \<Rightarrow> Some (Some p, shallower s2)) = Some (r, leave r s2)" for r and s2 :: "'a parser"
    by (simp add: leave_def split: option.split)
  have "(do { (json, s2) \<leftarrow> m; case json of None \<Rightarrow> Some (None, s2) | Some p \<Rightarrow> Some (Some p, shallower s2) }) =
      map_option (\<lambda>(r, s'). (r, leave r s')) m" for m :: "(ptr option \<times> 'a parser) option"
    by (cases m) (auto simp: leave_eq split: prod.splits)
  then show ?thesis
    by (simp only: parse_value.simps deeper_def [symmetric] shallower_def [symmetric] parse_container_def Let_def level_stream)
qed

lemma parse_container_cases:
  assumes "parse_container create point n closing loop s = Some (r, s')"
  obtains (nomem) "r = None" "lift_world create s = (None, s')"
  | (empty) p s1 where "lift_world create s = (Some p, s1)" "lex_scan point n s1 = Some s'" "ps_token s' = closing" "r = Some p"
  | (loop) p s1 s2 where "lift_world create s = (Some p, s1)" "lex_scan point n s1 = Some s2" "ps_token s2 \<noteq> closing" "loop p s2 = Some (r, s')"
proof (cases "lift_world create s")
  case (Pair m s1)
  show ?thesis
  proof (cases m)
    case None
    then show ?thesis using assms Pair nomem by (simp add: parse_container_def)
  next
    case (Some p)
    then obtain s2 where "lex_scan point n s1 = Some s2" using assms Pair by (auto simp: parse_container_def bind_eq_Some_conv)
    then show ?thesis using assms Pair Some empty loop by (auto simp: parse_container_def split: if_splits)
  qed
qed

lemma parse_value_cases:
  assumes "parse_value (Suc n) point flags s = Some (r, s')"
  obtains (deep) "r = None" "s' = error_set json_error_stack_overflow (cstr ''maximum parsing depth reached'') (deeper s)"
      "JSON_PARSER_MAX_DEPTH < lx_depth (ps_lex s) + 1"
  | (object) s1 where "ps_token s = 123" "s' = leave r s1" "lx_depth (ps_lex s) + 1 \<le> JSON_PARSER_MAX_DEPTH"
      "parse_container json_object point n 125 (parse_object_loop n point flags) (deeper s) = Some (r, s1)"
  | (array) s1 where "ps_token s = 91" "s' = leave r s1" "lx_depth (ps_lex s) + 1 \<le> JSON_PARSER_MAX_DEPTH"
      "parse_container json_array point n 93 (parse_array_loop n point flags) (deeper s) = Some (r, s1)"
  | (scalar) s1 where "s' = leave r s1" "lx_depth (ps_lex s) + 1 \<le> JSON_PARSER_MAX_DEPTH" "parse_scalar flags (deeper s) = (r, s1)"
      "ps_token s \<noteq> 123" "ps_token s \<noteq> 91"
proof (cases "lx_depth (ps_lex s) + 1 > JSON_PARSER_MAX_DEPTH")
  case True
  then show ?thesis using assms deep by (simp add: parse_value_Suc del: cstr_Cons parse_value.simps)
next
  case False
  then have d: "lx_depth (ps_lex s) + 1 \<le> JSON_PARSER_MAX_DEPTH" by simp
  consider "ps_token s = 123" | "ps_token s = 91" | "ps_token s \<noteq> 123" "ps_token s \<noteq> 91" by blast
  then show ?thesis
  proof cases
    case 1
    then show ?thesis using assms False d object by (auto simp: parse_value_Suc simp del: cstr_Cons parse_value.simps)
  next
    case 2
    then show ?thesis using assms False d array by (auto simp: parse_value_Suc simp del: cstr_Cons parse_value.simps)
  next
    case 3
    obtain r1 s1 where p: "parse_scalar flags (deeper s) = (r1, s1)" by fastforce
    then have "r1 = r" "s' = leave r s1" using assms False 3 by (auto simp: parse_value_Suc simp del: cstr_Cons parse_value.simps)
    then show ?thesis using scalar [OF _ d _ 3] p by simp
  qed
qed

lemma parse_array_loop_cases:
  assumes "parse_array_loop (Suc n) point flags a s = Some (r, s')"
  obtains (eof) "ps_token s = 0" "parse_end 93 ([39, 93, 39] @ cstr '' expected'') a s = (r, s')"
  | (bad) s1 where "parse_value n point flags s = Some (None, s1)" "parse_fail a s1 = (r, s')"
  | (nomem) e s1 x s2 where "parse_value n point flags s = Some (Some e, s1)"
      "lift_world (json_array_append_new (Some a) (Some e)) s1 = (x, s2)" "x \<noteq> 0" "parse_fail a s2 = (r, s')"
  | (last) e s1 s2 s3 where "parse_value n point flags s = Some (Some e, s1)"
      "lift_world (json_array_append_new (Some a) (Some e)) s1 = (0, s2)" "lex_scan point n s2 = Some s3" "ps_token s3 \<noteq> 44"
      "parse_end 93 ([39, 93, 39] @ cstr '' expected'') a s3 = (r, s')"
  | (more) e s1 s2 s3 s4 where "parse_value n point flags s = Some (Some e, s1)"
      "lift_world (json_array_append_new (Some a) (Some e)) s1 = (0, s2)" "lex_scan point n s2 = Some s3" "ps_token s3 = 44"
      "lex_scan point n s3 = Some s4" "parse_array_loop n point flags a s4 = Some (r, s')"
proof (cases "ps_token s = 0")
  case False
  then obtain v s1 where v: "parse_value n point flags s = Some (v, s1)" using assms by (auto simp: bind_eq_Some_conv)
  show ?thesis
  proof (cases v)
    case None
    then show ?thesis using assms False v bad by simp
  next
    case (Some e)
    obtain x s2 where x: "lift_world (json_array_append_new (Some a) (Some e)) s1 = (x, s2)" by fastforce
    show ?thesis
    proof (cases "x = 0")
      case True
      then obtain s3 where s3: "lex_scan point n s2 = Some s3" using assms False v Some x by (auto simp: bind_eq_Some_conv)
      show ?thesis
      proof (cases "ps_token s3 = 44")
        case comma: True
        then obtain s4 where "lex_scan point n s3 = Some s4" using assms False v Some x True s3 by (auto simp: bind_eq_Some_conv)
        then show ?thesis using assms False v Some x True s3 comma more by simp
      qed (use assms False v Some x True s3 last in \<open>simp del: cstr_Cons\<close>)
    qed (use assms False v Some x nomem in simp)
  qed
qed (use assms eof in \<open>simp del: cstr_Cons\<close>)

lemma parse_object_loop_cases:
  assumes "parse_object_loop (Suc n) point flags a s = Some (r, s')"
  obtains (nokey) "parse_key point n flags a s = Some (None, s')" "r = None"
  | (bad) k s1 s2 s3 where "parse_key point n flags a s = Some (Some k, s1)" "lex_scan point n s1 = Some s2"
      "parse_value n point flags s2 = Some (None, s3)" "parse_fail a s3 = (r, s')"
  | (nomem) k s1 s2 v s3 x s4 where "parse_key point n flags a s = Some (Some k, s1)" "lex_scan point n s1 = Some s2"
      "parse_value n point flags s2 = Some (Some v, s3)"
      "lift_world (json_object_set_new_nocheck (Some a) (Some k) (Some v)) s3 = (x, s4)" "x \<noteq> 0" "parse_fail a s4 = (r, s')"
  | (last) k s1 s2 v s3 s4 s5 where "parse_key point n flags a s = Some (Some k, s1)" "lex_scan point n s1 = Some s2"
      "parse_value n point flags s2 = Some (Some v, s3)"
      "lift_world (json_object_set_new_nocheck (Some a) (Some k) (Some v)) s3 = (0, s4)"
      "lex_scan point n s4 = Some s5" "ps_token s5 \<noteq> 44" "parse_end 125 ([39, 125, 39] @ cstr '' expected'') a s5 = (r, s')"
  | (more) k s1 s2 v s3 s4 s5 s6 where "parse_key point n flags a s = Some (Some k, s1)" "lex_scan point n s1 = Some s2"
      "parse_value n point flags s2 = Some (Some v, s3)"
      "lift_world (json_object_set_new_nocheck (Some a) (Some k) (Some v)) s3 = (0, s4)"
      "lex_scan point n s4 = Some s5" "ps_token s5 = 44" "lex_scan point n s5 = Some s6"
      "parse_object_loop n point flags a s6 = Some (r, s')"
proof -
  obtain key s1 where k: "parse_key point n flags a s = Some (key, s1)" using assms by (auto simp: bind_eq_Some_conv)
  show ?thesis
  proof (cases key)
    case (Some key1)
    then obtain s2 where s2: "lex_scan point n s1 = Some s2" using assms k by (auto simp: bind_eq_Some_conv)
    then obtain v s3 where v: "parse_value n point flags s2 = Some (v, s3)" using assms k Some by (auto simp: bind_eq_Some_conv)
    show ?thesis
    proof (cases v)
      case None
      then show ?thesis using assms k Some s2 v bad by simp
    next
      case vp: (Some vp)
      obtain x s4 where x: "lift_world (json_object_set_new_nocheck (Some a) (Some key1) (Some vp)) s3 = (x, s4)" by fastforce
      show ?thesis
      proof (cases "x = 0")
        case True
        then obtain s5 where s5: "lex_scan point n s4 = Some s5" using assms k Some s2 v vp x by (auto simp: bind_eq_Some_conv)
        show ?thesis
        proof (cases "ps_token s5 = 44")
          case comma: True
          then obtain s6 where "lex_scan point n s5 = Some s6" using assms k Some s2 v vp x True s5 by (auto simp: bind_eq_Some_conv)
          then show ?thesis using assms k Some s2 v vp x True s5 comma more by simp
        qed (use assms k Some s2 v vp x True s5 last in \<open>simp del: cstr_Cons\<close>)
      qed (use assms k Some s2 v vp x nomem in simp)
    qed
  qed (use assms k nokey in simp)
qed

context byte_source
begin

abbreviation pot where "pot \<equiv> potential bytes"

lemma lift_world_wt: "lift_world f s = (r, s') \<Longrightarrow> ps_stream s' = ps_stream s"
  using lift_world_stream by fastforce

lemma lex_scan_moved: "lex_scan point n s = Some s' \<Longrightarrow> ready s \<Longrightarrow> ready s' \<and> wt s' \<le> wt s \<and> pot s' \<le> wt s"
  using lex_scan_scanned scannedD scanned_potential by blast

lemma parse_container_moved:
  assumes "parse_container create point n closing loop s = Some (r, s')" "ready s"
    and "\<And>p s r s'. loop p s = Some (r, s') \<Longrightarrow> ready s \<Longrightarrow> ready s' \<and> wt s' \<le> wt s"
  shows "ready s' \<and> wt s' \<le> wt s"
  using assms(1)
proof (cases rule: parse_container_cases)
  case nomem
  then show ?thesis using assms(2) lift_world_wt [OF nomem(2)] by simp
next
  case (empty p s1)
  then show ?thesis using assms(2) lift_world_wt [OF empty(1)] lex_scan_moved [OF empty(2)] by simp
next
  case (loop p s1 s2)
  have "ready s1" "wt s1 = wt s" using lift_world_wt [OF loop(1)] assms(2) by simp_all
  then have "ready s2" "wt s2 \<le> wt s" using lex_scan_moved [OF loop(2)] by simp_all
  then show ?thesis using assms(3) [OF loop(4)] by simp
qed

lemma parse_moved:
  "(\<forall>s r s'. parse_value n point flags s = Some (r, s') \<longrightarrow> ready s \<longrightarrow> ready s' \<and> wt s' \<le> wt s) \<and>
   (\<forall>p s r s'. parse_object_loop n point flags p s = Some (r, s') \<longrightarrow> ready s \<longrightarrow> ready s' \<and> wt s' \<le> wt s) \<and>
   (\<forall>p s r s'. parse_array_loop n point flags p s = Some (r, s') \<longrightarrow> ready s \<longrightarrow> ready s' \<and> wt s' \<le> wt s)"
proof (induction n)
  case (Suc n)
  have V: "ready s' \<and> wt s' \<le> wt s" if "parse_value (Suc n) point flags s = Some (r, s')" "ready s" for s r s'
    using that(1)
  proof (cases rule: parse_value_cases)
    case deep
    then show ?thesis using that(2) by (simp del: cstr_Cons)
  next
    case (object s1)
    then show ?thesis using parse_container_moved [OF object(4)] that(2) Suc by simp
  next
    case (array s1)
    then show ?thesis using parse_container_moved [OF array(4)] that(2) Suc by simp
  next
    case (scalar s1)
    then show ?thesis using parse_scalar_stream [OF scalar(3)] that(2) by simp
  qed
  have A: "ready s' \<and> wt s' \<le> wt s" if "parse_array_loop (Suc n) point flags p s = Some (r, s')" "ready s" for p s r s'
    using that(1)
  proof (cases rule: parse_array_loop_cases)
    case eof
    then show ?thesis using parse_end_stream [OF eof(2)] that(2) by simp
  next
    case (bad s1)
    then show ?thesis using parse_fail_eq [OF bad(2)] Suc that(2) by auto
  next
    case (nomem e s1 x s2)
    then show ?thesis using parse_fail_eq [OF nomem(4)] lift_world_wt [OF nomem(2)] Suc that(2) by auto
  next
    case (last e s1 s2 s3)
    have "ready s1 \<and> wt s1 \<le> wt s" using last(1) Suc that(2) by blast
    then show ?thesis using lex_scan_moved [OF last(3)] lift_world_wt [OF last(2)] parse_end_stream [OF last(5)] by auto
  next
    case (more e s1 s2 s3 s4)
    have "ready s1 \<and> wt s1 \<le> wt s" using more(1) Suc that(2) by blast
    then have "ready s4 \<and> wt s4 \<le> wt s" using lex_scan_moved [OF more(3)] lift_world_wt [OF more(2)] lex_scan_moved [OF more(5)] by auto
    then show ?thesis using more(6) Suc by (meson le_trans)
  qed
  have member: "ready s3 \<and> wt s3 \<le> wt s" if "parse_key point n flags p s = Some (k, s1)" "ready s"
    "lex_scan point n s1 = Some s2" "parse_value n point flags s2 = Some (v, s3)" for p s k s1 s2 v s3
    using parse_key_moved [OF that(1,2)] lex_scan_moved [OF that(3)] that(4) Suc by (meson le_trans)
  have O: "ready s' \<and> wt s' \<le> wt s" if "parse_object_loop (Suc n) point flags p s = Some (r, s')" "ready s" for p s r s'
    using that(1)
  proof (cases rule: parse_object_loop_cases)
    case nokey
    then show ?thesis using parse_key_moved [OF nokey(1) that(2)] by simp
  next
    case (bad k s1 s2 s3)
    have "ready s3 \<and> wt s3 \<le> wt s" using member [OF bad(1) that(2) bad(2,3)] .
    then show ?thesis using parse_fail_eq [OF bad(4)] by simp
  next
    case (nomem k s1 s2 v s3 x s4)
    have "ready s3 \<and> wt s3 \<le> wt s" using member [OF nomem(1) that(2) nomem(2,3)] .
    then show ?thesis using parse_fail_eq [OF nomem(6)] lift_world_wt [OF nomem(4)] by simp
  next
    case (last k s1 s2 v s3 s4 s5)
    have "ready s3 \<and> wt s3 \<le> wt s" using member [OF last(1) that(2) last(2,3)] .
    then show ?thesis using lift_world_wt [OF last(4)] lex_scan_moved [OF last(5)] parse_end_stream [OF last(7)] by auto
  next
    case (more k s1 s2 v s3 s4 s5 s6)
    have "ready s3 \<and> wt s3 \<le> wt s" using member [OF more(1) that(2) more(2,3)] .
    then have "ready s6 \<and> wt s6 \<le> wt s"
      using lift_world_wt [OF more(4)] lex_scan_moved [OF more(5)] lex_scan_moved [OF more(7)] by auto
    then show ?thesis using more(8) Suc by (meson le_trans)
  qed
  show ?case using V A O by blast
qed simp

lemmas parse_value_moved = conjunct1 [OF parse_moved, rule_format]

end

lemma token_58: "(58::int) \<noteq> TOKEN_EOF \<and> (58::int) \<noteq> TOKEN_INVALID" "(44::int) \<noteq> TOKEN_EOF \<and> (44::int) \<noteq> TOKEN_INVALID"
  "(91::int) \<noteq> TOKEN_EOF \<and> (91::int) \<noteq> TOKEN_INVALID" "(123::int) \<noteq> TOKEN_EOF \<and> (123::int) \<noteq> TOKEN_INVALID"
  by (simp_all add: tokens)

context byte_source
begin

lemma parse_key_total:
  assumes "ready s" "wt s < n"
  shows "\<exists>r. parse_key point n flags object s = Some r"
proof -
  obtain k s1 where k: "lex_steal_string s = (k, s1)" by fastforce
  then have "ps_stream s1 = ps_stream s" by (auto simp: lex_steal_string_def split: if_splits)
  then obtain s2 where "lex_scan point n s1 = Some s2" using lex_scan_total [of s1 n point] assms by auto
  then show ?thesis using k by (auto simp: parse_key_def simp del: cstr_Cons split: option.splits)
qed

lemma parse_container_total:
  assumes "ready s" "pot s \<le> m" "ps_token s \<noteq> TOKEN_EOF" "ps_token s \<noteq> TOKEN_INVALID" "2 * m \<le> n"
    and "\<And>p s'. ready s' \<Longrightarrow> pot s' < m \<Longrightarrow> \<exists>r. loop p s' = Some r"
  shows "\<exists>r. parse_container create point n closing loop s = Some r"
proof -
  obtain x s1 where l: "lift_world create s = (x, s1)" by fastforce
  have w: "ready s1" "wt s1 < m" using lift_world_wt [OF l] assms(1-4) by (auto simp: potential_def)
  then obtain s2 where s2: "lex_scan point n s1 = Some s2" using lex_scan_total [of s1 n point] assms(5) by auto
  then have "ready s2" "pot s2 < m" using lex_scan_moved [OF s2 w(1)] w(2) by simp_all
  then have "\<exists>r. loop p s2 = Some r" for p using assms(6) by blast
  then show ?thesis using l s2 by (auto simp: parse_container_def split: option.splits)
qed

lemma parse_total:
  "(\<forall>s. ready s \<longrightarrow> 2 * pot s + 1 \<le> n \<longrightarrow> (\<exists>r. parse_value n point flags s = Some r)) \<and>
   (\<forall>p s. ready s \<longrightarrow> 2 * pot s + 2 \<le> n \<longrightarrow> (\<exists>r. parse_object_loop n point flags p s = Some r)) \<and>
   (\<forall>p s. ready s \<longrightarrow> 2 * pot s + 2 \<le> n \<longrightarrow> (\<exists>r. parse_array_loop n point flags p s = Some r))"
proof (induction n)
  case (Suc n)
  then have IH: "\<And>s. ready s \<Longrightarrow> 2 * pot s + 1 \<le> n \<Longrightarrow> \<exists>r. parse_value n point flags s = Some r"
    "\<And>p s. ready s \<Longrightarrow> 2 * pot s + 2 \<le> n \<Longrightarrow> \<exists>r. parse_object_loop n point flags p s = Some r"
    "\<And>p s. ready s \<Longrightarrow> 2 * pot s + 2 \<le> n \<Longrightarrow> \<exists>r. parse_array_loop n point flags p s = Some r" by blast+
  have V: "\<exists>r. parse_value (Suc n) point flags s = Some r" if "ready s" "2 * pot s + 1 \<le> Suc n" for s
  proof -
    have d: "ready (deeper s)" "pot (deeper s) = pot s" using that(1) by (simp_all add: potential_def)
    have "\<exists>r. parse_container json_object point n 125 (parse_object_loop n point flags) (deeper s) = Some r" if "ps_token s = 123"
      by (rule parse_container_total [of _ "pot s"]) (use d IH(2) that \<open>2 * pot s + 1 \<le> Suc n\<close> token_58 in auto)
    moreover have "\<exists>r. parse_container json_array point n 93 (parse_array_loop n point flags) (deeper s) = Some r" if "ps_token s = 91"
      by (rule parse_container_total [of _ "pot s"]) (use d IH(3) that \<open>2 * pot s + 1 \<le> Suc n\<close> token_58 in auto)
    ultimately show ?thesis by (auto simp: parse_value_Suc simp del: cstr_Cons parse_value.simps)
  qed
  have next_item: "\<exists>s5. lex_scan point n s4 = Some s5 \<and> (ps_token s5 = 44 \<longrightarrow>
      (\<exists>s6. lex_scan point n s5 = Some s6 \<and> ready s6 \<and> pot s6 < pot s))"
    if i: "ready s4" "wt s4 \<le> wt s" "2 * pot s + 2 \<le> Suc n" for s s4
  proof -
    have p: "wt s4 \<le> pot s" "wt s4 < n" using i(2,3) by (auto simp: potential_def)
    then obtain s5 where s5: "lex_scan point n s4 = Some s5" using lex_scan_total [OF i(1)] by blast
    note m5 = lex_scan_moved [OF s5 i(1)]
    then obtain s6 where s6: "lex_scan point n s5 = Some s6" using lex_scan_total [of s5 n point] p by auto
    have "wt s5 < wt s4" if "ps_token s5 = 44" using lex_scan_scanned [OF s5 i(1)] that token_58 by (auto simp: scanned_def)
    then show ?thesis using s5 s6 lex_scan_moved [OF s6] m5 p by fastforce
  qed
  have A: "\<exists>r. parse_array_loop (Suc n) point flags p s = Some r" if i: "ready s" "2 * pot s + 2 \<le> Suc n" for p s
  proof -
    obtain v s1 where v: "parse_value n point flags s = Some (v, s1)" using IH(1) [OF i(1)] i(2) by auto
    note m1 = parse_value_moved [OF v i(1)]
    have "\<exists>x s2. lift_world (json_array_append_new (Some p) (Some e)) s1 = (x, s2) \<and>
        (\<exists>s5. lex_scan point n s2 = Some s5 \<and> (ps_token s5 = 44 \<longrightarrow>
          (\<exists>s6 r. lex_scan point n s5 = Some s6 \<and> parse_array_loop n point flags p s6 = Some r)))" for e
    proof -
      obtain x s2 where x: "lift_world (json_array_append_new (Some p) (Some e)) s1 = (x, s2)" by fastforce
      have "ready s2" "wt s2 \<le> wt s" using lift_world_wt [OF x] m1 by simp_all
      from next_item [OF this i(2)] show ?thesis using x IH(3) i(2) by fastforce
    qed
    then obtain x s2 s5 where "lift_world (json_array_append_new (Some p) (Some (the v))) s1 = (x, s2)" "lex_scan point n s2 = Some s5"
      "ps_token s5 = 44 \<longrightarrow> (\<exists>s6 r. lex_scan point n s5 = Some s6 \<and> parse_array_loop n point flags p s6 = Some r)" by blast
    then show ?thesis using v by (cases v; cases "x = 0"; cases "ps_token s5 = 44") (auto simp del: cstr_Cons)
  qed
  have O: "\<exists>r. parse_object_loop (Suc n) point flags p s = Some r" if i: "ready s" "2 * pot s + 2 \<le> Suc n" for p s
  proof -
    have "wt s < n" using i(2) by (auto simp: potential_def)
    then obtain key s1 where k: "parse_key point n flags p s = Some (key, s1)" using parse_key_total [OF i(1)] by fastforce
    note mk = parse_key_moved [OF k i(1)]
    show ?thesis
    proof (cases key)
      case (Some k')
      then have s1: "ready s1" "wt s1 < wt s" using mk by simp_all
      then obtain s2 where s2: "lex_scan point n s1 = Some s2" using lex_scan_total [of s1 n point] \<open>wt s < n\<close> by auto
      note m2 = lex_scan_moved [OF s2 s1(1)]
      have "2 * pot s2 + 1 \<le> n" using m2 s1(2) i(2) by (auto simp: potential_def)
      then obtain v s3 where v: "parse_value n point flags s2 = Some (v, s3)" using IH(1) m2 by fastforce
      have m3: "ready s3" "wt s3 \<le> wt s" using parse_value_moved [OF v] m2 s1 by auto
      have "\<exists>x s4. lift_world (json_object_set_new_nocheck (Some p) (Some k') (Some e)) s3 = (x, s4) \<and>
          (\<exists>s5. lex_scan point n s4 = Some s5 \<and> (ps_token s5 = 44 \<longrightarrow>
            (\<exists>s6 r. lex_scan point n s5 = Some s6 \<and> parse_object_loop n point flags p s6 = Some r)))" for e
      proof -
        obtain x s4 where x: "lift_world (json_object_set_new_nocheck (Some p) (Some k') (Some e)) s3 = (x, s4)" by fastforce
        have "ready s4" "wt s4 \<le> wt s" using lift_world_wt [OF x] m3 by simp_all
        from next_item [OF this i(2)] show ?thesis using x IH(2) i(2) by fastforce
      qed
      then obtain x s4 s5 where "lift_world (json_object_set_new_nocheck (Some p) (Some k') (Some (the v))) s3 = (x, s4)"
        "lex_scan point n s4 = Some s5"
        "ps_token s5 = 44 \<longrightarrow> (\<exists>s6 r. lex_scan point n s5 = Some s6 \<and> parse_object_loop n point flags p s6 = Some r)" by blast
      then show ?thesis using k Some s2 v by (cases v; cases "x = 0"; cases "ps_token s5 = 44") (auto simp del: cstr_Cons)
    qed (use k in simp)
  qed
  show ?case using V A O by blast
qed simp


lemma parse_json_total:
  assumes "ready s" "2 * wt s + 1 \<le> n"
  shows "\<exists>r. parse_json n point flags s = Some r"
proof -
  let ?s0 = "upd_lex (\<lambda>l. l\<lparr>lx_depth := 0\<rparr>) s"
  obtain s1 where s1: "lex_scan point n ?s0 = Some s1" using lex_scan_total [of ?s0 n point] assms by auto
  note m1 = lex_scan_moved [OF s1]
  have "ready s1" "2 * pot s1 + 1 \<le> n" using m1 assms by simp_all
  then obtain r s2 where s2: "parse_value n point flags s1 = Some (r, s2)" using parse_total by fastforce
  have "ready s2" "wt s2 < n" using parse_value_moved [OF s2] m1 assms by auto
  then obtain s3 where "lex_scan point n s2 = Some s3" using lex_scan_total [of s2 n point] by auto
  then show ?thesis using s1 s2 by (cases r) (auto simp: parse_json_def simp del: cstr_Cons)
qed

lemma stream_init_ready: "stream_ok get (stream_init get data) \<and> weight bytes (stream_init get data) = length (bytes data) + 1"
  by (simp add: stream_ok_def stream_init_def buffer_ok_def weight_def ahead_def held_def c_string_def stream_states)

lemma load_with_total:
  assumes "2 * length (bytes data) + 3 \<le> n"
  shows "\<exists>r. load_with n point get data flags error w = Some r"
proof -
  obtain r s where l: "lex_init get flags data error w = (r, s)" by fastforce
  then have "ps_stream s = stream_init get data" by (auto simp: lex_init_def split: prod.splits)
  then have "\<exists>q. parse_json n point flags s = Some q" using parse_json_total [of s n] stream_init_ready assms by simp
  then show ?thesis using l by (auto simp: load_with_def load_result_def Let_def)
qed

end

section \<open>Strings and buffers as sources\<close>

definition string_rest :: "string_data_t \<Rightarrow> byte list" where
  "string_rest d = c_string (drop (sd_pos d) (sd_data d))"

definition buffer_rest :: "buffer_data_t \<Rightarrow> byte list" where
  "buffer_rest d = map (\<lambda>i. bd_data d ! i) [bd_pos d..<bd_len d]"

interpretation str: byte_source string_get string_rest
proof
  fix d :: string_data_t
  show "string_rest d = [] \<Longrightarrow> fst (string_get d) = -1 \<and> string_rest (snd (string_get d)) = []"
    by (cases "sd_pos d < length (sd_data d)")
      (auto simp: string_rest_def string_get_def c_string_def Cons_nth_drop_Suc [symmetric] split: if_splits)
next
  fix d :: string_data_t and b bs
  show "string_rest d = b # bs \<Longrightarrow> fst (string_get d) = uint b \<and> string_rest (snd (string_get d)) = bs"
    by (cases "sd_pos d < length (sd_data d)")
      (auto simp: string_rest_def string_get_def c_string_def Cons_nth_drop_Suc [symmetric] split: if_splits)
qed

interpretation buf: byte_source buffer_get buffer_rest
proof
  fix d :: buffer_data_t
  show "buffer_rest d = [] \<Longrightarrow> fst (buffer_get d) = -1 \<and> buffer_rest (snd (buffer_get d)) = []"
    by (auto simp: buffer_rest_def buffer_get_def)
next
  fix d :: buffer_data_t and b bs
  show "buffer_rest d = b # bs \<Longrightarrow> fst (buffer_get d) = uint b \<and> buffer_rest (snd (buffer_get d)) = bs"
    by (cases "bd_pos d < bd_len d") (auto simp: buffer_rest_def buffer_get_def upt_conv_Cons)
qed

lemma json_loads_ends: "\<exists>r e w'. json_loads point str flags error w = Some (r, e, w')"
proof (cases str)
  case (Some bytes)
  have "length (string_rest \<lparr>sd_data = bytes, sd_pos = 0\<rparr>) \<le> length bytes"
    by (simp add: string_rest_def c_string_def length_takeWhile_le)
  then show ?thesis using Some str.load_with_total [of "\<lparr>sd_data = bytes, sd_pos = 0\<rparr>" "load_fuel (length bytes)"]
    by (auto simp: json_loads_def load_fuel_def Let_def)
qed (simp add: json_loads_def Let_def)

lemma json_loadb_ends: "\<exists>r e w'. json_loadb point buffer buflen flags error w = Some (r, e, w')"
proof (cases buffer)
  case (Some bytes)
  then show ?thesis using buf.load_with_total [of "\<lparr>bd_data = bytes, bd_len = buflen, bd_pos = 0\<rparr>" "load_fuel buflen"]
    by (auto simp: json_loadb_def load_fuel_def Let_def buffer_rest_def)
qed (simp add: json_loadb_def Let_def)


end
