(* ===== verification/Json_Parse_Heap.thy ===== *)
theory Json_Parse_Heap
  imports Json_Parse
begin

text \<open>
  The parser of \<^verbatim>\<open>load.c\<close> and the heap, for every input and every pattern of allocation
  failures.  A value under construction is newer than everything that existed when the call
  began and refers to newer values only; so releasing it on an error path reaches nothing
  else and leaves nothing behind.
\<close>

section \<open>What a call leaves alone\<close>

lemma fold_shrinks: "(\<And>p w. shrinks w (f p w)) \<Longrightarrow> shrinks w (fold f ps w)"
  by (induction ps arbitrary: w) (auto intro: shrinks_trans)

lemma do_clear_shrinks: "(\<And>p w. shrinks w (f p w)) \<Longrightarrow> shrinks w (snd (do_clear_loop n f l h w))"
proof (induction n f l h w rule: do_clear_loop.induct)
  case (2 n f l h w)
  let ?w1 = "case ht_pairs h l of None \<Rightarrow> w | Some pair \<Rightarrow> f (p_value pair) w"
  have "shrinks w ?w1" using 2(2) by (auto split: option.split)
  then show ?case using 2(1) [OF _ refl refl refl 2(2)] shrinks_trans by (auto simp: Let_def)
qed simp

lemma free_shrinks: "shrinks w (jsonp_free p w)"
  by (auto simp: shrinks_def jsonp_free_def)

lemma json_decref_n_shrinks: "shrinks w (json_decref_n n p w)"
proof (induction n arbitrary: p w)
  case (Suc n)
  show ?case
  proof (cases "w_heap w p")
    case (Some c)
    let ?w1 = "set_cell p (c\<lparr>j_refcount := (j_refcount c + SIZE_MAX) mod 2 ^ 64\<rparr>) w"
    have 1: "shrinks w ?w1" using Some by (auto simp: shrinks_def)
    have "shrinks u (json_delete (json_decref_n n) p u)" for u
    proof -
      have "shrinks u (json_delete_object (json_decref_n n) p h u)" for h
        unfolding json_delete_object_def hashtable_close_def hashtable_do_clear_def
        by (rule shrinks_trans [OF do_clear_shrinks [OF Suc] free_shrinks])
      moreover have "shrinks u (json_delete_array (json_decref_n n) p a u)" for a
        unfolding json_delete_array_def by (rule shrinks_trans [OF fold_shrinks [OF Suc] free_shrinks])
      ultimately show ?thesis by (auto simp: json_delete_def free_shrinks split: option.split json_data.split)
    qed
    then show ?thesis using Some 1 shrinks_trans by (auto simp: Let_def)
  qed (simp add: shrinks_def)
qed (simp add: shrinks_def)

lemma decref_ptr_shrinks [simp]: "shrinks w (decref_ptr p w)" "shrinks w (json_decref (Some p) w)"
  using json_decref_n_shrinks by (simp_all only: decref_ptr_def json_decref_def option.case)

text \<open>The values behind the references of \<^term>\<open>E\<close> are the same.\<close>

definition keeps :: "ptr multiset \<Rightarrow> world \<Rightarrow> world \<Rightarrow> bool" where
  "keeps E w w' \<longleftrightarrow> (\<forall>q \<in># E. data_at w' (Some q) = data_at w (Some q))"

lemma keeps_refl [simp]: "keeps E w w"
  by (simp add: keeps_def)

lemma keeps_trans: "keeps E w w1 \<Longrightarrow> keeps E w1 w2 \<Longrightarrow> keeps E w w2"
  by (simp add: keeps_def)

lemma keeps_mono: "keeps (F + E) w w' \<Longrightarrow> keeps E w w'" "keeps (add_mset p E) w w' \<Longrightarrow> keeps E w w'"
  by (auto simp: keeps_def)

lemma shrinks_data: "shrinks w w' \<Longrightarrow> q \<in> dom (w_heap w') \<Longrightarrow> data_at w' (Some q) = data_at w (Some q)"
  by (auto simp: shrinks_def data_at_def) force

lemma shrinks_keeps: "shrinks w w' \<Longrightarrow> rc_inv D E w' \<Longrightarrow> keeps E w w'"
  using shrinks_data rc_invD(9) unfolding keeps_def by blast

lemma same_heap_data [simp]: "same_heap w w' \<Longrightarrow> data_at w' q = data_at w q"
  by (auto simp: same_heap_def data_at_def split: option.split) (metis world.ext_inject world.surjective world.update_convs(3))+

section \<open>Cells that belong together\<close>

text \<open>
  The cells from \<^term>\<open>b\<close> on are newer than the call in question.  Each refers to cells newer than
  itself and to the constants only, so releasing it cannot reach an older cell, and there are
  no cycles among them.
\<close>

definition newer :: "nat \<Rightarrow> ptr \<Rightarrow> bool" where
  "newer b p \<longleftrightarrow> b \<le> p \<or> p \<in> statics"

fun refs_newer :: "nat \<Rightarrow> json_data \<Rightarrow> bool" where
  "refs_newer b (JObject h) \<longleftrightarrow> (\<forall>pr \<in> ran (ht_pairs h). newer b (p_value pr))"
| "refs_newer b (JArray a) \<longleftrightarrow> (\<forall>x \<in> set (take (a_entries a) (a_table a)). newer b x)"
| "refs_newer b _ \<longleftrightarrow> True"

definition young :: "nat \<Rightarrow> world \<Rightarrow> bool" where
  "young b w \<longleftrightarrow> b \<le> w_brk w \<and> statics_ok w \<and> (\<forall>q c. w_heap w q = Some c \<longrightarrow> b \<le> q \<longrightarrow> refs_newer (Suc q) (j_data c))"

definition stays :: "nat \<Rightarrow> world \<Rightarrow> world \<Rightarrow> bool" where
  "stays b w w' \<longleftrightarrow> young b w' \<and> (\<forall>q < b. w_heap w' q = w_heap w q)"

lemma newer_mono: "newer a p \<Longrightarrow> b \<le> a \<Longrightarrow> newer b p"
  by (auto simp: newer_def)

lemma refs_newer_mono: "refs_newer a d \<Longrightarrow> b \<le> a \<Longrightarrow> refs_newer b d"
  using newer_mono by (cases d) auto

lemma stays_trans: "stays b w w1 \<Longrightarrow> stays b w1 w2 \<Longrightarrow> stays b w w2"
  by (simp add: stays_def)

lemma young_mem [simp]: "young b (w\<lparr>w_mem := m\<rparr>) = young b w"
  by (simp add: young_def statics_ok_def)

lemma young_fresh: "rc_inv D E w \<Longrightarrow> young (w_brk w) w"
  using rc_invD(3,4) [of D E w] by (force simp: young_def)

lemma do_clear_inv:
  "(\<And>x w. I w \<Longrightarrow> x \<in> X \<Longrightarrow> I (f x w)) \<Longrightarrow> (\<forall>pr \<in> ran (ht_pairs h). p_value pr \<in> X) \<Longrightarrow> I w \<Longrightarrow>
     I (snd (do_clear_loop n f l h w))"
proof (induction n f l h w rule: do_clear_loop.induct)
  case (2 n f l h w)
  let ?w1 = "case ht_pairs h l of None \<Rightarrow> w | Some pair \<Rightarrow> f (p_value pair) w"
  have w1: "I ?w1" using 2(2-4) by (auto simp: ran_def split: option.split)
  have X: "\<forall>pr \<in> ran (ht_pairs (h\<lparr>ht_pairs := (ht_pairs h)(l := None)\<rparr>)). p_value pr \<in> X"
    using 2(3) by (auto simp: ran_def split: if_splits)
  show ?case using 2(1) [OF _ refl refl refl 2(2) X w1] 2(4) by (auto simp: Let_def)
qed simp

lemma fold_inv: "(\<And>x w. I w \<Longrightarrow> x \<in> set xs \<Longrightarrow> I (f x w)) \<Longrightarrow> I w \<Longrightarrow> I (fold f xs w)"
  by (induction xs arbitrary: w) auto

lemma shrinks_young: "shrinks w w' \<Longrightarrow> young b w \<Longrightarrow> statics_ok w' \<Longrightarrow> young b w'"
  unfolding young_def shrinks_def by metis

lemma json_decref_n_stays:
  "young b w \<Longrightarrow> newer b p \<Longrightarrow> stays b w (json_decref_n n p w)"
proof (induction n arbitrary: p w)
  case 0
  then show ?case by (simp add: stays_def young_def statics_ok_def)
next
  case (Suc n)
  show ?case
  proof (cases "w_heap w p")
    case None
    then show ?thesis using Suc.prems by (simp add: stays_def young_def statics_ok_def)
  next
    case (Some c)
    show ?thesis
    proof (cases "j_refcount c = SIZE_MAX")
      case True
      then show ?thesis using Some Suc.prems by (simp add: stays_def)
    next
      case False
      have st: "statics_ok w" using Suc.prems by (simp add: young_def)
      then have p: "p \<notin> statics" using Some False by (auto simp: statics_ok_def statics_def)
      then have bp: "b \<le> p" using Suc.prems by (simp add: newer_def)
      let ?rc = "(j_refcount c + SIZE_MAX) mod 2 ^ 64"
      let ?w1 = "set_cell p (c\<lparr>j_refcount := ?rc\<rparr>) w"
      let ?I = "stays b w"
      have st1: "statics_ok ?w1" using st p by (auto simp: statics_ok_def statics_def)
      have "shrinks w ?w1" using Some by (auto simp: shrinks_def)
      then have I1: "?I ?w1" using shrinks_young [OF _ Suc.prems(1) st1] bp by (auto simp: stays_def)
      have step: "?I (json_decref_n n x u)" if "?I u" "newer b x" for x u
        using Suc.IH [of u x] that stays_trans by (auto simp: stays_def)
      have free: "?I (jsonp_free p u)" if "?I u" for u
        using that p bp by (auto simp: stays_def young_def jsonp_free_def statics_ok_def statics_def)
      have refs: "refs_newer b (j_data c)"
        using refs_newer_mono [of "Suc p"] Suc.prems(1) Some bp by (auto simp: young_def)
      have "?I (json_delete (json_decref_n n) p ?w1)"
      proof (cases "j_data c")
        case (JObject h)
        have "?I (snd (do_clear_loop (ht_fresh h) (json_decref_n n) (l_next (ht_list h 0)) h ?w1))"
          by (rule do_clear_inv [of ?I "Collect (newer b)"]) (use step refs JObject I1 in auto)
        then show ?thesis using free JObject
          by (simp add: json_delete_def data_at_def json_delete_object_def hashtable_close_def hashtable_do_clear_def)
      next
        case (JArray a)
        have "?I (fold (json_decref_n n) (take (a_entries a) (a_table a)) ?w1)"
          by (rule fold_inv) (use step refs JArray I1 in auto)
        then show ?thesis using free JArray by (simp add: json_delete_def data_at_def json_delete_array_def)
      qed (use free I1 in \<open>auto simp: json_delete_def data_at_def\<close>)
      then have "?I (if ?rc = 0 then json_delete (json_decref_n n) p ?w1 else ?w1)" using I1 by (simp only: if_split) blast
      moreover have "json_decref_n (Suc n) p w = (if ?rc = 0 then json_delete (json_decref_n n) p ?w1 else ?w1)"
        using Some False by (simp only: json_decref_n.simps Let_def option.case if_False)
      ultimately show ?thesis by simp
    qed
  qed
qed

lemma decref_stays: "young b w \<Longrightarrow> newer b p \<Longrightarrow> stays b w (decref_ptr p w)"
    "young b w \<Longrightarrow> newer b p \<Longrightarrow> stays b w (json_decref (Some p) w)"
  using json_decref_n_stays by (simp_all only: decref_ptr_def json_decref_def option.case)

lemma set_data_stays:
  assumes "young b w" "b \<le> p" "p \<notin> statics" "refs_newer (Suc p) d"
  shows "stays b w (set_data p d w)"
  using assms by (auto simp: stays_def young_def set_data_def statics_ok_def statics_def split: option.splits)

section \<open>What a constructor adds\<close>

text \<open>The result of a constructor: nothing, or a new cell with the data.\<close>

definition creates :: "json_data \<Rightarrow> ptr option \<Rightarrow> world \<Rightarrow> world \<Rightarrow> bool" where
  "creates d r w w' \<longleftrightarrow> (case r of
     None \<Rightarrow> w_heap w' = w_heap w \<and> w_brk w' = w_brk w
   | Some p \<Rightarrow> p = w_brk w \<and> w_brk w' = w_brk w + 1 \<and> w_heap w' = (w_heap w)(p \<mapsto> \<lparr>j_refcount = 1, j_data = d\<rparr>))"

lemma creates_keeps:
  assumes "creates d r w w'" "rc_inv D E w"
  shows "keeps E w w'"
proof -
  have "q < w_brk w" if "q \<in># E" for q using rc_invD(3,9) [OF assms(2)] that by force
  then show ?thesis using assms(1) by (auto simp: creates_def keeps_def data_at_def split: option.splits)
qed

lemma creates_stays: "creates d r w w' \<Longrightarrow> refs_newer (Suc (w_brk w)) d \<Longrightarrow> young b w \<Longrightarrow> w_brk w \<notin> statics \<Longrightarrow> stays b w w'"
  by (auto simp: creates_def stays_def young_def statics_ok_def statics_def split: option.splits)

lemma brk_not_static: "rc_inv D E w \<Longrightarrow> w_brk w \<notin> statics"
  using rc_invD(3,4) [of D E w] by (auto simp: statics_ok_def statics_def)

lemma creates_world [simp]:
  "creates d r (w\<lparr>w_mem := m\<rparr>) w' = creates d r w w'" "creates d r (w\<lparr>w_seed := x\<rparr>) w' = creates d r w w'"
  by (simp_all add: creates_def split: option.split)

lemma json_init_creates: "json_init d w = (p, w') \<Longrightarrow> creates d (Some p) w w'"
  by (auto simp: creates_def json_init_def set_cell_def)

lemma alloc_creates:
  assumes "(case w_malloc n w of (False, w1) \<Rightarrow> (None, w1)
       | (True, w1) \<Rightarrow> let (p, w2) = json_init d w1 in (Some p, w2)) = (r, w')"
  shows "creates d r w w'"
proof -
  obtain ok w1 where m: "w_malloc n w = (ok, w1)" by fastforce
  then obtain mm where w1: "w1 = w\<lparr>w_mem := mm\<rparr>" by (auto simp: w_malloc_def split: prod.splits)
  obtain p w2 where i: "json_init d w1 = (p, w2)" by fastforce
  show ?thesis
  proof (cases ok)
    case True
    then have "r = Some p \<and> w' = w2" using assms m i by simp
    then show ?thesis using json_init_creates [OF i] w1 by simp
  qed (use assms m w1 in \<open>auto simp: creates_def\<close>)
qed

lemma json_integer_creates: "json_integer i w = (r, w') \<Longrightarrow> creates (JInteger i) r w w'"
  unfolding json_integer_def by (rule alloc_creates)

lemma json_real_creates: "json_real x w = (r, w') \<Longrightarrow> creates (JReal x) r w w'"
  using alloc_creates [of "JReal x" SIZEOF_JSON_REAL w r w'] by (auto simp: json_real_def creates_def split: if_splits)

lemma own_string_creates:
  assumes "jsonp_stringn_nocheck_own v n w = (r, w')"
  shows "creates (JString (take n (the v))) r w w'"
proof (cases v)
  case (Some t)
  have "creates (JString (take n t)) r w w'"
    by (rule alloc_creates) (use assms Some in \<open>simp add: jsonp_stringn_nocheck_own_def string_create_def\<close>)
  then show ?thesis using Some by simp
qed (use assms in \<open>auto simp: jsonp_stringn_nocheck_own_def string_create_def creates_def\<close>)

lemma json_array_creates:
  assumes "json_array w = (r, w')"
  shows "creates (JArray \<lparr>a_size = 8, a_entries = 0, a_table = replicate 8 0\<rparr>) r w w'"
proof -
  obtain ok w1 where m: "w_malloc SIZEOF_JSON_ARRAY w = (ok, w1)" by fastforce
  then obtain mm where w1: "w1 = w\<lparr>w_mem := mm\<rparr>" by (auto simp: w_malloc_def split: prod.splits)
  let ?d = "JArray \<lparr>a_size = 8, a_entries = 0, a_table = replicate 8 0\<rparr>"
  show ?thesis
    using assms m w1 alloc_creates [of ?d "8 * SIZEOF_POINTER" w1 r w']
    by (cases ok) (auto simp: json_array_def creates_def [of _ None] Let_def)
qed

lemma json_object_creates:
  assumes "json_object w = (r, w')"
  shows "\<exists>h. creates (JObject h) r w w' \<and> ht_rel (w_seed w') h []"
proof -
  obtain ok w1 where m: "w_malloc SIZEOF_JSON_OBJECT w = (ok, w1)" by fastforce
  then obtain m1 where w1: "w1 = w\<lparr>w_mem := m1\<rparr>" by (auto simp: w_malloc_def split: prod.splits)
  let ?w2 = "w1\<lparr>w_seed := (if w_seed w1 = 0 then json_object_seed (w_env w1) 0 (w_seed w1) else w_seed w1)\<rparr>"
  obtain t :: "ptr hashtable option" and mm where h: "hashtable_init (w_mem ?w2) = (t, mm)" by fastforce
  have any: "\<exists>h :: ptr hashtable. ht_rel (w_seed w') h []" using hashtable_init_ok by blast
  show ?thesis
  proof (cases "ok \<and> t \<noteq> None")
    case True
    then obtain ht where t: "t = Some ht" by auto
    obtain p w3 where i: "json_init (JObject ht) (?w2\<lparr>w_mem := mm\<rparr>) = (p, w3)" by fastforce
    then have "creates (JObject ht) (Some p) w w3" using json_init_creates [OF i] w1 by simp
    moreover have "r = Some p" "w' = w3" using assms m True h t i by (auto simp: json_object_def Let_def)
    moreover have "w_seed w3 = w_seed ?w2" using i by (auto simp: json_init_def)
    ultimately show ?thesis using hashtable_init_rel h t by metis
  next
    case False
    then have "r = None \<and> (w' = w1 \<or> w' = ?w2\<lparr>w_mem := mm\<rparr>)"
      using assms m h by (cases ok) (auto simp: json_object_def Let_def)
    then show ?thesis using any w1 by (auto simp: creates_def)
  qed
qed

section \<open>What a change of a container leaves alone\<close>

definition loses :: "ptr \<Rightarrow> world \<Rightarrow> world \<Rightarrow> bool" where
  "loses p w w' \<longleftrightarrow> (\<forall>q c'. q \<noteq> p \<longrightarrow> w_heap w' q = Some c' \<longrightarrow> (\<exists>c. w_heap w q = Some c \<and> j_data c' = j_data c))"

lemma loses_trans [trans]: "loses p w w1 \<Longrightarrow> loses p w1 w2 \<Longrightarrow> loses p w w2"
  unfolding loses_def by metis

lemma loses_intros [simp]:
  "loses p w w" "loses p w (w\<lparr>w_mem := m\<rparr>)" "loses p w (set_data p d w)" "shrinks w w' \<Longrightarrow> loses p w w'"
  by (auto simp: loses_def shrinks_def set_data_def set_cell_def split: option.splits)

lemma loses_mem [simp]: "loses p (w\<lparr>w_mem := m\<rparr>) w' = loses p w w'"
  by (simp add: loses_def)

lemma loses_keeps:
  assumes "loses p w w'" "rc_inv {} (add_mset p E) w'" "p \<notin># E"
  shows "keeps E w w'"
  unfolding keeps_def
proof
  fix q assume q: "q \<in># E"
  then obtain c' where c': "w_heap w' q = Some c'" using rc_invD(9) [OF assms(2)] by auto
  moreover have "q \<noteq> p" using q assms(3) by auto
  ultimately obtain c where "w_heap w q = Some c" "j_data c' = j_data c" using assms(1) by (auto simp: loses_def)
  then show "data_at w' (Some q) = data_at w (Some q)" using c' by (simp add: data_at_def)
qed

lemma loses_steps [intro]:
  "loses p w u \<Longrightarrow> loses p w (set_data p d u)" "loses p w u \<Longrightarrow> loses p w (u\<lparr>w_mem := m\<rparr>)"
  "loses p w u \<Longrightarrow> loses p w (json_decref (Some v) u)" "loses p w u \<Longrightarrow> shrinks u u' \<Longrightarrow> loses p w u'"
  using loses_trans by (blast intro: loses_intros decref_ptr_shrinks)+

lemma hashtable_set_shrinks:
  "hashtable_set decref_ptr seed k v h m w = (r, h', m', w') \<Longrightarrow> shrinks w w'"
  by (auto simp: hashtable_set_def hashtable_store_def Let_def split: prod.splits if_splits option.splits bool.splits)

lemma json_object_set_loses:
  assumes "json_object_set_new_nocheck (Some p) (Some k) (Some v) w = (x, w')"
  shows "loses p w w'"
proof (cases "object_table w (Some p) = None \<or> p = v")
  case True
  then have "w' = json_decref (Some v) w" using assms by (auto simp: json_object_set_new_nocheck_def split: option.splits)
  then show ?thesis by simp
next
  case False
  then obtain h where h: "object_table w (Some p) = Some h" "p \<noteq> v" by auto
  obtain r h' m w1 where s: "hashtable_set decref_ptr (w_seed w) k v h (w_mem w) w = (r, h', m, w1)" by (metis prod_cases4)
  have "loses p w w1" using hashtable_set_shrinks [OF s] by simp
  then have "loses p w (set_data p (JObject h') (w1\<lparr>w_mem := m\<rparr>))" by blast
  moreover from this have "loses p w (json_decref (Some v) (set_data p (JObject h') (w1\<lparr>w_mem := m\<rparr>)))" by blast
  ultimately show ?thesis using assms h s
    by (auto simp: json_object_set_new_nocheck_def Let_def split: if_splits)
qed

lemma json_array_append_loses:
  assumes "json_array_append_new (Some p) (Some v) w = (x, w')"
  shows "loses p w w'"
proof (cases "array_at w (Some p) = None \<or> p = v")
  case True
  then have "w' = json_decref (Some v) w" using assms by (auto simp: json_array_append_new_def split: option.splits)
  then show ?thesis by simp
next
  case False
  then obtain a where a: "array_at w (Some p) = Some a" "p \<noteq> v" by auto
  obtain t a1 w1 where g: "json_array_grow a 1 True w = (t, a1, w1)" by (metis prod_cases3)
  obtain m where w1: "w1 = w\<lparr>w_mem := m\<rparr>" using json_array_grow_world [OF g] by blast
  have "loses p w w1" using w1 by simp
  then show ?thesis using assms a g by (auto simp: json_array_append_new_def split: option.splits)
qed

lemma length_update_le: "length (AList.update k v al) \<le> Suc (length al)"
  by (induction al) auto

lemma json_object_set_size:
  assumes inv: "rc_inv {} (add_mset v (add_mset p E)) w" and size: "json_object_size w (Some p) < 2 ^ 31"
    and st: "json_object_set_new_nocheck (Some p) (Some k) (Some v) w = (0, w')"
  shows "json_object_size w' (Some p) \<le> json_object_size w (Some p) + 1"
proof -
  obtain h where h: "object_table w (Some p) = Some h" "p \<noteq> v"
    using st by (auto simp: json_object_set_new_nocheck_def split: option.splits if_splits prod.splits)
  obtain c al where c: "w_heap w p = Some c" and al: "ht_rel (w_seed w) h al" using object_tableD [OF inv h(1)] by blast
  have len: "length al < 2 ^ 31" "ht_size h = length al" using size h ht_rel_size [OF al] by (auto simp: json_object_size_def)
  obtain r h' m w1 where s: "hashtable_set decref_ptr (w_seed w) k v h (w_mem w) w = (r, h', m, w1)" by (metis prod_cases4)
  have w': "r = 0" "w' = set_data p (JObject h') (w1\<lparr>w_mem := m\<rparr>)"
    using st h s by (auto simp: json_object_set_new_nocheck_def Let_def split: if_splits)
  have "ht_rel (w_seed w) h' (AList.update k v al)" using hashtable_set_rel(1) [OF al len(1) s w'(1)] .
  from ht_rel_size [OF this] have "ht_size h' \<le> Suc (length al)" using length_update_le [of k v al] by simp
  moreover have "p \<in> dom (w_heap w')"
    using json_object_set_new_nocheck_inv [OF inv, of p "Some k"] size st rc_invD(9) by fastforce
  then have "object_table w' (Some p) = Some h'"
    using w'(2) by (auto simp: object_table_def data_at_def set_data_def split: option.splits)
  ultimately show ?thesis using len h(1) by (simp add: json_object_size_def)
qed


section \<open>Changes of a container that is newer\<close>

lemma ht_rel_values:
  fixes h :: "ptr hashtable"
  assumes "ht_rel seed h al"
  shows "p_value ` ran (ht_pairs h) = set (map snd al)"
proof -
  have fin: "finite (dom (ht_pairs h))" using assms by (auto simp: ht_rel_def dest!: ht_repD(4))
  have "set_mset (cell_refs (JObject h)) = (\<lambda>z. p_value (pair_of h z)) ` dom (ht_pairs h)" using fin by simp
  also have "\<dots> = p_value ` ran (ht_pairs h)" by (force simp: ran_def)
  finally show ?thesis using cell_refs_object [OF assms] by (metis set_mset_mset)
qed

lemma refs_newer_object: "ht_rel seed h al \<Longrightarrow> refs_newer b (JObject h) \<longleftrightarrow> (\<forall>x \<in> set (map snd al). newer b x)"
  using ht_rel_values [of seed h al] by (metis (no_types, lifting) image_iff refs_newer.simps(1))

lemma set_update_snd: "snd ` set (AList.update k v al) \<subseteq> insert v (snd ` set al)"
  by (induction al) auto

lemma young_refs: "young b w \<Longrightarrow> w_heap w p = Some c \<Longrightarrow> b \<le> p \<Longrightarrow> refs_newer (Suc p) (j_data c)"
  by (simp add: young_def)

lemma json_object_set_stays:
  assumes inv: "rc_inv {} (add_mset v (add_mset p E)) w" and size: "json_object_size w (Some p) < 2 ^ 31"
    and st: "json_object_set_new_nocheck (Some p) (Some k) (Some v) w = (x, w')"
    and b: "young b w" "b \<le> p" "newer (Suc p) v"
  shows "stays b w w'"
proof (cases "object_table w (Some p) = None \<or> p = v")
  case True
  then have "w' = json_decref (Some v) w" using st by (auto simp: json_object_set_new_nocheck_def split: option.splits)
  then show ?thesis using decref_stays(2) [OF b(1) newer_mono [OF b(3) le_SucI [OF b(2)]]] by simp
next
  case False
  then obtain h where h: "object_table w (Some p) = Some h" "p \<noteq> v" by auto
  obtain c al where c: "w_heap w p = Some c" "j_data c = JObject h" "p \<notin> statics" and al: "ht_rel (w_seed w) h al"
    using object_tableD [OF inv h(1)] by blast
  have len: "length al < 2 ^ 31" using size h ht_rel_size [OF al] by (auto simp: json_object_size_def)
  obtain r h' m w1 where s: "hashtable_set decref_ptr (w_seed w) k v h (w_mem w) w = (r, h', m, w1)" by (metis prod_cases4)
  note S = hashtable_set_rel [OF al len s]
  have old: "\<forall>y \<in> set (map snd al). newer (Suc p) y" using young_refs [OF b(1) c(1) b(2)] c(2) refs_newer_object [OF al] by simp
  have r1: "refs_newer (Suc p) (JObject h')"
  proof (cases "r = 0")
    case True
    have "\<forall>y \<in> set (map snd (AList.update k v al)). newer (Suc p) y" using set_update_snd [of k v al] old b(3) unfolding set_map by blast
    then show ?thesis using refs_newer_object [OF S(1) [OF True]] by blast
  next
    case False
    then show ?thesis using refs_newer_object S(3) old by blast
  qed
  have w1: "stays b w w1"
  proof (cases "r = 0 \<and> map_of al k \<noteq> None")
    case True
    then obtain y where y: "map_of al k = Some y" "w1 = decref_ptr y w" using S(2) by auto
    then have "newer b y" using old map_of_SomeD [OF y(1)] newer_mono [of "Suc p" y b] b(2) by force
    then show ?thesis using decref_stays(1) [OF b(1)] y(2) by simp
  next
    case False
    then have "w1 = w" using S(2,3) by (cases "r = 0") auto
    then show ?thesis using b(1) by (simp add: stays_def)
  qed
  let ?w2 = "set_data p (JObject h') (w1\<lparr>w_mem := m\<rparr>)"
  have "young b (w1\<lparr>w_mem := m\<rparr>)" using w1 by (simp add: stays_def)
  from set_data_stays [OF this b(2) c(3) r1] have w2: "stays b w ?w2" using w1 by (simp add: stays_def)
  moreover have "stays b w (json_decref (Some v) ?w2)"
    using decref_stays(2) [OF _ newer_mono [OF b(3) le_SucI [OF b(2)]]] w2 stays_trans by (metis stays_def)
  ultimately show ?thesis using st h s by (auto simp: json_object_set_new_nocheck_def Let_def split: if_splits)
qed

lemma json_array_append_stays:
  assumes inv: "rc_inv {} (add_mset v (add_mset p E)) w" and st: "json_array_append_new (Some p) (Some v) w = (x, w')"
    and b: "young b w" "b \<le> p" "newer (Suc p) v"
  shows "stays b w w'"
proof (cases "array_at w (Some p) = None \<or> p = v")
  case True
  then have "w' = json_decref (Some v) w" using st by (auto simp: json_array_append_new_def split: option.splits)
  then show ?thesis using decref_stays(2) [OF b(1) newer_mono [OF b(3) le_SucI [OF b(2)]]] by simp
next
  case False
  then obtain a where a: "array_at w (Some p) = Some a" and pv: "p \<noteq> v" by auto
  obtain c where c: "w_heap w p = Some c" "j_data c = JArray a" "p \<notin> statics"
    "a_entries a \<le> a_size a" "length (a_table a) = a_size a"
    using array_atD [OF inv a] .
  obtain t a1 w1 where g: "json_array_grow a 1 True w = (t, a1, w1)" by (metis prod_cases3)
  obtain m where w1: "w1 = w\<lparr>w_mem := m\<rparr>" using json_array_grow_world [OF g] by blast
  have y1: "young b w1" using w1 b(1) by simp
  show ?thesis
  proof (cases t)
    case None
    then have "w' = json_decref (Some v) w1" using st a pv g by (simp add: json_array_append_new_def)
    then show ?thesis using decref_stays(2) [OF y1 newer_mono [OF b(3) le_SucI [OF b(2)]]] w1 by (simp add: stays_def)
  next
    case (Some tab)
    note G = json_array_grow_ok [OF g [unfolded Some] c(4,5)]
    let ?d = "JArray (a1\<lparr>a_table := (a_table a1)[a_entries a1 := v], a_entries := a_entries a1 + 1\<rparr>)"
    have old: "\<forall>y \<in> set (take (a_entries a) (a_table a)). newer (Suc p) y"
      using young_refs [OF b(1) c(1) b(2)] c(2) by simp
    have "take (Suc (a_entries a)) ((a_table a1)[a_entries a := v]) = take (a_entries a) (a_table a) @ [v]"
      using G by (simp add: take_Suc_conv_app_nth)
    then have "refs_newer (Suc p) ?d" using old b(3) G(1) by simp
    from set_data_stays [OF y1 b(2) c(3) this] have "stays b w (set_data p ?d w1)" using w1 by (simp add: stays_def)
    then show ?thesis using st a pv g Some by (simp add: json_array_append_new_def)
  qed
qed

section \<open>The parser keeps the books\<close>

text \<open>
  What lies behind the references of \<^term>\<open>E\<close> is as before, and for the marks \<^term>\<open>b\<close> allowed by \<^term>\<open>P\<close>
  no older cell has changed.
\<close>

definition leaves :: "(nat \<Rightarrow> bool) \<Rightarrow> ptr multiset \<Rightarrow> world \<Rightarrow> world \<Rightarrow> bool" where
  "leaves P E w w' \<longleftrightarrow> keeps E w w' \<and> (\<forall>b. P b \<longrightarrow> young b w \<longrightarrow> stays b w w')"

lemma leaves_refl [simp]: "leaves P E w w"
  by (simp add: leaves_def stays_def)

lemma leaves_trans: "leaves P E w w1 \<Longrightarrow> leaves P E w1 w2 \<Longrightarrow> leaves P E w w2"
  unfolding leaves_def using keeps_trans stays_trans by (metis stays_def)

lemma leaves_young: "leaves P E w w' \<Longrightarrow> P b \<Longrightarrow> young b w \<Longrightarrow> young b w'"
  by (simp add: leaves_def stays_def)

lemma leaves_mono: "leaves P (add_mset p E) w w' \<Longrightarrow> (\<And>b. Q b \<Longrightarrow> P b) \<Longrightarrow> leaves Q E w w'"
  using keeps_mono(2) by (auto simp: leaves_def)

text \<open>
  A part of the parser that starts with the references \<^term>\<open>E\<close> ends with these and, if it
  succeeds, with one reference to the result, which is new or one of the constants.
\<close>

definition accounts :: "(nat \<Rightarrow> bool) \<Rightarrow> ptr multiset \<Rightarrow> 'd parser \<Rightarrow> ptr option \<Rightarrow> 'd parser \<Rightarrow> bool" where
  "accounts P E s r s' \<longleftrightarrow> rc_inv {} (plus_result r E) (ps_world s') \<and> leaves P E (ps_world s) (ps_world s') \<and>
     (\<forall>b p. P b \<longrightarrow> young b (ps_world s) \<longrightarrow> r = Some p \<longrightarrow> newer b p)"

definition string_ok :: "'d parser \<Rightarrow> bool" where
  "string_ok s \<longleftrightarrow> (ps_token s = TOKEN_STRING \<longrightarrow> lx_string (ps_lex s) \<noteq> None)"

lemma rc_inv_same_heap: "same_heap w w' \<Longrightarrow> rc_inv D E w' = rc_inv D E w"
  unfolding same_heap_def by (metis rc_inv_mem)

lemma same_heap_young: "same_heap w w' \<Longrightarrow> young b w' = young b w \<and> w_heap w' = w_heap w"
  unfolding same_heap_def by (metis young_mem world.select_convs(1) world.surjective world.update_convs(3))

lemma same_heap_leaves: "same_heap w w' \<Longrightarrow> leaves P E w w'"
  using same_heap_young by (auto simp: leaves_def stays_def keeps_def)

lemma same_heap_trans: "same_heap u v \<Longrightarrow> same_heap v w \<Longrightarrow> same_heap u w" and same_heap_refl [simp]: "same_heap w w"
  by (simp_all add: same_heap_def)

lemma object_size_data: "data_at w' (Some p) = data_at w (Some p) \<Longrightarrow> json_object_size w' (Some p) = json_object_size w (Some p)"
  by (simp add: json_object_size_def object_table_def)

lemma accounts_before: "accounts P E s1 r s' \<Longrightarrow> leaves P E (ps_world s) (ps_world s1) \<Longrightarrow> accounts P E s r s'"
  unfolding accounts_def using leaves_trans leaves_young by blast

lemma accounts_after: "accounts P E s r s1 \<Longrightarrow> same_heap (ps_world s1) (ps_world s') \<Longrightarrow> accounts P E s r s'"
  unfolding accounts_def using rc_inv_same_heap leaves_trans same_heap_leaves by blast

lemma created_accounts:
  assumes "rc_inv {} E (ps_world s)" "rc_inv {} (plus_result r E) (ps_world s')" "creates d r (ps_world s) (ps_world s')"
    and "\<And>b. refs_newer b d"
  shows "accounts P E s r s'"
proof -
  have "leaves P E (ps_world s) (ps_world s')"
    using creates_keeps [OF assms(3,1)] creates_stays [OF assms(3,4)] brk_not_static [OF assms(1)] by (auto simp: leaves_def)
  moreover have "newer b p" if "young b (ps_world s)" "r = Some p" for b p
    using that assms(3) by (auto simp: creates_def newer_def young_def)
  ultimately show ?thesis using assms(2) by (simp add: accounts_def)
qed

lemma world_sel [simp]: "ps_world (error_set c m s) = ps_world s" "ps_world (set_token t s) = ps_world s" "ps_world (lex_free_string s) = ps_world s"
  by (simp_all add: error_set_def set_token_def lex_free_string_def)

lemma parse_fail_accounts:
  assumes "parse_fail p s = (r, s')" "rc_inv {} (add_mset p E) (ps_world s)"
  shows "accounts (\<lambda>b. b \<le> p) E s r s'"
proof -
  have w: "r = None" "ps_world s' = json_decref (Some p) (ps_world s)" using assms(1) by (auto simp: parse_fail_def)
  have "rc_inv {} E (ps_world s')" using json_decref_inv [OF assms(2)] w(2) by simp
  moreover from this have "keeps E (ps_world s) (ps_world s')" using shrinks_keeps [of "ps_world s" "ps_world s'"] w by simp
  ultimately show ?thesis using decref_stays(2) w by (simp add: accounts_def leaves_def newer_def)
qed

lemma parse_end_accounts:
  assumes "parse_end closing msg p s = (r, s')" "rc_inv {} (add_mset p E) (ps_world s)"
  shows "accounts (\<lambda>b. b \<le> p) E s r s'"
proof (cases "ps_token s = closing")
  case False
  then have "parse_fail p (error_set json_error_invalid_syntax msg s) = (r, s')" using assms(1) by (simp add: parse_end_def)
  from parse_fail_accounts [OF this, of E] assms(2) show ?thesis by (simp add: accounts_def)
qed (use assms in \<open>auto simp: parse_end_def accounts_def newer_def\<close>)

lemma lift_world_eq: "lift_world f s = (r, s') \<Longrightarrow> f (ps_world s) = (r, ps_world s') \<and> ps_lex s' = ps_lex s"
  by (auto simp: lift_world_def split: prod.splits)

lemma rc_inv_dom: "rc_inv D E w \<Longrightarrow> dom (w_heap w) \<subseteq> {1..<w_brk w}"
  by (rule rc_invD(3))

lemma rc_inv_add_static: "rc_inv D E w \<Longrightarrow> q \<in> statics \<Longrightarrow> rc_inv D (add_mset q E) w"
proof -
  assume inv: "rc_inv D E w" and q: "q \<in> statics"
  note I = rc_invD [OF inv]
  have qd: "q \<in> dom (w_heap w)" using statics_cell [OF I(4) q] by blast
  show ?thesis
  proof (rule rc_invI)
    fix x c assume c: "w_heap w x = Some c" "x \<notin> statics"
    then have "count (add_mset q E) x = count E x" using q by auto
    then show "data_wf (w_seed w) (j_data c) \<and> j_refcount c < SIZE_MAX \<and>
        j_refcount c = count (add_mset q E) x + count (heap_refs D w) x \<and> (x \<notin> D \<longrightarrow> 0 < j_refcount c)"
      using I(5-8) [OF c] by simp
  qed (use I qd in auto)
qed

lemma parse_scalar_accounts:
  assumes "parse_scalar flags s = (r, s')" "rc_inv {} E (ps_world s)"
  shows "accounts P E s r s'"
proof -
  have own: "accounts P E s r1 s1" if "lift_world (jsonp_stringn_nocheck_own v n) s = (r1, s1)" for v n r1 s1
    using lift_world_eq [OF that] string_create_inv [OF assms(2), of v n True]
      created_accounts [OF assms(2) _ own_string_creates, of r1 s1 v n] by (simp add: jsonp_stringn_nocheck_own_def)
  have int: "accounts P E s r1 s1" if "lift_world (json_integer i) s = (r1, s1)" for i r1 s1
    using lift_world_eq [OF that] json_integer_inv [OF assms(2)] created_accounts [OF assms(2) _ json_integer_creates, of r1 s1 i] by simp
  have rl: "accounts P E s r1 s1" if "lift_world (json_real x) s = (r1, s1)" for x r1 s1
    using lift_world_eq [OF that] json_real_inv [OF assms(2)] created_accounts [OF assms(2) _ json_real_creates, of r1 s1 x] by simp
  have stat: "accounts P E s (Some q) s" if "q \<in> statics" for q
    using rc_inv_add_static [OF assms(2) that] that by (simp add: accounts_def newer_def)
  have none: "accounts P E s None (error_set c m s)" for c m using assms(2) by (simp add: accounts_def)
  consider (str) "parse_string_token flags s = (r, s')" "ps_token s = TOKEN_STRING"
    | (int) "lift_world (json_integer (lx_integer (ps_lex s))) s = (r, s')"
    | (real) "lift_world (json_real (lx_real (ps_lex s))) s = (r, s')"
    | (stat) q where "r = Some q" "q \<in> statics" "s' = s" | (none) c m where "r = None" "s' = error_set c m s"
    using assms(1) by (auto simp: parse_scalar_def statics_def json_true_def json_false_def json_null_def simp del: cstr_Cons split: if_splits)
  then show ?thesis
  proof cases
    case str
    obtain r1 s1 where l: "lift_world (jsonp_stringn_nocheck_own (lx_string (ps_lex s)) (case lx_string (ps_lex s) of None \<Rightarrow> 0 | Some t \<Rightarrow> length t)) s = (r1, s1)"
      by fastforce
    then have "(\<exists>c m. r = None \<and> s' = error_set c m s) \<or> r = r1 \<and> ps_world s' = ps_world s1"
      using str(1) unfolding parse_string_token_def Let_def by (auto simp del: cstr_Cons split: if_splits)
    then show ?thesis using own [OF l] none by (auto simp: accounts_def)
  qed (use int rl stat none in auto)
qed

context byte_source
begin

lemma lex_scan_facts:
  assumes "lex_scan point n s = Some s'" "ready s"
  shows "ready s'" "wt s' \<le> wt s" "same_heap (ps_world s) (ps_world s')" "string_ok s'"
    "ps_token s' = 44 \<Longrightarrow> wt s' < wt s"
  using lex_scan_scanned [OF assms] token_58 by (auto simp: scanned_def lexed_def string_ok_def)

lemma parse_key_accounts:
  assumes "parse_key point n flags p s = Some (key, s')" "ready s" "string_ok s" "rc_inv {} (add_mset p E) (ps_world s)"
  shows "if key = None then accounts (\<lambda>b. b \<le> p) E s None s' else same_heap (ps_world s) (ps_world s')"
proof -
  obtain k s1 where k: "lex_steal_string s = (k, s1)" by fastforce
  then have s1: "ps_world s1 = ps_world s" "ps_stream s1 = ps_stream s" by (auto simp: lex_steal_string_def split: if_splits)
  have fail: "accounts (\<lambda>b. b \<le> p) E s None (snd (parse_fail p t))" if "same_heap (ps_world s) (ps_world t)" for t
  proof -
    have "rc_inv {} (add_mset p E) (ps_world t)" using rc_inv_same_heap [OF that] assms(4) by blast
    from parse_fail_accounts [OF _ this] have "accounts (\<lambda>b. b \<le> p) E t None (snd (parse_fail p t))" by (simp add: parse_fail_def)
    then show ?thesis using accounts_before same_heap_leaves [OF that] by blast
  qed
  show ?thesis
  proof (cases "ps_token s = TOKEN_STRING")
    case True
    then obtain t where t: "k = Some t" using k assms(3) by (auto simp: lex_steal_string_def string_ok_def)
    show ?thesis
    proof (cases "lex_scan point n s1")
      case None
      then show ?thesis using assms(1) True k t fail s1 by (auto simp: parse_key_def simp del: cstr_Cons split: if_splits)
    next
      case (Some s2)
      have "same_heap (ps_world s) (ps_world s2)" using lex_scan_facts(3) [OF Some] s1 assms(2) by simp
      then show ?thesis using assms(1) True k t fail s1 Some by (auto simp: parse_key_def simp del: cstr_Cons split: if_splits)
    qed
  qed (use assms(1) fail in \<open>auto simp: parse_key_def simp del: cstr_Cons\<close>)
qed

end

lemma accounts_widen:
  "accounts P E s r s' \<Longrightarrow> (\<And>b. young b (ps_world s) \<Longrightarrow> Q b \<Longrightarrow> P b) \<Longrightarrow> accounts Q E s r s'"
  by (auto simp: accounts_def leaves_def)

context byte_source
begin

text \<open>A container is created, filled and returned, or released.\<close>

lemma parse_container_accounts:
  assumes pc: "parse_container create point n closing loop s = Some (r, s')" "ready s" "rc_inv {} E (ps_world s)"
    and create: "\<And>r w'. create (ps_world s) = (r, w') \<Longrightarrow> rc_inv {} (plus_result r E) w' \<and>
      (\<exists>d. creates d r (ps_world s) w' \<and> (\<forall>b. refs_newer b d) \<and> (\<forall>p. r = Some p \<longrightarrow> json_object_size w' (Some p) = 0))"
    and loop: "\<And>p t r t'. loop p t = Some (r, t') \<Longrightarrow> ready t \<Longrightarrow> wt t \<le> wt s \<Longrightarrow> string_ok t \<Longrightarrow> p \<notin># E \<Longrightarrow>
      rc_inv {} (add_mset p E) (ps_world t) \<Longrightarrow> json_object_size (ps_world t) (Some p) = 0 \<Longrightarrow> accounts (\<lambda>b. b \<le> p) E t r t'"
  shows "accounts P E s r s'"
  using pc(1)
proof (cases rule: parse_container_cases)
  case nomem
  then show ?thesis using create [of None "ps_world s'"] lift_world_eq [OF nomem(2)] created_accounts [OF pc(3), of None s'] by auto
next
  case (empty p s1)
  note l = lift_world_eq [OF empty(1)]
  have "accounts P E s (Some p) s1" using create [of "Some p" "ps_world s1"] l created_accounts [OF pc(3), of "Some p" s1] by auto
  moreover have "same_heap (ps_world s1) (ps_world s')" using lex_scan_facts(3) [OF empty(2)] l pc(2) by simp
  ultimately show ?thesis using accounts_after empty(4) by blast
next
  case (loop p s1 s2)
  note l = lift_world_eq [OF loop(1)]
  obtain d where c: "rc_inv {} (add_mset p E) (ps_world s1)" "creates d (Some p) (ps_world s) (ps_world s1)" "\<And>b. refs_newer b d"
      "json_object_size (ps_world s1) (Some p) = 0"
    using create [of "Some p" "ps_world s1"] l by auto
  have a1: "accounts (\<lambda>b. b \<le> p) E s (Some p) s1" using created_accounts [OF pc(3) _ c(2,3)] c(1) by simp
  have r1: "ready s1" "wt s1 = wt s" using l pc(2) by simp_all
  note f = lex_scan_facts [OF loop(2) r1(1)]
  have p: "p = w_brk (ps_world s)" using c(2) by (simp add: creates_def)
  then have "p \<notin># E" using rc_invD(3,9) [OF pc(3)] by force
  moreover have "rc_inv {} (add_mset p E) (ps_world s2)" using rc_inv_same_heap [OF f(3)] c(1) by simp
  moreover have "json_object_size (ps_world s2) (Some p) = 0" using object_size_data [of "ps_world s2" p "ps_world s1"] f(3) c(4) by simp
  ultimately have "accounts (\<lambda>b. b \<le> p) E s2 r s'" using assms(5) [OF loop(4)] f r1 by auto
  moreover have "leaves (\<lambda>b. b \<le> p) E (ps_world s) (ps_world s2)"
    using a1 same_heap_leaves [OF f(3)] leaves_trans unfolding accounts_def by blast
  ultimately have "accounts (\<lambda>b. b \<le> p) E s r s'" using accounts_before by blast
  then show ?thesis by (rule accounts_widen) (use p in \<open>simp add: young_def\<close>)
qed

lemma object_created:
  assumes "rc_inv {} E w" "json_object w = (r, w')"
  shows "rc_inv {} (plus_result r E) w' \<and> (\<exists>d. creates d r w w' \<and> (\<forall>b. refs_newer b d) \<and> (\<forall>p. r = Some p \<longrightarrow> json_object_size w' (Some p) = 0))"
proof -
  obtain h where h: "creates (JObject h) r w w'" "ht_rel (w_seed w') h []"
    using json_object_creates [OF assms(2)] by blast
  have "json_object_size w' (Some p) = 0" if "r = Some p" for p
    using h that ht_rel_size [OF h(2)] by (auto simp: creates_def json_object_size_def object_table_def data_at_def)
  moreover have "refs_newer b (JObject h)" for b using refs_newer_object [OF h(2)] by simp
  ultimately show ?thesis using h(1) json_object_inv [OF assms] by blast
qed

lemma array_created:
  assumes "rc_inv {} E w" "json_array w = (r, w')"
  shows "rc_inv {} (plus_result r E) w' \<and> (\<exists>d. creates d r w w' \<and> (\<forall>b. refs_newer b d) \<and> (\<forall>p. r = Some p \<longrightarrow> json_object_size w' (Some p) = 0))"
  using json_array_creates [OF assms(2)] json_array_inv [OF assms]
  by (intro conjI exI [of _ "JArray \<lparr>a_size = 8, a_entries = 0, a_table = replicate 8 0\<rparr>"])
    (auto simp: creates_def json_object_size_def object_table_def data_at_def)

text \<open>An element is appended to the array, or released.\<close>

lemma append_accounts:
  assumes "lift_world (json_array_append_new (Some p) (Some e)) s = (x, s')"
    and "rc_inv {} (add_mset e (add_mset p E)) (ps_world s)" "p \<notin># E"
  shows "rc_inv {} (add_mset p E) (ps_world s') \<and> leaves (\<lambda>b. b \<le> p \<and> newer (Suc p) e) E (ps_world s) (ps_world s')"
proof -
  have eq: "json_array_append_new (Some p) (Some e) (ps_world s) = (x, ps_world s')" using lift_world_eq [OF assms(1)] by simp
  have inv: "rc_inv {} (add_mset p E) (ps_world s')" using json_array_append_new_inv [OF assms(2), of p] eq by simp
  then show ?thesis using loses_keeps [OF json_array_append_loses [OF eq] inv assms(3)] json_array_append_stays [OF assms(2) eq]
    by (simp add: leaves_def)
qed

text \<open>A member is stored in the object, or released.\<close>

lemma member_accounts:
  assumes "lift_world (json_object_set_new_nocheck (Some p) (Some k) (Some v)) s = (x, s')"
    and "rc_inv {} (add_mset v (add_mset p E)) (ps_world s)" "p \<notin># E" "json_object_size (ps_world s) (Some p) < 2 ^ 31"
  shows "rc_inv {} (add_mset p E) (ps_world s') \<and> leaves (\<lambda>b. b \<le> p \<and> newer (Suc p) v) E (ps_world s) (ps_world s') \<and>
    (x = 0 \<longrightarrow> json_object_size (ps_world s') (Some p) \<le> json_object_size (ps_world s) (Some p) + 1)"
proof -
  have eq: "json_object_set_new_nocheck (Some p) (Some k) (Some v) (ps_world s) = (x, ps_world s')" using lift_world_eq [OF assms(1)] by simp
  have inv: "rc_inv {} (add_mset p E) (ps_world s')"
    using json_object_set_new_nocheck_inv [OF assms(2), of p "Some k"] assms(4) eq by simp
  then have "leaves (\<lambda>b. b \<le> p \<and> newer (Suc p) v) E (ps_world s) (ps_world s')"
    using loses_keeps [OF json_object_set_loses [OF eq] inv assms(3)] json_object_set_stays [OF assms(2,4) eq] by (simp add: leaves_def)
  then show ?thesis using inv json_object_set_size [OF assms(2,4)] eq by auto
qed

definition value_books :: "nat \<Rightarrow> byte \<Rightarrow> nat \<Rightarrow> bool" where
  "value_books n point flags \<longleftrightarrow> (\<forall>s r s' E. parse_value n point flags s = Some (r, s') \<longrightarrow> ready s \<longrightarrow> wt s < 2 ^ 31 \<longrightarrow>
     rc_inv {} E (ps_world s) \<longrightarrow> accounts (\<lambda>_. True) E s r s')"

definition object_books :: "nat \<Rightarrow> byte \<Rightarrow> nat \<Rightarrow> bool" where
  "object_books n point flags \<longleftrightarrow> (\<forall>p s r s' E. parse_object_loop n point flags p s = Some (r, s') \<longrightarrow> ready s \<longrightarrow>
     string_ok s \<longrightarrow> p \<notin># E \<longrightarrow> rc_inv {} (add_mset p E) (ps_world s) \<longrightarrow>
     json_object_size (ps_world s) (Some p) + wt s < 2 ^ 31 \<longrightarrow> accounts (\<lambda>b. b \<le> p) E s r s')"

definition array_books :: "nat \<Rightarrow> byte \<Rightarrow> nat \<Rightarrow> bool" where
  "array_books n point flags \<longleftrightarrow> (\<forall>p s r s' E. parse_array_loop n point flags p s = Some (r, s') \<longrightarrow> ready s \<longrightarrow>
     p \<notin># E \<longrightarrow> rc_inv {} (add_mset p E) (ps_world s) \<longrightarrow> wt s < 2 ^ 31 \<longrightarrow> accounts (\<lambda>b. b \<le> p) E s r s')"

lemma value_books_Suc: "object_books n point flags \<Longrightarrow> array_books n point flags \<Longrightarrow> value_books (Suc n) point flags"
  unfolding value_books_def
proof (intro allI impI)
  fix s r s' E
  assume ob: "object_books n point flags" and ab: "array_books n point flags"
    and a: "parse_value (Suc n) point flags s = Some (r, s')" "ready s" "wt s < 2 ^ 31" "rc_inv {} E (ps_world s)"
  have d: "ready (deeper s)" "rc_inv {} E (ps_world (deeper s))" using a by simp_all
  have leave: "accounts (\<lambda>_. True) E s r (leave r t)" if "accounts (\<lambda>_. True) E (deeper s) r t" for t using that by (simp add: accounts_def)
  show "accounts (\<lambda>_. True) E s r s'"
    using a(1)
  proof (cases rule: parse_value_cases)
    case deep
    then show ?thesis using a(4) by (simp add: accounts_def del: cstr_Cons)
  next
    case (object s1)
    have "accounts (\<lambda>_. True) E (deeper s) r s1"
    proof (rule parse_container_accounts [OF object(4) d])
      fix p t r t'
      assume "parse_object_loop n point flags p t = Some (r, t')" "ready t" "wt t \<le> wt (deeper s)" "string_ok t" "p \<notin># E"
        "rc_inv {} (add_mset p E) (ps_world t)" "json_object_size (ps_world t) (Some p) = 0"
      then show "accounts (\<lambda>b. b \<le> p) E t r t'" using ob a(3) unfolding object_books_def by simp
    qed (rule object_created [OF d(2)])
    then show ?thesis using leave object(2) by simp
  next
    case (array s1)
    have "accounts (\<lambda>_. True) E (deeper s) r s1"
    proof (rule parse_container_accounts [OF array(4) d])
      fix p t r t'
      assume "parse_array_loop n point flags p t = Some (r, t')" "ready t" "wt t \<le> wt (deeper s)" "string_ok t" "p \<notin># E"
        "rc_inv {} (add_mset p E) (ps_world t)" "json_object_size (ps_world t) (Some p) = 0"
      then show "accounts (\<lambda>b. b \<le> p) E t r t'" using ab a(3) unfolding array_books_def by simp
    qed (rule array_created [OF d(2)])
    then show ?thesis using leave array(2) by simp
  next
    case (scalar s1)
    then show ?thesis using parse_scalar_accounts [OF scalar(3) d(2), of "\<lambda>_. True"] leave by simp
  qed
qed

text \<open>A value is read while \<^term>\<open>p\<close> is under construction.\<close>

lemma element_accounts:
  assumes "value_books n point flags" "parse_value n point flags s = Some (r, s')" "ready s" "wt s < 2 ^ 31"
    and "rc_inv {} (add_mset p E) (ps_world s)"
  shows "rc_inv {} (plus_result r (add_mset p E)) (ps_world s')" "leaves (\<lambda>b. b \<le> p) E (ps_world s) (ps_world s')"
    "json_object_size (ps_world s') (Some p) = json_object_size (ps_world s) (Some p)" "ready s'" "wt s' \<le> wt s"
    "\<And>b v. young b (ps_world s) \<Longrightarrow> b \<le> p \<Longrightarrow> r = Some v \<Longrightarrow> newer (Suc p) v"
proof -
  have a: "accounts (\<lambda>_. True) (add_mset p E) s r s'" using assms unfolding value_books_def by blast
  then show "rc_inv {} (plus_result r (add_mset p E)) (ps_world s')" "leaves (\<lambda>b. b \<le> p) E (ps_world s) (ps_world s')"
    using leaves_mono by (auto simp: accounts_def)
  have "data_at (ps_world s') (Some p) = data_at (ps_world s) (Some p)" using a by (simp add: accounts_def leaves_def keeps_def)
  then show "json_object_size (ps_world s') (Some p) = json_object_size (ps_world s) (Some p)" by (rule object_size_data)
  show "ready s'" "wt s' \<le> wt s" using parse_value_moved [OF assms(2,3)] by auto
  have "Suc p \<le> w_brk (ps_world s)" using rc_invD(3,9) [OF assms(5)] by force
  then have "young (Suc p) (ps_world s)" if "young b (ps_world s)" "b \<le> p" for b using that by (simp add: young_def)
  then show "\<And>b v. young b (ps_world s) \<Longrightarrow> b \<le> p \<Longrightarrow> r = Some v \<Longrightarrow> newer (Suc p) v" using a unfolding accounts_def by blast
qed

text \<open>Putting the value into the container, for the marks below the container.\<close>

lemma leaves_then:
  assumes "leaves (\<lambda>b. b \<le> p) E w w1" "leaves (\<lambda>b. b \<le> p \<and> newer (Suc p) v) E w1 w2" "\<And>b. young b w \<Longrightarrow> b \<le> p \<Longrightarrow> newer (Suc p) v"
  shows "leaves (\<lambda>b. b \<le> p) E w w2"
  using assms keeps_trans stays_trans unfolding leaves_def by (metis (no_types, lifting) stays_def)

lemma array_books_Suc: "value_books n point flags \<Longrightarrow> array_books n point flags \<Longrightarrow> array_books (Suc n) point flags"
  unfolding array_books_def [of "Suc n"]
proof (intro allI impI)
  fix p s r s' E
  assume vb: "value_books n point flags" and ab: "array_books n point flags"
    and a: "parse_array_loop (Suc n) point flags p s = Some (r, s')" "ready s" "p \<notin># E"
      "rc_inv {} (add_mset p E) (ps_world s)" "wt s < 2 ^ 31"
  note el = element_accounts [OF vb _ a(2,5,4)]
  have appended: "rc_inv {} (add_mset p E) (ps_world s2) \<and> leaves (\<lambda>b. b \<le> p) E (ps_world s) (ps_world s2) \<and> ready s2 \<and> wt s2 \<le> wt s"
    if "parse_value n point flags s = Some (Some e, s1)" "lift_world (json_array_append_new (Some p) (Some e)) s1 = (x, s2)" for e s1 x s2
  proof -
    note e = el [OF that(1)]
    have "rc_inv {} (add_mset e (add_mset p E)) (ps_world s1)" using e(1) by simp
    note ap = append_accounts [OF that(2) this a(3)]
    have "leaves (\<lambda>b. b \<le> p) E (ps_world s) (ps_world s2)" using leaves_then [OF e(2) conjunct2 [OF ap]] e(6) by blast
    then show ?thesis using ap e(4,5) lift_world_eq [OF that(2)] by simp
  qed
  show "accounts (\<lambda>b. b \<le> p) E s r s'"
    using a(1)
  proof (cases rule: parse_array_loop_cases)
    case eof
    then show ?thesis using parse_end_accounts [OF eof(2) a(4)] by simp
  next
    case (bad s1)
    then show ?thesis using parse_fail_accounts [OF bad(2)] el [OF bad(1)] accounts_before by fastforce
  next
    case (nomem e s1 x s2)
    then show ?thesis using parse_fail_accounts [OF nomem(4)] appended [OF nomem(1,2)] accounts_before by fastforce
  next
    case (last e s1 s2 s3)
    note ap = appended [OF last(1,2)]
    note f = lex_scan_facts [OF last(3)]
    have "rc_inv {} (add_mset p E) (ps_world s3)" using rc_inv_same_heap [OF f(3)] ap by blast
    then have "accounts (\<lambda>b. b \<le> p) E s3 r s'" using parse_end_accounts [OF last(5)] by blast
    then show ?thesis using accounts_before ap f(3) same_heap_leaves leaves_trans by blast
  next
    case (more e s1 s2 s3 s4)
    note ap = appended [OF more(1,2)]
    have r2: "ready s2" using ap by blast
    note f = lex_scan_facts [OF more(3) r2] and g = lex_scan_facts [OF more(5) lex_scan_facts(1) [OF more(3) r2]]
    have sh: "same_heap (ps_world s2) (ps_world s4)" using f(3) g(3) same_heap_trans by blast
    have "rc_inv {} (add_mset p E) (ps_world s4)" using rc_inv_same_heap [OF sh] ap by blast
    moreover have "wt s4 < 2 ^ 31" using f(2) g(2) ap a(5) by linarith
    ultimately have "accounts (\<lambda>b. b \<le> p) E s4 r s'" using ab more(6) g(1) a(3) unfolding array_books_def by blast
    then show ?thesis using accounts_before ap sh same_heap_leaves leaves_trans by blast
  qed
qed

lemma object_books_Suc: "value_books n point flags \<Longrightarrow> object_books n point flags \<Longrightarrow> object_books (Suc n) point flags"
  unfolding object_books_def [of "Suc n"]
proof (intro allI impI)
  fix p s r s' E
  assume vb: "value_books n point flags" and ob: "object_books n point flags"
    and a: "parse_object_loop (Suc n) point flags p s = Some (r, s')" "ready s" "string_ok s" "p \<notin># E"
      "rc_inv {} (add_mset p E) (ps_world s)" "json_object_size (ps_world s) (Some p) + wt s < 2 ^ 31"
  let ?size = "\<lambda>s. json_object_size (ps_world s) (Some p)"
  have read: "rc_inv {} (plus_result v (add_mset p E)) (ps_world s3) \<and> leaves (\<lambda>b. b \<le> p) E (ps_world s) (ps_world s3) \<and> ready s3 \<and>
      wt s3 < wt s \<and> ?size s3 = ?size s \<and> (\<forall>b y. young b (ps_world s) \<longrightarrow> b \<le> p \<longrightarrow> v = Some y \<longrightarrow> newer (Suc p) y)"
    if k: "parse_key point n flags p s = Some (Some k, s1)" "lex_scan point n s1 = Some s2"
      "parse_value n point flags s2 = Some (v, s3)" for k s1 s2 v s3
  proof -
    have m: "ready s1" "wt s1 < wt s" "same_heap (ps_world s) (ps_world s1)"
      using parse_key_moved [OF k(1) a(2)] parse_key_accounts [OF k(1) a(2,3,5)] by simp_all
    note f = lex_scan_facts [OF k(2) m(1)]
    have sh: "same_heap (ps_world s) (ps_world s2)" using m(3) f(3) same_heap_trans by blast
    have "wt s2 < 2 ^ 31" "rc_inv {} (add_mset p E) (ps_world s2)"
      using f(2) m(2) a(6) rc_inv_same_heap [OF sh] a(5) by (linarith, blast)
    note el = element_accounts [OF vb k(3) f(1) this]
    have "?size s2 = ?size s" using object_size_data [of "ps_world s2" p "ps_world s"] sh by simp
    moreover have "leaves (\<lambda>b. b \<le> p) E (ps_world s) (ps_world s3)"
      using leaves_trans [OF same_heap_leaves [OF sh] el(2)] .
    ultimately show ?thesis using el(1,3-6) f(2) m(2) same_heap_young [OF sh] by auto
  qed
  have stored: "rc_inv {} (add_mset p E) (ps_world s4) \<and> leaves (\<lambda>b. b \<le> p) E (ps_world s) (ps_world s4) \<and> ready s4 \<and> wt s4 < wt s \<and>
      (x = 0 \<longrightarrow> ?size s4 \<le> ?size s + 1)"
    if k: "parse_key point n flags p s = Some (Some k, s1)" "lex_scan point n s1 = Some s2"
      "parse_value n point flags s2 = Some (Some v, s3)" "lift_world (json_object_set_new_nocheck (Some p) (Some k) (Some v)) s3 = (x, s4)"
    for k s1 s2 v s3 x s4
  proof -
    have rd: "rc_inv {} (add_mset v (add_mset p E)) (ps_world s3)" "leaves (\<lambda>b. b \<le> p) E (ps_world s) (ps_world s3)" "ready s3" "wt s3 < wt s"
      "?size s3 = ?size s" "\<And>b. young b (ps_world s) \<Longrightarrow> b \<le> p \<Longrightarrow> newer (Suc p) v" using read [OF k(1-3)] by simp_all
    have "?size s3 < 2 ^ 31" using rd(5) a(6) by linarith
    note ma = member_accounts [OF k(4) rd(1) a(4) this]
    have "leaves (\<lambda>b. b \<le> p) E (ps_world s) (ps_world s4)" by (rule leaves_then [OF rd(2)]) (use ma rd(6) in blast)+
    then show ?thesis using ma rd(3-5) lift_world_eq [OF k(4)] by simp
  qed
  show "accounts (\<lambda>b. b \<le> p) E s r s'"
    using a(1)
  proof (cases rule: parse_object_loop_cases)
    case nokey
    then show ?thesis using parse_key_accounts [OF nokey(1) a(2,3,5)] by simp
  next
    case (bad k s1 s2 s3)
    then show ?thesis using parse_fail_accounts [OF bad(4)] read [OF bad(1-3)] accounts_before by fastforce
  next
    case (nomem k s1 s2 v s3 x s4)
    then show ?thesis using parse_fail_accounts [OF nomem(6)] stored [OF nomem(1-4)] accounts_before by fastforce
  next
    case (last k s1 s2 v s3 s4 s5)
    note st = stored [OF last(1-4)]
    note f = lex_scan_facts [OF last(5)]
    have "rc_inv {} (add_mset p E) (ps_world s5)" using rc_inv_same_heap [OF f(3)] st by blast
    then have "accounts (\<lambda>b. b \<le> p) E s5 r s'" using parse_end_accounts [OF last(7)] by blast
    then show ?thesis using accounts_before st f(3) same_heap_leaves leaves_trans by blast
  next
    case (more k s1 s2 v s3 s4 s5 s6)
    note st = stored [OF more(1-4)]
    have r4: "ready s4" using st by blast
    note f = lex_scan_facts [OF more(5) r4] and g = lex_scan_facts [OF more(7) lex_scan_facts(1) [OF more(5) r4]]
    have sh: "same_heap (ps_world s4) (ps_world s6)" using f(3) g(3) same_heap_trans by blast
    have "rc_inv {} (add_mset p E) (ps_world s6)" using rc_inv_same_heap [OF sh] st by blast
    moreover have "?size s6 = ?size s4" using object_size_data [of "ps_world s6" p "ps_world s4"] sh by simp
    then have "?size s6 + wt s6 < 2 ^ 31" using f(2) g(2) st a(6) by linarith
    ultimately have "accounts (\<lambda>b. b \<le> p) E s6 r s'" using ob more(8) g(1,4) a(4) unfolding object_books_def by blast
    then show ?thesis using accounts_before st sh same_heap_leaves leaves_trans by blast
  qed
qed

lemma parser_books: "value_books n point flags \<and> object_books n point flags \<and> array_books n point flags"
proof (induction n)
  case 0
  show ?case by (simp add: value_books_def object_books_def array_books_def)
next
  case (Suc n)
  then show ?case using value_books_Suc object_books_Suc array_books_Suc by blast
qed

lemma parse_value_accounts:
  "parse_value n point flags s = Some (r, s') \<Longrightarrow> ready s \<Longrightarrow> wt s < 2 ^ 31 \<Longrightarrow> rc_inv {} E (ps_world s) \<Longrightarrow> accounts (\<lambda>_. True) E s r s'"
  using parser_books unfolding value_books_def by blast

end

lemma newest_first:
  assumes inv: "rc_inv {} E w" and y: "young b w" and E: "\<forall>q \<in># E. q < b"
    and old: "\<And>q c x. w_heap w q = Some c \<Longrightarrow> q < b \<Longrightarrow> x \<in># cell_refs (j_data c) \<Longrightarrow> x < b"
    and st: "\<forall>q \<in> statics. q < b"
  shows "w_heap w q = None \<or> q < b"
proof (rule ccontr)
  assume "\<not> (w_heap w q = None \<or> q < b)"
  then have "\<exists>q. w_heap w q \<noteq> None \<and> b \<le> q" by force
  then obtain m where m: "w_heap w m \<noteq> None \<and> b \<le> m" "\<forall>k < m. \<not> (w_heap w k \<noteq> None \<and> b \<le> k)"
    unfolding exists_least_iff [of "\<lambda>q. w_heap w q \<noteq> None \<and> b \<le> q"] by blast
  note m = conjunct1 [OF m(1)] conjunct2 [OF m(1)] m(2)
  obtain c where c: "w_heap w m = Some c" using m(1) by auto
  have "m \<notin> statics" "m \<notin># E" using m(2) st E by fastforce+
  then have "0 < count (heap_refs {} w) m" using rc_invD(7,8) [OF inv c] by (simp add: count_eq_zero_iff)
  then obtain k ck where k: "w_heap w k = Some ck" "m \<in># cell_refs (j_data ck)"
    using heap_refs_none [OF rc_invD(2) [OF inv]] by (metis less_irrefl)
  have bk: "b \<le> k" using old [OF k(1) _ k(2)] m(2) by (meson not_le)
  have "refs_newer (Suc k) (j_data ck)" using y k(1) bk by (simp add: young_def)
  have "k \<notin> statics" using st bk by fastforce
  then have wf: "data_wf (w_seed w) (j_data ck)" using rc_invD(5) [OF inv k(1)] by blast
  have "newer (Suc k) m"
  proof (cases "j_data ck")
    case (JObject h)
    then obtain al where al: "ht_rel (w_seed w) h al" using wf by auto
    have "m \<in> set (map snd al)" using k(2) unfolding JObject cell_refs_object [OF al] by (simp only: set_mset_mset)
    moreover have "refs_newer (Suc k) (JObject h)" using \<open>refs_newer (Suc k) (j_data ck)\<close> unfolding JObject .
    ultimately show ?thesis unfolding refs_newer_object [OF al] by (rule bspec [rotated])
  next
    case (JArray a)
    then show ?thesis using k(2) \<open>refs_newer (Suc k) (j_data ck)\<close> by auto
  qed (use k(2) in auto)
  then have "k < m" using \<open>m \<notin> statics\<close> by (simp add: newer_def)
  then show False using m(3) k(1) bk by auto
qed

context byte_source
begin

lemma parse_json_accounts:
  assumes pj: "parse_json n point flags s = Some (r, s')" and s: "ready s" "wt s < 2 ^ 31" "rc_inv {} E (ps_world s)"
  shows "accounts (\<lambda>_. True) E s r s'"
proof -
  let ?s0 = "upd_lex (\<lambda>l. l\<lparr>lx_depth := 0\<rparr>) s"
  obtain s1 where s1: "lex_scan point n ?s0 = Some s1" using pj by (auto simp: parse_json_def bind_eq_Some_conv)
  note f = lex_scan_facts [OF s1]
  have h1: "same_heap (ps_world s) (ps_world s1)" "ready s1" "wt s1 < 2 ^ 31" using f s by auto
  have inv1: "rc_inv {} E (ps_world s1)" using rc_inv_same_heap [OF h1(1)] s(3) by simp
  have fromS: "accounts (\<lambda>_. True) E s q t" if "accounts (\<lambda>_. True) E s1 q t" for q t
    using accounts_before [OF that same_heap_leaves [OF h1(1)]] .
  show ?thesis
  proof (cases "\<not> flag_set flags JSON_DECODE_ANY \<and> ps_token s1 \<noteq> 91 \<and> ps_token s1 \<noteq> 123")
    case True
    then have "r = None \<and> ps_world s' = ps_world s1" using pj s1 by (auto simp: parse_json_def simp del: cstr_Cons)
    then show ?thesis using inv1 by (intro fromS) (simp add: accounts_def)
  next
    case False
    then obtain q s2 where v: "parse_value n point flags s1 = Some (q, s2)"
      using pj s1 by (auto simp: parse_json_def bind_eq_Some_conv simp del: cstr_Cons)
    have a2: "accounts (\<lambda>_. True) E s q s2" using fromS parse_value_accounts [OF v h1(2,3) inv1] .
    have r2: "ready s2" using parse_value_moved [OF v h1(2)] by simp
    show ?thesis
    proof (cases q)
      case None
      then show ?thesis using pj s1 False v a2 by (auto simp: parse_json_def simp del: cstr_Cons)
    next
      case (Some p)
      obtain ok s3 where c: "(if flag_set flags JSON_DISABLE_EOF_CHECK then Some (True, s2)
          else do { s3 \<leftarrow> lex_scan point n s2; Some (ps_token s3 = TOKEN_EOF, s3) }) = Some (ok, s3)"
        using pj s1 False v Some by (auto simp: parse_json_def bind_eq_Some_conv simp del: cstr_Cons)
      have h3: "same_heap (ps_world s2) (ps_world s3)"
        using c lex_scan_facts(3) [OF _ r2] by (auto split: if_splits simp: bind_eq_Some_conv)
      have a3: "accounts (\<lambda>_. True) E s q s3" using accounts_after [OF a2 h3] .
      have res: "(r, s') = (if ok then (Some p, s3\<lparr>ps_error := map_option
            (\<lambda>e. e\<lparr>err_position := int_of_size (st_position (ps_stream s3))\<rparr>) (ps_error s3)\<rparr>)
          else parse_fail p (error_set json_error_end_of_input_expected (cstr ''end of file expected'') s3))"
        using pj s1 False v Some c by (cases ok) (auto simp: parse_json_def simp del: cstr_Cons)
      show ?thesis
      proof (cases ok)
        case True
        then show ?thesis using res a3 Some by (simp add: accounts_def)
      next
        case no: False
        let ?t = "error_set json_error_end_of_input_expected (cstr ''end of file expected'') s3"
        have inv3: "rc_inv {} (add_mset p E) (ps_world ?t)" using a3 Some by (simp add: accounts_def del: cstr_Cons)
        have eq: "parse_fail p ?t = (r, s')" using res no by simp
        have "r = None" using eq by (auto simp: parse_fail_def)
        have pn: "newer b p" if "young b (ps_world s)" for b using a3 Some that by (simp add: accounts_def)
        have w': "ps_world s' = json_decref (Some p) (ps_world s3)" using eq by (auto simp: parse_fail_def)
        have "rc_inv {} E (ps_world s')" "keeps E (ps_world s3) (ps_world s')"
          using parse_fail_accounts [OF eq inv3] \<open>r = None\<close> by (simp_all add: accounts_def leaves_def del: cstr_Cons)
        moreover have "stays b (ps_world s) (ps_world s')" if "young b (ps_world s)" for b
          using decref_stays(2) [OF _ pn [OF that]] a3 that stays_trans w' unfolding accounts_def leaves_def by (metis stays_def)
        ultimately show ?thesis using a3 keeps_trans \<open>r = None\<close> unfolding accounts_def leaves_def by auto
      qed
    qed
  qed
qed

lemma load_with_accounts:
  assumes l: "load_with n point get data flags error w = Some (r, e, w')" and inv: "rc_inv {} E w"
    and len: "length (bytes data) + 1 < 2 ^ 31"
  shows "rc_inv {} (plus_result r E) w' \<and> stays (w_brk w) w w' \<and> (r = None \<longrightarrow> w_heap w' = w_heap w)"
proof -
  obtain x s where i: "lex_init get flags data error w = (x, s)" by fastforce
  then have s: "ps_stream s = stream_init get data" "same_heap w (ps_world s)" by (auto simp: lex_init_def same_heap_def split: prod.splits)
  have "rc_inv {} (plus_result r E) w' \<and> leaves (\<lambda>_. True) E w w'"
  proof (cases "x = 0")
    case True
    then obtain s' where p: "parse_json n point flags s = Some (r, s')" and w': "w' = ps_world s'"
      using l i by (auto simp: load_with_def load_result_def Let_def lex_close_def)
    have "accounts (\<lambda>_. True) E s r s'"
      using parse_json_accounts [OF p] s stream_init_ready rc_inv_same_heap [OF s(2)] inv len by simp
    then show ?thesis using w' leaves_trans [OF same_heap_leaves [OF s(2)]] by (auto simp: accounts_def)
  next
    case False
    then have "r = None" "w' = ps_world s" using l i by (auto simp: load_with_def)
    then show ?thesis using rc_inv_same_heap [OF s(2)] inv same_heap_leaves [OF s(2)] by simp
  qed
  then have rc: "rc_inv {} (plus_result r E) w'" and st: "stays (w_brk w) w w'"
    using young_fresh [OF inv] by (simp_all add: leaves_def)
  have "w_heap w' q = w_heap w q" if "r = None" for q
  proof (cases "q < w_brk w")
    case False
    have dom: "\<And>q. q \<in> dom (w_heap w) \<Longrightarrow> q < w_brk w" using rc_invD(3) [OF inv] by force
    have "w_heap w' q = None \<or> q < w_brk w"
    proof (rule newest_first [of E])
      show "rc_inv {} E w'" using rc that by simp
      show "young (w_brk w) w'" using st by (simp add: stays_def)
      show "\<forall>q \<in># E. q < w_brk w" using rc_invD(9) [OF inv] dom by blast
      show "\<forall>q \<in> statics. q < w_brk w" using statics_cell [OF rc_invD(4) [OF inv]] dom by blast
      show "x < w_brk w" if "w_heap w' k = Some c" "k < w_brk w" "x \<in># cell_refs (j_data c)" for k c x
      proof -
        have "w_heap w k = Some c" using that st by (simp add: stays_def)
        then have "0 < count (heap_refs {} w) x" using heap_refs_none [OF rc_invD(2) [OF inv]] that(3) by fastforce
        then show ?thesis using rc_invD(10) [OF inv] dom by (simp add: subset_iff)
      qed
    qed
    moreover have "w_heap w q = None" using False dom by blast
    ultimately show ?thesis using False by simp
  qed (use st in \<open>simp add: stays_def\<close>)
  then show ?thesis using rc st by blast
qed

end




end
