(* ===== verification/Json_Dump.thy ===== *)
theory Json_Dump
  imports Json_Value Strconv "HOL-Library.List_Lexorder"
begin

text \<open>
  \<^verbatim>\<open>jansson/src/dump.c\<close>: the serialiser.  A \<^verbatim>\<open>json_dump_callback_t\<close> with its \<^verbatim>\<open>data\<close> is a
  function on its own state and the heap, since the callback of \<^verbatim>\<open>json_dumps\<close> allocates; it
  returns 0 or an error.  The set of the containers being written (\<^verbatim>\<open>parents\<close>) detects cycles.
\<close>

section \<open>State and flags\<close>

type_synonym 'd sink = "byte list \<Rightarrow> 'd \<Rightarrow> world \<Rightarrow> int \<times> 'd \<times> world"

record 'd dumper =
  dm_parents :: "ptr hashtable"
  dm_data :: 'd
  dm_world :: world

definition MAX_INTEGER_STR_LENGTH :: nat where "MAX_INTEGER_STR_LENGTH = 100"
definition MAX_REAL_STR_LENGTH :: nat where "MAX_REAL_STR_LENGTH = 100"

definition JSON_COMPACT :: nat where "JSON_COMPACT = 0x20"
definition JSON_ENSURE_ASCII :: nat where "JSON_ENSURE_ASCII = 0x40"
definition JSON_SORT_KEYS :: nat where "JSON_SORT_KEYS = 0x80"
definition JSON_ENCODE_ANY :: nat where "JSON_ENCODE_ANY = 0x200"
definition JSON_ESCAPE_SLASH :: nat where "JSON_ESCAPE_SLASH = 0x400"
definition JSON_EMBED :: nat where "JSON_EMBED = 0x10000"

definition dflag :: "nat \<Rightarrow> nat \<Rightarrow> bool" where
  "dflag flags msk \<longleftrightarrow> flags AND msk \<noteq> 0"

definition FLAGS_TO_INDENT :: "nat \<Rightarrow> nat" where
  "FLAGS_TO_INDENT f = f AND 0x1F"

definition FLAGS_TO_PRECISION :: "nat \<Rightarrow> nat" where
  "FLAGS_TO_PRECISION f = drop_bit 11 f AND 0x1F"

definition clear_embed :: "nat \<Rightarrow> nat" where
  "clear_embed flags = flags - (flags AND JSON_EMBED)"

section \<open>Sinks\<close>

definition dump_to_strbuffer :: "strbuffer sink" where
  "dump_to_strbuffer buffer sb w =
     (case strbuffer_append_bytes sb buffer (w_mem w) of (r, sb', m) \<Rightarrow> (r, sb', w\<lparr>w_mem := m\<rparr>))"

record dump_buffer =
  bf_size :: nat
  bf_used :: nat
  bf_data :: "byte list"

definition dump_to_buffer :: "dump_buffer sink" where
  "dump_to_buffer buffer buf w =
     (let n = length buffer;
          buf1 = (if bf_used buf + n \<le> bf_size buf
                  then buf\<lparr>bf_data := mem_write (bf_data buf) (bf_used buf) buffer\<rparr> else buf)
      in (0, buf1\<lparr>bf_used := bf_used buf1 + n\<rparr>, w))"

text \<open>\<^term>\<open>fwrite\<close> returns the number of items written, \<^term>\<open>write\<close> the number of bytes.\<close>

definition dump_to_file :: "(byte list \<Rightarrow> 'f \<Rightarrow> nat \<times> 'f) \<Rightarrow> 'f sink" where
  "dump_to_file fwrite buffer dest w =
     (case fwrite buffer dest of (k, dest') \<Rightarrow> (if k \<noteq> 1 then -1 else 0, dest', w))"

definition dump_to_fd :: "(byte list \<Rightarrow> 'f \<Rightarrow> int \<times> 'f) \<Rightarrow> 'f sink" where
  "dump_to_fd write buffer dest w =
     (case write buffer dest of (k, dest') \<Rightarrow> (if k = int (length buffer) then 0 else -1, dest', w))"

section \<open>Sequencing\<close>

text \<open>\<^verbatim>\<open>if (f) return -1; return g;\<close>\<close>

definition and_then :: "('s \<Rightarrow> int \<times> 's) \<Rightarrow> ('s \<Rightarrow> int \<times> 's) \<Rightarrow> 's \<Rightarrow> int \<times> 's" where
  "and_then f g s = (case f s of (r, s1) \<Rightarrow> if r \<noteq> 0 then (-1, s1) else g s1)"

definition skip :: "'s \<Rightarrow> int \<times> 's" where
  "skip s = (0, s)"

definition emit :: "'d sink \<Rightarrow> byte list \<Rightarrow> 'd dumper \<Rightarrow> int \<times> 'd dumper" where
  "emit dump text s =
     (case dump text (dm_data s) (dm_world s) of (r, d, w) \<Rightarrow> (r, s\<lparr>dm_data := d, dm_world := w\<rparr>))"

section \<open>Indentation\<close>

fun indent_loop :: "nat \<Rightarrow> 'd sink \<Rightarrow> nat \<Rightarrow> 'd dumper \<Rightarrow> int \<times> 'd dumper" where
  "indent_loop 0 dump n_spaces s = (0, s)"
| "indent_loop (Suc fuel) dump n_spaces s =
     (if n_spaces = 0 then (0, s)
      else
        let cur_n = min n_spaces 32
        in and_then (emit dump (replicate cur_n 32)) (indent_loop fuel dump (n_spaces - cur_n)) s)"

definition dump_indent :: "nat \<Rightarrow> nat \<Rightarrow> bool \<Rightarrow> 'd sink \<Rightarrow> 'd dumper \<Rightarrow> int \<times> 'd dumper" where
  "dump_indent flags depth space dump s =
     (if FLAGS_TO_INDENT flags > 0 then
        let ws_count = FLAGS_TO_INDENT flags;
            n_spaces = (depth * ws_count) mod 2 ^ 32
        in and_then (emit dump (cstr [CHR 0x0A])) (indent_loop n_spaces dump n_spaces) s
      else if space \<and> \<not> dflag flags JSON_COMPACT then emit dump (cstr '' '') s
      else (0, s))"

section \<open>Strings\<close>

definition needs_escape :: "nat \<Rightarrow> int \<Rightarrow> bool" where
  "needs_escape flags codepoint \<longleftrightarrow>
     codepoint = 92 \<or> codepoint = 34 \<or> codepoint < 0x20 \<or>
     (dflag flags JSON_ESCAPE_SLASH \<and> codepoint = 47) \<or>
     (dflag flags JSON_ENSURE_ASCII \<and> codepoint > 0x7F)"

text \<open>
  The inner loop of \<^verbatim>\<open>dump_string\<close> over the bytes from \<^verbatim>\<open>str\<close> to \<^verbatim>\<open>lim\<close>: the offsets of
  \<^verbatim>\<open>pos\<close> and \<^verbatim>\<open>end\<close> where it stops and the last code point, or \<^const>\<open>None\<close> for invalid UTF-8.
\<close>

function dump_scan :: "nat \<Rightarrow> byte list \<Rightarrow> nat \<Rightarrow> int \<Rightarrow> (nat \<times> nat \<times> int) option" where
  "dump_scan flags str pos codepoint =
     (if pos \<ge> length str then Some (pos, pos, codepoint)
      else
        case utf8_iterate (drop pos str) of
          None \<Rightarrow> None
        | Some (n, None) \<Rightarrow> Some (pos, pos + n, codepoint)
        | Some (n, Some cp) \<Rightarrow>
            if needs_escape flags cp then Some (pos, pos + n, cp)
            else dump_scan flags str (pos + n) cp)"
  by pat_completeness auto
termination
  by (relation "measure (\<lambda>(flags, str, pos, cp). length str - pos)") (auto dest!: utf8_iterate_sound)

declare dump_scan.simps [simp del]

definition escape_text :: "int \<Rightarrow> byte list" where
  "escape_text codepoint =
     (if codepoint = 92 then [92, 92]
      else if codepoint = 34 then [92, 34]
      else if codepoint = 8 then [92, 98]
      else if codepoint = 12 then [92, 102]
      else if codepoint = 10 then [92, 110]
      else if codepoint = 13 then [92, 114]
      else if codepoint = 9 then [92, 116]
      else if codepoint = 47 then [92, 47]
      else if codepoint < 0x10000 then [92, 117] @ fmt_04X (nat codepoint)
      else
        let c = codepoint - 0x10000;
            first = 0xD800 OR drop_bit 10 (c AND 0xFFC00);
            lst = 0xDC00 OR (c AND 0x003FF)
        in [92, 117] @ fmt_04X (nat first) @ [92, 117] @ fmt_04X (nat lst))"

lemma dump_scan_bounds:
  "dump_scan flags str pos cp = Some (p, e, c) \<Longrightarrow> pos \<le> length str \<Longrightarrow> pos \<le> p \<and> p \<le> e \<and> e \<le> length str"
proof (induction flags str pos cp rule: dump_scan.induct)
  case (1 flags str pos cp)
  have n: "pos + n \<le> length str" if "utf8_iterate (drop pos str) = Some (n, Some c')" for n c'
    using utf8_iterate_sound [OF that] "1.prems" by auto
  show ?case
    using "1.prems" "1.IH" n
    by (subst (asm) dump_scan.simps)
      (fastforce simp: utf8_iterate_None_Some split: if_splits option.splits)
qed

function dump_string_loop :: "nat \<Rightarrow> 'd sink \<Rightarrow> byte list \<Rightarrow> 'd dumper \<Rightarrow> int \<times> 'd dumper" where
  "dump_string_loop flags dump str s =
     (case dump_scan flags str 0 0 of
        None \<Rightarrow> (-1, s)
      | Some (pos, fin, codepoint) \<Rightarrow>
          (case (if pos \<noteq> 0 then emit dump (take pos str) s else (0, s)) of
             (r, s1) \<Rightarrow>
               if r \<noteq> 0 then (-1, s1)
               else if fin = pos then emit dump (cstr [CHR 0x22]) s1
               else
                 case emit dump (escape_text codepoint) s1 of
                   (r2, s2) \<Rightarrow> if r2 \<noteq> 0 then (-1, s2) else dump_string_loop flags dump (drop fin str) s2))"
  by pat_completeness auto
termination
  by (relation "measure (\<lambda>(flags, dump, str, s). length str)") (auto dest!: dump_scan_bounds)

declare dump_string_loop.simps [simp del]

definition dump_string :: "byte list \<Rightarrow> 'd sink \<Rightarrow> nat \<Rightarrow> 'd dumper \<Rightarrow> int \<times> 'd dumper" where
  "dump_string str dump flags s =
     and_then (emit dump (cstr [CHR 0x22])) (dump_string_loop flags dump str) s"

section \<open>Values\<close>

definition loop_enter :: "ptr \<Rightarrow> 'd dumper \<Rightarrow> int \<times> 'd dumper" where
  "loop_enter p s =
     (case jsonp_loop_check (dm_parents s) p (dm_world s) of
        (r, ps, w) \<Rightarrow> (r, s\<lparr>dm_parents := ps, dm_world := w\<rparr>))"

definition loop_leave :: "ptr \<Rightarrow> 'd dumper \<Rightarrow> int \<times> 'd dumper" where
  "loop_leave p s =
     (case parents_del (dm_parents s) p (dm_world s) of
        (ps, w) \<Rightarrow> (0, s\<lparr>dm_parents := ps, dm_world := w\<rparr>))"

text \<open>What follows an element: a comma and the indentation of the next, or the last indentation.\<close>

definition dump_separator :: "'d sink \<Rightarrow> nat \<Rightarrow> nat \<Rightarrow> bool \<Rightarrow> 'd dumper \<Rightarrow> int \<times> 'd dumper" where
  "dump_separator dump flags depth cont s =
     (if cont then and_then (emit dump (cstr '','')) (dump_indent flags (depth + 1) True dump) s
      else dump_indent flags depth False dump s)"

fun dump_array_loop ::
  "(ptr option \<Rightarrow> 'd dumper \<Rightarrow> int \<times> 'd dumper) \<Rightarrow> 'd sink \<Rightarrow> nat \<Rightarrow> nat \<Rightarrow> ptr option \<Rightarrow> nat \<Rightarrow> nat list \<Rightarrow>
   'd dumper \<Rightarrow> int \<times> 'd dumper" where
  "dump_array_loop rec dump flags depth json n [] s = (0, s)"
| "dump_array_loop rec dump flags depth json n (i # is) s =
     and_then (\<lambda>s. rec (json_array_get (dm_world s) json i) s)
       (and_then (dump_separator dump flags depth (i < n - 1))
         (dump_array_loop rec dump flags depth json n is)) s"

definition compare_keys :: "byte list \<Rightarrow> byte list \<Rightarrow> bool" where
  "compare_keys key1 key2 \<longleftrightarrow> key1 \<le> key2"

text \<open>
  A member: the failure of \<^verbatim>\<open>dump_string\<close> on the key is ignored, as in the code.
\<close>

definition dump_member ::
  "(ptr option \<Rightarrow> 'd dumper \<Rightarrow> int \<times> 'd dumper) \<Rightarrow> 'd sink \<Rightarrow> nat \<Rightarrow> nat \<Rightarrow> byte list \<Rightarrow> ptr option \<Rightarrow> bool \<Rightarrow>
   'd dumper \<Rightarrow> int \<times> 'd dumper" where
  "dump_member rec dump flags depth key v cont s =
     (let s1 = snd (dump_string key dump flags s);
          separator = (if dflag flags JSON_COMPACT then cstr '':'' else cstr '': '')
      in and_then (emit dump separator)
           (and_then (rec v) (dump_separator dump flags depth cont)) s1)"

fun dump_sorted_loop ::
  "(ptr option \<Rightarrow> 'd dumper \<Rightarrow> int \<times> 'd dumper) \<Rightarrow> 'd sink \<Rightarrow> nat \<Rightarrow> nat \<Rightarrow> ptr option \<Rightarrow> byte list list \<Rightarrow>
   'd dumper \<Rightarrow> int \<times> 'd dumper" where
  "dump_sorted_loop rec dump flags depth json [] s = (0, s)"
| "dump_sorted_loop rec dump flags depth json (key # keys) s =
     and_then
       (\<lambda>s. dump_member rec dump flags depth key (json_object_get (dm_world s) json (Some key))
              (keys \<noteq> []) s)
       (dump_sorted_loop rec dump flags depth json keys) s"

fun dump_object_loop ::
  "nat \<Rightarrow> (ptr option \<Rightarrow> 'd dumper \<Rightarrow> int \<times> 'd dumper) \<Rightarrow> 'd sink \<Rightarrow> nat \<Rightarrow> nat \<Rightarrow> ptr option \<Rightarrow>
   iter option \<Rightarrow> 'd dumper \<Rightarrow> int \<times> 'd dumper" where
  "dump_object_loop 0 rec dump flags depth json iter s = (0, s)"
| "dump_object_loop (Suc n) rec dump flags depth json iter s =
     (if iter = None then (0, s)
      else
        let nxt = json_object_iter_next (dm_world s) json iter;
            key = the (json_object_iter_key (dm_world s) iter);
            v = json_object_iter_value (dm_world s) iter
        in and_then (dump_member rec dump flags depth key v (nxt \<noteq> None))
             (dump_object_loop n rec dump flags depth json nxt) s)"

fun iter_keys :: "nat \<Rightarrow> world \<Rightarrow> ptr option \<Rightarrow> iter option \<Rightarrow> byte list list" where
  "iter_keys 0 w json iter = []"
| "iter_keys (Suc n) w json iter =
     (if iter = None then []
      else the (json_object_iter_key w iter) # iter_keys n w json (json_object_iter_next w json iter))"

definition node_bound :: "world \<Rightarrow> ptr option \<Rightarrow> nat" where
  "node_bound w json = (case object_table w json of None \<Rightarrow> 0 | Some h \<Rightarrow> ht_fresh h)"

text \<open>The members of an object, in the order of their keys or in insertion order.\<close>

definition dump_members ::
  "(ptr option \<Rightarrow> 'd dumper \<Rightarrow> int \<times> 'd dumper) \<Rightarrow> 'd sink \<Rightarrow> nat \<Rightarrow> nat \<Rightarrow> ptr option \<Rightarrow>
   'd dumper \<Rightarrow> int \<times> 'd dumper" where
  "dump_members rec dump flags depth json s =
     (let w = dm_world s; iter = json_object_iter w json in
      if dflag flags JSON_SORT_KEYS then
        (case w_malloc (json_object_size w json * SIZEOF_POINTER) w of
           (False, w1) \<Rightarrow> (-1, s\<lparr>dm_world := w1\<rparr>)
         | (True, w1) \<Rightarrow>
             let keys = sort (iter_keys (node_bound w json) w1 json iter)
             in dump_sorted_loop rec dump flags depth json keys (s\<lparr>dm_world := w1\<rparr>))
      else dump_object_loop (node_bound w json) rec dump flags depth json iter s)"

fun do_dump ::
  "nat \<Rightarrow> byte \<Rightarrow> 'd sink \<Rightarrow> nat \<Rightarrow> nat \<Rightarrow> ptr option \<Rightarrow> 'd dumper \<Rightarrow> int \<times> 'd dumper" where
  "do_dump 0 point dump flags0 depth json s = (-1, s\<lparr>dm_world := (dm_world s)\<lparr>w_fault := True\<rparr>\<rparr>)"
| "do_dump (Suc fuel) point dump flags0 depth json s =
     (let embed = dflag flags0 JSON_EMBED;
          flags = clear_embed flags0;
          opening = (\<lambda>text. if embed then skip else emit dump text)
      in case data_at (dm_world s) json of
           None \<Rightarrow> (-1, s)
         | Some JNull \<Rightarrow> emit dump (cstr ''null'') s
         | Some JTrue \<Rightarrow> emit dump (cstr ''true'') s
         | Some JFalse \<Rightarrow> emit dump (cstr ''false'') s
         | Some (JInteger i) \<Rightarrow>
             let buffer = fmt_d i in
             if length buffer \<ge> MAX_INTEGER_STR_LENGTH then (-1, s) else emit dump buffer s
         | Some (JReal x) \<Rightarrow>
             (case jsonp_dtostr point MAX_REAL_STR_LENGTH x (FLAGS_TO_PRECISION flags) of
                (sz, buffer) \<Rightarrow> if sz < 0 then (-1, s) else emit dump buffer s)
         | Some (JString str) \<Rightarrow> dump_string str dump flags s
         | Some (JArray a) \<Rightarrow>
             let n = json_array_size (dm_world s) json in
             and_then (loop_enter (the json))
               (and_then (opening (cstr ''[''))
                 (if n = 0 then and_then (loop_leave (the json)) (opening (cstr '']''))
                  else
                    and_then (dump_indent flags (depth + 1) False dump)
                      (and_then
                        (dump_array_loop (do_dump fuel point dump flags (depth + 1)) dump flags depth json n [0..<n])
                        (and_then (loop_leave (the json)) (opening (cstr '']'')))))) s
         | Some (JObject h) \<Rightarrow>
             and_then (loop_enter (the json))
               (\<lambda>s. and_then (opening (cstr ''{''))
                 (if json_object_iter (dm_world s) json = None
                  then and_then (loop_leave (the json)) (opening (cstr ''}''))
                  else
                    and_then (dump_indent flags (depth + 1) False dump)
                      (and_then
                        (dump_members (do_dump fuel point dump flags (depth + 1)) dump flags depth json)
                        (and_then (loop_leave (the json)) (opening (cstr ''}''))))) s) s)"

section \<open>Entry points\<close>

definition json_dump_callback ::
  "byte \<Rightarrow> ptr option \<Rightarrow> 'd sink \<Rightarrow> 'd \<Rightarrow> nat \<Rightarrow> world \<Rightarrow> int \<times> 'd \<times> world" where
  "json_dump_callback point json callback data flags w =
     (if \<not> dflag flags JSON_ENCODE_ANY \<and> \<not> json_is_array w json \<and> \<not> json_is_object w json then (-1, data, w)
      else
        case parents_init w of
          (None, w1) \<Rightarrow> (-1, data, w1)
        | (Some parents_set, w1) \<Rightarrow>
            (case do_dump (w_brk w1 + 1) point callback flags 0 json
                    \<lparr>dm_parents = parents_set, dm_data = data, dm_world = w1\<rparr> of
               (res, s) \<Rightarrow> (res, dm_data s, hashtable_close decref_ptr (dm_parents s) (dm_world s))))"

definition json_dumps :: "byte \<Rightarrow> ptr option \<Rightarrow> nat \<Rightarrow> world \<Rightarrow> byte list option \<times> world" where
  "json_dumps point json flags w =
     (case strbuffer_init (w_mem w) of
        (r, sb, m) \<Rightarrow>
          let w1 = w\<lparr>w_mem := m\<rparr> in
          if r \<noteq> 0 then (None, w1)
          else
            case json_dump_callback point json dump_to_strbuffer sb flags w1 of
              (res, sb1, w2) \<Rightarrow>
                if res \<noteq> 0 then (None, w2)
                else
                  (case jsonp_strdup (c_string (the (strbuffer_value sb1))) (w_mem w2) of
                     (result, m2) \<Rightarrow> (result, w2\<lparr>w_mem := m2\<rparr>)))"

definition json_dumpb ::
  "byte \<Rightarrow> ptr option \<Rightarrow> byte list \<Rightarrow> nat \<Rightarrow> nat \<Rightarrow> world \<Rightarrow> nat \<times> byte list \<times> world" where
  "json_dumpb point json buffer sz flags w =
     (case json_dump_callback point json dump_to_buffer \<lparr>bf_size = sz, bf_used = 0, bf_data = buffer\<rparr> flags w of
        (r, buf, w1) \<Rightarrow> (if r \<noteq> 0 then 0 else bf_used buf, bf_data buf, w1))"

definition json_dumpf ::
  "byte \<Rightarrow> (byte list \<Rightarrow> 'f \<Rightarrow> nat \<times> 'f) \<Rightarrow> ptr option \<Rightarrow> 'f \<Rightarrow> nat \<Rightarrow> world \<Rightarrow> int \<times> 'f \<times> world" where
  "json_dumpf point fwrite json output flags w =
     json_dump_callback point json (dump_to_file fwrite) output flags w"

definition json_dumpfd ::
  "byte \<Rightarrow> (byte list \<Rightarrow> 'f \<Rightarrow> int \<times> 'f) \<Rightarrow> ptr option \<Rightarrow> 'f \<Rightarrow> nat \<Rightarrow> world \<Rightarrow> int \<times> 'f \<times> world" where
  "json_dumpfd point write json output flags w =
     json_dump_callback point json (dump_to_fd write) output flags w"

text \<open>\<^term>\<open>fopen\<close> gives the opened file, \<^term>\<open>fclose\<close> its result.\<close>

definition json_dump_file ::
  "byte \<Rightarrow> (byte list \<Rightarrow> 'f option) \<Rightarrow> (byte list \<Rightarrow> 'f \<Rightarrow> nat \<times> 'f) \<Rightarrow> ('f \<Rightarrow> int) \<Rightarrow> ptr option \<Rightarrow> byte list \<Rightarrow>
   nat \<Rightarrow> world \<Rightarrow> int \<times> 'f option \<times> world" where
  "json_dump_file point fopen fwrite fclose json path flags w =
     (case fopen path of
        None \<Rightarrow> (-1, None, w)
      | Some output \<Rightarrow>
          (case json_dumpf point fwrite json output flags w of
             (result, output1, w1) \<Rightarrow>
               if fclose output1 \<noteq> 0 then (-1, Some output1, w1) else (result, Some output1, w1)))"

end
