(* ===== verification/Json_Dump_Correct.thy ===== *)
theory Json_Dump_Correct
  imports Json_Dump Json_Refcount
begin

text \<open>
  What \<^verbatim>\<open>dump.c\<close> writes.  A value in the heap is viewed as a tree, the tree has a text for
  each set of flags, and the recursive dumper writes that text to any sink that takes all
  the pieces it is given (locale \<^verbatim>\<open>dump_sink\<close>).  The string buffer of \<^verbatim>\<open>json_dumps\<close> and the
  fixed buffer of \<^verbatim>\<open>json_dumpb\<close> are such sinks.  The loop check passes because the containers
  above a value have larger trees; the fuel of \<^verbatim>\<open>do_dump\<close> is enough because they are
  different cells.
\<close>

section \<open>Values as trees\<close>

datatype jval =
    VNull
  | VTrue
  | VFalse
  | VInteger int
  | VReal double
  | VString "byte list"
  | VArray "jval list"
  | VObject "(byte list \<times> jval) list"

text \<open>\<^term>\<open>views w v p\<close>: the cells reached from \<^term>\<open>p\<close> in the heap form the tree \<^term>\<open>v\<close>.\<close>

fun views :: "world \<Rightarrow> jval \<Rightarrow> ptr \<Rightarrow> bool" where
  "views w VNull p \<longleftrightarrow> data_at w (Some p) = Some JNull"
| "views w VTrue p \<longleftrightarrow> data_at w (Some p) = Some JTrue"
| "views w VFalse p \<longleftrightarrow> data_at w (Some p) = Some JFalse"
| "views w (VInteger i) p \<longleftrightarrow> data_at w (Some p) = Some (JInteger i)"
| "views w (VReal x) p \<longleftrightarrow> data_at w (Some p) = Some (JReal x)"
| "views w (VString s) p \<longleftrightarrow> data_at w (Some p) = Some (JString s)"
| "views w (VArray vs) p \<longleftrightarrow>
     (\<exists>a. data_at w (Some p) = Some (JArray a) \<and> a_entries a \<le> length (a_table a) \<and>
        list_all2 (views w) vs (take (a_entries a) (a_table a)))"
| "views w (VObject kvs) p \<longleftrightarrow>
     (\<exists>h al. data_at w (Some p) = Some (JObject h) \<and> ht_rel (w_seed w) h al \<and>
        list_all2 (\<lambda>(k, v) (k', q). k = k' \<and> views w v q) kvs al)"

lemma ht_rel_unique: "ht_rel seed h al \<Longrightarrow> ht_rel seed h al' \<Longrightarrow> al = al'"
  using iter_walk_rel by metis

lemma list_all2_unique:
  "list_all2 P xs zs \<Longrightarrow> list_all2 P ys zs \<Longrightarrow>
     (\<And>x y z. x \<in> set xs \<Longrightarrow> P x z \<Longrightarrow> P y z \<Longrightarrow> x = y) \<Longrightarrow> xs = ys"
proof (induction xs arbitrary: ys zs)
  case (Cons x xs)
  then obtain z zs' where z: "zs = z # zs'" "P x z" "list_all2 P xs zs'" by (auto simp: list_all2_Cons1)
  then obtain y ys' where y: "ys = y # ys'" "P y z" "list_all2 P ys' zs'" using Cons.prems(2) by (auto simp: list_all2_Cons2)
  have "x = y" using Cons.prems(3) [OF _ z(2) y(2)] by simp
  moreover have "xs = ys'" by (rule Cons.IH [OF z(3) y(3)]) (use Cons.prems(3) in auto)
  ultimately show ?case using y(1) by simp
qed simp

lemma views_unique: "views w v p \<Longrightarrow> views w v' p \<Longrightarrow> v = v'"
proof (induction v arbitrary: v' p)
  case (VArray vs)
  then obtain vs' where v': "v' = VArray vs'" by (cases v') auto
  obtain a where a: "data_at w (Some p) = Some (JArray a)" "list_all2 (views w) vs (take (a_entries a) (a_table a))"
    using VArray.prems(1) by auto
  then have "list_all2 (views w) vs' (take (a_entries a) (a_table a))" using VArray.prems(2) v' by auto
  from list_all2_unique [OF a(2) this] VArray.IH v' show ?case by blast
next
  case (VObject kvs)
  then obtain kvs' where v': "v' = VObject kvs'" by (cases v') auto
  let ?P = "\<lambda>(k, v) (k', q). k = k' \<and> views w v q"
  obtain h al where a: "data_at w (Some p) = Some (JObject h)" "ht_rel (w_seed w) h al" "list_all2 ?P kvs al"
    using VObject.prems(1) by auto
  then have "list_all2 ?P kvs' al" using VObject.prems(2) v' ht_rel_unique by fastforce
  from list_all2_unique [OF a(3) this] have "kvs = kvs'"
    using VObject.IH by (fastforce simp: snds.simps split: prod.splits)
  then show ?case using v' by simp
qed (case_tac v'; simp)+

section \<open>The text of a value\<close>

text \<open>The escaped form of a string of bytes, one code point after the other.\<close>

function escape_string :: "nat \<Rightarrow> byte list \<Rightarrow> byte list" where
  "escape_string flags s =
     (case utf8_iterate s of
        Some (n, Some cp) \<Rightarrow> (if needs_escape flags cp then escape_text cp else take n s) @ escape_string flags (drop n s)
      | _ \<Rightarrow> [])"
  by pat_completeness auto
termination
  by (relation "measure (\<lambda>(flags, s). length s)") (auto dest!: utf8_iterate_sound)

declare escape_string.simps [simp del]

definition string_text :: "nat \<Rightarrow> byte list \<Rightarrow> byte list" where
  "string_text flags s = 34 # escape_string flags s @ [34]"

definition indent_text :: "nat \<Rightarrow> nat \<Rightarrow> bool \<Rightarrow> byte list" where
  "indent_text flags depth space =
     (if FLAGS_TO_INDENT flags > 0 then 10 # replicate ((depth * FLAGS_TO_INDENT flags) mod 2 ^ 32) 32
      else if space \<and> \<not> dflag flags JSON_COMPACT then [32] else [])"

fun join_items :: "nat \<Rightarrow> nat \<Rightarrow> byte list list \<Rightarrow> byte list" where
  "join_items flags depth [] = []"
| "join_items flags depth [t] = t @ indent_text flags depth False"
| "join_items flags depth (t # ts) = t @ 44 # indent_text flags (depth + 1) True @ join_items flags depth ts"

definition bracket_text :: "nat \<Rightarrow> nat \<Rightarrow> byte \<Rightarrow> byte \<Rightarrow> byte list list \<Rightarrow> byte list" where
  "bracket_text flags depth op cl ts =
     (if ts = [] then [op, cl] else op # indent_text flags (depth + 1) False @ join_items flags depth ts @ [cl])"

definition member_text :: "nat \<Rightarrow> byte list \<times> byte list \<Rightarrow> byte list" where
  "member_text flags kt =
     string_text flags (fst kt) @ (if dflag flags JSON_COMPACT then [58] else [58, 32]) @ snd kt"

definition in_order :: "nat \<Rightarrow> (byte list \<times> 'a) list \<Rightarrow> (byte list \<times> 'a) list" where
  "in_order flags kts =
     (if dflag flags JSON_SORT_KEYS then map (\<lambda>k. (k, the (map_of kts k))) (sort (map fst kts)) else kts)"

fun value_text :: "byte \<Rightarrow> nat \<Rightarrow> nat \<Rightarrow> jval \<Rightarrow> byte list" where
  "value_text point flags depth VNull = cstr ''null''"
| "value_text point flags depth VTrue = cstr ''true''"
| "value_text point flags depth VFalse = cstr ''false''"
| "value_text point flags depth (VInteger i) = fmt_d i"
| "value_text point flags depth (VReal x) = snd (jsonp_dtostr point MAX_REAL_STR_LENGTH x (FLAGS_TO_PRECISION flags))"
| "value_text point flags depth (VString s) = string_text flags s"
| "value_text point flags depth (VArray vs) =
     bracket_text flags depth 91 93 (map (value_text point flags (depth + 1)) vs)"
| "value_text point flags depth (VObject kvs) =
     bracket_text flags depth 123 125
       (map (member_text flags) (in_order flags (map (\<lambda>(k, v). (k, value_text point flags (depth + 1) v)) kvs)))"

text \<open>The values a program can build: UTF-8 strings and keys, 64 bit integers, printable reals.\<close>

fun printable :: "byte \<Rightarrow> nat \<Rightarrow> jval \<Rightarrow> bool" where
  "printable point flags (VInteger i) \<longleftrightarrow> LLONG_MIN \<le> i \<and> i \<le> LLONG_MAX"
| "printable point flags (VReal x) \<longleftrightarrow> 0 \<le> fst (jsonp_dtostr point MAX_REAL_STR_LENGTH x (FLAGS_TO_PRECISION flags))"
| "printable point flags (VString s) \<longleftrightarrow> utf8_check_string s"
| "printable point flags (VArray vs) \<longleftrightarrow> (\<forall>v \<in> set vs. printable point flags v)"
| "printable point flags (VObject kvs) \<longleftrightarrow>
     (\<forall>(k, v) \<in> set kvs. utf8_check_string k \<and> printable point flags v)"
| "printable point flags _ \<longleftrightarrow> True"

section \<open>Iterating an object\<close>

inductive chain :: "'v hashtable \<Rightarrow> nat option \<Rightarrow> (byte list \<times> 'v) list \<Rightarrow> bool" for h where
  chain_end: "chain h None []"
| chain_step: "hashtable_iter_key h z = Some k \<Longrightarrow> hashtable_iter_value h z = Some v \<Longrightarrow>
    chain h (hashtable_iter_next h z) al \<Longrightarrow> chain h (Some z) ((k, v) # al)"

inductive_cases chain_ConsE: "chain h it ((k, v) # al)"
inductive_cases chain_NilE: "chain h it []"

lemma chain_dseg:
  assumes "dseg (ht_ordered_list h) a ys 0" "0 \<notin> set ys" "set ys \<subseteq> dom (ht_pairs h)"
  shows "chain h (hashtable_iter_next h a) (entries h ys)"
  using assms
proof (induction ys arbitrary: a)
  case Nil
  then show ?case by (simp add: hashtable_iter_next_def entries_def chain_end)
next
  case (Cons y ys)
  obtain p where p: "ht_pairs h y = Some p" using Cons.prems by auto
  have "hashtable_iter_next h a = Some y" using Cons.prems by (simp add: hashtable_iter_next_def Let_def)
  moreover have "chain h (hashtable_iter_next h y) (entries h ys)" using Cons by auto
  ultimately show ?case using p
    by (auto simp: entries_def hashtable_iter_key_def hashtable_iter_value_def intro!: chain_step)
qed

lemma chain_rel: "ht_rel seed h al \<Longrightarrow> chain h (hashtable_iter h) al \<and> length al < ht_fresh h"
proof -
  assume "ht_rel seed h al"
  then obtain segs os where rep: "ht_rep seed h segs os" and al: "al = entries h os" by (auto simp: ht_rel_def)
  note R = ht_repD [OF rep]
  have "length os = card (set os)" using R(10) by (simp add: distinct_card)
  also have "\<dots> \<le> card {1..<ht_fresh h}" using R(5) by (intro card_mono) auto
  finally have "length os < ht_fresh h" using R(6) by simp
  moreover have "chain h (hashtable_iter h) al"
    using chain_dseg [of h 0 os] R(2,4,5) al by (auto simp: hashtable_iter_def dll_def)
  ultimately show ?thesis using al by (simp add: entries_def)
qed

section \<open>A sink that takes every piece\<close>

definition heap_ok :: "world \<Rightarrow> bool" where
  "heap_ok w \<longleftrightarrow> w_mem w = mem_ok \<and> statics_ok w \<and> finite (dom (w_heap w)) \<and> dom (w_heap w) \<subseteq> {1..<w_brk w} \<and>
     w_brk w \<le> 2 ^ 64 \<and> card (dom (w_heap w)) < 2 ^ 31"

lemma fmt_x_length: "p < 2 ^ 64 \<Longrightarrow> length (fmt_x p) \<le> 16"
  using nat_digits_length [of 16 p 16] by (simp add: fmt_x_def)

lemma loop_key_inj: "p < 2 ^ 64 \<Longrightarrow> q < 2 ^ 64 \<Longrightarrow> loop_key p = loop_key q \<longleftrightarrow> p = q"
proof -
  assume a: "p < 2 ^ 64" "q < 2 ^ 64"
  have "loop_key x = cstr ''0x'' @ fmt_x x" if "x < 2 ^ 64" for x
    using fmt_x_length [OF that] by (simp add: loop_key_def LOOP_KEY_LEN_def SIZEOF_POINTER_def)
  then show ?thesis using a fmt_x_inj by simp
qed

definition parents_of :: "ptr list \<Rightarrow> (byte list \<times> ptr) list" where
  "parents_of A = map (\<lambda>a. (loop_key a, null_ptr)) A"

lemma decref_null: "statics_ok w \<Longrightarrow> decref_ptr null_ptr w = w"
  by (simp add: decref_ptr_def statics_ok_def)

lemma parents_lookup:
  "set A \<subseteq> {..<2 ^ 64} \<Longrightarrow> p < 2 ^ 64 \<Longrightarrow> p \<notin> set A \<Longrightarrow> map_of (parents_of A) (loop_key p) = None"
  by (induction A) (auto simp: parents_of_def loop_key_inj)

lemma parents_lookup_last:
  "set A \<subseteq> {..<2 ^ 64} \<Longrightarrow> p < 2 ^ 64 \<Longrightarrow> p \<notin> set A \<Longrightarrow> map_of (parents_of (A @ [p])) (loop_key p) = Some null_ptr"
  by (induction A) (auto simp: parents_of_def loop_key_inj)

lemma parents_delete:
  "set A \<subseteq> {..<2 ^ 64} \<Longrightarrow> p < 2 ^ 64 \<Longrightarrow> p \<notin> set A \<Longrightarrow>
     AList.delete (loop_key p) (parents_of (A @ [p])) = parents_of A"
  by (induction A) (auto simp: parents_of_def loop_key_inj)

lemma map_of_None_update: "map_of al k = None \<Longrightarrow> AList.update k v al = al @ [(k, v)]"
  by (metis map_of_eq_None_iff update_new)

locale dump_sink =
  fixes dump :: "'d sink"
    and absorbed :: "'d \<Rightarrow> byte list \<Rightarrow> bool"
    and limit :: nat
  assumes accepts: "absorbed d c \<Longrightarrow> length c + length text \<le> limit \<Longrightarrow> w_mem w = mem_ok \<Longrightarrow>
    \<exists>d'. dump text d w = (0, d', w) \<and> absorbed d' (c @ text)"
begin

definition dump_state :: "world \<Rightarrow> ptr list \<Rightarrow> 'd dumper \<Rightarrow> byte list \<Rightarrow> bool" where
  "dump_state w A s c \<longleftrightarrow> dm_world s = w \<and> absorbed (dm_data s) c \<and> ht_rel (w_seed w) (dm_parents s) (parents_of A)"

definition emits :: "world \<Rightarrow> ptr list \<Rightarrow> ptr list \<Rightarrow> ('d dumper \<Rightarrow> int \<times> 'd dumper) \<Rightarrow> byte list \<Rightarrow> bool" where
  "emits w A B f text \<longleftrightarrow> (\<forall>s c. dump_state w A s c \<longrightarrow> length c + length text \<le> limit \<longrightarrow>
     (\<exists>s'. f s = (0, s') \<and> dump_state w B s' (c @ text)))"

lemma emitsD:
  "emits w A B f text \<Longrightarrow> dump_state w A s c \<Longrightarrow> length c + length text \<le> limit \<Longrightarrow>
     \<exists>s'. f s = (0, s') \<and> dump_state w B s' (c @ text)"
  unfolding emits_def by blast

lemma emits_skip: "emits w A A skip []"
  by (simp add: emits_def skip_def)

lemma emits_emit: "w_mem w = mem_ok \<Longrightarrow> emits w A A (emit dump text) text"
  unfolding emits_def
proof (intro allI impI)
  fix s c
  assume m: "w_mem w = mem_ok" and st: "dump_state w A s c" and len: "length c + length text \<le> limit"
  then obtain d' where "dump text (dm_data s) w = (0, d', w)" "absorbed d' (c @ text)"
    using accepts unfolding dump_state_def by blast
  then show "\<exists>s'. emit dump text s = (0, s') \<and> dump_state w A s' (c @ text)"
    using st by (simp add: emit_def dump_state_def)
qed

lemma emits_then:
  assumes "emits w A B f t1" "emits w B C g t2"
  shows "emits w A C (and_then f g) (t1 @ t2)"
  unfolding emits_def
proof (intro allI impI)
  fix s c
  assume st: "dump_state w A s c" and len: "length c + length (t1 @ t2) \<le> limit"
  then obtain s1 where s1: "f s = (0, s1)" "dump_state w B s1 (c @ t1)" using emitsD [OF assms(1) st] by auto
  obtain s2 where "g s1 = (0, s2)" "dump_state w C s2 ((c @ t1) @ t2)" using emitsD [OF assms(2) s1(2)] len by auto
  then show "\<exists>s'. and_then f g s = (0, s') \<and> dump_state w C s' (c @ t1 @ t2)" using s1(1) by (simp add: and_then_def)
qed

lemma emits_state:
  assumes "\<And>s c. dump_state w A s c \<Longrightarrow> length c \<le> limit \<Longrightarrow> f s = g s" "emits w A B g text"
  shows "emits w A B f text"
  using assms unfolding emits_def by (metis add_leD1)

lemma emits_indent_loop:
  assumes "w_mem w = mem_ok"
  shows "n \<le> fuel \<Longrightarrow> emits w A A (indent_loop fuel dump n) (replicate n 32)"
proof (induction fuel arbitrary: n)
  case 0
  then show ?case by (simp add: emits_def)
next
  case (Suc fuel)
  show ?case
  proof (cases "n = 0")
    case True
    then show ?thesis by (simp add: emits_def)
  next
    case False
    let ?k = "min n 32"
    have "emits w A A (and_then (emit dump (replicate ?k 32)) (indent_loop fuel dump (n - ?k)))
        (replicate ?k 32 @ replicate (n - ?k) 32)"
      using False Suc.prems by (intro emits_then [OF emits_emit [OF assms]] Suc.IH) auto
    moreover have "replicate ?k 32 @ replicate (n - ?k) 32 = replicate n (32 :: byte)"
      by (simp add: replicate_add [symmetric])
    moreover have "indent_loop (Suc fuel) dump n = and_then (emit dump (replicate ?k 32)) (indent_loop fuel dump (n - ?k))"
      using False by (simp add: fun_eq_iff Let_def)
    ultimately show ?thesis by simp
  qed
qed

lemma emits_indent:
  assumes "w_mem w = mem_ok"
  shows "emits w A A (dump_indent flags depth space dump) (indent_text flags depth space)"
proof (cases "FLAGS_TO_INDENT flags > 0")
  case True
  let ?n = "(depth * FLAGS_TO_INDENT flags) mod 2 ^ 32"
  have "emits w A A (and_then (emit dump (cstr [CHR 0x0A])) (indent_loop ?n dump ?n)) ([10] @ replicate ?n 32)"
    using emits_then [OF emits_emit [OF assms, of A "[10]"] emits_indent_loop [OF assms order_refl, of A ?n]] by simp
  moreover have "dump_indent flags depth space dump = and_then (emit dump (cstr [CHR 0x0A])) (indent_loop ?n dump ?n)"
    using True by (simp add: fun_eq_iff dump_indent_def Let_def)
  ultimately show ?thesis using True by (simp add: indent_text_def)
next
  case False
  show ?thesis
  proof (cases "space \<and> \<not> dflag flags JSON_COMPACT")
    case True
    then have "dump_indent flags depth space dump = emit dump (cstr '' '')" using False by (simp add: fun_eq_iff dump_indent_def)
    then show ?thesis using True False emits_emit [OF assms, of A "cstr '' ''"] by (simp add: indent_text_def)
  next
    case c: False
    then have "dump_indent flags depth space dump = skip" using False by (auto simp: fun_eq_iff dump_indent_def skip_def)
    then show ?thesis using c False emits_skip by (auto simp: indent_text_def)
  qed
qed

lemma emits_enter:
  assumes ok: "heap_ok w" and A: "set A \<subseteq> dom (w_heap w)" "distinct A" "p \<in> dom (w_heap w)" "p \<notin> set A"
  shows "emits w A (A @ [p]) (loop_enter p) []"
  unfolding emits_def
proof (intro allI impI)
  fix s c
  assume st: "dump_state w A s c"
  have small: "set A \<subseteq> {..<2 ^ 64}" "p < 2 ^ 64" using ok A(1,3) by (fastforce simp: heap_ok_def)+
  have rel: "ht_rel (w_seed w) (dm_parents s) (parents_of A)" and w: "dm_world s = w" using st by (auto simp: dump_state_def)
  note none = parents_lookup [OF small A(4)]
  have "length A \<le> card (dom (w_heap w))" using A(1,2) ok by (metis card_mono distinct_card heap_ok_def)
  then have len: "length (parents_of A) < 2 ^ 31" using ok by (simp add: parents_of_def heap_ok_def)
  have "length (loop_key p) < 2 ^ 62" by (simp add: loop_key_def LOOP_KEY_LEN_def SIZEOF_POINTER_def)
  then obtain h' w' where set: "hashtable_set decref_ptr (w_seed w) (loop_key p) null_ptr (dm_parents s) mem_ok w = (0, h', mem_ok, w')"
    using hashtable_set_mem_ok [OF rel len, of "loop_key p" decref_ptr null_ptr w] by blast
  from hashtable_set_rel [OF rel len set] none
  have "ht_rel (w_seed w) h' (parents_of A @ [(loop_key p, null_ptr)])" "w' = w" by (auto simp: map_of_None_update)
  then show "\<exists>s'. loop_enter p s = (0, s') \<and> dump_state w (A @ [p]) s' (c @ [])"
    using st w set hashtable_get_map_of [OF rel, of "loop_key p"] none ok
    by (auto simp: loop_enter_def jsonp_loop_check_def dump_state_def heap_ok_def parents_of_def)
qed

lemma emits_leave:
  assumes ok: "heap_ok w" and A: "set A \<subseteq> dom (w_heap w)" "p \<in> dom (w_heap w)" "p \<notin> set A"
  shows "emits w (A @ [p]) A (loop_leave p) []"
  unfolding emits_def
proof (intro allI impI)
  fix s c
  assume st: "dump_state w (A @ [p]) s c"
  have small: "set A \<subseteq> {..<2 ^ 64}" "p < 2 ^ 64" using ok A(1,2) by (fastforce simp: heap_ok_def)+
  have rel: "ht_rel (w_seed w) (dm_parents s) (parents_of (A @ [p]))" and w: "dm_world s = w" using st by (auto simp: dump_state_def)
  obtain r h' w' where del: "hashtable_del decref_ptr (w_seed w) (loop_key p) (dm_parents s) w = (r, h', w')" by (metis surj_pair)
  from hashtable_del_rel [OF rel del] parents_lookup_last [OF small A(3)] parents_delete [OF small A(3)]
  have "ht_rel (w_seed w) h' (parents_of A)" "w' = decref_ptr null_ptr w" by auto
  then show "\<exists>s'. loop_leave p s = (0, s') \<and> dump_state w A s' (c @ [])"
    using st w del ok decref_null by (auto simp: loop_leave_def parents_del_def dump_state_def heap_ok_def)
qed

end

section \<open>Strings\<close>

lemma escape_string_Nil [simp]: "escape_string flags [] = []"
  by (subst escape_string.simps) (simp add: utf8_iterate_def)

lemma escape_string_step:
  "utf8_iterate s = Some (n, Some cp) \<Longrightarrow>
     escape_string flags s = (if needs_escape flags cp then escape_text cp else take n s) @ escape_string flags (drop n s)"
  by (subst escape_string.simps) simp

lemma check_string_step:
  assumes "utf8_check_string s" "s \<noteq> []"
  obtains n cp where "utf8_iterate s = Some (n, Some cp)" "utf8_check_string (drop n s)" "0 < n" "n \<le> length s"
proof -
  obtain n oc where it: "utf8_iterate s = Some (n, oc)" "utf8_check_string (drop n s)"
    using assms by (auto simp: utf8_check_string_iterate split: option.splits)
  with assms(2) obtain cp where "oc = Some cp" by (cases oc) (auto simp: utf8_iterate_None_Some)
  then show ?thesis using that it utf8_iterate_sound by blast
qed

lemma dump_scan_valid:
  "utf8_check_string (drop pos str) \<Longrightarrow> pos \<le> length str \<Longrightarrow>
     \<exists>p e c. dump_scan flags str pos cp = Some (p, e, c) \<and> pos \<le> p \<and> p \<le> e \<and> e \<le> length str \<and>
       utf8_check_string (drop e str) \<and> (e = p \<longrightarrow> p = length str) \<and>
       escape_string flags (drop pos str) =
         take (p - pos) (drop pos str) @ (if e = p then [] else escape_text c @ escape_string flags (drop e str))"
proof (induction flags str pos cp rule: dump_scan.induct)
  case (1 flags str pos cp)
  show ?case
  proof (cases "pos = length str")
    case True
    then show ?thesis by (subst dump_scan.simps) simp
  next
    case False
    then have "drop pos str \<noteq> []" using "1.prems" by simp
    then obtain n c where it: "utf8_iterate (drop pos str) = Some (n, Some c)" "utf8_check_string (drop n (drop pos str))"
        "0 < n" "n \<le> length (drop pos str)"
      using check_string_step [OF "1.prems"(1)] by metis
    then have n: "utf8_check_string (drop (pos + n) str)" "pos + n \<le> length str" using "1.prems" by (simp_all add: add.commute)
    show ?thesis
    proof (cases "needs_escape flags c")
      case True
      then show ?thesis using it n False "1.prems" escape_string_step [OF it(1), of flags]
        by (subst dump_scan.simps) (simp add: add.commute)
    next
      case esc: False
      have "\<not> length str \<le> pos" using False "1.prems" by simp
      from "1.IH" [OF this it(1) refl refl esc n] obtain p e c' where
        r: "dump_scan flags str (pos + n) c = Some (p, e, c')" "pos + n \<le> p" "p \<le> e" "e \<le> length str"
          "utf8_check_string (drop e str)" "e = p \<longrightarrow> p = length str"
          "escape_string flags (drop (pos + n) str) =
             take (p - (pos + n)) (drop (pos + n) str) @ (if e = p then [] else escape_text c' @ escape_string flags (drop e str))"
        by blast
      have "take (p - pos) (drop pos str) = take n (drop pos str) @ take (p - (pos + n)) (drop (pos + n) str)"
        using r(2) by (metis add.commute diff_diff_left drop_drop le_add_diff_inverse le_diff_conv2 add_leD1 take_add)
      then show ?thesis using r it(1) esc \<open>\<not> length str \<le> pos\<close> escape_string_step [OF it(1), of flags]
        by (subst dump_scan.simps) (auto simp: add.commute)
    qed
  qed
qed

context dump_sink
begin

lemma emits_string_loop:
  assumes m: "w_mem w = mem_ok"
  shows "utf8_check_string str \<Longrightarrow> emits w A A (dump_string_loop flags dump str) (escape_string flags str @ [34])"
proof (induction str rule: length_induct)
  case (1 str)
  obtain p e c where sc: "dump_scan flags str 0 0 = Some (p, e, c)" "p \<le> e" "e \<le> length str"
      "utf8_check_string (drop e str)" "e = p \<longrightarrow> p = length str"
      "escape_string flags str = take p str @ (if e = p then [] else escape_text c @ escape_string flags (drop e str))"
    using dump_scan_valid [of 0 str flags 0] "1.prems" by auto
  let ?f = "if p \<noteq> 0 then emit dump (take p str) else skip"
  let ?g = "if e = p then emit dump [34] else and_then (emit dump (escape_text c)) (dump_string_loop flags dump (drop e str))"
  have "dump_string_loop flags dump str s = and_then ?f ?g s" for s
    using sc(1) by (subst dump_string_loop.simps) (auto simp: and_then_def skip_def split: prod.splits)
  then have "dump_string_loop flags dump str = and_then ?f ?g" by (rule ext)
  moreover have f: "emits w A A ?f (take p str)" using emits_emit [OF m] emits_skip by simp
  moreover have g: "emits w A A ?g ((if e = p then [] else escape_text c @ escape_string flags (drop e str)) @ [34])"
  proof (cases "e = p")
    case True
    then show ?thesis using emits_emit [OF m] by simp
  next
    case False
    then have "length (drop e str) < length str" using sc(2,3) by simp
    then have "emits w A A (dump_string_loop flags dump (drop e str)) (escape_string flags (drop e str) @ [34])"
      using "1.IH" sc(4) by blast
    from emits_then [OF emits_emit [OF m] this] False show ?thesis by simp
  qed
  ultimately show ?case using emits_then [OF f g] unfolding sc(6) append_assoc by (simp only:)
qed

lemma emits_string:
  assumes "w_mem w = mem_ok" "utf8_check_string str"
  shows "emits w A A (dump_string str dump flags) (string_text flags str)"
proof -
  have "emits w A A (and_then (emit dump (cstr [CHR 0x22])) (dump_string_loop flags dump str)) ([34] @ escape_string flags str @ [34])"
    using emits_then [OF emits_emit [OF assms(1), of A "[34]"] emits_string_loop [OF assms]] by simp
  moreover have "dump_string str dump flags = and_then (emit dump (cstr [CHR 0x22])) (dump_string_loop flags dump str)"
    by (simp add: fun_eq_iff dump_string_def)
  ultimately show ?thesis by (simp add: string_text_def)
qed

lemma emits_separator:
  assumes "w_mem w = mem_ok"
  shows "emits w A A (dump_separator dump flags depth cont)
    (if cont then 44 # indent_text flags (depth + 1) True else indent_text flags depth False)"
proof (cases cont)
  case True
  have "dump_separator dump flags depth True = and_then (emit dump (cstr '','')) (dump_indent flags (depth + 1) True dump)"
    by (simp add: fun_eq_iff dump_separator_def)
  then show ?thesis using True emits_then [OF emits_emit [OF assms, of A "[44]"] emits_indent [OF assms, of A flags "depth + 1" True]] by simp
next
  case False
  have "dump_separator dump flags depth False = dump_indent flags depth False dump"
    by (simp add: fun_eq_iff dump_separator_def)
  then show ?thesis using False emits_indent [OF assms] by simp
qed

lemma emits_member:
  assumes m: "w_mem w = mem_ok" and key: "utf8_check_string k" and v: "emits w A A (rec v) t"
  shows "emits w A A (dump_member rec dump flags depth k v cont)
    (member_text flags (k, t) @ (if cont then 44 # indent_text flags (depth + 1) True else indent_text flags depth False))"
proof -
  let ?sep = "if dflag flags JSON_COMPACT then cstr '':'' else cstr '': ''"
  let ?tl = "if cont then 44 # indent_text flags (depth + 1) True else indent_text flags depth False"
  let ?f = "and_then (dump_string k dump flags) (and_then (emit dump ?sep) (and_then (rec v) (dump_separator dump flags depth cont)))"
  have mt: "member_text flags (k, t) @ ?tl = string_text flags k @ ?sep @ t @ ?tl" by (simp add: member_text_def)
  have run: "emits w A A ?f (string_text flags k @ ?sep @ t @ ?tl)"
    by (intro emits_then [OF emits_string [OF m key]] emits_then [OF emits_emit [OF m]] emits_then [OF v] emits_separator [OF m])
  show ?thesis
    unfolding emits_def mt
  proof (intro allI impI)
    fix s c
    assume st: "dump_state w A s c" and len: "length c + length (string_text flags k @ ?sep @ t @ ?tl) \<le> limit"
    have "length c + length (string_text flags k) \<le> limit" using len by simp
    from emitsD [OF emits_string [OF m key] st this] have "fst (dump_string k dump flags s) = 0" by auto
    then have "dump_member rec dump flags depth k v cont s = ?f s"
      by (auto simp: dump_member_def and_then_def Let_def split: prod.splits)
    with emitsD [OF run st len]
    show "\<exists>s'. dump_member rec dump flags depth k v cont s = (0, s') \<and>
        dump_state w A s' (c @ string_text flags k @ ?sep @ t @ ?tl)" by simp
  qed
qed

end

lemma join_items_Cons:
  "join_items flags depth (t # ts) =
     t @ (if ts \<noteq> [] then 44 # indent_text flags (depth + 1) True else indent_text flags depth False) @ join_items flags depth ts"
  by (cases ts) simp_all

lemma mem_ok_same: "w_mem w = mem_ok \<Longrightarrow> w\<lparr>w_mem := mem_ok\<rparr> = w"
  by simp

context dump_sink
begin

lemma emits_array_loop:
  assumes m: "w_mem w = mem_ok" and len: "length ts = n"
    and items: "\<And>i. i < n \<Longrightarrow> emits w A A (rec (json_array_get w json i)) (ts ! i)"
  shows "i \<le> n \<Longrightarrow> emits w A A (dump_array_loop rec dump flags depth json n [i..<n]) (join_items flags depth (drop i ts))"
proof (induction "n - i" arbitrary: i)
  case 0
  then show ?case using len by (simp add: emits_def)
next
  case (Suc k)
  then have i: "i < n" "[i..<n] = i # [Suc i..<n]" "drop i ts = ts ! i # drop (Suc i) ts" "i < n - 1 \<longleftrightarrow> drop (Suc i) ts \<noteq> []"
    using len by (auto simp: upt_conv_Cons Cons_nth_drop_Suc)
  have rest: "emits w A A (dump_array_loop rec dump flags depth json n [Suc i..<n]) (join_items flags depth (drop (Suc i) ts))"
    using Suc i(1) by simp
  have item: "emits w A A (\<lambda>s. rec (json_array_get (dm_world s) json i) s) (ts ! i)"
    by (rule emits_state [OF _ items [OF i(1)]]) (simp add: dump_state_def)
  have "emits w A A (and_then (\<lambda>s. rec (json_array_get (dm_world s) json i) s)
      (and_then (dump_separator dump flags depth (i < n - 1)) (dump_array_loop rec dump flags depth json n [Suc i..<n])))
      (ts ! i @ (if i < n - 1 then 44 # indent_text flags (depth + 1) True else indent_text flags depth False) @
       join_items flags depth (drop (Suc i) ts))"
    by (intro emits_then [OF item] emits_then [OF emits_separator [OF m] rest])
  moreover have "dump_array_loop rec dump flags depth json n (i # [Suc i..<n]) =
      and_then (\<lambda>s. rec (json_array_get (dm_world s) json i) s)
        (and_then (dump_separator dump flags depth (i < n - 1)) (dump_array_loop rec dump flags depth json n [Suc i..<n]))"
    by (simp add: fun_eq_iff)
  ultimately show ?case unfolding i(2,3) join_items_Cons i(4) by (simp only:)
qed

definition member_ok :: "world \<Rightarrow> ptr list \<Rightarrow> (ptr option \<Rightarrow> 'd dumper \<Rightarrow> int \<times> 'd dumper) \<Rightarrow>
    byte list \<times> ptr \<Rightarrow> byte list \<times> byte list \<Rightarrow> bool" where
  "member_ok w A rec kq kt \<longleftrightarrow> fst kq = fst kt \<and> utf8_check_string (fst kq) \<and> emits w A A (rec (Some (snd kq))) (snd kt)"

lemma emits_object_loop:
  assumes m: "w_mem w = mem_ok" and t: "object_table w (Some p) = Some h"
  shows "chain h it al \<Longrightarrow> length al \<le> fuel \<Longrightarrow> list_all2 (member_ok w A rec) al kts \<Longrightarrow>
    emits w A A (dump_object_loop fuel rec dump flags depth (Some p) (map_option (Pair p) it))
      (join_items flags depth (map (member_text flags) kts))"
proof (induction it al arbitrary: fuel kts rule: chain.induct)
  case chain_end
  then show ?case by (cases fuel) (simp_all add: emits_def)
next
  case (chain_step z k v al)
  obtain f where f: "fuel = Suc f" using chain_step.prems by (cases fuel) auto
  obtain kt kts' where "kts = kt # kts'" "member_ok w A rec (k, v) kt" and all: "list_all2 (member_ok w A rec) al kts'"
    using chain_step.prems(2) by (cases kts) auto
  then obtain t where kts: "kts = (k, t) # kts'" "utf8_check_string k" "emits w A A (rec (Some v)) t"
    by (cases kt) (auto simp: member_ok_def)
  let ?nx = "map_option (Pair p) (hashtable_iter_next h z)"
  have cont: "?nx \<noteq> None \<longleftrightarrow> kts' \<noteq> []"
    using chain_step.hyps(3) all by (cases al; cases "hashtable_iter_next h z") (auto elim: chain.cases)
  have rest: "emits w A A (dump_object_loop f rec dump flags depth (Some p) ?nx) (join_items flags depth (map (member_text flags) kts'))"
    using chain_step.IH [of f kts'] chain_step.prems(1) f all by simp
  have "emits w A A (and_then (dump_member rec dump flags depth k (Some v) (?nx \<noteq> None))
      (dump_object_loop f rec dump flags depth (Some p) ?nx))
      (join_items flags depth (map (member_text flags) kts))"
    using emits_then [OF emits_member [where rec = rec and v = "Some v", OF m kts(2,3), of flags depth "?nx \<noteq> None"] rest] cont
    by (simp add: kts(1) join_items_Cons)
  then show ?case
    by (rule emits_state [rotated])
      (use t chain_step.hyps(1,2) f in \<open>auto simp: dump_state_def json_object_iter_next_def json_object_iter_key_def
        json_object_iter_value_def Let_def\<close>)
qed

lemma emits_sorted_loop:
  assumes m: "w_mem w = mem_ok" and mem: "list_all2 (member_ok w A rec) al kts"
    and get: "\<And>k. json_object_get w json (Some k) = map_of al k"
  shows "set ks \<subseteq> fst ` set al \<Longrightarrow> emits w A A (dump_sorted_loop rec dump flags depth json ks)
    (join_items flags depth (map (member_text flags) (map (\<lambda>k. (k, the (map_of kts k))) ks)))"
proof (induction ks)
  case Nil
  then show ?case by (simp add: emits_def)
next
  case (Cons k ks)
  have look: "\<exists>q. map_of al k = Some q \<and> member_ok w A rec (k, q) (k, the (map_of kts k))" if "k \<in> fst ` set al"
    using mem that by (induction al kts rule: list_all2_induct) (auto simp: member_ok_def)
  then obtain q where q: "map_of al k = Some q" "utf8_check_string k" "emits w A A (rec (Some q)) (the (map_of kts k))"
    using Cons.prems by (auto simp: member_ok_def)
  let ?mem = "\<lambda>s. dump_member rec dump flags depth k (json_object_get (dm_world s) json (Some k)) (ks \<noteq> []) s"
  have mk: "emits w A A ?mem (member_text flags (k, the (map_of kts k)) @
      (if ks \<noteq> [] then 44 # indent_text flags (depth + 1) True else indent_text flags depth False))"
    by (rule emits_state [OF _ emits_member [where rec = rec and v = "Some q", OF m q(2,3)]]) (use get q(1) in \<open>simp add: dump_state_def\<close>)
  have "dump_sorted_loop rec dump flags depth json (k # ks) = and_then ?mem (dump_sorted_loop rec dump flags depth json ks)"
    by (simp add: fun_eq_iff)
  then show ?case using emits_then [OF mk Cons.IH] Cons.prems by (simp add: join_items_Cons)
qed

lemma iter_keys_chain:
  assumes "object_table w (Some p) = Some h"
  shows "chain h it al \<Longrightarrow> length al \<le> fuel \<Longrightarrow> iter_keys fuel w (Some p) (map_option (Pair p) it) = map fst al"
proof (induction it al arbitrary: fuel rule: chain.induct)
  case chain_end
  then show ?case by (cases fuel) simp_all
next
  case (chain_step z k v al)
  obtain f where f: "fuel = Suc f" using chain_step.prems by (cases fuel) auto
  then show ?case using chain_step assms
    by (simp add: json_object_iter_key_def json_object_iter_next_def)
qed

lemma emits_members:
  assumes m: "w_mem w = mem_ok" and t: "object_table w (Some p) = Some h" and rel: "ht_rel (w_seed w) h al"
    and mem: "list_all2 (member_ok w A rec) al kts" and ne: "al \<noteq> []"
  shows "emits w A A (dump_members rec dump flags depth (Some p))
    (join_items flags depth (map (member_text flags) (in_order flags kts)))"
proof -
  note ch = chain_rel [OF rel]
  have it: "json_object_iter w (Some p) = map_option (Pair p) (hashtable_iter h)" using t by (simp add: json_object_iter_def)
  have nb: "node_bound w (Some p) = ht_fresh h" using t by (simp add: node_bound_def)
  show ?thesis
  proof (cases "dflag flags JSON_SORT_KEYS")
    case True
    let ?ks = "sort (map fst al)"
    have fst_eq: "map fst al = map fst kts" using mem by (induction al kts rule: list_all2_induct) (auto simp: member_ok_def)
    have "json_object_size w (Some p) * SIZEOF_POINTER > 0"
      using ne t ht_rel_size [OF rel] by (simp add: json_object_size_def SIZEOF_POINTER_def)
    then have alloc: "w_malloc (json_object_size w (Some p) * SIZEOF_POINTER) w = (True, w)"
      using m by (simp add: w_malloc_def mem_ok_same)
    have keys: "iter_keys (ht_fresh h) w (Some p) (map_option (Pair p) (hashtable_iter h)) = map fst al"
      using iter_keys_chain [OF t] ch by simp
    have "emits w A A (dump_sorted_loop rec dump flags depth (Some p) ?ks)
        (join_items flags depth (map (member_text flags) (map (\<lambda>k. (k, the (map_of kts k))) ?ks)))"
      by (rule emits_sorted_loop [OF m mem])
        (use t hashtable_get_map_of [OF rel] in \<open>auto simp: json_object_get_def\<close>)
    then have "emits w A A (dump_sorted_loop rec dump flags depth (Some p) ?ks)
        (join_items flags depth (map (member_text flags) (in_order flags kts)))"
      using True fst_eq by (simp add: in_order_def)
    moreover have "dump_members rec dump flags depth (Some p) s = dump_sorted_loop rec dump flags depth (Some p) ?ks s"
      if "dump_state w A s c" for s c
    proof -
      have w: "w = dm_world s" using that by (simp add: dump_state_def)
      show ?thesis using True alloc keys it nb unfolding w dump_members_def by simp
    qed
    ultimately show ?thesis using emits_state by blast
  next
    case False
    have "emits w A A (dump_object_loop (ht_fresh h) rec dump flags depth (Some p) (map_option (Pair p) (hashtable_iter h)))
        (join_items flags depth (map (member_text flags) kts))"
      using emits_object_loop [OF m t _ _ mem] ch by simp
    then have "emits w A A (dump_object_loop (ht_fresh h) rec dump flags depth (Some p) (map_option (Pair p) (hashtable_iter h)))
        (join_items flags depth (map (member_text flags) (in_order flags kts)))" using False by (simp add: in_order_def)
    then show ?thesis
      by (rule emits_state [rotated]) (use False in \<open>simp add: dump_members_def dump_state_def Let_def it nb\<close>)
  qed
qed
end

lemma views_dom: "views w v p \<Longrightarrow> p \<in> dom (w_heap w)"
  by (cases v) (auto simp: data_at_def)

lemma fmt_d_length: "LLONG_MIN \<le> i \<Longrightarrow> i \<le> LLONG_MAX \<Longrightarrow> length (fmt_d i) < 100"
proof -
  assume "LLONG_MIN \<le> i" "i \<le> LLONG_MAX"
  then have "nat i < 10 ^ 20" "nat (- i) < 10 ^ 20" by (auto simp: LLONG_MIN_def LLONG_MAX_def)
  then have "length (nat_digits 10 (nat i)) \<le> 20" "length (nat_digits 10 (nat (- i))) \<le> 20"
    by (auto intro!: nat_digits_length)
  then show ?thesis by (auto simp: fmt_d_def fmt_u_def)
qed

lemma clear_embed_id: "\<not> dflag flags JSON_EMBED \<Longrightarrow> clear_embed flags = flags"
  by (simp add: clear_embed_def dflag_def)

lemma in_order_length [simp]: "length (in_order flags kts) = length kts"
  by (simp add: in_order_def)

lemma in_order_Nil: "in_order flags kts = [] \<longleftrightarrow> kts = []"
  using in_order_length [of flags kts] by (cases "in_order flags kts"; cases kts) auto

lemma jval_size_array: "v \<in> set vs \<Longrightarrow> size v < size (VArray vs)"
  by (induction vs) auto

lemma jval_size_object: "(k, v) \<in> set kvs \<Longrightarrow> size v < size (VObject kvs)"
  by (induction kvs) auto

context dump_sink
begin

text \<open>The containers above a value have larger views, so they are other cells.\<close>

definition above :: "world \<Rightarrow> jval \<Rightarrow> ptr list \<Rightarrow> bool" where
  "above w v A \<longleftrightarrow> distinct A \<and> (\<forall>a \<in> set A. \<exists>u. views w u a \<and> size v < size u)"

lemma above_new: "above w v A \<Longrightarrow> views w v p \<Longrightarrow> p \<notin> set A"
  unfolding above_def using views_unique by blast

lemma above_child: "above w v A \<Longrightarrow> views w v p \<Longrightarrow> size u < size v \<Longrightarrow> above w u (A @ [p])"
  using above_new unfolding above_def by (fastforce intro: less_trans)

lemma above_dom: "above w v A \<Longrightarrow> set A \<subseteq> dom (w_heap w)"
  unfolding above_def using views_dom by blast

lemma emits_brackets:
  assumes ok: "heap_ok w" and A: "above w v A" "views w v p" and e: "\<not> e"
    and items: "ts \<noteq> [] \<Longrightarrow> emits w (A @ [p]) (A @ [p]) f (join_items flags depth ts)"
    and opn: "opn = (\<lambda>text. if e then skip else emit dump text)"
  shows "emits w A A
    (and_then (loop_enter p) (and_then (opn [op])
      (if ts = [] then and_then (loop_leave p) (opn [cl])
       else and_then (dump_indent flags (depth + 1) False dump) (and_then f (and_then (loop_leave p) (opn [cl]))))))
    (bracket_text flags depth op cl ts)"
proof -
  have m: "w_mem w = mem_ok" using ok by (simp add: heap_ok_def)
  have p: "p \<in> dom (w_heap w)" "p \<notin> set A" "distinct A" "set A \<subseteq> dom (w_heap w)"
    using views_dom [OF A(2)] above_new [OF A] A(1) above_dom [OF A(1)] by (simp_all add: above_def)
  note enter = emits_enter [OF ok p(4,3,1,2)] and leave = emits_leave [OF ok p(4,1,2)]
  have leave': "emits w (A @ [p]) A (and_then (loop_leave p) (opn [cl])) ([] @ [cl])"
    using emits_then [OF leave emits_emit [OF m]] e by (simp add: opn)
  have opn': "emits w (A @ [p]) (A @ [p]) (opn [op]) [op]" using emits_emit [OF m] e by (simp add: opn)
  show ?thesis
  proof (cases "ts = []")
    case True
    then show ?thesis using emits_then [OF enter emits_then [OF opn' leave']] by (simp add: bracket_text_def)
  next
    case False
    have "emits w (A @ [p]) A
        (and_then (dump_indent flags (depth + 1) False dump) (and_then f (and_then (loop_leave p) (opn [cl]))))
        (indent_text flags (depth + 1) False @ join_items flags depth ts @ [] @ [cl])"
      by (intro emits_then [OF emits_indent [OF m]] emits_then [OF items [OF False] leave'])
    from emits_then [OF enter emits_then [OF opn' this]] show ?thesis using False by (simp add: bracket_text_def)
  qed
qed

lemma above_length: "heap_ok w \<Longrightarrow> above w v A \<Longrightarrow> length A \<le> w_brk w"
proof -
  assume ok: "heap_ok w" and A: "above w v A"
  have "length A = card (set A)" using A by (simp add: above_def distinct_card)
  also have "\<dots> \<le> card {1..<w_brk w}" using above_dom [OF A] ok by (intro card_mono) (auto simp: heap_ok_def)
  finally show ?thesis by simp
qed

lemma emits_scalar:
  assumes ok: "heap_ok w" and A: "above w v A" "w_brk w < fuel + length A" and d: "data_at w (Some p) = Some d"
    and e: "emits w A A (case d of
        JNull \<Rightarrow> emit dump (cstr ''null'') | JTrue \<Rightarrow> emit dump (cstr ''true'') | JFalse \<Rightarrow> emit dump (cstr ''false'')
      | JInteger i \<Rightarrow> emit dump (fmt_d i)
      | JReal x \<Rightarrow> emit dump (snd (jsonp_dtostr point MAX_REAL_STR_LENGTH x (FLAGS_TO_PRECISION flags)))
      | JString str \<Rightarrow> dump_string str dump flags | _ \<Rightarrow> (\<lambda>s. (1, s))) t"
    and sc: "case d of JNull \<Rightarrow> True | JTrue \<Rightarrow> True | JFalse \<Rightarrow> True | JInteger i \<Rightarrow> length (fmt_d i) < MAX_INTEGER_STR_LENGTH
      | JReal x \<Rightarrow> 0 \<le> fst (jsonp_dtostr point MAX_REAL_STR_LENGTH x (FLAGS_TO_PRECISION flags)) | JString str \<Rightarrow> True | _ \<Rightarrow> False"
    and fl: "\<not> dflag flags JSON_EMBED"
  shows "emits w A A (do_dump fuel point dump flags depth (Some p)) t"
proof -
  obtain f where f: "fuel = Suc f" using A(2) above_length [OF ok A(1)] by (cases fuel) auto
  show ?thesis
    by (rule emits_state [OF _ e])
      (use f d fl sc in \<open>cases d; auto simp: dump_state_def clear_embed_id Let_def split: prod.splits\<close>)
qed

lemma do_dump_emits:
  assumes ok: "heap_ok w" and fl: "\<not> dflag flags JSON_EMBED"
  shows "views w v p \<Longrightarrow> printable point flags v \<Longrightarrow> above w v A \<Longrightarrow> w_brk w < fuel + length A \<Longrightarrow>
    emits w A A (do_dump fuel point dump flags depth (Some p)) (value_text point flags depth v)"
  supply m = ok [unfolded heap_ok_def, THEN conjunct1]
proof (induction v arbitrary: p A fuel depth)
  case (VArray vs)
  obtain f where f: "fuel = Suc f" using VArray.prems(4) above_length [OF ok VArray.prems(3)] by (cases fuel) auto
  obtain a where a: "data_at w (Some p) = Some (JArray a)" "a_entries a \<le> length (a_table a)"
      "list_all2 (views w) vs (take (a_entries a) (a_table a))"
    using VArray.prems(1) by auto
  let ?rec = "do_dump f point dump flags (depth + 1)"
  let ?ts = "map (value_text point flags (depth + 1)) vs"
  have len: "length vs = a_entries a" using list_all2_lengthD [OF a(3)] a(2) by simp
  have sz: "json_array_size w (Some p) = a_entries a" using a(1) by (simp add: json_array_size_def array_at_def)
  have m: "w_mem w = mem_ok" using ok by (simp add: heap_ok_def)
  have item: "emits w (A @ [p]) (A @ [p]) (?rec (json_array_get w (Some p) i)) (?ts ! i)" if "i < a_entries a" for i
  proof -
    have i: "vs ! i \<in> set vs" "views w (vs ! i) (a_table a ! i)"
      using that len a(2) list_all2_nthD [OF a(3), of i] by auto
    have "emits w (A @ [p]) (A @ [p]) (?rec (Some (a_table a ! i))) (value_text point flags (depth + 1) (vs ! i))"
      by (rule VArray.IH [OF i])
        (use VArray.prems i f above_child [OF VArray.prems(3,1) jval_size_array [OF i(1)]] in auto)
    then show ?thesis using that len a(1) by (simp add: json_array_get_def array_at_def)
  qed
  have "emits w A A (and_then (loop_enter p) (and_then (emit dump [91])
      (if ?ts = [] then and_then (loop_leave p) (emit dump [93])
       else and_then (dump_indent flags (depth + 1) False dump)
         (and_then (dump_array_loop ?rec dump flags depth (Some p) (a_entries a) [0..<a_entries a])
           (and_then (loop_leave p) (emit dump [93]))))))
      (bracket_text flags depth 91 93 ?ts)"
  proof (rule emits_brackets [OF ok VArray.prems(3,1), where e = False])
    have "emits w (A @ [p]) (A @ [p]) (dump_array_loop ?rec dump flags depth (Some p) (a_entries a) [0..<a_entries a])
        (join_items flags depth (drop 0 ?ts))"
      by (rule emits_array_loop [OF m]) (use len item in auto)
    then show "emits w (A @ [p]) (A @ [p]) (dump_array_loop ?rec dump flags depth (Some p) (a_entries a) [0..<a_entries a])
        (join_items flags depth ?ts)" by simp
  qed simp_all
  then show ?case unfolding value_text.simps
    by (rule emits_state [rotated])
      (use a(1) f fl len sz in \<open>auto simp: dump_state_def clear_embed_id Let_def\<close>)
next
  case (VObject kvs)
  obtain f where f: "fuel = Suc f" using VObject.prems(4) above_length [OF ok VObject.prems(3)] by (cases fuel) auto
  obtain h al where a: "data_at w (Some p) = Some (JObject h)" "ht_rel (w_seed w) h al"
      "list_all2 (\<lambda>(k, v) (k', q). k = k' \<and> views w v q) kvs al"
    using VObject.prems(1) by auto
  let ?rec = "do_dump f point dump flags (depth + 1)"
  let ?kts = "map (\<lambda>(k, v). (k, value_text point flags (depth + 1) v)) kvs"
  let ?ts = "map (member_text flags) (in_order flags ?kts)"
  have m: "w_mem w = mem_ok" using ok by (simp add: heap_ok_def)
  have tab: "object_table w (Some p) = Some h" using a(1) by (simp add: object_table_def)
  have empty: "?ts = [] \<longleftrightarrow> json_object_iter w (Some p) = None" "?ts = [] \<longleftrightarrow> al = []"
    using chain_rel [OF a(2)] list_all2_lengthD [OF a(3)] tab
    by (auto simp: in_order_Nil json_object_iter_def elim: chain.cases)
  have one: "member_ok w (A @ [p]) ?rec kq (case kv of (k, v) \<Rightarrow> (k, value_text point flags (depth + 1) v))"
    if kvin: "kv \<in> set kvs" and kq: "(case kv of (k, v) \<Rightarrow> \<lambda>(k', q). k = k' \<and> views w v q) kq" for kv kq
  proof -
    obtain k v q where kv: "kv = (k, v)" "kq = (k, q)" "views w v q" using kq by (cases kv; cases kq) auto
    have v: "v \<in> Basic_BNFs.snds (k, v)" "(k, v) \<in> set kvs" using kvin kv by (auto simp: snds.simps)
    have "emits w (A @ [p]) (A @ [p]) (?rec (Some q)) (value_text point flags (depth + 1) v)"
      by (rule VObject.IH [OF v(2,1) kv(3)])
        (use VObject.prems v f above_child [OF VObject.prems(3,1) jval_size_object [OF v(2)]] in auto)
    then show ?thesis using kv VObject.prems(2) v(2) by (auto simp: member_ok_def)
  qed
  have mem: "list_all2 (member_ok w (A @ [p]) ?rec) al ?kts"
    using a(3) one by (auto simp: list_all2_conv_all_nth)
  have "emits w A A (and_then (loop_enter p) (and_then (emit dump [123])
      (if ?ts = [] then and_then (loop_leave p) (emit dump [125])
       else and_then (dump_indent flags (depth + 1) False dump)
         (and_then (dump_members ?rec dump flags depth (Some p)) (and_then (loop_leave p) (emit dump [125]))))))
      (bracket_text flags depth 123 125 ?ts)"
    by (rule emits_brackets [OF ok VObject.prems(3,1), where e = False])
      (use emits_members [OF m tab a(2) mem] empty(2) in auto)
  moreover have "do_dump fuel point dump flags depth (Some p) s =
      and_then (loop_enter p) (and_then (emit dump [123])
      (if ?ts = [] then and_then (loop_leave p) (emit dump [125])
       else and_then (dump_indent flags (depth + 1) False dump)
         (and_then (dump_members ?rec dump flags depth (Some p)) (and_then (loop_leave p) (emit dump [125]))))) s"
    if st: "dump_state w A s c" "length c \<le> limit" for s c
  proof -
    have "distinct A" using VObject.prems(3) by (simp add: above_def)
    from emitsD [OF emits_enter [OF ok above_dom [OF VObject.prems(3)] this views_dom [OF VObject.prems(1)]
        above_new [OF VObject.prems(3,1)]] st(1)] st(2)
    obtain s1 where s1: "loop_enter p s = (0, s1)" "dm_world s1 = w" by (auto simp: dump_state_def)
    then show ?thesis using st a(1) f fl empty(1)
      by (auto simp: dump_state_def clear_embed_id Let_def and_then_def [of "loop_enter p"])
  qed
  ultimately show ?case unfolding value_text.simps using emits_state by blast
next
  case VNull
  show ?case by (rule emits_scalar [OF ok VNull.prems(3,4) _ _ _ fl, where d = JNull]) (use VNull m emits_emit in auto)
next
  case VTrue
  show ?case by (rule emits_scalar [OF ok VTrue.prems(3,4) _ _ _ fl, where d = JTrue]) (use VTrue m emits_emit in auto)
next
  case VFalse
  show ?case by (rule emits_scalar [OF ok VFalse.prems(3,4) _ _ _ fl, where d = JFalse]) (use VFalse m emits_emit in auto)
next
  case (VInteger i)
  show ?case
    by (rule emits_scalar [OF ok VInteger.prems(3,4) _ _ _ fl, where d = "JInteger i"])
      (use VInteger m emits_emit fmt_d_length [of i] in \<open>auto simp: MAX_INTEGER_STR_LENGTH_def\<close>)
next
  case (VReal x)
  show ?case by (rule emits_scalar [OF ok VReal.prems(3,4) _ _ _ fl, where d = "JReal x"]) (use VReal m emits_emit in auto)
next
  case (VString str)
  show ?case
    by (rule emits_scalar [OF ok VString.prems(3,4) _ _ _ fl, where d = "JString str"]) (use VString m emits_string in auto)
qed
end

section \<open>The text has no NUL\<close>

lemma fmt_u_nonzero: "0 \<notin> set (fmt_u n)"
  using fmt_u_digits [of 0 n] by (auto simp: is_digit_byte_def l_isdigit_def)

lemma fmt_d_nonzero: "0 \<notin> set (fmt_d i)"
  using fmt_u_nonzero by (auto simp: fmt_d_def)

lemma with_point_nonzero:
  "point \<noteq> 0 \<Longrightarrow> 0 \<notin> set ip \<Longrightarrow> 0 \<notin> set fp \<Longrightarrow> 0 \<notin> set (with_point point ip fp)"
  by (auto simp: with_point_def strip_zeros_def dest!: set_dropWhileD)

lemma fmt_g_nonzero: "point \<noteq> 0 \<Longrightarrow> 0 \<notin> set (fmt_g point P x)"
  using fmt_u_nonzero
  by (auto simp: fmt_g_def Let_def with_point_nonzero split: prod.splits dest: in_set_takeD in_set_dropD
      dest!: with_point_nonzero [THEN notE, rotated 3])

lemma jsonp_dtostr_nonzero: "point \<noteq> 0 \<Longrightarrow> 0 \<notin> set (snd (jsonp_dtostr point sz x P))"
proof -
  assume p: "point \<noteq> 0"
  have loc: "0 \<notin> set (from_locale point b)" if "0 \<notin> set b" for b
  proof -
    have "0 \<notin> set (b[i := 46])" for i using that set_update_subset_insert [of b i 46] by auto
    then show ?thesis using that by (simp add: from_locale_def split: option.splits)
  qed
  have trim: "0 \<notin> set (trim_exponent b)" if "0 \<notin> set b" for b
    using that by (auto simp: trim_exponent_def Let_def split: option.splits dest: in_set_takeD in_set_dropD)
  have "0 \<notin> set (from_locale point (fmt_g point Q x))" for Q using loc fmt_g_nonzero [OF p] by blast
  then show ?thesis using trim by (auto simp: jsonp_dtostr_def Let_def)
qed

lemma fmt_04X_nonzero: "0 \<notin> set (fmt_04X n)"
proof
  assume "0 \<in> set (fmt_04X n)"
  then obtain d where "d \<in> set (nat_digits 16 n)" "digit_byte True d = 0" by (auto simp: fmt_04X_def Let_def)
  with nat_digits_less [of 16 d n] show False
    by (cases "d < 10") (auto dest: arg_cong [of _ _ unat] simp: unat_digit_byte)
qed

lemma escape_text_nonzero: "0 \<notin> set (escape_text cp)"
  using fmt_04X_nonzero by (simp add: escape_text_def Let_def)

lemma utf8_encode_nonzero: "utf8_encode cp = Some bs \<Longrightarrow> 0x20 \<le> cp \<Longrightarrow> scalar cp \<Longrightarrow> 0 \<notin> set bs"
proof
  assume e: "utf8_encode cp = Some bs" and cp: "0x20 \<le> cp" "scalar cp" and z: "0 \<in> set bs"
  have nz: "to_byte i \<noteq> 0" if "0 < i" "i < 256" for i
    using uint_to_byte [of i] that by auto
  from cp(2) show False
    by (rule utf8_encode_cases) (use e z cp(1) nz in \<open>auto simp: not_less\<close>)
qed

lemma escape_string_nonzero: "0 \<notin> set (escape_string flags s)"
proof (induction flags s rule: escape_string.induct)
  case (1 flags s)
  show ?case
  proof (cases "\<exists>n cp. utf8_iterate s = Some (n, Some cp)")
    case True
    then obtain n cp where it: "utf8_iterate s = Some (n, Some cp)" by blast
    note snd = utf8_iterate_sound [OF it]
    have "0 \<notin> set (take n s)" if "\<not> needs_escape flags cp"
      using that snd utf8_encode_nonzero [of cp "take n s"] by (simp add: needs_escape_def)
    then show ?thesis using escape_string_step [OF it, of flags] "1.IH" [OF it refl refl] escape_text_nonzero by simp
  next
    case False
    then show ?thesis by (subst escape_string.simps) (cases "utf8_iterate s"; fastforce split: option.splits)
  qed
qed

lemma join_items_nonzero: "\<forall>t \<in> set ts. 0 \<notin> set t \<Longrightarrow> 0 \<notin> set (join_items flags depth ts)"
proof (induction ts)
  case (Cons t ts)
  then show ?case by (simp only: join_items_Cons) (auto simp: indent_text_def)
qed simp

lemma bracket_text_nonzero:
  "\<forall>t \<in> set ts. 0 \<notin> set t \<Longrightarrow> op \<noteq> 0 \<Longrightarrow> cl \<noteq> 0 \<Longrightarrow> 0 \<notin> set (bracket_text flags depth op cl ts)"
  using join_items_nonzero [of ts flags depth] by (auto simp: bracket_text_def indent_text_def)

lemma member_text_nonzero: "0 \<notin> set (snd kt) \<Longrightarrow> 0 \<notin> set (member_text flags kt)"
  using escape_string_nonzero by (auto simp: member_text_def string_text_def)

lemma in_order_values: "kt \<in> set (in_order flags kts) \<Longrightarrow> snd kt \<in> snd ` set kts"
proof (cases "dflag flags JSON_SORT_KEYS")
  case True
  moreover assume "kt \<in> set (in_order flags kts)"
  ultimately obtain k where k: "k \<in> fst ` set kts" "kt = (k, the (map_of kts k))" by (auto simp: in_order_def)
  then obtain v where "map_of kts k = Some v" by (metis map_of_eq_None_iff not_None_eq)
  then show ?thesis using k(2) map_of_SomeD by force
qed (auto simp: in_order_def)

lemma value_text_nonzero: "point \<noteq> 0 \<Longrightarrow> 0 \<notin> set (value_text point flags depth v)"
proof (induction v arbitrary: depth)
  case (VArray vs)
  then show ?case by (simp add: bracket_text_nonzero)
next
  case (VObject kvs)
  have "0 \<notin> set (snd kt)" if "kt \<in> set (in_order flags (map (\<lambda>(k, v). (k, value_text point flags (depth + 1) v)) kvs))" for kt
    using in_order_values [OF that] VObject by (fastforce simp: snds.simps)
  then show ?case by (simp add: bracket_text_nonzero member_text_nonzero)
qed (use fmt_d_nonzero jsonp_dtostr_nonzero escape_string_nonzero in \<open>auto simp: string_text_def\<close>)

context dump_sink
begin

lemma json_dump_callback_text:
  assumes ok: "heap_ok w" and v: "views w v p" "printable point flags v" and fl: "\<not> dflag flags JSON_EMBED"
    and top: "dflag flags JSON_ENCODE_ANY \<or> (\<exists>vs. v = VArray vs) \<or> (\<exists>kvs. v = VObject kvs)"
    and d: "absorbed d []" "length (value_text point flags 0 v) \<le> limit"
  shows "\<exists>d'. json_dump_callback point (Some p) dump d flags w = (0, d', w) \<and> absorbed d' (value_text point flags 0 v)"
proof -
  obtain h :: "ptr hashtable" where h: "hashtable_init mem_ok = (Some h, mem_ok)" "ht_rel (w_seed w) h []"
    using hashtable_init_ok by blast
  have m: "w_mem w = mem_ok" using ok by (simp add: heap_ok_def)
  have init: "parents_init w = (Some h, w)" using h(1) m by (simp add: parents_init_def)
  have st: "dump_state w [] \<lparr>dm_parents = h, dm_data = d, dm_world = w\<rparr> []"
    using h(2) d(1) by (simp add: dump_state_def parents_of_def)
  have "emits w [] [] (do_dump (w_brk w + 1) point dump flags 0 (Some p)) (value_text point flags 0 v)"
    by (rule do_dump_emits [OF ok fl v]) (simp_all add: above_def)
  from emitsD [OF this st] d(2) obtain s' where
    s': "do_dump (w_brk w + 1) point dump flags 0 (Some p) \<lparr>dm_parents = h, dm_data = d, dm_world = w\<rparr> = (0, s')"
      "dump_state w [] s' (value_text point flags 0 v)" by auto
  have "hashtable_close decref_ptr (dm_parents s') w = w"
    using s'(2) hashtable_close_rel [of "w_seed w" "dm_parents s'" "[]" decref_ptr w]
    by (simp add: dump_state_def parents_of_def)
  moreover have "dflag flags JSON_ENCODE_ANY \<or> json_is_array w (Some p) \<or> json_is_object w (Some p)"
    using top v(1) by (auto simp: json_is_array_def json_is_object_def json_typeof_def)
  ultimately show ?thesis using s' init
    by (auto simp: json_dump_callback_def dump_state_def)
qed

end

section \<open>The sinks of the library\<close>

definition in_strbuffer :: "strbuffer \<Rightarrow> byte list \<Rightarrow> bool" where
  "in_strbuffer sb c \<longleftrightarrow> sb_wf sb \<and> sb_content sb = c \<and> sb_size sb \<le> max 16 (2 * length c + 1)"

lemma strbuffer_append_size:
  assumes "sb_wf sb" "strbuffer_append_bytes sb data m = (0, sb', m')"
  shows "sb_size sb' \<le> max (sb_size sb) (2 * (sb_length sb + length data) + 1)"
proof -
  obtain x where "sb_length sb < sb_size sb" "sb_size sb \<le> SIZE_MAX" using assms(1) by (auto elim: sb_wfE)
  then have "size_sub (sb_size sb) (sb_length sb) = sb_size sb - sb_length sb" by simp
  then show ?thesis using assms(2)
    by (auto simp: strbuffer_append_bytes_def strbuffer_grow_def Let_def STRBUFFER_FACTOR_def
        split: if_splits prod.splits bool.splits option.splits)
qed

interpretation sbuf: dump_sink dump_to_strbuffer in_strbuffer "2 ^ 61"
proof
  fix sb c and w :: world and ts :: "byte list"
  assume sb: "in_strbuffer sb c" and len: "length c + length ts \<le> 2 ^ 61" and m: "w_mem w = mem_ok"
  have wf: "sb_wf sb" "sb_content sb = c" and size: "sb_size sb \<le> max 16 (2 * length c + 1)"
    using sb by (auto simp: in_strbuffer_def)
  have sl: "sb_length sb = length c" using wf length_sb_content by metis
  have "sb_size sb + length ts \<le> 2 ^ 62 + 2 ^ 61 + 17" using size len by (simp add: max_def split: if_splits)
  also have "\<dots> \<le> SIZE_MAX div 2" by (simp add: SIZE_MAX_def)
  finally obtain sb' where app: "strbuffer_append_bytes sb ts mem_ok = (0, sb', mem_ok)"
    using strbuffer_append_bytes_mem_ok [OF wf(1)] by blast
  have "sb_wf sb'" "sb_content sb' = c @ ts" using strbuffer_append_bytes_0 [OF wf(1) app] wf(2) by auto
  moreover have "sb_size sb' \<le> max 16 (2 * length (c @ ts) + 1)"
    using strbuffer_append_size [OF wf(1) app] size sl by (auto simp: max_def split: if_splits)
  ultimately show "\<exists>d'. dump_to_strbuffer ts sb w = (0, d', w) \<and> in_strbuffer d' (c @ ts)"
    using app m by (auto simp: dump_to_strbuffer_def in_strbuffer_def)
qed

definition in_buffer :: "nat \<Rightarrow> nat \<Rightarrow> dump_buffer \<Rightarrow> byte list \<Rightarrow> bool" where
  "in_buffer sz n buf c \<longleftrightarrow> bf_size buf = sz \<and> length (bf_data buf) = n \<and> bf_used buf = length c \<and>
     (length c \<le> sz \<longrightarrow> take (length c) (bf_data buf) = c)"

interpretation mbuf: dump_sink dump_to_buffer "in_buffer sz (sz + k)" SIZE_MAX for sz k
proof
  fix buf c and w :: world and ts :: "byte list"
  assume buf: "in_buffer sz (sz + k) buf c"
  show "\<exists>d'. dump_to_buffer ts buf w = (0, d', w) \<and> in_buffer sz (sz + k) d' (c @ ts)"
  proof (cases "length c + length ts \<le> sz")
    case True
    then have "take (length (c @ ts)) (mem_write (bf_data buf) (length c) ts) = c @ ts"
      using buf by (simp add: in_buffer_def mem_write_def)
    then show ?thesis using buf True by (auto simp: dump_to_buffer_def in_buffer_def Let_def mem_write_def)
  next
    case False
    then show ?thesis using buf by (auto simp: dump_to_buffer_def in_buffer_def Let_def)
  qed
qed

lemma json_dumps_text:
  assumes "heap_ok w" "views w v p" "printable point flags v" "\<not> dflag flags JSON_EMBED" "point \<noteq> 0"
    "dflag flags JSON_ENCODE_ANY \<or> (\<exists>vs. v = VArray vs) \<or> (\<exists>kvs. v = VObject kvs)"
    "length (value_text point flags 0 v) \<le> 2 ^ 61"
  shows "json_dumps point (Some p) flags w = (Some (value_text point flags 0 v), w)"
proof -
  have m: "w_mem w = mem_ok" using assms(1) by (simp add: heap_ok_def)
  let ?sb = "\<lparr>sb_value = Some (replicate 16 0), sb_length = 0, sb_size = 16\<rparr>"
  have "in_strbuffer ?sb []" using strbuffer_init_wf [OF strbuffer_init_ok] by (simp add: in_strbuffer_def)
  from sbuf.json_dump_callback_text [OF assms(1-4,6) this assms(7)] obtain sb' where
    cb: "json_dump_callback point (Some p) dump_to_strbuffer ?sb flags w = (0, sb', w)"
      "in_strbuffer sb' (value_text point flags 0 v)" by blast
  obtain x where x: "strbuffer_value sb' = Some x" "c_string x = c_string (value_text point flags 0 v)"
    using strbuffer_value_c_string [of sb'] cb(2) by (auto simp: in_strbuffer_def)
  have "c_string x = value_text point flags 0 v" using x(2) value_text_nonzero [OF assms(5)] by simp
  then show ?thesis using cb(1) x(1) m by (simp add: json_dumps_def Let_def mem_ok_same)
qed

lemma json_dumpb_text:
  assumes "heap_ok w" "views w v p" "printable point flags v" "\<not> dflag flags JSON_EMBED"
    "dflag flags JSON_ENCODE_ANY \<or> (\<exists>vs. v = VArray vs) \<or> (\<exists>kvs. v = VObject kvs)"
    "length (value_text point flags 0 v) \<le> SIZE_MAX" "sz \<le> length buffer"
  shows "\<exists>buffer'. json_dumpb point (Some p) buffer sz flags w = (length (value_text point flags 0 v), buffer', w) \<and>
    length buffer' = length buffer \<and>
    (length (value_text point flags 0 v) \<le> sz \<longrightarrow>
       take (length (value_text point flags 0 v)) buffer' = value_text point flags 0 v)"
proof -
  have "in_buffer sz (sz + (length buffer - sz)) \<lparr>bf_size = sz, bf_used = 0, bf_data = buffer\<rparr> []"
    using assms(7) by (simp add: in_buffer_def)
  from mbuf.json_dump_callback_text [OF assms(1-5) this assms(6)] obtain buf where
    "json_dump_callback point (Some p) dump_to_buffer \<lparr>bf_size = sz, bf_used = 0, bf_data = buffer\<rparr> flags w = (0, buf, w)"
    "in_buffer sz (sz + (length buffer - sz)) buf (value_text point flags 0 v)" by blast
  then show ?thesis using assms(7) by (auto simp: json_dumpb_def in_buffer_def)
qed

section \<open>Properties of the encoder\<close>

text \<open>The array [null, 5] on a small heap, for the examples.\<close>

definition small_array :: world where
  "small_array = (initial_world mem_ok plain_env)\<lparr>w_heap := (w_heap (initial_world mem_ok plain_env))
     (4 \<mapsto> \<lparr>j_refcount = 1, j_data = JInteger 5\<rparr>,
      5 \<mapsto> \<lparr>j_refcount = 1, j_data = JArray \<lparr>a_size = 8, a_entries = 2, a_table = [3, 4, 0, 0, 0, 0, 0, 0]\<rparr>\<rparr>), w_brk := 6\<rparr>"

lemma small_array_ok: "heap_ok small_array"
proof -
  have dom: "dom (w_heap small_array) = {1, 2, 3, 4, 5}"
    by (auto simp: small_array_def initial_world_def true_ptr_def false_ptr_def null_ptr_def split: if_splits)
  show ?thesis unfolding heap_ok_def dom
    by (simp add: small_array_def initial_world_def statics_ok_def true_ptr_def false_ptr_def null_ptr_def)
qed

lemma small_array_views: "views small_array (VArray [VNull, VInteger 5]) 5"
  by (simp add: data_at_def small_array_def initial_world_def true_ptr_def false_ptr_def null_ptr_def)

lemma small_array_text: "value_text 46 0 0 (VArray [VNull, VInteger 5]) = cstr ''[null, 5]''"
  by (simp add: bracket_text_def indent_text_def FLAGS_TO_INDENT_def dflag_def fmt_d_def fmt_u_def digit_byte_def
      nat_digits.simps)



text \<open>
  C33: \<^verbatim>\<open>json_dumpb\<close> returns the length of the text whether or not it fits, and when it fits
  the buffer starts with the text; it never writes beyond the size it was given.
\<close>

theorem json_dumpb_length:
  assumes "heap_ok w" "views w v p" "printable point flags v" "\<not> dflag flags JSON_EMBED"
    and "dflag flags JSON_ENCODE_ANY \<or> (\<exists>vs. v = VArray vs) \<or> (\<exists>kvs. v = VObject kvs)"
    and "length (value_text point flags 0 v) \<le> SIZE_MAX" "sz \<le> length buffer"
  shows "\<exists>buffer'. json_dumpb point (Some p) buffer sz flags w = (length (value_text point flags 0 v), buffer', w) \<and>
    length buffer' = length buffer \<and>
    (length (value_text point flags 0 v) \<le> sz \<longrightarrow>
       take (length (value_text point flags 0 v)) buffer' = value_text point flags 0 v)"
  using json_dumpb_text [OF assms] .

theorem json_dumpb_length_witness:
  "\<exists>buffer'. json_dumpb 46 (Some 5) (replicate 20 0) 20 0 small_array = (9, buffer', small_array) \<and>
     take 9 buffer' = cstr ''[null, 5]''"
proof -
  have "length (value_text 46 0 0 (VArray [VNull, VInteger 5])) \<le> SIZE_MAX" by (simp only: small_array_text) (simp add: SIZE_MAX_def)
  then show ?thesis
    using json_dumpb_length [OF small_array_ok small_array_views, of 46 0 20 "replicate 20 0"]
    by (simp only: small_array_text) (auto simp: dflag_def LLONG_MIN_def LLONG_MAX_def numeral_eq_Suc)
qed

end
