(* ===== verification/Json_Scan_Text.thy ===== *)
theory Json_Scan_Text
  imports Json_Parse_Heap Json_Dump_Correct
begin

text \<open>
  The lexical analyser on text the encoder writes.  \<^verbatim>\<open>reading\<close> describes a parser state by the text before
  it; the lemmas give the state after each scan.  Decoding an escaped string gives the string back, and the
  scans of punctuation, keywords, integers and strings return the token that was printed.
\<close>

section \<open>The lexer at a place of the text\<close>

definition saved_ok :: "nat \<Rightarrow> strbuffer \<Rightarrow> byte list \<Rightarrow> bool" where
  "saved_ok L sb c \<longleftrightarrow> sb_wf sb \<and> sb_content sb = c \<and> sb_size sb \<le> max 16 (2 * L + 1)"

lemma saved_append:
  assumes "saved_ok L sb c" "length c < L" "L \<le> 2 ^ 60"
  shows "\<exists>sb'. strbuffer_append_byte sb b mem_ok = (0, sb', mem_ok) \<and> saved_ok L sb' (c @ [b])"
proof -
  have wf: "sb_wf sb" "sb_content sb = c" and size: "sb_size sb \<le> max 16 (2 * L + 1)" using assms(1) by (auto simp: saved_ok_def)
  have sl: "sb_length sb = length c" using wf length_sb_content by metis
  have "sb_size sb + length [b] \<le> SIZE_MAX div 2" using size assms(3) by (simp add: SIZE_MAX_def max_def split: if_splits)
  from strbuffer_append_bytes_mem_ok [OF wf(1) this] obtain sb' where
    app: "strbuffer_append_bytes sb [b] mem_ok = (0, sb', mem_ok)" by blast
  have "sb_size sb' \<le> max 16 (2 * L + 1)"
    using strbuffer_append_size [OF wf(1) app] size sl assms(2) by (auto simp: max_def split: if_splits)
  then show ?thesis using app strbuffer_append_bytes_0 [OF wf(1) app] wf(2) by (auto simp: saved_ok_def strbuffer_append_byte_def)
qed

lemma saved_pop: "saved_ok L sb (c @ [b]) \<Longrightarrow> saved_ok L (snd (strbuffer_pop sb)) c"
  using strbuffer_pop_snoc [of sb c b] by (cases "strbuffer_pop sb") (auto simp: saved_ok_def)

lemma saved_clear: "saved_ok L sb c \<Longrightarrow> saved_ok L (strbuffer_clear sb) []"
  using strbuffer_clear_wf by (auto simp: saved_ok_def strbuffer_clear_def sb_content_def)

text \<open>What the parser sees of its own state.\<close>

definition surroundings :: "'d parser \<Rightarrow> world \<times> nat \<times> nat \<times> int" where
  "surroundings s = (ps_world s, lx_depth (ps_lex s), lx_flags (ps_lex s), ps_token s)"

text \<open>
  The lexer has the text \<^term>\<open>bs\<close> before it and has saved \<^term>\<open>c\<close>; the rest of the input is UTF-8, no
  allocation fails, and the whole text has \<^term>\<open>L\<close> bytes.
\<close>

definition reading ::
  "('d \<Rightarrow> int \<times> 'd) \<Rightarrow> ('d \<Rightarrow> byte list) \<Rightarrow> nat \<Rightarrow> world \<times> nat \<times> nat \<times> int \<Rightarrow> 'd parser \<Rightarrow> byte list \<Rightarrow> byte list \<Rightarrow> bool" where
  "reading get bytes L e s c bs \<longleftrightarrow> stream_ok get (ps_stream s) \<and> st_state (ps_stream s) = STREAM_STATE_OK \<and>
     ahead bytes (ps_stream s) = bs \<and> utf8_check_string (bytes (st_data (ps_stream s))) \<and>
     saved_ok L (lx_saved_text (ps_lex s)) c \<and> length c + length bs \<le> L \<and> L \<le> 2 ^ 60 \<and>
     w_mem (ps_world s) = mem_ok \<and> surroundings s = e"

text \<open>The byte \<^term>\<open>b\<close> has just been read.\<close>

definition just_read :: "byte \<Rightarrow> 'd parser \<Rightarrow> bool" where
  "just_read b s \<longleftrightarrow> 0 < st_buffer_pos (ps_stream s) \<and> st_buffer (ps_stream s) ! (st_buffer_pos (ps_stream s) - 1) = b"

lemma unget_held:
  assumes "buffer_ok st" "0 < st_buffer_pos st" "st_buffer st ! (st_buffer_pos st - 1) \<noteq> 0" "c \<noteq> -1" "c \<noteq> -2"
  shows "held (stream_unget c st) = st_buffer st ! (st_buffer_pos st - 1) # held st"
proof -
  have d: "drop (st_buffer_pos st - 1) (st_buffer st) = st_buffer st ! (st_buffer_pos st - 1) # drop (st_buffer_pos st) (st_buffer st)"
    using assms(1,2) Cons_nth_drop_Suc [of "st_buffer_pos st - 1" "st_buffer st"] by (force simp: buffer_ok_def)
  show ?thesis using assms d by (auto simp: stream_unget_def Let_def held_def c_string_def stream_states)
qed

lemma just_read_valid: "stream_ok get (ps_stream s) \<Longrightarrow> st_state (ps_stream s) = STREAM_STATE_OK \<Longrightarrow> just_read b s \<Longrightarrow> b \<noteq> 254 \<and> b \<noteq> 255"
proof -
  assume a: "stream_ok get (ps_stream s)" "st_state (ps_stream s) = STREAM_STATE_OK" "just_read b s"
  then have "b \<in> set (st_buffer (ps_stream s))" by (auto simp: just_read_def stream_ok_def buffer_ok_def intro!: nth_mem)
  then show ?thesis using a by (auto simp: stream_ok_def buffer_ok_def)
qed

lemma lex_save_reading:
  assumes "reading get bytes L e s c bs" "length c + length bs < L"
  shows "reading get bytes L e (lex_save (sint b) s) (c @ [b]) bs" "just_read x (lex_save (sint b) s) = just_read x s"
proof -
  obtain sb' where sb: "strbuffer_append_byte (lx_saved_text (ps_lex s)) b mem_ok = (0, sb', mem_ok)" "saved_ok L sb' (c @ [b])"
    using saved_append [of L "lx_saved_text (ps_lex s)" c b] assms by (auto simp: reading_def)
  have w: "(ps_world s)\<lparr>w_mem := mem_ok\<rparr> = ps_world s" using assms(1) by (cases "ps_world s") (simp add: reading_def)
  show "reading get bytes L e (lex_save (sint b) s) (c @ [b]) bs" "just_read x (lex_save (sint b) s) = just_read x s"
    using assms sb w by (auto simp: reading_def lex_save_def just_read_def surroundings_def)
qed

context byte_source
begin

abbreviation rd where "rd \<equiv> reading get bytes"

lemma stream_get_reading:
  assumes "rd L e s c (b # bs)"
  shows "\<exists>s'. stream_get s = (sint b, s') \<and> rd L e s' c bs \<and> just_read b s'"
proof -
  have ok: "ready s" using assms by (simp add: reading_def)
  then show ?thesis
  proof (cases rule: stream_get_cases)
    case (byte b' bs' st')
    then show ?thesis using assms
      by (intro exI [of _ "upd_stream (\<lambda>_. st') s"]) (auto simp: reading_def just_read_def surroundings_def)
  qed (use assms in \<open>auto simp: reading_def stream_states\<close>)
qed

lemma not_special: "rd L e s c bs \<Longrightarrow> just_read b s \<Longrightarrow> sint b \<noteq> STREAM_STATE_EOF \<and> sint b \<noteq> STREAM_STATE_ERROR"
  using just_read_valid [of get s b] sint_byte_special [of b] by (auto simp: reading_def stream_states)

lemma get_save_reading:
  assumes "rd L e s c (b # bs)"
  shows "\<exists>s'. lex_get_save s = (sint b, s') \<and> rd L e s' (c @ [b]) bs \<and> just_read b s'"
proof -
  obtain s1 where s1: "stream_get s = (sint b, s1)" "rd L e s1 c bs" "just_read b s1" using stream_get_reading [OF assms] by blast
  have "length c + length bs < L" using assms by (simp add: reading_def)
  then show ?thesis using s1 not_special [OF s1(2,3)] lex_save_reading [OF s1(2)] by (simp add: lex_get_save_def)
qed

lemma unget_unsave_reading:
  assumes "rd L e s (c @ [b]) bs" "just_read b s" "b \<noteq> 0"
  shows "rd L e (lex_unget_unsave (sint b) s) c (b # bs)"
proof -
  have sp: "sint b \<noteq> -1" "sint b \<noteq> -2" using not_special [OF assms(1,2)] by (simp_all add: stream_states)
  have ok: "buffer_ok (ps_stream s)" "0 < st_buffer_pos (ps_stream s)" "st_buffer (ps_stream s) ! (st_buffer_pos (ps_stream s) - 1) = b"
    using assms by (auto simp: reading_def stream_ok_def just_read_def)
  note u = unget_keeps [OF ok(1,2), of "sint b"] unget_held [OF ok(1,2) _ sp] 
  have "saved_ok L (snd (strbuffer_pop (lx_saved_text (ps_lex s)))) c" using saved_pop assms(1) by (auto simp: reading_def)
  then show ?thesis using assms u ok(3) sp
    by (auto simp: reading_def lex_unget_unsave_def surroundings_def stream_states ahead_def stream_ok_def)
qed

end

section \<open>Hexadecimal escapes\<close>

lemma sint_uint_byte: "uint (b::byte) < 128 \<Longrightarrow> sint b = uint b"
proof -
  assume "uint b < 128"
  then have "signed_take_bit 7 (uint b) = uint b" by (simp add: signed_take_bit_int_eq_self_iff uint_ge_0 order_trans [OF _ uint_ge_0])
  then show ?thesis by (simp add: sint_uint)
qed

lemma sint_digit_byte:
  assumes "d < 16"
  shows "sint (digit_byte True d) = (if d < 10 then 48 + int d else 55 + int d)"
proof -
  have u: "uint (digit_byte True d) = (if d < 10 then 48 + int d else 55 + int d)" using assms uint_digit_byte(1) [of d True] uint_digit_byte(2) [of d] by (cases "d < 10") simp_all
  then have "uint (digit_byte True d) < 128" using assms by simp
  then show ?thesis using sint_uint_byte u by simp
qed

lemma hex_digit_value:
  assumes "d < 16"
  shows "unicode_escape_loop (digit_byte True d # bs) v = unicode_escape_loop bs (push_bit 4 v + int d)"
    "l_isxdigit (sint (digit_byte True d))"
proof -
  note s = sint_digit_byte [OF assms]
  have "l_isdigit (sint (digit_byte True d)) = (d < 10)" "\<not> d < 10 \<Longrightarrow> \<not> l_islower (sint (digit_byte True d))"
    "\<not> d < 10 \<Longrightarrow> l_isupper (sint (digit_byte True d))"
    unfolding s using assms by (simp_all add: l_isdigit_def l_islower_def l_isupper_def)
  note c = this
  show "unicode_escape_loop (digit_byte True d # bs) v = unicode_escape_loop bs (push_bit 4 v + int d)"
  proof (cases "d < 10")
    case True
    have e: "push_bit 4 v + (sint (digit_byte True d) - 48) = push_bit 4 v + int d" using s True by simp
    show ?thesis unfolding unicode_escape_loop.simps Let_def e using c True by simp
  next
    case False
    have e: "push_bit 4 v + (sint (digit_byte True d) - 65 + 10) = push_bit 4 v + int d" using s False by simp
    show ?thesis unfolding unicode_escape_loop.simps Let_def e using c False by simp
  qed
  show "l_isxdigit (sint (digit_byte True d))" unfolding s l_isxdigit_def l_isdigit_def using assms by simp
qed

text \<open>The four digits of a number below \<^verbatim>\<open>0x10000\<close>.\<close>

lemma digit_48: "digit_byte True 0 = 48"
  by (simp add: digit_byte_def)

lemma fmt_04X_digits:
  assumes "n < 65536"
  obtains ds where "fmt_04X n = map (digit_byte True) ds" "length ds = 4" "\<forall>d \<in> set ds. d < 16" "foldl (\<lambda>v d. 16 * v + d) 0 ds = n"
proof
  let ?ds = "replicate (4 - length (nat_digits 16 n)) 0 @ nat_digits 16 n"
  have len: "length (nat_digits 16 n) \<le> 4" using nat_digits_length [of 16 n 4] assms by simp
  show "fmt_04X n = map (digit_byte True) ?ds" by (simp add: fmt_04X_def Let_def digit_48)
  show "length ?ds = 4" using len by simp
  show "\<forall>d \<in> set ?ds. d < 16" using nat_digits_less [of 16 _ n] by auto
  have "foldl (\<lambda>v d. 16 * v + d) 0 (replicate k (0::nat)) = 0" for k by (induction k) auto
  then show "foldl (\<lambda>v d. 16 * v + d) 0 ?ds = n" using nat_digits_value [of 16 n] by simp
qed

lemma escape_loop_digits:
  "\<forall>d \<in> set ds. d < 16 \<Longrightarrow> unicode_escape_loop (map (digit_byte True) ds) (int v) = int (foldl (\<lambda>v d. 16 * v + d) v ds)"
proof (induction ds arbitrary: v)
  case (Cons d ds)
  have "push_bit 4 (int v) + int d = int (16 * v + d)" by (simp add: push_bit_eq_mult)
  moreover have "unicode_escape_loop (map (digit_byte True) ds) (int (16 * v + d)) = int (foldl (\<lambda>v d. 16 * v + d) (16 * v + d) ds)"
    using Cons.IH [of "16 * v + d"] Cons.prems by simp
  ultimately show ?case using Cons.prems hex_digit_value(1) [of d] by (simp del: unicode_escape_loop.simps of_nat_add of_nat_mult)
qed simp

lemma decode_escape_04X:
  assumes "n < 65536"
  shows "decode_unicode_escape (x # fmt_04X n @ rest) = int n"
proof -
  obtain ds where ds: "fmt_04X n = map (digit_byte True) ds" "length ds = 4" "\<forall>d \<in> set ds. d < 16" "foldl (\<lambda>v d. 16 * v + d) 0 ds = n"
    using fmt_04X_digits [OF assms] .
  then have "decode_unicode_escape (x # fmt_04X n @ rest) = unicode_escape_loop (map (digit_byte True) ds) 0"
    by (simp add: decode_unicode_escape_def)
  then show ?thesis using escape_loop_digits [OF ds(3), of 0] ds(4) by simp
qed

lemma decode_u_basic:
  assumes "n < 65536" "\<not> (0xD800 \<le> n \<and> n \<le> 0xDFFF)"
  shows "decode_u (117 # fmt_04X n @ rest) = Inr (int n, 5)"
  using assms decode_escape_04X [OF assms(1)] by (auto simp: decode_u_def Let_def)

lemma or_disjoint:
  assumes "x mod 2 ^ k = 0" "0 \<le> y" "y < 2 ^ k"
  shows "x OR y = x + (y::int)"
proof (rule sym, rule disjunctive_add)
  fix n
  show "\<not> bit x n \<or> \<not> bit y n"
  proof (cases "n < k")
    case True
    have "take_bit k x = 0" using assms(1) by (simp add: take_bit_eq_mod)
    then have "\<not> bit (take_bit k x) n" by simp
    then show ?thesis using True by (simp add: bit_take_bit_iff)
  next
    case False
    have "take_bit k y = y" using assms by (simp add: take_bit_int_eq_self)
    then have "\<not> bit y n" using False by (metis bit_take_bit_iff)
    then show ?thesis ..
  qed
qed

lemma surrogates:
  assumes "0x10000 \<le> c" "c \<le> 0x10FFFF"
  shows "0xD800 OR drop_bit 10 ((c - 0x10000) AND 0xFFC00) = 0xD800 + (c - 0x10000) div 1024"
    "0xDC00 OR ((c - 0x10000) AND 0x003FF) = 0xDC00 + (c - 0x10000) mod (1024::int)"
proof -
  let ?d = "c - 0x10000"
  have d: "0 \<le> ?d" "?d < 1048576" using assms by auto
  have m: "(1023::int) = mask 10" by (simp add: mask_eq_exp_minus_1)
  have "?d AND 0x003FF = take_bit 10 ?d" unfolding m by (rule take_bit_eq_mask [symmetric])
  then have lo: "?d AND 0x003FF = ?d mod 1024" by (simp add: take_bit_eq_mod)
  have "drop_bit 10 (?d AND 0xFFC00) = drop_bit 10 ?d AND 1023" by (simp only: drop_bit_and) (simp add: drop_bit_eq_div)
  also have "\<dots> = take_bit 10 (drop_bit 10 ?d)" unfolding m by (rule take_bit_eq_mask [symmetric])
  also have "\<dots> = ?d div 1024 mod 1024" by (simp add: take_bit_eq_mod drop_bit_eq_div)
  also have "\<dots> = ?d div 1024" using d by (simp add: div_less)
  finally have hi: "drop_bit 10 (?d AND 0xFFC00) = ?d div 1024" .
  show "0xD800 OR drop_bit 10 (?d AND 0xFFC00) = 0xD800 + ?d div 1024"
    unfolding hi by (rule or_disjoint [of _ 10]) (use d in auto)
  show "0xDC00 OR (?d AND 0x003FF) = 0xDC00 + ?d mod 1024"
    unfolding lo by (rule or_disjoint [of _ 10]) auto
qed

lemma decode_u_pair:
  assumes "0x10000 \<le> c" "c \<le> 0x10FFFF"
  shows "decode_u (117 # fmt_04X (nat (0xD800 + (c - 0x10000) div 1024)) @ 92 # 117 # fmt_04X (nat (0xDC00 + (c - 0x10000) mod 1024)) @ rest) = Inr (c, 11)"
proof -
  define d where "d = c - 0x10000"
  define a b where "a = nat (0xD800 + d div 1024)" and "b = nat (0xDC00 + d mod 1024)"
  have d: "0 \<le> d" "d < 1048576" using assms by (auto simp: d_def)
  have ab: "a < 65536" "b < 65536" "int a = 0xD800 + d div 1024" "int b = 0xDC00 + d mod 1024" using d by (auto simp: a_def b_def)
  have q: "drop 5 (117 # fmt_04X a @ 92 # 117 # fmt_04X b @ rest) = 92 # 117 # fmt_04X b @ rest"
    using fmt_04X_length [OF ab(1)] by simp
  have r: "0xD800 \<le> a" "a \<le> 0xDBFF" "0xDC00 \<le> b" "b \<le> 0xDFFF" using d ab(3,4) by auto
  have v: "push_bit 10 (int a - 0xD800) + (int b - 0xDC00) + 0x10000 = c"
    using ab(3,4) by (simp add: push_bit_eq_mult d_def)
  show ?thesis
    unfolding decode_u_def Let_def d_def [symmetric] a_def [symmetric] b_def [symmetric] decode_escape_04X [OF ab(1)] q
    using r v decode_escape_04X [OF ab(2), of 117 rest] by simp
qed

section \<open>Escaped strings\<close>

text \<open>What the first loop of \<^verbatim>\<open>lex_scan_string\<close> lets through.\<close>

inductive raw_ok :: "byte list \<Rightarrow> bool" where
  raw_end: "raw_ok []"
| raw_plain: "32 \<le> uint b \<Longrightarrow> b \<noteq> 34 \<Longrightarrow> b \<noteq> 92 \<Longrightarrow> raw_ok bs \<Longrightarrow> raw_ok (b # bs)"
| raw_short: "x \<in> {34, 92, 47, 98, 102, 110, 114, 116} \<Longrightarrow> raw_ok bs \<Longrightarrow> raw_ok (92 # x # bs)"
| raw_hex: "length hs = 4 \<Longrightarrow> \<forall>h \<in> set hs. l_isxdigit (sint h) \<Longrightarrow> raw_ok bs \<Longrightarrow> raw_ok (92 # 117 # hs @ bs)"

lemma raw_append: "raw_ok a \<Longrightarrow> raw_ok b \<Longrightarrow> raw_ok (a @ b)"
  by (induction rule: raw_ok.induct) (auto intro: raw_ok.intros)

lemma raw_plains: "\<forall>b \<in> set bs. 32 \<le> uint b \<and> b \<noteq> 34 \<and> b \<noteq> 92 \<Longrightarrow> raw_ok bs"
  by (induction bs) (auto intro: raw_ok.intros)

text \<open>One code point and its bytes.\<close>

lemma to_byte_eq: "0 \<le> c \<Longrightarrow> c < 256 \<Longrightarrow> to_byte c = to_byte d \<Longrightarrow> 0 \<le> d \<Longrightarrow> d < 256 \<Longrightarrow> c = d"
  by (metis uint_to_byte)

lemma encoded_bytes:
  assumes "scalar c" "utf8_encode c = Some bs"
  shows "c < 128 \<and> bs = [to_byte c] \<or> 128 \<le> c \<and> (\<forall>b \<in> set bs. 128 \<le> uint b)"
  using assms(1)
proof (cases rule: utf8_encode_cases)
  case one then show ?thesis using assms by simp
next
  case two then show ?thesis using assms by (simp add: uint_to_byte)
next
  case three then show ?thesis using assms by (simp add: uint_to_byte)
next
  case four then show ?thesis using assms by (simp add: uint_to_byte)
qed

definition piece :: "nat \<Rightarrow> int \<Rightarrow> byte list \<Rightarrow> byte list" where
  "piece flags cp bs = (if needs_escape flags cp then escape_text cp else bs)"

lemma plain_byte:
  assumes "scalar c" "utf8_encode c = Some bs" "\<not> needs_escape flags c" "b \<in> set bs"
  shows "32 \<le> uint b \<and> b \<noteq> 34 \<and> b \<noteq> 92"
proof (cases "c < 128")
  case True
  then have b: "b = to_byte c" "32 \<le> c" "c \<noteq> 34" "c \<noteq> 92" using encoded_bytes [OF assms(1,2)] assms(3,4) by (auto simp: needs_escape_def)
  have "uint b = c" using b True by (simp add: uint_to_byte)
  then show ?thesis using b by auto
next
  case False
  then have "128 \<le> uint b" using encoded_bytes [OF assms(1,2)] assms(4) by auto
  then show ?thesis by auto
qed

lemma decode_plain:
  "\<forall>b \<in> set bs. b \<noteq> 34 \<and> b \<noteq> 92 \<Longrightarrow> decode_string (bs @ r) t = decode_string r (t @ bs)"
proof (induction bs arbitrary: t)
  case (Cons b bs)
  then show ?case by (subst decode_string.simps) simp
qed simp

lemma decode_short: "x \<noteq> 117 \<Longrightarrow> decode_string (92 # x # r) t = decode_string r (t @ [escape_byte x])"
  by (subst decode_string.simps) simp

lemma decode_hex:
  assumes "decode_u (117 # hs @ r) = Inr (c, length hs + 1)" "utf8_encode c = Some bs"
  shows "decode_string (92 # 117 # hs @ r) t = decode_string r (t @ bs)"
  using assms by (subst decode_string.simps) simp

lemma short_escapes:
  "escape_text 92 = [92, 92]" "escape_text 34 = [92, 34]" "escape_text 8 = [92, 98]" "escape_text 12 = [92, 102]"
  "escape_text 10 = [92, 110]" "escape_text 13 = [92, 114]" "escape_text 9 = [92, 116]" "escape_text 47 = [92, 47]"
  by (simp_all add: escape_text_def)

lemma escape_text_cases:
  assumes "scalar c"
  obtains (short) x where "x \<in> {34, 92, 47, 98, 102, 110, 114, 116}" "escape_text c = [92, x]" "c = uint (escape_byte x)" "c < 128"
  | (hex) "c < 0x10000" "\<not> (0xD800 \<le> c \<and> c \<le> 0xDFFF)" "0 \<le> c" "escape_text c = 92 # 117 # fmt_04X (nat c)"
  | (pair) "0x10000 \<le> c" "c \<le> 0x10FFFF"
      "escape_text c = 92 # 117 # fmt_04X (nat (0xD800 + (c - 0x10000) div 1024)) @ 92 # 117 # fmt_04X (nat (0xDC00 + (c - 0x10000) mod 1024))"
proof -
  have sc: "0 \<le> c" "c \<le> 0x10FFFF" "\<not> (0xD800 \<le> c \<and> c \<le> 0xDFFF)" using assms by (auto simp: scalar_def)
  show thesis
  proof (cases "c \<in> {92, 34, 8, 12, 10, 13, 9, 47}")
    case True
    then consider "c = 92" | "c = 34" | "c = 8" | "c = 12" | "c = 10" | "c = 13" | "c = 9" | "c = 47" by auto
    then show thesis
    proof cases
      case 1 then show thesis using short [of 92] short_escapes by (simp add: escape_byte_def)
    next
      case 2 then show thesis using short [of 34] short_escapes by (simp add: escape_byte_def)
    next
      case 3 then show thesis using short [of 98] short_escapes by (simp add: escape_byte_def)
    next
      case 4 then show thesis using short [of 102] short_escapes by (simp add: escape_byte_def)
    next
      case 5 then show thesis using short [of 110] short_escapes by (simp add: escape_byte_def)
    next
      case 6 then show thesis using short [of 114] short_escapes by (simp add: escape_byte_def)
    next
      case 7 then show thesis using short [of 116] short_escapes by (simp add: escape_byte_def)
    next
      case 8 then show thesis using short [of 47] short_escapes by (simp add: escape_byte_def)
    qed
  next
    case False
    show thesis
    proof (cases "c < 0x10000")
      case True
      then show thesis using False sc hex by (simp add: escape_text_def)
    next
      case big: False
      then have "escape_text c = 92 # 117 # fmt_04X (nat (0xD800 + (c - 0x10000) div 1024)) @ 92 # 117 # fmt_04X (nat (0xDC00 + (c - 0x10000) mod 1024))"
        using surrogates [of c] sc unfolding escape_text_def Let_def by simp
      then show thesis using big sc pair by simp
    qed
  qed
qed

lemma decode_escape:
  assumes "scalar c" "utf8_encode c = Some bs"
  shows "decode_string (escape_text c @ r) t = decode_string r (t @ bs)"
  using assms(1)
proof (cases rule: escape_text_cases)
  case (short x)
  have "bs = [escape_byte x]" using encoded_bytes [OF assms] short by simp
  moreover have "x \<noteq> 117" using short by auto
  ultimately show ?thesis using decode_short [of x r t] short by simp
next
  case hex
  then have n: "nat c < 65536" "\<not> (0xD800 \<le> nat c \<and> nat c \<le> 0xDFFF)" by auto
  show ?thesis using decode_hex [of "fmt_04X (nat c)" r c bs t] decode_u_basic [OF n, of r] fmt_04X_length [OF n(1)] hex assms(2) by simp
next
  case pair
  let ?a = "fmt_04X (nat (0xD800 + (c - 0x10000) div 1024))" and ?b = "fmt_04X (nat (0xDC00 + (c - 0x10000) mod 1024))"
  have "length ?a = 4" "length ?b = 4" by (rule fmt_04X_length, use pair in simp)+
  then show ?thesis using decode_hex [of "?a @ 92 # 117 # ?b" r c bs t] decode_u_pair [OF pair(1,2), of r] pair(3) assms(2) by simp
qed

lemma decode_escape_string:
  "utf8_check_string s \<Longrightarrow> decode_string (escape_string flags s @ 34 # r) t = Inr (t @ s)"
proof (induction flags s arbitrary: t rule: escape_string.induct)
  case (1 flags s)
  show ?case
  proof (cases "s = []")
    case True
    then show ?thesis by (simp add: decode_string.simps)
  next
    case False
    then obtain n c where it: "utf8_iterate s = Some (n, Some c)" and rest: "utf8_check_string (drop n s)"
      using check_string_step [of s] "1.prems" by blast
    note snd = utf8_iterate_sound [OF it]
    have "decode_string (escape_string flags s @ 34 # r) t = decode_string (piece flags c (take n s) @ escape_string flags (drop n s) @ 34 # r) t"
      by (simp add: escape_string_step [OF it] piece_def)
    also have "\<dots> = decode_string (escape_string flags (drop n s) @ 34 # r) (t @ take n s)"
      using decode_escape [of c "take n s"] decode_plain [of "take n s"] plain_byte [of c "take n s" flags] snd
      by (auto simp: piece_def)
    also have "\<dots> = Inr ((t @ take n s) @ drop n s)" using "1.IH" [OF it _ _ rest] by simp
    finally show ?thesis by simp
  qed
qed

lemma raw_04X: "n < 65536 \<Longrightarrow> raw_ok bs \<Longrightarrow> raw_ok (92 # 117 # fmt_04X n @ bs)"
proof -
  assume a: "n < 65536" "raw_ok bs"
  obtain ds where ds: "fmt_04X n = map (digit_byte True) ds" "length ds = 4" "\<forall>d \<in> set ds. d < 16" using fmt_04X_digits [OF a(1)] by metis
  show ?thesis unfolding ds(1) by (rule raw_hex) (use ds a hex_digit_value(2) in auto)
qed

lemma raw_escape:
  assumes "scalar c"
  shows "raw_ok (escape_text c)"
  using assms
proof (cases rule: escape_text_cases)
  case (short x) then show ?thesis using raw_short [of x] raw_end by simp
next
  case hex then show ?thesis using raw_04X [OF _ raw_end, of "nat c"] by simp
next
  case pair
  then show ?thesis using raw_04X [OF _ raw_04X [OF _ raw_end]] by simp
qed

lemma raw_escape_string: "raw_ok (escape_string flags s)"
proof (induction flags s rule: escape_string.induct)
  case (1 flags s)
  show ?case
  proof (cases "\<exists>n c. utf8_iterate s = Some (n, Some c)")
    case True
    then obtain n c where it: "utf8_iterate s = Some (n, Some c)" by blast
    note snd = utf8_iterate_sound [OF it]
    have "raw_ok (piece flags c (take n s))"
      using raw_escape [of c] raw_plains [of "take n s"] plain_byte [of c "take n s" flags] snd by (auto simp: piece_def)
    then show ?thesis using "1.IH" [OF it] raw_append by (simp add: escape_string_step [OF it] piece_def)
  next
    case False
    then show ?thesis by (subst escape_string.simps) (auto simp: raw_end split: option.splits)
  qed
qed

section \<open>Scanning strings\<close>

lemma sint_byte_eq: "0 \<le> k \<Longrightarrow> k < 128 \<Longrightarrow> sint (b::byte) = k \<longleftrightarrow> b = to_byte k"
proof -
  assume k: "0 \<le> k" "k < 128"
  then have u: "uint (to_byte k) = k" by (simp add: uint_to_byte)
  then have "sint (to_byte k) = k" using sint_uint_byte [of "to_byte k"] k by simp
  then show ?thesis by (metis signed_word_eqI)
qed

lemma sint_punctuation [simp]:
  "sint (b::byte) = 34 \<longleftrightarrow> b = 34" "sint b = 92 \<longleftrightarrow> b = 92" "sint b = 47 \<longleftrightarrow> b = 47" "sint b = 98 \<longleftrightarrow> b = 98"
  "sint b = 102 \<longleftrightarrow> b = 102" "sint b = 110 \<longleftrightarrow> b = 110" "sint b = 114 \<longleftrightarrow> b = 114" "sint b = 116 \<longleftrightarrow> b = 116"
  "sint b = 117 \<longleftrightarrow> b = 117" "sint b = 123 \<longleftrightarrow> b = 123" "sint b = 125 \<longleftrightarrow> b = 125" "sint b = 91 \<longleftrightarrow> b = 91"
  "sint b = 93 \<longleftrightarrow> b = 93" "sint b = 58 \<longleftrightarrow> b = 58" "sint b = 44 \<longleftrightarrow> b = 44" "sint b = 45 \<longleftrightarrow> b = 45"
  "sint b = 48 \<longleftrightarrow> b = 48" "sint b = 46 \<longleftrightarrow> b = 46" "sint b = 69 \<longleftrightarrow> b = 69" "sint b = 101 \<longleftrightarrow> b = 101"
  "sint b = 32 \<longleftrightarrow> b = 32" "sint b = 9 \<longleftrightarrow> b = 9" "sint b = 10 \<longleftrightarrow> b = 10" "sint b = 13 \<longleftrightarrow> b = 13"
  by (subst sint_byte_eq; simp)+

lemma uint_sint_byte_nonneg: "0 \<le> sint (b::byte) \<Longrightarrow> uint b = sint b"
proof -
  assume a: "0 \<le> sint b"
  have "sint b < 128" using sint_lt [of b] by simp
  then have "b = to_byte (sint b)" using sint_byte_eq [of "sint b" b] a by simp
  then show ?thesis using uint_to_byte [of "sint b"] a \<open>sint b < 128\<close> by simp
qed

lemma sint_control: "32 \<le> uint (b::byte) \<Longrightarrow> \<not> (0 \<le> sint b \<and> sint b \<le> 0x1F)"
proof
  assume a: "32 \<le> uint b" "0 \<le> sint b \<and> sint b \<le> 0x1F"
  then have "uint b = sint b" using uint_sint_byte_nonneg [of b] by simp
  then show False using a by simp
qed

text \<open>Changes that the stream and the saved text do not see.\<close>

lemma reading_token: "reading get bytes L (w, d, f, t) s c bs \<Longrightarrow> reading get bytes L (w, d, f, t') (set_token t' s) c bs"
  by (auto simp: reading_def surroundings_def set_token_def upd_lex_def)

lemma reading_string [simp]: "reading get bytes L e (upd_lex (\<lambda>l. l\<lparr>lx_string := v\<rparr>) s) c bs = reading get bytes L e s c bs"
  by (simp add: reading_def surroundings_def upd_lex_def)

lemma reading_free_string [simp]: "reading get bytes L e (lex_free_string s) c bs = reading get bytes L e s c bs"
  by (simp add: lex_free_string_def)

lemma reading_integer [simp]: "reading get bytes L e (upd_lex (\<lambda>l. l\<lparr>lx_integer := v\<rparr>) s) c bs = reading get bytes L e s c bs"
  by (simp add: reading_def surroundings_def upd_lex_def)

lemma saved_value: "saved_ok L sb c \<Longrightarrow> \<exists>junk. strbuffer_value sb = Some (c @ 0 # junk) \<and> sb_length sb = length c"
proof -
  assume a: "saved_ok L sb c"
  then obtain v where v: "sb_value sb = Some v" "sb_length sb < length v" "v ! sb_length sb = 0" by (auto simp: saved_ok_def elim!: sb_wfE)
  have c: "c = take (sb_length sb) v" using a v by (simp add: saved_ok_def sb_content_def)
  have "v = c @ 0 # drop (Suc (sb_length sb)) v" using c v id_take_nth_drop [of "sb_length sb" v] by simp
  then show ?thesis using v c by (simp add: strbuffer_value_def) (metis length_take less_imp_le min.absorb2)
qed

lemma reading_malloc:
  assumes "reading get bytes L e s c bs"
  shows "w_malloc (sb_length (lx_saved_text (ps_lex s)) + 1) (ps_world s) = (True, ps_world s)"
    "\<exists>junk. strbuffer_value (lx_saved_text (ps_lex s)) = Some (c @ 0 # junk)"
proof -
  have "saved_ok L (lx_saved_text (ps_lex s)) c" using assms by (simp add: reading_def)
  from saved_value [OF this] show "\<exists>junk. strbuffer_value (lx_saved_text (ps_lex s)) = Some (c @ 0 # junk)" by blast
  have "(ps_world s)\<lparr>w_mem := mem_ok\<rparr> = ps_world s" using assms by (cases "ps_world s") (simp add: reading_def)
  then show "w_malloc (sb_length (lx_saved_text (ps_lex s)) + 1) (ps_world s) = (True, ps_world s)"
    using saved_value [OF \<open>saved_ok L _ c\<close>] assms by (auto simp: reading_def w_malloc_def SIZE_MAX_def)
qed

context byte_source
begin

lemma get_save_next:
  assumes "rd L e s c (b # bs)" "lex_get_save s = (x, s')"
  shows "x = sint b \<and> rd L e s' (c @ [b]) bs \<and> just_read b s'"
  using get_save_reading [OF assms(1)] assms(2) by auto

lemma scan_hex_reading:
  assumes "rd L e s (c @ [h]) (hs @ y # rest)" "\<forall>h \<in> set (h # hs). l_isxdigit (sint h)"
    "scan_hex (Suc (length hs)) (sint h) s = (r, s')"
  shows "r = Some (sint y) \<and> rd L e s' (c @ h # hs @ [y]) rest \<and> just_read y s'"
  using assms
proof (induction hs arbitrary: h c s)
  case Nil
  obtain x s1 where g: "lex_get_save s = (x, s1)" by fastforce
  then show ?case using Nil get_save_next [OF _ g, of L e "c @ [h]" y rest] by simp
next
  case (Cons h' hs)
  obtain x s1 where g: "lex_get_save s = (x, s1)" by fastforce
  note n = get_save_next [OF _ g, of L e "c @ [h]" h' "hs @ y # rest"]
  show ?case using Cons.prems n Cons.IH [of s1 "c @ [h]" h'] g by simp
qed

lemma scan_escape_short:
  assumes "rd L e s c (x # y # rest)" "x \<in> {34, 92, 47, 98, 102, 110, 114, 116}" "scan_escape s = (r, s')"
  shows "r = Some (sint y) \<and> rd L e s' (c @ [x, y]) rest \<and> just_read y s'"
proof -
  obtain a s1 where g: "lex_get_save s = (a, s1)" by fastforce
  note n = get_save_next [OF assms(1) g]
  obtain b s2 where g2: "lex_get_save s1 = (b, s2)" by fastforce
  note n2 = get_save_next [OF _ g2, of L e "c @ [x]" y rest]
  have "scan_escape s = (Some b, s2)" using assms(2) n g g2 by (auto simp: scan_escape_def)
  then show ?thesis using assms(3) n n2 by simp
qed

lemma scan_escape_hex:
  assumes "rd L e s c (117 # hs @ y # rest)" "length hs = 4" "\<forall>h \<in> set hs. l_isxdigit (sint h)" "scan_escape s = (r, s')"
  shows "r = Some (sint y) \<and> rd L e s' (c @ 117 # hs @ [y]) rest \<and> just_read y s'"
proof -
  obtain a s1 where g: "lex_get_save s = (a, s1)" by fastforce
  note n = get_save_next [OF assms(1) g]
  obtain h hs' where hs: "hs = h # hs'" "length hs' = 3" using assms(2) by (cases hs) auto
  obtain b s2 where g2: "lex_get_save s1 = (b, s2)" by fastforce
  note n2 = get_save_next [OF _ g2, of L e "c @ [117]" h "hs' @ y # rest"]
  have "scan_escape s = scan_hex 4 b s2" using n g g2 by (auto simp: scan_escape_def)
  then show ?thesis using assms n n2 hs scan_hex_reading [of L e s2 "c @ [117]" h hs' y rest r s'] by (simp add: numeral_eq_Suc)
qed

lemma scan_string_reading:
  assumes "raw_ok body" "body @ [34] = x # ys" "rd L e s (c @ [x]) (ys @ rest)" "just_read x s"
    "scan_string_loop n (sint x) s = Some (r, s')"
  shows "r \<and> rd L e s' (c @ body @ [34]) rest"
  using assms
proof (induction arbitrary: x ys s c n rule: raw_ok.induct)
  case raw_end
  then show ?case by (cases n) auto
next
  case (raw_plain b bs)
  obtain m where m: "n = Suc m" using raw_plain.prems(4) by (cases n) auto
  have x: "x = b" "ys = bs @ [34]" using raw_plain.prems by auto
  obtain y ys' where y: "bs @ [34] = y # ys'" by (cases bs) auto
  obtain a s1 where g: "lex_get_save s = (a, s1)" by fastforce
  note n = get_save_next [OF _ g, of L e "c @ [b]" y "ys' @ rest"]
  note sp = not_special [OF raw_plain.prems(2,3)] sint_control [OF raw_plain.hyps(1)]
  have "scan_string_loop m (sint y) s1 = Some (r, s')"
    using raw_plain.prems raw_plain.hyps sp x y g n m by auto
  then show ?case using raw_plain.IH [of y ys' s1 "c @ [b]" m] raw_plain.prems x y n by simp
next
  case (raw_short z bs)
  obtain m where m: "n = Suc m" using raw_short.prems(4) by (cases n) auto
  have x: "x = 92" "ys = z # bs @ [34]" using raw_short.prems by auto
  obtain y ys' where y: "bs @ [34] = y # ys'" by (cases bs) auto
  obtain a s1 where g: "scan_escape s = (a, s1)" by fastforce
  note n = scan_escape_short [OF _ raw_short.hyps(1) g, of L e "c @ [92]" y "ys' @ rest"]
  have "scan_string_loop m (sint y) s1 = Some (r, s')"
    using raw_short.prems raw_short.hyps x y g n m by (simp add: stream_states)
  then show ?case using raw_short.IH [of y ys' s1 "c @ [92, z]" m] raw_short.prems x y n by simp
next
  case (raw_hex hs bs)
  obtain m where m: "n = Suc m" using raw_hex.prems(4) by (cases n) auto
  have x: "x = 92" "ys = 117 # hs @ bs @ [34]" using raw_hex.prems by auto
  obtain y ys' where y: "bs @ [34] = y # ys'" by (cases bs) auto
  obtain a s1 where g: "scan_escape s = (a, s1)" by fastforce
  note n = scan_escape_hex [OF _ raw_hex.hyps(1,2) g, of L e "c @ [92]" y "ys' @ rest"]
  have ys: "ys @ rest = 117 # hs @ y # ys' @ rest" using x y by simp
  have "scan_string_loop m (sint y) s1 = Some (r, s')"
    using raw_hex.prems raw_hex.hyps x y g n m ys by (simp add: stream_states)
  then show ?case using raw_hex.IH [of y ys' s1 "c @ 92 # 117 # hs" m] raw_hex.prems x y n ys by simp
qed

lemma lex_scan_string_reading:
  assumes "rd L (w, d, f, t) s [34] (escape_string flags str @ 34 # rest)" "utf8_check_string str" "lex_scan_string n s = Some s'"
  shows "\<exists>c. rd L (w, d, f, TOKEN_STRING) s' c rest \<and> lx_string (ps_lex s') = Some str"
proof -
  let ?s0 = "set_token TOKEN_INVALID (upd_lex (\<lambda>l. l\<lparr>lx_string := None\<rparr>) s)" and ?e = "(w, d, f, TOKEN_INVALID)"
  have r0: "rd L ?e ?s0 [34] (escape_string flags str @ 34 # rest)" using assms(1) reading_token [of get bytes L w d f t _ "[34]" _ TOKEN_INVALID] by simp
  obtain x ys where y: "escape_string flags str @ [34] = x # ys" by (cases "escape_string flags str") auto
  have xs: "escape_string flags str @ 34 # rest = x # ys @ rest" using y by (metis append_Cons append_assoc append_Nil)
  obtain a s1 where g: "lex_get_save ?s0 = (a, s1)" by fastforce
  have r1: "a = sint x \<and> rd L ?e s1 ([34] @ [x]) (ys @ rest) \<and> just_read x s1" using get_save_next [OF r0 [unfolded xs] g] .
  obtain ok s2 where lp: "scan_string_loop n a s1 = Some (ok, s2)" using assms(3) g by (auto simp: lex_scan_string_def bind_eq_Some_conv)
  have r2: "ok" "rd L ?e s2 ([34] @ escape_string flags str @ [34]) rest"
    using scan_string_reading [OF raw_escape_string y, of L ?e s1 "[34]" rest n ok s2] r1 lp by auto
  note m = reading_malloc [OF r2(2)]
  obtain junk where junk: "strbuffer_value (lx_saved_text (ps_lex s2)) = Some (([34] @ escape_string flags str @ [34]) @ 0 # junk)" using m(2) by blast
  have w: "s2\<lparr>ps_world := ps_world s2\<rparr> = s2" by simp
  have p: "drop 1 (the (strbuffer_value (lx_saved_text (ps_lex s2)))) = escape_string flags str @ 34 # 0 # junk" using junk by simp
  have "s' = set_token TOKEN_STRING (upd_lex (\<lambda>l. l\<lparr>lx_string := Some str\<rparr>) s2)"
    using assms(3) g lp r2(1) m(1) p decode_escape_string [OF assms(2), of flags "0 # junk" "[]"]
    by (simp add: lex_scan_string_def Let_def w)
  then show ?thesis using reading_token [OF iffD2 [OF reading_string r2(2)], of TOKEN_STRING "Some str"]
    by (auto intro!: exI [of _ "[34] @ escape_string flags str @ [34]"])
qed

end

section \<open>Scanning tokens\<close>

text \<open>The part of \<^verbatim>\<open>lex_scan\<close> after the first character of a token has been saved.\<close>

definition lex_token :: "byte \<Rightarrow> nat \<Rightarrow> int \<Rightarrow> 'd parser \<Rightarrow> 'd parser option" where
  "lex_token point n c s4 =
     (if c = 123 \<or> c = 125 \<or> c = 91 \<or> c = 93 \<or> c = 58 \<or> c = 44 then Some (set_token c s4)
      else if c = 34 then lex_scan_string n s4
      else if l_isdigit c \<or> c = 45 then do { (_, s5) \<leftarrow> lex_scan_number point n c s4; Some s5 }
      else if l_isalpha c then do {
        (c1, s5) \<leftarrow> scan_alpha n s4;
        let s6 = lex_unget_unsave c1 s5;
            saved_text = c_string (the (strbuffer_value (lx_saved_text (ps_lex s6))));
            t = keyword_token saved_text
        in Some (set_token t s6)
      }
      else Some (set_token TOKEN_INVALID (lex_save_cached s4)))"

text \<open>A byte that ends a number or a keyword, as the encoder writes it.\<close>

definition delimiter :: "byte \<Rightarrow> bool" where
  "delimiter b \<longleftrightarrow> b \<in> {44, 93, 125, 10}"

lemma is_digit_sint: "is_digit_byte b \<Longrightarrow> l_isdigit (sint b)"
  using sint_uint_byte [of b] by (auto simp: is_digit_byte_def l_isdigit_def)

lemma delimiter_no_digit: "delimiter b \<Longrightarrow> \<not> l_isdigit (sint b) \<and> \<not> l_isalpha (sint b) \<and> sint b \<noteq> 46 \<and> sint b \<noteq> 69 \<and> sint b \<noteq> 101 \<and> b \<noteq> 0"
  by (auto simp: delimiter_def l_isdigit_def l_isalpha_def l_isupper_def l_islower_def)

lemma fmt_d_no_nul: "0 \<notin> set (fmt_d i)"
  using fmt_u_digits [of 0] by (auto simp: fmt_d_def is_digit_byte_def l_isdigit_def)

context byte_source
begin

lemma reading_clear: "rd L e s c bs \<Longrightarrow> rd L e (upd_lex (\<lambda>l. l\<lparr>lx_saved_text := strbuffer_clear (lx_saved_text l)\<rparr>) s) [] bs"
  using saved_clear by (auto simp: reading_def surroundings_def upd_lex_def)

lemma skip_space_reading:
  assumes "rd L e s c (ws @ b # rest)" "set ws \<subseteq> {32, 10}" "b \<notin> {32, 9, 10, 13}" "skip_space n s = Some (r, s')"
  shows "r = sint b \<and> rd L e s' c rest \<and> just_read b s'"
  using assms
proof (induction ws arbitrary: s n)
  case Nil
  then obtain m where m: "n = Suc m" by (cases n) auto
  obtain s1 where "stream_get s = (sint b, s1)" "rd L e s1 c rest" "just_read b s1" using stream_get_reading Nil.prems(1) by (metis append_Nil)
  then show ?case using Nil m by (auto simp: lex_get_def)
next
  case (Cons x ws)
  then obtain m where m: "n = Suc m" by (cases n) auto
  obtain s1 where s1: "stream_get s = (sint x, s1)" "rd L e s1 c (ws @ b # rest)" using stream_get_reading Cons.prems(1) by (metis append_Cons)
  have "skip_space m s1 = Some (r, s')" using Cons.prems(2,4) m s1(1) by (auto simp: lex_get_def)
  then show ?case using Cons.IH [OF s1(2)] Cons.prems by simp
qed

lemma lex_scan_start:
  assumes "rd L e s c (ws @ b # rest)" "set ws \<subseteq> {32, 10}" "b \<notin> {32, 9, 10, 13}" "lex_scan point n s = Some s'"
  shows "\<exists>s4. rd L e s4 [b] rest \<and> just_read b s4 \<and> lex_token point n (sint b) s4 = Some s'"
proof -
  let ?s1 = "upd_lex (\<lambda>l. l\<lparr>lx_saved_text := strbuffer_clear (lx_saved_text l)\<rparr>) s"
  let ?s2 = "if ps_token ?s1 = TOKEN_STRING then lex_free_string ?s1 else ?s1"
  have r2: "rd L e ?s2 [] (ws @ b # rest)" using reading_clear [OF assms(1)] by simp
  obtain x s3 where s3: "skip_space n ?s2 = Some (x, s3)" using assms(4) by (auto simp: lex_scan_def Let_def bind_eq_Some_conv)
  have r3: "x = sint b" "rd L e s3 [] rest" "just_read b s3" using skip_space_reading [OF r2 assms(2,3) s3] by auto
  have "length ([]::byte list) + length rest < L" using assms(1) by (simp add: reading_def)
  note r4 = lex_save_reading [OF r3(2) this, of b]
  have "lex_token point n (sint b) (lex_save (sint b) s3) = Some s'"
    using assms(4) s3 r3(1) not_special [OF r3(2,3)] by (simp add: lex_scan_def lex_token_def Let_def)
  then show ?thesis using r3 r4 by (intro exI [of _ "lex_save (sint b) s3"]) simp
qed

lemma lex_scan_punct:
  assumes "rd L (w, d, f, t) s c (ws @ b # rest)" "set ws \<subseteq> {32, 10}" "b \<in> {123, 125, 91, 93, 58, 44}" "lex_scan point n s = Some s'"
  shows "\<exists>c. rd L (w, d, f, uint b) s' c rest"
proof -
  have "b \<notin> {32, 9, 10, 13}" using assms(3) by auto
  from lex_scan_start [OF assms(1,2) this assms(4)] obtain s4 where s4: "rd L (w, d, f, t) s4 [b] rest" "lex_token point n (sint b) s4 = Some s'" by blast
  have "sint b = uint b" using assms(3) by (intro sint_uint_byte) auto
  moreover have "s' = set_token (sint b) s4" using s4(2) assms(3) by (auto simp: lex_token_def)
  ultimately show ?thesis using reading_token [OF s4(1), of "uint b"] by auto
qed

lemma lex_scan_string_token:
  assumes "rd L (w, d, f, t) s c (ws @ string_text flags str @ rest)" "set ws \<subseteq> {32, 10}" "utf8_check_string str" "lex_scan point n s = Some s'"
  shows "\<exists>c. rd L (w, d, f, TOKEN_STRING) s' c rest \<and> lx_string (ps_lex s') = Some str"
proof -
  have "rd L (w, d, f, t) s c (ws @ 34 # escape_string flags str @ 34 # rest)" using assms(1) by (simp add: string_text_def)
  from lex_scan_start [OF this assms(2) _ assms(4)] obtain s4 where
    s4: "rd L (w, d, f, t) s4 [34] (escape_string flags str @ 34 # rest)" "lex_token point n (sint (34::byte)) s4 = Some s'" by auto
  have "lex_scan_string n s4 = Some s'" using s4(2) by (simp add: lex_token_def)
  then show ?thesis using lex_scan_string_reading [OF s4(1) assms(3)] by blast
qed

lemma scan_while_reading:
  assumes "rd L e s c (ds @ b # rest)" "\<forall>d \<in> set ds. P (sint d)" "\<not> P (sint b)" "scan_while P n s = Some (r, s')"
  shows "r = sint b \<and> rd L e s' (c @ ds @ [b]) rest \<and> just_read b s'"
  using assms
proof (induction ds arbitrary: s c n)
  case Nil
  then obtain m where m: "n = Suc m" by (cases n) auto
  obtain x s1 where g: "lex_get_save s = (x, s1)" by fastforce
  then show ?case using Nil m get_save_next [OF _ g, of L e c b rest] by simp
next
  case (Cons y ds)
  then obtain m where m: "n = Suc m" by (cases n) auto
  obtain x s1 where g: "lex_get_save s = (x, s1)" by fastforce
  note g1 = get_save_next [OF _ g, of L e c y "ds @ b # rest"]
  show ?case using Cons.prems m g g1 Cons.IH [of s1 "c @ [y]" m] by simp
qed

lemma lex_scan_keyword:
  assumes "rd L (w, d, f, t) s c (ws @ kw @ b # rest)" "set ws \<subseteq> {32, 10}" "kw \<in> {cstr ''true'', cstr ''false'', cstr ''null''}" "delimiter b"
    "lex_scan point n s = Some s'"
  shows "\<exists>c. rd L (w, d, f, keyword_token kw) s' c (b # rest)"
proof -
  obtain x xs where kw: "kw = x # xs" "\<forall>y \<in> set kw. l_isalpha (sint y) \<and> y \<noteq> 0" "x \<notin> {32, 9, 10, 13}"
    using assms(3) by (auto simp: l_isalpha_def l_islower_def)
  from lex_scan_start [of L "(w, d, f, t)" s c ws x "xs @ b # rest", OF _ assms(2) kw(3) assms(5)] assms(1) kw(1) obtain s4 where
    s4: "rd L (w, d, f, t) s4 [x] (xs @ b # rest)" "lex_token point n (sint x) s4 = Some s'" by auto
  have x: "l_isalpha (sint x)" using kw by simp
  then have "\<not> l_isdigit (sint x)" "sint x \<noteq> 123" "sint x \<noteq> 125" "sint x \<noteq> 91" "sint x \<noteq> 93" "sint x \<noteq> 58" "sint x \<noteq> 44" "sint x \<noteq> 34" "sint x \<noteq> 45"
    by (auto simp: l_isalpha_def l_islower_def l_isupper_def l_isdigit_def)
  then obtain r s5 where s5: "scan_while l_isalpha n s4 = Some (r, s5)"
    and s': "s' = set_token (keyword_token (c_string (the (strbuffer_value (lx_saved_text (ps_lex (lex_unget_unsave r s5))))))) (lex_unget_unsave r s5)"
    using s4(2) x by (auto simp: lex_token_def scan_alpha_while Let_def bind_eq_Some_conv)
  have r5: "r = sint b" "rd L (w, d, f, t) s5 (kw @ [b]) rest" "just_read b s5"
    using scan_while_reading [OF s4(1) _ _ s5] kw delimiter_no_digit [OF assms(4)] by auto
  have r6: "rd L (w, d, f, t) (lex_unget_unsave r s5) kw (b # rest)"
    using unget_unsave_reading [OF r5(2,3)] delimiter_no_digit [OF assms(4)] r5(1) by simp
  have "0 \<notin> set kw" using kw by auto
  then have "c_string (the (strbuffer_value (lx_saved_text (ps_lex (lex_unget_unsave r s5))))) = kw" using reading_malloc(2) [OF r6] by auto
  then show ?thesis using reading_token [OF r6] s' by auto
qed

lemma scan_int_part_reading:
  assumes "rd L e s [x] (xs @ b # rest)" "fmt_d i = x # xs" "delimiter b" "scan_int_part n (sint x) s = Some (r, s')"
  shows "r = Some (sint b) \<and> rd L e s' (fmt_d i @ [b]) rest \<and> just_read b s'"
proof -
  obtain k where k: "i < 0 \<and> fmt_d i = 45 # fmt_u k \<and> 0 < k \<or> 0 \<le> i \<and> fmt_d i = fmt_u k" 
  proof (cases "i < 0")
    case True then show thesis using that [of "nat (- i)"] by (simp add: fmt_d_def)
  next
    case False then show thesis using that [of "nat i"] by (simp add: fmt_d_def)
  qed
  obtain pre y ys s1 where y: "fmt_d i = pre @ y # ys" "fmt_u k = y # ys" "rd L e s1 (pre @ [y]) (ys @ b # rest)"
    "scan_int_part n (sint x) s = scan_int_part n (sint y) s1"
  proof (cases "i < 0")
    case True
    then have x: "x = 45" "xs = fmt_u k" using k assms(2) by auto
    obtain y ys where y: "fmt_u k = y # ys" by (cases "fmt_u k") auto
    obtain z s1 where g: "lex_get_save s = (z, s1)" by fastforce
    note g1 = get_save_next [OF _ g, of L e "[x]" y "ys @ b # rest"]
    have "y \<noteq> 45" using fmt_u_digits [of y k] y by (auto simp: is_digit_byte_def l_isdigit_def)
    then have "scan_int_part n (sint x) s = scan_int_part n (sint y) s1" using x g g1 assms(1) y by (simp add: scan_int_part_def)
    then show thesis using that [of "[45]" y ys s1] y x g1 assms(1,2) by simp
  next
    case False
    then show thesis using that [of "[]" x xs s] k assms by auto
  qed
  have dig: "\<forall>d \<in> set (y # ys). l_isdigit (sint d)" using fmt_u_digits [of _ k] is_digit_sint y(2) by auto
  then have y45: "sint y \<noteq> 45" by (auto simp: l_isdigit_def)
  note nd = delimiter_no_digit [OF assms(3)]
  show ?thesis
  proof (cases "y = 48")
    case True
    then have "k = 0" using fmt_u_hd [of k] y(2) by auto
    then have ys: "ys = []" using y(2) by simp
    obtain z s2 where g: "lex_get_save s1 = (z, s2)" by fastforce
    have g2: "z = sint b \<and> rd L e s2 ((pre @ [y]) @ [b]) rest \<and> just_read b s2" using get_save_next [OF _ g, of L e "pre @ [y]" b rest] y(3) ys by simp
    have "scan_int_part n (sint y) s1 = Some (Some (sint b), s2)" using True g g2 nd by (simp add: scan_int_part_def)
    then show ?thesis using assms(4) y ys g2 by simp
  next
    case False
    then have "sint y \<noteq> 48" by simp
    have "scan_int_part n (sint y) s1 = Some (r, s')" using assms(4) y(4) by simp
    with \<open>sint y \<noteq> 48\<close> obtain z s2 where s2: "scan_while l_isdigit n s1 = Some (z, s2)" "r = Some z" "s' = s2"
      using y45 dig by (auto simp: scan_int_part_def scan_digits_while bind_eq_Some_conv)
    then show ?thesis using scan_while_reading [OF y(3) _ _ s2(1)] dig nd y(1) by simp
  qed
qed

lemma lex_scan_integer:
  assumes "rd L (w, d, f, t) s c (ws @ fmt_d i @ b # rest)" "set ws \<subseteq> {32, 10}" "delimiter b" "LLONG_MIN \<le> i" "i \<le> LLONG_MAX"
    "\<not> flag_set f JSON_DECODE_INT_AS_REAL" "lex_scan point n s = Some s'"
  shows "\<exists>c. rd L (w, d, f, TOKEN_INTEGER) s' c (b # rest) \<and> lx_integer (ps_lex s') = i"
proof -
  obtain x xs where x: "fmt_d i = x # xs" "x = 45 \<or> l_isdigit (sint x)" "x \<notin> {32, 9, 10, 13}"
  proof (cases "i < 0")
    case True
    then show thesis using that [of 45 "fmt_u (nat (- i))"] by (simp add: fmt_d_def)
  next
    case False
    obtain y ys where y: "fmt_u (nat i) = y # ys" by (cases "fmt_u (nat i)") auto
    then have "l_isdigit (sint y)" using fmt_u_digits [of y "nat i"] is_digit_sint by simp
    moreover from this have "y \<notin> {32, 9, 10, 13}" by (auto simp: l_isdigit_def)
    ultimately show thesis using that [of y ys] y False by (simp add: fmt_d_def)
  qed
  let ?e = "(w, d, f, TOKEN_INVALID)"
  from lex_scan_start [of L "(w, d, f, t)" s c ws x "xs @ b # rest", OF _ assms(2) x(3) assms(7)] assms(1) x(1) obtain s4 where
    s4: "rd L (w, d, f, t) s4 [x] (xs @ b # rest)" "lex_token point n (sint x) s4 = Some s'" by auto
  have "sint x \<noteq> 123" "sint x \<noteq> 125" "sint x \<noteq> 91" "sint x \<noteq> 93" "sint x \<noteq> 58" "sint x \<noteq> 44" "sint x \<noteq> 34" using x(2) by (auto simp: l_isdigit_def)
  then obtain ok where num: "lex_scan_number point n (sint x) s4 = Some (ok, s')" using s4(2) x(2) by (auto simp: lex_token_def bind_eq_Some_conv)
  then obtain r s5 where ip: "scan_int_part n (sint x) (set_token TOKEN_INVALID s4) = Some (r, s5)" by (auto simp: lex_scan_number_def bind_eq_Some_conv)
  have r5: "r = Some (sint b)" "rd L ?e s5 (fmt_d i @ [b]) rest" "just_read b s5"
    using scan_int_part_reading [OF reading_token [OF s4(1)] x(1) assms(3) ip] by auto
  note nd = delimiter_no_digit [OF assms(3)]
  have "lx_flags (ps_lex s5) = f" using r5(2) by (simp add: reading_def surroundings_def)
  then have fin: "finish_integer (sint b) s5 = (ok, s')" using num ip r5(1) nd assms(6) by (simp add: lex_scan_number_def)
  have r6: "rd L ?e (lex_unget_unsave (sint b) s5) (fmt_d i) (b # rest)" using unget_unsave_reading [OF r5(2,3)] nd by simp
  have "c_string (the (strbuffer_value (lx_saved_text (ps_lex (lex_unget_unsave (sint b) s5))))) = fmt_d i"
    using reading_malloc(2) [OF r6] fmt_d_no_nul by auto
  then have "s' = set_token TOKEN_INTEGER (upd_lex (\<lambda>l. l\<lparr>lx_integer := i\<rparr>) (lex_unget_unsave (sint b) s5))"
    using fin strtoll_fmt_d [OF assms(4,5), of "[]"] by (simp add: finish_integer_def Let_def)
  then show ?thesis using reading_token [OF iffD2 [OF reading_integer r6], of TOKEN_INTEGER i] by (auto intro!: exI [of _ "fmt_d i"]) (simp add: set_token_def upd_lex_def)
qed

end

end
