(* ===== verification/Json_Roundtrip.thy ===== *)
theory Json_Roundtrip
  imports Json_Scan_Text
begin

text \<open>
  The decoder reads back what the encoder wrote.  The heap side of the argument describes a value by the cells
  it rests on (\<^verbatim>\<open>built\<close>), so that growing a container leaves the values read before it intact.
\<close>

section \<open>The heap the decoder builds\<close>

text \<open>The tree \<^term>\<open>v\<close> at \<^term>\<open>p\<close> rests on the cells of \<^term>\<open>A\<close> alone.\<close>

definition built :: "ptr set \<Rightarrow> world \<Rightarrow> jval \<Rightarrow> ptr \<Rightarrow> bool" where
  "built A w v p \<longleftrightarrow> (\<forall>w'. (\<forall>q \<in> A. w_heap w' q = w_heap w q) \<and> (w_seed w \<noteq> 0 \<longrightarrow> w_seed w' = w_seed w) \<longrightarrow> views w' v p)"

lemma built_views: "built A w v p \<Longrightarrow> views w v p"
  by (simp add: built_def)

lemma built_agree:
  "built A w v p \<Longrightarrow> A \<subseteq> B \<Longrightarrow> (\<And>q. q \<in> A \<Longrightarrow> w_heap w' q = w_heap w q) \<Longrightarrow> (w_seed w \<noteq> 0 \<Longrightarrow> w_seed w' = w_seed w) \<Longrightarrow> built B w' v p"
  unfolding built_def by (metis subsetD)

text \<open>The heap has grown by new cells; \<^term>\<open>Some p\<close> is a cell that has changed.\<close>

definition grown :: "ptr option \<Rightarrow> world \<Rightarrow> world \<Rightarrow> bool" where
  "grown x w w' \<longleftrightarrow> (\<forall>q < w_brk w. Some q \<noteq> x \<longrightarrow> w_heap w' q = w_heap w q) \<and> w_brk w \<le> w_brk w' \<and>
     (w_seed w \<noteq> 0 \<longrightarrow> w_seed w' = w_seed w) \<and> w_mem w' = mem_ok"

lemma grown_trans: "grown x w w1 \<Longrightarrow> grown x w1 w2 \<Longrightarrow> grown x w w2"
  by (auto simp: grown_def)

lemma grown_weak: "grown None w w' \<Longrightarrow> grown x w w'"
  by (auto simp: grown_def)

definition cells :: "ptr \<Rightarrow> world \<Rightarrow> ptr set" where
  "cells b w = statics \<union> {b..<w_brk w}"

definition statics_below :: "world \<Rightarrow> bool" where
  "statics_below w \<longleftrightarrow> statics_ok w \<and> (\<forall>q \<in> statics. q < w_brk w)"

lemma grown_statics: "grown x w w' \<Longrightarrow> statics_below w \<Longrightarrow> (\<forall>p. x = Some p \<longrightarrow> p \<notin> statics) \<Longrightarrow> statics_below w'"
  unfolding grown_def statics_below_def statics_ok_def statics_def
  by (metis insertCI less_le_trans option.inject)

lemma built_grown:
  assumes "built (cells b w) w v p" "grown x w w'" "statics_below w" "\<forall>p. x = Some p \<longrightarrow> p < b \<and> p \<notin> statics"
  shows "built (cells b w') w' v p"
  using assms(1)
proof (rule built_agree)
  show "cells b w \<subseteq> cells b w'" using assms(2) by (auto simp: cells_def grown_def)
  fix q assume "q \<in> cells b w"
  then have "q < w_brk w" "Some q \<noteq> x" using assms(3,4) by (auto simp: cells_def statics_below_def)
  then show "w_heap w' q = w_heap w q" using assms(2) by (simp add: grown_def)
qed (use assms(2) in \<open>simp add: grown_def\<close>)

lemma built_older: "built (cells b w) w v p \<Longrightarrow> b' \<le> b \<Longrightarrow> built (cells b' w) w v p"
  by (erule built_agree) (auto simp: cells_def)

text \<open>A new cell.\<close>

definition makes :: "json_data \<Rightarrow> ptr option \<Rightarrow> world \<Rightarrow> world \<Rightarrow> bool" where
  "makes d r w w' \<longleftrightarrow> r = Some (w_brk w) \<and> w_heap w' = (w_heap w)(w_brk w \<mapsto> \<lparr>j_refcount = 1, j_data = d\<rparr>) \<and>
     w_brk w' = w_brk w + 1 \<and> (w_seed w \<noteq> 0 \<longrightarrow> w_seed w' = w_seed w) \<and> w_mem w' = mem_ok"

lemma makes_grown: "makes d r w w' \<Longrightarrow> grown None w w'"
  by (auto simp: makes_def grown_def)

lemma json_integer_makes: "w_mem w = mem_ok \<Longrightarrow> json_integer i w = (r, w') \<Longrightarrow> makes (JInteger i) r w w'"
  by (auto simp: json_integer_def w_malloc_def json_init_def set_cell_def makes_def SIZEOF_JSON_INTEGER_def split: prod.splits)

lemma own_string_makes: "w_mem w = mem_ok \<Longrightarrow> jsonp_stringn_nocheck_own (Some t) (length t) w = (r, w') \<Longrightarrow> makes (JString t) r w w'"
  by (auto simp: jsonp_stringn_nocheck_own_def string_create_def w_malloc_def json_init_def set_cell_def makes_def SIZEOF_JSON_STRING_def split: prod.splits)

lemma json_array_makes: "w_mem w = mem_ok \<Longrightarrow> json_array w = (r, w') \<Longrightarrow> makes (JArray \<lparr>a_size = 8, a_entries = 0, a_table = replicate 8 0\<rparr>) r w w'"
  by (auto simp: json_array_def w_malloc_def json_init_def set_cell_def makes_def SIZEOF_JSON_ARRAY_def SIZEOF_POINTER_def Let_def split: prod.splits)

lemma json_object_makes:
  assumes "w_mem w = mem_ok" "json_object w = (r, w')"
  shows "\<exists>h. makes (JObject h) r w w' \<and> ht_rel (w_seed w') h [] \<and> w_seed w' \<noteq> 0"
proof -
  let ?seed = "if w_seed w = 0 then json_object_seed (w_env w) 0 (w_seed w) else w_seed w"
  obtain h :: "ptr hashtable" where h: "hashtable_init mem_ok = (Some h, mem_ok)" "ht_rel ?seed h []" using hashtable_init_ok by blast
  then have "makes (JObject h) r w w' \<and> w_seed w' = ?seed" using assms
    by (auto simp: json_object_def w_malloc_def json_init_def set_cell_def makes_def SIZEOF_JSON_OBJECT_def Let_def split: prod.splits)
  then show ?thesis using h(2) by (intro exI [of _ h]) auto
qed

text \<open>A container under construction at \<^term>\<open>p\<close>, with what it holds so far.\<close>

definition array_of :: "world \<Rightarrow> ptr \<Rightarrow> jval list \<Rightarrow> bool" where
  "array_of w p vs \<longleftrightarrow> (\<exists>rc a. w_heap w p = Some \<lparr>j_refcount = rc, j_data = JArray a\<rparr> \<and> a_entries a \<le> a_size a \<and>
     length (a_table a) = a_size a \<and> list_all2 (built (cells (Suc p) w) w) vs (take (a_entries a) (a_table a)))"

definition object_of :: "world \<Rightarrow> ptr \<Rightarrow> (byte list \<times> jval) list \<Rightarrow> bool" where
  "object_of w p kvs \<longleftrightarrow> (\<exists>rc h al. w_heap w p = Some \<lparr>j_refcount = rc, j_data = JObject h\<rparr> \<and> w_seed w \<noteq> 0 \<and>
     ht_rel (w_seed w) h al \<and> list_all2 (\<lambda>(k, v) (k', q). k = k' \<and> built (cells (Suc p) w) w v q) kvs al)"

lemma array_of_grown:
  assumes "array_of w p vs" "grown None w w'" "p < w_brk w" "statics_below w"
  shows "array_of w' p vs"
proof -
  have same: "w_heap w' p = w_heap w p" using assms by (simp add: grown_def)
  obtain rc a where h: "w_heap w p = Some \<lparr>j_refcount = rc, j_data = JArray a\<rparr>" "a_entries a \<le> a_size a" "length (a_table a) = a_size a"
    "list_all2 (built (cells (Suc p) w) w) vs (take (a_entries a) (a_table a))" using assms(1) by (auto simp: array_of_def)
  have "list_all2 (built (cells (Suc p) w') w') vs (take (a_entries a) (a_table a))"
    using h(4) by (rule list_all2_mono) (use built_grown [OF _ assms(2,4)] in auto)
  then show ?thesis unfolding array_of_def using h same by auto
qed

lemma object_of_grown:
  assumes "object_of w p kvs" "grown None w w'" "p < w_brk w" "statics_below w"
  shows "object_of w' p kvs"
proof -
  have same: "w_heap w' p = w_heap w p" "w_seed w \<noteq> 0 \<longrightarrow> w_seed w' = w_seed w" using assms by (simp_all add: grown_def)
  obtain rc h al where h: "w_heap w p = Some \<lparr>j_refcount = rc, j_data = JObject h\<rparr>" "w_seed w \<noteq> 0" "ht_rel (w_seed w) h al"
    "list_all2 (\<lambda>(k, v) (k', q). k = k' \<and> built (cells (Suc p) w) w v q) kvs al" using assms(1) by (auto simp: object_of_def)
  have "list_all2 (\<lambda>(k, v) (k', q). k = k' \<and> built (cells (Suc p) w') w' v q) kvs al"
    using h(4) by (rule list_all2_mono) (use built_grown [OF _ assms(2,4)] in auto)
  then show ?thesis unfolding object_of_def using h same by auto
qed

lemma new_array_of: "makes (JArray \<lparr>a_size = 8, a_entries = 0, a_table = replicate 8 0\<rparr>) r w w' \<Longrightarrow> array_of w' (w_brk w) []"
  by (simp add: makes_def array_of_def)

lemma new_object_of: "makes (JObject h) r w w' \<Longrightarrow> ht_rel (w_seed w') h [] \<Longrightarrow> w_seed w' \<noteq> 0 \<Longrightarrow> object_of w' (w_brk w) []"
  by (auto simp: makes_def object_of_def)

lemma array_of_built: "array_of w p vs \<Longrightarrow> p < w_brk w \<Longrightarrow> built (cells p w) w (VArray vs) p"
proof -
  assume a: "array_of w p vs" and p: "p < w_brk w"
  then obtain rc a where h: "w_heap w p = Some \<lparr>j_refcount = rc, j_data = JArray a\<rparr>" "a_entries a \<le> length (a_table a)"
    "list_all2 (built (cells (Suc p) w) w) vs (take (a_entries a) (a_table a))" by (auto simp: array_of_def)
  show ?thesis unfolding built_def
  proof (intro allI impI)
    fix w' :: world assume w': "(\<forall>q \<in> cells p w. w_heap w' q = w_heap w q) \<and> (w_seed w \<noteq> 0 \<longrightarrow> w_seed w' = w_seed w)"
    have "\<And>v q. built (cells (Suc p) w) w v q \<Longrightarrow> views w' v q" unfolding built_def using w' by (auto simp: cells_def)
    then have "list_all2 (views w') vs (take (a_entries a) (a_table a))" using h(3) list_all2_mono by metis
    moreover have "w_heap w' p = w_heap w p" using w' p by (auto simp: cells_def)
    ultimately show "views w' (VArray vs) p" using h by (simp add: data_at_def)
  qed
qed

lemma object_of_built: "object_of w p kvs \<Longrightarrow> p < w_brk w \<Longrightarrow> built (cells p w) w (VObject kvs) p"
proof -
  assume a: "object_of w p kvs" and p: "p < w_brk w"
  then obtain rc h al where h: "w_heap w p = Some \<lparr>j_refcount = rc, j_data = JObject h\<rparr>" "w_seed w \<noteq> 0" "ht_rel (w_seed w) h al"
    "list_all2 (\<lambda>(k, v) (k', q). k = k' \<and> built (cells (Suc p) w) w v q) kvs al" by (auto simp: object_of_def)
  show ?thesis unfolding built_def
  proof (intro allI impI)
    fix w' :: world assume w': "(\<forall>q \<in> cells p w. w_heap w' q = w_heap w q) \<and> (w_seed w \<noteq> 0 \<longrightarrow> w_seed w' = w_seed w)"
    have "\<And>v q. built (cells (Suc p) w) w v q \<Longrightarrow> views w' v q" unfolding built_def using w' by (auto simp: cells_def)
    then have "list_all2 (\<lambda>(k, v) (k', q). k = k' \<and> views w' v q) kvs al" using h(4) by (elim list_all2_mono) auto
    moreover have "w_heap w' p = w_heap w p" using w' p by (auto simp: cells_def)
    ultimately show "views w' (VObject kvs) p" using h w' by (auto simp: data_at_def)
  qed
qed

text \<open>Adding to the container.\<close>

lemma set_data_grown:
  assumes "w_heap w p = Some c" "w_mem w = mem_ok"
  shows "grown (Some p) w (set_data p d w)" "w_heap (set_data p d w) p = Some (c\<lparr>j_data := d\<rparr>)"
    "w_brk (set_data p d w) = w_brk w" "w_seed (set_data p d w) = w_seed w"
  using assms by (auto simp: grown_def set_data_def set_cell_def)

lemma append_grown:
  assumes "array_of w p vs" "built (cells (Suc p) w) w v q" "q \<noteq> p" "p < w_brk w" "p \<notin> statics" "statics_below w" "w_mem w = mem_ok"
    "json_array_append_new (Some p) (Some q) w = (x, w')"
  shows "x = 0 \<and> array_of w' p (vs @ [v]) \<and> grown (Some p) w w' \<and> w_brk w' = w_brk w"
proof -
  obtain rc a where h: "w_heap w p = Some \<lparr>j_refcount = rc, j_data = JArray a\<rparr>" "a_entries a \<le> a_size a" "length (a_table a) = a_size a"
    "list_all2 (built (cells (Suc p) w) w) vs (take (a_entries a) (a_table a))" using assms(1) by (auto simp: array_of_def)
  have "\<exists>t a1. json_array_grow a 1 True w = (Some t, a1, w)"
    using assms(7) h(2) mem_ok_same by (auto simp: json_array_grow_def w_malloc_def Let_def SIZEOF_POINTER_def)
  then obtain t a1 where g: "json_array_grow a 1 True w = (Some t, a1, w)" by blast
  note G = json_array_grow_ok [OF g h(2,3)]
  let ?d = "JArray (a1\<lparr>a_table := (a_table a1)[a_entries a1 := q], a_entries := a_entries a1 + 1\<rparr>)"
  have w': "x = 0" "w' = set_data p ?d w" using assms(3,8) h(1) g by (auto simp: json_array_append_new_def array_at_def data_at_def)
  note S = set_data_grown [OF h(1) assms(7), of ?d, folded w'(2)]
  have B: "built (cells (Suc p) w) w v' q' \<Longrightarrow> built (cells (Suc p) w') w' v' q'" for v' q'
    using built_grown [OF _ S(1) assms(6)] assms(5) by simp
  have "take (Suc (a_entries a)) ((a_table a1)[a_entries a := q]) = take (a_entries a) (a_table a) @ [q]"
    using G by (simp add: take_Suc_conv_app_nth)
  moreover have "list_all2 (built (cells (Suc p) w') w') (vs @ [v]) (take (a_entries a) (a_table a) @ [q])"
    using h(4) assms(2) B by (intro list_all2_appendI) (auto elim: list_all2_mono)
  ultimately have "array_of w' p (vs @ [v])" using S(2) G by (simp add: array_of_def)
  then show ?thesis using S w' by simp
qed

lemma set_new_grown:
  assumes "object_of w p kvs" "built (cells (Suc p) w) w v q" "q \<noteq> p" "p < w_brk w" "p \<notin> statics" "statics_below w" "w_mem w = mem_ok"
    "k \<notin> fst ` set kvs" "length kvs < 2 ^ 31" "length k < 2 ^ 62" "json_object_set_new_nocheck (Some p) (Some k) (Some q) w = (x, w')"
  shows "x = 0 \<and> object_of w' p (kvs @ [(k, v)]) \<and> grown (Some p) w w' \<and> w_brk w' = w_brk w"
proof -
  obtain rc h al where h: "w_heap w p = Some \<lparr>j_refcount = rc, j_data = JObject h\<rparr>" "w_seed w \<noteq> 0" "ht_rel (w_seed w) h al"
    "list_all2 (\<lambda>(k, v) (k', q). k = k' \<and> built (cells (Suc p) w) w v q) kvs al" using assms(1) by (auto simp: object_of_def)
  have len: "length al < 2 ^ 31" using h(4) assms(9) list_all2_lengthD by fastforce
  have "map fst kvs = map fst al" using h(4) by (induction rule: list_all2_induct) auto
  then have k: "k \<notin> fst ` set al" using assms(8) by (metis image_set)
  obtain h' w1 where st: "hashtable_set decref_ptr (w_seed w) k q h mem_ok w = (0, h', mem_ok, w1)"
    using hashtable_set_mem_ok [OF h(3) len assms(10), of decref_ptr q w] by auto
  note R = hashtable_set_rel(1,2) [OF h(3) len st, OF refl]
  have "map_of al k = None" using k by (simp add: map_of_eq_None_iff)
  then have w1: "w1 = w" "AList.update k q al = al @ [(k, q)]" using R(2) k update_new by auto
  have w': "x = 0" "w' = set_data p (JObject h') w" using assms(3,7,11) h(1) st w1(1)
    by (auto simp: json_object_set_new_nocheck_def object_table_def data_at_def Let_def mem_ok_same [OF assms(7)])
  note S = set_data_grown [OF h(1) assms(7), of "JObject h'", folded w'(2)]
  have B: "built (cells (Suc p) w) w v' q' \<Longrightarrow> built (cells (Suc p) w') w' v' q'" for v' q'
    using built_grown [OF _ S(1) assms(6)] assms(5) by simp
  have "list_all2 (\<lambda>(k, v) (k', q). k = k' \<and> built (cells (Suc p) w') w' v q) (kvs @ [(k, v)]) (al @ [(k, q)])"
    using h(4) assms(2) B by (intro list_all2_appendI) (auto elim: list_all2_mono)
  then have "object_of w' p (kvs @ [(k, v)])" using S(2,4) R(1) w1(2) h(2) by (auto simp: object_of_def)
  then show ?thesis using S w' by simp
qed

section \<open>Reading a value back\<close>

text \<open>The values the decoder can give back, and what it makes of them when the keys are sorted.\<close>

fun readable :: "nat \<Rightarrow> jval \<Rightarrow> bool" where
  "readable lf (VInteger i) \<longleftrightarrow> LLONG_MIN \<le> i \<and> i \<le> LLONG_MAX"
| "readable lf (VReal x) \<longleftrightarrow> False"
| "readable lf (VString s) \<longleftrightarrow> utf8_check_string s \<and> (flag_set lf JSON_ALLOW_NUL \<or> 0 \<notin> set s)"
| "readable lf (VArray vs) \<longleftrightarrow> (\<forall>v \<in> set vs. readable lf v)"
| "readable lf (VObject kvs) \<longleftrightarrow> distinct (map fst kvs) \<and> length kvs < 2 ^ 31 \<and>
     (\<forall>(k, v) \<in> set kvs. utf8_check_string k \<and> 0 \<notin> set k \<and> length k < 2 ^ 62 \<and> readable lf v)"
| "readable lf _ \<longleftrightarrow> True"

fun reordered :: "nat \<Rightarrow> jval \<Rightarrow> jval" where
  "reordered flags (VArray vs) = VArray (map (reordered flags) vs)"
| "reordered flags (VObject kvs) = VObject (in_order flags (map (\<lambda>(k, v). (k, reordered flags v)) kvs))"
| "reordered flags v = v"

fun height :: "jval \<Rightarrow> nat" where
  "height (VArray vs) = Suc (foldr max (map height vs) 0)"
| "height (VObject kvs) = Suc (foldr max (map (\<lambda>(k, v). height v) kvs) 0)"
| "height _ = 1"

lemma foldr_max: "x \<in> set xs \<Longrightarrow> x \<le> foldr max xs (0::nat)"
  by (induction xs) auto

lemma height_array: "v \<in> set vs \<Longrightarrow> height v < height (VArray vs)"
  using foldr_max [of "height v" "map height vs"] by simp

lemma height_object: "(k, v) \<in> set kvs \<Longrightarrow> height v < height (VObject kvs)"
  using foldr_max [of "height v" "map (\<lambda>(k, v). height v) kvs"] by force

lemma height_pos: "0 < height v"
  by (cases v) auto

definition container :: "jval \<Rightarrow> bool" where
  "container v \<longleftrightarrow> (\<exists>vs. v = VArray vs) \<or> (\<exists>kvs. v = VObject kvs)"

definition ended :: "jval \<Rightarrow> byte list \<Rightarrow> bool" where
  "ended v rest \<longleftrightarrow> container v \<or> (\<exists>b r. rest = b # r \<and> delimiter b)"

text \<open>The token a value begins with.\<close>

fun first_token :: "jval \<Rightarrow> int" where
  "first_token VNull = TOKEN_NULL"
| "first_token VTrue = TOKEN_TRUE"
| "first_token VFalse = TOKEN_FALSE"
| "first_token (VInteger i) = TOKEN_INTEGER"
| "first_token (VReal x) = TOKEN_REAL"
| "first_token (VString s) = TOKEN_STRING"
| "first_token (VArray vs) = 91"
| "first_token (VObject kvs) = 123"

fun token_value :: "'d parser \<Rightarrow> jval \<Rightarrow> bool" where
  "token_value s (VInteger i) \<longleftrightarrow> lx_integer (ps_lex s) = i"
| "token_value s (VString t) \<longleftrightarrow> lx_string (ps_lex s) = Some t"
| "token_value s _ \<longleftrightarrow> True"

fun text_rest :: "byte \<Rightarrow> nat \<Rightarrow> nat \<Rightarrow> jval \<Rightarrow> byte list" where
  "text_rest point flags depth (VArray vs) = tl (value_text point flags depth (VArray vs))"
| "text_rest point flags depth (VObject kvs) = tl (value_text point flags depth (VObject kvs))"
| "text_rest point flags depth _ = []"

lemma keyword_tokens: "keyword_token (cstr ''null'') = TOKEN_NULL" "keyword_token (cstr ''true'') = TOKEN_TRUE" "keyword_token (cstr ''false'') = TOKEN_FALSE"
  by (simp_all add: keyword_token_def)

lemma bracket_hd: "\<exists>r. bracket_text flags depth op cl ts = op # r"
  by (simp add: bracket_text_def)

context byte_source
begin

lemma value_token:
  assumes "rd L (w, d, f, t) s c (ws @ value_text point flags depth v @ rest)" "set ws \<subseteq> {32, 10}" "readable f v" "ended v rest"
    "\<not> flag_set f JSON_DECODE_INT_AS_REAL" "lex_scan point n s = Some s'"
  shows "\<exists>c. rd L (w, d, f, first_token v) s' c (text_rest point flags depth v @ rest) \<and> token_value s' v"
proof (cases v)
  case VNull
  then obtain b r where "rest = b # r" "delimiter b" using assms(4) by (auto simp: ended_def container_def)
  then show ?thesis using VNull lex_scan_keyword [of L w d f t s c ws "cstr ''null''" b r, OF _ assms(2) _ _ assms(6)] assms(1)
    by (simp only: keyword_tokens value_text.simps first_token.simps token_value.simps text_rest.simps) simp
next
  case VTrue
  then obtain b r where "rest = b # r" "delimiter b" using assms(4) by (auto simp: ended_def container_def)
  then show ?thesis using VTrue lex_scan_keyword [of L w d f t s c ws "cstr ''true''" b r, OF _ assms(2) _ _ assms(6)] assms(1)
    by (simp only: keyword_tokens value_text.simps first_token.simps token_value.simps text_rest.simps) simp
next
  case VFalse
  then obtain b r where "rest = b # r" "delimiter b" using assms(4) by (auto simp: ended_def container_def)
  then show ?thesis using VFalse lex_scan_keyword [of L w d f t s c ws "cstr ''false''" b r, OF _ assms(2) _ _ assms(6)] assms(1)
    by (simp only: keyword_tokens value_text.simps first_token.simps token_value.simps text_rest.simps) simp
next
  case (VInteger i)
  then obtain b r where "rest = b # r" "delimiter b" using assms(4) by (auto simp: ended_def container_def)
  then show ?thesis using VInteger lex_scan_integer [of L w d f t s c ws i b r, OF _ assms(2) _ _ _ assms(5,6)] assms(1,3) by simp
next
  case (VReal x) then show ?thesis using assms(3) by simp
next
  case (VString str)
  then show ?thesis using lex_scan_string_token [of L w d f t s c ws flags str rest, OF _ assms(2) _ assms(6)] assms(1,3) by simp
next
  case (VArray vs)
  then obtain r where r: "value_text point flags depth v = 91 # r" using bracket_hd by (metis value_text.simps(7))
  then show ?thesis using VArray lex_scan_punct [of L w d f t s c ws 91 "r @ rest", OF _ assms(2) _ assms(6)] assms(1) by simp
next
  case (VObject kvs)
  then obtain r where r: "value_text point flags depth v = 123 # r" using bracket_hd by (metis value_text.simps(8))
  then show ?thesis using VObject lex_scan_punct [of L w d f t s c ws 123 "r @ rest", OF _ assms(2) _ assms(6)] assms(1) by simp
qed

text \<open>
  What it means that the decoder reads \<^term>\<open>v\<close> back: with the first token of its text scanned, \<^verbatim>\<open>parse_value\<close>
  returns a value that rests on new cells, and leaves what follows.
\<close>

definition reads_back :: "byte \<Rightarrow> nat \<Rightarrow> nat \<Rightarrow> nat \<Rightarrow> nat \<Rightarrow> jval \<Rightarrow> bool" where
  "reads_back point flags L f depth v \<longleftrightarrow>
     (\<forall>w d s c rest n r s'. rd L (w, d, f, first_token v) s c (text_rest point flags depth v @ rest) \<longrightarrow> token_value s v \<longrightarrow>
        ended v rest \<longrightarrow> statics_below w \<longrightarrow> d + height v \<le> JSON_PARSER_MAX_DEPTH \<longrightarrow>
        parse_value n point f s = Some (r, s') \<longrightarrow>
        (\<exists>p w' t c. r = Some p \<and> rd L (w', d, f, t) s' c rest \<and> grown None w w' \<and>
           built (cells (w_brk w) w') w' (reordered flags v) p))"

lemma reading_deeper: "rd L (w, d, f, t) s c bs \<Longrightarrow> rd L (w, Suc d, f, t) (deeper s) c bs"
  by (auto simp: reading_def surroundings_def deeper_def upd_lex_def)

lemma reading_leave: "rd L (w, Suc d, f, t) s c bs \<Longrightarrow> rd L (w, d, f, t) (leave (Some p) s) c bs"
  by (auto simp: reading_def surroundings_def leave_def shallower_def upd_lex_def)

lemma reading_world: "rd L (w, d, f, t) s c bs \<Longrightarrow> w_mem w' = mem_ok \<Longrightarrow> rd L (w', d, f, t) (s\<lparr>ps_world := w'\<rparr>) c bs"
  by (simp add: reading_def surroundings_def)

lemma lift_world_reading:
  assumes "rd L (w, d, f, t) s c bs" "lift_world g s = (r, s')"
  obtains w' where "g w = (r, w')" "s' = s\<lparr>ps_world := w'\<rparr>"
proof -
  have "ps_world s = w" using assms(1) by (simp add: reading_def surroundings_def)
  then show thesis using assms(2) that by (auto simp: lift_world_def split: prod.splits)
qed

lemma static_built: "statics_below w \<Longrightarrow> built (cells b w) w VNull null_ptr" "statics_below w \<Longrightarrow> built (cells b w) w VTrue true_ptr"
  "statics_below w \<Longrightarrow> built (cells b w) w VFalse false_ptr"
  by (simp_all add: built_def statics_below_def statics_ok_def cells_def statics_def data_at_def)

lemma grown_refl: "w_mem w = mem_ok \<Longrightarrow> grown x w w"
  by (simp add: grown_def)

lemma made_built: "makes (JInteger i) r w w' \<Longrightarrow> built (cells (w_brk w) w') w' (VInteger i) (w_brk w)"
  "makes (JString t) r w w' \<Longrightarrow> built (cells (w_brk w) w') w' (VString t) (w_brk w)"
  by (simp_all add: built_def makes_def cells_def data_at_def)

lemma scalar_reads_back:
  assumes "\<not> container v" "readable f v"
  shows "reads_back point flags L f depth v"
  unfolding reads_back_def
proof (intro allI impI)
  fix w d s c rest n r s'
  assume rd: "rd L (w, d, f, first_token v) s c (text_rest point flags depth v @ rest)" and tv: "token_value s v" and st: "statics_below w"
    and dep: "d + height v \<le> JSON_PARSER_MAX_DEPTH" and p: "parse_value n point f s = Some (r, s')"
  have tr: "text_rest point flags depth v = []" "reordered flags v = v" using assms(1) by (cases v; simp add: container_def)+
  have tk: "ps_token s = first_token v" "lx_depth (ps_lex s) = d" "w_mem w = mem_ok" using rd by (auto simp: reading_def surroundings_def)
  have nt: "first_token v \<noteq> 123" "first_token v \<noteq> 91" using assms(1) by (cases v; simp add: container_def tokens)+
  obtain m where m: "n = Suc m" using p by (cases n) auto
  let ?s = "deeper s"
  have rd1: "rd L (w, Suc d, f, first_token v) ?s c rest" using reading_deeper [OF rd] tr by simp
  have dep1: "\<not> JSON_PARSER_MAX_DEPTH < lx_depth (ps_lex s) + 1" using dep tk(2) height_pos [of v] by simp
  have nt1: "ps_token s \<noteq> 123" "ps_token s \<noteq> 91" using nt tk(1) by simp_all
  obtain s1 where s1: "s' = leave r s1" "parse_scalar f ?s = (r, s1)"
    by (rule parse_value_cases [OF p [unfolded m]]) (use dep1 nt1 in blast)+
  have "\<exists>p w' t c. r = Some p \<and> rd L (w', Suc d, f, t) s1 c rest \<and> grown None w w' \<and> built (cells (w_brk w) w') w' v p"
  proof (cases v)
    case VNull
    then have "r = Some null_ptr" "s1 = ?s" using s1(2) tk by (simp_all add: parse_scalar_def tokens json_null_def)
    then show ?thesis using rd1 static_built [OF st] grown_refl [OF tk(3)] VNull by blast
  next
    case VTrue
    then have "r = Some true_ptr" "s1 = ?s" using s1(2) tk by (simp_all add: parse_scalar_def tokens json_true_def)
    then show ?thesis using rd1 static_built [OF st] grown_refl [OF tk(3)] VTrue by blast
  next
    case VFalse
    then have "r = Some false_ptr" "s1 = ?s" using s1(2) tk by (simp_all add: parse_scalar_def tokens json_false_def)
    then show ?thesis using rd1 static_built [OF st] grown_refl [OF tk(3)] VFalse by blast
  next
    case (VInteger i)
    then have "lift_world (json_integer i) ?s = (r, s1)" using s1(2) tk tv by (simp add: parse_scalar_def tokens)
    from lift_world_reading [OF rd1 this] obtain w' where w': "json_integer i w = (r, w')" "s1 = ?s\<lparr>ps_world := w'\<rparr>" .
    note M = json_integer_makes [OF tk(3) w'(1)]
    then show ?thesis using reading_world [OF rd1, of w'] w'(2) makes_grown [OF M] made_built(1) [OF M] VInteger by (auto simp: makes_def)
  next
    case (VString str)
    have nn: "\<not> (\<not> flag_set f JSON_ALLOW_NUL \<and> 0 \<in> set str)" using assms(2) VString by auto
    obtain r1 s2 where l: "lift_world (jsonp_stringn_nocheck_own (Some str) (length str)) ?s = (r1, s2)" by fastforce
    have e: "r = r1" "s1 = upd_lex (\<lambda>l. l\<lparr>lx_string := None\<rparr>) s2" using s1(2) tk tv VString l nn
      by (auto simp: parse_scalar_def parse_string_token_def tokens Let_def)
    from lift_world_reading [OF rd1 l] obtain w' where w': "jsonp_stringn_nocheck_own (Some str) (length str) w = (r1, w')" "s2 = ?s\<lparr>ps_world := w'\<rparr>" .
    note M = own_string_makes [OF tk(3) w'(1)]
    then show ?thesis using reading_world [OF rd1, of w'] w'(2) e makes_grown [OF M] made_built(2) [OF M] VString by (auto simp: makes_def)
  qed (use assms in \<open>auto simp: container_def\<close>)
  then show "\<exists>p w' t c. r = Some p \<and> rd L (w', d, f, t) s' c rest \<and> grown None w w' \<and> built (cells (w_brk w) w') w' (reordered flags v) p"
    using s1(1) tr reading_leave by metis
qed

end

section \<open>Reading containers back\<close>

definition after_items :: "nat \<Rightarrow> nat \<Rightarrow> byte \<Rightarrow> byte list list \<Rightarrow> byte list \<Rightarrow> byte list" where
  "after_items flags depth cl ts rest =
     (if ts = [] then indent_text flags depth False @ cl # rest
      else 44 # indent_text flags (Suc depth) True @ join_items flags depth ts @ cl # rest)"

lemma join_after: "join_items flags depth (t # ts) @ cl # rest = t @ after_items flags depth cl ts rest"
  by (cases ts) (simp_all add: after_items_def)

lemma indent_space: "set (indent_text flags depth b) \<subseteq> {32, 10}"
  by (auto simp: indent_text_def)

lemma ended_after: "cl = 93 \<or> cl = 125 \<Longrightarrow> ended v (after_items flags depth cl ts rest)"
  by (auto simp: ended_def after_items_def indent_text_def delimiter_def)

lemma first_token_nonzero: "first_token v \<noteq> 0" "first_token v \<noteq> 93" "first_token v \<noteq> 125"
  by (cases v; simp add: tokens)+

lemma views_cell: "views w v p \<Longrightarrow> w_heap w p \<noteq> None"
  by (cases v) (auto simp: data_at_def)

lemma built_in: "built A w v p \<Longrightarrow> p \<in> A"
proof (rule ccontr)
  assume b: "built A w v p" "p \<notin> A"
  then have "views (w\<lparr>w_heap := (w_heap w)(p := None)\<rparr>) v p" unfolding built_def by auto
  then show False using views_cell by fastforce
qed

lemma in_order_map: "in_order flags (map (\<lambda>(k, v). (k, g v)) kvs) = map (\<lambda>(k, v). (k, g v)) (in_order flags kvs)"
proof -
  have keys: "map fst (map (\<lambda>(k, v). (k, g v)) kvs) = map fst kvs" by (induction kvs) auto
  have "the (map_of (map (\<lambda>(k, v). (k, g v)) kvs) k) = g (the (map_of kvs k))" if "k \<in> set (map fst kvs)" for k
    using that by (induction kvs) auto
  then show ?thesis unfolding in_order_def keys by (auto simp: comp_def)
qed

lemma in_order_subset: "distinct (map fst kvs) \<Longrightarrow> set (in_order flags kvs) \<subseteq> set kvs"
  by (auto simp: in_order_def)

lemma in_order_keys: "distinct (map fst kvs) \<Longrightarrow> distinct (map fst (in_order flags kvs)) \<and> length (in_order flags kvs) = length kvs"
  by (auto simp: in_order_def comp_def)

definition member_of :: "byte \<Rightarrow> nat \<Rightarrow> nat \<Rightarrow> byte list \<times> jval \<Rightarrow> byte list" where
  "member_of point flags depth kv = member_text flags (fst kv, value_text point flags depth (snd kv))"

lemma object_text: "value_text point flags depth (VObject kvs) = bracket_text flags depth 123 125 (map (member_of point flags (Suc depth)) (in_order flags kvs))"
  by (simp only: value_text.simps in_order_map) (simp add: member_of_def [abs_def] comp_def case_prod_unfold)

lemma object_reordered: "reordered flags (VObject kvs) = VObject (map (\<lambda>(k, v). (k, reordered flags v)) (in_order flags kvs))"
  by (simp add: in_order_map)

lemma parse_value_array:
  "parse_value (Suc n) point flags s = Some (r, s') \<Longrightarrow> ps_token s = 91 \<Longrightarrow> lx_depth (ps_lex s) < JSON_PARSER_MAX_DEPTH \<Longrightarrow>
     \<exists>s1. s' = leave r s1 \<and> parse_container json_array point n 93 (parse_array_loop n point flags) (deeper s) = Some (r, s1)"
  by (auto simp: parse_value_Suc simp del: cstr_Cons parse_value.simps)

lemma parse_value_object:
  "parse_value (Suc n) point flags s = Some (r, s') \<Longrightarrow> ps_token s = 123 \<Longrightarrow> lx_depth (ps_lex s) < JSON_PARSER_MAX_DEPTH \<Longrightarrow>
     \<exists>s1. s' = leave r s1 \<and> parse_container json_object point n 125 (parse_object_loop n point flags) (deeper s) = Some (r, s1)"
  by (auto simp: parse_value_Suc simp del: cstr_Cons parse_value.simps)

context byte_source
begin

lemma reads_backD:
  assumes "reads_back point flags L f depth v" "rd L (w, d, f, first_token v) s c (text_rest point flags depth v @ rest)" "token_value s v"
    "ended v rest" "statics_below w" "d + height v \<le> JSON_PARSER_MAX_DEPTH" "parse_value n point f s = Some (r, s')"
  obtains p w' t c' where "r = Some p" "rd L (w', d, f, t) s' c' rest" "grown None w w'" "built (cells (w_brk w) w') w' (reordered flags v) p"
  using assms unfolding reads_back_def by metis

lemma readingD: "rd L (w, d, f, t) s c bs \<Longrightarrow> ps_token s = t" "rd L (w, d, f, t) s c bs \<Longrightarrow> w_mem w = mem_ok"
  "rd L (w, d, f, t) s c bs \<Longrightarrow> lx_depth (ps_lex s) = d" "rd L (w, d, f, t) s c bs \<Longrightarrow> ps_world s = w"
  by (auto simp: reading_def surroundings_def)

text \<open>One value inside a container at \<^term>\<open>p\<close>.\<close>

lemma element_reads_back:
  assumes "reads_back point flags L f depth v" "rd L (w, d, f, first_token v) s c (text_rest point flags depth v @ rest)" "token_value s v"
    "ended v rest" "statics_below w" "d + height v \<le> JSON_PARSER_MAX_DEPTH" "parse_value n point f s = Some (r, s')" "p < w_brk w" "p \<notin> statics"
  obtains q w' t c' where "r = Some q" "rd L (w', d, f, t) s' c' rest" "grown None w w'" "built (cells (Suc p) w') w' (reordered flags v) q" "q \<noteq> p"
    "statics_below w'" "w_mem w' = mem_ok" "p < w_brk w'"
proof -
  obtain q w' t c' where q: "r = Some q" "rd L (w', d, f, t) s' c' rest" "grown None w w'" "built (cells (w_brk w) w') w' (reordered flags v) q"
    using reads_backD [OF assms(1-7)] .
  have "q \<noteq> p" using built_in [OF q(4)] assms(8,9) by (auto simp: cells_def)
  moreover have "built (cells (Suc p) w') w' (reordered flags v) q" using built_older [OF q(4)] assms(8) by simp
  moreover have "statics_below w'" using grown_statics [OF q(3) assms(5)] by simp
  moreover have "p < w_brk w'" using q(3) assms(8) by (simp add: grown_def)
  ultimately show thesis using that q readingD(2) [OF q(2)] by blast
qed

text \<open>After an element: the closing bracket, or a comma and the next element.\<close>

lemma after_last:
  assumes "rd L (w, d, f, t) s c (after_items flags depth cl [] rest)" "cl = 93 \<or> cl = 125" "lex_scan point n s = Some s'"
  shows "\<exists>c. rd L (w, d, f, uint cl) s' c rest"
  using lex_scan_punct [of L w d f t s c "indent_text flags depth False" cl rest, OF _ indent_space _ assms(3)] assms(1,2)
  by (auto simp: after_items_def)

lemma after_more:
  assumes "rd L (w, d, f, t) s c (after_items flags depth cl (x # ts) rest)" "lex_scan point n s = Some s'"
  shows "\<exists>c. rd L (w, d, f, 44) s' c (indent_text flags (Suc depth) True @ x @ after_items flags depth cl ts rest)"
proof -
  have "after_items flags depth cl (x # ts) rest = [] @ 44 # indent_text flags (Suc depth) True @ x @ after_items flags depth cl ts rest"
    by (simp add: after_items_def [of _ _ _ "x # ts"] join_after)
  then show ?thesis using lex_scan_punct [of L w d f t s c "[]" 44, OF _ _ _ assms(2)] assms(1) by simp
qed

lemma parse_end_ok: "parse_end cl msg p s = (r, s') \<Longrightarrow> ps_token s = cl \<Longrightarrow> r = Some p \<and> s' = s"
  by (simp add: parse_end_def)

lemma append_reading:
  assumes "rd L (w, d, f, t) s c bs" "array_of w p us" "built (cells (Suc p) w) w v q" "q \<noteq> p" "p < w_brk w" "p \<notin> statics" "statics_below w"
    "lift_world (json_array_append_new (Some p) (Some q)) s = (x, s')"
  obtains w' where "x = 0" "rd L (w', d, f, t) s' c bs" "grown (Some p) w w'" "array_of w' p (us @ [v])" "p < w_brk w'" "statics_below w'"
proof -
  from lift_world_reading [OF assms(1,8)] obtain w' where w': "json_array_append_new (Some p) (Some q) w = (x, w')" "s' = s\<lparr>ps_world := w'\<rparr>" .
  have G: "x = 0" "array_of w' p (us @ [v])" "grown (Some p) w w'" "w_brk w' = w_brk w"
    using append_grown [OF assms(2-7) readingD(2) [OF assms(1)] w'(1)] by auto
  show thesis using that [of w'] G reading_world [OF assms(1), of w'] w'(2) grown_statics [OF G(3) assms(7)] assms(5,6) by (simp add: grown_def)
qed

lemma set_new_reading:
  assumes "rd L (w, d, f, t) s c bs" "object_of w p us" "built (cells (Suc p) w) w v q" "q \<noteq> p" "p < w_brk w" "p \<notin> statics" "statics_below w"
    "k \<notin> fst ` set us" "length us < 2 ^ 31" "length k < 2 ^ 62" "lift_world (json_object_set_new_nocheck (Some p) (Some k) (Some q)) s = (x, s')"
  obtains w' where "x = 0" "rd L (w', d, f, t) s' c bs" "grown (Some p) w w'" "object_of w' p (us @ [(k, v)])" "p < w_brk w'" "statics_below w'"
proof -
  from lift_world_reading [OF assms(1,11)] obtain w' where w': "json_object_set_new_nocheck (Some p) (Some k) (Some q) w = (x, w')" "s' = s\<lparr>ps_world := w'\<rparr>" .
  have G: "x = 0" "object_of w' p (us @ [(k, v)])" "grown (Some p) w w'" "w_brk w' = w_brk w"
    using set_new_grown [OF assms(2-7) readingD(2) [OF assms(1)] assms(8-10) w'(1)] by auto
  show thesis using that [of w'] G reading_world [OF assms(1), of w'] w'(2) grown_statics [OF G(3) assms(7)] assms(5,6) by (simp add: grown_def)
qed

text \<open>One round of the array loop.\<close>

lemma array_round:
  assumes "reads_back point flags L f depth v" "rd L (w, d, f, first_token v) s c (text_rest point flags depth v @ rest)" "token_value s v"
    "ended v rest" "statics_below w" "d + height v \<le> JSON_PARSER_MAX_DEPTH" "p < w_brk w" "p \<notin> statics" "array_of w p us"
    "parse_array_loop (Suc n) point f p s = Some (r, s')"
  obtains w1 t c1 s2 s3 where "rd L (w1, d, f, t) s2 c1 rest" "grown (Some p) w w1" "array_of w1 p (us @ [reordered flags v])" "p < w_brk w1" "statics_below w1"
    "lex_scan point n s2 = Some s3" "ps_token s3 = 93 \<Longrightarrow> r = Some p \<and> s' = s3"
    "ps_token s3 = 44 \<Longrightarrow> \<exists>s4. lex_scan point n s3 = Some s4 \<and> parse_array_loop n point f p s4 = Some (r, s')"
proof -
  have tok: "ps_token s \<noteq> 0" using readingD(1) [OF assms(2)] first_token_nonzero(1) by simp
  note E = element_reads_back [OF assms(1-6) _ assms(7,8)]
  show thesis
  proof (rule parse_array_loop_cases [OF assms(10)])
    assume "ps_token s = 0"
    then show thesis using tok by simp
  next
    fix s1 assume "parse_value n point f s = Some (None, s1)"
    from E [OF this] show thesis by blast
  next
    fix e s1 x s2 assume a: "parse_value n point f s = Some (Some e, s1)" "lift_world (json_array_append_new (Some p) (Some e)) s1 = (x, s2)" "x \<noteq> 0"
    from E [OF a(1)] obtain w1 t c1 where w1: "rd L (w1, d, f, t) s1 c1 rest" "grown None w w1" "built (cells (Suc p) w1) w1 (reordered flags v) e" "e \<noteq> p"
      "statics_below w1" "p < w_brk w1" by blast
    show thesis using append_reading [OF w1(1) array_of_grown [OF assms(9) w1(2) assms(7,5)] w1(3,4,6) assms(8) w1(5) a(2)] a(3) by blast
  next
    fix e s1 s2 s3 assume a: "parse_value n point f s = Some (Some e, s1)" "lift_world (json_array_append_new (Some p) (Some e)) s1 = (0, s2)"
      "lex_scan point n s2 = Some s3" "ps_token s3 \<noteq> 44" "parse_end 93 ([39, 93, 39] @ cstr '' expected'') p s3 = (r, s')"
    from E [OF a(1)] obtain w1 t c1 where w1: "rd L (w1, d, f, t) s1 c1 rest" "grown None w w1" "built (cells (Suc p) w1) w1 (reordered flags v) e" "e \<noteq> p"
      "statics_below w1" "p < w_brk w1" by blast
    obtain w2 where w2: "rd L (w2, d, f, t) s2 c1 rest" "grown (Some p) w1 w2" "array_of w2 p (us @ [reordered flags v])" "p < w_brk w2" "statics_below w2"
      using append_reading [OF w1(1) array_of_grown [OF assms(9) w1(2) assms(7,5)] w1(3,4,6) assms(8) w1(5) a(2)] .
    show thesis using that [OF w2(1) grown_trans [OF grown_weak [OF w1(2)] w2(2)] w2(3-5) a(3)] a(4) parse_end_ok [OF a(5)] by blast
  next
    fix e s1 s2 s3 s4 assume a: "parse_value n point f s = Some (Some e, s1)" "lift_world (json_array_append_new (Some p) (Some e)) s1 = (0, s2)"
      "lex_scan point n s2 = Some s3" "ps_token s3 = 44" "lex_scan point n s3 = Some s4" "parse_array_loop n point f p s4 = Some (r, s')"
    from E [OF a(1)] obtain w1 t c1 where w1: "rd L (w1, d, f, t) s1 c1 rest" "grown None w w1" "built (cells (Suc p) w1) w1 (reordered flags v) e" "e \<noteq> p"
      "statics_below w1" "p < w_brk w1" by blast
    obtain w2 where w2: "rd L (w2, d, f, t) s2 c1 rest" "grown (Some p) w1 w2" "array_of w2 p (us @ [reordered flags v])" "p < w_brk w2" "statics_below w2"
      using append_reading [OF w1(1) array_of_grown [OF assms(9) w1(2) assms(7,5)] w1(3,4,6) assms(8) w1(5) a(2)] .
    show thesis using that [OF w2(1) grown_trans [OF grown_weak [OF w1(2)] w2(2)] w2(3-5) a(3)] a(4-6) by simp
  qed
qed

lemma array_items:
  assumes "\<forall>x \<in> set (v # vs). reads_back point flags L f (Suc depth) x \<and> readable f x \<and> d + height x \<le> JSON_PARSER_MAX_DEPTH"
    "rd L (w, d, f, first_token v) s c (text_rest point flags (Suc depth) v @ after_items flags depth 93 (map (value_text point flags (Suc depth)) vs) rest)"
    "token_value s v" "statics_below w" "array_of w p us" "p < w_brk w" "p \<notin> statics" "\<not> flag_set f JSON_DECODE_INT_AS_REAL"
    "parse_array_loop n point f p s = Some (r, s')"
  shows "\<exists>w' t c. r = Some p \<and> rd L (w', d, f, t) s' c rest \<and> grown (Some p) w w' \<and> p < w_brk w' \<and> array_of w' p (us @ map (reordered flags) (v # vs))"
  using assms
proof (induction vs arbitrary: v w s c us n)
  case Nil
  obtain m where m: "n = Suc m" using Nil.prems(9) by (cases n) auto
  have v: "reads_back point flags L f (Suc depth) v" "d + height v \<le> JSON_PARSER_MAX_DEPTH" using Nil.prems(1) by auto
  obtain w1 t c1 s2 s3 where w1: "rd L (w1, d, f, t) s2 c1 (after_items flags depth 93 [] rest)" "grown (Some p) w w1" "array_of w1 p (us @ [reordered flags v])" "p < w_brk w1"
    "lex_scan point m s2 = Some s3" "ps_token s3 = 93 \<Longrightarrow> r = Some p \<and> s' = s3"
    by (rule array_round [OF v(1) Nil.prems(2,3) ended_after Nil.prems(4) v(2) Nil.prems(6,7,5) Nil.prems(9) [unfolded m]]) auto
  obtain c2 where c2: "rd L (w1, d, f, 93) s3 c2 rest" using after_last [OF w1(1) _ w1(5)] by auto
  then have "r = Some p" "s' = s3" using w1(6) readingD(1) by auto
  then show ?case using w1 c2 by auto
next
  case (Cons v2 vs)
  obtain m where m: "n = Suc m" using Cons.prems(9) by (cases n) auto
  let ?txt = "value_text point flags (Suc depth)"
  have v: "reads_back point flags L f (Suc depth) v" "d + height v \<le> JSON_PARSER_MAX_DEPTH" using Cons.prems(1) by auto
  obtain w1 t c1 s2 s3 where w1: "rd L (w1, d, f, t) s2 c1 (after_items flags depth 93 (?txt v2 # map ?txt vs) rest)" "grown (Some p) w w1"
    "array_of w1 p (us @ [reordered flags v])" "p < w_brk w1" "statics_below w1" "lex_scan point m s2 = Some s3"
    "ps_token s3 = 44 \<Longrightarrow> \<exists>s4. lex_scan point m s3 = Some s4 \<and> parse_array_loop m point f p s4 = Some (r, s')"
    by (rule array_round [OF v(1) Cons.prems(2,3) ended_after Cons.prems(4) v(2) Cons.prems(6,7,5) Cons.prems(9) [unfolded m]]) auto
  obtain c2 where c2: "rd L (w1, d, f, 44) s3 c2 (indent_text flags (Suc depth) True @ ?txt v2 @ after_items flags depth 93 (map ?txt vs) rest)"
    using after_more [OF w1(1,6)] by blast
  then obtain s4 where s4: "lex_scan point m s3 = Some s4" "parse_array_loop m point f p s4 = Some (r, s')" using w1(7) readingD(1) by blast
  obtain c3 where c3: "rd L (w1, d, f, first_token v2) s4 c3 (text_rest point flags (Suc depth) v2 @ after_items flags depth 93 (map ?txt vs) rest)" "token_value s4 v2"
    using value_token [OF c2 indent_space _ ended_after Cons.prems(8) s4(1)] Cons.prems(1) by auto
  obtain w' t' c' where "r = Some p" "rd L (w', d, f, t') s' c' rest" "grown (Some p) w1 w'" "p < w_brk w'"
    "array_of w' p ((us @ [reordered flags v]) @ map (reordered flags) (v2 # vs))"
    using Cons.IH [OF _ c3 w1(5,3,4) Cons.prems(7,8) s4(2)] Cons.prems(1) by auto
  then show ?case using grown_trans [OF w1(2)] by fastforce
qed

lemma array_reads_back:
  assumes "\<And>x. x \<in> set vs \<Longrightarrow> reads_back point flags L f (Suc depth) x" "readable f (VArray vs)" "\<not> flag_set f JSON_DECODE_INT_AS_REAL"
  shows "reads_back point flags L f depth (VArray vs)"
  unfolding reads_back_def
proof (intro allI impI)
  fix w d s c rest n r s'
  assume rd: "rd L (w, d, f, first_token (VArray vs)) s c (text_rest point flags depth (VArray vs) @ rest)" and st: "statics_below w"
    and dep: "d + height (VArray vs) \<le> JSON_PARSER_MAX_DEPTH" and p: "parse_value n point f s = Some (r, s')"
  let ?txt = "value_text point flags (Suc depth)" and ?p = "w_brk w"
  obtain m where m: "n = Suc m" using p by (cases n) auto
  have tk: "ps_token s = 91" "lx_depth (ps_lex s) = d" "w_mem w = mem_ok" using readingD [OF rd] by auto
  have dep1: "lx_depth (ps_lex s) < JSON_PARSER_MAX_DEPTH" using dep tk(2) by simp
  obtain s1 where s1: "s' = leave r s1" "parse_container json_array point m 93 (parse_array_loop m point f) (deeper s) = Some (r, s1)"
    using parse_value_array [OF p [unfolded m] tk(1) dep1] by blast
  obtain x s2 where x: "lift_world json_array (deeper s) = (x, s2)" by fastforce
  note rd1 = reading_deeper [OF rd]
  from lift_world_reading [OF rd1 x] obtain w1 where w1: "json_array w = (x, w1)" "s2 = (deeper s)\<lparr>ps_world := w1\<rparr>" .
  note M = json_array_makes [OF tk(3) w1(1)]
  have W: "x = Some ?p" "grown None w w1" "?p < w_brk w1" "array_of w1 ?p []" "w_mem w1 = mem_ok" using M makes_grown [OF M] new_array_of [OF M] by (auto simp: makes_def)
  have st1: "statics_below w1" "?p \<notin> statics" using grown_statics [OF W(2) st] st by (auto simp: statics_below_def)
  note rd2 = reading_world [OF rd1 W(5), folded w1(2)]
  obtain s3 where s3: "lex_scan point m s2 = Some s3" "if ps_token s3 = 93 then (r, s1) = (Some ?p, s3) else parse_array_loop m point f ?p s3 = Some (r, s1)"
    using s1(2) x W(1) by (auto simp: parse_container_def bind_eq_Some_conv split: if_splits)
  have "\<exists>w' t c. r = Some ?p \<and> rd L (w', Suc d, f, t) s1 c rest \<and> grown (Some ?p) w1 w' \<and> ?p < w_brk w' \<and> array_of w' ?p (map (reordered flags) vs)"
  proof (cases vs)
    case Nil
    then have "rd L (w1, Suc d, f, 91) s2 c ([] @ 93 # rest)" using rd2 by (simp add: bracket_text_def)
    from lex_scan_punct [OF this _ _ s3(1)] obtain c3 where "rd L (w1, Suc d, f, 93) s3 c3 rest" by auto
    then show ?thesis using s3(2) readingD(1) W Nil grown_refl [OF W(5)] by fastforce
  next
    case (Cons v vs')
    have "rd L (w1, Suc d, f, 91) s2 c (indent_text flags (Suc depth) False @ ?txt v @ after_items flags depth 93 (map ?txt vs') rest)"
      using rd2 Cons by (simp add: bracket_text_def flip: join_after)
    from value_token [OF this indent_space _ ended_after assms(3) s3(1)] assms(2) Cons obtain c3 where
      c3: "rd L (w1, Suc d, f, first_token v) s3 c3 (text_rest point flags (Suc depth) v @ after_items flags depth 93 (map ?txt vs') rest)" "token_value s3 v" by auto
    have "ps_token s3 \<noteq> 93" using readingD(1) [OF c3(1)] first_token_nonzero by simp
    then have lp: "parse_array_loop m point f ?p s3 = Some (r, s1)" using s3(2) by simp
    have all: "\<forall>x \<in> set (v # vs'). reads_back point flags L f (Suc depth) x \<and> readable f x \<and> Suc d + height x \<le> JSON_PARSER_MAX_DEPTH"
      using assms(1,2) Cons height_array [of _ vs] dep by fastforce
    show ?thesis using array_items [OF all c3 st1(1) W(4,3) st1(2) assms(3) lp] Cons by simp
  qed
  then obtain w' t c' where f: "r = Some ?p" "rd L (w', Suc d, f, t) s1 c' rest" "grown (Some ?p) w1 w'" "?p < w_brk w'" "array_of w' ?p (map (reordered flags) vs)" by blast
  have "grown None w w'" using W(2,3) f(3) by (auto simp: grown_def)
  then show "\<exists>p w' t c. r = Some p \<and> rd L (w', d, f, t) s' c rest \<and> grown None w w' \<and> built (cells (w_brk w) w') w' (reordered flags (VArray vs)) p"
    using f s1(1) reading_leave [OF f(2), of ?p] array_of_built [OF f(5,4)] by auto
qed

end

section \<open>Reading objects back\<close>

definition colon_text :: "nat \<Rightarrow> byte list" where
  "colon_text flags = (if dflag flags JSON_COMPACT then [] else [32])"

lemma member_of_text: "member_of point flags depth (k, v) = string_text flags k @ 58 # colon_text flags @ value_text point flags depth v"
  by (simp add: member_of_def member_text_def colon_text_def)

lemma bracket_members:
  "tl (bracket_text flags depth 123 125 (map (member_of point flags (Suc depth)) ((k, v) # kvs))) @ rest =
     indent_text flags (Suc depth) False @ string_text flags k @ 58 # colon_text flags @ value_text point flags (Suc depth) v @
       after_items flags depth 125 (map (member_of point flags (Suc depth)) kvs) rest"
proof -
  have "tl (bracket_text flags depth 123 125 (map (member_of point flags (Suc depth)) ((k, v) # kvs))) @ rest =
      indent_text flags (Suc depth) False @ join_items flags depth (member_of point flags (Suc depth) (k, v) # map (member_of point flags (Suc depth)) kvs) @ 125 # rest"
    by (simp add: bracket_text_def)
  then show ?thesis unfolding join_after member_of_text by simp
qed

lemma colon_space: "set (colon_text flags) \<subseteq> {32, 10}"
  by (simp add: colon_text_def)

context byte_source
begin

text \<open>The key of a member, up to and including the colon.\<close>

lemma parse_key_reading:
  assumes "rd L (w, d, f, TOKEN_STRING) s c (58 # rest)" "lx_string (ps_lex s) = Some k" "0 \<notin> set k"
    "object_of w p us" "k \<notin> fst ` set us" "parse_key point n f p s = Some (r, s')"
  shows "r = Some k \<and> (\<exists>c. rd L (w, d, f, 58) s' c rest)"
proof -
  let ?s1 = "upd_lex (\<lambda>l. l\<lparr>lx_string := None\<rparr>) s"
  have tok: "ps_token s = TOKEN_STRING" and wd: "ps_world s = w" using readingD [OF assms(1)] by auto
  have steal: "lex_steal_string s = (Some k, ?s1)" using tok assms(2) by (simp add: lex_steal_string_def)
  obtain rc h al where h: "w_heap w p = Some \<lparr>j_refcount = rc, j_data = JObject h\<rparr>" "ht_rel (w_seed w) h al"
    "list_all2 (\<lambda>(k, v) (k', q). k = k' \<and> built (cells (Suc p) w) w v q) us al" using assms(4) by (auto simp: object_of_def)
  have "map fst us = map fst al" using h(3) by (induction rule: list_all2_induct) auto
  then have "map_of al k = None" using assms(5) by (metis image_set map_of_eq_None_iff)
  then have get: "json_object_get (ps_world ?s1) (Some p) (Some k) = None"
    using hashtable_get_map_of [OF h(2), of k] h(1) wd by (simp add: json_object_get_def object_table_def data_at_def)
  obtain s2 where s2: "lex_scan point n ?s1 = Some s2"
    using assms(3,6) tok steal get by (auto simp: parse_key_def bind_eq_Some_conv simp del: cstr_Cons)
  have "rd L (w, d, f, TOKEN_STRING) ?s1 c ([] @ 58 # rest)" using assms(1) by simp
  from lex_scan_punct [OF this _ _ s2] obtain c2 where c2: "rd L (w, d, f, 58) s2 c2 rest" by auto
  then have "parse_key point n f p s = Some (Some k, s2)"
    using assms(3) tok steal get s2 readingD(1) [OF c2] by (simp add: parse_key_def del: cstr_Cons)
  then show ?thesis using c2 assms(6) by auto
qed

definition member_fits :: "byte \<Rightarrow> nat \<Rightarrow> nat \<Rightarrow> nat \<Rightarrow> nat \<Rightarrow> nat \<Rightarrow> byte list \<times> jval \<Rightarrow> bool" where
  "member_fits point flags L f depth d kv \<longleftrightarrow> reads_back point flags L f depth (snd kv) \<and> readable f (snd kv) \<and> d + height (snd kv) \<le> JSON_PARSER_MAX_DEPTH \<and>
     utf8_check_string (fst kv) \<and> 0 \<notin> set (fst kv) \<and> length (fst kv) < 2 ^ 62"

text \<open>One round of the object loop.\<close>

lemma object_round:
  assumes "member_fits point flags L f depth d (k, v)" "rd L (w, d, f, TOKEN_STRING) s c (58 # colon_text flags @ value_text point flags depth v @ rest)"
    "lx_string (ps_lex s) = Some k" "ended v rest" "statics_below w" "p < w_brk w" "p \<notin> statics" "object_of w p us" "k \<notin> fst ` set us" "length us < 2 ^ 31"
    "\<not> flag_set f JSON_DECODE_INT_AS_REAL" "parse_object_loop (Suc n) point f p s = Some (r, s')"
  obtains w1 t c1 s2 s3 where "rd L (w1, d, f, t) s2 c1 rest" "grown (Some p) w w1" "object_of w1 p (us @ [(k, reordered flags v)])" "p < w_brk w1" "statics_below w1"
    "lex_scan point n s2 = Some s3" "ps_token s3 = 125 \<Longrightarrow> r = Some p \<and> s' = s3"
    "ps_token s3 = 44 \<Longrightarrow> \<exists>s4. lex_scan point n s3 = Some s4 \<and> parse_object_loop n point f p s4 = Some (r, s')"
proof -
  note F = assms(1) [unfolded member_fits_def fst_conv snd_conv]
  have K: "x = Some k \<and> (\<exists>c. rd L (w, d, f, 58) s1 c (colon_text flags @ value_text point flags depth v @ rest))" if k: "parse_key point n f p s = Some (x, s1)" for x s1
    using parse_key_reading [OF assms(2,3) _ assms(8,9) k] F by simp
  have E: "\<exists>q w1 t c1. y = Some q \<and> rd L (w1, d, f, t) s3 c1 rest \<and> grown None w w1 \<and> built (cells (Suc p) w1) w1 (reordered flags v) q \<and> q \<noteq> p \<and> statics_below w1 \<and> p < w_brk w1"
    if a: "parse_key point n f p s = Some (x, s1)" "lex_scan point n s1 = Some s2" "parse_value n point f s2 = Some (y, s3)" for x s1 s2 y s3
  proof -
    obtain c1 where c1: "rd L (w, d, f, 58) s1 c1 (colon_text flags @ value_text point flags depth v @ rest)" using K [OF a(1)] by blast
    from value_token [OF c1 colon_space _ assms(4,11) a(2)] F obtain c2 where
      c2: "rd L (w, d, f, first_token v) s2 c2 (text_rest point flags depth v @ rest)" "token_value s2 v" by blast
    show ?thesis using element_reads_back [OF _ c2 assms(4,5) _ a(3) assms(6,7)] F by metis
  qed
  have S: "x = 0 \<and> (\<exists>w1 t c1. rd L (w1, d, f, t) s4 c1 rest \<and> grown (Some p) w w1 \<and> object_of w1 p (us @ [(k, reordered flags v)]) \<and> p < w_brk w1 \<and> statics_below w1)"
    if a: "parse_key point n f p s = Some (Some k', s1)" "lex_scan point n s1 = Some s2" "parse_value n point f s2 = Some (Some q, s3)"
      "lift_world (json_object_set_new_nocheck (Some p) (Some k') (Some q)) s3 = (x, s4)" for k' s1 s2 q s3 x s4
  proof -
    have k: "k' = k" using K [OF a(1)] by simp
    from E [OF a(1-3)] obtain w1 t c1 where w1: "rd L (w1, d, f, t) s3 c1 rest" "grown None w w1" "built (cells (Suc p) w1) w1 (reordered flags v) q" "q \<noteq> p"
      "statics_below w1" "p < w_brk w1" by blast
    obtain w2 where w2: "x = 0" "rd L (w2, d, f, t) s4 c1 rest" "grown (Some p) w1 w2" "object_of w2 p (us @ [(k, reordered flags v)])" "p < w_brk w2" "statics_below w2"
      by (rule set_new_reading [OF w1(1) object_of_grown [OF assms(8) w1(2) assms(6,5)] w1(3,4,6) assms(7) w1(5) assms(9,10) _ a(4) [unfolded k]]) (use F in auto)
    then show ?thesis using grown_trans [OF grown_weak [OF w1(2)] w2(3)] by blast
  qed
  show thesis
  proof (rule parse_object_loop_cases [OF assms(12)])
    assume "parse_key point n f p s = Some (None, s')"
    from K [OF this] show thesis by simp
  next
    fix k' s1 s2 s3 assume "parse_key point n f p s = Some (Some k', s1)" "lex_scan point n s1 = Some s2" "parse_value n point f s2 = Some (None, s3)"
    from E [OF this] show thesis by blast
  next
    fix k' s1 s2 q s3 x s4 assume "parse_key point n f p s = Some (Some k', s1)" "lex_scan point n s1 = Some s2" "parse_value n point f s2 = Some (Some q, s3)"
      "lift_world (json_object_set_new_nocheck (Some p) (Some k') (Some q)) s3 = (x, s4)" "x \<noteq> 0"
    then show thesis using S by blast
  next
    fix k' s1 s2 q s3 s4 s5 assume a: "parse_key point n f p s = Some (Some k', s1)" "lex_scan point n s1 = Some s2" "parse_value n point f s2 = Some (Some q, s3)"
      "lift_world (json_object_set_new_nocheck (Some p) (Some k') (Some q)) s3 = (0, s4)"
      and b: "lex_scan point n s4 = Some s5" "ps_token s5 \<noteq> 44" "parse_end 125 ([39, 125, 39] @ cstr '' expected'') p s5 = (r, s')"
    obtain w1 t c1 where w1: "rd L (w1, d, f, t) s4 c1 rest" "grown (Some p) w w1" "object_of w1 p (us @ [(k, reordered flags v)])" "p < w_brk w1" "statics_below w1"
      using S [OF a] by blast
    show thesis using that [OF w1 b(1)] b(2) parse_end_ok [OF b(3)] by blast
  next
    fix k' s1 s2 q s3 s4 s5 s6 assume a: "parse_key point n f p s = Some (Some k', s1)" "lex_scan point n s1 = Some s2" "parse_value n point f s2 = Some (Some q, s3)"
      "lift_world (json_object_set_new_nocheck (Some p) (Some k') (Some q)) s3 = (0, s4)"
      and b: "lex_scan point n s4 = Some s5" "ps_token s5 = 44" "lex_scan point n s5 = Some s6" "parse_object_loop n point f p s6 = Some (r, s')"
    obtain w1 t c1 where w1: "rd L (w1, d, f, t) s4 c1 rest" "grown (Some p) w w1" "object_of w1 p (us @ [(k, reordered flags v)])" "p < w_brk w1" "statics_below w1"
      using S [OF a] by blast
    show thesis using that [OF w1 b(1)] b(2-4) by simp
  qed
qed

lemma object_items:
  assumes "\<forall>x \<in> set ((k, v) # kvs). member_fits point flags L f (Suc depth) d x" "distinct (map fst us @ k # map fst kvs)" "length us + length kvs < 2 ^ 31"
    "rd L (w, d, f, TOKEN_STRING) s c (58 # colon_text flags @ value_text point flags (Suc depth) v @ after_items flags depth 125 (map (member_of point flags (Suc depth)) kvs) rest)"
    "lx_string (ps_lex s) = Some k" "statics_below w" "object_of w p us" "p < w_brk w" "p \<notin> statics" "\<not> flag_set f JSON_DECODE_INT_AS_REAL"
    "parse_object_loop n point f p s = Some (r, s')"
  shows "\<exists>w' t c. r = Some p \<and> rd L (w', d, f, t) s' c rest \<and> grown (Some p) w w' \<and> p < w_brk w' \<and>
    object_of w' p (us @ map (\<lambda>(k, v). (k, reordered flags v)) ((k, v) # kvs))"
  using assms
proof (induction kvs arbitrary: k v w s c us n)
  case Nil
  obtain m where m: "n = Suc m" using Nil.prems(11) by (cases n) auto
  have v: "member_fits point flags L f (Suc depth) d (k, v)" "k \<notin> fst ` set us" "length us < 2 ^ 31" using Nil.prems(1-3) by auto
  obtain w1 t c1 s2 s3 where w1: "rd L (w1, d, f, t) s2 c1 (after_items flags depth 125 [] rest)" "grown (Some p) w w1"
    "object_of w1 p (us @ [(k, reordered flags v)])" "p < w_brk w1" "lex_scan point m s2 = Some s3" "ps_token s3 = 125 \<Longrightarrow> r = Some p \<and> s' = s3"
    by (rule object_round [OF v(1) Nil.prems(4,5) ended_after Nil.prems(6,8,9,7) v(2,3) Nil.prems(10) Nil.prems(11) [unfolded m]]) auto
  obtain c2 where c2: "rd L (w1, d, f, 125) s3 c2 rest" using after_last [OF w1(1) _ w1(5)] by auto
  then have "r = Some p" "s' = s3" using w1(6) readingD(1) by auto
  then show ?case using w1 c2 by auto
next
  case (Cons kv kvs)
  obtain k2 v2 where kv: "kv = (k2, v2)" by fastforce
  obtain m where m: "n = Suc m" using Cons.prems(11) by (cases n) auto
  let ?txt = "member_of point flags (Suc depth)"
  have v: "member_fits point flags L f (Suc depth) d (k, v)" "k \<notin> fst ` set us" "length us < 2 ^ 31" using Cons.prems(1-3) by auto
  obtain w1 t c1 s2 s3 where w1: "rd L (w1, d, f, t) s2 c1 (after_items flags depth 125 (?txt kv # map ?txt kvs) rest)" "grown (Some p) w w1"
    "object_of w1 p (us @ [(k, reordered flags v)])" "p < w_brk w1" "statics_below w1" "lex_scan point m s2 = Some s3"
    "ps_token s3 = 44 \<Longrightarrow> \<exists>s4. lex_scan point m s3 = Some s4 \<and> parse_object_loop m point f p s4 = Some (r, s')"
    by (rule object_round [OF v(1) Cons.prems(4,5) ended_after Cons.prems(6,8,9,7) v(2,3) Cons.prems(10) Cons.prems(11) [unfolded m]]) auto
  obtain c2 where c2: "rd L (w1, d, f, 44) s3 c2 (indent_text flags (Suc depth) True @ ?txt kv @ after_items flags depth 125 (map ?txt kvs) rest)"
    using after_more [OF w1(1,6)] by blast
  then obtain s4 where s4: "lex_scan point m s3 = Some s4" "parse_object_loop m point f p s4 = Some (r, s')" using w1(7) readingD(1) by blast
  have fit: "member_fits point flags L f (Suc depth) d (k2, v2)" using Cons.prems(1) kv by simp
  obtain c3 where c3: "rd L (w1, d, f, TOKEN_STRING) s4 c3 (58 # colon_text flags @ value_text point flags (Suc depth) v2 @ after_items flags depth 125 (map ?txt kvs) rest)"
    "lx_string (ps_lex s4) = Some k2"
    using lex_scan_string_token [of L w1 d f 44 s3 c2 "indent_text flags (Suc depth) True" flags k2, OF _ indent_space _ s4(1)] c2 kv fit
    by (auto simp: member_of_text member_fits_def)
  have pre: "\<forall>x \<in> set ((k2, v2) # kvs). member_fits point flags L f (Suc depth) d x" "distinct (map fst (us @ [(k, reordered flags v)]) @ k2 # map fst kvs)"
    "length (us @ [(k, reordered flags v)]) + length kvs < 2 ^ 31" using Cons.prems(1-3) kv by auto
  obtain w' t' c' where "r = Some p" "rd L (w', d, f, t') s' c' rest" "grown (Some p) w1 w'" "p < w_brk w'"
    "object_of w' p ((us @ [(k, reordered flags v)]) @ map (\<lambda>(k, v). (k, reordered flags v)) ((k2, v2) # kvs))"
    using Cons.IH [OF pre c3 w1(5,3,4) Cons.prems(9,10) s4(2)] by blast
  then show ?case using grown_trans [OF w1(2)] kv by fastforce
qed

lemma object_reads_back:
  assumes "\<And>k v. (k, v) \<in> set kvs \<Longrightarrow> reads_back point flags L f (Suc depth) v" "readable f (VObject kvs)" "\<not> flag_set f JSON_DECODE_INT_AS_REAL"
  shows "reads_back point flags L f depth (VObject kvs)"
  unfolding reads_back_def
proof (intro allI impI)
  fix w d s c rest n r s'
  assume rd: "rd L (w, d, f, first_token (VObject kvs)) s c (text_rest point flags depth (VObject kvs) @ rest)" and st: "statics_below w"
    and dep: "d + height (VObject kvs) \<le> JSON_PARSER_MAX_DEPTH" and p: "parse_value n point f s = Some (r, s')"
  let ?txt = "member_of point flags (Suc depth)" and ?p = "w_brk w" and ?kvs = "in_order flags kvs"
  have tr: "text_rest point flags depth (VObject kvs) = tl (bracket_text flags depth 123 125 (map ?txt ?kvs))" using object_text by simp
  obtain m where m: "n = Suc m" using p by (cases n) auto
  have tk: "ps_token s = 123" "lx_depth (ps_lex s) = d" "w_mem w = mem_ok" using readingD [OF rd] by auto
  have dep1: "lx_depth (ps_lex s) < JSON_PARSER_MAX_DEPTH" using dep tk(2) by simp
  obtain s1 where s1: "s' = leave r s1" "parse_container json_object point m 125 (parse_object_loop m point f) (deeper s) = Some (r, s1)"
    using parse_value_object [OF p [unfolded m] tk(1) dep1] by blast
  obtain x s2 where x: "lift_world json_object (deeper s) = (x, s2)" by fastforce
  note rd1 = reading_deeper [OF rd [unfolded tr]]
  from lift_world_reading [OF rd1 x] obtain w1 where w1: "json_object w = (x, w1)" "s2 = (deeper s)\<lparr>ps_world := w1\<rparr>" .
  obtain h where M: "makes (JObject h) x w w1" "ht_rel (w_seed w1) h []" "w_seed w1 \<noteq> 0" using json_object_makes [OF tk(3) w1(1)] by blast
  have W: "x = Some ?p" "grown None w w1" "?p < w_brk w1" "object_of w1 ?p []" "w_mem w1 = mem_ok" using M makes_grown [OF M(1)] new_object_of [OF M] by (auto simp: makes_def)
  have st1: "statics_below w1" "?p \<notin> statics" using grown_statics [OF W(2) st] st by (auto simp: statics_below_def)
  note rd2 = reading_world [OF rd1 W(5), folded w1(2)]
  obtain s3 where s3: "lex_scan point m s2 = Some s3" "if ps_token s3 = 125 then (r, s1) = (Some ?p, s3) else parse_object_loop m point f ?p s3 = Some (r, s1)"
    using s1(2) x W(1) by (auto simp: parse_container_def bind_eq_Some_conv split: if_splits)
  have ord: "distinct (map fst ?kvs)" "length ?kvs < 2 ^ 31" "set ?kvs \<subseteq> set kvs" using assms(2) in_order_keys [of kvs flags] in_order_subset [of kvs flags] by auto
  have fits: "member_fits point flags L f (Suc depth) (Suc d) kv" if i: "kv \<in> set ?kvs" for kv
  proof -
    obtain k v where kv: "kv = (k, v)" "(k, v) \<in> set kvs" using i ord(3) by (metis subsetD surj_pair)
    have "Suc d + height v \<le> JSON_PARSER_MAX_DEPTH" using height_object [OF kv(2)] dep by linarith
    then show ?thesis using assms(1) [OF kv(2)] assms(2) kv by (auto simp: member_fits_def)
  qed
  have "\<exists>w' t c. r = Some ?p \<and> rd L (w', Suc d, f, t) s1 c rest \<and> grown (Some ?p) w1 w' \<and> ?p < w_brk w' \<and> object_of w' ?p (map (\<lambda>(k, v). (k, reordered flags v)) ?kvs)"
  proof (cases ?kvs)
    case Nil
    then have "rd L (w1, Suc d, f, 123) s2 c ([] @ 125 # rest)" using rd2 by (simp add: bracket_text_def)
    from lex_scan_punct [OF this _ _ s3(1)] obtain c3 where "rd L (w1, Suc d, f, 125) s3 c3 rest" by auto
    then show ?thesis using s3(2) readingD(1) W Nil grown_refl [OF W(5)] by fastforce
  next
    case (Cons kv kvs')
    obtain k v where kv: "kv = (k, v)" by fastforce
    have "rd L (w1, Suc d, f, 123) s2 c (indent_text flags (Suc depth) False @ string_text flags k @ 58 # colon_text flags @ value_text point flags (Suc depth) v @
        after_items flags depth 125 (map ?txt kvs') rest)"
      using rd2 unfolding Cons kv bracket_members by simp
    from lex_scan_string_token [OF this indent_space _ s3(1)] fits [of kv] Cons kv obtain c3 where
      c3: "rd L (w1, Suc d, f, TOKEN_STRING) s3 c3 (58 # colon_text flags @ value_text point flags (Suc depth) v @ after_items flags depth 125 (map ?txt kvs') rest)"
        "lx_string (ps_lex s3) = Some k" by (auto simp: member_fits_def)
    have "ps_token s3 \<noteq> 125" using readingD(1) [OF c3(1)] by (simp add: tokens)
    then have lp: "parse_object_loop m point f ?p s3 = Some (r, s1)" using s3(2) by simp
    have pre: "\<forall>x \<in> set ((k, v) # kvs'). member_fits point flags L f (Suc depth) (Suc d) x" "distinct (map fst ([] :: (byte list \<times> jval) list) @ k # map fst kvs')"
      "length ([] :: (byte list \<times> jval) list) + length kvs' < 2 ^ 31" using fits ord(1,2) Cons kv by auto
    show ?thesis using object_items [OF pre c3 st1(1) W(4,3) st1(2) assms(3) lp] Cons kv by simp
  qed
  then obtain w' t c' where f: "r = Some ?p" "rd L (w', Suc d, f, t) s1 c' rest" "grown (Some ?p) w1 w'" "?p < w_brk w'"
    "object_of w' ?p (map (\<lambda>(k, v). (k, reordered flags v)) ?kvs)" by blast
  have "grown None w w'" using W(2,3) f(3) by (auto simp: grown_def)
  then show "\<exists>p w' t c. r = Some p \<and> rd L (w', d, f, t) s' c rest \<and> grown None w w' \<and> built (cells (w_brk w) w') w' (reordered flags (VObject kvs)) p"
    using f s1(1) reading_leave [OF f(2), of ?p] object_of_built [OF f(5,4)] unfolding object_reordered by auto
qed

lemma value_reads_back:
  assumes "readable f v" "\<not> flag_set f JSON_DECODE_INT_AS_REAL"
  shows "reads_back point flags L f depth v"
  using assms(1)
proof (induction v arbitrary: depth)
  case (VArray vs)
  then show ?case using array_reads_back [OF _ VArray.prems assms(2)] by simp
next
  case (VObject kvs)
  have "reads_back point flags L f (Suc depth) v" if "(k, v) \<in> set kvs" for k v
    using VObject.IH [OF that, of v] VObject.prems that by (fastforce simp: snds.simps)
  then show ?case using object_reads_back [OF _ VObject.prems assms(2)] by simp
qed (simp_all add: scalar_reads_back container_def)

end

section \<open>The text is UTF-8\<close>

lemma utf8_of_append: "utf8_of (a @ b) = utf8_of a @ utf8_of b"
  by (induction a) auto

lemma check_string_append: "utf8_check_string a \<Longrightarrow> utf8_check_string b \<Longrightarrow> utf8_check_string (a @ b)"
proof -
  assume "utf8_check_string a" "utf8_check_string b"
  then obtain x y where "\<forall>c \<in> set x. scalar c" "a = utf8_of x" "\<forall>c \<in> set y. scalar c" "b = utf8_of y" using utf8_check_string_sound by metis
  then show ?thesis using utf8_check_string_of [of "x @ y"] by (auto simp: utf8_of_append)
qed

lemma check_string_encode: "scalar c \<Longrightarrow> utf8_encode c = Some bs \<Longrightarrow> utf8_check_string bs"
  using utf8_check_string_of [of "[c]"] by simp

lemma check_string_ascii: "\<forall>b \<in> set bs. uint b < 128 \<Longrightarrow> utf8_check_string bs"
proof (induction bs)
  case (Cons b bs)
  have s: "scalar (uint b)" using Cons.prems by (simp add: scalar_def)
  have "utf8_encode (uint b) = Some [b]"
    using s by (cases rule: utf8_encode_cases) (use Cons.prems in \<open>auto simp: to_byte_def\<close>)
  then show ?case using check_string_append [OF check_string_encode [OF s] Cons.IH] Cons.prems by simp
qed simp

lemma escape_text_ascii: "scalar c \<Longrightarrow> b \<in> set (escape_text c) \<Longrightarrow> uint b < 128"
proof -
  assume a: "scalar c" "b \<in> set (escape_text c)"
  have d: "uint x < 128" if i: "x \<in> set (fmt_04X n)" "n < 65536" for x n
  proof -
    obtain ds where "fmt_04X n = map (digit_byte True) ds" "\<forall>d \<in> set ds. d < 16" using fmt_04X_digits [OF i(2)] by metis
    then obtain d where "x = digit_byte True d" "d < 16" using i(1) by auto
    then show ?thesis using uint_digit_byte(1) [of d True] uint_digit_byte(2) [of d] by (cases "d < 10") auto
  qed
  show ?thesis using a(1)
  proof (cases rule: escape_text_cases)
    case hex then show ?thesis using a(2) d [of b "nat c"] by auto
  next
    case pair
    then have "nat (0xD800 + (c - 0x10000) div 1024) < 65536" "nat (0xDC00 + (c - 0x10000) mod 1024) < 65536" by auto
    then show ?thesis using pair a(2) d by auto
  qed (use a(2) in auto)
qed

lemma escape_string_utf8: "utf8_check_string (escape_string flags s)"
proof (induction flags s rule: escape_string.induct)
  case (1 flags s)
  show ?case
  proof (cases "\<exists>n c. utf8_iterate s = Some (n, Some c)")
    case True
    then obtain n c where it: "utf8_iterate s = Some (n, Some c)" by blast
    note snd = utf8_iterate_sound [OF it]
    have "utf8_check_string (piece flags c (take n s))"
      using check_string_encode [of c "take n s"] check_string_ascii [of "escape_text c"] escape_text_ascii [of c] snd by (auto simp: piece_def)
    then show ?thesis using "1.IH" [OF it] check_string_append by (simp add: escape_string_step [OF it] piece_def)
  next
    case False
    then show ?thesis by (subst escape_string.simps) (auto split: option.splits)
  qed
qed

lemma string_text_utf8: "utf8_check_string (string_text flags s)"
  using check_string_append [OF check_string_ascii [of "[34]"] check_string_append [OF escape_string_utf8 check_string_ascii [of "[34]"]]]
  by (simp add: string_text_def)

lemma indent_utf8: "utf8_check_string (indent_text flags depth b)"
  using indent_space [of flags depth b] by (intro check_string_ascii) auto

lemma join_utf8: "\<forall>t \<in> set ts. utf8_check_string t \<Longrightarrow> utf8_check_string (join_items flags depth ts)"
proof (induction ts)
  case (Cons t ts)
  have "utf8_check_string [44]" by (rule check_string_ascii) simp
  then have "utf8_check_string (44 # indent_text flags (Suc depth) True)" using check_string_append [OF _ indent_utf8] by fastforce
  then show ?case using Cons indent_utf8 by (simp add: join_items_Cons) (metis check_string_append append_Cons append_Nil2 join_items.simps(1))
qed simp

lemma bracket_utf8: "\<forall>t \<in> set ts. utf8_check_string t \<Longrightarrow> uint op < 128 \<Longrightarrow> uint cl < 128 \<Longrightarrow> utf8_check_string (bracket_text flags depth op cl ts)"
proof -
  assume a: "\<forall>t \<in> set ts. utf8_check_string t" "uint op < 128" "uint cl < 128"
  have "utf8_check_string ([op] @ indent_text flags (Suc depth) False @ join_items flags depth ts @ [cl])"
    by (intro check_string_append indent_utf8 join_utf8 a(1) check_string_ascii) (use a in auto)
  moreover have "utf8_check_string [op, cl]" by (rule check_string_ascii) (use a in auto)
  ultimately show ?thesis by (simp add: bracket_text_def)
qed

lemma value_text_utf8: "readable f v \<Longrightarrow> utf8_check_string (value_text point flags depth v)"
proof (induction v arbitrary: depth)
  case (VInteger i)
  have "uint b < 128" if "b \<in> set (fmt_d i)" for b
    using that fmt_u_digits [of b "nat i"] fmt_u_digits [of b "nat (- i)"]
    by (auto simp: fmt_d_def is_digit_byte_def l_isdigit_def split: if_splits)
  then show ?case by (simp add: check_string_ascii)
next
  case (VArray vs)
  then show ?case by (simp add: bracket_utf8)
next
  case (VObject kvs)
  have kv: "utf8_check_string (member_of point flags (Suc depth) (k, v))" if i: "(k, v) \<in> set kvs" for k v
  proof -
    have "readable f v" using VObject.prems i by auto
    then have "utf8_check_string (value_text point flags (Suc depth) v)" using VObject.IH [OF i, of v] by (simp add: snds.simps)
    moreover have "utf8_check_string (58 # colon_text flags)" by (rule check_string_ascii) (simp add: colon_text_def)
    ultimately show ?thesis using check_string_append [OF string_text_utf8 check_string_append, of "58 # colon_text flags" "value_text point flags (Suc depth) v" flags k]
      by (simp add: member_of_text)
  qed
  have "set (in_order flags kvs) \<subseteq> set kvs" using VObject.prems in_order_subset [of kvs flags] by simp
  then have "\<forall>t \<in> set (map (member_of point flags (Suc depth)) (in_order flags kvs)). utf8_check_string t" using kv by fastforce
  then show ?case unfolding object_text by (rule bracket_utf8) simp_all
next
  case (VString s) then show ?case using string_text_utf8 by simp
qed (simp_all add: check_string_ascii)

lemma readable_printable: "readable f v \<Longrightarrow> printable point flags v"
  by (induction v) (auto simp: snds.simps split: prod.splits)

section \<open>Loading what was dumped\<close>

context byte_source
begin

lemma lex_scan_end:
  assumes "rd L e s c []" "lex_scan point n s = Some s'"
  shows "ps_token s' = TOKEN_EOF \<and> ps_world s' = ps_world s"
proof -
  let ?s1 = "upd_lex (\<lambda>l. l\<lparr>lx_saved_text := strbuffer_clear (lx_saved_text l)\<rparr>) s"
  let ?s2 = "if ps_token ?s1 = TOKEN_STRING then lex_free_string ?s1 else ?s1"
  have r2: "rd L e ?s2 [] []" using reading_clear [OF assms(1)] by simp
  then have "ready ?s2" by (simp add: reading_def)
  then obtain st' where g: "stream_get ?s2 = (STREAM_STATE_EOF, upd_stream (\<lambda>_. st') ?s2)"
    by (cases rule: stream_get_cases) (use r2 in \<open>auto simp: reading_def stream_states\<close>)
  obtain m where m: "n = Suc m" using assms(2) by (cases n) (auto simp: lex_scan_def Let_def)
  have "s' = set_token TOKEN_EOF (upd_stream (\<lambda>_. st') ?s2)" using assms(2) g m by (simp add: lex_scan_def lex_get_def Let_def stream_states)
  then show ?thesis by (simp add: set_token_def upd_stream_def upd_lex_def lex_free_string_def)
qed

lemma parse_json_reads_back:
  assumes "rd L (w, d, f, t) s c (value_text point flags 0 v)" "container v" "readable f v" "height v \<le> JSON_PARSER_MAX_DEPTH" "statics_below w"
    "\<not> flag_set f JSON_DECODE_INT_AS_REAL" "parse_json n point f s = Some (r, s')"
  shows "\<exists>p w'. r = Some p \<and> ps_world s' = w' \<and> grown None w w' \<and> built (cells (w_brk w) w') w' (reordered flags v) p"
proof -
  let ?s0 = "upd_lex (\<lambda>l. l\<lparr>lx_depth := 0\<rparr>) s"
  have r0: "rd L (w, 0, f, t) ?s0 c ([] @ value_text point flags 0 v @ [])" using assms(1) by (auto simp: reading_def surroundings_def upd_lex_def)
  obtain s1 where s1: "lex_scan point n ?s0 = Some s1" using assms(7) by (auto simp: parse_json_def bind_eq_Some_conv)
  have en: "ended v []" using assms(2) by (simp add: ended_def)
  obtain c1 where c1: "rd L (w, 0, f, first_token v) s1 c1 (text_rest point flags 0 v @ [])" "token_value s1 v"
    using value_token [OF r0 _ assms(3) en assms(6) s1] by auto
  have tok: "ps_token s1 = 91 \<or> ps_token s1 = 123" using readingD(1) [OF c1(1)] assms(2) by (auto simp: container_def)
  obtain x s2 where s2: "parse_value n point f s1 = Some (x, s2)" using assms(7) s1 tok by (auto simp: parse_json_def bind_eq_Some_conv simp del: cstr_Cons)
  obtain p w' t' c2 where p: "x = Some p" "rd L (w', 0, f, t') s2 c2 []" "grown None w w'" "built (cells (w_brk w) w') w' (reordered flags v) p"
    by (rule reads_backD [OF value_reads_back [OF assms(3,6)] c1 en assms(5) _ s2]) (use assms(4) in auto)
  have wd: "ps_world s2 = w'" using readingD(4) [OF p(2)] .
  show ?thesis
  proof (cases "flag_set f JSON_DISABLE_EOF_CHECK")
    case True
    then have "r = Some p \<and> ps_world s' = w'" using assms(7) s1 tok s2 p(1) wd by (auto simp: parse_json_def)
    then show ?thesis using p by blast
  next
    case False
    then obtain s3 where s3: "lex_scan point n s2 = Some s3" using assms(7) s1 tok s2 p(1) by (auto simp: parse_json_def bind_eq_Some_conv)
    note E = lex_scan_end [OF p(2) s3]
    have "r = Some p \<and> ps_world s' = w'" using assms(7) s1 tok s2 p(1) wd False s3 E by (auto simp: parse_json_def)
    then show ?thesis using p by blast
  qed
qed

lemma load_with_reads_back:
  assumes "bytes data = value_text point flags 0 v" "length (value_text point flags 0 v) \<le> 2 ^ 60" "container v" "readable f v" "height v \<le> JSON_PARSER_MAX_DEPTH"
    "statics_below w" "w_mem w = mem_ok" "\<not> flag_set f JSON_DECODE_INT_AS_REAL" "load_with n point get data f error w = Some (r, e, w')"
  shows "\<exists>p. r = Some p \<and> grown None w w' \<and> built (cells (w_brk w) w') w' (reordered flags v) p"
proof -
  obtain sb where sb: "strbuffer_init mem_ok = (0, sb, mem_ok)" "saved_ok (length (value_text point flags 0 v)) sb []"
    by (auto simp: strbuffer_init_def saved_ok_def sb_wf_def sb_content_def STRBUFFER_MIN_SIZE_def SIZE_MAX_def)
  define s where "s = \<lparr>ps_lex = \<lparr>lx_stream = stream_init get data, lx_saved_text = sb, lx_flags = f, lx_depth = 0, lx_token = TOKEN_INVALID,
    lx_string = None, lx_integer = 0, lx_real = 0\<rparr>, ps_error = error, ps_world = w\<rparr>"
  have init: "lex_init get f data error w = (0, s)" using sb(1) assms(7) mem_ok_same [OF assms(7)] by (simp add: lex_init_def s_def)
  have "rd (length (value_text point flags 0 v)) (w, 0, f, TOKEN_INVALID) s [] (value_text point flags 0 v)"
    using stream_init_ready sb(2) assms(1,2,7) value_text_utf8 [OF assms(4)]
    by (auto simp: reading_def s_def surroundings_def ahead_def stream_init_def held_def c_string_def)
  moreover obtain s' where s': "parse_json n point f s = Some (r, s')" "w' = ps_world s'"
    using assms(9) init by (auto simp: load_with_def load_result_def lex_close_def Let_def lex_free_string_def upd_lex_def split: prod.splits if_splits)
  ultimately show ?thesis using parse_json_reads_back [OF _ assms(3-6,8) s'(1)] s'(2) by blast
qed

end

lemma json_loads_reads_body:
  assumes "c_string b = value_text point flags 0 v"
    "container v" "readable f v" "height v \<le> JSON_PARSER_MAX_DEPTH" "length (value_text point flags 0 v) \<le> 2 ^ 60"
    "statics_below w" "w_mem w = mem_ok" "\<not> flag_set f JSON_DECODE_INT_AS_REAL"
  shows "\<exists>p e w'. json_loads point (Some b) f error w = Some (Some p, e, w') \<and> grown None w w' \<and> views w' (reordered flags v) p"
proof -
  obtain r e w' where l: "json_loads point (Some b) f error w = Some (r, e, w')" using json_loads_ends by blast
  have t: "string_rest \<lparr>sd_data = b, sd_pos = 0\<rparr> = value_text point flags 0 v" using assms(1) by (simp add: string_rest_def)
  have "load_with (load_fuel (length b)) point string_get \<lparr>sd_data = b, sd_pos = 0\<rparr> f (jsonp_error_init error (Some (cstr ''<string>''))) w = Some (r, e, w')"
    using l by (simp add: json_loads_def Let_def)
  from str.load_with_reads_back [OF t assms(5,2,3,4,6,7,8) this] obtain p where
    "r = Some p" "grown None w w'" "built (cells (w_brk w) w') w' (reordered flags v) p" by blast
  then show ?thesis using l built_views by blast
qed

lemma reordered_same: "\<not> dflag flags JSON_SORT_KEYS \<Longrightarrow> reordered flags v = v"
proof (induction v)
  case (VArray vs)
  then show ?case by (simp add: map_idI)
next
  case (VObject kvs)
  have "(\<lambda>(k, v). (k, reordered flags v)) kv = kv" if "kv \<in> set kvs" for kv
    using VObject that by (cases kv) (auto simp: snds.simps)
  then show ?case using VObject.prems by (simp add: in_order_def map_idI)
qed simp_all



end
