(* ===== verification/Json_Dump_Loops.thy ===== *)
theory Json_Dump_Loops
  imports Json_Parse_Heap Json_Dump_Correct
begin

text \<open>
  The encoder on arbitrary heaps.  \<^verbatim>\<open>Json_Dump_Correct\<close> follows the encoder on trees while memory lasts; here
  nothing is assumed of the shape of the value or of the allocator.  The interface \<^verbatim>\<open>quiet_sink\<close> asks of a sink
  only that it leaves the heap alone; the four sinks of \<^verbatim>\<open>dump.c\<close> are instances.  A piece of the encoder
  \<^verbatim>\<open>runs\<close> from one set of open containers to another: on success the table of parents is as it was and the
  value printed is a tree, on failure the table still holds only borrowed constants, so that closing it releases nothing.
\<close>

section \<open>A sink that leaves the heap alone\<close>

lemma same_heap_frame:
  assumes "same_heap w w'"
  shows "w_heap w' = w_heap w" "w_brk w' = w_brk w" "w_seed w' = w_seed w" "w_fault w' = w_fault w"
  using arg_cong [OF assms [unfolded same_heap_def], of w_heap] arg_cong [OF assms [unfolded same_heap_def], of w_brk]
    arg_cong [OF assms [unfolded same_heap_def], of w_seed] arg_cong [OF assms [unfolded same_heap_def], of w_fault]
  by simp_all

lemma same_heap_mem [simp]: "same_heap w (w'\<lparr>w_mem := m\<rparr>) = same_heap w w'"
  by (simp add: same_heap_def)

lemma same_heap_table:
  "same_heap w w' \<Longrightarrow> object_table w' = object_table w" "same_heap w w' \<Longrightarrow> array_at w' = array_at w"
  by (auto simp: object_table_def array_at_def fun_eq_iff same_heap_data)

lemma same_heap_get: "same_heap w w' \<Longrightarrow> json_object_get w' json key = json_object_get w json key"
  using same_heap_frame(3) [of w w'] same_heap_table(1) [of w w'] unfolding json_object_get_def by metis

lemma same_heap_statics: "same_heap w w' \<Longrightarrow> statics_ok w' = statics_ok w"
  by (simp add: statics_ok_def same_heap_frame)

text \<open>The heaps that a run of the library leaves, within the 64 bit address space.\<close>

definition loopable :: "world \<Rightarrow> bool" where
  "loopable w \<longleftrightarrow> (\<exists>E. rc_inv {} E w) \<and> w_brk w \<le> 2 ^ 64 \<and> card (dom (w_heap w)) < 2 ^ 31"

lemma loopableD:
  assumes "loopable w"
  shows "statics_ok w" "finite (dom (w_heap w))" "dom (w_heap w) \<subseteq> {1..<w_brk w}" "dom (w_heap w) \<subseteq> {..<2 ^ 64}"
    "card (dom (w_heap w)) < 2 ^ 31"
  using assms rc_invD(2,3,4) by (fastforce simp: loopable_def)+

locale quiet_sink =
  fixes dump :: "'d sink"
  assumes quiet: "dump text d w = (r, d', w') \<Longrightarrow> same_heap w w'"
begin

text \<open>The heap is \<^term>\<open>w\<close> up to the state of the allocator, and the containers being printed are \<^term>\<open>A\<close>.\<close>

definition tracked :: "world \<Rightarrow> ptr list \<Rightarrow> 'd dumper \<Rightarrow> bool" where
  "tracked w A s \<longleftrightarrow> same_heap w (dm_world s) \<and> ht_rel (w_seed w) (dm_parents s) (parents_of A)"

definition steady :: "('d dumper \<Rightarrow> int \<times> 'd dumper) \<Rightarrow> bool" where
  "steady f \<longleftrightarrow> (\<forall>w A s. tracked w A s \<longrightarrow> tracked w A (snd (f s)))"

definition runs :: "world \<Rightarrow> ptr list \<Rightarrow> ptr list \<Rightarrow> bool \<Rightarrow> ('d dumper \<Rightarrow> int \<times> 'd dumper) \<Rightarrow> bool" where
  "runs w A B Q f \<longleftrightarrow> (\<forall>s r s'. tracked w A s \<longrightarrow> f s = (r, s') \<longrightarrow>
     (r = 0 \<longrightarrow> tracked w B s' \<and> Q) \<and> (\<exists>A'. tracked w A' s'))"

lemma steady_runs: "steady f \<Longrightarrow> runs w A A True f"
  unfolding steady_def runs_def by (metis snd_conv)

lemma runsD:
  assumes "runs w A B Q f" "tracked w A s" "f s = (r, s')"
  shows "r = 0 \<Longrightarrow> Q" "\<exists>A'. tracked w A' s'"
  using assms unfolding runs_def by blast+

lemma and_then_run: "f s = (r, s1) \<Longrightarrow> and_then f g s = (if r \<noteq> 0 then (-1, s1) else g s1)"
  by (simp add: and_then_def)

lemma runs_cong:
  assumes "runs w A B Q f" "\<And>s. tracked w A s \<Longrightarrow> f s = g s"
  shows "runs w A B Q g"
  using assms unfolding runs_def by metis

lemma runs_mono: "runs w A B Q f \<Longrightarrow> (Q \<Longrightarrow> R) \<Longrightarrow> runs w A B R f"
  unfolding runs_def by blast

lemma runs_then:
  assumes "runs w A B Q f" "Q \<Longrightarrow> runs w B C R g"
  shows "runs w A C (Q \<and> R) (and_then f g)"
  unfolding runs_def
proof (intro allI impI)
  fix s r s'
  assume s: "tracked w A s" "and_then f g s = (r, s')"
  obtain r1 s1 where f: "f s = (r1, s1)" by (metis surj_pair)
  then have f': "r1 = 0 \<longrightarrow> tracked w B s1 \<and> Q" "\<exists>A'. tracked w A' s1" using assms(1) s(1) unfolding runs_def by blast+
  show "(r = 0 \<longrightarrow> tracked w C s' \<and> Q \<and> R) \<and> (\<exists>A'. tracked w A' s')"
  proof (cases "r1 = 0")
    case True
    then have "g s1 = (r, s')" "tracked w B s1" "Q" using f f'(1) s(2) by (auto simp: and_then_def)
    then show ?thesis using assms(2) unfolding runs_def by blast
  next
    case False
    then show ?thesis using f f'(2) s(2) by (auto simp: and_then_def)
  qed
qed

lemma runs_skip: "runs w A A True skip"
  by (auto simp: runs_def skip_def)

lemma runs_fail: "runs w A B Q (\<lambda>s. (-1, s))"
  by (auto simp: runs_def)

lemma steady_then: "steady f \<Longrightarrow> steady g \<Longrightarrow> steady (and_then f g)"
  unfolding steady_def by (auto simp: and_then_def split: prod.split) (metis snd_conv)+

lemma steady_emit: "steady (emit dump text)"
  unfolding steady_def tracked_def by (auto simp: emit_def split: prod.split dest!: quiet intro: same_heap_trans)

lemma steady_indent_loop: "steady (indent_loop fuel dump k)"
proof (induction fuel arbitrary: k)
  case (Suc fuel)
  show ?case
  proof (cases "k = 0")
    case False
    then have "indent_loop (Suc fuel) dump k =
        and_then (emit dump (replicate (min k 32) 32)) (indent_loop fuel dump (k - min k 32))"
      by (simp add: fun_eq_iff Let_def)
    then show ?thesis using steady_then [OF steady_emit Suc] by simp
  qed (simp add: steady_def)
qed (simp add: steady_def)

lemma steady_indent: "steady (dump_indent flags depth space dump)"
  using steady_then [OF steady_emit steady_indent_loop] steady_emit
  unfolding steady_def by (auto simp: dump_indent_def Let_def)

lemma steadyD: "steady f \<Longrightarrow> tracked w A s \<Longrightarrow> f s = (r, s') \<Longrightarrow> tracked w A s'"
  unfolding steady_def by (metis snd_conv)

lemma steady_string_loop: "tracked w A s \<Longrightarrow> tracked w A (snd (dump_string_loop flags dump str s))"
proof (induction "length str" arbitrary: str s rule: less_induct)
  case less
  show ?case
  proof (cases "dump_scan flags str 0 0")
    case None
    then show ?thesis using less.prems by (simp add: dump_string_loop.simps)
  next
    case (Some x)
    obtain pos fin cp where x: "x = (pos, fin, cp)" by (metis prod_cases3)
    obtain r1 s1 where e1: "(if pos \<noteq> 0 then emit dump (take pos str) s else (0, s)) = (r1, s1)" by (metis surj_pair)
    have t1: "tracked w A s1" using e1 less.prems steadyD [OF steady_emit] by (auto split: if_splits)
    obtain r2 s2 where e2: "emit dump (escape_text cp) s1 = (r2, s2)" by (metis surj_pair)
    have t2: "tracked w A s2" using steadyD [OF steady_emit t1 e2] .
    have t3: "tracked w A (snd (emit dump bs s1))" for bs using steady_emit t1 by (simp add: steady_def)
    have b: "pos \<le> fin \<and> fin \<le> length str" using dump_scan_bounds [of flags str 0 0 pos fin cp] Some x by auto
    have "tracked w A (snd (dump_string_loop flags dump (drop fin str) s2))" if "fin \<noteq> pos"
      by (rule less.hyps [OF _ t2]) (use b that in auto)
    then show ?thesis using Some x e1 e2 t1 t2 t3 by (subst dump_string_loop.simps) (simp split: if_splits)
  qed
qed

lemma steady_string: "steady (dump_string str dump flags)"
  using steady_then [OF steady_emit, of "dump_string_loop flags dump str"] steady_string_loop
  unfolding steady_def by (simp add: dump_string_def)

lemma steady_separator: "steady (dump_separator dump flags depth cont)"
  using steady_then [OF steady_emit steady_indent] steady_indent
  unfolding steady_def by (auto simp: dump_separator_def)

section \<open>Entering and leaving containers\<close>

lemma runs_enter:
  assumes ok: "loopable w" and A: "set A \<subseteq> dom (w_heap w)" "distinct A" and p: "p \<in> dom (w_heap w)"
  shows "runs w A (A @ [p]) (p \<notin> set A) (loop_enter p)"
  unfolding runs_def
proof (intro allI impI)
  fix s r s'
  assume t: "tracked w A s" and e: "loop_enter p s = (r, s')"
  have small: "set A \<subseteq> {..<2 ^ 64}" "p < 2 ^ 64" using loopableD(4) [OF ok] A(1) p by auto
  have rel: "ht_rel (w_seed w) (dm_parents s) (parents_of A)" and same: "same_heap w (dm_world s)" using t by (auto simp: tracked_def)
  note seed = same_heap_frame(3) [OF same]
  obtain r1 h m w' where set: "hashtable_set decref_ptr (w_seed w) (loop_key p) null_ptr (dm_parents s) (w_mem (dm_world s)) (dm_world s) =
      (r1, h, m, w')" by (metis prod_cases4)
  have "length A \<le> card (dom (w_heap w))" using A loopableD(2) [OF ok] by (metis card_mono distinct_card)
  then have len: "length (parents_of A) < 2 ^ 31" using loopableD(5) [OF ok] by (simp add: parents_of_def)
  note S = hashtable_set_rel [OF rel len set]
  show "(r = 0 \<longrightarrow> tracked w (A @ [p]) s' \<and> p \<notin> set A) \<and> (\<exists>A'. tracked w A' s')"
  proof (cases "map_of (parents_of A) (loop_key p)")
    case None
    then have "p \<notin> set A" by (force simp: parents_of_def map_of_eq_None_iff)
    moreover have "r1 = 0 \<Longrightarrow> ht_rel (w_seed w) h (parents_of (A @ [p])) \<and> w' = dm_world s"
      "r1 \<noteq> 0 \<Longrightarrow> ht_rel (w_seed w) h (parents_of A) \<and> w' = dm_world s"
      using S None map_of_None_update [OF None] by (auto simp: parents_of_def)
    ultimately show ?thesis using e set seed same None hashtable_get_map_of [OF rel, of "loop_key p"]
      by (cases "r1 = 0") (auto simp: loop_enter_def jsonp_loop_check_def tracked_def)
  next
    case (Some x)
    then show ?thesis using e t seed hashtable_get_map_of [OF rel, of "loop_key p"]
      by (auto simp: loop_enter_def jsonp_loop_check_def)
  qed
qed

lemma runs_leave:
  assumes ok: "loopable w" and A: "set A \<subseteq> dom (w_heap w)" "p \<in> dom (w_heap w)" "p \<notin> set A"
  shows "runs w (A @ [p]) A True (loop_leave p)"
  unfolding runs_def
proof (intro allI impI)
  fix s r s'
  assume t: "tracked w (A @ [p]) s" and e: "loop_leave p s = (r, s')"
  have small: "set A \<subseteq> {..<2 ^ 64}" "p < 2 ^ 64" using loopableD(4) [OF ok] A(1,2) by auto
  have rel: "ht_rel (w_seed w) (dm_parents s) (parents_of (A @ [p]))" and same: "same_heap w (dm_world s)" using t by (auto simp: tracked_def)
  obtain r1 h w' where del: "hashtable_del decref_ptr (w_seed w) (loop_key p) (dm_parents s) (dm_world s) = (r1, h, w')" by (metis surj_pair)
  have st: "statics_ok (dm_world s)" using same_heap_statics [OF same] loopableD(1) [OF ok] by simp
  from hashtable_del_rel [OF rel del] parents_lookup_last [OF small A(3)] parents_delete [OF small A(3)] decref_null [OF st]
  have "ht_rel (w_seed w) h (parents_of A)" "w' = dm_world s" by auto
  then show "(r = 0 \<longrightarrow> tracked w A s' \<and> True) \<and> (\<exists>A'. tracked w A' s')"
    using e del same same_heap_frame(3) [OF same] by (auto simp: loop_leave_def parents_del_def tracked_def)
qed

end

context quiet_sink
begin

section \<open>The loops over elements and members\<close>

lemma runs_then_steady: "runs w A B Q f \<Longrightarrow> steady g \<Longrightarrow> runs w A B Q (and_then f g)"
  using runs_then [OF _ steady_runs] by simp

lemma runs_array_loop:
  assumes "\<And>i. i \<in> set is \<Longrightarrow> runs w A A (P i) (rec (json_array_get w json i))"
  shows "runs w A A (\<forall>i \<in> set is. P i) (dump_array_loop rec dump flags depth json n is)"
  using assms
proof (induction "is")
  case Nil
  then show ?case by (auto simp: runs_def)
next
  case (Cons i js)
  have "runs w A A (P i) (\<lambda>s. rec (json_array_get (dm_world s) json i) s)"
    by (rule runs_cong [OF Cons.prems [of i]]) (auto simp: tracked_def json_array_get_def same_heap_table)
  from runs_then [OF this runs_then [OF steady_runs [OF steady_separator] Cons.IH]] Cons.prems
  have "runs w A A (P i \<and> True \<and> (\<forall>i \<in> set js. P i)) (and_then (\<lambda>s. rec (json_array_get (dm_world s) json i) s)
      (and_then (dump_separator dump flags depth (i < n - 1)) (dump_array_loop rec dump flags depth json n js)))" by simp
  then show ?case by (simp add: fun_eq_iff runs_def)
qed

lemma runs_member:
  assumes "runs w A A Q (rec v)"
  shows "runs w A A Q (dump_member rec dump flags depth key v cont)"
proof -
  let ?f = "and_then (emit dump (if dflag flags JSON_COMPACT then cstr '':'' else cstr '': ''))
    (and_then (rec v) (dump_separator dump flags depth cont))"
  have "runs w A A (True \<and> Q) ?f"
    by (rule runs_then [OF steady_runs [OF steady_emit] runs_then_steady [OF assms steady_separator]])
  moreover have "tracked w A (snd (dump_string key dump flags s))" if "tracked w A s" for s
    using steady_string that by (simp add: steady_def)
  ultimately show ?thesis unfolding runs_def dump_member_def Let_def by blast
qed

lemma runs_sorted_loop:
  assumes "\<And>k. k \<in> set ks \<Longrightarrow> runs w A A (P k) (rec (json_object_get w json (Some k)))"
  shows "runs w A A (\<forall>k \<in> set ks. P k) (dump_sorted_loop rec dump flags depth json ks)"
  using assms
proof (induction ks)
  case Nil
  then show ?case by (auto simp: runs_def)
next
  case (Cons k ks)
  have "runs w A A (P k) (\<lambda>s. dump_member rec dump flags depth k (json_object_get (dm_world s) json (Some k)) (ks \<noteq> []) s)"
  proof (rule runs_cong)
    show "runs w A A (P k) (dump_member rec dump flags depth k (json_object_get w json (Some k)) (ks \<noteq> []))"
      by (rule runs_member) (use Cons.prems in simp)
  qed (metis same_heap_get tracked_def)
  moreover have "runs w A A (\<forall>k \<in> set ks. P k) (dump_sorted_loop rec dump flags depth json ks)"
    by (rule Cons.IH) (use Cons.prems in simp)
  ultimately have "runs w A A (P k \<and> (\<forall>k \<in> set ks. P k)) (dump_sorted_loop rec dump flags depth json (k # ks))"
    unfolding dump_sorted_loop.simps(2) [abs_def] by (rule runs_then)
  then show ?case by (simp del: dump_sorted_loop.simps)
qed

lemma runs_object_loop:
  assumes t: "object_table w (Some p) = Some h"
  shows "chain h it al \<Longrightarrow> length al \<le> fuel \<Longrightarrow> (\<And>k q. (k, q) \<in> set al \<Longrightarrow> runs w A A (P q) (rec (Some q))) \<Longrightarrow>
    runs w A A (\<forall>q \<in> snd ` set al. P q) (dump_object_loop fuel rec dump flags depth (Some p) (map_option (Pair p) it))"
proof (induction it al arbitrary: fuel rule: chain.induct)
  case chain_end
  then show ?case by (cases fuel) (auto simp: runs_def)
next
  case (chain_step z k v al)
  obtain f where f: "fuel = Suc f" using chain_step.prems by (cases fuel) auto
  let ?nx = "map_option (Pair p) (hashtable_iter_next h z)"
  have rest: "runs w A A (\<forall>q \<in> snd ` set al. P q) (dump_object_loop f rec dump flags depth (Some p) ?nx)"
    by (rule chain_step.IH) (use chain_step.prems f in auto)
  have "runs w A A (P v) (dump_member rec dump flags depth k (Some v) (?nx \<noteq> None))"
    by (rule runs_member) (use chain_step.prems(2) [of k v] in simp)
  from runs_then [OF this rest] have "runs w A A (P v \<and> (\<forall>q \<in> snd ` set al. P q))
      (and_then (dump_member rec dump flags depth k (Some v) (?nx \<noteq> None)) (dump_object_loop f rec dump flags depth (Some p) ?nx))" .
  then have "runs w A A (P v \<and> (\<forall>q \<in> snd ` set al. P q))
      (dump_object_loop fuel rec dump flags depth (Some p) (map_option (Pair p) (Some z)))"
    by (rule runs_cong)
      (use t chain_step.hyps(1,2) f in \<open>auto simp: tracked_def same_heap_table json_object_iter_next_def
        json_object_iter_key_def json_object_iter_value_def Let_def\<close>)
  then show ?case by simp
qed

lemma runs_members:
  assumes t: "object_table w (Some p) = Some h" and rel: "ht_rel (w_seed w) h al"
    and mem: "\<And>k q. (k, q) \<in> set al \<Longrightarrow> runs w A A (P q) (rec (Some q))"
  shows "runs w A A (\<forall>q \<in> snd ` set al. P q) (dump_members rec dump flags depth (Some p))"
proof -
  note ch = chain_rel [OF rel]
  have it: "json_object_iter w (Some p) = map_option (Pair p) (hashtable_iter h)" using t by (simp add: json_object_iter_def)
  have nb: "node_bound w (Some p) = ht_fresh h" using t by (simp add: node_bound_def)
  have get: "json_object_get w (Some p) (Some k) = map_of al k" for k
    using t hashtable_get_map_of [OF rel] by (simp add: json_object_get_def)
  have dist: "distinct (map fst al)" using ht_rel_distinct [OF rel] .
  show ?thesis
  proof (cases "dflag flags JSON_SORT_KEYS")
    case True
    let ?ks = "sort (map fst al)"
    have "runs w A A (\<forall>k \<in> set ?ks. \<exists>q. map_of al k = Some q \<and> P q) (dump_sorted_loop rec dump flags depth (Some p) ?ks)"
    proof (rule runs_sorted_loop)
      fix k assume "k \<in> set ?ks"
      then obtain q where q: "map_of al k = Some q" by (metis list.set_map map_of_eq_None_iff option.exhaust set_sort)
      then show "runs w A A (\<exists>q. map_of al k = Some q \<and> P q) (rec (json_object_get w (Some p) (Some k)))"
        using mem [of k q] get by (auto dest: map_of_SomeD intro: runs_mono)
    qed
    then have loop: "runs w A A (\<forall>q \<in> snd ` set al. P q) (dump_sorted_loop rec dump flags depth (Some p) ?ks)"
      by (rule runs_mono) (use dist map_of_is_SomeI in fastforce)
    show ?thesis unfolding runs_def
    proof (intro allI impI)
      fix s r s'
      assume tr: "tracked w A s" and d: "dump_members rec dump flags depth (Some p) s = (r, s')"
      then have same: "same_heap w (dm_world s)" by (simp add: tracked_def)
      obtain ok w1 where m: "w_malloc (json_object_size (dm_world s) (Some p) * SIZEOF_POINTER) (dm_world s) = (ok, w1)" by (metis surj_pair)
      then have w1: "same_heap w w1" using same by (auto simp: w_malloc_def split: prod.splits)
      then have tr1: "tracked w A (s\<lparr>dm_world := w1\<rparr>)" using tr by (simp add: tracked_def)
      have "iter_keys (ht_fresh h) w1 (Some p) (map_option (Pair p) (hashtable_iter h)) = map fst al"
        using sbuf.iter_keys_chain [of w1 p h] ch t same_heap_table(1) [OF w1] by simp
      then have "dump_members rec dump flags depth (Some p) s =
          (if ok then dump_sorted_loop rec dump flags depth (Some p) ?ks (s\<lparr>dm_world := w1\<rparr>) else (-1, s\<lparr>dm_world := w1\<rparr>))"
        using True m same t by (auto simp: dump_members_def Let_def json_object_iter_def node_bound_def same_heap_table)
      then show "(r = 0 \<longrightarrow> tracked w A s' \<and> (\<forall>q \<in> snd ` set al. P q)) \<and> (\<exists>A'. tracked w A' s')"
        using d loop [unfolded runs_def, rule_format, OF tr1, of r s'] tr1 by (cases ok) auto
    qed
  next
    case False
    have "runs w A A (\<forall>q \<in> snd ` set al. P q)
        (dump_object_loop (ht_fresh h) rec dump flags depth (Some p) (map_option (Pair p) (hashtable_iter h)))"
      by (rule runs_object_loop [where rec = rec and P = P, OF t]) (use ch mem in simp_all)
    then show ?thesis
      by (rule runs_cong)
        (use False t in \<open>auto simp: tracked_def dump_members_def Let_def same_heap_table json_object_iter_def node_bound_def\<close>)
  qed
qed

end

section \<open>Values\<close>

text \<open>What an array or an object of a well counted heap contains.\<close>

lemma refs_live:
  assumes "rc_inv {} E w" "w_heap w p = Some c" "q \<in># cell_refs (j_data c)"
  shows "q \<in> dom (w_heap w)"
proof -
  have "0 < count (heap_refs {} w) q"
    using heap_refs_none [OF rc_invD(2) [OF assms(1)], of q] assms(2,3) by auto
  then show ?thesis using rc_invD(10) [OF assms(1)] by (auto simp: subset_iff)
qed

lemma array_cell:
  assumes "rc_inv {} E w" "data_at w (Some p) = Some (JArray a)"
  shows "a_entries a \<le> length (a_table a)" "set (take (a_entries a) (a_table a)) \<subseteq> dom (w_heap w)" "p \<in> dom (w_heap w)"
proof -
  obtain c where c: "w_heap w p = Some c" "j_data c = JArray a" using assms(2) by (auto simp: data_at_def)
  have "p \<notin> statics" using c rc_invD(4) [OF assms(1)] by (auto simp: statics_ok_def statics_def)
  then show "a_entries a \<le> length (a_table a)" using rc_invD(5) [OF assms(1) c(1)] c(2) by simp
  show "set (take (a_entries a) (a_table a)) \<subseteq> dom (w_heap w)" using refs_live [OF assms(1) c(1)] c(2) by auto
  show "p \<in> dom (w_heap w)" using c by auto
qed

lemma object_cell:
  assumes "rc_inv {} E w" "data_at w (Some p) = Some (JObject h)"
  obtains al where "ht_rel (w_seed w) h al" "snd ` set al \<subseteq> dom (w_heap w)" "p \<in> dom (w_heap w)"
proof -
  obtain c where c: "w_heap w p = Some c" "j_data c = JObject h" using assms(2) by (auto simp: data_at_def)
  have "p \<notin> statics" using c rc_invD(4) [OF assms(1)] by (auto simp: statics_ok_def statics_def)
  then obtain al where al: "ht_rel (w_seed w) h al" using rc_invD(5) [OF assms(1) c(1)] c(2) by auto
  have "snd ` set al \<subseteq> dom (w_heap w)" using refs_live [OF assms(1) c(1), unfolded c(2) cell_refs_object [OF al]] by auto
  then show thesis using that al c by blast
qed

lemma views_array:
  assumes "data_at w (Some p) = Some (JArray a)" "a_entries a \<le> length (a_table a)"
    and "\<And>q. q \<in> set (take (a_entries a) (a_table a)) \<Longrightarrow> \<exists>v. views w v q"
  shows "\<exists>v. views w v p"
proof -
  obtain f where f: "\<And>q. q \<in> set (take (a_entries a) (a_table a)) \<Longrightarrow> views w (f q) q" using assms(3) by metis
  then have "list_all2 (views w) (map f (take (a_entries a) (a_table a))) (take (a_entries a) (a_table a))"
    by (simp add: list_all2_map1 list_all2_same)
  then have "views w (VArray (map f (take (a_entries a) (a_table a)))) p" using assms(1,2) by (simp add: take_map)
  then show ?thesis by blast
qed

lemma views_object:
  assumes "data_at w (Some p) = Some (JObject h)" "ht_rel (w_seed w) h al"
    and "\<And>q. q \<in> snd ` set al \<Longrightarrow> \<exists>v. views w v q"
  shows "\<exists>v. views w v p"
proof -
  obtain f where f: "\<And>q. q \<in> snd ` set al \<Longrightarrow> views w (f q) q" using assms(3) by metis
  then have "list_all2 (\<lambda>(k, v) (k', q). k = k' \<and> views w v q) (map (\<lambda>(k, q). (k, f q)) al) al"
    by (auto simp: list_all2_map1 list_all2_same case_prod_beta image_iff)
  then have "views w (VObject (map (\<lambda>(k, q). (k, f q)) al)) p" using assms(1,2) by auto
  then show ?thesis by blast
qed

context quiet_sink
begin

lemma runs_opening: "runs w A A True (if b then skip else emit dump bs)"
  using runs_skip steady_runs [OF steady_emit] by simp

text \<open>Closing a container.\<close>

lemma runs_closing:
  assumes "loopable w" "set A \<subseteq> dom (w_heap w)" "p \<in> dom (w_heap w)" "p \<notin> set A"
  shows "runs w (A @ [p]) A True (and_then (loop_leave p) (if b then skip else emit dump bs))"
  using runs_then [OF runs_leave [OF assms] runs_opening] by simp

lemma runs_container:
  assumes "loopable w" "set A \<subseteq> dom (w_heap w)" "distinct A" "p \<in> dom (w_heap w)"
    and "p \<notin> set A \<Longrightarrow> runs w (A @ [p]) (A @ [p]) Q body"
  shows "runs w A A Q (and_then (loop_enter p) (and_then (if b then skip else emit dump bs)
    (and_then (dump_indent flags depth space dump) (and_then body (and_then (loop_leave p) (if b then skip else emit dump cs))))))"
proof -
  have rest: "runs w (A @ [p]) A (True \<and> True \<and> Q \<and> True) (and_then (if b then skip else emit dump bs)
    (and_then (dump_indent flags depth space dump) (and_then body (and_then (loop_leave p) (if b then skip else emit dump cs)))))"
    if "p \<notin> set A"
    by (rule runs_then [OF runs_opening runs_then [OF steady_runs [OF steady_indent]
          runs_then [OF assms(5) runs_closing]]]) (use assms(1,2,4) that in simp_all)
  show ?thesis using runs_then [OF runs_enter [OF assms(1-4)] rest] by (auto intro: runs_mono)
qed

lemma runs_empty_container:
  assumes "loopable w" "set A \<subseteq> dom (w_heap w)" "distinct A" "p \<in> dom (w_heap w)"
  shows "runs w A A True (and_then (loop_enter p) (and_then (if b then skip else emit dump bs)
    (and_then (loop_leave p) (if b then skip else emit dump cs))))"
proof -
  have rest: "runs w (A @ [p]) A (True \<and> True) (and_then (if b then skip else emit dump bs)
    (and_then (loop_leave p) (if b then skip else emit dump cs)))" if "p \<notin> set A"
    by (rule runs_then [OF runs_opening runs_closing]) (use assms(1,2,4) that in simp_all)
  show ?thesis using runs_then [OF runs_enter [OF assms] rest] by (auto intro: runs_mono)
qed

lemma do_dump_runs:
  assumes ok: "loopable w"
  shows "set A \<subseteq> dom (w_heap w) \<Longrightarrow> distinct A \<Longrightarrow> p \<in> dom (w_heap w) \<Longrightarrow> w_brk w < fuel + length A \<Longrightarrow>
    runs w A A (\<exists>v. views w v p) (do_dump fuel point dump flags0 depth (Some p))"
proof (induction fuel arbitrary: A p flags0 depth)
  case 0
  have "length A \<le> card {1..<w_brk w}"
    using 0 loopableD(3) [OF ok] by (metis card_mono distinct_card finite_atLeastLessThan subset_trans)
  then show ?case using 0 by simp
next
  case (Suc fuel)
  obtain E where inv: "rc_inv {} E w" using ok by (auto simp: loopable_def)
  obtain d where d: "data_at w (Some p) = Some d" using Suc.prems(3) by (auto simp: data_at_def)
  let ?flags = "clear_embed flags0"
  let ?op = "\<lambda>text. if dflag flags0 JSON_EMBED then skip else emit dump text"
  let ?rec = "do_dump fuel point dump ?flags (depth + 1)"
  have rec: "runs w (A @ [p]) (A @ [p]) (\<exists>v. views w v q) (?rec (Some q))" if "p \<notin> set A" "q \<in> dom (w_heap w)" for q
    by (rule Suc.IH) (use Suc.prems that in auto)
  have scalar: "runs w A A (\<exists>v. views w v p) f" if "steady f" "views w v p" for f v
    using steady_runs [OF that(1)] that(2) by (auto intro: runs_mono)
  have at: "data_at (dm_world s) (Some p) = Some d" if "tracked w A s" for s
    using that d by (auto simp: tracked_def)
  have ?case if "d = JArray a" for a
  proof -
    note c = array_cell [OF inv d [unfolded that]]
    let ?n = "a_entries a"
    have size: "json_array_size w' (Some p) = ?n" if "data_at w' (Some p) = Some (JArray a)" for w'
      using that by (simp add: json_array_size_def array_at_def)
    show ?thesis
    proof (cases "?n = 0")
      case True
      have v: "views w (VArray []) p" using d that True by simp
      have "runs w A A (\<exists>v. views w v p) (and_then (loop_enter p) (and_then (?op (cstr ''['')) (and_then (loop_leave p) (?op (cstr '']'')))))"
        by (rule runs_mono [OF runs_empty_container [OF ok Suc.prems(1-3)]]) (use v in blast)
      then show ?thesis by (rule runs_cong) (use at size that True in \<open>simp add: Let_def del: cstr_Cons\<close>)
    next
      case False
      let ?loop = "dump_array_loop ?rec dump ?flags depth (Some p) ?n [0..<?n]"
      have "runs w (A @ [p]) (A @ [p]) (\<exists>v. views w v p) ?loop" if "p \<notin> set A"
      proof -
        have "runs w (A @ [p]) (A @ [p]) (\<forall>i \<in> set [0..<?n]. \<exists>v. views w v (a_table a ! i)) ?loop"
        proof (rule runs_array_loop)
          fix i assume i: "i \<in> set [0..<?n]"
          have "json_array_get w (Some p) i = Some (a_table a ! i)"
            using i d \<open>d = JArray a\<close> by (simp add: json_array_get_def array_at_def)
          moreover have "a_table a ! i \<in> dom (w_heap w)" using c(1,2) i by (force simp: in_set_conv_nth)
          ultimately show "runs w (A @ [p]) (A @ [p]) (\<exists>v. views w v (a_table a ! i)) (?rec (json_array_get w (Some p) i))"
            using rec [OF \<open>p \<notin> set A\<close>] by simp
        qed
        then show ?thesis
          by (rule runs_mono) (rule views_array [OF d [unfolded \<open>d = JArray a\<close>] c(1)], force simp: in_set_conv_nth)
      qed
      from runs_container [where body = ?loop and flags = ?flags and depth = "depth + 1" and space = False
          and b = "dflag flags0 JSON_EMBED" and bs = "cstr ''[''" and cs = "cstr '']''", OF ok Suc.prems(1-3) this]
      show ?thesis by (rule runs_cong) (use at size that False in \<open>simp_all add: Let_def del: cstr_Cons\<close>)
    qed
  qed
  moreover have ?case if obj: "d = JObject h" for h
  proof -
    obtain al where al: "ht_rel (w_seed w) h al" "snd ` set al \<subseteq> dom (w_heap w)" by (rule object_cell [OF inv d [unfolded obj]])
    have tab: "object_table w (Some p) = Some h" using d obj by (simp add: object_table_def)
    have it: "json_object_iter w' (Some p) = map_option (Pair p) (hashtable_iter h)" if "same_heap w w'" for w'
      using tab same_heap_table(1) [OF that] by (simp add: json_object_iter_def)
    let ?body = "dump_members ?rec dump ?flags depth (Some p)"
    let ?e = "json_object_iter w (Some p) = None"
    let ?tail = "and_then (?op (cstr ''{'')) (if ?e then and_then (loop_leave p) (?op (cstr ''}''))
       else and_then (dump_indent ?flags (depth + 1) False dump) (and_then ?body (and_then (loop_leave p) (?op (cstr ''}'')))))"
    have "runs w A A (\<exists>v. views w v p) (and_then (loop_enter p) ?tail)"
    proof (cases ?e)
      case True
      then have "al = []" using chain_rel [OF al(1)] it [OF same_heap_refl] by (cases al) (auto elim: chain.cases)
      then have v: "views w (VObject []) p" using d obj al(1) by auto
      show ?thesis unfolding if_P [OF True]
        by (rule runs_mono [OF runs_empty_container [OF ok Suc.prems(1-3)]]) (use v in blast)
    next
      case False
      have "runs w (A @ [p]) (A @ [p]) (\<exists>v. views w v p) ?body" if "p \<notin> set A"
      proof -
        have "runs w (A @ [p]) (A @ [p]) (\<forall>q \<in> snd ` set al. \<exists>v. views w v q) ?body"
          by (rule runs_members [OF tab al(1)]) (use rec [OF that] al(2) in force)
        then show ?thesis
          by (rule runs_mono) (rule views_object [OF d [unfolded obj] al(1)], blast)
      qed
      from runs_container [where body = ?body, OF ok Suc.prems(1-3) this]
      show ?thesis unfolding if_not_P [OF False] .
    qed
    then show ?thesis
    proof (rule runs_cong)
      fix s assume s: "tracked w A s"
      obtain r s1 where e: "loop_enter p s = (r, s1)" by (metis surj_pair)
      obtain A' where "tracked w A' s1" using runsD(2) [OF runs_enter [OF ok Suc.prems(1-3)] s e] by blast
      then have "json_object_iter (dm_world s1) (Some p) = json_object_iter w (Some p)"
        using it [of "dm_world s1"] it [OF same_heap_refl] by (simp add: tracked_def)
      then show "and_then (loop_enter p) ?tail s = do_dump (Suc fuel) point dump flags0 depth (Some p) s"
        using at [OF s] obj and_then_run [where f = "loop_enter p", OF e] by (simp add: Let_def del: cstr_Cons)
    qed
  qed
  moreover have ?case if other: "\<And>a. d \<noteq> JArray a" "\<And>h. d \<noteq> JObject h"
  proof -
    have "steady (\<lambda>s. (-1, s))" by (simp add: steady_def)
    then obtain f v where f: "steady f" "views w v p" "\<And>s. tracked w A s \<Longrightarrow> f s = do_dump (Suc fuel) point dump flags0 depth (Some p) s"
    proof (cases d)
      case JNull
      then show ?thesis using d at by (intro that [OF steady_emit, of VNull "cstr ''null''"]) (simp_all del: cstr_Cons)
    next
      case JTrue
      then show ?thesis using d at by (intro that [OF steady_emit, of VTrue "cstr ''true''"]) (simp_all del: cstr_Cons)
    next
      case JFalse
      then show ?thesis using d at by (intro that [OF steady_emit, of VFalse "cstr ''false''"]) (simp_all del: cstr_Cons)
    next
      case (JInteger i)
      have "steady (\<lambda>s. if length (fmt_d i) \<ge> MAX_INTEGER_STR_LENGTH then (-1, s) else emit dump (fmt_d i) s)"
        using steady_emit by (simp add: steady_def)
      then show ?thesis using d at JInteger by (intro that [of _ "VInteger i"]) (simp_all add: Let_def)
    next
      case (JReal x)
      obtain sz buffer where j: "jsonp_dtostr point MAX_REAL_STR_LENGTH x (FLAGS_TO_PRECISION ?flags) = (sz, buffer)" by (metis surj_pair)
      have "steady (\<lambda>s. if sz < 0 then (-1, s) else emit dump buffer s)"
        using steady_emit by (simp add: steady_def)
      then show ?thesis using d at JReal j by (intro that [of _ "VReal x"]) (simp_all add: Let_def)
    next
      case (JString str)
      then show ?thesis using d at by (intro that [OF steady_string, of "VString str" str ?flags]) (simp_all add: Let_def)
    qed (use other in blast)+
    show ?thesis by (rule runs_cong [OF scalar [OF f(1,2)] f(3)])
  qed
  ultimately show ?case by blast
qed

end

lemma views_mem [simp]: "views (w\<lparr>w_mem := m\<rparr>) v p = views w v p"
proof (induction v arbitrary: p)
  case (VArray vs)
  have "list_all2 (views (w\<lparr>w_mem := m\<rparr>)) vs ps = list_all2 (views w) vs ps" for ps
    by (rule list.rel_cong) (use VArray in auto)
  then show ?case by (simp add: data_at_def)
next
  case (VObject kvs)
  have "list_all2 (\<lambda>(k, v) (k', q). k = k' \<and> views (w\<lparr>w_mem := m\<rparr>) v q) kvs al =
      list_all2 (\<lambda>(k, v) (k', q). k = k' \<and> views w v q) kvs al" for al
    by (rule list.rel_cong) (use VObject in \<open>auto split: prod.splits\<close>)
  then show ?case by (simp add: data_at_def)
qed (simp_all add: data_at_def)

lemma fold_decref_nulls: "statics_ok w \<Longrightarrow> set vs \<subseteq> {null_ptr} \<Longrightarrow> fold decref_ptr vs w = w"
  by (induction vs) (auto simp: decref_null)

context quiet_sink
begin

lemma json_dump_callback_runs:
  assumes ok: "loopable w" and p: "p \<in> dom (w_heap w)" and d: "json_dump_callback point (Some p) dump data flags w = (r, data', w')"
  shows "same_heap w w' \<and> (r = 0 \<longrightarrow> (\<exists>v. views w v p))"
proof -
  obtain t w1 where init: "parents_init w = (t, w1)" by (metis surj_pair)
  then have w1: "same_heap w w1" "w_brk w1 = w_brk w" by (auto simp: parents_init_def same_heap_def split: prod.splits)
  consider "\<not> dflag flags JSON_ENCODE_ANY \<and> \<not> json_is_array w (Some p) \<and> \<not> json_is_object w (Some p)" | "t = None" |
    h where "dflag flags JSON_ENCODE_ANY \<or> json_is_array w (Some p) \<or> json_is_object w (Some p)" "t = Some h" by fastforce
  then show ?thesis
  proof cases
    case 3
    obtain res s where dd: "do_dump (w_brk w1 + 1) point dump flags 0 (Some p) \<lparr>dm_parents = h, dm_data = data, dm_world = w1\<rparr> = (res, s)"
      by (metis surj_pair)
    have rel: "ht_rel (w_seed w) h []" using init 3(2) hashtable_init_rel by (auto simp: parents_init_def split: prod.splits)
    then have tr: "tracked w [] \<lparr>dm_parents = h, dm_data = data, dm_world = w1\<rparr>" using w1 by (simp add: tracked_def parents_of_def)
    have run: "runs w [] [] (\<exists>v. views w v p) (do_dump (w_brk w1 + 1) point dump flags 0 (Some p))"
      by (rule do_dump_runs [OF ok]) (use p w1(2) in simp_all)
    obtain A where A: "res = 0 \<Longrightarrow> \<exists>v. views w v p" "tracked w A s" using runsD [OF run tr dd] by blast
    then have same: "same_heap w (dm_world s)" and rel: "ht_rel (w_seed w) (dm_parents s) (parents_of A)" by (auto simp: tracked_def)
    obtain vs where vs: "mset vs = mset (map snd (parents_of A))" "hashtable_close decref_ptr (dm_parents s) (dm_world s) = fold decref_ptr vs (dm_world s)"
      using hashtable_close_rel [OF rel, of decref_ptr "dm_world s"] by blast
    have "set vs \<subseteq> {null_ptr}" using mset_eq_setD [OF vs(1)] by (auto simp: parents_of_def)
    then have "hashtable_close decref_ptr (dm_parents s) (dm_world s) = dm_world s"
      using vs(2) fold_decref_nulls same_heap_statics [OF same] loopableD(1) [OF ok] by simp
    then show ?thesis using d dd init 3 A(1) same by (auto simp: json_dump_callback_def split: if_splits)
  qed (use d init w1 in \<open>auto simp: json_dump_callback_def split: if_splits prod.splits option.splits\<close>)
qed

end

section \<open>The sinks of the library\<close>

interpretation qbuf: quiet_sink dump_to_strbuffer
  by unfold_locales (auto simp: dump_to_strbuffer_def split: prod.splits)

interpretation qmem: quiet_sink dump_to_buffer
  by unfold_locales (auto simp: dump_to_buffer_def Let_def)

interpretation qfile: quiet_sink "dump_to_file fwrite" for fwrite :: "byte list \<Rightarrow> 'f \<Rightarrow> nat \<times> 'f"
  by unfold_locales (auto simp: dump_to_file_def split: prod.splits)

interpretation qfd: quiet_sink "dump_to_fd write" for "write" :: "byte list \<Rightarrow> 'f \<Rightarrow> int \<times> 'f"
  by unfold_locales (auto simp: dump_to_fd_def split: prod.splits)

lemma json_dumps_runs:
  assumes "loopable w" "p \<in> dom (w_heap w)" "json_dumps point (Some p) flags w = (t, w')"
  shows "same_heap w w' \<and> (t \<noteq> None \<longrightarrow> (\<exists>v. views w v p))"
proof -
  obtain r sb m where i: "strbuffer_init (w_mem w) = (r, sb, m)" by (metis prod_cases3)
  let ?w = "w\<lparr>w_mem := m\<rparr>"
  obtain res sb1 w2 where c: "json_dump_callback point (Some p) dump_to_strbuffer sb flags ?w = (res, sb1, w2)" by (metis prod_cases3)
  have "loopable ?w" "p \<in> dom (w_heap ?w)" using assms(1,2) by (simp_all add: loopable_def)
  from qbuf.json_dump_callback_runs [OF this c] have "same_heap w w2" "res = 0 \<longrightarrow> (\<exists>v. views ?w v p)"
    by (auto simp: same_heap_def)
  then show ?thesis using assms(3) i c by (auto simp: json_dumps_def Let_def split: if_splits prod.splits)
qed

text \<open>Two arrays that contain each other; the client holds the first.\<close>

definition knot :: world where
  "knot = (initial_world mem_ok plain_env)\<lparr>w_brk := 6, w_heap := (w_heap (initial_world mem_ok plain_env))
     (4 \<mapsto> \<lparr>j_refcount = 2, j_data = JArray \<lparr>a_size = 1, a_entries = 1, a_table = [5]\<rparr>\<rparr>,
      5 \<mapsto> \<lparr>j_refcount = 1, j_data = JArray \<lparr>a_size = 1, a_entries = 1, a_table = [4]\<rparr>\<rparr>)\<rparr>"

lemma knot_dom: "dom (w_heap knot) = {1, 2, 3, 4, 5}"
  by (auto simp: knot_def initial_world_def true_ptr_def false_ptr_def null_ptr_def split: if_splits)

lemma knot_loopable: "loopable knot"
proof -
  have refs: "heap_refs {} knot = {#4, 5#}"
    by (simp add: heap_refs_def knot_dom) (simp add: knot_def initial_world_def true_ptr_def false_ptr_def null_ptr_def)
  have "rc_inv {} {#4#} knot"
  proof (rule rc_invI)
    show "data_wf (w_seed knot) (j_data c) \<and> j_refcount c < SIZE_MAX \<and>
        j_refcount c = count {#4#} q + count (heap_refs {} knot) q \<and> (q \<notin> {} \<longrightarrow> 0 < j_refcount c)"
      if "w_heap knot q = Some c" "q \<notin> statics" for q c
      using that unfolding refs
      by (auto simp: knot_def initial_world_def statics_def true_ptr_def false_ptr_def null_ptr_def SIZE_MAX_def split: if_splits)
    show "statics_ok knot" by (simp add: statics_ok_def knot_def initial_world_def true_ptr_def false_ptr_def null_ptr_def)
    show "\<not> w_fault knot" "dom (w_heap knot) \<subseteq> {1..<w_brk knot}"
      unfolding knot_dom by (simp_all add: knot_def initial_world_def)
  qed (simp_all add: knot_dom refs)
  then show ?thesis by (auto simp: loopable_def knot_dom) (simp add: knot_def)
qed

lemma knot_no_tree: "\<not> views knot v 4" "\<not> views knot v 5"
proof -
  have at: "data_at knot (Some 4) = Some (JArray \<lparr>a_size = 1, a_entries = 1, a_table = [5]\<rparr>)"
    "data_at knot (Some 5) = Some (JArray \<lparr>a_size = 1, a_entries = 1, a_table = [4]\<rparr>)"
    by (simp_all add: knot_def data_at_def)
  have "\<not> views knot v 4 \<and> \<not> views knot v 5"
  proof (induction "size v" arbitrary: v rule: less_induct)
    case less
    then show ?case using at by (cases v) (auto simp: list_all2_Cons2)
  qed
  then show "\<not> views knot v 4" "\<not> views knot v 5" by auto
qed

text \<open>
  C15: the encoder is safe on every heap, shared, cyclic or too deep for the allocator.  Whatever a well counted heap
  holds below \<^term>\<open>p\<close>, \<^verbatim>\<open>json_dumps\<close> returns without descending further than there are containers
  (running out of depth would be recorded as a fault), releases its table of parents and leaves every cell as it was; and
  it returns a text only if the value is a tree, so a value that contains itself gives \<^verbatim>\<open>NULL\<close>.
\<close>

theorem json_dumps_cycle_safe:
  assumes "loopable w" "p \<in> dom (w_heap w)" "json_dumps point (Some p) flags w = (t, w')"
  shows "w_heap w' = w_heap w \<and> \<not> w_fault w' \<and> (t \<noteq> None \<longrightarrow> (\<exists>v. views w v p))"
proof -
  have "\<not> w_fault w" using assms(1) rc_invD(1) by (auto simp: loopable_def)
  then show ?thesis using json_dumps_runs [OF assms] same_heap_frame(1,4) [of w w'] by simp
qed

theorem json_dumps_cycle_safe_witness:
  "\<exists>w'. json_dumps 46 (Some 4) 0 knot = (None, w') \<and> w_heap w' = w_heap knot \<and> \<not> w_fault w'"
proof -
  obtain t w' where d: "json_dumps 46 (Some 4) 0 knot = (t, w')" by (metis surj_pair)
  from json_dumps_cycle_safe [OF knot_loopable _ d] show ?thesis using d knot_no_tree by (simp add: knot_dom)
qed

end
