(* ===== verification/Json_Pack.thy ===== *)
theory Json_Pack
  imports Json_Parse_Heap "HOL-Library.Monad_Syntax"
begin

text \<open>
  \<^verbatim>\<open>pack_unpack.c\<close>, the part that builds values: the scanner of format strings with its one token of look-ahead, the variable argument list and
  \<^verbatim>\<open>json_pack\<close> with its variants.
\<close>

section \<open>The format scanner\<close>

abbreviation fc :: "char \<Rightarrow> byte" where
  "fc c \<equiv> of_char c"

record token_t =
  tk_line :: int
  tk_column :: int
  tk_pos :: nat
  tk_token :: byte

text \<open>\<^verbatim>\<open>sc_fmt\<close> is the rest of the format string; its end is the terminating NUL.\<close>

record scanner_t =
  sc_fmt :: "byte list"
  sc_prev_token :: token_t
  sc_token :: token_t
  sc_next_token :: token_t
  sc_error :: "json_error_t option"
  sc_flags :: nat
  sc_line :: int
  sc_column :: int
  sc_pos :: nat
  sc_has_error :: bool

text \<open>
  An argument of the variable argument list: a string with all bytes of its memory, numbers, a JSON value, or the address of a variable, which
  is a number or NULL.
\<close>

datatype va_arg =
    A_str "byte list option"
  | A_int int
  | A_size nat
  | A_json_int int
  | A_double double
  | A_json "ptr option"
  | A_var "nat option"

text \<open>What unpacking stores in a variable.\<close>

datatype va_value =
    V_str "byte list"
  | V_size nat
  | V_int int
  | V_json_int int
  | V_double double
  | V_json ptr

text \<open>
  Scanner, arguments and heap.  \<^verbatim>\<open>pk_taken\<close> lists the references that were handed over by the format \<^verbatim>\<open>o\<close>, \<^verbatim>\<open>pk_kept\<close> those that unpacking
  added by the format \<^verbatim>\<open>O\<close>.  \<^verbatim>\<open>pk_undefined\<close> records what C leaves undefined: an argument that is missing or of another type than
  the format says, a string shorter than its length, a variable address that is NULL, a reference count at its end.
\<close>

record packer = scanner_t +
  pk_args :: "va_arg list"
  pk_world :: world
  pk_taken :: "ptr list"
  pk_kept :: "ptr list"
  pk_vars :: "(nat \<times> va_value) list"
  pk_undefined :: bool

definition no_token :: token_t where
  "no_token = \<lparr>tk_line = 0, tk_column = 0, tk_pos = 0, tk_token = 0\<rparr>"

definition scanner_init :: "json_error_t option \<Rightarrow> nat \<Rightarrow> byte list \<Rightarrow> va_arg list \<Rightarrow> world \<Rightarrow> packer" where
  "scanner_init error flags fmt args w =
     \<lparr>sc_fmt = fmt, sc_prev_token = no_token, sc_token = no_token, sc_next_token = no_token, sc_error = error, sc_flags = flags,
      sc_line = 1, sc_column = 0, sc_pos = 0, sc_has_error = False,
      pk_args = args, pk_world = w, pk_taken = [], pk_kept = [], pk_vars = [], pk_undefined = False\<rparr>"

definition ignored :: "byte \<Rightarrow> bool" where
  "ignored c \<longleftrightarrow> c \<in> {32, 9, 10, fc CHR '','', fc CHR '':''}"

fun skip_ignored :: "byte list \<Rightarrow> int \<Rightarrow> int \<Rightarrow> nat \<Rightarrow> byte list \<times> int \<times> int \<times> nat" where
  "skip_ignored [] line column pos = ([], line, column, pos)"
| "skip_ignored (c # t) line column pos =
     (if ignored c then
        if c = 10 then skip_ignored t (line + 1) 1 (pos + 1) else skip_ignored t line (column + 1) (pos + 1)
      else (c # t, line, column, pos))"

abbreviation token :: "'a scanner_t_scheme \<Rightarrow> byte" where
  "token s \<equiv> tk_token (sc_token s)"

definition next_token :: "'a scanner_t_scheme \<Rightarrow> 'a scanner_t_scheme" where
  "next_token s0 =
     (let s = s0\<lparr>sc_prev_token := sc_token s0\<rparr> in
      if tk_line (sc_next_token s) \<noteq> 0 then
        s\<lparr>sc_token := sc_next_token s, sc_next_token := (sc_next_token s)\<lparr>tk_line := 0\<rparr>\<rparr>
      else if token s = 0 \<and> sc_fmt s = [] then s
      else
        case skip_ignored (sc_fmt s) (sc_line s) (sc_column s + 1) (sc_pos s + 1) of
          (t, line, column, pos) \<Rightarrow>
            s\<lparr>sc_token := \<lparr>tk_line = line, tk_column = column, tk_pos = pos, tk_token = (case t of [] \<Rightarrow> 0 | c # _ \<Rightarrow> c)\<rparr>,
              sc_line := line, sc_column := column, sc_pos := pos, sc_fmt := tl t\<rparr>)"

definition prev_token :: "'a scanner_t_scheme \<Rightarrow> 'a scanner_t_scheme" where
  "prev_token s = s\<lparr>sc_next_token := sc_token s, sc_token := sc_prev_token s\<rparr>"

definition set_error :: "string \<Rightarrow> json_error_code \<Rightarrow> byte list \<Rightarrow> 'a scanner_t_scheme \<Rightarrow> 'a scanner_t_scheme" where
  "set_error source code msg s =
     s\<lparr>sc_error := jsonp_error_set_source
         (jsonp_error_vset (sc_error s) (tk_line (sc_token s)) (tk_column (sc_token s)) (tk_pos (sc_token s)) code (c_string msg))
         (Some (cstr source))\<rparr>"

text \<open>\<^verbatim>\<open>set_error\<close> followed by \<^verbatim>\<open>s->has_error = 1\<close>.\<close>

definition set_failed :: "string \<Rightarrow> json_error_code \<Rightarrow> byte list \<Rightarrow> 'a scanner_t_scheme \<Rightarrow> 'a scanner_t_scheme" where
  "set_failed source code msg s = (set_error source code msg s)\<lparr>sc_has_error := True\<rparr>"

section \<open>Arguments\<close>

text \<open>\<^verbatim>\<open>va_arg\<close>: the next argument if it is of the type asked for.\<close>

definition next_arg :: "(va_arg \<Rightarrow> 'v option) \<Rightarrow> 'v \<Rightarrow> packer \<Rightarrow> 'v \<times> packer" where
  "next_arg sel dflt s =
     (case pk_args s of
        [] \<Rightarrow> (dflt, s\<lparr>pk_undefined := True\<rparr>)
      | a # args \<Rightarrow>
          (case sel a of
             None \<Rightarrow> (dflt, s\<lparr>pk_args := args, pk_undefined := True\<rparr>)
           | Some v \<Rightarrow> (v, s\<lparr>pk_args := args\<rparr>)))"

definition arg_str :: "packer \<Rightarrow> byte list option \<times> packer" where
  "arg_str = next_arg (\<lambda>a. case a of A_str x \<Rightarrow> Some x | _ \<Rightarrow> None) None"
definition arg_int :: "packer \<Rightarrow> int \<times> packer" where
  "arg_int = next_arg (\<lambda>a. case a of A_int x \<Rightarrow> Some x | _ \<Rightarrow> None) 0"
definition arg_size :: "packer \<Rightarrow> nat \<times> packer" where
  "arg_size = next_arg (\<lambda>a. case a of A_size x \<Rightarrow> Some x | _ \<Rightarrow> None) 0"
definition arg_json_int :: "packer \<Rightarrow> int \<times> packer" where
  "arg_json_int = next_arg (\<lambda>a. case a of A_json_int x \<Rightarrow> Some x | _ \<Rightarrow> None) 0"
definition arg_double :: "packer \<Rightarrow> double \<times> packer" where
  "arg_double = next_arg (\<lambda>a. case a of A_double x \<Rightarrow> Some x | _ \<Rightarrow> None) 0"
definition arg_json :: "packer \<Rightarrow> ptr option \<times> packer" where
  "arg_json = next_arg (\<lambda>a. case a of A_json x \<Rightarrow> Some x | _ \<Rightarrow> None) None"
definition arg_var :: "packer \<Rightarrow> nat option \<times> packer" where
  "arg_var = next_arg (\<lambda>a. case a of A_var x \<Rightarrow> Some x | _ \<Rightarrow> None) None"

text \<open>A call of the library on the heap, and of the string buffer on the allocator.\<close>

definition in_world :: "(world \<Rightarrow> 'r \<times> world) \<Rightarrow> packer \<Rightarrow> 'r \<times> packer" where
  "in_world f s = (case f (pk_world s) of (r, w) \<Rightarrow> (r, s\<lparr>pk_world := w\<rparr>))"

definition in_mem :: "(mem \<Rightarrow> 'r \<times> mem) \<Rightarrow> packer \<Rightarrow> 'r \<times> packer" where
  "in_mem f s = (case f (w_mem (pk_world s)) of (r, m) \<Rightarrow> (r, s\<lparr>pk_world := (pk_world s)\<lparr>w_mem := m\<rparr>\<rparr>))"

definition decref_in :: "ptr option \<Rightarrow> packer \<Rightarrow> packer" where
  "decref_in p s = s\<lparr>pk_world := json_decref p (pk_world s)\<rparr>"

section \<open>Strings\<close>

text \<open>
  One round of the loop of \<^verbatim>\<open>read_string\<close>: an argument, its length, given by another argument or by \<^verbatim>\<open>strlen\<close>, and the bytes appended to
  the buffer.
\<close>

definition read_length :: "byte list option \<Rightarrow> packer \<Rightarrow> nat \<times> packer" where
  "read_length str s =
     (let s1 = next_token s in
      if token s1 = fc CHR ''#'' then case arg_int s1 of (k, s2) \<Rightarrow> (nat (k mod 2 ^ 64), s2)
      else if token s1 = fc CHR ''%'' then arg_size s1
      else
        let s2 = prev_token s1
        in (if sc_has_error s2 then 0 else length (c_string (the str)), s2))"

definition append_part :: "strbuffer \<Rightarrow> byte list option \<Rightarrow> nat \<Rightarrow> packer \<Rightarrow> strbuffer \<times> packer" where
  "append_part sb str len s =
     (if sc_has_error s then (sb, s)
      else
        case in_mem (\<lambda>m. case strbuffer_append_bytes sb (take len (the str)) m of (r, sb', m') \<Rightarrow> ((r, sb'), m'))
               (if len \<le> length (the str) then s else s\<lparr>pk_undefined := True\<rparr>) of
          ((r, sb'), s1) \<Rightarrow>
            (sb', if r = -1 then set_failed ''<internal>'' json_error_out_of_memory (cstr ''Out of memory'') s1 else s1))"

definition read_part :: "byte list \<Rightarrow> strbuffer \<Rightarrow> packer \<Rightarrow> strbuffer \<times> packer" where
  "read_part purpose sb s =
     (case arg_str s of
        (str, s1) \<Rightarrow>
          case read_length str (if str = None then set_failed ''<args>'' json_error_null_value (cstr ''NULL '' @ purpose) s1 else s1) of
            (len, s2) \<Rightarrow> append_part sb str len s2)"

fun read_loop :: "nat \<Rightarrow> byte list \<Rightarrow> strbuffer \<Rightarrow> packer \<Rightarrow> (strbuffer \<times> packer) option" where
  "read_loop 0 purpose sb s = None"
| "read_loop (Suc n) purpose sb s =
     (case read_part purpose sb s of
        (sb', s1) \<Rightarrow>
          let s2 = next_token s1
          in if token s2 \<noteq> fc CHR ''+'' then Some (sb', prev_token s2) else read_loop n purpose sb' s2)"

text \<open>The string with its length, and whether it is ours.\<close>

definition read_string :: "nat \<Rightarrow> byte list \<Rightarrow> bool \<Rightarrow> packer \<Rightarrow> ((byte list option \<times> nat \<times> bool) \<times> packer) option" where
  "read_string n purpose optional s0 =
     (let s1 = next_token s0; t = token s1; s = prev_token s1 in
      if t \<noteq> fc CHR ''#'' \<and> t \<noteq> fc CHR ''%'' \<and> t \<noteq> fc CHR ''+'' then
        case arg_str s of
          (None, s2) \<Rightarrow>
            Some ((None, 0, False),
              if \<not> optional then set_failed ''<args>'' json_error_null_value (cstr ''NULL '' @ purpose) s2 else s2)
        | (Some str, s2) \<Rightarrow>
            let len = length (c_string str) in
            if \<not> utf8_check_string (take len str) then
              Some ((None, 0, False), set_failed ''<args>'' json_error_invalid_utf8 (cstr ''Invalid UTF-8 '' @ purpose) s2)
            else Some ((Some str, len, False), s2)
      else if optional then
        Some ((None, 0, False),
          set_failed ''<format>'' json_error_invalid_format (cstr ''Cannot use '' @ [39, t, 39] @ cstr '' on optional strings'') s)
      else
        case in_mem (\<lambda>m. case strbuffer_init m of (r, sb, m') \<Rightarrow> ((r, sb), m')) s of
          ((r, sb), s1) \<Rightarrow> do {
            (sb', s2) \<leftarrow> read_loop n purpose sb
              (if r \<noteq> 0 then set_failed ''<internal>'' json_error_out_of_memory (cstr ''Out of memory'') s1 else s1);
            if sc_has_error s2 then Some ((None, 0, False), s2)
            else if \<not> utf8_check_string (take (sb_length sb') (the (sb_value sb'))) then
              Some ((None, 0, False), set_failed ''<args>'' json_error_invalid_utf8 (cstr ''Invalid UTF-8 '' @ purpose) s2)
            else Some ((fst (strbuffer_steal_value sb'), sb_length sb', True), s2)
          })"

section \<open>Packing\<close>

definition pack_string :: "nat \<Rightarrow> packer \<Rightarrow> (ptr option \<times> packer) option" where
  "pack_string n s0 =
     (let s1 = next_token s0;
          t = token s1;
          optional = (t = fc CHR ''?'' \<or> t = fc CHR ''*'');
          s2 = (if \<not> optional then prev_token s1 else s1)
      in do {
        ((str, len, ours), s) \<leftarrow> read_string n (cstr ''string'') optional s2;
        if str = None then Some (if t = fc CHR ''?'' \<and> \<not> sc_has_error s then json_null else None, s)
        else if sc_has_error s then Some (None, s)
        else if ours then Some (in_world (jsonp_stringn_nocheck_own str len) s)
        else Some (in_world (json_stringn_nocheck str len) s)
      })"

text \<open>\<^verbatim>\<open>json_incref\<close>, where the count must not run into its end.\<close>

definition incref_in :: "ptr \<Rightarrow> packer \<Rightarrow> packer" where
  "incref_in p s =
     (let s1 = (case w_heap (pk_world s) p of
                  Some c \<Rightarrow> if j_refcount c = SIZE_MAX - 1 then s\<lparr>pk_undefined := True\<rparr> else s
                | None \<Rightarrow> s)
      in s1\<lparr>pk_world := json_incref (Some p) (pk_world s1)\<rparr>)"

definition pack_object_inter :: "bool \<Rightarrow> packer \<Rightarrow> ptr option \<times> packer" where
  "pack_object_inter need_incref s0 =
     (let s1 = next_token s0;
          ntoken = token s1;
          s2 = (if ntoken \<noteq> fc CHR ''?'' \<and> ntoken \<noteq> fc CHR ''*'' then prev_token s1 else s1)
      in case arg_json s2 of
           (Some json, s) \<Rightarrow>
             (Some json, if need_incref then incref_in json s else s\<lparr>pk_taken := pk_taken s @ [json]\<rparr>)
         | (None, s) \<Rightarrow>
             if ntoken = fc CHR ''?'' then (json_null, s)
             else if ntoken = fc CHR ''*'' then (None, s)
             else (None, set_failed ''<args>'' json_error_null_value (cstr ''NULL object'') s))"

definition pack_integer :: "int \<Rightarrow> packer \<Rightarrow> ptr option \<times> packer" where
  "pack_integer v s =
     (case in_world (json_integer v) s of
        (json, s1) \<Rightarrow>
          (json, if json = None then set_failed ''<internal>'' json_error_out_of_memory (cstr ''Out of memory'') s1 else s1))"

definition pack_real :: "double \<Rightarrow> packer \<Rightarrow> ptr option \<times> packer" where
  "pack_real v s =
     (case in_world (json_real 0) s of
        (None, s1) \<Rightarrow> (None, set_failed ''<internal>'' json_error_out_of_memory (cstr ''Out of memory'') s1)
      | (Some json, s1) \<Rightarrow>
          (case in_world (json_real_set (Some json) v) s1 of
             (r, s2) \<Rightarrow>
               if r \<noteq> 0 then
                 (None, set_failed ''<args>'' json_error_numeric_overflow (cstr ''Invalid floating point value'') (decref_in (Some json) s2))
               else (Some json, s2)))"

text \<open>The cases of \<^verbatim>\<open>pack\<close> that need no recursion.\<close>

definition pack_scalar :: "nat \<Rightarrow> packer \<Rightarrow> (ptr option \<times> packer) option" where
  "pack_scalar n s =
     (let t = token s in
      if t = fc CHR ''s'' then pack_string n s
      else if t = fc CHR ''n'' then Some (json_null, s)
      else if t = fc CHR ''b'' then Some (case arg_int s of (x, s1) \<Rightarrow> (if x \<noteq> 0 then json_true else json_false, s1))
      else if t = fc CHR ''i'' then Some (case arg_int s of (x, s1) \<Rightarrow> pack_integer x s1)
      else if t = fc CHR ''I'' then Some (case arg_json_int s of (x, s1) \<Rightarrow> pack_integer x s1)
      else if t = fc CHR ''f'' then Some (case arg_double s of (x, s1) \<Rightarrow> pack_real x s1)
      else if t = fc CHR ''O'' then Some (pack_object_inter True s)
      else if t = fc CHR ''o'' then Some (pack_object_inter False s)
      else Some (None, set_failed ''<format>'' json_error_invalid_format (cstr ''Unexpected format character '' @ [39, t, 39]) s))"

text \<open>The ends of the two loops: the container, or the label \<^verbatim>\<open>error\<close>.\<close>

definition pack_end :: "ptr option \<Rightarrow> packer \<Rightarrow> ptr option \<times> packer" where
  "pack_end p s = (if \<not> sc_has_error s then (p, s) else (None, decref_in p s))"

definition pack_error :: "byte list \<Rightarrow> ptr option \<Rightarrow> packer \<Rightarrow> ptr option \<times> packer" where
  "pack_error msg p s = (None, decref_in p (set_error ''<format>'' json_error_invalid_format msg s))"

text \<open>A value that is there is given back after an error and stored otherwise.\<close>

definition pack_store :: "(world \<Rightarrow> int \<times> world) \<Rightarrow> byte list \<Rightarrow> ptr \<Rightarrow> packer \<Rightarrow> packer" where
  "pack_store f msg v s =
     (if sc_has_error s then decref_in (Some v) s
      else
        case in_world f s of
          (r, s1) \<Rightarrow> if r \<noteq> 0 then set_failed ''<internal>'' json_error_out_of_memory msg s1 else s1)"

fun pack :: "nat \<Rightarrow> packer \<Rightarrow> (ptr option \<times> packer) option"
and pack_object_loop :: "nat \<Rightarrow> ptr option \<Rightarrow> packer \<Rightarrow> (ptr option \<times> packer) option"
and pack_array_loop :: "nat \<Rightarrow> ptr option \<Rightarrow> packer \<Rightarrow> (ptr option \<times> packer) option" where
  "pack 0 s = None"
| "pack (Suc n) s =
     (if token s = fc CHR ''{'' then case in_world json_object s of (p, s1) \<Rightarrow> pack_object_loop n p (next_token s1)
      else if token s = fc CHR ''['' then case in_world json_array s of (p, s1) \<Rightarrow> pack_array_loop n p (next_token s1)
      else pack_scalar n s)"
| "pack_object_loop 0 p s = None"
| "pack_object_loop (Suc n) p s =
     (if token s = fc CHR ''}'' then Some (pack_end p s)
      else if token s = 0 then Some (pack_error (cstr ''Unexpected end of format string'') p s)
      else if token s \<noteq> fc CHR ''s'' then
        Some (pack_error (cstr ''Expected format '' @ [39, 115, 39] @ cstr '', got '' @ [39, token s, 39]) p s)
      else do {
        ((key, _, _), s1) \<leftarrow> read_string n (cstr ''object key'') False s;
        let s2 = next_token (next_token s1);
        let valueOptional = token s2;
        (v, s3) \<leftarrow> pack n (prev_token s2);
        case v of
          None \<Rightarrow>
            pack_object_loop n p (next_token
              (if valueOptional \<noteq> fc CHR ''*'' then set_failed ''<args>'' json_error_null_value (cstr ''NULL object value'') s3 else s3))
        | Some vp \<Rightarrow>
            pack_object_loop n p (next_token
              (pack_store (json_object_set_new_nocheck p (map_option c_string key) v)
                 (cstr ''Unable to add key '' @ [34] @ c_string (the key) @ [34]) vp s3))
      })"
| "pack_array_loop 0 p s = None"
| "pack_array_loop (Suc n) p s =
     (if token s = fc CHR '']'' then Some (pack_end p s)
      else if token s = 0 then Some (pack_error (cstr ''Unexpected end of format string'') p s)
      else do {
        let s1 = next_token s;
        let valueOptional = token s1;
        (v, s2) \<leftarrow> pack n (prev_token s1);
        case v of
          None \<Rightarrow> pack_array_loop n p (next_token (if valueOptional \<noteq> fc CHR ''*'' then s2\<lparr>sc_has_error := True\<rparr> else s2))
        | Some vp \<Rightarrow>
            pack_array_loop n p (next_token
              (pack_store (json_array_append_new p v) (cstr ''Unable to append to array'') vp s2))
      })"

text \<open>The bound on the recursion is enough by \<^verbatim>\<open>pack_ends_all\<close> of Json_Pack_Correct.\<close>

definition pack_fuel :: "byte list \<Rightarrow> nat" where
  "pack_fuel fmt = 2 * length fmt + 8"

text \<open>The error for a missing format string.\<close>

definition no_format :: "json_error_t option \<Rightarrow> json_error_t option" where
  "no_format error =
     jsonp_error_set (jsonp_error_init error (Some (cstr ''<format>''))) (-1) (-1) 0 json_error_invalid_argument
       (cstr ''NULL or empty format string'')"

definition json_vpack_ex ::
  "json_error_t option \<Rightarrow> nat \<Rightarrow> byte list option \<Rightarrow> va_arg list \<Rightarrow> world \<Rightarrow> (ptr option \<times> packer) option" where
  "json_vpack_ex error flags fmt args w =
     (case fmt of
        None \<Rightarrow> Some (None, scanner_init (no_format error) flags [] args w)
      | Some [] \<Rightarrow> Some (None, scanner_init (no_format error) flags [] args w)
      | Some f \<Rightarrow> do {
          (v, s) \<leftarrow> pack (pack_fuel f) (next_token (scanner_init (jsonp_error_init error None) flags f args w));
          case v of
            None \<Rightarrow> Some (None, s)
          | Some p \<Rightarrow>
              let s1 = next_token s in
              if token s1 \<noteq> 0 then
                Some (None, set_error ''<format>'' json_error_invalid_format (cstr ''Garbage after format string'') (decref_in v s1))
              else Some (v, s1)
        })"

definition json_pack_ex where
  "json_pack_ex error flags fmt args w = json_vpack_ex error flags fmt args w"

definition json_pack where
  "json_pack fmt args w = json_vpack_ex None 0 fmt args w"

end
