(* ===== verification/Json_Pack_Correct.thy ===== *)
theory Json_Pack_Correct
  imports Json_Pack
begin

text \<open>
  Packing ends and keeps the reference counts, for every format string and all arguments.  A step of the packer is described by what it takes from
  the arguments, what it returns and what it leaves as it is (\<^verbatim>\<open>packs\<close>); the loops of objects and arrays keep such a description
  with the container they fill (\<^verbatim>\<open>loops\<close>).
\<close>

section \<open>Every format string is read to its end\<close>

text \<open>The tokens from the current one on, and what holds of the scanner once it has read its first token.\<close>

definition fmt_tokens :: "'a scanner_t_scheme \<Rightarrow> byte list" where
  "fmt_tokens s = (if token s = 0 then [] else [token s]) @
     (if tk_line (sc_next_token s) \<noteq> 0 \<and> tk_token (sc_next_token s) \<noteq> 0 then [tk_token (sc_next_token s)] else []) @
     filter (\<lambda>c. \<not> ignored c) (sc_fmt s)"

definition scanning :: "'a scanner_t_scheme \<Rightarrow> bool" where
  "scanning s \<longleftrightarrow> (token s = 0 \<longrightarrow> fmt_tokens s = []) \<and> (token s \<noteq> 0 \<longrightarrow> tk_line (sc_token s) \<noteq> 0) \<and> 0 \<notin> set (sc_fmt s) \<and> 0 < sc_line s \<and>
     (tk_line (sc_next_token s) \<noteq> 0 \<longrightarrow> tk_token (sc_next_token s) = 0 \<longrightarrow> filter (\<lambda>c. \<not> ignored c) (sc_fmt s) = [])"

definition same_scan :: "'a scanner_t_scheme \<Rightarrow> 'a scanner_t_scheme \<Rightarrow> bool" where
  "same_scan s s' \<longleftrightarrow> sc_fmt s' = sc_fmt s \<and> sc_prev_token s' = sc_prev_token s \<and> sc_token s' = sc_token s \<and>
     sc_next_token s' = sc_next_token s \<and> sc_line s' = sc_line s"

lemma same_scan_refl [simp]: "same_scan s s"
  by (simp add: same_scan_def)

lemma same_scan_trans [trans]: "same_scan s s1 \<Longrightarrow> same_scan s1 s2 \<Longrightarrow> same_scan s s2"
  by (simp add: same_scan_def)

lemma same_scan_tokens: "same_scan s s' \<Longrightarrow> fmt_tokens s' = fmt_tokens s \<and> scanning s' = scanning s \<and> token s' = token s"
  by (simp add: same_scan_def fmt_tokens_def scanning_def)

lemma skip_ignored_props:
  "skip_ignored t line column pos = (t', line', column', pos') \<Longrightarrow>
     filter (\<lambda>c. \<not> ignored c) t' = filter (\<lambda>c. \<not> ignored c) t \<and> (0 < line \<longrightarrow> 0 < line') \<and> set t' \<subseteq> set t \<and>
     (case t' of [] \<Rightarrow> True | c # _ \<Rightarrow> \<not> ignored c)"
  by (induction t line column pos rule: skip_ignored.induct) (auto split: if_splits)

lemma next_token_scan:
  assumes "scanning s"
  shows "scanning (next_token s)" "fmt_tokens (next_token s) = tl (fmt_tokens s)" "sc_prev_token (next_token s) = sc_token s"
proof -
  obtain t line column pos where k: "skip_ignored (sc_fmt s) (sc_line s) (sc_column s + 1) (sc_pos s + 1) = (t, line, column, pos)" by (metis prod_cases4)
  note K = skip_ignored_props [OF k]
  have z: "c \<noteq> 0" if "t = c # r" for c r using that K assms by (auto simp: scanning_def)
  have e: "filter (\<lambda>c. \<not> ignored c) (sc_fmt s) = (case t of [] \<Rightarrow> [] | c # r \<Rightarrow> c # filter (\<lambda>c. \<not> ignored c) r)"
    using K by (cases t) auto
  have "scanning (next_token s) \<and> fmt_tokens (next_token s) = tl (fmt_tokens s)"
  proof (cases "tk_line (sc_next_token s) \<noteq> 0 \<or> token s = 0 \<and> sc_fmt s = []")
    case True
    then show ?thesis using assms by (auto simp: next_token_def scanning_def fmt_tokens_def Let_def split: if_splits)
  next
    case False
    then show ?thesis using assms k K z e
      by (cases t) (auto simp: next_token_def scanning_def fmt_tokens_def Let_def split: if_splits)
  qed
  then show "scanning (next_token s)" "fmt_tokens (next_token s) = tl (fmt_tokens s)" by auto
  show "sc_prev_token (next_token s) = sc_token s" by (simp add: next_token_def Let_def split: prod.split)
qed

lemma prev_token_scan:
  assumes "scanning s" "same_scan (next_token s) s'"
  shows "scanning (prev_token s')" "fmt_tokens (prev_token s') = fmt_tokens s" "token (prev_token s') = token s"
proof -
  note N = next_token_scan [OF assms(1)] and S = same_scan_tokens [OF assms(2)]
  have p: "sc_prev_token s' = sc_token s" using N(3) assms(2) by (simp add: same_scan_def)
  then show t: "token (prev_token s') = token s" by (simp add: prev_token_def)
  have s': "scanning s'" "fmt_tokens s' = tl (fmt_tokens s)" using N S by auto
  have nx: "tk_line (sc_next_token s') = 0 \<or> tk_token (sc_next_token s') = 0"
    using assms(2) by (auto simp: same_scan_def next_token_def Let_def split: if_splits prod.splits)
  have tl: "fmt_tokens s' = (if token s' = 0 then [] else token s' # filter (\<lambda>c. \<not> ignored c) (sc_fmt s'))"
    using s'(1) nx by (auto simp: fmt_tokens_def scanning_def)
  show "fmt_tokens (prev_token s') = fmt_tokens s"
  proof (cases "token s = 0")
    case True
    then have "fmt_tokens s = []" using assms(1) by (simp add: scanning_def)
    then show ?thesis using s' tl True p by (auto simp: fmt_tokens_def prev_token_def scanning_def split: if_splits)
  next
    case False
    then have "fmt_tokens s = token s # fmt_tokens s'" using s'(2) by (auto simp: fmt_tokens_def)
    then show ?thesis using tl p False s'(1) by (auto simp: fmt_tokens_def prev_token_def scanning_def split: if_splits)
  qed
  then show "scanning (prev_token s')" using s'(1) assms(1) p tl t
    by (auto simp: scanning_def prev_token_def fmt_tokens_def split: if_splits)
qed

text \<open>What does not touch the scanner.\<close>

lemma same_scan_steps [simp, intro]:
  "same_scan s (set_error a b c s)" "same_scan s (set_failed a b c s)" "same_scan s (decref_in p s)" "same_scan s (incref_in q s)"
  by (auto simp: same_scan_def set_error_def set_failed_def decref_in_def incref_in_def Let_def split: option.split)

lemma same_scan_fields [simp]:
  "same_scan s (s'\<lparr>pk_undefined := u\<rparr>) = same_scan s s'" "same_scan s (s'\<lparr>sc_has_error := h\<rparr>) = same_scan s s'"
  "same_scan s (s'\<lparr>pk_taken := x\<rparr>) = same_scan s s'" "same_scan s (s'\<lparr>pk_world := w\<rparr>) = same_scan s s'"
  by (simp_all add: same_scan_def)

lemma same_scan_calls:
  "next_arg sel d s = (v, s') \<Longrightarrow> same_scan s s'" "in_world f s = (r, s') \<Longrightarrow> same_scan s s'" "in_mem g s = (x, s') \<Longrightarrow> same_scan s s'"
  by (auto simp: next_arg_def in_world_def in_mem_def same_scan_def split: list.splits option.splits prod.splits)

lemma same_scan_args:
  "arg_str s = (a, s') \<Longrightarrow> same_scan s s'" "arg_int s = (b, s') \<Longrightarrow> same_scan s s'" "arg_size s = (c, s') \<Longrightarrow> same_scan s s'"
  "arg_json_int s = (b, s') \<Longrightarrow> same_scan s s'" "arg_double s = (d, s') \<Longrightarrow> same_scan s s'" "arg_json s = (e, s') \<Longrightarrow> same_scan s s'"
  "arg_var s = (f, s') \<Longrightarrow> same_scan s s'"
  by (simp_all add: arg_str_def arg_int_def arg_size_def arg_json_int_def arg_double_def arg_json_def arg_var_def same_scan_calls(1))

section \<open>Steps without a result\<close>

primrec json_args :: "va_arg list \<Rightarrow> ptr multiset" where
  "json_args [] = {#}"
| "json_args (a # args) = (case a of A_json (Some p) \<Rightarrow> add_mset p (json_args args) | _ \<Rightarrow> json_args args)"

text \<open>A step that reads on, may take arguments, and leaves the heap and the references alone.\<close>

definition moves :: "packer \<Rightarrow> packer \<Rightarrow> bool" where
  "moves s s' \<longleftrightarrow> scanning s' \<and> length (fmt_tokens s') \<le> length (fmt_tokens s) \<and> (pk_undefined s \<longrightarrow> pk_undefined s') \<and> (sc_has_error s \<longrightarrow> sc_has_error s') \<and>
     json_args (pk_args s') \<subseteq># json_args (pk_args s) \<and> pk_taken s' = pk_taken s \<and> same_heap (pk_world s) (pk_world s')"

text \<open>The same for a step that does not touch the scanner.\<close>

definition idles :: "packer \<Rightarrow> packer \<Rightarrow> bool" where
  "idles s s' \<longleftrightarrow> same_scan s s' \<and> (pk_undefined s \<longrightarrow> pk_undefined s') \<and> (sc_has_error s \<longrightarrow> sc_has_error s') \<and>
     json_args (pk_args s') \<subseteq># json_args (pk_args s) \<and> pk_taken s' = pk_taken s \<and> same_heap (pk_world s) (pk_world s')"

lemma idles_refl [simp]: "idles s s"
  by (simp add: idles_def)

lemma idles_trans [trans]: "idles s s1 \<Longrightarrow> idles s1 s2 \<Longrightarrow> idles s s2"
  by (auto simp: idles_def elim: same_scan_trans same_heap_trans subset_mset.order_trans)

lemma moves_trans [trans]: "moves s s1 \<Longrightarrow> moves s1 s2 \<Longrightarrow> moves s s2"
  by (auto simp: moves_def elim: same_heap_trans subset_mset.order_trans)

lemma idles_moves: "scanning s \<Longrightarrow> idles s s' \<Longrightarrow> moves s s'"
  unfolding idles_def moves_def using same_scan_tokens [of s s'] by simp

lemma moves_scanning: "moves s s' \<Longrightarrow> scanning s'"
  by (simp add: moves_def)

lemma idles_steps [simp]:
  "idles s (set_error a b c s)" "idles s (set_failed a b c s)" "idles s (s\<lparr>pk_undefined := True\<rparr>)" "idles s (s\<lparr>sc_has_error := True\<rparr>)"
  by (auto simp: idles_def same_scan_def set_error_def set_failed_def)

lemma json_args_Cons: "json_args args \<subseteq># json_args (a # args)"
  by (cases a) (auto split: option.split)

lemma idles_arg: "next_arg sel d s = (v, s') \<Longrightarrow> idles s s'"
  using json_args_Cons by (cases "pk_args s") (auto simp: idles_def next_arg_def same_scan_def simp del: json_args.simps(2) split: option.splits)

lemma idles_args:
  "arg_str s = (a, s') \<Longrightarrow> idles s s'" "arg_int s = (b, s') \<Longrightarrow> idles s s'" "arg_size s = (c, s') \<Longrightarrow> idles s s'"
  "arg_json_int s = (b, s') \<Longrightarrow> idles s s'" "arg_double s = (d, s') \<Longrightarrow> idles s s'" "arg_json s = (e, s') \<Longrightarrow> idles s s'"
  "arg_var s = (f, s') \<Longrightarrow> idles s s'"
  by (simp_all add: arg_str_def arg_int_def arg_size_def arg_json_int_def arg_double_def arg_json_def arg_var_def idles_arg)

lemma idles_mem: "in_mem f s = (r, s') \<Longrightarrow> idles s s'"
  by (auto simp: in_mem_def idles_def same_scan_def same_heap_def split: prod.splits)

lemma next_token_fields [simp]:
  "pk_undefined (next_token s) = pk_undefined s" "pk_args (next_token s) = pk_args s" "pk_taken (next_token s) = pk_taken s"
  "pk_world (next_token s) = pk_world s" "pk_kept (next_token s) = pk_kept s" "sc_has_error (next_token s) = sc_has_error s"
  "sc_flags (next_token s) = sc_flags s" "pk_vars (next_token s) = pk_vars s"
  by (simp_all add: next_token_def Let_def split: prod.split)

lemma prev_token_fields [simp]:
  "pk_undefined (prev_token s) = pk_undefined s" "pk_args (prev_token s) = pk_args s" "pk_taken (prev_token s) = pk_taken s"
  "pk_world (prev_token s) = pk_world s" "pk_kept (prev_token s) = pk_kept s" "sc_has_error (prev_token s) = sc_has_error s"
  "sc_flags (prev_token s) = sc_flags s" "pk_vars (prev_token s) = pk_vars s"
  by (simp_all add: prev_token_def)

lemma moves_next: "scanning s \<Longrightarrow> moves s (next_token s)"
  using next_token_scan [of s] by (simp add: moves_def)

lemma moves_peek: "scanning s \<Longrightarrow> idles (next_token s) s' \<Longrightarrow> moves s (prev_token s')"
  using prev_token_scan [of s s'] by (simp add: moves_def idles_def)

lemma moves_then_idles: "moves s s1 \<Longrightarrow> idles s1 s2 \<Longrightarrow> moves s s2"
  using moves_trans idles_moves moves_scanning by blast

lemma read_length_moves:
  assumes "scanning s" "read_length str s = (len, s')"
  shows "moves s s'"
proof -
  consider "idles (next_token s) s'" | "s' = prev_token (next_token s)"
    using assms(2) idles_args(2,3) by (auto simp: read_length_def Let_def split: if_splits prod.splits)
  then show ?thesis
  proof cases
    case 1
    then show ?thesis by (rule moves_then_idles [OF moves_next [OF assms(1)]])
  next
    case 2
    then show ?thesis using moves_peek [OF assms(1) idles_refl] by simp
  qed
qed

lemma append_part_idles:
  assumes "append_part sb str len s = (sb', s')"
  shows "idles s s'"
proof (cases "sc_has_error s")
  case False
  define s1 where "s1 = (if len \<le> length (the str) then s else s\<lparr>pk_undefined := True\<rparr>)"
  obtain r sb1 s2 where i: "in_mem (\<lambda>m. case strbuffer_append_bytes sb (take len (the str)) m of (r, sb', m') \<Rightarrow> ((r, sb'), m')) s1 = ((r, sb1), s2)"
    by (metis surj_pair)
  have "idles s s2" using idles_trans [OF _ idles_mem [OF i], of s] by (simp add: s1_def)
  moreover have "s' = (if r = -1 then set_failed ''<internal>'' json_error_out_of_memory (cstr ''Out of memory'') s2 else s2)"
    using assms False i by (simp add: append_part_def s1_def)
  ultimately show ?thesis using idles_trans [OF _ idles_steps(2)] by simp
qed (use assms in \<open>simp add: append_part_def\<close>)

lemma read_part_moves:
  assumes "scanning s" "read_part purpose sb s = (sb', s')"
  shows "moves s s'"
proof -
  obtain str s1 where a: "arg_str s = (str, s1)" by force
  define s2 where "s2 = (if str = None then set_failed ''<args>'' json_error_null_value (cstr ''NULL '' @ purpose) s1 else s1)"
  obtain len s3 where l: "read_length str s2 = (len, s3)" by force
  have m2: "moves s s2" using moves_then_idles [OF idles_moves [OF assms(1) idles_args(1) [OF a]], of s2] by (simp add: s2_def)
  have "moves s s3" by (rule moves_trans [OF m2 read_length_moves [OF moves_scanning [OF m2] l]])
  moreover have "append_part sb str len s3 = (sb', s')" using assms(2) a l by (simp add: read_part_def s2_def)
  ultimately show ?thesis using append_part_idles moves_then_idles by blast
qed

lemma read_loop_ends:
  "scanning s \<Longrightarrow> length (fmt_tokens s) < n \<Longrightarrow> \<exists>sb' s'. read_loop n purpose sb s = Some (sb', s') \<and> moves s s'"
proof (induction n arbitrary: s sb)
  case (Suc n)
  obtain sb1 s1 where r: "read_part purpose sb s = (sb1, s1)" by force
  note m1 = read_part_moves [OF Suc.prems(1) r]
  note N = next_token_scan [OF moves_scanning [OF m1]]
  show ?case
  proof (cases "token (next_token s1) = fc CHR ''+''")
    case True
    then have "fmt_tokens (next_token s1) \<noteq> []" by (simp add: fmt_tokens_def)
    then have "length (fmt_tokens (next_token s1)) < length (fmt_tokens s1)" using N(2) by (cases "fmt_tokens s1") auto
    then have "length (fmt_tokens (next_token s1)) < n" using m1 Suc.prems(2) by (simp add: moves_def)
    from Suc.IH [OF N(1) this] obtain sb' s' where "read_loop n purpose sb1 (next_token s1) = Some (sb', s')" "moves (next_token s1) s'" by blast
    moreover from this have "moves s s'" using moves_trans [OF moves_trans [OF m1 moves_next [OF moves_scanning [OF m1]]]] by blast
    moreover have "read_loop (Suc n) purpose sb s = read_loop n purpose sb1 (next_token s1)" using r True by (simp add: Let_def)
    ultimately show ?thesis by (simp del: read_loop.simps)
  next
    case False
    then have "read_loop (Suc n) purpose sb s = Some (sb1, prev_token (next_token s1))" using r by (simp add: Let_def)
    then show ?thesis using moves_trans [OF m1 moves_peek [OF moves_scanning [OF m1] idles_refl]] by (simp del: read_loop.simps)
  qed
qed simp

lemma read_string_ends:
  assumes "scanning s" "length (fmt_tokens s) < n"
  shows "\<exists>r s'. read_string n purpose optional s = Some (r, s') \<and> moves s s'"
proof -
  let ?s1 = "next_token s" and ?s = "prev_token (next_token s)"
  note P = prev_token_scan [OF assms(1) same_scan_refl]
  have m: "moves s ?s" by (rule moves_peek [OF assms(1) idles_refl])
  note idle = moves_then_idles [OF m]
  consider (simple) "token ?s1 \<noteq> fc CHR ''#'' \<and> token ?s1 \<noteq> fc CHR ''%'' \<and> token ?s1 \<noteq> fc CHR ''+''"
    | (optional) "\<not> (token ?s1 \<noteq> fc CHR ''#'' \<and> token ?s1 \<noteq> fc CHR ''%'' \<and> token ?s1 \<noteq> fc CHR ''+'')" "optional"
    | (loop) "\<not> (token ?s1 \<noteq> fc CHR ''#'' \<and> token ?s1 \<noteq> fc CHR ''%'' \<and> token ?s1 \<noteq> fc CHR ''+'')" "\<not> optional" by blast
  then show ?thesis
  proof cases
    case simple
    obtain str s2 where a: "arg_str ?s = (str, s2)" by force
    have i: "idles ?s s2" by (rule idles_args(1) [OF a])
    note ok = idle [OF i] idle [OF idles_trans [OF i idles_steps(2)]]
    show ?thesis using simple a ok by (cases str) (auto simp: read_string_def Let_def simp del: cstr_Cons)
  next
    case optional
    then show ?thesis using idle [OF idles_steps(2)] by (auto simp: read_string_def Let_def simp del: cstr_Cons)
  next
    case loop
    obtain r sb s1 where i: "in_mem (\<lambda>m. case strbuffer_init m of (r, sb, m') \<Rightarrow> ((r, sb), m')) ?s = ((r, sb), s1)" by (metis surj_pair)
    define s2 where "s2 = (if r \<noteq> 0 then set_failed ''<internal>'' json_error_out_of_memory (cstr ''Out of memory'') s1 else s1)"
    have "idles ?s s2" using idles_mem [OF i] idles_trans [OF idles_mem [OF i] idles_steps(2)] by (simp add: s2_def)
    then have m2: "moves s s2" by (rule idle)
    have "length (fmt_tokens s2) < n" using m2 assms(2) by (simp add: moves_def)
    from read_loop_ends [OF moves_scanning [OF m2] this] obtain sb' s' where l: "read_loop n purpose sb s2 = Some (sb', s')" "moves s2 s'" by blast
    have m': "moves s s'" by (rule moves_trans [OF m2 l(2)])
    note ok = m' moves_then_idles [OF m' idles_steps(2)]
    have "read_string n purpose optional s = Some
        (if sc_has_error s' then ((None, 0, False), s')
         else if \<not> utf8_check_string (take (sb_length sb') (the (sb_value sb'))) then
           ((None, 0, False), set_failed ''<args>'' json_error_invalid_utf8 (cstr ''Invalid UTF-8 '' @ purpose) s')
         else ((fst (strbuffer_steal_value sb'), sb_length sb', True), s'))"
      using loop(2) i l(1) unfolding read_string_def Let_def if_not_P [OF loop(1)] by (simp add: s2_def del: cstr_Cons)
    then show ?thesis using ok by (auto simp del: cstr_Cons)
  qed
qed

section \<open>Steps with a result\<close>

text \<open>
  A step that may take references, those of \<open>S\<close>, and gives a reference to its result, if it has one.  What lies behind the other references
  stays as it is.
\<close>

definition packs :: "packer \<Rightarrow> ptr option \<Rightarrow> packer \<Rightarrow> bool" where
  "packs s r s' \<longleftrightarrow> scanning s' \<and> length (fmt_tokens s') \<le> length (fmt_tokens s) \<and> (pk_undefined s \<longrightarrow> pk_undefined s') \<and> (sc_has_error s \<longrightarrow> sc_has_error s') \<and>
     (\<exists>S. pk_taken s' = pk_taken s @ S \<and> mset S + json_args (pk_args s') \<subseteq># json_args (pk_args s) \<and>
       (\<forall>E. \<not> pk_undefined s' \<longrightarrow> length (fmt_tokens s) < 2 ^ 31 \<longrightarrow> rc_inv {} E (pk_world s) \<longrightarrow> json_args (pk_args s) \<subseteq># E \<longrightarrow>
          rc_inv {} (plus_result r (E - mset S)) (pk_world s') \<and> keeps (E - mset S) (pk_world s) (pk_world s')))"

lemma packsI:
  assumes "scanning s'" "length (fmt_tokens s') \<le> length (fmt_tokens s)" "pk_undefined s \<longrightarrow> pk_undefined s'" "sc_has_error s \<longrightarrow> sc_has_error s'"
    and "pk_taken s' = pk_taken s @ S" "mset S + json_args (pk_args s') \<subseteq># json_args (pk_args s)"
    and "\<And>E. \<not> pk_undefined s' \<Longrightarrow> length (fmt_tokens s) < 2 ^ 31 \<Longrightarrow> rc_inv {} E (pk_world s) \<Longrightarrow> json_args (pk_args s) \<subseteq># E \<Longrightarrow>
      rc_inv {} (plus_result r (E - mset S)) (pk_world s') \<and> keeps (E - mset S) (pk_world s) (pk_world s')"
  shows "packs s r s'"
  using assms unfolding packs_def by blast

lemma packsE:
  assumes "packs s r s'"
  obtains S where "scanning s'" "length (fmt_tokens s') \<le> length (fmt_tokens s)" "pk_undefined s \<longrightarrow> pk_undefined s'" "sc_has_error s \<longrightarrow> sc_has_error s'"
    "pk_taken s' = pk_taken s @ S" "mset S + json_args (pk_args s') \<subseteq># json_args (pk_args s)"
    "\<And>E. \<not> pk_undefined s' \<Longrightarrow> length (fmt_tokens s) < 2 ^ 31 \<Longrightarrow> rc_inv {} E (pk_world s) \<Longrightarrow> json_args (pk_args s) \<subseteq># E \<Longrightarrow>
      rc_inv {} (plus_result r (E - mset S)) (pk_world s') \<and> keeps (E - mset S) (pk_world s) (pk_world s')"
  using assms unfolding packs_def by blast

lemma same_heap_keeps: "same_heap w w' \<Longrightarrow> keeps E w w'"
  using same_heap_data [of w w'] by (simp add: keeps_def)

lemma moves_packs:
  assumes "moves s s1" "packs s1 r s'"
  shows "packs s r s'"
proof -
  obtain S where S: "scanning s'" "length (fmt_tokens s') \<le> length (fmt_tokens s1)" "pk_undefined s1 \<longrightarrow> pk_undefined s'" "sc_has_error s1 \<longrightarrow> sc_has_error s'"
    "pk_taken s' = pk_taken s1 @ S" "mset S + json_args (pk_args s') \<subseteq># json_args (pk_args s1)"
    "\<And>E. \<not> pk_undefined s' \<Longrightarrow> length (fmt_tokens s1) < 2 ^ 31 \<Longrightarrow> rc_inv {} E (pk_world s1) \<Longrightarrow> json_args (pk_args s1) \<subseteq># E \<Longrightarrow>
      rc_inv {} (plus_result r (E - mset S)) (pk_world s') \<and> keeps (E - mset S) (pk_world s1) (pk_world s')"
    using packsE [OF assms(2)] by metis
  have m: "length (fmt_tokens s1) \<le> length (fmt_tokens s)" "pk_undefined s \<longrightarrow> pk_undefined s1" "sc_has_error s \<longrightarrow> sc_has_error s1"
    "json_args (pk_args s1) \<subseteq># json_args (pk_args s)" "pk_taken s1 = pk_taken s" "same_heap (pk_world s) (pk_world s1)"
    using assms(1) by (auto simp: moves_def)
  show ?thesis
  proof (rule packsI [where S = S])
    fix E assume "\<not> pk_undefined s'" "length (fmt_tokens s) < 2 ^ 31" "rc_inv {} E (pk_world s)" "json_args (pk_args s) \<subseteq># E"
    moreover from this have "length (fmt_tokens s1) < 2 ^ 31" "rc_inv {} E (pk_world s1)" "json_args (pk_args s1) \<subseteq># E"
      using m rc_inv_same_heap [OF m(6)] subset_mset.order_trans by (auto simp del: power_numeral)
    ultimately show "rc_inv {} (plus_result r (E - mset S)) (pk_world s') \<and> keeps (E - mset S) (pk_world s) (pk_world s')"
      using S(7) [of E] keeps_trans [OF same_heap_keeps [OF m(6)]] by blast
  qed (use S(1-6) m in \<open>auto elim: subset_mset.order_trans\<close>)
qed

lemma packs_idles:
  assumes "packs s r s1" "idles s1 s'"
  shows "packs s r s'"
proof -
  obtain S where S: "scanning s1" "length (fmt_tokens s1) \<le> length (fmt_tokens s)" "pk_undefined s \<longrightarrow> pk_undefined s1" "sc_has_error s \<longrightarrow> sc_has_error s1"
    "pk_taken s1 = pk_taken s @ S" "mset S + json_args (pk_args s1) \<subseteq># json_args (pk_args s)"
    "\<And>E. \<not> pk_undefined s1 \<Longrightarrow> length (fmt_tokens s) < 2 ^ 31 \<Longrightarrow> rc_inv {} E (pk_world s) \<Longrightarrow> json_args (pk_args s) \<subseteq># E \<Longrightarrow>
      rc_inv {} (plus_result r (E - mset S)) (pk_world s1) \<and> keeps (E - mset S) (pk_world s) (pk_world s1)"
    using packsE [OF assms(1)] by metis
  have i: "same_scan s1 s'" "pk_undefined s1 \<longrightarrow> pk_undefined s'" "sc_has_error s1 \<longrightarrow> sc_has_error s'"
    "json_args (pk_args s') \<subseteq># json_args (pk_args s1)" "pk_taken s' = pk_taken s1" "same_heap (pk_world s1) (pk_world s')"
    using assms(2) by (auto simp: idles_def)
  show ?thesis
  proof (rule packsI [where S = S])
    show "mset S + json_args (pk_args s') \<subseteq># json_args (pk_args s)" using S(6) i(4) by (meson subset_mset.add_left_mono subset_mset.order_trans)
    fix E assume "\<not> pk_undefined s'" "length (fmt_tokens s) < 2 ^ 31" "rc_inv {} E (pk_world s)" "json_args (pk_args s) \<subseteq># E"
    then show "rc_inv {} (plus_result r (E - mset S)) (pk_world s') \<and> keeps (E - mset S) (pk_world s) (pk_world s')"
      using S(7) [of E] i(2) rc_inv_same_heap [OF i(6)] keeps_trans [OF _ same_heap_keeps [OF i(6)]] by blast
  qed (use S(1-5) i(2,3,5) same_scan_tokens [OF i(1)] in auto)
qed

text \<open>A call of the library that gives a new reference, or nothing.\<close>

lemma world_packs:
  assumes "scanning s" "in_world f s = (r, s')"
    and "\<And>E w'. rc_inv {} E (pk_world s) \<Longrightarrow> f (pk_world s) = (r, w') \<Longrightarrow> rc_inv {} (plus_result r E) w' \<and> keeps E (pk_world s) w'"
  shows "packs s r s'"
proof -
  obtain w' where w': "f (pk_world s) = (r, w')" "s' = s\<lparr>pk_world := w'\<rparr>" using assms(2) by (auto simp: in_world_def split: prod.splits)
  have "same_scan s s'" using w'(2) by simp
  then show ?thesis using assms(1) assms(3) [OF _ w'(1)] w'(2) same_scan_tokens [of s s']
    by (intro packsI [where S = "[]"]) auto
qed

lemma static_packs: "scanning s \<Longrightarrow> q \<in> statics \<Longrightarrow> packs s (Some q) s"
  by (rule packsI [where S = "[]"]) (auto intro: rc_inv_add_static)

lemma none_packs: "scanning s \<Longrightarrow> idles s s' \<Longrightarrow> packs s None s'"
  by (rule packs_idles [of s None s]) (auto intro: packsI [where S = "[]"])

lemma statics_results: "json_null = Some null_ptr" "null_ptr \<in> statics" "json_true = Some true_ptr" "true_ptr \<in> statics"
  "json_false = Some false_ptr" "false_ptr \<in> statics"
  by (simp_all add: json_null_def json_true_def json_false_def statics_def)

lemma string_create_creates: "string_create v n own w = (r, w') \<Longrightarrow> \<exists>d. creates d r w w'"
  by (cases v; cases own)
    (auto simp: string_create_def creates_def w_malloc_def json_init_def set_cell_def Let_def split: prod.splits bool.splits option.splits)

lemma string_packs:
  assumes "scanning s" "in_world (string_create v n own) s = (r, s')"
  shows "packs s r s'"
  by (rule world_packs [OF assms]) (use string_create_inv string_create_creates creates_keeps in blast)

lemma pack_string_ends:
  assumes "scanning s" "length (fmt_tokens s) < n"
  shows "\<exists>r s'. pack_string n s = Some (r, s') \<and> packs s r s'"
proof -
  let ?t = "token (next_token s)"
  define optional where "optional = (?t = fc CHR ''?'' \<or> ?t = fc CHR ''*'')"
  define s2 where "s2 = (if \<not> optional then prev_token (next_token s) else next_token s)"
  have m2: "moves s s2" using moves_next [OF assms(1)] moves_peek [OF assms(1) idles_refl] by (simp add: s2_def)
  then have "length (fmt_tokens s2) < n" using assms(2) by (simp add: moves_def)
  from read_string_ends [OF moves_scanning [OF m2] this] obtain str len ours s3 where
    r: "read_string n (cstr ''string'') optional s2 = Some ((str, len, ours), s3)" "moves s2 s3" by (metis prod_cases3)
  have m3: "moves s s3" by (rule moves_trans [OF m2 r(2)])
  have sc: "scanning s3" by (rule moves_scanning [OF m3])
  have pk: "packs s r1 s'" if "packs s3 r1 s'" for r1 s' by (rule moves_packs [OF m3 that])
  have eq: "pack_string n s = Some (if str = None then (if ?t = fc CHR ''?'' \<and> \<not> sc_has_error s3 then json_null else None, s3)
      else if sc_has_error s3 then (None, s3) else in_world (string_create str len ours) s3)"
    unfolding pack_string_def Let_def optional_def [symmetric] s2_def [symmetric] r(1)
    by (simp add: jsonp_stringn_nocheck_own_def [abs_def] json_stringn_nocheck_def [abs_def])
  obtain r1 s' where w: "in_world (string_create str len ours) s3 = (r1, s')" by force
  show ?thesis using eq w pk [OF string_packs [OF sc w]] pk [OF none_packs [OF sc idles_refl]] pk [OF static_packs [OF sc statics_results(2)]]
    statics_results(1) by auto
qed

lemma arg_json_Some:
  assumes "arg_json s = (Some p, s')"
  shows "json_args (pk_args s) = add_mset p (json_args (pk_args s'))" "\<exists>args. s' = s\<lparr>pk_args := args\<rparr>"
  using assms by (auto simp: arg_json_def next_arg_def split: list.splits va_arg.splits option.splits)

lemma incref_packs:
  assumes "scanning s" "arg_json s = (Some p, s1)"
  shows "packs s (Some p) (incref_in p s1)"
proof -
  note a = arg_json_Some [OF assms(2)]
  have sc: "same_scan s (incref_in p s1)" using same_scan_trans [OF same_scan_args(6) [OF assms(2)]] by simp
  have f: "pk_args (incref_in p s1) = pk_args s1" "pk_taken (incref_in p s1) = pk_taken s" "sc_has_error (incref_in p s1) = sc_has_error s"
    "pk_world (incref_in p s1) = json_incref (Some p) (pk_world s)" "pk_undefined s \<longrightarrow> pk_undefined (incref_in p s1)"
    "\<not> pk_undefined (incref_in p s1) \<Longrightarrow> w_heap (pk_world s) p = Some c \<Longrightarrow> j_refcount c \<noteq> SIZE_MAX - 1" for c
    using a(2) by (auto simp: incref_in_def Let_def split: option.splits if_splits)
  show ?thesis
  proof (rule packsI [where S = "[]"])
    fix E assume E: "\<not> pk_undefined (incref_in p s1)" "rc_inv {} E (pk_world s)" "json_args (pk_args s) \<subseteq># E"
    then have "p \<in># E" using a(1) by (metis mset_subset_eqD union_single_eq_member)
    then obtain c where c: "w_heap (pk_world s) p = Some c" using rc_invD(9) [OF E(2)] by auto
    have "p \<in> statics \<or> Suc (j_refcount c) < SIZE_MAX" using f(6) [OF E(1) c] rc_invD(6) [OF E(2) c] by linarith
    then have "rc_inv {} (add_mset p E) (json_incref (Some p) (pk_world s))" using json_incref_inv [OF E(2), of p] c by auto
    moreover have "keeps E (pk_world s) (json_incref (Some p) (pk_world s))" using c by (auto simp: keeps_def json_incref_def data_at_def)
    ultimately show "rc_inv {} (plus_result (Some p) (E - mset [])) (pk_world (incref_in p s1)) \<and> keeps (E - mset []) (pk_world s) (pk_world (incref_in p s1))"
      using f(4) by simp
  qed (use assms(1) same_scan_tokens [OF sc] f a(1) in auto)
qed

lemma take_packs:
  assumes "scanning s" "arg_json s = (Some p, s1)"
  shows "packs s (Some p) (s1\<lparr>pk_taken := pk_taken s1 @ [p]\<rparr>)"
proof -
  note a = arg_json_Some [OF assms(2)]
  have sc: "same_scan s (s1\<lparr>pk_taken := pk_taken s1 @ [p]\<rparr>)" using same_scan_args(6) [OF assms(2)] by simp
  have f: "pk_taken s1 = pk_taken s" "sc_has_error s1 = sc_has_error s" "pk_world s1 = pk_world s" "pk_undefined s1 = pk_undefined s"
    using a(2) by auto
  show ?thesis
  proof (rule packsI [where S = "[p]"])
    fix E assume E: "rc_inv {} E (pk_world s)" "json_args (pk_args s) \<subseteq># E"
    then have "p \<in># E" using a(1) by (metis mset_subset_eqD union_single_eq_member)
    then show "rc_inv {} (plus_result (Some p) (E - mset [p])) (pk_world (s1\<lparr>pk_taken := pk_taken s1 @ [p]\<rparr>)) \<and>
        keeps (E - mset [p]) (pk_world s) (pk_world (s1\<lparr>pk_taken := pk_taken s1 @ [p]\<rparr>))"
      using E(1) f(3) by simp
  qed (use assms(1) same_scan_tokens [OF sc] f a(1) in auto)
qed

lemma pack_object_inter_packs:
  assumes "scanning s" "pack_object_inter need_incref s = (r, s')"
  shows "packs s r s'"
proof -
  let ?t = "token (next_token s)"
  define s2 where "s2 = (if ?t \<noteq> fc CHR ''?'' \<and> ?t \<noteq> fc CHR ''*'' then prev_token (next_token s) else next_token s)"
  have m2: "moves s s2" using moves_next [OF assms(1)] moves_peek [OF assms(1) idles_refl] by (simp add: s2_def)
  note sc = moves_scanning [OF m2]
  obtain json s3 where a: "arg_json s2 = (json, s3)" by force
  have i: "idles s2 s3" by (rule idles_args(6) [OF a])
  have eq: "pack_object_inter need_incref s = (case json of
      Some p \<Rightarrow> (Some p, if need_incref then incref_in p s3 else s3\<lparr>pk_taken := pk_taken s3 @ [p]\<rparr>)
    | None \<Rightarrow> if ?t = fc CHR ''?'' then (json_null, s3) else if ?t = fc CHR ''*'' then (None, s3)
              else (None, set_failed ''<args>'' json_error_null_value (cstr ''NULL object'') s3))"
    unfolding pack_object_inter_def Let_def s2_def [symmetric] a by (simp split: option.split)
  have "packs s2 r s'"
  proof (cases json)
    case None
    have "packs s2 (Some null_ptr) s3" by (rule packs_idles [OF static_packs [OF sc statics_results(2)] i])
    then show ?thesis using assms(2) eq None none_packs [OF sc i] none_packs [OF sc idles_trans [OF i idles_steps(2)]] statics_results(1)
      by (auto split: if_splits simp del: cstr_Cons)
  next
    case (Some p)
    then show ?thesis using assms(2) eq incref_packs [OF sc, of p s3] take_packs [OF sc, of p s3] a by (auto split: if_splits)
  qed
  then show ?thesis by (rule moves_packs [OF m2])
qed

lemma pack_integer_packs:
  assumes "scanning s" "pack_integer v s = (r, s')"
  shows "packs s r s'"
proof -
  obtain r1 s1 where w: "in_world (json_integer v) s = (r1, s1)" by force
  have "packs s r1 s1"
    by (rule world_packs [OF assms(1) w]) (use json_integer_inv json_integer_creates creates_keeps in blast)
  moreover have "r = r1" "idles s1 s'" using assms(2) w by (auto simp: pack_integer_def simp del: cstr_Cons)
  ultimately show ?thesis using packs_idles by blast
qed

lemma real_set_inv:
  assumes "rc_inv {} (add_mset p E) w" "w_heap w p = Some \<lparr>j_refcount = 1, j_data = JReal x\<rparr>" "p \<notin> statics" "\<not> c_isnan y" "\<not> c_isinf y"
  shows "rc_inv {} (add_mset p E) (set_data p (JReal y) w)"
  using container_update [of "{#}" "add_mset p E" w p _ "[]" "{#}" "JReal y"] assms by simp

lemma pack_real_packs:
  assumes "scanning s" "pack_real v s = (r, s')"
  shows "packs s r s'"
proof -
  obtain r1 s1 where w: "in_world (json_real 0) s = (r1, s1)" by force
  have p1: "packs s r1 s1"
    by (rule world_packs [OF assms(1) w]) (use json_real_inv json_real_creates creates_keeps in blast)
  show ?thesis
  proof (cases r1)
    case None
    then have "r = None" "idles s1 s'" using assms(2) w by (auto simp: pack_real_def simp del: cstr_Cons)
    then show ?thesis using packs_idles [OF p1] None by blast
  next
    case (Some p)
    obtain w1 where w1: "json_real 0 (pk_world s) = (Some p, w1)" "s1 = s\<lparr>pk_world := w1\<rparr>" using w Some by (auto simp: in_world_def split: prod.splits)
    have cr: "creates (JReal 0) (Some p) (pk_world s) w1" by (rule json_real_creates [OF w1(1)])
    have cell: "w_heap w1 p = Some \<lparr>j_refcount = 1, j_data = JReal 0\<rparr>" "p = w_brk (pk_world s)" using cr by (auto simp: creates_def)
    let ?bad = "\<not> json_is_real w1 (Some p) \<or> c_isnan v \<or> c_isinf v"
    let ?g = "\<lambda>u. if ?bad then (None, json_decref (Some p) w1) else (Some p, set_data p (JReal v) w1)"
    have "packs s (if ?bad then None else Some p) (s\<lparr>pk_world := (if ?bad then json_decref (Some p) w1 else set_data p (JReal v) w1)\<rparr>)"
    proof (rule world_packs [OF assms(1), where f = ?g])
      fix E w' assume E: "rc_inv {} E (pk_world s)" "?g (pk_world s) = (if ?bad then None else Some p, w')"
      have inv: "rc_inv {} (add_mset p E) w1" using json_real_inv [OF E(1) w1(1)] by simp
      have k: "keeps E (pk_world s) w1" by (rule creates_keeps [OF cr E(1)])
      have d: "rc_inv {} E (json_decref (Some p) w1)" by (rule json_decref_inv [OF inv])
      have st: "p \<notin> statics" using brk_not_static [OF E(1)] cell(2) by simp
      have "p \<notin># E" using rc_invD(3,9) [OF E(1)] cell(2) by force
      then have "keeps E w1 (set_data p (JReal v) w1)" using cell(1) by (auto simp: keeps_def data_at_def set_data_def)
      then show "rc_inv {} (plus_result (if ?bad then None else Some p) E) w' \<and> keeps E (pk_world s) w'"
        using E(2) d real_set_inv [OF inv cell(1) st, of v] keeps_trans [OF k] shrinks_keeps [OF _ d] by (auto split: if_splits)
    qed (simp add: in_world_def)
    moreover have "r = (if ?bad then None else Some p)"
      "idles (s\<lparr>pk_world := (if ?bad then json_decref (Some p) w1 else set_data p (JReal v) w1)\<rparr>) s'"
      using assms(2) w Some w1(2)
      by (auto simp: pack_real_def in_world_def json_real_set_def decref_in_def simp del: cstr_Cons split: if_splits)
    ultimately show ?thesis using packs_idles by blast
  qed
qed

lemma pack_scalar_ends:
  assumes "scanning s" "length (fmt_tokens s) < n"
  shows "\<exists>r s'. pack_scalar n s = Some (r, s') \<and> packs s r s'"
proof -
  have via: "packs s r s'" if "idles s s1" "packs s1 r s'" for s1 r s' by (rule moves_packs [OF idles_moves [OF assms(1) that(1)] that(2)])
  have sc: "scanning s1" if "idles s s1" for s1 using moves_scanning [OF idles_moves [OF assms(1) that]] .
  obtain x1 s1 x2 s2 x3 s3 where a: "arg_int s = (x1, s1)" "arg_json_int s = (x2, s2)" "arg_double s = (x3, s3)" by (metis surj_pair)
  note i = idles_args(2) [OF a(1)] idles_args(4) [OF a(2)] idles_args(5) [OF a(3)]
  have int: "packs s (fst (pack_integer x1 s1)) (snd (pack_integer x1 s1))" by (rule via [OF i(1) pack_integer_packs [OF sc [OF i(1)]]]) simp
  have jint: "packs s (fst (pack_integer x2 s2)) (snd (pack_integer x2 s2))" by (rule via [OF i(2) pack_integer_packs [OF sc [OF i(2)]]]) simp
  have dbl: "packs s (fst (pack_real x3 s3)) (snd (pack_real x3 s3))" by (rule via [OF i(3) pack_real_packs [OF sc [OF i(3)]]]) simp
  have bool: "packs s (if x1 \<noteq> 0 then json_true else json_false) s1"
    unfolding statics_results(3,5) using via [OF i(1) static_packs [OF sc [OF i(1)]]] statics_results(4,6) by simp
  have err: "packs s None (set_failed u v w s)" for u v w by (rule none_packs [OF assms(1)]) simp
  have null: "packs s json_null s" unfolding statics_results(1) by (rule static_packs [OF assms(1) statics_results(2)])
  have inter: "packs s (fst (pack_object_inter b s)) (snd (pack_object_inter b s))" for b by (rule pack_object_inter_packs [OF assms(1)]) simp
  define good where "good x \<longleftrightarrow> (\<exists>r s'. x = Some (r, s') \<and> packs s r s')" for x
  have pick: "good x \<Longrightarrow> good y \<Longrightarrow> good (if c then x else y)" for x y c by simp
  have some: "good (Some y)" if "packs s (fst y) (snd y)" for y using that unfolding good_def by (cases y) auto
  have str: "good (pack_string n s)" using pack_string_ends [OF assms] by (simp add: good_def)
  have "good (pack_scalar n s)" unfolding pack_scalar_def Let_def a prod.case
    by (intro pick str some int jint dbl inter) (simp_all only: fst_conv snd_conv bool err null)
  then show ?thesis by (simp add: good_def)
qed

section \<open>Containers\<close>

text \<open>
  What happens to a value that was packed for the container \<open>p\<close>: stored, given back, or there was none.  The measure \<open>sz\<close> is the size of an object,
  which must stay below the limit of the hash table.
\<close>

definition settles :: "(world \<Rightarrow> ptr \<Rightarrow> nat) \<Rightarrow> ptr option \<Rightarrow> ptr option \<Rightarrow> packer \<Rightarrow> packer \<Rightarrow> bool" where
  "settles sz p v s s' \<longleftrightarrow> same_scan s s' \<and> pk_args s' = pk_args s \<and> pk_taken s' = pk_taken s \<and> pk_undefined s' = pk_undefined s \<and>
     (sc_has_error s \<longrightarrow> sc_has_error s') \<and>
     (\<forall>E. rc_inv {} (plus_result v (plus_result p E)) (pk_world s) \<longrightarrow> (\<forall>q. p = Some q \<longrightarrow> q \<notin># E) \<longrightarrow>
        (\<not> sc_has_error s \<longrightarrow> (\<forall>q. p = Some q \<longrightarrow> sz (pk_world s) q < 2 ^ 31)) \<longrightarrow>
        rc_inv {} (plus_result p E) (pk_world s') \<and> keeps E (pk_world s) (pk_world s') \<and>
        (\<not> sc_has_error s' \<longrightarrow> (\<forall>q. p = Some q \<longrightarrow> sz (pk_world s') q \<le> sz (pk_world s) q + 1)))"

text \<open>The loop over the members or elements.\<close>

definition loops :: "(world \<Rightarrow> ptr \<Rightarrow> nat) \<Rightarrow> ptr option \<Rightarrow> packer \<Rightarrow> ptr option \<Rightarrow> packer \<Rightarrow> bool" where
  "loops sz p s r s' \<longleftrightarrow> scanning s' \<and> length (fmt_tokens s') \<le> length (fmt_tokens s) \<and> (pk_undefined s \<longrightarrow> pk_undefined s') \<and> (sc_has_error s \<longrightarrow> sc_has_error s') \<and>
     (\<exists>S. pk_taken s' = pk_taken s @ S \<and> mset S + json_args (pk_args s') \<subseteq># json_args (pk_args s) \<and>
       (\<forall>E. \<not> pk_undefined s' \<longrightarrow> length (fmt_tokens s) < 2 ^ 31 \<longrightarrow> rc_inv {} (plus_result p E) (pk_world s) \<longrightarrow> json_args (pk_args s) \<subseteq># E \<longrightarrow>
          (\<forall>q. p = Some q \<longrightarrow> q \<notin># E) \<longrightarrow> (\<not> sc_has_error s \<longrightarrow> (\<forall>q. p = Some q \<longrightarrow> sz (pk_world s) q + length (fmt_tokens s) < 2 ^ 31)) \<longrightarrow>
          rc_inv {} (plus_result r (E - mset S)) (pk_world s') \<and> keeps (E - mset S) (pk_world s) (pk_world s')))"

lemma plus_result_diff: "S \<subseteq># E \<Longrightarrow> plus_result p E - S = plus_result p (E - S)"
  by (cases p) (simp_all add: mset_subset_eq_multiset_union_diff_commute [of _ _ "{#_#}", simplified])

lemma plus_result_mono: "F \<subseteq># E \<Longrightarrow> F \<subseteq># plus_result p E"
  by (cases p) (auto intro: subset_mset.order_trans)

lemma keeps_plus: "keeps (plus_result p E) w w' \<Longrightarrow> keeps E w w'"
  by (cases p) (auto dest: keeps_mono)

lemma loops_step:
  assumes m: "moves s s2" and pk: "packs s2 v s3" and st: "settles sz p v s3 s4" and lp: "loops sz p (next_token s4) r s'"
    and len: "length (fmt_tokens (next_token s4)) < length (fmt_tokens s)"
    and sz: "\<And>w w' q. data_at w' (Some q) = data_at w (Some q) \<Longrightarrow> sz w' q = sz w q"
  shows "loops sz p s r s'"
proof -
  note m2 = moves_packs [OF m pk]
  obtain S1 where S1: "length (fmt_tokens s3) \<le> length (fmt_tokens s)" "pk_undefined s \<longrightarrow> pk_undefined s3" "sc_has_error s \<longrightarrow> sc_has_error s3"
    "pk_taken s3 = pk_taken s @ S1" "mset S1 + json_args (pk_args s3) \<subseteq># json_args (pk_args s)"
    "\<And>E. \<not> pk_undefined s3 \<Longrightarrow> length (fmt_tokens s) < 2 ^ 31 \<Longrightarrow> rc_inv {} E (pk_world s) \<Longrightarrow> json_args (pk_args s) \<subseteq># E \<Longrightarrow>
      rc_inv {} (plus_result v (E - mset S1)) (pk_world s3) \<and> keeps (E - mset S1) (pk_world s) (pk_world s3)"
    using packsE [OF m2] by metis
  have s4: "pk_args s4 = pk_args s3" "pk_taken s4 = pk_taken s3" "pk_undefined s4 = pk_undefined s3" "sc_has_error s3 \<longrightarrow> sc_has_error s4"
    using st by (auto simp: settles_def)
  obtain S2 where S2: "scanning s'" "length (fmt_tokens s') \<le> length (fmt_tokens (next_token s4))" "pk_undefined s4 \<longrightarrow> pk_undefined s'"
    "sc_has_error s4 \<longrightarrow> sc_has_error s'" "pk_taken s' = pk_taken s4 @ S2" "mset S2 + json_args (pk_args s') \<subseteq># json_args (pk_args s4)"
    "\<And>E. \<not> pk_undefined s' \<Longrightarrow> length (fmt_tokens (next_token s4)) < 2 ^ 31 \<Longrightarrow> rc_inv {} (plus_result p E) (pk_world s4) \<Longrightarrow> json_args (pk_args s4) \<subseteq># E \<Longrightarrow>
      (\<forall>q. p = Some q \<longrightarrow> q \<notin># E) \<Longrightarrow> (\<not> sc_has_error s4 \<longrightarrow> (\<forall>q. p = Some q \<longrightarrow> sz (pk_world s4) q + length (fmt_tokens (next_token s4)) < 2 ^ 31)) \<Longrightarrow>
      rc_inv {} (plus_result r (E - mset S2)) (pk_world s') \<and> keeps (E - mset S2) (pk_world s4) (pk_world s')"
    using lp unfolding loops_def next_token_fields by metis
  show ?thesis unfolding loops_def
  proof (intro conjI exI [of _ "S1 @ S2"] allI impI)
    show "mset (S1 @ S2) + json_args (pk_args s') \<subseteq># json_args (pk_args s)"
      using S1(5) S2(6) s4(1) by (simp add: ac_simps) (meson subset_mset.add_left_mono subset_mset.order_trans)
  next
    fix E assume E: "\<not> pk_undefined s'" "length (fmt_tokens s) < 2 ^ 31" "rc_inv {} (plus_result p E) (pk_world s)" "json_args (pk_args s) \<subseteq># E"
      "\<forall>q. p = Some q \<longrightarrow> q \<notin># E" "\<not> sc_has_error s \<longrightarrow> (\<forall>q. p = Some q \<longrightarrow> sz (pk_world s) q + length (fmt_tokens s) < 2 ^ 31)"
    let ?E = "E - mset S1"
    have sub: "mset S1 \<subseteq># E" using S1(5) E(4) by (meson mset_subset_eq_add_left subset_mset.order_trans)
    have u: "\<not> pk_undefined s4" "\<not> pk_undefined s3" using E(1) S2(3) s4(3) by auto
    have "rc_inv {} (plus_result v (plus_result p ?E)) (pk_world s3)" "keeps (plus_result p ?E) (pk_world s) (pk_world s3)"
      using S1(6) [OF u(2) E(2,3) plus_result_mono [OF E(4)]] plus_result_diff [OF sub, of p] by auto
    note a = this
    have p: "\<forall>q. p = Some q \<longrightarrow> q \<notin># ?E" using E(5) in_diffD by fastforce
    have same: "sz (pk_world s3) q = sz (pk_world s) q" if "p = Some q" for q
      by (rule sz) (use a(2) that in \<open>simp add: keeps_def\<close>)
    have small: "\<not> sc_has_error s3 \<longrightarrow> (\<forall>q. p = Some q \<longrightarrow> sz (pk_world s3) q < 2 ^ 31)"
      using E(6) S1(3) same by fastforce
    have b: "rc_inv {} (plus_result p ?E) (pk_world s4)" "keeps ?E (pk_world s3) (pk_world s4)"
      "\<not> sc_has_error s4 \<longrightarrow> (\<forall>q. p = Some q \<longrightarrow> sz (pk_world s4) q \<le> sz (pk_world s3) q + 1)"
      using st a(1) p small unfolding settles_def by blast+
    have "mset S1 + json_args (pk_args s4) \<subseteq># E" using S1(5) E(4) s4(1) subset_mset.order_trans by simp
    then obtain C where "E = mset S1 + json_args (pk_args s4) + C" by (auto simp: mset_subset_eq_exists_conv)
    then have "json_args (pk_args s4) \<subseteq># ?E" by simp
    moreover have "\<not> sc_has_error s4 \<longrightarrow> (\<forall>q. p = Some q \<longrightarrow> sz (pk_world s4) q + length (fmt_tokens (next_token s4)) < 2 ^ 31)"
    proof (intro impI allI)
      fix q assume q: "\<not> sc_has_error s4" "p = Some q"
      then have "sz (pk_world s) q + length (fmt_tokens s) < 2 ^ 31" using E(6) S1(3) s4(4) by blast
      moreover have "sz (pk_world s4) q \<le> sz (pk_world s) q + 1" using b(3) q same by fastforce
      ultimately show "sz (pk_world s4) q + length (fmt_tokens (next_token s4)) < 2 ^ 31" using len by linarith
    qed
    moreover have "length (fmt_tokens (next_token s4)) < 2 ^ 31" using len E(2) by linarith
    ultimately have c: "rc_inv {} (plus_result r (?E - mset S2)) (pk_world s')" "keeps (?E - mset S2) (pk_world s4) (pk_world s')"
      using S2(7) [OF E(1) _ b(1) _ p] by blast+
    have d: "?E - mset S2 = E - mset (S1 @ S2)" by simp
    show "rc_inv {} (plus_result r (E - mset (S1 @ S2))) (pk_world s')" using c(1) d by simp
    have "keeps ?E (pk_world s) (pk_world s4)" by (rule keeps_trans [OF keeps_plus [OF a(2)] b(2)])
    then have "keeps (?E - mset S2) (pk_world s) (pk_world s4)" unfolding keeps_def by (meson in_diffD)
    then show "keeps (E - mset (S1 @ S2)) (pk_world s) (pk_world s')" using keeps_trans c(2) d by metis
  qed (use S1(1-4) S2(1-5) s4 len in auto)
qed

lemma settles_idles:
  assumes "idles s s'" "pk_args s' = pk_args s" "pk_undefined s' = pk_undefined s"
    and sz: "\<And>w w' q. data_at w' (Some q) = data_at w (Some q) \<Longrightarrow> sz w' q = sz w q"
  shows "settles sz p None s s'"
proof -
  have h: "same_heap (pk_world s) (pk_world s')" using assms(1) by (simp add: idles_def)
  have "sz (pk_world s') q = sz (pk_world s) q" for q using sz same_heap_data [OF h] by blast
  then show ?thesis using assms(1-3) rc_inv_same_heap [OF h] same_heap_keeps [OF h] by (simp add: settles_def idles_def)
qed

lemma object_store:
  assumes "json_object_set_new_nocheck p key (Some v) w = (x, w')" "rc_inv {} (add_mset v (plus_result p E)) w"
    and "\<forall>q. p = Some q \<longrightarrow> q \<notin># E" "\<forall>q. p = Some q \<longrightarrow> json_object_size w (Some q) < 2 ^ 31"
  shows "rc_inv {} (plus_result p E) w' \<and> keeps E w w' \<and> (x = 0 \<longrightarrow> (\<forall>q. p = Some q \<longrightarrow> json_object_size w' (Some q) \<le> json_object_size w (Some q) + 1))"
proof (cases "p = None \<or> key = None")
  case True
  then have w': "x = -1" "w' = json_decref (Some v) w" using assms(1) by (auto simp: json_object_set_new_nocheck_def split: option.splits)
  have inv: "rc_inv {} (plus_result p E) w'" using json_decref_inv [OF assms(2)] w'(2) by simp
  then show ?thesis using w' shrinks_keeps [OF decref_ptr_shrinks(2) inv [unfolded w'(2)]] keeps_plus by auto
next
  case False
  then obtain q k where q: "p = Some q" "key = Some k" by auto
  have inv: "rc_inv {} (add_mset q E) w'"
    using json_object_set_new_nocheck_inv [OF assms(2) [unfolded q(1) plus_result_simps], of q key] assms(1,4) q by simp
  have "keeps E w w'" by (rule loses_keeps [OF json_object_set_loses [OF assms(1) [unfolded q]] inv]) (use assms(3) q in simp)
  then show ?thesis using inv q json_object_set_size [of v q E w k w'] assms by simp
qed

lemma array_store:
  assumes "json_array_append_new p (Some v) w = (x, w')" "rc_inv {} (add_mset v (plus_result p E)) w" "\<forall>q. p = Some q \<longrightarrow> q \<notin># E"
  shows "rc_inv {} (plus_result p E) w' \<and> keeps E w w'"
proof (cases p)
  case None
  then have w': "w' = json_decref (Some v) w" using assms(1) by (auto simp: json_array_append_new_def array_at_def data_at_def split: option.splits)
  have inv: "rc_inv {} (plus_result p E) w'" using json_decref_inv [OF assms(2)] w' by simp
  then show ?thesis using w' shrinks_keeps [OF decref_ptr_shrinks(2) inv [unfolded w']] keeps_plus by auto
next
  case (Some q)
  have inv: "rc_inv {} (add_mset q E) w'"
    using json_array_append_new_inv [OF assms(2) [unfolded Some plus_result_simps], of q] assms(1) Some by simp
  then show ?thesis using loses_keeps [OF json_array_append_loses [OF assms(1) [unfolded Some]] inv] assms(3) Some by simp
qed

lemma pack_store_settles:
  assumes "\<And>E x w'. f (pk_world s) = (x, w') \<Longrightarrow> rc_inv {} (add_mset v (plus_result p E)) (pk_world s) \<Longrightarrow> \<forall>q. p = Some q \<longrightarrow> q \<notin># E \<Longrightarrow>
      \<forall>q. p = Some q \<longrightarrow> sz (pk_world s) q < 2 ^ 31 \<Longrightarrow>
      rc_inv {} (plus_result p E) w' \<and> keeps E (pk_world s) w' \<and> (x = 0 \<longrightarrow> (\<forall>q. p = Some q \<longrightarrow> sz w' q \<le> sz (pk_world s) q + 1))"
  shows "settles sz p (Some v) s (pack_store f msg v s)"
proof (cases "sc_has_error s")
  case True
  have "rc_inv {} (plus_result p E) (json_decref (Some v) (pk_world s)) \<and> keeps E (pk_world s) (json_decref (Some v) (pk_world s))"
    if "rc_inv {} (add_mset v (plus_result p E)) (pk_world s)" for E
    using json_decref_inv [OF that] shrinks_keeps [OF decref_ptr_shrinks(2) json_decref_inv [OF that]] keeps_plus by blast
  then show ?thesis using True by (simp add: settles_def pack_store_def decref_in_def)
next
  case False
  obtain x w' where f: "f (pk_world s) = (x, w')" by force
  have "pack_store f msg v s = (if x \<noteq> 0 then set_failed ''<internal>'' json_error_out_of_memory msg (s\<lparr>pk_world := w'\<rparr>) else s\<lparr>pk_world := w'\<rparr>)"
    using False f by (simp add: pack_store_def in_world_def)
  then show ?thesis using assms [OF f] False by (auto simp: settles_def set_failed_def set_error_def same_scan_def)
qed

lemma error_loops:
  assumes "scanning s" "same_scan s s1" "pk_args s1 = pk_args s" "pk_taken s1 = pk_taken s" "pk_undefined s1 = pk_undefined s"
    "sc_has_error s \<longrightarrow> sc_has_error s1" "pk_world s1 = pk_world s"
  shows "loops sz p s None (decref_in p s1)"
proof -
  have sc: "same_scan s (decref_in p s1)" using same_scan_trans [OF assms(2) same_scan_steps(3)] .
  have "rc_inv {} E (json_decref p (pk_world s)) \<and> keeps E (pk_world s) (json_decref p (pk_world s))" if "rc_inv {} (plus_result p E) (pk_world s)" for E
  proof (cases p)
    case None
    then show ?thesis using that by (simp add: json_decref_def)
  next
    case (Some q)
    then have i: "rc_inv {} E (json_decref (Some q) (pk_world s))" using json_decref_inv that by simp
    then show ?thesis using shrinks_keeps [OF decref_ptr_shrinks(2) i] Some by simp
  qed
  then show ?thesis unfolding loops_def using assms same_scan_tokens [OF sc]
    by (intro conjI exI [of _ "[]"]) (auto simp: decref_in_def)
qed

lemma end_loops:
  assumes "scanning s" "pack_end p s = (r, s')"
  shows "loops sz p s r s'"
proof (cases "sc_has_error s")
  case True
  then show ?thesis using error_loops [of s s] assms by (auto simp: pack_end_def)
next
  case False
  then show ?thesis using assms by (auto simp: pack_end_def loops_def keeps_plus intro!: exI [of _ "[]"])
qed

lemma pack_error_loops:
  assumes "scanning s" "pack_error msg p s = (r, s')"
  shows "loops sz p s r s'"
  using error_loops [of s "set_error ''<format>'' json_error_invalid_format msg s"] assms
  by (auto simp: pack_error_def set_error_def same_scan_def)

lemma container_packs:
  assumes s: "scanning s" and w: "in_world f s = (p, s1)" and lp: "loops sz p (next_token s1) r s'"
    and new: "\<And>E w'. rc_inv {} E (pk_world s) \<Longrightarrow> f (pk_world s) = (p, w') \<Longrightarrow>
      rc_inv {} (plus_result p E) w' \<and> (\<exists>d. creates d p (pk_world s) w') \<and> (\<forall>q. p = Some q \<longrightarrow> sz w' q = 0)"
  shows "packs s r s'"
proof -
  obtain w' where w': "f (pk_world s) = (p, w')" "s1 = s\<lparr>pk_world := w'\<rparr>" using w by (auto simp: in_world_def split: prod.splits)
  have sc: "same_scan s s1" using w'(2) by simp
  have n: "scanning s1" "length (fmt_tokens (next_token s1)) \<le> length (fmt_tokens s)"
    using same_scan_tokens [OF sc] s next_token_scan(2) [of s1] by auto
  obtain S where S: "scanning s'" "length (fmt_tokens s') \<le> length (fmt_tokens (next_token s1))" "pk_undefined s \<longrightarrow> pk_undefined s'" "sc_has_error s \<longrightarrow> sc_has_error s'"
    "pk_taken s' = pk_taken s @ S" "mset S + json_args (pk_args s') \<subseteq># json_args (pk_args s)"
    "\<And>E. \<not> pk_undefined s' \<Longrightarrow> length (fmt_tokens (next_token s1)) < 2 ^ 31 \<Longrightarrow> rc_inv {} (plus_result p E) w' \<Longrightarrow> json_args (pk_args s) \<subseteq># E \<Longrightarrow>
      (\<forall>q. p = Some q \<longrightarrow> q \<notin># E) \<Longrightarrow> (\<not> sc_has_error s \<longrightarrow> (\<forall>q. p = Some q \<longrightarrow> sz w' q + length (fmt_tokens (next_token s1)) < 2 ^ 31)) \<Longrightarrow>
      rc_inv {} (plus_result r (E - mset S)) (pk_world s') \<and> keeps (E - mset S) w' (pk_world s')"
    using lp w'(2) unfolding loops_def next_token_fields by auto
  show ?thesis
  proof (rule packsI [where S = S])
    fix E assume E: "\<not> pk_undefined s'" "length (fmt_tokens s) < 2 ^ 31" "rc_inv {} E (pk_world s)" "json_args (pk_args s) \<subseteq># E"
    obtain d where d: "rc_inv {} (plus_result p E) w'" "creates d p (pk_world s) w'" "\<forall>q. p = Some q \<longrightarrow> sz w' q = 0" using new [OF E(3) w'(1)] by blast
    have "q \<notin># E" if "p = Some q" for q
      using d(2) that rc_invD(3,9) [OF E(3)] by (force simp: creates_def)
    then have "rc_inv {} (plus_result r (E - mset S)) (pk_world s')" "keeps (E - mset S) w' (pk_world s')"
      using S(7) [OF E(1) _ d(1) E(4)] d(3) n(2) E(2) by auto
    moreover have "keeps (E - mset S) (pk_world s) w'" using creates_keeps [OF d(2) E(3)] unfolding keeps_def by (meson in_diffD)
    ultimately show "rc_inv {} (plus_result r (E - mset S)) (pk_world s') \<and> keeps (E - mset S) (pk_world s) (pk_world s')"
      using keeps_trans by blast
  qed (use S(1-6) n(2) in auto)
qed

abbreviation object_sz :: "world \<Rightarrow> ptr \<Rightarrow> nat" where
  "object_sz w q \<equiv> json_object_size w (Some q)"

definition ends :: "(packer \<Rightarrow> ptr option \<Rightarrow> packer \<Rightarrow> bool) \<Rightarrow> packer \<Rightarrow> (ptr option \<times> packer) option \<Rightarrow> bool" where
  "ends P s x \<longleftrightarrow> (\<exists>r s'. x = Some (r, s') \<and> P s r s')"

lemma tokens_next: "scanning s \<Longrightarrow> length (fmt_tokens (next_token s)) = length (fmt_tokens s) - 1"
  using next_token_scan(2) [of s] by simp

lemma current_token: "token s \<noteq> 0 \<Longrightarrow> fmt_tokens s \<noteq> []"
  by (simp add: fmt_tokens_def)

lemma settles_scan: "settles sz p v s s' \<Longrightarrow> fmt_tokens s' = fmt_tokens s \<and> scanning s' = scanning s"
  using same_scan_tokens [of s s'] by (simp add: settles_def)

lemma pack_array_round:
  assumes "scanning s" "token s \<noteq> fc CHR '']''" "token s \<noteq> 0"
    and pk: "ends packs (prev_token (next_token s)) (pack n (prev_token (next_token s)))"
    and lp: "\<And>u. scanning u \<Longrightarrow> length (fmt_tokens u) < length (fmt_tokens s) \<Longrightarrow> ends (loops (\<lambda>_ _. 0) p) u (pack_array_loop n p u)"
  shows "ends (loops (\<lambda>_ _. 0) p) s (pack_array_loop (Suc n) p s)"
proof -
  let ?s1 = "prev_token (next_token s)"
  have m: "moves s ?s1" by (rule moves_peek [OF assms(1) idles_refl])
  obtain v s2 where v: "pack n ?s1 = Some (v, s2)" "packs ?s1 v s2" using pk by (auto simp: ends_def)
  define s3 where "s3 = (case v of None \<Rightarrow> if token (next_token s) \<noteq> fc CHR ''*'' then s2\<lparr>sc_has_error := True\<rparr> else s2
    | Some vp \<Rightarrow> pack_store (json_array_append_new p v) (cstr ''Unable to append to array'') vp s2)"
  have st: "settles (\<lambda>_ _. 0) p v s2 s3"
  proof (cases v)
    case None
    then show ?thesis using settles_idles [of s2 s3 "\<lambda>_ _. 0" p] by (simp add: s3_def)
  next
    case (Some vp)
    then show ?thesis unfolding s3_def option.case by (auto intro: pack_store_settles dest: array_store)
  qed
  have sc: "scanning s2" "length (fmt_tokens s2) \<le> length (fmt_tokens s)" using v(2) prev_token_scan(2) [OF assms(1) same_scan_refl] by (auto simp: packs_def)
  have s3: "scanning s3" "length (fmt_tokens s3) = length (fmt_tokens s2)" using settles_scan [OF st] sc(1) by auto
  have "0 < length (fmt_tokens s)" using current_token [OF assms(3)] by simp
  then have len: "length (fmt_tokens (next_token s3)) < length (fmt_tokens s)" using tokens_next [OF s3(1)] s3(2) sc(2) by linarith
  then obtain r s' where r: "pack_array_loop n p (next_token s3) = Some (r, s')" "loops (\<lambda>_ _. 0) p (next_token s3) r s'"
    using lp [OF next_token_scan(1) [OF s3(1)] len] by (auto simp: ends_def)
  have "loops (\<lambda>_ _. 0) p s r s'"
    by (rule loops_step [OF m v(2) st r(2) len]) simp
  moreover have "pack_array_loop (Suc n) p s = Some (r, s')"
    using assms(2,3) v(1) r(1) by (cases v) (simp_all add: s3_def Let_def del: cstr_Cons)
  ultimately show ?thesis by (simp add: ends_def)
qed

lemma pack_object_round:
  assumes "scanning s" "token s = fc CHR ''s''" "length (fmt_tokens s) < n"
    and pk: "\<And>u. scanning u \<Longrightarrow> length (fmt_tokens u) < length (fmt_tokens s) \<Longrightarrow> ends packs u (pack n u)"
    and lp: "\<And>u. scanning u \<Longrightarrow> length (fmt_tokens u) < length (fmt_tokens s) \<Longrightarrow> ends (loops object_sz p) u (pack_object_loop n p u)"
  shows "ends (loops object_sz p) s (pack_object_loop (Suc n) p s)"
proof -
  obtain key kl ours s1 where k: "read_string n (cstr ''object key'') False s = Some ((key, kl, ours), s1)" "moves s s1"
    using read_string_ends [OF assms(1,3)] by (metis prod_cases3)
  have pos: "0 < length (fmt_tokens s)" using current_token [of s] assms(2) by simp
  note sc1 = moves_scanning [OF k(2)]
  have "length (fmt_tokens s1) \<le> length (fmt_tokens s)" using k(2) by (simp add: moves_def)
  then have "length (fmt_tokens (next_token s1)) < length (fmt_tokens s)" using tokens_next [OF sc1] pos by linarith
  then have n1: "scanning (next_token s1)" "length (fmt_tokens (next_token s1)) < length (fmt_tokens s)" "moves s (next_token s1)"
    using next_token_scan(1) [OF sc1] moves_trans [OF k(2) moves_next [OF sc1]] by auto
  let ?s2 = "prev_token (next_token (next_token s1))"
  note P = prev_token_scan [OF n1(1) same_scan_refl]
  have m: "moves s ?s2" by (rule moves_trans [OF n1(3) moves_peek [OF n1(1) idles_refl]])
  obtain v s3 where v: "pack n ?s2 = Some (v, s3)" "packs ?s2 v s3" using pk [OF P(1)] P(2) n1(2) by (auto simp: ends_def)
  define s4 where "s4 = (case v of
      None \<Rightarrow> if token (next_token (next_token s1)) \<noteq> fc CHR ''*'' then set_failed ''<args>'' json_error_null_value (cstr ''NULL object value'') s3 else s3
    | Some vp \<Rightarrow> pack_store (json_object_set_new_nocheck p (map_option c_string key) v)
        (cstr ''Unable to add key '' @ [34] @ c_string (the key) @ [34]) vp s3)"
  have st: "settles object_sz p v s3 s4"
  proof (cases v)
    case None
    have "settles object_sz p None s3 s4"
      by (rule settles_idles) (use None in \<open>auto simp: s4_def set_failed_def set_error_def idles_def same_scan_def intro: object_size_data\<close>)
    then show ?thesis using None by simp
  next
    case (Some vp)
    show ?thesis unfolding s4_def Some option.case
      by (rule pack_store_settles) (rule object_store)
  qed
  have s4: "scanning s4" "length (fmt_tokens s4) \<le> length (fmt_tokens ?s2)" using settles_scan [OF st] v(2) by (auto simp: packs_def)
  then have len: "length (fmt_tokens (next_token s4)) < length (fmt_tokens s)" using tokens_next [OF s4(1)] n1(2) unfolding P(2) by linarith
  obtain r s' where r: "pack_object_loop n p (next_token s4) = Some (r, s')" "loops object_sz p (next_token s4) r s'"
    using lp [OF next_token_scan(1) [OF s4(1)] len] by (auto simp: ends_def)
  have "loops object_sz p s r s'"
    by (rule loops_step [OF m v(2) st r(2) len]) (rule object_size_data)
  moreover have "pack_object_loop (Suc n) p s = Some (r, s')"
    using assms(2) k(1) v(1) r(1) by (cases v) (simp_all add: s4_def Let_def del: cstr_Cons)
  ultimately show ?thesis by (simp add: ends_def)
qed

lemma loop_ends:
  "scanning s \<Longrightarrow> ends (loops sz p) s (Some (pack_end p s))"
  "scanning s \<Longrightarrow> ends (loops sz p) s (Some (pack_error msg p s))"
  using end_loops [of s p] pack_error_loops [of s msg p] by (cases "pack_end p s"; cases "pack_error msg p s"; simp add: ends_def)+

lemma container_ends:
  assumes "scanning s" "token s \<noteq> 0" "2 * length (fmt_tokens s) + 2 \<le> Suc n" "in_world f s = (p, s1)"
    and lp: "\<And>u. scanning u \<Longrightarrow> 2 * length (fmt_tokens u) + 3 \<le> n \<Longrightarrow> ends (loops sz p) u (loop u)"
    and new: "\<And>E w'. rc_inv {} E (pk_world s) \<Longrightarrow> f (pk_world s) = (p, w') \<Longrightarrow>
      rc_inv {} (plus_result p E) w' \<and> (\<exists>d. creates d p (pk_world s) w') \<and> (\<forall>q. p = Some q \<longrightarrow> sz w' q = 0)"
  shows "ends packs s (loop (next_token s1))"
proof -
  have sc: "scanning s1" "fmt_tokens s1 = fmt_tokens s" using same_scan_tokens [OF same_scan_calls(2) [OF assms(4)]] assms(1) by auto
  have "0 < length (fmt_tokens s)" using current_token [OF assms(2)] by simp
  then have "2 * length (fmt_tokens (next_token s1)) + 3 \<le> n" using tokens_next [OF sc(1)] assms(3) unfolding sc(2) by linarith
  then obtain r s' where r: "loop (next_token s1) = Some (r, s')" "loops sz p (next_token s1) r s'"
    using lp [OF next_token_scan(1) [OF sc(1)]] by (auto simp: ends_def)
  show ?thesis using r(1) container_packs [OF assms(1,4) r(2) new] by (simp add: ends_def)
qed

lemma pack_ends_step:
  assumes s: "scanning s" "2 * length (fmt_tokens s) + 2 \<le> Suc n"
    and ob: "\<And>p u. scanning u \<Longrightarrow> 2 * length (fmt_tokens u) + 3 \<le> n \<Longrightarrow> ends (loops object_sz p) u (pack_object_loop n p u)"
    and ar: "\<And>p u. scanning u \<Longrightarrow> 2 * length (fmt_tokens u) + 3 \<le> n \<Longrightarrow> ends (loops (\<lambda>_ _. 0) p) u (pack_array_loop n p u)"
  shows "ends packs s (pack (Suc n) s)"
proof -
  obtain p s1 q s2 where w: "in_world json_object s = (p, s1)" "in_world json_array s = (q, s2)" by (metis surj_pair)
  consider "token s = fc CHR ''{''" | "token s = fc CHR ''[''" | "token s \<noteq> fc CHR ''{''" "token s \<noteq> fc CHR ''[''" by blast
  then show ?thesis
  proof cases
    case 1
    have "ends packs s (pack_object_loop n p (next_token s1))"
      by (rule container_ends [OF s(1) _ s(2) w(1) ob]) (use 1 in simp, assumption, assumption, use str.object_created in blast)
    then show ?thesis using 1 w(1) by simp
  next
    case 2
    have "ends packs s (pack_array_loop n q (next_token s2))"
      by (rule container_ends [OF s(1) _ s(2) w(2) ar]) (use 2 in simp, assumption, assumption, use str.array_created in blast)
    then show ?thesis using 2 w(2) by simp
  next
    case 3
    then have "pack (Suc n) s = pack_scalar n s" by simp
    moreover have "length (fmt_tokens s) < n" using s(2) by linarith
    ultimately show ?thesis using pack_scalar_ends [OF s(1)] by (simp add: ends_def)
  qed
qed

lemma pack_ends_all:
  "(\<forall>s. scanning s \<longrightarrow> 2 * length (fmt_tokens s) + 2 \<le> n \<longrightarrow> ends packs s (pack n s)) \<and>
   (\<forall>p s. scanning s \<longrightarrow> 2 * length (fmt_tokens s) + 3 \<le> n \<longrightarrow> ends (loops object_sz p) s (pack_object_loop n p s)) \<and>
   (\<forall>p s. scanning s \<longrightarrow> 2 * length (fmt_tokens s) + 3 \<le> n \<longrightarrow> ends (loops (\<lambda>_ _. 0) p) s (pack_array_loop n p s))"
proof (induction n)
  case (Suc n)
  note IH = Suc.IH [THEN conjunct1, rule_format] Suc.IH [THEN conjunct2, THEN conjunct1, rule_format] Suc.IH [THEN conjunct2, THEN conjunct2, rule_format]
  show ?case
  proof (intro conjI allI impI)
    fix s :: packer assume "scanning s" "2 * length (fmt_tokens s) + 2 \<le> Suc n"
    then show "ends packs s (pack (Suc n) s)" by (rule pack_ends_step) (rule IH(2,3); assumption)+
  next
    fix p and s :: packer assume s: "scanning s" "2 * length (fmt_tokens s) + 3 \<le> Suc n"
    show "ends (loops object_sz p) s (pack_object_loop (Suc n) p s)"
    proof (cases "token s = fc CHR ''s''")
      case True
      then show ?thesis by (rule pack_object_round [OF s(1)]) (use s(2) IH(1,2) in auto)
    next
      case False
      then show ?thesis using loop_ends [OF s(1)] by (simp del: cstr_Cons)
    qed
  next
    fix p and s :: packer assume s: "scanning s" "2 * length (fmt_tokens s) + 3 \<le> Suc n"
    note P = prev_token_scan [OF s(1) same_scan_refl]
    show "ends (loops (\<lambda>_ _. 0) p) s (pack_array_loop (Suc n) p s)"
    proof (cases "token s = fc CHR '']'' \<or> token s = 0")
      case True
      then show ?thesis using loop_ends [OF s(1)] by (auto simp del: cstr_Cons)
    next
      case False
      then show ?thesis by (intro pack_array_round [OF s(1)]) (use s(2) IH(1) [OF P(1)] IH(3) P(2) in auto)
    qed
  qed
qed simp

lemma scanner_starts:
  assumes "0 \<notin> set fmt" "fmt \<noteq> []"
  shows "scanning (next_token (scanner_init error flags fmt args w))" "length (fmt_tokens (next_token (scanner_init error flags fmt args w))) \<le> length fmt"
proof -
  obtain t line column pos where k: "skip_ignored fmt 1 1 1 = (t, line, column, pos)" by (metis prod_cases4)
  note K = skip_ignored_props [OF k]
  have z: "c \<noteq> 0" if "t = c # r" for c r using that K assms by auto
  have e: "filter (\<lambda>c. \<not> ignored c) fmt = (case t of [] \<Rightarrow> [] | c # r \<Rightarrow> c # filter (\<lambda>c. \<not> ignored c) r)" using K by (cases t) auto
  have "fmt_tokens (next_token (scanner_init error flags fmt args w)) = filter (\<lambda>c. \<not> ignored c) fmt"
    using k e z assms(2) by (cases t) (auto simp: next_token_def scanner_init_def no_token_def fmt_tokens_def Let_def)
  then show "length (fmt_tokens (next_token (scanner_init error flags fmt args w))) \<le> length fmt" by simp
  show "scanning (next_token (scanner_init error flags fmt args w))"
    using k K z assms e by (cases t) (auto simp: next_token_def scanner_init_def no_token_def fmt_tokens_def scanning_def Let_def)
qed

lemma empty_format:
  "\<exists>s. json_vpack_ex error flags (Some []) args w = Some (None, s) \<and> pk_taken s = [] \<and> pk_world s = w \<and> \<not> pk_undefined s"
  by (simp add: json_vpack_ex_def scanner_init_def)

text \<open>
  C27: packing ends and keeps the books.  For every format string, also one that is malformed, and every list of arguments, \<^verbatim>\<open>json_vpack_ex\<close> returns.
  The references it takes over are among the JSON arguments; unless the arguments do not match the format, the
  counts are exact afterwards: the caller has given away the references passed for \<^verbatim>\<open>o\<close> that were reached, has one reference to the
  result if there is one, and everything built before an error is freed.
\<close>

theorem json_vpack_ex_balanced:
  assumes "rc_inv {} E w" "json_args args \<subseteq># E" "0 \<notin> set fmt" "length fmt < 2 ^ 31"
  shows "\<exists>v s. json_vpack_ex error flags (Some fmt) args w = Some (v, s) \<and> mset (pk_taken s) \<subseteq># json_args args \<and>
    (\<not> pk_undefined s \<longrightarrow> rc_inv {} (plus_result v (E - mset (pk_taken s))) (pk_world s))"
proof (cases "fmt = []")
  case True
  then show ?thesis using empty_format [of error flags args w] assms(1) by auto
next
  case False
  define s0 where "s0 = next_token (scanner_init (jsonp_error_init error None) flags fmt args w)"
  have f: "scanning s0" "length (fmt_tokens s0) \<le> length fmt" using scanner_starts [OF assms(3) False] by (simp_all add: s0_def)
  have i: "pk_args s0 = args" "pk_world s0 = w" "pk_taken s0 = []" "\<not> pk_undefined s0" by (simp_all add: s0_def scanner_init_def)
  have "ends packs s0 (pack (pack_fuel fmt) s0)" using pack_ends_all f by (simp add: pack_fuel_def)
  then obtain v s where p: "pack (pack_fuel fmt) s0 = Some (v, s)" "packs s0 v s" by (auto simp: ends_def)
  obtain S where S: "scanning s" "pk_taken s = S" "mset S + json_args (pk_args s) \<subseteq># json_args args"
    "\<And>E. \<not> pk_undefined s \<Longrightarrow> length (fmt_tokens s0) < 2 ^ 31 \<Longrightarrow> rc_inv {} E w \<Longrightarrow> json_args args \<subseteq># E \<Longrightarrow> rc_inv {} (plus_result v (E - mset S)) (pk_world s)"
    using packsE [OF p(2)] i by (metis append_Nil)
  have t: "mset (pk_taken s) \<subseteq># json_args args" using S(2,3) by (meson mset_subset_eq_add_left subset_mset.order_trans)
  have r: "\<not> pk_undefined s \<longrightarrow> rc_inv {} (plus_result v (E - mset (pk_taken s))) (pk_world s)"
    using S(2) S(4) [of E] assms(1,2,4) f(2) by (auto simp del: power_numeral)
  obtain c cs where c: "fmt = c # cs" using False by (cases fmt) auto
  have eq: "json_vpack_ex error flags (Some fmt) args w =
      (case v of None \<Rightarrow> Some (None, s)
       | Some q \<Rightarrow> if token (next_token s) \<noteq> 0 then
           Some (None, set_error ''<format>'' json_error_invalid_format (cstr ''Garbage after format string'') (decref_in v (next_token s)))
         else Some (v, next_token s))"
    using p(1) by (simp add: json_vpack_ex_def c s0_def Let_def del: cstr_Cons split: option.split)
  show ?thesis
  proof (cases v)
    case None
    then show ?thesis using eq t r by simp
  next
    case (Some q)
    have "\<not> pk_undefined s \<longrightarrow> rc_inv {} (E - mset (pk_taken s)) (json_decref (Some q) (pk_world s))" using r Some json_decref_inv by simp
    then show ?thesis using eq Some t r by (simp add: set_error_def decref_in_def del: cstr_Cons)
  qed
qed

text \<open>An array of a boolean and a value that is handed over.\<close>

theorem json_vpack_ex_balanced_witness:
  "\<exists>v s. json_vpack_ex None 0 (Some (cstr ''[bo]'')) [A_int 1, A_json (Some 4)] one_integer = Some (v, s) \<and> mset (pk_taken s) \<subseteq># {#4#} \<and>
     (\<not> pk_undefined s \<longrightarrow> rc_inv {} (plus_result v ({#4#} - mset (pk_taken s))) (pk_world s))"
proof -
  have "rc_inv {} {#4#} one_integer" by (rule run_inv [OF one_integer_run])
  from json_vpack_ex_balanced [OF this, of "[A_int 1, A_json (Some 4)]" "cstr ''[bo]''" None 0]
  show ?thesis by simp
qed

end
