(* ===== verification/Json_Unpack.thy ===== *)
theory Json_Unpack
  imports Json_Pack_Correct Json_Dump_Loops
begin

text \<open>
  \<^verbatim>\<open>pack_unpack.c\<close>, the part that takes values apart: \<^verbatim>\<open>json_unpack\<close> with its variants, and the proof that it ends on every format string and
  changes no value.
\<close>

section \<open>Tables and flags\<close>

definition type_name :: "world \<Rightarrow> ptr option \<Rightarrow> byte list" where
  "type_name w x =
     (case json_typeof w x of
        Some JSON_OBJECT \<Rightarrow> cstr ''object''
      | Some JSON_ARRAY \<Rightarrow> cstr ''array''
      | Some JSON_STRING \<Rightarrow> cstr ''string''
      | Some JSON_INTEGER \<Rightarrow> cstr ''integer''
      | Some JSON_REAL \<Rightarrow> cstr ''real''
      | Some JSON_TRUE \<Rightarrow> cstr ''true''
      | Some JSON_FALSE \<Rightarrow> cstr ''false''
      | _ \<Rightarrow> cstr ''null'')"

definition unpack_value_starters :: "byte list" where
  "unpack_value_starters = cstr ''{[siIbfFOon''"

definition JSON_VALIDATE_ONLY :: nat where "JSON_VALIDATE_ONLY = 1"
definition JSON_STRICT :: nat where "JSON_STRICT = 2"

definition validate_only :: "packer \<Rightarrow> bool" where
  "validate_only s \<longleftrightarrow> sc_flags s AND JSON_VALIDATE_ONLY \<noteq> 0"

definition strict_flag :: "packer \<Rightarrow> bool" where
  "strict_flag s \<longleftrightarrow> sc_flags s AND JSON_STRICT \<noteq> 0"

section \<open>Targets\<close>

text \<open>An assignment through the address of a variable; the address must not be NULL.\<close>

definition assign :: "nat option \<Rightarrow> va_value \<Rightarrow> packer \<Rightarrow> packer" where
  "assign target v s =
     (case target of
        None \<Rightarrow> s\<lparr>pk_undefined := True\<rparr>
      | Some a \<Rightarrow> s\<lparr>pk_vars := pk_vars s @ [(a, v)]\<rparr>)"

text \<open>The value that a target receives, unless items are skipped or only validated.\<close>

definition unpack_target :: "(world \<Rightarrow> ptr option \<Rightarrow> va_value) \<Rightarrow> ptr option \<Rightarrow> packer \<Rightarrow> packer" where
  "unpack_target f rt s =
     (if validate_only s then s
      else
        case arg_var s of
          (target, s1) \<Rightarrow> if rt \<noteq> None then assign target (f (pk_world s1) rt) s1 else s1)"

text \<open>The error of an item of the wrong type.\<close>

definition wrong_type :: "string \<Rightarrow> ptr option \<Rightarrow> packer \<Rightarrow> packer" where
  "wrong_type expected rt s =
     set_error ''<validation>'' json_error_wrong_type
       (cstr ''Expected '' @ cstr expected @ cstr '', got '' @ type_name (pk_world s) rt) s"

definition unpack_typed ::
  "(world \<Rightarrow> ptr option \<Rightarrow> bool) \<Rightarrow> string \<Rightarrow> (world \<Rightarrow> ptr option \<Rightarrow> va_value) \<Rightarrow> ptr option \<Rightarrow> packer \<Rightarrow> int \<times> packer" where
  "unpack_typed is expected f rt s =
     (if rt \<noteq> None \<and> \<not> is (pk_world s) rt then (-1, wrong_type expected rt s) else (0, unpack_target f rt s))"

text \<open>The conversion of \<^verbatim>\<open>json_int_t\<close> to \<^verbatim>\<open>int\<close> keeps the low 32 bits.\<close>

definition to_int :: "int \<Rightarrow> int" where
  "to_int i = sint (word_of_int i :: 32 word)"

definition unpack_string :: "ptr option \<Rightarrow> packer \<Rightarrow> int \<times> packer" where
  "unpack_string rt s =
     (if rt \<noteq> None \<and> \<not> json_is_string (pk_world s) rt then (-1, wrong_type ''string'' rt s)
      else if validate_only s then (0, s)
      else
        case arg_var s of
          (None, s1) \<Rightarrow> (-1, set_error ''<args>'' json_error_null_value (cstr ''NULL string argument'') s1)
        | (Some str_target, s1) \<Rightarrow>
            let s2 = next_token s1 in
            if token s2 = fc CHR ''%'' then
              case arg_var s2 of
                (None, s3) \<Rightarrow> (-1, set_error ''<args>'' json_error_null_value (cstr ''NULL string length argument'') s3)
              | (Some len_target, s3) \<Rightarrow>
                  (0, if rt \<noteq> None then
                        assign (Some len_target) (V_size (json_string_length (pk_world s3) rt))
                          (assign (Some str_target) (V_str (the (json_string_value (pk_world s3) rt))) s3)
                      else s3)
            else
              let s3 = prev_token s2
              in (0, if rt \<noteq> None then assign (Some str_target) (V_str (the (json_string_value (pk_world s3) rt))) s3 else s3))"

text \<open>The format \<^verbatim>\<open>O\<close> adds a reference before it falls through to \<^verbatim>\<open>o\<close>.\<close>

definition unpack_keep :: "ptr option \<Rightarrow> packer \<Rightarrow> packer" where
  "unpack_keep rt s =
     (case rt of
        Some p \<Rightarrow> if validate_only s then s else (incref_in p s)\<lparr>pk_kept := pk_kept s @ [p]\<rparr>
      | None \<Rightarrow> s)"

definition unpack_scalar :: "ptr option \<Rightarrow> packer \<Rightarrow> int \<times> packer" where
  "unpack_scalar rt s =
     (let t = token s; json = unpack_target (\<lambda>w r. V_json (the r)) rt in
      if t = fc CHR ''s'' then unpack_string rt s
      else if t = fc CHR ''i'' then unpack_typed json_is_integer ''integer'' (\<lambda>w r. V_int (to_int (json_integer_value w r))) rt s
      else if t = fc CHR ''I'' then unpack_typed json_is_integer ''integer'' (\<lambda>w r. V_json_int (json_integer_value w r)) rt s
      else if t = fc CHR ''b'' then
        unpack_typed json_is_boolean ''true or false'' (\<lambda>w r. V_int (if json_is_true w r then 1 else 0)) rt s
      else if t = fc CHR ''f'' then unpack_typed json_is_real ''real'' (\<lambda>w r. V_double (json_real_value w r)) rt s
      else if t = fc CHR ''F'' then unpack_typed json_is_number ''real or integer'' (\<lambda>w r. V_double (json_number_value w r)) rt s
      else if t = fc CHR ''O'' then (0, json (unpack_keep rt s))
      else if t = fc CHR ''o'' then (0, json s)
      else if t = fc CHR ''n'' then
        if rt \<noteq> None \<and> \<not> json_is_null (pk_world s) rt then (-1, wrong_type ''null'' rt s) else (0, s)
      else (-1, set_error ''<format>'' json_error_invalid_format (cstr ''Unexpected format character '' @ [39, t, 39]) s))"

section \<open>Objects\<close>

text \<open>The set of keys that were accessed, a hash table whose values are all null.\<close>

definition key_set_add :: "byte list \<Rightarrow> ptr hashtable \<Rightarrow> packer \<Rightarrow> ptr hashtable \<times> packer" where
  "key_set_add key key_set s =
     (let w = pk_world s in
      case hashtable_set decref_ptr (w_seed w) (c_string key) null_ptr key_set (w_mem w) w of
        (_, key_set', m, w') \<Rightarrow> (key_set', s\<lparr>pk_world := w'\<lparr>w_mem := m\<rparr>\<rparr>))"

text \<open>The label \<^verbatim>\<open>out\<close> of \<^verbatim>\<open>unpack_object\<close>.\<close>

definition unpack_out :: "ptr hashtable \<Rightarrow> int \<Rightarrow> packer \<Rightarrow> int \<times> packer" where
  "unpack_out key_set ret s = (ret, s\<lparr>pk_world := hashtable_close decref_ptr key_set (pk_world s)\<rparr>)"

text \<open>
  The round of \<^verbatim>\<open>json_object_foreach\<close> that collects the keys which were not accessed: their number, \<^verbatim>\<open>keys_res\<close>, and the buffer once it is
  initialised.
\<close>

definition unpacked_round ::
  "ptr hashtable \<Rightarrow> byte list \<Rightarrow> ptr \<Rightarrow> int \<times> int \<times> strbuffer option \<Rightarrow> world \<Rightarrow> unit option \<times> (int \<times> int \<times> strbuffer option) \<times> world" where
  "unpacked_round key_set key v st w =
     (case st of
        (unpacked, keys_res, sb) \<Rightarrow>
          if hashtable_get (w_seed w) key key_set \<noteq> None then (None, st, w)
          else
            let (res1, sb1, m1) =
                  (if keys_res = 1 then case strbuffer_init (w_mem w) of (r, b, m) \<Rightarrow> (r, Some b, m)
                   else if keys_res = 0 then case strbuffer_append_bytes (the sb) (cstr '', '') (w_mem w) of (r, b, m) \<Rightarrow> (r, Some b, m)
                   else (keys_res, sb, w_mem w));
                (res2, sb2, m2) =
                  (if res1 = 0 then case strbuffer_append_bytes (the sb1) (c_string key) m1 of (r, b, m) \<Rightarrow> (r, Some b, m)
                   else (res1, sb1, m1))
            in (None, (unpacked + 1, res2, sb2), w\<lparr>w_mem := m2\<rparr>))"

definition unpack_object_end :: "ptr option \<Rightarrow> int \<Rightarrow> bool \<Rightarrow> ptr hashtable \<Rightarrow> packer \<Rightarrow> int \<times> packer" where
  "unpack_object_end rt strict0 gotopt key_set s =
     (let strict = (if strict0 = 0 \<and> strict_flag s then 1 else strict0) in
      if rt \<noteq> None \<and> strict = 1 then
        case (if gotopt \<or> json_object_size (pk_world s) rt \<noteq> ht_size key_set then
                json_object_foreach rt (unpacked_round key_set) (0, 1, None) (pk_world s)
              else (None, (0, 1, None), pk_world s)) of
          (_, (unpacked, keys_res, sb), w) \<Rightarrow>
            let s1 = s\<lparr>pk_world := w\<rparr> in
            if unpacked \<noteq> 0 then
              unpack_out key_set (-1)
                (set_error ''<validation>'' json_error_end_of_input_expected
                   (fmt_d unpacked @ cstr '' object item(s) left unpacked: '' @
                    (if keys_res \<noteq> 0 then cstr ''<unknown>'' else c_string (the (strbuffer_value (the sb))))) s1)
            else unpack_out key_set 0 s1
      else unpack_out key_set 0 s)"

text \<open>The error of a format character after \<^verbatim>\<open>!\<close> or \<^verbatim>\<open>*\<close>.\<close>

definition expected_end :: "byte \<Rightarrow> int \<Rightarrow> packer \<Rightarrow> packer" where
  "expected_end close strict s =
     set_error ''<format>'' json_error_invalid_format
       (cstr ''Expected '' @ [39, close, 39] @ cstr '' after '' @ [39, if strict = 1 then fc CHR ''!'' else fc CHR ''*'', 39] @
        cstr '', got '' @ [39, token s, 39]) s"

definition unpack_array_end :: "ptr option \<Rightarrow> nat \<Rightarrow> int \<Rightarrow> packer \<Rightarrow> int \<times> packer" where
  "unpack_array_end rt i strict0 s =
     (let strict = (if strict0 = 0 \<and> strict_flag s then 1 else strict0) in
      if rt \<noteq> None \<and> strict = 1 \<and> i \<noteq> json_array_size (pk_world s) rt then
        (-1, set_error ''<validation>'' json_error_end_of_input_expected
               (fmt_d (int (json_array_size (pk_world s) rt) - int i) @ cstr '' array item(s) left unpacked'') s)
      else (0, s))"

section \<open>Unpacking\<close>

text \<open>The start of one member: its key and whether it is optional; the token is then the first of the value.\<close>

definition unpack_key :: "packer \<Rightarrow> byte list option \<times> bool \<times> packer" where
  "unpack_key s =
     (case arg_str s of
        (None, s1) \<Rightarrow> (None, False, set_error ''<args>'' json_error_null_value (cstr ''NULL object key'') s1)
      | (Some key, s1) \<Rightarrow>
          let s2 = next_token s1
          in if token s2 = fc CHR ''?'' then (Some key, True, next_token s2) else (Some key, False, s2))"

fun unpack :: "nat \<Rightarrow> ptr option \<Rightarrow> packer \<Rightarrow> (int \<times> packer) option"
and unpack_object_loop :: "nat \<Rightarrow> ptr option \<Rightarrow> int \<Rightarrow> bool \<Rightarrow> ptr hashtable \<Rightarrow> packer \<Rightarrow> (int \<times> packer) option"
and unpack_array_loop :: "nat \<Rightarrow> ptr option \<Rightarrow> nat \<Rightarrow> int \<Rightarrow> packer \<Rightarrow> (int \<times> packer) option" where
  "unpack 0 rt s = None"
| "unpack (Suc n) rt s =
     (if token s = fc CHR ''{'' then
        case in_mem hashtable_init s of
          (None, s1) \<Rightarrow> Some (-1, set_error ''<internal>'' json_error_out_of_memory (cstr ''Out of memory'') s1)
        | (Some key_set, s1) \<Rightarrow>
            if rt \<noteq> None \<and> \<not> json_is_object (pk_world s1) rt then Some (unpack_out key_set (-1) (wrong_type ''object'' rt s1))
            else unpack_object_loop n rt 0 False key_set (next_token s1)
      else if token s = fc CHR ''['' then
        if rt \<noteq> None \<and> \<not> json_is_array (pk_world s) rt then Some (-1, wrong_type ''array'' rt s)
        else unpack_array_loop n rt 0 0 (next_token s)
      else Some (unpack_scalar rt s))"
| "unpack_object_loop 0 rt strict gotopt key_set s = None"
| "unpack_object_loop (Suc n) rt strict gotopt key_set s =
     (if token s = fc CHR ''}'' then Some (unpack_object_end rt strict gotopt key_set s)
      else if strict \<noteq> 0 then Some (unpack_out key_set (-1) (expected_end (fc CHR ''}'') strict s))
      else if token s = 0 then
        Some (unpack_out key_set (-1) (set_error ''<format>'' json_error_invalid_format (cstr ''Unexpected end of format string'') s))
      else if token s = fc CHR ''!'' \<or> token s = fc CHR ''*'' then
        unpack_object_loop n rt (if token s = fc CHR ''!'' then 1 else -1) gotopt key_set (next_token s)
      else if token s \<noteq> fc CHR ''s'' then
        Some (unpack_out key_set (-1) (set_error ''<format>'' json_error_invalid_format
          (cstr ''Expected format '' @ [39, 115, 39] @ cstr '', got '' @ [39, token s, 39]) s))
      else
        case unpack_key s of
          (None, _, s1) \<Rightarrow> Some (unpack_out key_set (-1) s1)
        | (Some key, opt, s1) \<Rightarrow>
            let v = (if rt = None then None else json_object_get (pk_world s1) rt (Some (c_string key))) in
            if rt \<noteq> None \<and> v = None \<and> \<not> opt then
              Some (unpack_out key_set (-1) (set_error ''<validation>'' json_error_item_not_found
                (cstr ''Object item not found: '' @ c_string key) s1))
            else do {
              (r, s2) \<leftarrow> unpack n v s1;
              if r \<noteq> 0 then Some (unpack_out key_set (-1) s2)
              else
                case key_set_add key key_set s2 of
                  (key_set', s3) \<Rightarrow> unpack_object_loop n rt 0 (gotopt \<or> opt) key_set' (next_token s3)
            })"
| "unpack_array_loop 0 rt i strict s = None"
| "unpack_array_loop (Suc n) rt i strict s =
     (if token s = fc CHR '']'' then Some (unpack_array_end rt i strict s)
      else if strict \<noteq> 0 then Some (-1, expected_end (fc CHR '']'') strict s)
      else if token s = 0 then
        Some (-1, set_error ''<format>'' json_error_invalid_format (cstr ''Unexpected end of format string'') s)
      else if token s = fc CHR ''!'' \<or> token s = fc CHR ''*'' then
        unpack_array_loop n rt i (if token s = fc CHR ''!'' then 1 else -1) (next_token s)
      else if token s \<notin> set unpack_value_starters then
        Some (-1, set_error ''<format>'' json_error_invalid_format (cstr ''Unexpected format character '' @ [39, token s, 39]) s)
      else
        let v = (if rt = None then None else json_array_get (pk_world s) rt i) in
        if rt \<noteq> None \<and> v = None then
          Some (-1, set_error ''<validation>'' json_error_index_out_of_range
            (cstr ''Array index '' @ fmt_u i @ cstr '' out of range'') s)
        else do {
          (r, s1) \<leftarrow> unpack n v s;
          if r \<noteq> 0 then Some (-1, s1) else unpack_array_loop n rt (i + 1) 0 (next_token s1)
        })"

definition json_vunpack_ex ::
  "ptr option \<Rightarrow> json_error_t option \<Rightarrow> nat \<Rightarrow> byte list option \<Rightarrow> va_arg list \<Rightarrow> world \<Rightarrow> (int \<times> packer) option" where
  "json_vunpack_ex rt error flags fmt args w =
     (if rt = None then
        Some (-1, scanner_init (jsonp_error_set (jsonp_error_init error (Some (cstr ''<root>''))) (-1) (-1) 0
                json_error_null_value (cstr ''NULL root value'')) flags [] args w)
      else
        case fmt of
          None \<Rightarrow> Some (-1, scanner_init (no_format error) flags [] args w)
        | Some [] \<Rightarrow> Some (-1, scanner_init (no_format error) flags [] args w)
        | Some f \<Rightarrow> do {
            (r, s) \<leftarrow> unpack (pack_fuel f) rt (next_token (scanner_init (jsonp_error_init error None) flags f args w));
            if r \<noteq> 0 then Some (-1, s)
            else
              let s1 = next_token s in
              if token s1 \<noteq> 0 then
                Some (-1, set_error ''<format>'' json_error_invalid_format (cstr ''Garbage after format string'') s1)
              else Some (0, s1)
          })"

definition json_unpack_ex where
  "json_unpack_ex rt error flags fmt args w = json_vunpack_ex rt error flags fmt args w"

definition json_unpack where
  "json_unpack rt fmt args w = json_vunpack_ex rt None 0 fmt args w"

section \<open>What unpacking leaves as it is\<close>

text \<open>
  A step of unpacking reads on and adds the references \<open>K\<close>; where \<open>pre\<close> holds of the heap, the counts stay exact and every value stays what it is.
\<close>

definition same_values :: "world \<Rightarrow> world \<Rightarrow> bool" where
  "same_values w w' \<longleftrightarrow> w_seed w' = w_seed w \<and> (\<forall>q. data_at w' q = data_at w q)"

definition unpacks :: "(world \<Rightarrow> bool) \<Rightarrow> packer \<Rightarrow> packer \<Rightarrow> bool" where
  "unpacks pre s s' \<longleftrightarrow> scanning s' \<and> length (fmt_tokens s') \<le> length (fmt_tokens s) \<and> (pk_undefined s \<longrightarrow> pk_undefined s') \<and>
     (\<exists>K. pk_kept s' = pk_kept s @ K \<and>
       (\<forall>E. \<not> pk_undefined s' \<longrightarrow> rc_inv {} E (pk_world s) \<longrightarrow> pre (pk_world s) \<longrightarrow>
          rc_inv {} (E + mset K) (pk_world s') \<and> same_values (pk_world s) (pk_world s')))"

lemma unpacksI:
  assumes "scanning s'" "length (fmt_tokens s') \<le> length (fmt_tokens s)" "pk_undefined s \<longrightarrow> pk_undefined s'" "pk_kept s' = pk_kept s @ K"
    and "\<And>E. \<not> pk_undefined s' \<Longrightarrow> rc_inv {} E (pk_world s) \<Longrightarrow> pre (pk_world s) \<Longrightarrow>
      rc_inv {} (E + mset K) (pk_world s') \<and> same_values (pk_world s) (pk_world s')"
  shows "unpacks pre s s'"
  using assms unfolding unpacks_def by blast

lemma unpacks_scan: "unpacks pre s s' \<Longrightarrow> scanning s'" "unpacks pre s s' \<Longrightarrow> length (fmt_tokens s') \<le> length (fmt_tokens s)"
  by (auto simp: unpacks_def)

lemma same_values_trans: "same_values w w1 \<Longrightarrow> same_values w1 w2 \<Longrightarrow> same_values w w2"
  by (simp add: same_values_def)

lemma same_heap_values: "same_heap w w' \<Longrightarrow> same_values w w'"
  using same_heap_frame(3) [of w w'] by (simp add: same_values_def)

lemma same_values_dom: "same_values w w' \<Longrightarrow> dom (w_heap w') = dom (w_heap w)"
proof -
  assume "same_values w w'"
  then have "data_at w' (Some p) = data_at w (Some p)" for p by (simp add: same_values_def)
  then have "(w_heap w' p = None) = (w_heap w p = None)" for p by (metis data_at_def option.map_disc_iff option.simps(5))
  then show ?thesis by (auto simp: dom_def)
qed

lemma unpacks_trans:
  assumes "unpacks pre s s1" "unpacks pre1 s1 s'"
    and "\<And>E. rc_inv {} E (pk_world s) \<Longrightarrow> pre (pk_world s) \<Longrightarrow> same_values (pk_world s) (pk_world s1) \<Longrightarrow> pre1 (pk_world s1)"
  shows "unpacks pre s s'"
proof -
  obtain K where K: "pk_kept s1 = pk_kept s @ K" "\<And>E. \<not> pk_undefined s1 \<Longrightarrow> rc_inv {} E (pk_world s) \<Longrightarrow> pre (pk_world s) \<Longrightarrow>
      rc_inv {} (E + mset K) (pk_world s1) \<and> same_values (pk_world s) (pk_world s1)" using assms(1) by (auto simp: unpacks_def)
  obtain L where L: "pk_kept s' = pk_kept s1 @ L" "\<And>E. \<not> pk_undefined s' \<Longrightarrow> rc_inv {} E (pk_world s1) \<Longrightarrow> pre1 (pk_world s1) \<Longrightarrow>
      rc_inv {} (E + mset L) (pk_world s') \<and> same_values (pk_world s1) (pk_world s')" using assms(2) by (auto simp: unpacks_def)
  have u: "pk_undefined s \<longrightarrow> pk_undefined s1" "pk_undefined s1 \<longrightarrow> pk_undefined s'" using assms(1,2) by (auto simp: unpacks_def)
  show ?thesis
  proof (rule unpacksI [where K = "K @ L"])
    fix E assume E: "\<not> pk_undefined s'" "rc_inv {} E (pk_world s)" "pre (pk_world s)"
    then have a: "rc_inv {} (E + mset K) (pk_world s1)" "same_values (pk_world s) (pk_world s1)" using K(2) u by auto
    then show "rc_inv {} (E + mset (K @ L)) (pk_world s') \<and> same_values (pk_world s) (pk_world s')"
      using L(2) [OF E(1) a(1)] assms(3) [OF E(2,3)] same_values_trans by (auto simp: ac_simps)
  qed (use assms(1,2) K(1) L(1) u in \<open>auto simp: unpacks_def\<close>)
qed

lemma unpacks_weaken: "unpacks pre s s' \<Longrightarrow> (\<And>w. pre1 w \<Longrightarrow> pre w) \<Longrightarrow> unpacks pre1 s s'"
  unfolding unpacks_def by blast

text \<open>Steps that only read.\<close>

definition reads :: "packer \<Rightarrow> packer \<Rightarrow> bool" where
  "reads s s' \<longleftrightarrow> moves s s' \<and> pk_kept s' = pk_kept s"

lemma reads_unpacks: "reads s s' \<Longrightarrow> unpacks pre s s'"
  by (rule unpacksI [where K = "[]"]) (auto simp: reads_def moves_def rc_inv_same_heap same_heap_values)

lemma reads_trans [trans]: "reads s s1 \<Longrightarrow> reads s1 s2 \<Longrightarrow> reads s s2"
  by (auto simp: reads_def intro: moves_trans)

lemma reads_scanning: "reads s s' \<Longrightarrow> scanning s'"
  by (auto simp: reads_def dest: moves_scanning)

lemma reads_idles: "scanning s \<Longrightarrow> idles s s' \<Longrightarrow> pk_kept s' = pk_kept s \<Longrightarrow> reads s s'"
  by (simp add: reads_def idles_moves)

lemma kept_fields [simp]:
  "pk_kept (set_error a b c s) = pk_kept s" "pk_kept (wrong_type e rt s) = pk_kept s" "pk_kept (expected_end cl st s) = pk_kept s"
  "pk_kept (assign tg v s) = pk_kept s" "pk_world (set_error a b c s) = pk_world s" "pk_world (wrong_type e rt s) = pk_world s"
  by (simp_all add: set_error_def wrong_type_def expected_end_def assign_def split: option.split)

lemma kept_calls:
  "next_arg sel d s = (v, s') \<Longrightarrow> pk_kept s' = pk_kept s" "in_mem f s = (r, s') \<Longrightarrow> pk_kept s' = pk_kept s"
  by (auto simp: next_arg_def in_mem_def split: list.splits option.splits prod.splits)

lemma reads_steps [simp, intro]:
  assumes "scanning s"
  shows "reads s s" "reads s (set_error a b c s)" "reads s (wrong_type e rt s)" "reads s (expected_end cl st s)" "reads s (next_token s)"
    "reads s (prev_token (next_token s))" "reads s (assign tg v s)"
  using assms moves_next [OF assms] moves_peek [OF assms idles_refl]
  by (auto simp: reads_def wrong_type_def expected_end_def assign_def set_error_def idles_def same_scan_def intro!: idles_moves simp del: cstr_Cons split: option.split)

lemma reads_calls:
  assumes "scanning s"
  shows "arg_str s = (a, s') \<Longrightarrow> reads s s'" "arg_var s = (b, s') \<Longrightarrow> reads s s'" "in_mem f s = (c, s') \<Longrightarrow> reads s s'"
  using assms by (auto simp: arg_str_def arg_var_def intro: reads_idles idles_arg idles_mem dest: kept_calls)

lemma reads_fail: "reads s s1 \<Longrightarrow> reads s (set_error a b c s1)"
  by (meson reads_scanning reads_steps(2) reads_trans)

section \<open>Single values\<close>

definition live :: "ptr option \<Rightarrow> world \<Rightarrow> bool" where
  "live rt w \<longleftrightarrow> (\<forall>p. rt = Some p \<longrightarrow> p \<in> dom (w_heap w))"

lemma unpack_target_reads:
  assumes "scanning s"
  shows "reads s (unpack_target f rt s)"
proof -
  obtain tg s1 where a: "arg_var s = (tg, s1)" by force
  have r: "reads s s1" by (rule reads_calls(2) [OF assms a])
  have "reads s1 (assign tg v s1)" for v using reads_scanning [OF r] by simp
  then show ?thesis using a r assms reads_trans by (auto simp: unpack_target_def)
qed

lemma unpack_typed_reads: "scanning s \<Longrightarrow> unpack_typed is e f rt s = (r, s') \<Longrightarrow> reads s s'"
  by (auto simp: unpack_typed_def unpack_target_reads split: if_splits)

lemma assign_reads: "reads s s1 \<Longrightarrow> reads s (assign tg v s1)"
  by (meson reads_scanning reads_steps(7) reads_trans)

lemma unpack_string_reads:
  assumes "scanning s" "unpack_string rt s = (r, s')"
  shows "reads s s'"
proof -
  obtain tg s1 where a: "arg_var s = (tg, s1)" by force
  have r1: "reads s s1" by (rule reads_calls(2) [OF assms(1) a])
  have r2: "reads s (next_token s1)" "reads s (prev_token (next_token s1))" using reads_trans [OF r1] reads_steps(5,6) reads_scanning [OF r1] by blast+
  obtain tl s3 where b: "arg_var (next_token s1) = (tl, s3)" by force
  have r3: "reads s s3" by (rule reads_trans [OF r2(1) reads_calls(2) [OF reads_scanning [OF r2(1)] b]])
  show ?thesis using assms(2) a b r2 r3 assms(1)
    by (auto simp: unpack_string_def Let_def intro!: assign_reads reads_fail r1 split: if_splits option.splits simp del: cstr_Cons)
qed

lemma unpack_keep_unpacks:
  assumes "scanning s"
  shows "unpacks (live rt) s (unpack_keep rt s)"
proof (cases "rt = None \<or> validate_only s")
  case True
  then show ?thesis using reads_unpacks [OF reads_steps(1) [OF assms]] by (auto simp: unpack_keep_def split: option.split)
next
  case False
  then obtain p where p: "rt = Some p" by auto
  define s1 where "s1 = incref_in p s"
  have u: "unpack_keep rt s = s1\<lparr>pk_kept := pk_kept s @ [p]\<rparr>" using False p by (simp add: unpack_keep_def s1_def)
  have f: "pk_world s1 = json_incref (Some p) (pk_world s)" "pk_undefined s \<longrightarrow> pk_undefined s1"
    "\<not> pk_undefined s1 \<Longrightarrow> w_heap (pk_world s) p = Some c \<Longrightarrow> j_refcount c \<noteq> SIZE_MAX - 1" for c
    by (auto simp: s1_def incref_in_def Let_def split: option.splits if_splits)
  have sc: "same_scan s (s1\<lparr>pk_kept := pk_kept s @ [p]\<rparr>)" using same_scan_steps(4) [of s p] by (simp add: s1_def same_scan_def)
  show ?thesis unfolding u
  proof (rule unpacksI [where K = "[p]"])
    fix E assume E: "\<not> pk_undefined (s1\<lparr>pk_kept := pk_kept s @ [p]\<rparr>)" "rc_inv {} E (pk_world s)" "live rt (pk_world s)"
    then obtain c where c: "w_heap (pk_world s) p = Some c" using p by (auto simp: live_def)
    have "p \<in> statics \<or> Suc (j_refcount c) < SIZE_MAX" using f(3) [OF _ c] E(1) rc_invD(6) [OF E(2) c] by force
    then have "rc_inv {} (add_mset p E) (json_incref (Some p) (pk_world s))" using json_incref_inv [OF E(2), of p] c by auto
    moreover have "same_values (pk_world s) (json_incref (Some p) (pk_world s))"
      using c by (auto simp: same_values_def json_incref_def data_at_def set_cell_def split: option.split)
    ultimately show "rc_inv {} (E + mset [p]) (pk_world (s1\<lparr>pk_kept := pk_kept s @ [p]\<rparr>)) \<and> same_values (pk_world s) (pk_world (s1\<lparr>pk_kept := pk_kept s @ [p]\<rparr>))"
      using f(1) by simp
  qed (use same_scan_tokens [OF sc] assms f(2) in auto)
qed

lemma unpack_scalar_unpacks:
  assumes "scanning s" "unpack_scalar rt s = (r, s')"
  shows "unpacks (live rt) s s'"
proof (cases "token s = fc CHR ''O''")
  case True
  have k: "unpacks (live rt) s (unpack_keep rt s)" by (rule unpack_keep_unpacks [OF assms(1)])
  have "unpacks (\<lambda>_. True) (unpack_keep rt s) (unpack_target (\<lambda>w r. V_json (the r)) rt (unpack_keep rt s))"
    by (rule reads_unpacks [OF unpack_target_reads [OF unpacks_scan(1) [OF k]]])
  then show ?thesis using unpacks_trans [OF k] assms(2) True by (simp add: unpack_scalar_def Let_def)
next
  case False
  then have "reads s s'"
    using assms unpack_typed_reads [OF assms(1)] unpack_string_reads [OF assms(1)]
    by (auto simp: unpack_scalar_def Let_def unpack_target_reads simp del: cstr_Cons split: if_splits)
  then show ?thesis by (rule reads_unpacks)
qed

section \<open>The set of accessed keys\<close>

definition keys_null :: "ptr hashtable \<Rightarrow> nat \<Rightarrow> world \<Rightarrow> bool" where
  "keys_null key_set n w \<longleftrightarrow> (\<exists>al. ht_rel (w_seed w) key_set al \<and> snd ` set al \<subseteq> {null_ptr} \<and> length al + n < 2 ^ 31)"

lemma keys_null_values: "same_values w w' \<Longrightarrow> keys_null key_set n w' = keys_null key_set n w"
  by (simp add: keys_null_def same_values_def)

lemma keys_null_mono: "keys_null key_set n w \<Longrightarrow> m \<le> n \<Longrightarrow> keys_null key_set m w"
  unfolding keys_null_def by (meson add_left_mono order_le_less_trans)

lemma keys_closed:
  assumes "keys_null key_set n w" "rc_inv {} E w"
  shows "hashtable_close decref_ptr key_set w = w"
proof -
  obtain al where al: "ht_rel (w_seed w) key_set al" "snd ` set al \<subseteq> {null_ptr}" using assms(1) by (auto simp: keys_null_def)
  obtain vs where vs: "mset vs = mset (map snd al)" "hashtable_close decref_ptr key_set w = fold decref_ptr vs w"
    using hashtable_close_rel [OF al(1), of decref_ptr w] by blast
  have "set vs \<subseteq> {null_ptr}" using mset_eq_setD [OF vs(1)] al(2) by simp
  then show ?thesis using vs(2) fold_decref_nulls rc_invD(4) [OF assms(2)] by simp
qed

lemma unpack_out_unpacks:
  assumes "scanning s" "unpack_out key_set ret s = (r, s')"
  shows "unpacks (keys_null key_set n) s s'"
proof -
  have s': "s' = s\<lparr>pk_world := hashtable_close decref_ptr key_set (pk_world s)\<rparr>" using assms(2) by (simp add: unpack_out_def)
  have sc: "same_scan s s'" using s' by simp
  show ?thesis
    by (rule unpacksI [where K = "[]"]) (use same_scan_tokens [OF sc] assms(1) s' keys_closed in \<open>auto simp: same_values_def\<close>)
qed

lemma unpack_out_after:
  assumes "unpacks pre s s1" "\<And>E. rc_inv {} E (pk_world s) \<Longrightarrow> pre (pk_world s) \<Longrightarrow> keys_null key_set n (pk_world s)"
  shows "unpacks pre s (snd (unpack_out key_set ret s1))"
proof -
  have "unpacks (keys_null key_set n) s1 (snd (unpack_out key_set ret s1))"
    by (rule unpack_out_unpacks [OF unpacks_scan(1) [OF assms(1)], of key_set ret ret]) (simp add: unpack_out_def)
  then show ?thesis by (rule unpacks_trans [OF assms(1)]) (use assms(2) keys_null_values in blast)
qed

lemma key_set_add_unpacks:
  assumes "scanning s" "key_set_add key key_set s = (key_set', s')"
  shows "unpacks (keys_null key_set (Suc n)) s s'"
    and "rc_inv {} E (pk_world s) \<Longrightarrow> keys_null key_set (Suc n) (pk_world s) \<Longrightarrow> keys_null key_set' n (pk_world s')"
    and "same_scan s s'"
proof -
  obtain r h m w where st: "hashtable_set decref_ptr (w_seed (pk_world s)) (c_string key) null_ptr key_set (w_mem (pk_world s)) (pk_world s) = (r, h, m, w)"
    by (metis prod_cases4)
  have s': "key_set' = h" "s' = s\<lparr>pk_world := w\<lparr>w_mem := m\<rparr>\<rparr>" using assms(2) st by (simp_all add: key_set_add_def Let_def)
  then show sc: "same_scan s s'" by simp
  have c: "w = pk_world s \<and> keys_null h n w" if inv: "rc_inv {} E (pk_world s)" and ks: "keys_null key_set (Suc n) (pk_world s)" for E
  proof -
    obtain al where al: "ht_rel (w_seed (pk_world s)) key_set al" "snd ` set al \<subseteq> {null_ptr}" "length al + Suc n < 2 ^ 31"
      using ks by (auto simp: keys_null_def)
    have "length al < 2 ^ 31" using al(3) by linarith
    note R = hashtable_set_rel [OF al(1) this st]
    have old: "decref_ptr v (pk_world s) = pk_world s" if "map_of al k = Some v" for k v
      using map_of_SomeD [OF that] al(2) decref_null [OF rc_invD(4) [OF inv]] by force
    then have w: "w = pk_world s" using R(2,3) by (cases "r = 0") (auto split: option.splits)
    let ?al = "AList.update (c_string key) null_ptr al"
    have "length ?al \<le> Suc (length al)" by (induction al) auto
    moreover have "snd ` set ?al \<subseteq> {null_ptr}" using al(2) by (induction al) (auto split: if_splits)
    ultimately have "\<exists>al'. ht_rel (w_seed (pk_world s)) h al' \<and> snd ` set al' \<subseteq> {null_ptr} \<and> length al' \<le> Suc (length al)"
      using R(1,3) al(2) by (cases "r = 0") (blast, force)
    then show ?thesis using w al(3) unfolding keys_null_def by (auto simp del: power_numeral)
  qed
  then show "rc_inv {} E (pk_world s) \<Longrightarrow> keys_null key_set (Suc n) (pk_world s) \<Longrightarrow> keys_null key_set' n (pk_world s')"
    using s' by (auto simp: keys_null_def)
  have "same_heap (pk_world s) ((pk_world s)\<lparr>w_mem := m\<rparr>)" by (simp add: same_heap_def)
  then show "unpacks (keys_null key_set (Suc n)) s s'"
    by (intro unpacksI [where K = "[]"]) (use same_scan_tokens [OF sc] assms(1) s' c rc_inv_same_heap same_heap_values in auto)
qed

text \<open>Looking for the keys that were not accessed needs memory and nothing else.\<close>

lemma unpacked_round_heap: "unpacked_round key_set key v st w = (x, st', w') \<Longrightarrow> same_heap w w'"
  by (auto simp: unpacked_round_def Let_def same_heap_def simp del: cstr_Cons split: if_splits prod.splits)

lemma foreach_loop_heap:
  assumes "\<And>key v st w x st' w'. body key v st w = (x, st', w') \<Longrightarrow> same_heap w w'"
  shows "foreach_loop n json body iter st w = (x, st', w') \<Longrightarrow> same_heap w w'"
proof (induction n arbitrary: iter st w)
  case (Suc n)
  show ?case
  proof (cases "\<exists>key v. json_object_iter_key w iter = Some key \<and> json_object_iter_value w iter = Some v")
    case True
    then obtain key v where k: "json_object_iter_key w iter = Some key" "json_object_iter_value w iter = Some v" by auto
    obtain y st1 w1 where b: "body key v st w = (y, st1, w1)" by (metis prod_cases3)
    show ?thesis using Suc k b assms [OF b] same_heap_trans by (cases y) fastforce+
  qed (use Suc.prems in \<open>auto simp: same_heap_def split: option.splits\<close>)
qed (simp add: same_heap_def)

lemma unpack_object_end_unpacks:
  assumes "scanning s" "unpack_object_end rt strict gotopt key_set s = (r, s')"
  shows "unpacks (keys_null key_set n) s s'"
proof -
  define found where "found = (if gotopt \<or> json_object_size (pk_world s) rt \<noteq> ht_size key_set then
      json_object_foreach rt (unpacked_round key_set) (0, 1, None) (pk_world s) else (None, (0, 1, None), pk_world s))"
  obtain x unpacked keys_res sb w where f: "found = (x, (unpacked, keys_res, sb), w)" by (metis surj_pair)
  have "same_heap (pk_world s) w" using f foreach_loop_heap [OF unpacked_round_heap]
    by (auto simp: found_def json_object_foreach_def same_heap_def split: if_splits)
  then have i: "idles s (s\<lparr>pk_world := w\<rparr>)" by (simp add: idles_def)
  have r: "reads s (s\<lparr>pk_world := w\<rparr>)" by (rule reads_idles [OF assms(1) i]) simp
  have out: "unpacks (keys_null key_set n) s (snd (unpack_out key_set ret s1))" if "reads s s1" for ret s1
    by (rule unpack_out_after [OF reads_unpacks [OF that]])
  have "\<exists>ret s1. unpack_object_end rt strict gotopt key_set s = unpack_out key_set ret s1 \<and> reads s s1"
  proof (cases "rt \<noteq> None \<and> (if strict = 0 \<and> strict_flag s then 1 else strict) = 1")
    case True
    then have "\<exists>msg. unpack_object_end rt strict gotopt key_set s =
        (if unpacked \<noteq> 0 then unpack_out key_set (-1) (set_error ''<validation>'' json_error_end_of_input_expected msg (s\<lparr>pk_world := w\<rparr>))
         else unpack_out key_set 0 (s\<lparr>pk_world := w\<rparr>))"
      unfolding unpack_object_end_def found_def [symmetric] f Let_def prod.case by (simp only: if_True simp_thms) blast
    then show ?thesis using r reads_fail [OF r] by (auto split: if_splits) blast
  next
    case False
    then have "unpack_object_end rt strict gotopt key_set s = unpack_out key_set 0 s"
      unfolding unpack_object_end_def Let_def by (simp only: if_False)
    then show ?thesis using reads_steps(1) [OF assms(1)] by blast
  qed
  then show ?thesis using assms(2) out by (metis snd_conv)
qed

section \<open>Unpacking ends\<close>

definition unpacked_to :: "(world \<Rightarrow> bool) \<Rightarrow> packer \<Rightarrow> (int \<times> packer) option \<Rightarrow> bool" where
  "unpacked_to pre s x \<longleftrightarrow> (\<exists>r s'. x = Some (r, s') \<and> unpacks pre s s')"

lemma unpacked_after:
  assumes "unpacks pre s s1" "unpacked_to pre1 s1 x"
    and "\<And>E. rc_inv {} E (pk_world s) \<Longrightarrow> pre (pk_world s) \<Longrightarrow> same_values (pk_world s) (pk_world s1) \<Longrightarrow> pre1 (pk_world s1)"
  shows "unpacked_to pre s x"
proof -
  obtain r s' where r: "x = Some (r, s')" "unpacks pre1 s1 s'" using assms(2) by (auto simp: unpacked_to_def)
  have "unpacks pre s s'" by (rule unpacks_trans [OF assms(1) r(2)]) (rule assms(3))
  then show ?thesis using r(1) by (simp add: unpacked_to_def)
qed

lemma unpacked_if:
  "(b \<Longrightarrow> unpacked_to pre s x) \<Longrightarrow> (\<not> b \<Longrightarrow> unpacked_to pre s y) \<Longrightarrow> unpacked_to pre s (if b then x else y)"
  by simp

lemma unpacks_given:
  assumes "unpacks pre s s'" "\<And>E. rc_inv {} E (pk_world s) \<Longrightarrow> pre1 (pk_world s) \<Longrightarrow> pre (pk_world s)"
  shows "unpacks pre1 s s'"
  using assms unfolding unpacks_def by metis

lemma unpacked_reads: "reads s s1 \<Longrightarrow> unpacked_to pre s (Some (r, s1))"
  by (simp add: unpacked_to_def reads_unpacks)

lemma unpacked_out:
  assumes "unpacks pre s s1" "\<And>E. rc_inv {} E (pk_world s) \<Longrightarrow> pre (pk_world s) \<Longrightarrow> keys_null key_set n (pk_world s)"
  shows "unpacked_to pre s (Some (unpack_out key_set ret s1))"
proof -
  have "unpacks pre s (snd (unpack_out key_set ret s1))" by (rule unpack_out_after [OF assms(1)]) (rule assms(2))
  then show ?thesis by (simp add: unpacked_to_def unpack_out_def)
qed

lemma live_values: "same_values w w' \<Longrightarrow> live rt w \<Longrightarrow> live rt w'"
  by (simp add: live_def same_values_dom)

lemma object_get_values: "same_values w w' \<Longrightarrow> json_object_get w' rt key = json_object_get w rt key"
  unfolding json_object_get_def object_table_def same_values_def by metis

lemma array_get_values: "same_values w w' \<Longrightarrow> json_array_get w' rt i = json_array_get w rt i"
  unfolding json_array_get_def array_at_def same_values_def by metis

lemma object_get_live:
  assumes "rc_inv {} E w"
  shows "live (json_object_get w rt key) w"
  unfolding live_def
proof (intro allI impI)
  fix v assume g: "json_object_get w rt key = Some v"
  obtain k where k: "key = Some k" using g by (cases key) (simp_all add: json_object_get_def)
  obtain h where "object_table w rt = Some h" using g k by (cases "object_table w rt") (simp_all add: json_object_get_def)
  with g k have h: "object_table w rt = Some h" "hashtable_get (w_seed w) k h = Some v" by (simp_all add: json_object_get_def)
  from h(1) have "data_at w rt = Some (JObject h)" by (simp add: object_table_def split: option.splits json_data.splits)
  moreover from this obtain p where "rt = Some p" by (cases rt) (simp_all add: data_at_def)
  ultimately have p: "data_at w (Some p) = Some (JObject h)" by simp
  obtain al where al: "ht_rel (w_seed w) h al" "snd ` set al \<subseteq> dom (w_heap w)" "p \<in> dom (w_heap w)" by (rule object_cell [OF assms p])
  have "map_of al k = Some v" using h(2) hashtable_get_map_of [OF al(1)] by simp
  then show "v \<in> dom (w_heap w)" using map_of_SomeD [of al k v] al(2) by (auto simp: image_subset_iff)
qed

lemma array_get_live:
  assumes "rc_inv {} E w"
  shows "live (json_array_get w rt i) w"
  unfolding live_def
proof (intro allI impI)
  fix v assume "json_array_get w rt i = Some v"
  then obtain a where a: "array_at w rt = Some a" "i < a_entries a" "v = a_table a ! i"
    by (auto simp: json_array_get_def split: option.splits if_splits)
  from a(1) have "data_at w rt = Some (JArray a)" by (simp add: array_at_def split: option.splits json_data.splits)
  moreover from this obtain p where "rt = Some p" by (cases rt) (simp_all add: data_at_def)
  ultimately have p: "data_at w (Some p) = Some (JArray a)" by simp
  have "take (a_entries a) (a_table a) ! i = v" "i < length (take (a_entries a) (a_table a))" using a(2,3) array_cell(1) [OF assms p] by simp_all
  then have "v \<in> set (take (a_entries a) (a_table a))" using nth_mem by metis
  then show "v \<in> dom (w_heap w)" using array_cell(2) [OF assms p] by blast
qed

text \<open>What the loops need of the heap: the value is there, and the set of keys has room for the rest of the format.\<close>

definition small_live :: "ptr option \<Rightarrow> packer \<Rightarrow> world \<Rightarrow> bool" where
  "small_live rt s w \<longleftrightarrow> live rt w \<and> length (fmt_tokens s) < 2 ^ 31"

definition keys_live :: "ptr option \<Rightarrow> ptr hashtable \<Rightarrow> packer \<Rightarrow> world \<Rightarrow> bool" where
  "keys_live rt key_set s w \<longleftrightarrow> live rt w \<and> keys_null key_set (length (fmt_tokens s)) w"

lemma unpack_key_reads:
  assumes "scanning s" "unpack_key s = (key, opt, s1)" "token s \<noteq> 0"
  shows "reads s s1" "key \<noteq> None \<Longrightarrow> length (fmt_tokens s1) < length (fmt_tokens s)"
proof -
  obtain k s2 where a: "arg_str s = (k, s2)" by force
  have r2: "reads s s2" by (rule reads_calls(1) [OF assms(1) a])
  note sc = reads_scanning [OF r2]
  have r3: "reads s (next_token s2)" by (rule reads_trans [OF r2 reads_steps(5) [OF sc]])
  have r4: "reads s (next_token (next_token s2))" by (rule reads_trans [OF r3 reads_steps(5) [OF reads_scanning [OF r3]]])
  show "reads s s1" using assms(2) a r3 r4 reads_fail [OF r2] by (auto simp: unpack_key_def Let_def simp del: cstr_Cons split: option.splits if_splits)
  have len: "fmt_tokens s2 = fmt_tokens s" "0 < length (fmt_tokens s)"
    using same_scan_tokens [OF same_scan_args(1) [OF a]] current_token [OF assms(3)] by simp_all
  have "length (fmt_tokens (next_token s2)) < length (fmt_tokens s)" "length (fmt_tokens (next_token (next_token s2))) < length (fmt_tokens s)"
    using tokens_next [OF sc] tokens_next [OF reads_scanning [OF r3]] len by auto
  then show "key \<noteq> None \<Longrightarrow> length (fmt_tokens s1) < length (fmt_tokens s)"
    using assms(2) a by (auto simp: unpack_key_def Let_def simp del: cstr_Cons split: option.splits if_splits)
qed

lemma unpack_array_round:
  assumes s: "scanning s" "token s \<noteq> 0"
    and un: "\<And>v. unpacked_to (small_live v s) s (unpack n v s)"
    and lp: "\<And>i strict u. scanning u \<Longrightarrow> length (fmt_tokens u) < length (fmt_tokens s) \<Longrightarrow> unpacked_to (small_live rt u) u (unpack_array_loop n rt i strict u)"
  shows "unpacked_to (small_live rt s) s (unpack_array_loop (Suc n) rt i strict s)"
proof -
  have pos: "0 < length (fmt_tokens s)" using current_token [OF s(2)] by simp
  have "length (fmt_tokens (next_token s)) < length (fmt_tokens s)" using tokens_next [OF s(1)] pos by linarith
  then have skip: "unpacked_to (small_live rt s) s (unpack_array_loop n rt i x (next_token s))" for x
    by (intro unpacked_after [OF reads_unpacks [OF reads_steps(5) [OF s(1)]] lp [OF next_token_scan(1) [OF s(1)]]])
      (auto simp: small_live_def intro: live_values)
  define v where "v = (if rt = None then None else json_array_get (pk_world s) rt i)"
  obtain r s1 where r: "unpack n v s = Some (r, s1)" "unpacks (small_live v s) s s1" using un [of v] by (auto simp: unpacked_to_def)
  have v: "unpacks (small_live rt s) s s1"
    by (rule unpacks_given [OF r(2)]) (use array_get_live in \<open>auto simp: small_live_def v_def live_def\<close>)
  have sc: "scanning s1" "length (fmt_tokens (next_token s1)) < length (fmt_tokens s)"
    using unpacks_scan [OF v] tokens_next [OF unpacks_scan(1) [OF v]] pos by (blast, linarith)
  have "unpacks (small_live rt s) s (next_token s1)" by (rule unpacks_trans [OF v reads_unpacks [OF reads_steps(5) [OF sc(1)]]]) simp
  then have cont: "unpacked_to (small_live rt s) s (unpack_array_loop n rt (i + 1) 0 (next_token s1))"
    by (rule unpacked_after [OF _ lp [OF next_token_scan(1) [OF sc(1)] sc(2)]]) (use sc(2) in \<open>auto simp: small_live_def intro: live_values\<close>)
  have e: "unpacked_to (small_live rt s) s (Some (unpack_array_end rt i strict s))"
    by (simp add: unpack_array_end_def Let_def unpacked_reads s del: cstr_Cons)
  have "unpacked_to (small_live rt s) s (Some (-1, s1))" using v by (simp add: unpacked_to_def)
  then have v: "unpacked_to (small_live rt s) s (do { (r, s1) \<leftarrow> unpack n v s; if r \<noteq> 0 then Some (-1, s1) else unpack_array_loop n rt (i + 1) 0 (next_token s1) })"
    using cont r(1) by (cases "r = 0") simp_all
  have err: "unpacked_to (small_live rt s) s (Some (x, set_error a b c s))" "unpacked_to (small_live rt s) s (Some (x, expected_end d y s))" for x a b c d y
    using s(1) by (simp_all add: unpacked_reads)
  show ?thesis unfolding unpack_array_loop.simps v_def [symmetric] Let_def
    by (intro unpacked_if) (rule e err skip v | simp only: s(2))+
qed


lemma unpack_member:
  assumes s: "scanning s" and k: "unpack_key s = (Some key, opt, s1)" "token s \<noteq> 0"
    and v: "v = (if rt = None then None else json_object_get (pk_world s1) rt (Some (c_string key)))"
    and un: "unpacked_to (small_live v s1) s1 (unpack n v s1)"
    and lp: "\<And>strict gotopt key_set u. scanning u \<Longrightarrow> length (fmt_tokens u) < length (fmt_tokens s) \<Longrightarrow>
      unpacked_to (keys_live rt key_set u) u (unpack_object_loop n rt strict gotopt key_set u)"
  shows "unpacked_to (keys_live rt key_set s) s (do {
      (r, s2) \<leftarrow> unpack n v s1;
      if r \<noteq> 0 then Some (unpack_out key_set (-1) s2)
      else case key_set_add key key_set s2 of (key_set', s3) \<Rightarrow> unpack_object_loop n rt 0 g key_set' (next_token s3) })"
proof -
  have rd: "reads s s1" "length (fmt_tokens s1) < length (fmt_tokens s)" using unpack_key_reads [OF s k] by simp_all
  have w1: "same_heap (pk_world s) (pk_world s1)" using rd(1) by (simp add: reads_def moves_def)
  obtain r s2 where r: "unpack n v s1 = Some (r, s2)" "unpacks (small_live v s1) s1 s2" using un by (auto simp: unpacked_to_def)
  have a: "unpacks (keys_live rt key_set s) s s2"
  proof (rule unpacks_trans [OF reads_unpacks [OF rd(1)] r(2)])
    fix E assume "rc_inv {} E (pk_world s)" "keys_live rt key_set s (pk_world s)"
    then have "live v (pk_world s1)" "length (fmt_tokens s) < 2 ^ 31"
      using object_get_live [of E "pk_world s1" rt] rc_inv_same_heap [OF w1] v by (auto simp: keys_live_def keys_null_def live_def simp del: power_numeral)
    then show "small_live v s1 (pk_world s1)" using rd(2) by (simp add: small_live_def)
  qed
  note sc2 = unpacks_scan [OF a]
  have len2: "length (fmt_tokens s2) < length (fmt_tokens s)" using unpacks_scan(2) [OF r(2)] rd(2) by linarith
  obtain ks s3 where ks: "key_set_add key key_set s2 = (ks, s3)" by force
  let ?m = "length (fmt_tokens (next_token s3))"
  note S3 = same_scan_tokens [OF key_set_add_unpacks(3) [OF sc2(1) ks]]
  have sc3: "scanning s3" "scanning (next_token s3)" using S3 sc2(1) next_token_scan(1) by auto
  have len: "Suc ?m \<le> length (fmt_tokens s)" using tokens_next [OF sc3(1)] S3 len2 by auto
  have add: "unpacks (\<lambda>w. live rt w \<and> keys_null key_set (Suc ?m) w) s2 (next_token s3)"
    by (rule unpacks_trans [OF unpacks_weaken [OF key_set_add_unpacks(1) [OF sc2(1) ks]] reads_unpacks [OF reads_steps(5) [OF sc3(1)]]]) auto
  have "unpacked_to (\<lambda>w. live rt w \<and> keys_null key_set (Suc ?m) w) s2 (unpack_object_loop n rt 0 g ks (next_token s3))"
    by (rule unpacked_after [OF add lp [OF sc3(2)]]) (use len key_set_add_unpacks(2) [OF sc2(1) ks] live_values in \<open>auto simp: keys_live_def\<close>)
  then have "unpacked_to (keys_live rt key_set s) s (unpack_object_loop n rt 0 g ks (next_token s3))"
    by (rule unpacked_after [OF a]) (use len live_values keys_null_values keys_null_mono in \<open>auto simp: keys_live_def\<close>)
  moreover have "unpacked_to (keys_live rt key_set s) s (Some (unpack_out key_set (-1) s2))"
    by (rule unpacked_out [OF a, where n = "length (fmt_tokens s)"]) (simp add: keys_live_def)
  ultimately show ?thesis using r(1) ks by (cases "r = 0") simp_all
qed

lemma unpack_object_round:
  assumes s: "scanning s"
    and un: "\<And>v u. scanning u \<Longrightarrow> length (fmt_tokens u) < length (fmt_tokens s) \<Longrightarrow> unpacked_to (small_live v u) u (unpack n v u)"
    and lp: "\<And>strict gotopt key_set u. scanning u \<Longrightarrow> length (fmt_tokens u) < length (fmt_tokens s) \<Longrightarrow>
      unpacked_to (keys_live rt key_set u) u (unpack_object_loop n rt strict gotopt key_set u)"
  shows "unpacked_to (keys_live rt key_set s) s (unpack_object_loop (Suc n) rt strict gotopt key_set s)"
proof -
  have out: "unpacked_to (keys_live rt key_set s) s (Some (unpack_out key_set ret s1))" if "reads s s1" for ret s1
    by (rule unpacked_out [OF reads_unpacks [OF that], where n = "length (fmt_tokens s)"]) (simp add: keys_live_def)
  have e: "unpacked_to (keys_live rt key_set s) s (Some (unpack_object_end rt strict gotopt key_set s))"
  proof -
    obtain r s' where u: "unpack_object_end rt strict gotopt key_set s = (r, s')" by force
    have "unpacks (keys_live rt key_set s) s s'"
      by (rule unpacks_weaken [OF unpack_object_end_unpacks [OF s u], of _ "length (fmt_tokens s)"]) (simp add: keys_live_def)
    then show ?thesis using u by (simp add: unpacked_to_def)
  qed
  have skip: "unpacked_to (keys_live rt key_set s) s (unpack_object_loop n rt x gotopt key_set (next_token s))" if "token s \<noteq> 0" for x
  proof -
    have len: "length (fmt_tokens (next_token s)) < length (fmt_tokens s)" using tokens_next [OF s] current_token [OF that] by simp
    show ?thesis
      by (rule unpacked_after [OF reads_unpacks [OF reads_steps(5) [OF s]] lp [OF next_token_scan(1) [OF s] len]])
        (use len keys_null_mono in \<open>auto simp: keys_live_def\<close>)
  qed
  obtain key opt s1 where k: "unpack_key s = (key, opt, s1)" by (metis prod_cases3)
  have member: "unpacked_to (keys_live rt key_set s) s
      (case unpack_key s of
          (None, _, s1) \<Rightarrow> Some (unpack_out key_set (-1) s1)
        | (Some key, opt, s1) \<Rightarrow>
            let v = (if rt = None then None else json_object_get (pk_world s1) rt (Some (c_string key))) in
            if rt \<noteq> None \<and> v = None \<and> \<not> opt then
              Some (unpack_out key_set (-1) (set_error ''<validation>'' json_error_item_not_found
                (cstr ''Object item not found: '' @ c_string key) s1))
            else do {
              (r, s2) \<leftarrow> unpack n v s1;
              if r \<noteq> 0 then Some (unpack_out key_set (-1) s2)
              else
                case key_set_add key key_set s2 of
                  (key_set', s3) \<Rightarrow> unpack_object_loop n rt 0 (gotopt \<or> opt) key_set' (next_token s3)
            })" if t: "token s \<noteq> 0"
  proof (cases key)
    case None
    then show ?thesis using k out unpack_key_reads(1) [OF s k t] by simp
  next
    case (Some ky)
    note K = k [unfolded Some]
    have rd: "reads s s1" "length (fmt_tokens s1) < length (fmt_tokens s)" using unpack_key_reads [OF s K t] by simp_all
    note m = unpack_member [OF s K t refl un [OF reads_scanning [OF rd(1)] rd(2)] lp]
    show ?thesis unfolding K prod.case option.case Let_def
      by (intro unpacked_if) (rule out [OF reads_fail [OF rd(1)]] m; assumption)+
  qed
  show ?thesis unfolding unpack_object_loop.simps
    by (intro unpacked_if) (rule e out reads_steps s member skip | assumption)+
qed

lemma unpack_ends_step:
  assumes s: "scanning s" "2 * length (fmt_tokens s) + 2 \<le> Suc n"
    and ob: "\<And>rt strict gotopt key_set u. scanning u \<Longrightarrow> 2 * length (fmt_tokens u) + 3 \<le> n \<Longrightarrow>
      unpacked_to (keys_live rt key_set u) u (unpack_object_loop n rt strict gotopt key_set u)"
    and ar: "\<And>rt i strict u. scanning u \<Longrightarrow> 2 * length (fmt_tokens u) + 3 \<le> n \<Longrightarrow>
      unpacked_to (small_live rt u) u (unpack_array_loop n rt i strict u)"
  shows "unpacked_to (small_live rt s) s (unpack (Suc n) rt s)"
proof -
  have len: "2 * length (fmt_tokens (next_token u)) + 3 \<le> n" if "token s \<noteq> 0" "scanning u" "fmt_tokens u = fmt_tokens s" for u
  proof -
    have "0 < length (fmt_tokens s)" using current_token [OF that(1)] by simp
    then show ?thesis using tokens_next [OF that(2)] s(2) unfolding that(3) by linarith
  qed
  consider "token s = fc CHR ''{''" | "token s = fc CHR ''[''" | "token s \<noteq> fc CHR ''{''" "token s \<noteq> fc CHR ''[''" by blast
  then show ?thesis
  proof cases
    case 1
    obtain ko :: "ptr hashtable option" and s1 where i: "in_mem hashtable_init s = (ko, s1)" by force
    have rd: "reads s s1" by (rule reads_calls(3) [OF s(1) i])
    note sc = reads_scanning [OF rd]
    have tk: "fmt_tokens s1 = fmt_tokens s" using same_scan_tokens [OF same_scan_calls(3) [OF i]] by simp
    show ?thesis
    proof (cases ko)
      case None
      then show ?thesis using 1 i reads_fail [OF rd] by (simp add: unpacked_reads del: cstr_Cons)
    next
      case (Some ks)
      obtain m where "hashtable_init (w_mem (pk_world s)) = (Some ks, m)" using i Some by (auto simp: in_mem_def split: prod.splits)
      then have kn: "keys_null ks k w" if "k < 2 ^ 31" for k w
        unfolding keys_null_def using that hashtable_init_rel by (intro exI [of _ "[]"]) (auto simp del: power_numeral)
      have rn: "reads s (next_token s1)" by (rule reads_trans [OF rd reads_steps(5) [OF sc]])
      have l: "2 * length (fmt_tokens (next_token s1)) + 3 \<le> n" by (rule len [OF _ sc tk]) (use 1 in simp)
      have "length (fmt_tokens (next_token s1)) \<le> length (fmt_tokens s)" using tokens_next [OF sc] tk by simp
      then have "unpacked_to (small_live rt s) s (unpack_object_loop n rt 0 False ks (next_token s1))"
        by (intro unpacked_after [OF reads_unpacks [OF rn] ob [OF next_token_scan(1) [OF sc] l]])
          (use live_values kn in \<open>auto simp: small_live_def keys_live_def\<close>)
      moreover have "unpacked_to (small_live rt s) s (Some (unpack_out ks (-1) (wrong_type ''object'' rt s1)))"
        by (rule unpacked_out [OF reads_unpacks [OF reads_trans [OF rd reads_steps(3) [OF sc]]], where n = 0]) (rule kn, simp)
      ultimately show ?thesis using 1 i Some by simp
    qed
  next
    case 2
    have l: "2 * length (fmt_tokens (next_token s)) + 3 \<le> n" by (rule len [OF _ s(1) refl]) (use 2 in simp)
    have "length (fmt_tokens (next_token s)) \<le> length (fmt_tokens s)" using tokens_next [OF s(1)] by simp
    then have "unpacked_to (small_live rt s) s (unpack_array_loop n rt 0 0 (next_token s))"
      by (intro unpacked_after [OF reads_unpacks [OF reads_steps(5) [OF s(1)]] ar [OF next_token_scan(1) [OF s(1)] l]])
        (use live_values in \<open>auto simp: small_live_def\<close>)
    then show ?thesis using 2 s(1) by (simp add: unpacked_reads)
  next
    case 3
    obtain r s' where u: "unpack_scalar rt s = (r, s')" by force
    have "unpacks (small_live rt s) s s'" by (rule unpacks_weaken [OF unpack_scalar_unpacks [OF s(1) u]]) (simp add: small_live_def)
    then show ?thesis using 3 u by (simp add: unpacked_to_def)
  qed
qed

lemma unpack_ends_all:
  "(\<forall>rt s. scanning s \<longrightarrow> 2 * length (fmt_tokens s) + 2 \<le> n \<longrightarrow> unpacked_to (small_live rt s) s (unpack n rt s)) \<and>
   (\<forall>rt strict gotopt key_set s. scanning s \<longrightarrow> 2 * length (fmt_tokens s) + 3 \<le> n \<longrightarrow>
      unpacked_to (keys_live rt key_set s) s (unpack_object_loop n rt strict gotopt key_set s)) \<and>
   (\<forall>rt i strict s. scanning s \<longrightarrow> 2 * length (fmt_tokens s) + 3 \<le> n \<longrightarrow> unpacked_to (small_live rt s) s (unpack_array_loop n rt i strict s))"
proof (induction n)
  case (Suc n)
  note IH = Suc.IH [THEN conjunct1, rule_format] Suc.IH [THEN conjunct2, THEN conjunct1, rule_format] Suc.IH [THEN conjunct2, THEN conjunct2, rule_format]
  show ?case
  proof (intro conjI allI impI)
    fix rt and s :: packer assume "scanning s" "2 * length (fmt_tokens s) + 2 \<le> Suc n"
    then show "unpacked_to (small_live rt s) s (unpack (Suc n) rt s)" by (rule unpack_ends_step) (rule IH(2,3); assumption)+
  next
    fix rt strict gotopt key_set and s :: packer assume s: "scanning s" "2 * length (fmt_tokens s) + 3 \<le> Suc n"
    show "unpacked_to (keys_live rt key_set s) s (unpack_object_loop (Suc n) rt strict gotopt key_set s)"
      by (rule unpack_object_round [OF s(1)]) (rule IH(1,2), assumption, use s(2) in linarith)+
  next
    fix rt i strict and s :: packer assume s: "scanning s" "2 * length (fmt_tokens s) + 3 \<le> Suc n"
    show "unpacked_to (small_live rt s) s (unpack_array_loop (Suc n) rt i strict s)"
    proof (cases "token s = 0")
      case True
      then show ?thesis using s(1) by (auto simp: unpacked_reads simp del: cstr_Cons)
    next
      case False
      then show ?thesis by (rule unpack_array_round [OF s(1)]) (rule IH(1,3), use s in simp, use s(2) in linarith)+
    qed
  qed
qed simp

text \<open>
  C28: unpacking ends and changes no value.  For every format string, also one that is malformed or does not fit the value, and every list of arguments,
  \<^verbatim>\<open>json_vunpack_ex\<close> returns.  Unless the arguments do not match the format, every value of the heap has the data it had, and the counts are exact:
  the caller has one more reference to each value unpacked by \<^verbatim>\<open>O\<close>, also when unpacking fails later, and the table of accessed keys is gone.
\<close>

theorem json_vunpack_ex_reads_only:
  assumes "rc_inv {} E w" "p \<in> dom (w_heap w)" "0 \<notin> set fmt" "length fmt < 2 ^ 31"
  shows "\<exists>r s. json_vunpack_ex (Some p) error flags (Some fmt) args w = Some (r, s) \<and>
    (\<not> pk_undefined s \<longrightarrow> rc_inv {} (E + mset (pk_kept s)) (pk_world s) \<and> (\<forall>q. data_at (pk_world s) q = data_at w q))"
proof (cases fmt)
  case Nil
  then show ?thesis using assms(1) by (simp add: json_vunpack_ex_def scanner_init_def)
next
  case (Cons c cs)
  define s0 where "s0 = next_token (scanner_init (jsonp_error_init error None) flags fmt args w)"
  have f: "scanning s0" "length (fmt_tokens s0) \<le> length fmt" using scanner_starts [OF assms(3)] Cons by (simp_all add: s0_def)
  have i: "pk_world s0 = w" "pk_kept s0 = []" by (simp_all add: s0_def scanner_init_def)
  have "unpacked_to (small_live (Some p) s0) s0 (unpack (pack_fuel fmt) (Some p) s0)" using unpack_ends_all f by (simp add: pack_fuel_def)
  then obtain r s where u: "unpack (pack_fuel fmt) (Some p) s0 = Some (r, s)" "unpacks (small_live (Some p) s0) s0 s" by (auto simp: unpacked_to_def)
  have "length (fmt_tokens s0) < 2 ^ 31" using f(2) assms(4) by linarith
  then have "small_live (Some p) s0 w" using assms(2) by (simp add: small_live_def live_def)
  then have k: "\<not> pk_undefined s \<longrightarrow> rc_inv {} (E + mset (pk_kept s)) (pk_world s) \<and> (\<forall>q. data_at (pk_world s) q = data_at w q)"
    using u(2) assms(1) i by (auto simp: unpacks_def same_values_def)
  have "json_vunpack_ex (Some p) error flags (Some fmt) args w =
      (if r \<noteq> 0 then Some (-1, s)
       else if token (next_token s) \<noteq> 0 then
         Some (-1, set_error ''<format>'' json_error_invalid_format (cstr ''Garbage after format string'') (next_token s))
       else Some (0, next_token s))"
    using u(1) by (simp add: json_vunpack_ex_def Cons s0_def Let_def del: cstr_Cons)
  then show ?thesis using k by (simp add: set_error_def del: cstr_Cons)
qed

text \<open>The integer of one cell, with a reference to it that is kept.\<close>

theorem json_vunpack_ex_reads_only_witness:
  "\<exists>r s. json_vunpack_ex (Some 4) None 0 (Some (cstr ''O'')) [A_var (Some 9)] one_integer = Some (r, s) \<and>
     (\<not> pk_undefined s \<longrightarrow> rc_inv {} ({#4#} + mset (pk_kept s)) (pk_world s) \<and> (\<forall>q. data_at (pk_world s) q = data_at one_integer q))"
proof -
  have inv: "rc_inv {} {#4#} one_integer" by (rule run_inv [OF one_integer_run])
  then have "4 \<in> dom (w_heap one_integer)" using rc_invD(9) [OF inv] by simp
  from json_vunpack_ex_reads_only [OF inv this, of "cstr ''O''" None 0 "[A_var (Some 9)]"] show ?thesis by simp
qed

end
