(* ===== verification/Locked_Queue.thy ===== *)
theory Locked_Queue
  imports Main
begin

text \<open>
  \<^verbatim>\<open>queue.h\<close>: the queue between the game thread and the event loop.  The mutex is the
  thread that holds it; \<^verbatim>\<open>Lock\<close> is enabled when nobody does.  \<^verbatim>\<open>Pop\<close> of an empty
  \<^verbatim>\<open>std::queue\<close> is undefined, here \<^const>\<open>None\<close>.
\<close>

datatype thread = Game_Thread | Loop_Thread

record 'a LockedQueue =
  lq_mutex :: "thread option"
  lq_queue :: "'a list"

definition LockedQueue_new :: "'a LockedQueue" where
  "LockedQueue_new = \<lparr>lq_mutex = None, lq_queue = []\<rparr>"

definition Lock :: "thread \<Rightarrow> 'a LockedQueue \<Rightarrow> 'a LockedQueue option" where
  "Lock t q = (case lq_mutex q of None \<Rightarrow> Some (q\<lparr>lq_mutex := Some t\<rparr>) | Some _ \<Rightarrow> None)"

definition Unlock :: "'a LockedQueue \<Rightarrow> 'a LockedQueue" where
  "Unlock q = q\<lparr>lq_mutex := None\<rparr>"

definition Pop :: "'a LockedQueue \<Rightarrow> ('a \<times> 'a LockedQueue) option" where
  "Pop q = (case lq_queue q of [] \<Rightarrow> None | x # xs \<Rightarrow> Some (x, q\<lparr>lq_queue := xs\<rparr>))"

definition Push :: "'a \<Rightarrow> 'a LockedQueue \<Rightarrow> 'a LockedQueue" where
  "Push x q = q\<lparr>lq_queue := lq_queue q @ [x]\<rparr>"

definition Empty :: "'a LockedQueue \<Rightarrow> bool" where
  "Empty q \<longleftrightarrow> lq_queue q = []"

section \<open>The contract of a first-in first-out queue\<close>

locale fifo_queue =
  fixes contents :: "'q \<Rightarrow> 'a list"
    and new :: 'q
    and push :: "'a \<Rightarrow> 'q \<Rightarrow> 'q"
    and pop :: "'q \<Rightarrow> ('a \<times> 'q) option"
    and empty :: "'q \<Rightarrow> bool"
  assumes contents_new: "contents new = []"
    and contents_push: "contents (push x q) = contents q @ [x]"
    and pop_Cons: "contents q = x # xs \<Longrightarrow> \<exists>q'. pop q = Some (x, q') \<and> contents q' = xs"
    and empty_iff: "empty q \<longleftrightarrow> contents q = []"
begin

fun push_all :: "'a list \<Rightarrow> 'q \<Rightarrow> 'q" where
  "push_all [] q = q"
| "push_all (x # xs) q = push_all xs (push x q)"

fun pop_n :: "nat \<Rightarrow> 'q \<Rightarrow> 'a list \<times> 'q" where
  "pop_n 0 q = ([], q)"
| "pop_n (Suc n) q =
     (case pop q of None \<Rightarrow> ([], q) | Some (x, q') \<Rightarrow> (let (xs, q'') = pop_n n q' in (x # xs, q'')))"

lemma contents_push_all: "contents (push_all xs q) = contents q @ xs"
  by (induction xs arbitrary: q) (simp_all add: contents_push)

lemma pop_n_take:
  "n \<le> length (contents q) \<Longrightarrow> fst (pop_n n q) = take n (contents q) \<and> contents (snd (pop_n n q)) = drop n (contents q)"
proof (induction n arbitrary: q)
  case 0
  then show ?case by simp
next
  case (Suc n)
  then obtain x xs where c: "contents q = x # xs" by (cases "contents q") auto
  obtain q' where q': "pop q = Some (x, q')" "contents q' = xs" using pop_Cons [OF c] by blast
  then show ?case using Suc c by (simp split: prod.splits) (metis fst_conv snd_conv)
qed

lemma order_kept: "fst (pop_n (length xs) (push_all xs new)) = xs"
  using pop_n_take [of "length xs" "push_all xs new"] by (simp add: contents_push_all contents_new)

lemma pop_defined: "\<not> empty q \<Longrightarrow> pop q \<noteq> None"
  by (cases "contents q") (auto simp: empty_iff dest!: pop_Cons)

end

interpretation lq: fifo_queue lq_queue LockedQueue_new Push Pop Empty
  by unfold_locales (auto simp: LockedQueue_new_def Push_def Pop_def Empty_def)

lemma Push_mutex [simp]: "lq_mutex (Push x q) = lq_mutex q"
  by (simp add: Push_def)

lemma Pop_mutex: "Pop q = Some (x, q') \<Longrightarrow> lq_mutex q' = lq_mutex q"
  by (auto simp: Pop_def split: list.splits)

text \<open>Two threads never hold the mutex at the same time.\<close>

lemma Lock_exclusive: "Lock t q = Some q' \<Longrightarrow> Lock u q' = None"
  by (auto simp: Lock_def split: option.splits)

end
