(* ===== verification/Http_Context.thy ===== *)
theory Http_Context
  imports Json_Dump_Correct
begin

text \<open>
  The contexts of HTTP transfers: \<^verbatim>\<open>httprequestcontext.cpp\<close>, \<^verbatim>\<open>httpfilecontext.cpp\<close>,
  \<^verbatim>\<open>httpformcontext.cpp\<close> and \<^verbatim>\<open>struct HTTPResponse\<close> of \<^verbatim>\<open>extension.h\<close>.  libcurl, the file
  system and SourceMod are parameters: what \<^verbatim>\<open>curl_easy_init\<close>, \<^verbatim>\<open>fopen\<close>, \<^verbatim>\<open>fstat\<close>,
  \<^verbatim>\<open>GetFunctionCount\<close>, \<^verbatim>\<open>CreateHandleEx\<close> answer, and what the plugin's callback does to the
  response.  The calls a method makes on them are values of \<^verbatim>\<open>curl_opt\<close> and \<^verbatim>\<open>effect\<close>.
\<close>

section \<open>Machine sizes\<close>

definition size_mul :: "nat \<Rightarrow> nat \<Rightarrow> nat" where
  "size_mul a b = (a * b) mod 2 ^ 64"

definition size_add :: "nat \<Rightarrow> nat \<Rightarrow> nat" where
  "size_add a b = (a + b) mod 2 ^ 64"

text \<open>\<^verbatim>\<open>(curl_off_t)\<close> of a \<^verbatim>\<open>size_t\<close>.\<close>

definition off_of_size :: "nat \<Rightarrow> int" where
  "off_of_size n = sint (of_nat n :: 64 word)"

lemma size_ops_small [simp]:
  "a + b < 2 ^ 64 \<Longrightarrow> size_add a b = a + b" "a * b < 2 ^ 64 \<Longrightarrow> size_mul a b = a * b"
  by (simp_all add: size_add_def size_mul_def)

section \<open>What is asked of libcurl\<close>

datatype curl_callback =
    ReadRequestBody_cb
  | WriteResponseBody_cb
  | ReceiveResponseHeader_cb
  | IgnoreResponseBody_cb
  | fread_cb
  | fwrite_cb

text \<open>What a \<^verbatim>\<open>DATA\<close> option points to: the context, its response or its file.\<close>

datatype curl_data = this_context | this_response | this_file

datatype curl_opt =
    CURLOPT_POST int
  | CURLOPT_POSTFIELDSIZE_LARGE int
  | CURLOPT_POSTFIELDS "byte list"
  | CURLOPT_UPLOAD int
  | CURLOPT_INFILESIZE_LARGE int
  | CURLOPT_CUSTOMREQUEST "byte list"
  | CURLOPT_ACCEPT_ENCODING "byte list"
  | CURLOPT_CAINFO "byte list"
  | CURLOPT_CONNECTTIMEOUT int
  | CURLOPT_ERRORBUFFER
  | CURLOPT_FOLLOWLOCATION int
  | CURLOPT_HEADERDATA curl_data
  | CURLOPT_HEADERFUNCTION curl_callback
  | CURLOPT_HTTPHEADER "byte list list"
  | CURLOPT_MAXREDIRS int
  | CURLOPT_NOSIGNAL int
  | CURLOPT_PIPEWAIT int
  | CURLOPT_PRIVATE curl_data
  | CURLOPT_READDATA curl_data
  | CURLOPT_READFUNCTION curl_callback
  | CURLOPT_TIMEOUT int
  | CURLOPT_URL "byte list"
  | CURLOPT_USERAGENT "byte list"
  | CURLOPT_WRITEDATA curl_data
  | CURLOPT_WRITEFUNCTION curl_callback
  | CURLOPT_MAX_RECV_SPEED_LARGE int
  | CURLOPT_MAX_SEND_SPEED_LARGE int
  | CURLOPT_USERNAME "byte list"
  | CURLOPT_PASSWORD "byte list"

text \<open>
  The field \<^verbatim>\<open>CURL *curl\<close>: not assigned before \<^verbatim>\<open>InitCurl\<close>, the null pointer, or an easy
  handle with the options set on it in order.
\<close>

datatype curl_ptr = Curl_Unset | Curl_NULL | Curl_Easy "curl_opt list"

section \<open>What is asked of SourceMod and the C library\<close>

datatype effect =
    LogError "byte list"
  | Forward_Execute nat "int list" "byte list"
  | ReleaseForward nat
  | FreeHandle nat
  | curl_easy_cleanup curl_ptr
  | curl_slist_free_all "byte list list"
  | free_body "byte list option"
  | free_response_body "byte list option"
  | fclose_file

section \<open>Responses\<close>

type_synonym HTTPHeaderMap = "byte list \<rightharpoonup> byte list"

definition BAD_HANDLE :: nat where "BAD_HANDLE = 0"

record HTTPResponse =
  rs_status :: int
  rs_data :: "ptr option"
  rs_hndlData :: nat
  rs_headers :: HTTPHeaderMap
  rs_body :: "byte list option"
  rs_size :: nat

definition HTTPResponse_new :: HTTPResponse where
  "HTTPResponse_new =
     \<lparr>rs_status = 0, rs_data = None, rs_hndlData = BAD_HANDLE, rs_headers = Map.empty, rs_body = None, rs_size = 0\<rparr>"

text \<open>
  \<^verbatim>\<open>realloc\<close> of a block to \<^term>\<open>n\<close> bytes: the old bytes, then bytes of unspecified value
  (here zero).  \<^verbatim>\<open>WriteResponseBody\<close> gives \<^const>\<open>None\<close> where it would write outside the block.
\<close>

definition realloc_block :: "byte list option \<Rightarrow> nat \<Rightarrow> byte list" where
  "realloc_block blk n = (let old = (case blk of None \<Rightarrow> [] | Some b \<Rightarrow> b) in take n old @ replicate (n - length old) 0)"

definition WriteResponseBody ::
  "bool \<Rightarrow> byte list \<Rightarrow> nat \<Rightarrow> nat \<Rightarrow> HTTPResponse \<Rightarrow> (nat \<times> HTTPResponse) option" where
  "WriteResponseBody realloc_ok body sz nmemb response =
     (let total = size_mul sz nmemb;
          n = size_add (size_add (rs_size response) total) 1
      in if \<not> realloc_ok then Some (0, response)
         else
           let temp = realloc_block (rs_body response) n;
               new_size = size_add (rs_size response) total
           in if rs_size response + total \<le> length temp \<and> new_size < length temp then
                Some (total, response\<lparr>rs_body := Some ((mem_write temp (rs_size response) (take total body))[new_size := 0]),
                                      rs_size := new_size\<rparr>)
              else None)"

definition CURL_MAX_HTTP_HEADER :: nat where "CURL_MAX_HTTP_HEADER = 102400"

definition tolower :: "byte \<Rightarrow> byte" where
  "tolower b = (if 65 \<le> uint b \<and> uint b \<le> 90 then to_byte (uint b + 32) else b)"

text \<open>\<^verbatim>\<open>strstr(header, ": ")\<close> as an offset.\<close>

fun find_colon_space :: "byte list \<Rightarrow> nat option" where
  "find_colon_space (a # b # s) = (if a = 58 \<and> b = 32 then Some 0 else map_option Suc (find_colon_space (b # s)))"
| "find_colon_space _ = None"

text \<open>
  \<^verbatim>\<open>ReceiveResponseHeader\<close>: \<^term>\<open>buffer\<close> holds the bytes of the header line and
  \<^term>\<open>beyond\<close> the memory after it, which \<^verbatim>\<open>strncat\<close> reads when \<^verbatim>\<open>total - 2\<close> wraps around.
  \<^const>\<open>None\<close> is the overflow of the array \<^verbatim>\<open>header\<close>.
\<close>

definition ReceiveResponseHeader ::
  "byte list \<Rightarrow> byte list \<Rightarrow> nat \<Rightarrow> nat \<Rightarrow> HTTPResponse \<Rightarrow> (nat \<times> HTTPResponse) option" where
  "ReceiveResponseHeader buffer beyond sz nmemb response =
     (let total = size_mul sz nmemb;
          header = c_string (take (size_sub total 2) (buffer @ beyond))
      in if CURL_MAX_HTTP_HEADER \<le> length header then None
         else
           case find_colon_space header of
             None \<Rightarrow> Some (total, response)
           | Some i \<Rightarrow>
               let name = map tolower (take i header);
                   val = drop (i + 2) header
               in Some (total, response\<lparr>rs_headers := (rs_headers response)(name \<mapsto> val)\<rparr>))"

definition IgnoreResponseBody :: "byte list \<Rightarrow> nat \<Rightarrow> nat \<Rightarrow> nat" where
  "IgnoreResponseBody body sz nmemb = size_mul sz nmemb"

section \<open>Contexts\<close>

text \<open>
  The fields the three context classes have in common, over \<^verbatim>\<open>curl\<close> of \<^verbatim>\<open>IHTTPContext\<close>.
  A forward is its identity, a cell an integer.
\<close>

record HTTPContext_base =
  cx_curl :: curl_ptr
  cx_url :: "byte list"
  cx_headers :: "byte list list"
  cx_forward :: nat
  cx_value :: int
  cx_error :: "byte list"
  cx_connectTimeout :: int
  cx_maxRedirects :: int
  cx_timeout :: int
  cx_maxSendSpeed :: int
  cx_maxRecvSpeed :: int
  cx_useBasicAuth :: bool
  cx_username :: "byte list"
  cx_password :: "byte list"

record HTTPRequestContext = HTTPContext_base +
  rq_body :: "byte list option"
  rq_pos :: nat
  rq_size :: nat
  rq_response :: HTTPResponse
  rq_method :: "byte list"

record HTTPFileContext = HTTPContext_base +
  fc_file :: bool
  fc_isUpload :: bool
  fc_path :: "byte list"

record HTTPFormContext = HTTPContext_base +
  fm_response :: HTTPResponse
  fm_formData :: "byte list"

text \<open>The options of a transfer that a client or request object passes to a constructor.\<close>

record transfer_options =
  to_connectTimeout :: int
  to_maxRedirects :: int
  to_timeout :: int
  to_maxSendSpeed :: int
  to_maxRecvSpeed :: int
  to_useBasicAuth :: bool
  to_username :: "byte list"
  to_password :: "byte list"

definition HTTPRequestContext_new ::
  "byte \<Rightarrow> byte list \<Rightarrow> byte list \<Rightarrow> ptr option \<Rightarrow> byte list list \<Rightarrow> nat \<Rightarrow> int \<Rightarrow> transfer_options \<Rightarrow>
   world \<Rightarrow> HTTPRequestContext \<times> world" where
  "HTTPRequestContext_new point method url data headers forward v opts w =
     (let ctx = \<lparr>cx_curl = Curl_Unset, cx_url = url, cx_headers = headers, cx_forward = forward, cx_value = v,
                 cx_error = [], cx_connectTimeout = to_connectTimeout opts, cx_maxRedirects = to_maxRedirects opts,
                 cx_timeout = to_timeout opts, cx_maxSendSpeed = to_maxSendSpeed opts,
                 cx_maxRecvSpeed = to_maxRecvSpeed opts, cx_useBasicAuth = to_useBasicAuth opts,
                 cx_username = to_username opts, cx_password = to_password opts,
                 rq_body = None, rq_pos = 0, rq_size = 0, rq_response = HTTPResponse_new, rq_method = method\<rparr>
      in case data of
           None \<Rightarrow> (ctx, w)
         | Some _ \<Rightarrow>
             (case json_dumps point data 0 w of
                (body, w') \<Rightarrow>
                  (ctx\<lparr>rq_body := body, rq_size := (case body of None \<Rightarrow> 0 | Some b \<Rightarrow> length b)\<rparr>, w')))"

definition HTTPFileContext_new ::
  "bool \<Rightarrow> byte list \<Rightarrow> byte list \<Rightarrow> byte list list \<Rightarrow> nat \<Rightarrow> int \<Rightarrow> transfer_options \<Rightarrow> HTTPFileContext" where
  "HTTPFileContext_new isUpload url path headers forward v opts =
     \<lparr>cx_curl = Curl_Unset, cx_url = url, cx_headers = headers, cx_forward = forward, cx_value = v,
      cx_error = [], cx_connectTimeout = to_connectTimeout opts, cx_maxRedirects = to_maxRedirects opts,
      cx_timeout = to_timeout opts, cx_maxSendSpeed = to_maxSendSpeed opts,
      cx_maxRecvSpeed = to_maxRecvSpeed opts, cx_useBasicAuth = to_useBasicAuth opts,
      cx_username = to_username opts, cx_password = to_password opts,
      fc_file = False, fc_isUpload = isUpload, fc_path = path\<rparr>"

definition HTTPFormContext_new ::
  "byte list \<Rightarrow> byte list \<Rightarrow> byte list list \<Rightarrow> nat \<Rightarrow> int \<Rightarrow> transfer_options \<Rightarrow> HTTPFormContext" where
  "HTTPFormContext_new url formData headers forward v opts =
     \<lparr>cx_curl = Curl_Unset, cx_url = url, cx_headers = headers, cx_forward = forward, cx_value = v,
      cx_error = [], cx_connectTimeout = to_connectTimeout opts, cx_maxRedirects = to_maxRedirects opts,
      cx_timeout = to_timeout opts, cx_maxSendSpeed = to_maxSendSpeed opts,
      cx_maxRecvSpeed = to_maxRecvSpeed opts, cx_useBasicAuth = to_useBasicAuth opts,
      cx_username = to_username opts, cx_password = to_password opts,
      fm_response = HTTPResponse_new, fm_formData = formData\<rparr>"

text \<open>\<^verbatim>\<open>ReadRequestBody\<close>: the bytes copied to the buffer, the value returned, the context after it.\<close>

definition ReadRequestBody ::
  "nat \<Rightarrow> nat \<Rightarrow> HTTPRequestContext \<Rightarrow> byte list \<times> nat \<times> HTTPRequestContext" where
  "ReadRequestBody sz nmemb context =
     (let total = size_mul sz nmemb;
          left = size_sub (rq_size context) (rq_pos context);
          to_copy = (if left < total then left else total)
      in (take to_copy (drop (rq_pos context) (case rq_body context of None \<Rightarrow> [] | Some b \<Rightarrow> b)), to_copy,
          context\<lparr>rq_pos := size_add (rq_pos context) to_copy\<rparr>))"

section \<open>Setting up a transfer\<close>

definition SM_RIPEXT_USER_AGENT :: "byte list" where
  "SM_RIPEXT_USER_AGENT = cstr ''sm-ripext/1.3.2''"

text \<open>The options at the end of every \<^verbatim>\<open>InitCurl\<close>: speed limits and authentication.\<close>

definition limit_options :: "'a HTTPContext_base_scheme \<Rightarrow> curl_opt list" where
  "limit_options c =
     (if cx_maxRecvSpeed c > 0 then [CURLOPT_MAX_RECV_SPEED_LARGE (cx_maxRecvSpeed c)] else []) @
     (if cx_maxSendSpeed c > 0 then [CURLOPT_MAX_SEND_SPEED_LARGE (cx_maxSendSpeed c)] else []) @
     (if cx_useBasicAuth c then [CURLOPT_USERNAME (c_string (cx_username c)), CURLOPT_PASSWORD (c_string (cx_password c))]
      else [])"

definition method_options :: "HTTPRequestContext \<Rightarrow> curl_opt list" where
  "method_options c =
     (if rq_method c = cstr ''POST'' then
        [CURLOPT_POST 1, CURLOPT_POSTFIELDSIZE_LARGE (off_of_size (rq_size c))]
      else if rq_method c = cstr ''PUT'' then
        [CURLOPT_UPLOAD 1, CURLOPT_INFILESIZE_LARGE (off_of_size (rq_size c))]
      else if rq_method c = cstr ''PATCH'' then
        [CURLOPT_CUSTOMREQUEST (c_string (rq_method c)), CURLOPT_POST 1,
         CURLOPT_POSTFIELDSIZE_LARGE (off_of_size (rq_size c))]
      else if rq_method c = cstr ''DELETE'' then
        [CURLOPT_CUSTOMREQUEST (c_string (rq_method c))]
      else [])"

definition HTTPRequestContext_InitCurl ::
  "bool \<Rightarrow> byte list \<Rightarrow> HTTPRequestContext \<Rightarrow> bool \<times> HTTPRequestContext \<times> effect list" where
  "HTTPRequestContext_InitCurl easy_init caBundlePath c =
     (if \<not> easy_init then
        (False, c\<lparr>cx_curl := Curl_NULL\<rparr>, [LogError (cstr ''Could not initialize cURL session.'')])
      else
        (True, c\<lparr>cx_curl := Curl_Easy (method_options c @
           [CURLOPT_ACCEPT_ENCODING [], CURLOPT_CAINFO caBundlePath, CURLOPT_CONNECTTIMEOUT (cx_connectTimeout c),
            CURLOPT_ERRORBUFFER, CURLOPT_FOLLOWLOCATION 1, CURLOPT_HEADERDATA this_response,
            CURLOPT_HEADERFUNCTION ReceiveResponseHeader_cb, CURLOPT_HTTPHEADER (cx_headers c),
            CURLOPT_MAXREDIRS (cx_maxRedirects c), CURLOPT_NOSIGNAL 1, CURLOPT_PIPEWAIT 1,
            CURLOPT_PRIVATE this_context, CURLOPT_READDATA this_context, CURLOPT_READFUNCTION ReadRequestBody_cb,
            CURLOPT_TIMEOUT (cx_timeout c), CURLOPT_URL (c_string (cx_url c)), CURLOPT_USERAGENT SM_RIPEXT_USER_AGENT,
            CURLOPT_WRITEDATA this_response, CURLOPT_WRITEFUNCTION WriteResponseBody_cb] @
           limit_options c)\<rparr>, []))"

text \<open>\<^verbatim>\<open>FileSize\<close>: the outcome of \<^verbatim>\<open>fstat\<close> is \<^const>\<open>None\<close> on failure.\<close>

definition FileSize :: "int option \<Rightarrow> int" where
  "FileSize stat_res = (case stat_res of None \<Rightarrow> -1 | Some st_size \<Rightarrow> st_size)"

text \<open>
  \<^term>\<open>fopen\<close> is the outcome of opening the path that SourceMod builds from \<^verbatim>\<open>path\<close>: the
  result of \<^verbatim>\<open>fstat\<close> on the opened file, or \<^const>\<open>None\<close> if it does not open.
\<close>

definition HTTPFileContext_InitCurl ::
  "bool \<Rightarrow> byte list \<Rightarrow> int option option \<Rightarrow> HTTPFileContext \<Rightarrow> bool \<times> HTTPFileContext \<times> effect list" where
  "HTTPFileContext_InitCurl easy_init caBundlePath fopen c =
     (if \<not> easy_init then
        (False, c\<lparr>cx_curl := Curl_NULL\<rparr>, [LogError (cstr ''Could not initialize cURL session.'')])
      else
        case fopen of
          None \<Rightarrow>
            (False, c\<lparr>cx_curl := Curl_Easy [], fc_file := False\<rparr>,
             [LogError (cstr ''Could not open file '' @ c_string (fc_path c) @ cstr ''.'')])
        | Some stat_res \<Rightarrow>
            (True, c\<lparr>fc_file := True, cx_curl := Curl_Easy (
              (if fc_isUpload c then
                 [CURLOPT_READDATA this_file, CURLOPT_READFUNCTION fread_cb, CURLOPT_UPLOAD 1,
                  CURLOPT_WRITEFUNCTION IgnoreResponseBody_cb, CURLOPT_INFILESIZE_LARGE (FileSize stat_res)]
               else [CURLOPT_WRITEDATA this_file, CURLOPT_WRITEFUNCTION fwrite_cb]) @
              [CURLOPT_ACCEPT_ENCODING [], CURLOPT_CAINFO caBundlePath, CURLOPT_CONNECTTIMEOUT (cx_connectTimeout c),
               CURLOPT_ERRORBUFFER, CURLOPT_FOLLOWLOCATION 1, CURLOPT_HTTPHEADER (cx_headers c),
               CURLOPT_MAXREDIRS (cx_maxRedirects c), CURLOPT_NOSIGNAL 1, CURLOPT_PIPEWAIT 1,
               CURLOPT_PRIVATE this_context, CURLOPT_TIMEOUT (cx_timeout c), CURLOPT_URL (c_string (cx_url c)),
               CURLOPT_USERAGENT SM_RIPEXT_USER_AGENT] @
              limit_options c)\<rparr>, []))"

definition HTTPFormContext_InitCurl ::
  "bool \<Rightarrow> byte list \<Rightarrow> HTTPFormContext \<Rightarrow> bool \<times> HTTPFormContext \<times> effect list" where
  "HTTPFormContext_InitCurl easy_init caBundlePath c =
     (if \<not> easy_init then
        (False, c\<lparr>cx_curl := Curl_NULL\<rparr>, [LogError (cstr ''Could not initialize cURL session.'')])
      else
        (True, c\<lparr>cx_curl := Curl_Easy (
           [CURLOPT_ACCEPT_ENCODING [], CURLOPT_CAINFO caBundlePath, CURLOPT_CONNECTTIMEOUT (cx_connectTimeout c),
            CURLOPT_ERRORBUFFER, CURLOPT_FOLLOWLOCATION 1, CURLOPT_HEADERDATA this_response,
            CURLOPT_HEADERFUNCTION ReceiveResponseHeader_cb, CURLOPT_HTTPHEADER (cx_headers c),
            CURLOPT_MAXREDIRS (cx_maxRedirects c), CURLOPT_NOSIGNAL 1, CURLOPT_PIPEWAIT 1, CURLOPT_POST 1,
            CURLOPT_POSTFIELDS (c_string (fm_formData c)), CURLOPT_PRIVATE this_context,
            CURLOPT_TIMEOUT (cx_timeout c), CURLOPT_URL (c_string (cx_url c)), CURLOPT_USERAGENT SM_RIPEXT_USER_AGENT,
            CURLOPT_WRITEDATA this_response, CURLOPT_WRITEFUNCTION WriteResponseBody_cb] @
           limit_options c)\<rparr>, []))"

section \<open>Finishing a transfer\<close>

text \<open>
  What \<^verbatim>\<open>OnCompleted\<close> meets: the number of functions left in the forward, the response
  code, the handle that \<^verbatim>\<open>CreateHandleEx\<close> makes and its error code, and what the plugin
  does to the response while its callback runs.
\<close>

record completion_env =
  ce_function_count :: nat
  ce_response_code :: int
  ce_handle :: nat
  ce_handle_error :: int
  ce_callback :: "HTTPResponse \<Rightarrow> HTTPResponse"

definition complete_response ::
  "completion_env \<Rightarrow> 'a HTTPContext_base_scheme \<Rightarrow> HTTPResponse \<Rightarrow> HTTPResponse \<times> effect list" where
  "complete_response env c response =
     (if ce_function_count env = 0 then (response, [])
      else
        let response = response\<lparr>rs_status := ce_response_code env\<rparr> in
        if ce_handle env = BAD_HANDLE then
          (response, [LogError (cstr ''Could not create HTTP response handle (error '' @
                                fmt_d (ce_handle_error env) @ cstr '')'')])
        else
          let response' = ce_callback env response in
          (response',
           [Forward_Execute (cx_forward c) [int (ce_handle env), cx_value c] (cx_error c),
            FreeHandle (ce_handle env), FreeHandle (rs_hndlData response')]))"

definition HTTPRequestContext_OnCompleted ::
  "completion_env \<Rightarrow> HTTPRequestContext \<Rightarrow> HTTPRequestContext \<times> effect list" where
  "HTTPRequestContext_OnCompleted env c =
     (case complete_response env c (rq_response c) of (response, es) \<Rightarrow> (c\<lparr>rq_response := response\<rparr>, es))"

definition HTTPFormContext_OnCompleted ::
  "completion_env \<Rightarrow> HTTPFormContext \<Rightarrow> HTTPFormContext \<times> effect list" where
  "HTTPFormContext_OnCompleted env c =
     (case complete_response env c (fm_response c) of (response, es) \<Rightarrow> (c\<lparr>fm_response := response\<rparr>, es))"

definition HTTPFileContext_OnCompleted ::
  "completion_env \<Rightarrow> HTTPFileContext \<Rightarrow> HTTPFileContext \<times> effect list" where
  "HTTPFileContext_OnCompleted env c =
     (if ce_function_count env = 0 then (c, [fclose_file])
      else (c, [fclose_file, Forward_Execute (cx_forward c) [ce_response_code env, cx_value c] (cx_error c)]))"

definition HTTPRequestContext_destroy :: "HTTPRequestContext \<Rightarrow> effect list" where
  "HTTPRequestContext_destroy c =
     [ReleaseForward (cx_forward c), curl_easy_cleanup (cx_curl c), curl_slist_free_all (cx_headers c),
      free_body (rq_body c), free_response_body (rs_body (rq_response c))]"

definition HTTPFileContext_destroy :: "HTTPFileContext \<Rightarrow> effect list" where
  "HTTPFileContext_destroy c =
     [ReleaseForward (cx_forward c), curl_easy_cleanup (cx_curl c), curl_slist_free_all (cx_headers c)]"

definition HTTPFormContext_destroy :: "HTTPFormContext \<Rightarrow> effect list" where
  "HTTPFormContext_destroy c =
     [ReleaseForward (cx_forward c), curl_easy_cleanup (cx_curl c), curl_slist_free_all (cx_headers c),
      free_response_body (rs_body (fm_response c))]"

section \<open>The interface \<open>IHTTPContext\<close>\<close>

datatype IHTTPContext =
    Request_Context HTTPRequestContext
  | File_Context HTTPFileContext
  | Form_Context HTTPFormContext

text \<open>What \<^verbatim>\<open>InitCurl\<close> meets: whether \<^verbatim>\<open>curl_easy_init\<close> gives a handle, and the file.\<close>

record init_env =
  ie_easy_init :: bool
  ie_caBundlePath :: "byte list"
  ie_fopen :: "int option option"

fun InitCurl :: "init_env \<Rightarrow> IHTTPContext \<Rightarrow> bool \<times> IHTTPContext \<times> effect list" where
  "InitCurl env (Request_Context c) =
     (case HTTPRequestContext_InitCurl (ie_easy_init env) (ie_caBundlePath env) c of
        (ok, c', es) \<Rightarrow> (ok, Request_Context c', es))"
| "InitCurl env (File_Context c) =
     (case HTTPFileContext_InitCurl (ie_easy_init env) (ie_caBundlePath env) (ie_fopen env) c of
        (ok, c', es) \<Rightarrow> (ok, File_Context c', es))"
| "InitCurl env (Form_Context c) =
     (case HTTPFormContext_InitCurl (ie_easy_init env) (ie_caBundlePath env) c of
        (ok, c', es) \<Rightarrow> (ok, Form_Context c', es))"

fun OnCompleted :: "completion_env \<Rightarrow> IHTTPContext \<Rightarrow> IHTTPContext \<times> effect list" where
  "OnCompleted env (Request_Context c) =
     (case HTTPRequestContext_OnCompleted env c of (c', es) \<Rightarrow> (Request_Context c', es))"
| "OnCompleted env (File_Context c) =
     (case HTTPFileContext_OnCompleted env c of (c', es) \<Rightarrow> (File_Context c', es))"
| "OnCompleted env (Form_Context c) =
     (case HTTPFormContext_OnCompleted env c of (c', es) \<Rightarrow> (Form_Context c', es))"

fun destroy :: "IHTTPContext \<Rightarrow> effect list" where
  "destroy (Request_Context c) = HTTPRequestContext_destroy c"
| "destroy (File_Context c) = HTTPFileContext_destroy c"
| "destroy (Form_Context c) = HTTPFormContext_destroy c"

fun ctx_curl :: "IHTTPContext \<Rightarrow> curl_ptr" where
  "ctx_curl (Request_Context c) = cx_curl c"
| "ctx_curl (File_Context c) = cx_curl c"
| "ctx_curl (Form_Context c) = cx_curl c"

fun ctx_forward :: "IHTTPContext \<Rightarrow> nat" where
  "ctx_forward (Request_Context c) = cx_forward c"
| "ctx_forward (File_Context c) = cx_forward c"
| "ctx_forward (Form_Context c) = cx_forward c"

section \<open>The body of a request is sent completely\<close>

definition rq_wf :: "HTTPRequestContext \<Rightarrow> bool" where
  "rq_wf c \<longleftrightarrow> rq_pos c \<le> rq_size c \<and> rq_size c < 2 ^ 64 \<and>
     rq_size c = length (case rq_body c of None \<Rightarrow> [] | Some b \<Rightarrow> b)"

definition body_left :: "HTTPRequestContext \<Rightarrow> byte list" where
  "body_left c = drop (rq_pos c) (case rq_body c of None \<Rightarrow> [] | Some b \<Rightarrow> b)"

lemma ReadRequestBody_step:
  assumes "rq_wf c" "sz * nmemb < 2 ^ 64" "ReadRequestBody sz nmemb c = (out, n, c')"
  shows "rq_wf c' \<and> out = take (sz * nmemb) (body_left c) \<and> n = length out \<and>
    body_left c' = drop (sz * nmemb) (body_left c) \<and> rq_body c' = rq_body c"
proof -
  let ?b = "case rq_body c of None \<Rightarrow> [] | Some b \<Rightarrow> b"
  have len: "length (body_left c) = rq_size c - rq_pos c" using assms(1) by (simp add: rq_wf_def body_left_def)
  let ?k = "min (rq_size c - rq_pos c) (sz * nmemb)"
  have sub: "size_sub (rq_size c) (rq_pos c) = rq_size c - rq_pos c"
    using assms(1) by (intro size_sub_le) (auto simp: rq_wf_def SIZE_MAX_def)
  have add: "size_add (rq_pos c) ?k = rq_pos c + ?k" using assms(1) by (intro size_ops_small) (auto simp: rq_wf_def)
  have res: "out = take ?k (body_left c)" "n = ?k" "c' = c\<lparr>rq_pos := rq_pos c + ?k\<rparr>"
    using assms(2,3) sub add by (auto simp: ReadRequestBody_def Let_def body_left_def min_def split: if_splits)
  then have "out = take (sz * nmemb) (body_left c)" using len by (simp add: take_all_iff min_def)
  moreover have "body_left c' = drop (sz * nmemb) (body_left c)"
    using res(3) len by (auto simp: body_left_def min_def add.commute)
  ultimately show ?thesis using res len assms(1) by (auto simp: rq_wf_def)
qed

text \<open>libcurl asks for the body in pieces of sizes of its choice.\<close>

fun read_all :: "(nat \<times> nat) list \<Rightarrow> HTTPRequestContext \<Rightarrow> byte list \<times> HTTPRequestContext" where
  "read_all [] c = ([], c)"
| "read_all ((sz, nmemb) # asks) c =
     (case ReadRequestBody sz nmemb c of
        (out, n, c') \<Rightarrow> (case read_all asks c' of (outs, c'') \<Rightarrow> (out @ outs, c'')))"

lemma read_all_prefix:
  "rq_wf c \<Longrightarrow> list_all (\<lambda>(s, n). s * n < 2 ^ 64) asks \<Longrightarrow> read_all asks c = (out, c') \<Longrightarrow>
     out = take (\<Sum>(s, n) \<leftarrow> asks. s * n) (body_left c)"
proof (induction asks arbitrary: c out)
  case (Cons a asks)
  obtain s n where a: "a = (s, n)" by force
  obtain o1 k c1 where r: "ReadRequestBody s n c = (o1, k, c1)" by (metis surj_pair)
  note step = ReadRequestBody_step [OF Cons.prems(1) _ r]
  obtain o2 where o2: "read_all asks c1 = (o2, c')" "out = o1 @ o2"
    using Cons.prems(3) a r by (auto split: prod.splits)
  have "o2 = take (\<Sum>(s, n) \<leftarrow> asks. s * n) (body_left c1)"
    using Cons.IH [OF _ _ o2(1)] step Cons.prems(2) a by simp
  then show ?case using o2(2) step Cons.prems(2) a by (simp add: take_add)
qed simp

lemma HTTPRequestContext_new_wf:
  "HTTPRequestContext_new point method url data headers forward v opts w = (c, w') \<Longrightarrow>
     (case rq_body c of None \<Rightarrow> True | Some b \<Rightarrow> length b < 2 ^ 64) \<Longrightarrow> rq_wf c \<and> rq_pos c = 0"
  by (auto simp: HTTPRequestContext_new_def rq_wf_def Let_def split: option.splits prod.splits)

section \<open>The body of a response is received completely\<close>

definition rs_wf :: "HTTPResponse \<Rightarrow> bool" where
  "rs_wf r \<longleftrightarrow> (case rs_body r of None \<Rightarrow> rs_size r = 0
     | Some b \<Rightarrow> length b = rs_size r + 1 \<and> b ! rs_size r = 0)"

definition rs_content :: "HTTPResponse \<Rightarrow> byte list" where
  "rs_content r = take (rs_size r) (case rs_body r of None \<Rightarrow> [] | Some b \<Rightarrow> b)"

lemma WriteResponseBody_step:
  assumes wf: "rs_wf r" and len: "length chunk = sz * nmemb" and small: "rs_size r + length chunk + 1 < 2 ^ 64"
  shows "WriteResponseBody False chunk sz nmemb r = Some (0, r)"
    "\<exists>r'. WriteResponseBody True chunk sz nmemb r = Some (length chunk, r') \<and> rs_wf r' \<and>
       rs_content r' = rs_content r @ chunk \<and> rs_size r' = rs_size r + length chunk \<and> rs_headers r' = rs_headers r"
proof -
  show "WriteResponseBody False chunk sz nmemb r = Some (0, r)" by (simp add: WriteResponseBody_def Let_def)
  define old where "old = (case rs_body r of None \<Rightarrow> [] | Some b \<Rightarrow> b)"
  define k where "k = length chunk"
  define blk where "blk = realloc_block (rs_body r) (rs_size r + k + 1)"
  have ops: "size_mul sz nmemb = k" "size_add (rs_size r) k = rs_size r + k"
    "size_add (rs_size r + k) 1 = rs_size r + k + 1"
    using small len by (simp_all add: size_add_def size_mul_def k_def)
  have old: "length old \<le> rs_size r + 1" "rs_size r \<le> length old" "rs_content r = take (rs_size r) old"
    using wf by (auto simp: rs_wf_def old_def rs_content_def split: option.splits)
  then have blen: "length blk = rs_size r + k + 1" "take (rs_size r) blk = rs_content r"
    by (auto simp: blk_def realloc_block_def old_def [symmetric] Let_def take_append)
  define out where "out = (mem_write blk (rs_size r) chunk)[rs_size r + k := 0]"
  have "length (drop (rs_size r + k) blk) = Suc 0" using blen by simp
  then obtain y where y: "drop (rs_size r + k) blk = [y]" by (metis length_0_conv length_Suc_conv)
  then have pre: "mem_write blk (rs_size r) chunk = (rs_content r @ chunk) @ [y]"
    using blen by (simp add: mem_write_def k_def)
  have clen: "length (rs_content r @ chunk) = rs_size r + k" using old by (simp add: k_def)
  have out: "out = (rs_content r @ chunk) @ [0]"
    unfolding out_def pre using list_update_middle [of "rs_content r @ chunk" y "[]" 0] clen by simp
  let ?r = "r\<lparr>rs_body := Some out, rs_size := rs_size r + k\<rparr>"
  have "WriteResponseBody True chunk sz nmemb r = Some (k, ?r)"
    unfolding WriteResponseBody_def Let_def ops blk_def [symmetric] using blen by (simp add: out_def k_def)
  moreover have "rs_wf ?r" "rs_content ?r = rs_content r @ chunk"
    using out clen nth_append_length [of "rs_content r @ chunk" 0 "[]"]
    by (simp add: rs_wf_def, simp add: rs_content_def [of "r\<lparr>rs_body := _, rs_size := _\<rparr>"])
  ultimately show "\<exists>r'. WriteResponseBody True chunk sz nmemb r = Some (length chunk, r') \<and> rs_wf r' \<and>
       rs_content r' = rs_content r @ chunk \<and> rs_size r' = rs_size r + length chunk \<and> rs_headers r' = rs_headers r"
    using k_def by (intro exI [of _ ?r]) simp
qed

text \<open>The chunks of a transfer in the order libcurl delivers them, with enough memory.\<close>

fun write_all :: "byte list list \<Rightarrow> HTTPResponse \<Rightarrow> HTTPResponse option" where
  "write_all [] r = Some r"
| "write_all (chunk # chunks) r =
     (case WriteResponseBody True chunk 1 (length chunk) r of
        None \<Rightarrow> None
      | Some (n, r') \<Rightarrow> if n = length chunk then write_all chunks r' else Some r')"

lemma write_all_content:
  "rs_wf r \<Longrightarrow> rs_size r + length (concat chunks) + 1 < 2 ^ 64 \<Longrightarrow>
     \<exists>r'. write_all chunks r = Some r' \<and> rs_wf r' \<and> rs_content r' = rs_content r @ concat chunks \<and>
       rs_size r' = rs_size r + length (concat chunks)"
proof (induction chunks arbitrary: r)
  case (Cons chunk chunks)
  have "rs_size r + length chunk + 1 < 2 ^ 64" using Cons.prems(2) by simp
  then obtain r1 where r1: "WriteResponseBody True chunk 1 (length chunk) r = Some (length chunk, r1)"
      "rs_wf r1" "rs_content r1 = rs_content r @ chunk" "rs_size r1 = rs_size r + length chunk"
    using WriteResponseBody_step(2) [OF Cons.prems(1), of chunk 1 "length chunk"] by auto
  then show ?case using Cons.IH [OF r1(2)] Cons.prems(2) by (auto simp: add.assoc)
qed simp

lemma HTTPResponse_new_wf [simp]:
  "rs_wf HTTPResponse_new" "rs_content HTTPResponse_new = []" "rs_size HTTPResponse_new = 0"
  by (simp_all add: HTTPResponse_new_def rs_wf_def rs_content_def)

lemma rs_body_content: "rs_wf r \<Longrightarrow> rs_body r = Some b \<Longrightarrow> b = rs_content r @ [0]"
  unfolding rs_wf_def rs_content_def by simp (metis lessI order_refl take_Suc_conv_app_nth take_all)

section \<open>Header lines\<close>

lemma find_colon_space_first:
  "58 \<notin> set name \<Longrightarrow> find_colon_space (name @ 58 # 32 # val) = Some (length name)"
proof (induction name)
  case (Cons a name)
  then show ?case by (cases "name @ 58 # 32 # val" rule: find_colon_space.cases) auto
qed simp

lemma ReceiveResponseHeader_line:
  assumes "58 \<notin> set name" "0 \<notin> set name" "0 \<notin> set val" "length name + length val + 2 < CURL_MAX_HTTP_HEADER"
  shows "ReceiveResponseHeader (name @ [58, 32] @ val @ [13, 10]) beyond 1 (length name + length val + 4) r =
    Some (length name + length val + 4, r\<lparr>rs_headers := (rs_headers r)(map tolower name \<mapsto> val)\<rparr>)"
proof -
  let ?n = "length name + length val + 4"
  let ?h = "name @ 58 # 32 # val"
  have "?n < 2 ^ 64" using assms(4) by (simp add: CURL_MAX_HTTP_HEADER_def)
  then have "size_mul 1 ?n = ?n" "size_sub ?n 2 = length ?h"
    by (simp_all add: SIZE_MAX_def size_mul_def)
  moreover have "c_string (take (length ?h) ((name @ [58, 32] @ val @ [13, 10]) @ beyond)) = ?h"
    using assms(2,3) by (auto simp: c_string_def takeWhile_eq_all_conv)
  ultimately show ?thesis
    using assms(4) find_colon_space_first [OF assms(1)]
    unfolding ReceiveResponseHeader_def Let_def by simp
qed

section \<open>Properties of the contexts\<close>

text \<open>
  Libcurl reads exactly the JSON text of the data.  For a value built of UTF-8 strings,
  64 bit integers, printable reals, arrays and objects, the constructor of the request
  context leaves the heap alone, and whatever sizes libcurl asks for, the bytes that
  successive calls of \<^verbatim>\<open>ReadRequestBody\<close> deliver are the text of the value, in order, without
  loss or repetition, cut off where the sizes asked for end.
\<close>

lemma request_body_sent:
  assumes "heap_ok w" "views w v p" "printable point 0 v" "point \<noteq> 0"
    and "(\<exists>vs. v = VArray vs) \<or> (\<exists>kvs. v = VObject kvs)" "length (value_text point 0 0 v) \<le> 2 ^ 61"
    and "list_all (\<lambda>(s, n). s * n < 2 ^ 64) asks"
  shows "\<exists>c c'. HTTPRequestContext_new point method url (Some p) headers forward val opts w = (c, w) \<and>
    read_all asks c = (take (\<Sum>(s, n) \<leftarrow> asks. s * n) (value_text point 0 0 v), c')"
proof -
  let ?text = "value_text point 0 0 v"
  have dumps: "json_dumps point (Some p) 0 w = (Some ?text, w)"
    by (rule json_dumps_text) (use assms in \<open>auto simp: dflag_def\<close>)
  obtain c where c: "HTTPRequestContext_new point method url (Some p) headers forward val opts w = (c, w)"
    "rq_body c = Some ?text"
    using dumps by (simp add: HTTPRequestContext_new_def Let_def)
  have wf: "rq_wf c" "rq_pos c = 0" using HTTPRequestContext_new_wf [OF c(1)] c(2) assms(6) by simp_all
  obtain out c' where r: "read_all asks c = (out, c')" by fastforce
  show ?thesis using read_all_prefix [OF wf(1) assms(7) r] r wf(2) c by (simp add: body_left_def)
qed

definition plain_options :: transfer_options where
  "plain_options = \<lparr>to_connectTimeout = 10, to_maxRedirects = 5, to_timeout = 30, to_maxSendSpeed = 0,
     to_maxRecvSpeed = 0, to_useBasicAuth = False, to_username = [], to_password = []\<rparr>"

text \<open>
  C29: the response body arrives completely.  However the response is cut into chunks, as
  long as memory lasts the block built by \<^verbatim>\<open>WriteResponseBody\<close> holds the concatenation of
  the chunks followed by NUL and \<^verbatim>\<open>size\<close> is its length; no write leaves the block.
\<close>

theorem response_body_received:
  assumes "length (concat chunks) + 1 < 2 ^ 64" "chunks \<noteq> []"
  shows "\<exists>r. write_all chunks HTTPResponse_new = Some r \<and> rs_body r = Some (concat chunks @ [0]) \<and>
    rs_size r = length (concat chunks)"
proof -
  obtain r where r: "write_all chunks HTTPResponse_new = Some r" "rs_wf r" "rs_content r = concat chunks"
      "rs_size r = length (concat chunks)"
    using write_all_content [OF HTTPResponse_new_wf(1), of chunks] assms(1) by auto
  have "rs_body r \<noteq> None"
  proof -
    obtain c cs where c: "chunks = c # cs" using assms(2) by (cases chunks) auto
    then obtain r1 where r1: "WriteResponseBody True c 1 (length c) HTTPResponse_new = Some (length c, r1)"
      using WriteResponseBody_step(2) [OF HTTPResponse_new_wf(1), of c 1 "length c"] assms(1) by auto
    then have "rs_body r1 \<noteq> None" by (auto simp: WriteResponseBody_def Let_def split: if_splits)
    moreover have "write_all cs q = Some r \<Longrightarrow> rs_body q \<noteq> None \<Longrightarrow> rs_body r \<noteq> None" for q
      by (induction cs arbitrary: q)
        (auto simp: WriteResponseBody_def Let_def split: option.splits if_splits)
    ultimately show ?thesis using r(1) r1 c by simp
  qed
  then show ?thesis using rs_body_content [OF r(2)] r by auto
qed

theorem response_body_received_witness:
  "\<exists>r. write_all [[72, 105], [], [33]] HTTPResponse_new = Some r \<and> rs_body r = Some [72, 105, 33, 0]"
  using response_body_received [of "[[72, 105], [], [33]]"] by auto

text \<open>
  C32: a header line \<^verbatim>\<open>Name: value\<close> stores the value under the lower-case name.  For every
  line that ends in CR LF, has no NUL and fits the buffer, \<^verbatim>\<open>ReceiveResponseHeader\<close> accepts
  all bytes, whatever follows the line in memory, and changes the one entry of the map.
\<close>

theorem header_line_stored:
  assumes "58 \<notin> set name" "0 \<notin> set name" "0 \<notin> set val" "length name + length val + 2 < CURL_MAX_HTTP_HEADER"
  shows "ReceiveResponseHeader (name @ [58, 32] @ val @ [13, 10]) beyond 1 (length name + length val + 4) r =
    Some (length name + length val + 4, r\<lparr>rs_headers := (rs_headers r)(map tolower name \<mapsto> val)\<rparr>)"
  using ReceiveResponseHeader_line [OF assms] .

theorem header_line_stored_witness:
  "ReceiveResponseHeader (cstr ''ETag'' @ [58, 32] @ cstr ''x'' @ [13, 10]) [] 1 9 HTTPResponse_new =
    Some (9, HTTPResponse_new\<lparr>rs_headers := (rs_headers HTTPResponse_new)(cstr ''etag'' \<mapsto> cstr ''x'')\<rparr>)"
proof -
  have "map tolower (cstr ''ETag'') = cstr ''etag''" by (simp add: tolower_def to_byte_def)
  then show ?thesis
    using header_line_stored [of "cstr ''ETag''" "cstr ''x''" "[]" HTTPResponse_new]
    by (simp add: CURL_MAX_HTTP_HEADER_def)
qed

text \<open>
  C40: a header line shorter than two bytes is read beyond its end.  The length
  \<^verbatim>\<open>total - 2\<close> given to \<^verbatim>\<open>strncat\<close> wraps around, so a line that is a bare LF makes the code
  take up to the next NUL of whatever follows the line in memory as a header.
\<close>

theorem short_header_overread:
  assumes "58 \<notin> set name" "0 \<notin> set name" "0 \<notin> set val" "length name + length val + 3 < CURL_MAX_HTTP_HEADER"
  shows "ReceiveResponseHeader [10] (name @ [58, 32] @ val @ [0]) 1 1 r =
    Some (1, r\<lparr>rs_headers := (rs_headers r)(10 # map tolower name \<mapsto> val)\<rparr>)"
proof -
  let ?h = "(10 # name) @ 58 # 32 # val"
  have sizes: "size_mul 1 1 = 1" "size_sub 1 2 = 2 ^ 64 - 1" by (simp_all add: size_sub_def size_mul_def)
  have "take (2 ^ 64 - 1) ([10] @ name @ [58, 32] @ val @ [0]) = ?h @ [0]"
    using assms(4) by (simp add: CURL_MAX_HTTP_HEADER_def take_Cons')
  moreover have "0 \<notin> set ?h" using assms(2,3) by simp
  ultimately have "c_string (take (2 ^ 64 - 1) ([10] @ name @ [58, 32] @ val @ [0])) = ?h"
    by (metis c_string_append_nul)
  moreover have "find_colon_space ?h = Some (Suc (length name))"
    using find_colon_space_first [of "10 # name" val] assms(1) by simp
  moreover have "tolower 10 = 10" by (simp add: tolower_def)
  ultimately show ?thesis using assms(4) unfolding ReceiveResponseHeader_def Let_def sizes by simp
qed

theorem short_header_overread_witness:
  "ReceiveResponseHeader [10] (cstr ''k'' @ [58, 32] @ cstr ''v'' @ [0]) 1 1 HTTPResponse_new =
    Some (1, HTTPResponse_new\<lparr>rs_headers := (rs_headers HTTPResponse_new)(10 # cstr ''k'' \<mapsto> cstr ''v'')\<rparr>)"
proof -
  have "map tolower (cstr ''k'') = cstr ''k''" by (simp add: tolower_def)
  then show ?thesis
    using short_header_overread [of "cstr ''k''" "cstr ''v''" HTTPResponse_new]
    by (simp add: CURL_MAX_HTTP_HEADER_def)
qed

end
