(* ===== verification/Http_Request.thy ===== *)
theory Http_Request
  imports Http_Context
begin

text \<open>
  \<^verbatim>\<open>httpclient.cpp\<close> and \<^verbatim>\<open>httprequest.cpp\<close>: the objects behind the plugin's \<^verbatim>\<open>HTTPClient\<close> and
  \<^verbatim>\<open>HTTPRequest\<close> handles.  Each method that performs a request builds a context for
  \<^verbatim>\<open>AddRequestToQueue\<close>.  Parameters: the order in which \<^verbatim>\<open>HTTPHeaderMap\<close> iterates, the outcomes
  of \<^verbatim>\<open>curl_slist_append\<close>, \<^verbatim>\<open>CreateForwardEx\<close> and \<^verbatim>\<open>AddFunction\<close>, and \<^verbatim>\<open>curl_easy_escape\<close>.
\<close>

section \<open>Header lists\<close>

text \<open>\<^verbatim>\<open>snprintf(header, sizeof(header), ...)\<close> into \<^verbatim>\<open>char header[8192]\<close>.\<close>

definition header_line :: "byte list \<Rightarrow> byte list" where
  "header_line text = take 8191 text"

text \<open>
  \<^verbatim>\<open>headers = curl_slist_append(headers, header)\<close>; the empty list is the null pointer, which
  is what the variable holds after a failure.
\<close>

definition curl_slist_append :: "byte list \<Rightarrow> byte list list \<times> mem \<Rightarrow> byte list list \<times> mem" where
  "curl_slist_append header hm =
     (case hm of (headers, m) \<Rightarrow> (if m 0 then headers @ [header] else [], \<lambda>n. m (Suc n)))"

definition map_line :: "byte list \<times> byte list \<Rightarrow> byte list" where
  "map_line kv = (case kv of (key, val) \<Rightarrow> header_line (c_string key @ cstr '': '' @ c_string val))"

type_synonym header_order = "HTTPHeaderMap \<Rightarrow> (byte list \<times> byte list) list"

section \<open>\<open>HTTPClient\<close>\<close>

record HTTPClient =
  hc_baseURL :: "byte list"
  hc_headers :: HTTPHeaderMap
  hc_connectTimeout :: int
  hc_followLocation :: bool
  hc_timeout :: int
  hc_maxRecvSpeed :: int
  hc_maxSendSpeed :: int

definition HTTPClient_new :: "byte list \<Rightarrow> HTTPClient" where
  "HTTPClient_new baseURL =
     \<lparr>hc_baseURL = baseURL, hc_headers = Map.empty, hc_connectTimeout = 10, hc_followLocation = True,
      hc_timeout = 30, hc_maxRecvSpeed = 0, hc_maxSendSpeed = 0\<rparr>"

definition HTTPClient_BuildURL :: "HTTPClient \<Rightarrow> byte list \<Rightarrow> byte list" where
  "HTTPClient_BuildURL this endpoint = hc_baseURL this @ cstr ''/'' @ endpoint"

definition HTTPClient_BuildHeaders ::
  "header_order \<Rightarrow> HTTPClient \<Rightarrow> byte list \<Rightarrow> byte list \<Rightarrow> mem \<Rightarrow> byte list list" where
  "HTTPClient_BuildHeaders iter this acceptTypes contentType m =
     (let hm1 = curl_slist_append (header_line (cstr ''Accept: '' @ acceptTypes)) ([], m);
          hm2 = curl_slist_append (header_line (cstr ''Content-Type: '' @ contentType)) hm1
      in fst (fold (\<lambda>kv. curl_slist_append (map_line kv)) (iter (hc_headers this)) hm2))"

text \<open>What \<^verbatim>\<open>CreateForwardEx\<close> and \<^verbatim>\<open>AddFunction\<close> answer.\<close>

record forward_env =
  fe_forward :: "nat option"
  fe_added :: bool

definition client_options :: "HTTPClient \<Rightarrow> transfer_options" where
  "client_options this =
     \<lparr>to_connectTimeout = hc_connectTimeout this, to_maxRedirects = (if hc_followLocation this then 5 else 0),
      to_timeout = hc_timeout this, to_maxSendSpeed = hc_maxSendSpeed this, to_maxRecvSpeed = hc_maxRecvSpeed this,
      to_useBasicAuth = False, to_username = [], to_password = []\<rparr>"

definition forward_failed :: "forward_env \<Rightarrow> bool" where
  "forward_failed fe \<longleftrightarrow> fe_forward fe = None \<or> \<not> fe_added fe"

definition HTTPClient_Request ::
  "byte \<Rightarrow> header_order \<Rightarrow> forward_env \<Rightarrow> mem \<Rightarrow> HTTPClient \<Rightarrow> byte list \<Rightarrow> byte list \<Rightarrow> ptr option \<Rightarrow> int \<Rightarrow>
   world \<Rightarrow> (effect list + IHTTPContext) \<times> world" where
  "HTTPClient_Request point iter fe m this method endpoint data v w =
     (if forward_failed fe then (Inl [LogError (cstr ''Could not create forward.'')], w)
      else
        let url = HTTPClient_BuildURL this endpoint;
            headers = HTTPClient_BuildHeaders iter this (cstr ''application/json'') (cstr ''application/json'') m
        in case HTTPRequestContext_new point method url data headers (the (fe_forward fe)) v (client_options this) w of
             (context, w') \<Rightarrow> (Inr (Request_Context context), w'))"

definition HTTPClient_file ::
  "bool \<Rightarrow> header_order \<Rightarrow> forward_env \<Rightarrow> mem \<Rightarrow> HTTPClient \<Rightarrow> byte list \<Rightarrow> byte list \<Rightarrow> int \<Rightarrow>
   effect list + IHTTPContext" where
  "HTTPClient_file isUpload iter fe m this endpoint path v =
     (if forward_failed fe then Inl [LogError (cstr ''Could not create forward.'')]
      else
        let url = HTTPClient_BuildURL this endpoint;
            headers = HTTPClient_BuildHeaders iter this (cstr ''*/*'') (cstr ''application/octet-stream'') m
        in Inr (File_Context (HTTPFileContext_new isUpload url path headers (the (fe_forward fe)) v (client_options this))))"

definition HTTPClient_DownloadFile ::
  "header_order \<Rightarrow> forward_env \<Rightarrow> mem \<Rightarrow> HTTPClient \<Rightarrow> byte list \<Rightarrow> byte list \<Rightarrow> int \<Rightarrow> effect list + IHTTPContext" where
  "HTTPClient_DownloadFile = HTTPClient_file False"

definition HTTPClient_UploadFile ::
  "header_order \<Rightarrow> forward_env \<Rightarrow> mem \<Rightarrow> HTTPClient \<Rightarrow> byte list \<Rightarrow> byte list \<Rightarrow> int \<Rightarrow> effect list + IHTTPContext" where
  "HTTPClient_UploadFile = HTTPClient_file True"

definition HTTPClient_SetHeader :: "byte list \<Rightarrow> byte list \<Rightarrow> HTTPClient \<Rightarrow> HTTPClient" where
  "HTTPClient_SetHeader name val this = this\<lparr>hc_headers := (hc_headers this)(name \<mapsto> val)\<rparr>"

definition HTTPClient_SetConnectTimeout :: "int \<Rightarrow> HTTPClient \<Rightarrow> HTTPClient" where
  "HTTPClient_SetConnectTimeout t this = this\<lparr>hc_connectTimeout := t\<rparr>"

definition HTTPClient_SetFollowLocation :: "bool \<Rightarrow> HTTPClient \<Rightarrow> HTTPClient" where
  "HTTPClient_SetFollowLocation b this = this\<lparr>hc_followLocation := b\<rparr>"

definition HTTPClient_SetTimeout :: "int \<Rightarrow> HTTPClient \<Rightarrow> HTTPClient" where
  "HTTPClient_SetTimeout t this = this\<lparr>hc_timeout := t\<rparr>"

definition HTTPClient_SetMaxSendSpeed :: "int \<Rightarrow> HTTPClient \<Rightarrow> HTTPClient" where
  "HTTPClient_SetMaxSendSpeed speed this = this\<lparr>hc_maxSendSpeed := speed\<rparr>"

definition HTTPClient_SetMaxRecvSpeed :: "int \<Rightarrow> HTTPClient \<Rightarrow> HTTPClient" where
  "HTTPClient_SetMaxRecvSpeed speed this = this\<lparr>hc_maxRecvSpeed := speed\<rparr>"

section \<open>\<open>HTTPRequest\<close>\<close>

record HTTPRequest =
  hr_url :: "byte list"
  hr_query :: "byte list"
  hr_formData :: "byte list"
  hr_headers :: HTTPHeaderMap
  hr_useBasicAuth :: bool
  hr_username :: "byte list"
  hr_password :: "byte list"
  hr_connectTimeout :: int
  hr_maxRedirects :: int
  hr_maxRecvSpeed :: int
  hr_maxSendSpeed :: int
  hr_timeout :: int

definition HTTPRequest_SetHeader :: "byte list \<Rightarrow> byte list \<Rightarrow> HTTPRequest \<Rightarrow> HTTPRequest" where
  "HTTPRequest_SetHeader name val this = this\<lparr>hr_headers := (hr_headers this)(name \<mapsto> val)\<rparr>"

definition HTTPRequest_new :: "byte list \<Rightarrow> HTTPRequest" where
  "HTTPRequest_new url =
     HTTPRequest_SetHeader (cstr ''Content-Type'') (cstr ''application/json'')
       (HTTPRequest_SetHeader (cstr ''Accept'') (cstr ''application/json'')
         \<lparr>hr_url = url, hr_query = [], hr_formData = [], hr_headers = Map.empty, hr_useBasicAuth = False,
          hr_username = [], hr_password = [], hr_connectTimeout = 10, hr_maxRedirects = 5, hr_maxRecvSpeed = 0,
          hr_maxSendSpeed = 0, hr_timeout = 30\<rparr>)"

definition HTTPRequest_BuildURL :: "HTTPRequest \<Rightarrow> byte list" where
  "HTTPRequest_BuildURL this = hr_url this @ hr_query this"

definition HTTPRequest_BuildHeaders :: "header_order \<Rightarrow> HTTPRequest \<Rightarrow> mem \<Rightarrow> byte list list" where
  "HTTPRequest_BuildHeaders iter this m =
     fst (fold (\<lambda>kv. curl_slist_append (map_line kv)) (iter (hr_headers this)) ([], m))"

definition request_options :: "HTTPRequest \<Rightarrow> transfer_options" where
  "request_options this =
     \<lparr>to_connectTimeout = hr_connectTimeout this, to_maxRedirects = hr_maxRedirects this,
      to_timeout = hr_timeout this, to_maxSendSpeed = hr_maxSendSpeed this, to_maxRecvSpeed = hr_maxRecvSpeed this,
      to_useBasicAuth = hr_useBasicAuth this, to_username = hr_username this, to_password = hr_password this\<rparr>"

definition HTTPRequest_Perform ::
  "byte \<Rightarrow> header_order \<Rightarrow> mem \<Rightarrow> HTTPRequest \<Rightarrow> byte list \<Rightarrow> ptr option \<Rightarrow> nat \<Rightarrow> int \<Rightarrow> world \<Rightarrow>
   IHTTPContext \<times> world" where
  "HTTPRequest_Perform point iter m this method data forward v w =
     (case HTTPRequestContext_new point method (HTTPRequest_BuildURL this) data (HTTPRequest_BuildHeaders iter this m)
             forward v (request_options this) w of
        (context, w') \<Rightarrow> (Request_Context context, w'))"

definition HTTPRequest_file ::
  "bool \<Rightarrow> header_order \<Rightarrow> mem \<Rightarrow> HTTPRequest \<Rightarrow> byte list \<Rightarrow> nat \<Rightarrow> int \<Rightarrow> IHTTPContext \<times> HTTPRequest" where
  "HTTPRequest_file isUpload iter m this path forward v =
     (let this = HTTPRequest_SetHeader (cstr ''Accept'') (cstr ''*/*'') this;
          this = HTTPRequest_SetHeader (cstr ''Content-Type'') (cstr ''application/octet-stream'') this
      in (File_Context (HTTPFileContext_new isUpload (HTTPRequest_BuildURL this) path
            (HTTPRequest_BuildHeaders iter this m) forward v (request_options this)), this))"

definition HTTPRequest_DownloadFile ::
  "header_order \<Rightarrow> mem \<Rightarrow> HTTPRequest \<Rightarrow> byte list \<Rightarrow> nat \<Rightarrow> int \<Rightarrow> IHTTPContext \<times> HTTPRequest" where
  "HTTPRequest_DownloadFile = HTTPRequest_file False"

definition HTTPRequest_UploadFile ::
  "header_order \<Rightarrow> mem \<Rightarrow> HTTPRequest \<Rightarrow> byte list \<Rightarrow> nat \<Rightarrow> int \<Rightarrow> IHTTPContext \<times> HTTPRequest" where
  "HTTPRequest_UploadFile = HTTPRequest_file True"

definition HTTPRequest_PostForm ::
  "header_order \<Rightarrow> mem \<Rightarrow> HTTPRequest \<Rightarrow> nat \<Rightarrow> int \<Rightarrow> IHTTPContext \<times> HTTPRequest" where
  "HTTPRequest_PostForm iter m this forward v =
     (let this = HTTPRequest_SetHeader (cstr ''Accept'') (cstr ''application/json'') this;
          this = HTTPRequest_SetHeader (cstr ''Content-Type'') (cstr ''application/x-www-form-urlencoded'') this
      in (Form_Context (HTTPFormContext_new (HTTPRequest_BuildURL this) (hr_formData this)
            (HTTPRequest_BuildHeaders iter this m) forward v (request_options this)), this))"

text \<open>
  \<^term>\<open>easy_init\<close>: whether \<^verbatim>\<open>curl_easy_init\<close> gives a handle; \<^term>\<open>escape\<close>:
  \<^verbatim>\<open>curl_easy_escape\<close>, \<^const>\<open>None\<close> where it fails.
\<close>

definition HTTPRequest_AppendQueryParam ::
  "bool \<Rightarrow> (byte list \<Rightarrow> byte list option) \<Rightarrow> byte list \<Rightarrow> byte list \<Rightarrow> HTTPRequest \<Rightarrow> HTTPRequest" where
  "HTTPRequest_AppendQueryParam easy_init escape name val this =
     (if \<not> easy_init then this
      else
        case (escape name, escape val) of
          (Some escapedName, Some escapedValue) \<Rightarrow>
            this\<lparr>hr_query := hr_query this @ (if length (hr_query this) = 0 then cstr ''?'' else cstr ''&'') @
                              escapedName @ cstr ''='' @ escapedValue\<rparr>
        | _ \<Rightarrow> this)"

definition HTTPRequest_AppendFormParam ::
  "bool \<Rightarrow> (byte list \<Rightarrow> byte list option) \<Rightarrow> byte list \<Rightarrow> byte list \<Rightarrow> HTTPRequest \<Rightarrow> HTTPRequest" where
  "HTTPRequest_AppendFormParam easy_init escape name val this =
     (if \<not> easy_init then this
      else
        case (escape name, escape val) of
          (Some escapedName, Some escapedValue) \<Rightarrow>
            this\<lparr>hr_formData := hr_formData this @ (if length (hr_formData this) = 0 then cstr '''' else cstr ''&'') @
                                 escapedName @ cstr ''='' @ escapedValue\<rparr>
        | _ \<Rightarrow> this)"

definition HTTPRequest_SetBasicAuth :: "byte list \<Rightarrow> byte list \<Rightarrow> HTTPRequest \<Rightarrow> HTTPRequest" where
  "HTTPRequest_SetBasicAuth username password this =
     this\<lparr>hr_useBasicAuth := True, hr_username := username, hr_password := password\<rparr>"

definition HTTPRequest_SetConnectTimeout :: "int \<Rightarrow> HTTPRequest \<Rightarrow> HTTPRequest" where
  "HTTPRequest_SetConnectTimeout t this = this\<lparr>hr_connectTimeout := t\<rparr>"

definition HTTPRequest_SetMaxRedirects :: "int \<Rightarrow> HTTPRequest \<Rightarrow> HTTPRequest" where
  "HTTPRequest_SetMaxRedirects n this = this\<lparr>hr_maxRedirects := n\<rparr>"

definition HTTPRequest_SetMaxRecvSpeed :: "int \<Rightarrow> HTTPRequest \<Rightarrow> HTTPRequest" where
  "HTTPRequest_SetMaxRecvSpeed n this = this\<lparr>hr_maxRecvSpeed := n\<rparr>"

definition HTTPRequest_SetMaxSendSpeed :: "int \<Rightarrow> HTTPRequest \<Rightarrow> HTTPRequest" where
  "HTTPRequest_SetMaxSendSpeed n this = this\<lparr>hr_maxSendSpeed := n\<rparr>"

definition HTTPRequest_SetTimeout :: "int \<Rightarrow> HTTPRequest \<Rightarrow> HTTPRequest" where
  "HTTPRequest_SetTimeout t this = this\<lparr>hr_timeout := t\<rparr>"

section \<open>Header lists in full\<close>

lemma slist_fold_ok:
  "fold (\<lambda>kv. curl_slist_append (map_line kv)) kvs (hs, mem_ok) = (hs @ map map_line kvs, mem_ok)"
proof (induction kvs arbitrary: hs)
  case (Cons kv kvs)
  have "curl_slist_append (map_line kv) (hs, mem_ok) = (hs @ [map_line kv], mem_ok)"
    by (simp add: curl_slist_append_def mem_ok_def)
  with Cons show ?case by simp
qed simp

section \<open>Query strings\<close>

fun split_on :: "'a \<Rightarrow> 'a list \<Rightarrow> 'a list list" where
  "split_on c [] = [[]]"
| "split_on c (x # xs) =
     (if x = c then [] # split_on c xs else (case split_on c xs of [] \<Rightarrow> [[x]] | p # ps \<Rightarrow> (x # p) # ps))"

definition parse_params :: "byte list \<Rightarrow> (byte list \<times> byte list) list" where
  "parse_params q = map (\<lambda>p. (takeWhile (\<lambda>b. b \<noteq> 61) p, drop 1 (dropWhile (\<lambda>b. b \<noteq> 61) p))) (split_on 38 q)"

fun join_params :: "(byte list \<times> byte list) list \<Rightarrow> byte list" where
  "join_params [] = []"
| "join_params [(n, v)] = n @ 61 # v"
| "join_params ((n, v) # ps) = n @ 61 # v @ 38 # join_params ps"

lemma split_on_not_Nil [simp]: "split_on c xs \<noteq> []"
  by (induction xs) (auto split: list.splits)

lemma split_on_none: "c \<notin> set xs \<Longrightarrow> split_on c xs = [xs]"
  by (induction xs) auto

lemma split_on_append: "c \<notin> set xs \<Longrightarrow> split_on c (xs @ c # ys) = xs # split_on c ys"
  by (induction xs) auto

definition clean :: "byte list \<times> byte list \<Rightarrow> bool" where
  "clean p \<longleftrightarrow> 38 \<notin> set (fst p) \<and> 61 \<notin> set (fst p) \<and> 38 \<notin> set (snd p) \<and> 61 \<notin> set (snd p)"

lemma parse_one:
  "61 \<notin> set n \<Longrightarrow> takeWhile (\<lambda>b. b \<noteq> 61) (n @ 61 # v) = n \<and> drop 1 (dropWhile (\<lambda>b. b \<noteq> 61) (n @ 61 # v)) = v"
  by (induction n) auto

lemma parse_join: "ps \<noteq> [] \<Longrightarrow> list_all clean ps \<Longrightarrow> parse_params (join_params ps) = ps"
proof (induction ps rule: join_params.induct)
  case (2 n v)
  then show ?case using parse_one [of n v] by (simp add: clean_def parse_params_def split_on_none)
next
  case (3 n v p ps)
  have "38 \<notin> set (n @ 61 # v)" using "3.prems" by (simp add: clean_def)
  from split_on_append [OF this, of "join_params (p # ps)"] 3 parse_one [of n v] show ?case
    by (simp add: clean_def parse_params_def)
qed simp

lemma join_params_snoc:
  "ps \<noteq> [] \<Longrightarrow> join_params (ps @ [(n, v)]) = join_params ps @ 38 # n @ 61 # v"
  by (induction ps rule: join_params.induct) (auto simp: neq_Nil_conv)

lemma join_params_empty: "join_params ps = [] \<longleftrightarrow> ps = []"
  by (cases ps rule: join_params.cases) auto

definition append_all :: "(byte list \<Rightarrow> byte list option) \<Rightarrow> (byte list \<times> byte list) list \<Rightarrow> HTTPRequest \<Rightarrow> HTTPRequest" where
  "append_all escape = fold (\<lambda>(n, v). HTTPRequest_AppendQueryParam True escape n v)"

definition form_all :: "(byte list \<Rightarrow> byte list option) \<Rightarrow> (byte list \<times> byte list) list \<Rightarrow> HTTPRequest \<Rightarrow> HTTPRequest" where
  "form_all escape = fold (\<lambda>(n, v). HTTPRequest_AppendFormParam True escape n v)"

abbreviation escaped :: "(byte list \<Rightarrow> byte list option) \<Rightarrow> byte list \<times> byte list \<Rightarrow> byte list \<times> byte list" where
  "escaped escape p \<equiv> (the (escape (fst p)), the (escape (snd p)))"

lemma append_all_query:
  "list_all (\<lambda>p. escape (fst p) \<noteq> None \<and> escape (snd p) \<noteq> None) ps \<Longrightarrow>
     hr_query (append_all escape ps (HTTPRequest_new url)) =
       (if ps = [] then [] else 63 # join_params (map (escaped escape) ps)) \<and>
     hr_formData (form_all escape ps (HTTPRequest_new url)) = join_params (map (escaped escape) ps)"
proof (induction ps rule: rev_induct)
  case Nil
  then show ?case by (simp add: append_all_def form_all_def HTTPRequest_new_def HTTPRequest_SetHeader_def)
next
  case (snoc p ps)
  obtain n v where p: "p = (n, v)" by force
  then obtain en ev where e: "escape n = Some en" "escape v = Some ev" using snoc.prems by auto
  then show ?case using snoc p
    by (auto simp: append_all_def form_all_def HTTPRequest_AppendQueryParam_def HTTPRequest_AppendFormParam_def
        join_params_snoc join_params_empty)
qed

section \<open>Properties of the request objects\<close>

text \<open>
  C30: the query string and the form body carry the parameters.  Whatever parameters a
  plugin appends, splitting the query after \<^verbatim>\<open>?\<close> (or the form data) at \<^verbatim>\<open>&\<close> and then at \<^verbatim>\<open>=\<close>
  and unescaping gives them back in order; assumed of \<^verbatim>\<open>curl_easy_escape\<close>: on these
  parameters it succeeds, its output has no \<^verbatim>\<open>&\<close> and no \<^verbatim>\<open>=\<close>, and \<^term>\<open>unescape\<close> inverts it.
\<close>

theorem params_roundtrip:
  assumes succeeds: "list_all (\<lambda>p. escape (fst p) \<noteq> None \<and> escape (snd p) \<noteq> None) ps"
    and safe: "list_all (\<lambda>p. clean (escaped escape p)) ps"
    and inverse: "list_all (\<lambda>p. unescape (the (escape (fst p))) = fst p \<and> unescape (the (escape (snd p))) = snd p) ps"
    and some: "ps \<noteq> []"
  shows "hd (hr_query (append_all escape ps (HTTPRequest_new url))) = 63 \<and>
    map (map_prod unescape unescape) (parse_params (tl (hr_query (append_all escape ps (HTTPRequest_new url))))) = ps \<and>
    map (map_prod unescape unescape) (parse_params (hr_formData (form_all escape ps (HTTPRequest_new url)))) = ps"
proof -
  have "parse_params (join_params (map (escaped escape) ps)) = map (escaped escape) ps"
    using parse_join [of "map (escaped escape) ps"] some safe by (simp add: list_all_iff)
  moreover have "map (map_prod unescape unescape) (map (escaped escape) ps) = ps"
    using inverse by (induction ps) auto
  ultimately show ?thesis using append_all_query [OF succeeds, of url] some by simp
qed

theorem params_roundtrip_witness:
  "hd (hr_query (append_all Some [(cstr ''a'', cstr ''1''), (cstr ''b'', cstr ''2'')] (HTTPRequest_new (cstr ''u'')))) = 63 \<and>
   parse_params (tl (hr_query (append_all Some [(cstr ''a'', cstr ''1''), (cstr ''b'', cstr ''2'')] (HTTPRequest_new (cstr ''u''))))) =
     [(cstr ''a'', cstr ''1''), (cstr ''b'', cstr ''2'')]"
  using params_roundtrip [of Some "[(cstr ''a'', cstr ''1''), (cstr ''b'', cstr ''2'')]" id "cstr ''u''"]
  by (simp add: clean_def prod.map_id0)



text \<open>
  C31: the settings of a request reach libcurl.  When the transfer of a performed request is
  set up, the easy handle carries the URL with its query, the header list, the time-outs
  and redirect limit of the request object, and the user name and password exactly if basic
  authentication is on; a speed limit is set exactly if it is positive.
\<close>

theorem settings_reach_curl:
  assumes "HTTPRequest_Perform point iter m this method data forward v w = (ctx, w')" "ie_easy_init env"
  shows "\<exists>ctx' opts. InitCurl env ctx = (True, ctx', []) \<and> ctx_curl ctx' = Curl_Easy opts \<and>
    {CURLOPT_URL (c_string (hr_url this @ hr_query this)), CURLOPT_HTTPHEADER (HTTPRequest_BuildHeaders iter this m),
     CURLOPT_TIMEOUT (hr_timeout this), CURLOPT_CONNECTTIMEOUT (hr_connectTimeout this),
     CURLOPT_MAXREDIRS (hr_maxRedirects this), CURLOPT_CAINFO (ie_caBundlePath env)} \<subseteq> set opts \<and>
    (CURLOPT_USERNAME u \<in> set opts \<longleftrightarrow> hr_useBasicAuth this \<and> u = c_string (hr_username this)) \<and>
    (CURLOPT_PASSWORD p \<in> set opts \<longleftrightarrow> hr_useBasicAuth this \<and> p = c_string (hr_password this)) \<and>
    (CURLOPT_MAX_SEND_SPEED_LARGE n \<in> set opts \<longleftrightarrow> 0 < n \<and> n = hr_maxSendSpeed this) \<and>
    (CURLOPT_MAX_RECV_SPEED_LARGE k \<in> set opts \<longleftrightarrow> 0 < k \<and> k = hr_maxRecvSpeed this)"
proof -
  obtain c where c: "ctx = Request_Context c"
    "HTTPRequestContext_new point method (HTTPRequest_BuildURL this) data (HTTPRequest_BuildHeaders iter this m)
       forward v (request_options this) w = (c, w')"
    using assms(1) by (auto simp: HTTPRequest_Perform_def split: prod.splits)
  then have f: "cx_url c = hr_url this @ hr_query this" "cx_headers c = HTTPRequest_BuildHeaders iter this m"
    "cx_timeout c = hr_timeout this" "cx_connectTimeout c = hr_connectTimeout this"
    "cx_maxRedirects c = hr_maxRedirects this" "cx_useBasicAuth c = hr_useBasicAuth this"
    "cx_username c = hr_username this" "cx_password c = hr_password this"
    "cx_maxSendSpeed c = hr_maxSendSpeed this" "cx_maxRecvSpeed c = hr_maxRecvSpeed this"
    by (auto simp: HTTPRequestContext_new_def request_options_def HTTPRequest_BuildURL_def Let_def
        split: option.splits prod.splits)
  show ?thesis using assms(2) c(1)
    by (auto simp: HTTPRequestContext_InitCurl_def f limit_options_def method_options_def)
qed

theorem settings_reach_curl_witness:
  "\<exists>ctx w' ctx' opts.
     HTTPRequest_Perform 46 (\<lambda>_. []) mem_ok (HTTPRequest_SetBasicAuth (cstr ''me'') (cstr ''pw'') (HTTPRequest_new (cstr ''u'')))
       (cstr ''GET'') None 1 0 (initial_world mem_ok
         \<lparr>env_urandom_opens = False, env_urandom_read = [], env_tv_sec = 1, env_tv_usec = 2, env_pid = 3\<rparr>) = (ctx, w') \<and>
     InitCurl \<lparr>ie_easy_init = True, ie_caBundlePath = [], ie_fopen = None\<rparr> ctx = (True, ctx', []) \<and>
     ctx_curl ctx' = Curl_Easy opts \<and> CURLOPT_USERNAME (cstr ''me'') \<in> set opts \<and> CURLOPT_TIMEOUT 30 \<in> set opts"
proof -
  let ?q = "HTTPRequest_SetBasicAuth (cstr ''me'') (cstr ''pw'') (HTTPRequest_new (cstr ''u''))"
  obtain ctx w' where p: "HTTPRequest_Perform 46 (\<lambda>_. []) mem_ok ?q (cstr ''GET'') None 1 0 (initial_world mem_ok
         \<lparr>env_urandom_opens = False, env_urandom_read = [], env_tv_sec = 1, env_tv_usec = 2, env_pid = 3\<rparr>) = (ctx, w')"
    by (metis surj_pair)
  have f: "hr_timeout ?q = 30" "hr_useBasicAuth ?q" "c_string (hr_username ?q) = cstr ''me''"
    by (simp_all add: HTTPRequest_SetBasicAuth_def HTTPRequest_new_def HTTPRequest_SetHeader_def c_string_def)
  obtain ctx' opts where o: "InitCurl \<lparr>ie_easy_init = True, ie_caBundlePath = [], ie_fopen = None\<rparr> ctx = (True, ctx', [])"
      "ctx_curl ctx' = Curl_Easy opts" "CURLOPT_TIMEOUT (hr_timeout ?q) \<in> set opts"
      "CURLOPT_USERNAME (cstr ''me'') \<in> set opts \<longleftrightarrow> hr_useBasicAuth ?q \<and> cstr ''me'' = c_string (hr_username ?q)"
    using settings_reach_curl [OF p, of "\<lparr>ie_easy_init = True, ie_caBundlePath = [], ie_fopen = None\<rparr>" "cstr ''me''"]
    by (simp del: cstr_Cons) blast
  show ?thesis
    by (intro exI [of _ ctx] exI [of _ w'] exI [of _ ctx'] exI [of _ opts] conjI)
      (use p o f in \<open>simp_all del: cstr_Cons\<close>)
qed

end
