(* ===== verification/Event_Loop.thy ===== *)
theory Event_Loop
  imports Http_Context Locked_Queue "HOL-Library.Multiset"
begin

text \<open>
  \<^verbatim>\<open>extension.cpp\<close>: the game thread and the thread of the event loop, which pass contexts to
  each other through \<^verbatim>\<open>g_RequestQueue\<close> and \<^verbatim>\<open>g_CompletedRequestQueue\<close>.  A context is named by
  a number that is never reused.  The threads interleave between the accesses to the
  queues, so the test \<^verbatim>\<open>Empty()\<close> that \<^verbatim>\<open>FrameHook\<close> makes without the lock is a step of its
  own.  libcurl decides which transfers finish and when; libuv keeps one pending mark for
  \<^verbatim>\<open>uv_async_send\<close>.
\<close>

section \<open>State\<close>

definition MAX_PROCESS :: nat where "MAX_PROCESS = 10"

text \<open>Where \<^verbatim>\<open>FrameHook\<close> and the callbacks of the loop are.\<close>

datatype game_pc =
    G_Idle
  | G_Test_Completed
  | G_Lock_Completed
  | G_Completing nat
  | G_Deleting nat
  | G_Popped_Empty

datatype loop_pc =
    L_Idle
  | L_Performing nat
  | L_Checking
  | L_Pushing nat

record extension =
  g_RequestQueue :: "nat LockedQueue"
  g_CompletedRequestQueue :: "nat LockedQueue"
  g_Curl :: "nat list"
  g_Messages :: "nat list"
  g_AsyncPending :: bool
  x_contexts :: "nat \<rightharpoonup> IHTTPContext"
  x_game :: game_pc
  x_loop :: loop_pc
  x_added :: "nat list"
  x_started :: "nat list"
  x_reported :: "nat list"
  x_completed :: "nat list"
  x_deleted :: "nat list"
  x_effects :: "(nat \<times> effect) list"

text \<open>
  The last six fields are history: the contexts in the order in which they were added, taken
  from the request queue, reported by libcurl, completed and deleted, and what was done
  for each of them.
\<close>

definition extension_start :: extension where
  "extension_start =
     \<lparr>g_RequestQueue = LockedQueue_new, g_CompletedRequestQueue = LockedQueue_new, g_Curl = [], g_Messages = [],
      g_AsyncPending = False, x_contexts = Map.empty, x_game = G_Idle, x_loop = L_Idle, x_added = [],
      x_started = [], x_reported = [], x_completed = [], x_deleted = [], x_effects = []\<rparr>"

definition log_effects :: "nat \<Rightarrow> effect list \<Rightarrow> extension \<Rightarrow> extension" where
  "log_effects a es s = s\<lparr>x_effects := x_effects s @ map (Pair a) es\<rparr>"

text \<open>\<^verbatim>\<open>delete context\<close>.\<close>

definition delete_context :: "nat \<Rightarrow> extension \<Rightarrow> extension" where
  "delete_context a s =
     (log_effects a (destroy (the (x_contexts s a))) s)\<lparr>x_contexts := (x_contexts s)(a := None), x_deleted := x_deleted s @ [a]\<rparr>"

section \<open>The game thread\<close>

text \<open>\<^verbatim>\<open>RipExt::AddRequestToQueue\<close>; \<^const>\<open>None\<close> while another thread holds the lock.\<close>

definition AddRequestToQueue :: "nat \<Rightarrow> IHTTPContext \<Rightarrow> extension \<Rightarrow> extension option" where
  "AddRequestToQueue a c s =
     (case Lock Game_Thread (g_RequestQueue s) of
        None \<Rightarrow> None
      | Some q \<Rightarrow>
          Some (s\<lparr>g_RequestQueue := Unlock (Push a q), x_contexts := (x_contexts s)(a \<mapsto> c),
                  x_added := x_added s @ [a]\<rparr>))"

text \<open>\<^verbatim>\<open>FrameHook\<close>, in the steps between which the other thread may run.\<close>

definition FrameHook_requests :: "extension \<Rightarrow> extension" where
  "FrameHook_requests s =
     (if \<not> Empty (g_RequestQueue s) then s\<lparr>g_AsyncPending := True, x_game := G_Test_Completed\<rparr>
      else s\<lparr>x_game := G_Test_Completed\<rparr>)"

definition FrameHook_test :: "extension \<Rightarrow> extension" where
  "FrameHook_test s =
     (if \<not> Empty (g_CompletedRequestQueue s) then s\<lparr>x_game := G_Lock_Completed\<rparr> else s\<lparr>x_game := G_Idle\<rparr>)"

definition FrameHook_pop :: "extension \<Rightarrow> extension option" where
  "FrameHook_pop s =
     (case Lock Game_Thread (g_CompletedRequestQueue s) of
        None \<Rightarrow> None
      | Some q \<Rightarrow>
          (case Pop q of
             None \<Rightarrow> Some (s\<lparr>g_CompletedRequestQueue := q, x_game := G_Popped_Empty\<rparr>)
           | Some (a, q') \<Rightarrow> Some (s\<lparr>g_CompletedRequestQueue := q', x_game := G_Completing a\<rparr>)))"

definition FrameHook_complete :: "completion_env \<Rightarrow> nat \<Rightarrow> extension \<Rightarrow> extension" where
  "FrameHook_complete env a s =
     (case OnCompleted env (the (x_contexts s a)) of
        (c, es) \<Rightarrow>
          (log_effects a es s)\<lparr>x_contexts := (x_contexts s)(a \<mapsto> c), x_completed := x_completed s @ [a],
                               x_game := G_Deleting a\<rparr>)"

definition FrameHook_delete :: "nat \<Rightarrow> extension \<Rightarrow> extension" where
  "FrameHook_delete a s =
     (let s1 = delete_context a s
      in s1\<lparr>g_CompletedRequestQueue := Unlock (g_CompletedRequestQueue s1), x_game := G_Idle\<rparr>)"

section \<open>The event loop\<close>

text \<open>\<^verbatim>\<open>AsyncPerformRequests\<close>: taking the lock, one turn of the loop, and the end.\<close>

definition AsyncPerform_begin :: "extension \<Rightarrow> extension option" where
  "AsyncPerform_begin s =
     (case Lock Loop_Thread (g_RequestQueue s) of
        None \<Rightarrow> None
      | Some q \<Rightarrow> Some (s\<lparr>g_RequestQueue := q, g_AsyncPending := False, x_loop := L_Performing 0\<rparr>))"

definition AsyncPerform_more :: "nat \<Rightarrow> extension \<Rightarrow> bool" where
  "AsyncPerform_more cnt s \<longleftrightarrow> \<not> Empty (g_RequestQueue s) \<and> cnt < MAX_PROCESS"

definition AsyncPerform_turn :: "init_env \<Rightarrow> nat \<Rightarrow> extension \<Rightarrow> extension" where
  "AsyncPerform_turn env cnt s =
     (case Pop (g_RequestQueue s) of
        None \<Rightarrow> s
      | Some (a, q) \<Rightarrow>
          (case InitCurl env (the (x_contexts s a)) of
             (ok, c, es) \<Rightarrow>
               let s1 = (log_effects a es s)\<lparr>g_RequestQueue := q, x_contexts := (x_contexts s)(a \<mapsto> c),
                                             x_started := x_started s @ [a]\<rparr>
               in if \<not> ok then delete_context a s1
                  else s1\<lparr>g_Curl := g_Curl s1 @ [a], x_loop := L_Performing (cnt + 1)\<rparr>))"

definition AsyncPerform_end :: "extension \<Rightarrow> extension" where
  "AsyncPerform_end s = s\<lparr>g_RequestQueue := Unlock (g_RequestQueue s), x_loop := L_Idle\<rparr>"

text \<open>
  \<^verbatim>\<open>PerformRequests\<close> and \<^verbatim>\<open>CurlSocketActivity\<close> run \<^verbatim>\<open>curl_multi_socket_action\<close>, after which
  libcurl holds a message for each transfer in \<^term>\<open>finished\<close>.
\<close>

definition curl_activity :: "nat list \<Rightarrow> extension \<Rightarrow> extension" where
  "curl_activity finished s = s\<lparr>g_Messages := g_Messages s @ finished, x_loop := L_Checking\<rparr>"

text \<open>\<^verbatim>\<open>CheckCompletedRequests\<close>: reading a message, and pushing the context it names.\<close>

definition CheckCompleted_read :: "extension \<Rightarrow> extension" where
  "CheckCompleted_read s =
     (case g_Messages s of
        [] \<Rightarrow> s\<lparr>x_loop := L_Idle\<rparr>
      | a # rest \<Rightarrow>
          s\<lparr>g_Messages := rest, g_Curl := remove1 a (g_Curl s), x_loop := L_Pushing a\<rparr>)"

definition CheckCompleted_push :: "nat \<Rightarrow> extension \<Rightarrow> extension option" where
  "CheckCompleted_push a s =
     (case Lock Loop_Thread (g_CompletedRequestQueue s) of
        None \<Rightarrow> None
      | Some q \<Rightarrow>
          Some (s\<lparr>g_CompletedRequestQueue := Unlock (Push a q), x_reported := x_reported s @ [a], x_loop := L_Checking\<rparr>))"

section \<open>Interleaving\<close>

inductive ext_step :: "extension \<Rightarrow> extension \<Rightarrow> bool" where
  add: "a \<notin> set (x_added s) \<Longrightarrow> x_game s = G_Idle \<or> x_game s = G_Completing b \<Longrightarrow> ctx_curl c = Curl_Unset \<Longrightarrow>
    AddRequestToQueue a c s = Some s' \<Longrightarrow> ext_step s s'"
| frame: "x_game s = G_Idle \<Longrightarrow> ext_step s (FrameHook_requests s)"
| test: "x_game s = G_Test_Completed \<Longrightarrow> ext_step s (FrameHook_test s)"
| pop: "x_game s = G_Lock_Completed \<Longrightarrow> FrameHook_pop s = Some s' \<Longrightarrow> ext_step s s'"
| complete: "x_game s = G_Completing a \<Longrightarrow> ext_step s (FrameHook_complete cenv a s)"
| delete: "x_game s = G_Deleting a \<Longrightarrow> ext_step s (FrameHook_delete a s)"
| perform: "x_loop s = L_Idle \<Longrightarrow> g_AsyncPending s \<Longrightarrow> AsyncPerform_begin s = Some s' \<Longrightarrow> ext_step s s'"
| turn: "x_loop s = L_Performing n \<Longrightarrow> AsyncPerform_more n s \<Longrightarrow> ext_step s (AsyncPerform_turn ienv n s)"
| perform_end: "x_loop s = L_Performing n \<Longrightarrow> \<not> AsyncPerform_more n s \<Longrightarrow> ext_step s (AsyncPerform_end s)"
| activity: "x_loop s = L_Idle \<Longrightarrow> distinct (g_Messages s @ fin) \<Longrightarrow> set fin \<subseteq> set (g_Curl s) \<Longrightarrow>
    ext_step s (curl_activity fin s)"
| read: "x_loop s = L_Checking \<Longrightarrow> ext_step s (CheckCompleted_read s)"
| push: "x_loop s = L_Pushing a \<Longrightarrow> CheckCompleted_push a s = Some s' \<Longrightarrow> ext_step s s'"

inductive ext_run :: "extension \<Rightarrow> extension \<Rightarrow> bool" where
  ext_refl: "ext_run s s"
| ext_next: "ext_run s s' \<Longrightarrow> ext_step s' s'' \<Longrightarrow> ext_run s s''"

section \<open>Invariants\<close>

fun loop_hand :: "loop_pc \<Rightarrow> nat list" where
  "loop_hand (L_Pushing a) = [a]"
| "loop_hand _ = []"

fun game_hand :: "game_pc \<Rightarrow> nat list" where
  "game_hand (G_Completing a) = [a]"
| "game_hand (G_Deleting a) = [a]"
| "game_hand _ = []"

fun completing :: "game_pc \<Rightarrow> nat list" where
  "completing (G_Completing a) = [a]"
| "completing _ = []"

abbreviation requests :: "extension \<Rightarrow> nat list" where
  "requests s \<equiv> lq_queue (g_RequestQueue s)"

abbreviation completions :: "extension \<Rightarrow> nat list" where
  "completions s \<equiv> lq_queue (g_CompletedRequestQueue s)"

definition in_flight :: "extension \<Rightarrow> nat list" where
  "in_flight s = g_Curl s @ loop_hand (x_loop s) @ completions s @ game_hand (x_game s)"

definition inv_order :: "extension \<Rightarrow> bool" where
  "inv_order s \<longleftrightarrow> distinct (x_added s) \<and> x_added s = x_started s @ requests s"

definition inv_place :: "extension \<Rightarrow> bool" where
  "inv_place s \<longleftrightarrow> mset (x_started s) = mset (in_flight s) + mset (x_deleted s) \<and>
     distinct (g_Messages s) \<and> set (g_Messages s) \<subseteq> set (g_Curl s)"

definition inv_report :: "extension \<Rightarrow> bool" where
  "inv_report s \<longleftrightarrow> x_reported s = x_completed s @ completing (x_game s) @ completions s \<and> distinct (x_reported s) \<and>
     set (x_reported s) \<subseteq> set (completions s) \<union> set (game_hand (x_game s)) \<union> set (x_deleted s)"

definition inv_contexts :: "extension \<Rightarrow> bool" where
  "inv_contexts s \<longleftrightarrow> dom (x_contexts s) = set (x_added s) - set (x_deleted s) \<and>
     (\<forall>a \<in> set (requests s). ctx_curl (the (x_contexts s a)) = Curl_Unset) \<and>
     (\<forall>a \<in> set (in_flight s). \<exists>opts. ctx_curl (the (x_contexts s a)) = Curl_Easy opts)"

definition inv_locks :: "extension \<Rightarrow> bool" where
  "inv_locks s \<longleftrightarrow> x_game s \<noteq> G_Popped_Empty \<and> (x_game s = G_Lock_Completed \<longrightarrow> completions s \<noteq> []) \<and>
     lq_mutex (g_RequestQueue s) = (case x_loop s of L_Performing n \<Rightarrow> Some Loop_Thread | _ \<Rightarrow> None) \<and>
     lq_mutex (g_CompletedRequestQueue s) = (if game_hand (x_game s) = [] then None else Some Game_Thread) \<and>
     (\<forall>n. x_loop s = L_Performing n \<longrightarrow> n \<le> MAX_PROCESS)"

fun is_release :: "effect \<Rightarrow> bool" where
  "is_release (ReleaseForward f) = True"
| "is_release _ = False"

fun is_execute :: "effect \<Rightarrow> bool" where
  "is_execute (Forward_Execute f xs e) = True"
| "is_execute _ = False"

definition effects_of :: "extension \<Rightarrow> nat \<Rightarrow> effect list" where
  "effects_of s a = map snd (filter (\<lambda>(b, e). b = a) (x_effects s))"

definition inv_effects :: "extension \<Rightarrow> bool" where
  "inv_effects s \<longleftrightarrow> (\<forall>a.
     length (filter is_release (effects_of s a)) = count_list (x_deleted s) a \<and>
     length (filter is_execute (effects_of s a)) \<le> count_list (x_completed s) a)"

definition ext_inv :: "extension \<Rightarrow> bool" where
  "ext_inv s \<longleftrightarrow> inv_order s \<and> inv_place s \<and> inv_report s \<and> inv_contexts s \<and> inv_locks s \<and> inv_effects s"

lemma in_flight_started:
  "inv_place s \<Longrightarrow> set (x_started s) = set (in_flight s) \<union> set (x_deleted s)"
  unfolding inv_place_def by (metis set_mset_mset set_mset_union)

lemma places_distinct:
  "inv_order s \<Longrightarrow> inv_place s \<Longrightarrow> distinct (in_flight s @ x_deleted s)"
  unfolding inv_order_def inv_place_def by (metis distinct_append mset_append mset_eq_imp_distinct_iff)

lemma ext_inv_start: "ext_inv extension_start"
  by (simp add: ext_inv_def inv_order_def inv_place_def inv_report_def inv_contexts_def inv_locks_def inv_effects_def
      extension_start_def in_flight_def LockedQueue_new_def effects_of_def)

lemma effects_log:
  "x_effects s' = x_effects s @ map (Pair b) es \<Longrightarrow>
     effects_of s' a = effects_of s a @ (if a = b then es else [])"
  by (simp add: effects_of_def filter_map comp_def)

lemma InitCurl_effects: "InitCurl env c = (ok, c', es) \<Longrightarrow> filter is_release es = [] \<and> filter is_execute es = []"
  by (cases c) (auto simp: HTTPRequestContext_InitCurl_def HTTPFileContext_InitCurl_def HTTPFormContext_InitCurl_def
      split: if_splits option.splits prod.splits)

lemma InitCurl_curl: "InitCurl env c = (True, c', es) \<Longrightarrow> \<exists>opts. ctx_curl c' = Curl_Easy opts"
  by (cases c) (auto simp: HTTPRequestContext_InitCurl_def HTTPFileContext_InitCurl_def HTTPFormContext_InitCurl_def
      split: if_splits option.splits prod.splits)

lemma OnCompleted_effects:
  "OnCompleted env c = (c', es) \<Longrightarrow> filter is_release es = [] \<and> length (filter is_execute es) \<le> 1 \<and> ctx_curl c' = ctx_curl c"
  by (cases c) (auto simp: HTTPRequestContext_OnCompleted_def HTTPFileContext_OnCompleted_def
      HTTPFormContext_OnCompleted_def complete_response_def Let_def split: if_splits prod.splits)

lemma destroy_effects: "length (filter is_release (destroy c)) = 1" "filter is_execute (destroy c) = []"
  by (cases c; simp add: HTTPRequestContext_destroy_def HTTPFileContext_destroy_def HTTPFormContext_destroy_def)+

lemma add_inv:
  assumes "ext_inv s" "a \<notin> set (x_added s)" "ctx_curl c = Curl_Unset" "AddRequestToQueue a c s = Some s'"
  shows "ext_inv s'"
proof -
  have s': "s' = s\<lparr>g_RequestQueue := Unlock (Push a (g_RequestQueue s\<lparr>lq_mutex := Some Game_Thread\<rparr>)), x_contexts := (x_contexts s)(a \<mapsto> c),
                  x_added := x_added s @ [a]\<rparr>" "lq_mutex (g_RequestQueue s) = None"
    using assms(4) by (auto simp: AddRequestToQueue_def Lock_def split: option.splits)
  have "a \<notin> set (in_flight s @ x_deleted s)" "a \<notin> set (requests s)"
    using assms(1,2) in_flight_started [of s] by (auto simp: ext_inv_def inv_order_def)
  then show ?thesis using assms(1-3) s'(2) unfolding ext_inv_def s'(1)
    by (intro conjI; elim conjE)
      (auto simp: inv_order_def inv_place_def inv_report_def inv_contexts_def inv_locks_def inv_effects_def
        in_flight_def Unlock_def Push_def effects_of_def split: loop_pc.splits)
qed

lemmas inv_defs = inv_order_def inv_place_def inv_report_def inv_contexts_def inv_locks_def inv_effects_def
  in_flight_def effects_of_def

text \<open>The steps that move no context and do nothing for one.\<close>

lemma frame_inv:
  assumes "ext_inv s" "x_game s = G_Idle"
  shows "ext_inv (FrameHook_requests s)"
  using assms unfolding ext_inv_def FrameHook_requests_def
  by (auto simp: inv_defs)

lemma test_inv:
  assumes "ext_inv s" "x_game s = G_Test_Completed"
  shows "ext_inv (FrameHook_test s)"
  using assms unfolding ext_inv_def FrameHook_test_def by (auto simp: inv_defs Empty_def)

lemma pop_inv:
  assumes "ext_inv s" "x_game s = G_Lock_Completed" "FrameHook_pop s = Some s'"
  shows "ext_inv s'"
proof -
  obtain a rest where q: "completions s = a # rest" "lq_mutex (g_CompletedRequestQueue s) = None"
    using assms(1,2) by (cases "completions s") (auto simp: ext_inv_def inv_locks_def)
  then have "s' = s\<lparr>g_CompletedRequestQueue := \<lparr>lq_mutex = Some Game_Thread, lq_queue = rest\<rparr>, x_game := G_Completing a\<rparr>"
    using assms(3) by (cases "g_CompletedRequestQueue s") (auto simp: FrameHook_pop_def Lock_def Pop_def)
  then show ?thesis using assms(1,2) q unfolding ext_inv_def by (auto simp: inv_defs)
qed

lemma complete_inv:
  assumes "ext_inv s" "x_game s = G_Completing a"
  shows "ext_inv (FrameHook_complete env a s)"
proof -
  obtain c es where oc: "OnCompleted env (the (x_contexts s a)) = (c, es)" by (metis surj_pair)
  note E = OnCompleted_effects [OF oc]
  let ?s = "FrameHook_complete env a s"
  have s': "?s = s\<lparr>x_effects := x_effects s @ map (Pair a) es, x_contexts := (x_contexts s)(a \<mapsto> c),
      x_completed := x_completed s @ [a], x_game := G_Deleting a\<rparr>"
    by (simp add: FrameHook_complete_def oc log_effects_def)
  have fl: "in_flight ?s = in_flight s" "a \<in> set (in_flight s)" using assms(2) by (auto simp: s' in_flight_def)
  have live: "a \<in> dom (x_contexts s)"
    using assms(1) fl places_distinct [of s] in_flight_started [of s]
    by (auto simp: ext_inv_def inv_contexts_def inv_order_def)
  have "a \<notin> set (requests s)" using assms(1) fl(2) in_flight_started [of s] by (auto simp: ext_inv_def inv_order_def)
  then have "inv_contexts ?s"
    using assms(1) live E unfolding ext_inv_def inv_contexts_def fl(1) by (auto simp: s')
  moreover have "inv_effects ?s"
    unfolding inv_effects_def
  proof
    fix b
    have "effects_of ?s b = effects_of s b @ (if b = a then es else [])" by (rule effects_log) (simp add: s')
    moreover have "length (filter is_release (effects_of s b)) = count_list (x_deleted s) b"
        "length (filter is_execute (effects_of s b)) \<le> count_list (x_completed s) b"
      using assms(1) by (auto simp: ext_inv_def inv_effects_def)
    ultimately show "length (filter is_release (effects_of ?s b)) = count_list (x_deleted ?s) b \<and>
        length (filter is_execute (effects_of ?s b)) \<le> count_list (x_completed ?s) b"
      using E by (cases "b = a") (auto simp: s')
  qed
  moreover have "inv_order ?s" "inv_place ?s" "inv_report ?s" "inv_locks ?s"
    using assms unfolding ext_inv_def s' by (auto simp: inv_defs)
  ultimately show ?thesis by (simp add: ext_inv_def)
qed

lemma delete_effects:
  assumes "inv_effects s"
  shows "inv_effects (delete_context a s)"
  unfolding inv_effects_def
proof
  fix b
  let ?s = "delete_context a s"
  have "effects_of ?s b = effects_of s b @ (if b = a then destroy (the (x_contexts s a)) else [])"
    by (rule effects_log) (simp add: delete_context_def log_effects_def)
  then show "length (filter is_release (effects_of ?s b)) = count_list (x_deleted ?s) b \<and>
      length (filter is_execute (effects_of ?s b)) \<le> count_list (x_completed ?s) b"
    using assms destroy_effects [of "the (x_contexts s a)"]
    by (auto simp: inv_effects_def delete_context_def log_effects_def)
qed

lemma delete_inv:
  assumes "ext_inv s" "x_game s = G_Deleting a"
  shows "ext_inv (FrameHook_delete a s)"
proof -
  let ?s = "FrameHook_delete a s"
  have s': "?s = s\<lparr>x_effects := x_effects s @ map (Pair a) (destroy (the (x_contexts s a))),
      x_contexts := (x_contexts s)(a := None), x_deleted := x_deleted s @ [a],
      g_CompletedRequestQueue := g_CompletedRequestQueue s\<lparr>lq_mutex := None\<rparr>, x_game := G_Idle\<rparr>"
    by (simp add: FrameHook_delete_def Let_def delete_context_def log_effects_def Unlock_def)
  have I: "inv_order s" "inv_place s" "inv_report s" "inv_contexts s" "inv_locks s" "inv_effects s"
    using assms(1) by (simp_all add: ext_inv_def)
  have fl: "in_flight s = in_flight ?s @ [a]" using assms(2) by (simp add: s' in_flight_def)
  have a: "a \<notin> set (in_flight ?s)" "a \<notin> set (requests s)" "a \<in> set (x_added s)"
    using places_distinct [OF I(1,2)] in_flight_started [OF I(2)] I(1) fl by (auto simp: inv_order_def)
  have "inv_effects ?s"
    using delete_effects [OF I(6), of a]
    by (simp add: inv_effects_def effects_of_def s' delete_context_def log_effects_def)
  moreover have "inv_contexts ?s"
    using I(4) a fl unfolding inv_contexts_def by (auto simp: s')
  moreover have "inv_order ?s" using I(1) by (auto simp: inv_order_def s')
  moreover have "inv_place ?s" using I(2) fl by (simp add: inv_place_def) (simp add: s')
  moreover have "inv_report ?s" using I(3) assms(2) by (auto simp: inv_report_def s')
  moreover have "inv_locks ?s" using I(5) by (simp add: inv_locks_def s')
  ultimately show ?thesis by (simp add: ext_inv_def)
qed

lemma same_places:
  assumes "ext_inv s" "inv_locks s'" "requests s' = requests s" "x_loop s' = x_loop s \<or> loop_hand (x_loop s) @ loop_hand (x_loop s') = []"
    "s'\<lparr>g_RequestQueue := q, g_AsyncPending := b, x_loop := l\<rparr> = s\<lparr>g_RequestQueue := q, g_AsyncPending := b, x_loop := l\<rparr>"
  shows "ext_inv s'"
proof -
  have eq: "g_CompletedRequestQueue s' = g_CompletedRequestQueue s" "g_Curl s' = g_Curl s" "g_Messages s' = g_Messages s"
    "x_contexts s' = x_contexts s" "x_game s' = x_game s" "x_added s' = x_added s" "x_started s' = x_started s"
    "x_reported s' = x_reported s" "x_completed s' = x_completed s" "x_deleted s' = x_deleted s" "x_effects s' = x_effects s"
    using assms(5) by (cases s; cases s'; simp)+
  have fl: "in_flight s' = in_flight s" using assms(4) by (auto simp: in_flight_def eq)
  show ?thesis using assms(1,2)
    unfolding ext_inv_def inv_order_def inv_place_def inv_report_def inv_contexts_def inv_effects_def effects_of_def
      fl eq assms(3)
    by blast
qed

lemma perform_inv:
  assumes "ext_inv s" "x_loop s = L_Idle" "AsyncPerform_begin s = Some s'"
  shows "ext_inv s'"
proof -
  have s': "s' = s\<lparr>g_RequestQueue := g_RequestQueue s\<lparr>lq_mutex := Some Loop_Thread\<rparr>, g_AsyncPending := False, x_loop := L_Performing 0\<rparr>"
    using assms(3) by (auto simp: AsyncPerform_begin_def Lock_def split: option.splits if_splits)
  show ?thesis
    by (rule same_places [OF assms(1)]) (use assms(1,2) in \<open>auto simp: s' ext_inv_def inv_locks_def\<close>)
qed

lemma perform_end_inv:
  assumes "ext_inv s" "x_loop s = L_Performing n"
  shows "ext_inv (AsyncPerform_end s)"
  by (rule same_places [OF assms(1)])
    (use assms in \<open>auto simp: AsyncPerform_end_def Unlock_def ext_inv_def inv_locks_def\<close>)

lemma activity_inv:
  assumes "ext_inv s" "x_loop s = L_Idle" "distinct (g_Messages s @ fin)" "set fin \<subseteq> set (g_Curl s)"
  shows "ext_inv (curl_activity fin s)"
  using assms unfolding ext_inv_def by (auto simp: curl_activity_def inv_defs)

lemma read_inv:
  assumes "ext_inv s" "x_loop s = L_Checking"
  shows "ext_inv (CheckCompleted_read s)"
proof (cases "g_Messages s")
  case Nil
  then show ?thesis using assms unfolding ext_inv_def by (auto simp: CheckCompleted_read_def inv_defs)
next
  case (Cons a rest)
  have a: "a \<in> set (g_Curl s)" "distinct (g_Curl s)"
    using assms(1) Cons places_distinct [of s] by (auto simp: ext_inv_def inv_place_def in_flight_def)
  then have "set (remove1 a (g_Curl s)) = set (g_Curl s) - {a}" "mset (g_Curl s) = add_mset a (mset (remove1 a (g_Curl s)))"
    by (auto simp: set_remove1_eq)
  then show ?thesis using assms Cons a unfolding ext_inv_def
    by (auto simp: CheckCompleted_read_def inv_defs)
qed

lemma push_inv:
  assumes "ext_inv s" "x_loop s = L_Pushing a" "CheckCompleted_push a s = Some s'"
  shows "ext_inv s'"
proof -
  have s': "s' = s\<lparr>g_CompletedRequestQueue := \<lparr>lq_mutex = None, lq_queue = completions s @ [a]\<rparr>,
      x_reported := x_reported s @ [a], x_loop := L_Checking\<rparr>" "lq_mutex (g_CompletedRequestQueue s) = None"
    using assms(3) by (cases "g_CompletedRequestQueue s"; auto simp: CheckCompleted_push_def Lock_def Push_def Unlock_def split: if_splits option.splits)+
  have "a \<notin> set (completions s) \<union> set (game_hand (x_game s)) \<union> set (x_deleted s)"
    using assms(1,2) places_distinct [of s] by (auto simp: ext_inv_def in_flight_def)
  then show ?thesis using assms(1,2) s'(2) unfolding ext_inv_def s'(1) by (auto simp: inv_defs)
qed

lemma delete_frame [simp]:
  "g_RequestQueue (delete_context a s) = g_RequestQueue s" "g_Curl (delete_context a s) = g_Curl s"
  "g_CompletedRequestQueue (delete_context a s) = g_CompletedRequestQueue s" "g_Messages (delete_context a s) = g_Messages s"
  "x_game (delete_context a s) = x_game s" "x_loop (delete_context a s) = x_loop s" "x_added (delete_context a s) = x_added s"
  "x_started (delete_context a s) = x_started s" "x_reported (delete_context a s) = x_reported s"
  "x_completed (delete_context a s) = x_completed s" "x_deleted (delete_context a s) = x_deleted s @ [a]"
  "x_contexts (delete_context a s) = (x_contexts s)(a := None)"
  by (simp_all add: delete_context_def log_effects_def)

lemma turn_inv:
  assumes "ext_inv s" "x_loop s = L_Performing n" "AsyncPerform_more n s"
  shows "ext_inv (AsyncPerform_turn env n s)"
proof -
  have I: "inv_order s" "inv_place s" "inv_report s" "inv_contexts s" "inv_locks s" "inv_effects s"
    using assms(1) by (simp_all add: ext_inv_def)
  obtain a rest where q: "requests s = a # rest" "n < MAX_PROCESS"
    using assms(3) by (auto simp: AsyncPerform_more_def Empty_def neq_Nil_conv)
  obtain ok c es where ic: "InitCurl env (the (x_contexts s a)) = (ok, c, es)" by (metis surj_pair)
  define s1 where "s1 = s\<lparr>x_effects := x_effects s @ map (Pair a) es, g_RequestQueue := g_RequestQueue s\<lparr>lq_queue := rest\<rparr>,
     x_contexts := (x_contexts s)(a \<mapsto> c), x_started := x_started s @ [a]\<rparr>"
  have turn: "AsyncPerform_turn env n s =
      (if \<not> ok then delete_context a s1 else s1\<lparr>g_Curl := g_Curl s @ [a], x_loop := L_Performing (n + 1)\<rparr>)"
    using q ic by (simp add: AsyncPerform_turn_def Pop_def log_effects_def s1_def)
  have a: "a \<notin> set (in_flight s)" "a \<notin> set (x_deleted s)" "a \<notin> set rest" "a \<in> set (x_added s)"
    using in_flight_started [OF I(2)] I(1) q(1) by (auto simp: inv_order_def)
  have fl1: "in_flight s1 = in_flight s" by (simp add: in_flight_def s1_def)
  have "effects_of s1 b = effects_of s b @ (if b = a then es else [])" for b
    by (rule effects_log) (simp add: s1_def)
  then have eff1: "inv_effects s1"
    using I(6) InitCurl_effects [OF ic] unfolding inv_effects_def by (simp add: s1_def)
  show ?thesis
  proof (cases ok)
    case True
    let ?s = "s1\<lparr>g_Curl := g_Curl s @ [a], x_loop := L_Performing (n + 1)\<rparr>"
    obtain opts where opts: "ctx_curl c = Curl_Easy opts" using InitCurl_curl [of env "the (x_contexts s a)" c es] ic True by auto
    have fl: "set (in_flight ?s) = insert a (set (in_flight s))" "mset (in_flight ?s) = add_mset a (mset (in_flight s))"
      using assms(2) by (auto simp: in_flight_def s1_def)
    have "inv_effects ?s" using eff1 by (simp add: inv_effects_def effects_of_def)
    moreover have "inv_contexts ?s"
      using I(4) a q opts unfolding inv_contexts_def fl by (auto simp: s1_def)
    moreover have "inv_order ?s" using I(1) q by (auto simp: inv_order_def s1_def)
    moreover have "inv_place ?s" using I(2) fl(2) by (auto simp: inv_place_def s1_def)
    moreover have "inv_report ?s" using I(3) by (auto simp: inv_report_def s1_def)
    moreover have "inv_locks ?s" using I(5) assms(2) q(2) by (auto simp: inv_locks_def s1_def)
    ultimately show ?thesis using turn True by (simp add: ext_inv_def)
  next
    case False
    let ?s = "delete_context a s1"
    have fl: "in_flight ?s = in_flight s" by (simp add: in_flight_def s1_def)
    have "inv_effects ?s" using delete_effects [OF eff1] .
    moreover have "inv_contexts ?s"
      using I(4) a q unfolding inv_contexts_def fl by (auto simp: s1_def)
    moreover have "inv_order ?s" using I(1) q by (auto simp: inv_order_def s1_def)
    moreover have "inv_place ?s" using I(2) fl by (auto simp: inv_place_def s1_def)
    moreover have "inv_report ?s" using I(3) by (auto simp: inv_report_def s1_def)
    moreover have "inv_locks ?s" using I(5) assms(2) by (auto simp: inv_locks_def s1_def)
    ultimately show ?thesis using turn False by (simp add: ext_inv_def)
  qed
qed

lemma ext_step_inv: "ext_step s s' \<Longrightarrow> ext_inv s \<Longrightarrow> ext_inv s'"
  by (induction rule: ext_step.induct)
    (blast intro: add_inv frame_inv test_inv pop_inv complete_inv delete_inv perform_inv turn_inv perform_end_inv
      activity_inv read_inv push_inv)+

lemma ext_run_inv: "ext_run s s' \<Longrightarrow> ext_inv s \<Longrightarrow> ext_inv s'"
  by (induction rule: ext_run.induct) (auto intro: ext_step_inv)

lemma reachable_inv: "ext_run extension_start s \<Longrightarrow> ext_inv s"
  using ext_run_inv ext_inv_start by blast

lemma at_most_once: "distinct xs \<Longrightarrow> count_list xs a = (if a \<in> set xs then 1 else 0)"
  by (induction xs) (auto simp: count_list_0_iff)

lemma deleted_distinct: "ext_inv s \<Longrightarrow> distinct (x_deleted s)"
  using places_distinct [of s] by (auto simp: ext_inv_def)

lemma completed_distinct: "ext_inv s \<Longrightarrow> distinct (x_completed s)"
  by (auto simp: ext_inv_def inv_report_def)

section \<open>A whole call of \<open>AsyncPerformRequests\<close>\<close>

fun perform_count :: "extension \<Rightarrow> nat" where
  "perform_count s = (case x_loop s of L_Performing n \<Rightarrow> n | _ \<Rightarrow> 0)"

fun AsyncPerform_loop :: "nat \<Rightarrow> init_env \<Rightarrow> extension \<Rightarrow> extension" where
  "AsyncPerform_loop 0 env s = s"
| "AsyncPerform_loop (Suc fuel) env s =
     (if AsyncPerform_more (perform_count s) s
      then AsyncPerform_loop fuel env (AsyncPerform_turn env (perform_count s) s)
      else AsyncPerform_end s)"

definition AsyncPerformRequests :: "init_env \<Rightarrow> extension \<Rightarrow> extension option" where
  "AsyncPerformRequests env s =
     (case AsyncPerform_begin s of
        None \<Rightarrow> None
      | Some s1 \<Rightarrow> Some (AsyncPerform_loop (Suc (length (requests s))) env s1))"

lemma turn_progress:
  assumes "x_loop s = L_Performing n" "AsyncPerform_more n s" "s' = AsyncPerform_turn env n s"
  shows "\<exists>k. x_loop s' = L_Performing k \<and> length (requests s) = Suc (length (requests s')) \<and>
    (k = n \<and> g_Curl s' = g_Curl s \<or> k = Suc n \<and> length (g_Curl s') = Suc (length (g_Curl s)))"
proof -
  obtain a rest where q: "requests s = a # rest"
    using assms(2) by (auto simp: AsyncPerform_more_def Empty_def neq_Nil_conv)
  show ?thesis using assms(1,3) q
    by (auto simp: AsyncPerform_turn_def Pop_def log_effects_def delete_context_def Let_def split: prod.splits)
qed

lemma ext_run_trans: "ext_run s t \<Longrightarrow> ext_step s0 s \<Longrightarrow> ext_run s0 t"
  by (induction rule: ext_run.induct) (auto intro: ext_run.intros)

lemma AsyncPerform_loop_result:
  assumes "x_loop s = L_Performing n" "length (requests s) < fuel"
  shows "ext_run s (AsyncPerform_loop fuel env s) \<and> x_loop (AsyncPerform_loop fuel env s) = L_Idle \<and>
    lq_mutex (g_RequestQueue (AsyncPerform_loop fuel env s)) = None \<and>
    length (requests (AsyncPerform_loop fuel env s)) \<le> length (requests s) - (MAX_PROCESS - n) \<and>
    length (g_Curl (AsyncPerform_loop fuel env s)) \<le> length (g_Curl s) + (MAX_PROCESS - n)"
  using assms
proof (induction fuel env s arbitrary: n rule: AsyncPerform_loop.induct)
  case (2 fuel env s)
  have pc: "perform_count s = n" using "2.prems"(1) by simp
  show ?case
  proof (cases "AsyncPerform_more n s")
    case True
    let ?t = "AsyncPerform_turn env n s"
    obtain k where k: "x_loop ?t = L_Performing k" "length (requests s) = Suc (length (requests ?t))"
        "k = n \<and> g_Curl ?t = g_Curl s \<or> k = Suc n \<and> length (g_Curl ?t) = Suc (length (g_Curl s))"
      using turn_progress [OF "2.prems"(1) True refl] by blast
    have lt: "n < MAX_PROCESS" using True by (simp add: AsyncPerform_more_def)
    note IH = "2.IH" [unfolded pc, OF True k(1)]
    have "ext_step s ?t" using ext_step.turn [OF "2.prems"(1) True] .
    then show ?thesis using IH "2.prems"(2) k(2,3) lt True pc by (auto intro: ext_run_trans)
  next
    case False
    have "length (requests s) = 0 \<or> n \<ge> MAX_PROCESS" using False by (auto simp: AsyncPerform_more_def Empty_def)
    moreover have "ext_run s (AsyncPerform_end s)"
      using ext_step.perform_end [OF "2.prems"(1) False] by (auto intro: ext_run.intros)
    ultimately show ?thesis using False pc by (auto simp: AsyncPerform_end_def Unlock_def)
  qed
qed simp

section \<open>Schedules\<close>

text \<open>A schedule names the steps of a run; executing it gives a state the threads can reach.\<close>

datatype ext_action =
    Do_Add nat IHTTPContext
  | Do_Frame
  | Do_Test
  | Do_Pop
  | Do_Complete completion_env
  | Do_Delete
  | Do_Perform
  | Do_Turn init_env
  | Do_Perform_End
  | Do_Activity "nat list"
  | Do_Read
  | Do_Push

fun exec_action :: "ext_action \<Rightarrow> extension \<Rightarrow> extension option" where
  "exec_action (Do_Add a c) s =
     (if a \<notin> set (x_added s) \<and> x_game s = G_Idle \<and> ctx_curl c = Curl_Unset then AddRequestToQueue a c s else None)"
| "exec_action Do_Frame s = (if x_game s = G_Idle then Some (FrameHook_requests s) else None)"
| "exec_action Do_Test s = (if x_game s = G_Test_Completed then Some (FrameHook_test s) else None)"
| "exec_action Do_Pop s = (if x_game s = G_Lock_Completed then FrameHook_pop s else None)"
| "exec_action (Do_Complete env) s =
     (case x_game s of G_Completing a \<Rightarrow> Some (FrameHook_complete env a s) | _ \<Rightarrow> None)"
| "exec_action Do_Delete s = (case x_game s of G_Deleting a \<Rightarrow> Some (FrameHook_delete a s) | _ \<Rightarrow> None)"
| "exec_action Do_Perform s = (if x_loop s = L_Idle \<and> g_AsyncPending s then AsyncPerform_begin s else None)"
| "exec_action (Do_Turn env) s =
     (case x_loop s of
        L_Performing n \<Rightarrow> if AsyncPerform_more n s then Some (AsyncPerform_turn env n s) else None | _ \<Rightarrow> None)"
| "exec_action Do_Perform_End s =
     (case x_loop s of
        L_Performing n \<Rightarrow> if AsyncPerform_more n s then None else Some (AsyncPerform_end s) | _ \<Rightarrow> None)"
| "exec_action (Do_Activity fin) s =
     (if x_loop s = L_Idle \<and> distinct (g_Messages s @ fin) \<and> set fin \<subseteq> set (g_Curl s)
      then Some (curl_activity fin s) else None)"
| "exec_action Do_Read s = (if x_loop s = L_Checking then Some (CheckCompleted_read s) else None)"
| "exec_action Do_Push s = (case x_loop s of L_Pushing a \<Rightarrow> CheckCompleted_push a s | _ \<Rightarrow> None)"

fun exec_schedule :: "ext_action list \<Rightarrow> extension \<Rightarrow> extension option" where
  "exec_schedule [] s = Some s"
| "exec_schedule (act # acts) s =
     (case exec_action act s of None \<Rightarrow> None | Some s' \<Rightarrow> exec_schedule acts s')"

lemma exec_action_step: "exec_action act s = Some s' \<Longrightarrow> ext_step s s'"
  by (cases act) (auto split: if_splits game_pc.splits loop_pc.splits intro: ext_step.intros)

lemma exec_schedule_run: "exec_schedule acts s = Some s' \<Longrightarrow> ext_run s s'"
  by (induction acts s rule: exec_schedule.induct)
    (auto split: option.splits intro: ext_refl ext_run_trans exec_action_step)

text \<open>One form request from the plugin's call to the deletion of its context.\<close>

definition sample_schedule :: "ext_action list" where
  "sample_schedule =
     [Do_Add 7 (Form_Context (HTTPFormContext_new (cstr ''u'') (cstr ''a=b'') [] 3 0
        \<lparr>to_connectTimeout = 10, to_maxRedirects = 5, to_timeout = 30, to_maxSendSpeed = 0, to_maxRecvSpeed = 0,
         to_useBasicAuth = False, to_username = [], to_password = []\<rparr>)),
      Do_Frame, Do_Test, Do_Perform, Do_Turn \<lparr>ie_easy_init = True, ie_caBundlePath = [], ie_fopen = None\<rparr>,
      Do_Perform_End, Do_Activity [7], Do_Read, Do_Push, Do_Read, Do_Frame, Do_Test, Do_Pop,
      Do_Complete \<lparr>ce_function_count = 1, ce_response_code = 200, ce_handle = 9, ce_handle_error = 0, ce_callback = id\<rparr>,
      Do_Delete]"

lemma sample_run:
  "\<exists>s. ext_run extension_start s \<and> requests s = [] \<and> g_Curl s = [] \<and> completions s = [] \<and> x_loop s = L_Idle \<and>
     x_game s = G_Idle \<and> x_added s = [7] \<and> x_completed s = [7] \<and> x_deleted s = [7]"
proof -
  have "case exec_schedule sample_schedule extension_start of None \<Rightarrow> False
    | Some s \<Rightarrow> requests s = [] \<and> g_Curl s = [] \<and> completions s = [] \<and> x_loop s = L_Idle \<and>
        x_game s = G_Idle \<and> x_added s = [7] \<and> x_completed s = [7] \<and> x_deleted s = [7]"
    by code_simp
  then show ?thesis using exec_schedule_run [of sample_schedule extension_start] by (auto split: option.splits)
qed

section \<open>Properties of the extension\<close>

text \<open>
  C3: each request context is in exactly one place, and requests start in the order they
  were made.  In every state the two threads reach, however they interleave, the contexts
  handed to \<^verbatim>\<open>AddRequestToQueue\<close> are those started followed by those still in the request
  queue, and each started context is exactly once among the transfers of libcurl, in the
  hand of the loop thread, in the completed queue, in the hand of the game thread, or
  deleted.
\<close>

theorem contexts_in_one_place:
  assumes "ext_run extension_start s"
  shows "x_added s = x_started s @ requests s \<and>
    distinct (requests s @ g_Curl s @ loop_hand (x_loop s) @ completions s @ game_hand (x_game s) @ x_deleted s) \<and>
    set (x_added s) = set (requests s @ g_Curl s @ loop_hand (x_loop s) @ completions s @ game_hand (x_game s) @ x_deleted s)"
proof -
  note inv = reachable_inv [OF assms, unfolded ext_inv_def]
  then have order: "distinct (x_added s)" "x_added s = x_started s @ requests s" unfolding inv_order_def by blast+
  have "distinct (in_flight s @ x_deleted s)" "set (x_started s) = set (in_flight s) \<union> set (x_deleted s)"
    using inv places_distinct in_flight_started by blast+
  then show ?thesis using order by (auto simp: in_flight_def)
qed

theorem contexts_in_one_place_witness:
  "\<exists>s. ext_run extension_start s \<and> x_added s = [7] \<and> x_started s = [7] \<and> requests s = [] \<and> set (x_deleted s) = {7}"
proof -
  obtain s where s: "ext_run extension_start s" "requests s = []" "x_added s = [7]" "x_deleted s = [7]"
    using sample_run by blast
  then have "x_started s = [7]" using contexts_in_one_place [OF s(1)] by simp
  then show ?thesis using s by (intro exI [of _ s]) simp
qed

text \<open>
  C18: a plugin's callback runs at most once per request, and every forward is released
  exactly once, when its context is deleted; the callback never runs for a request whose
  transfer could not be set up.
\<close>

theorem callback_once_release_once:
  assumes "ext_run extension_start s"
  shows "length (filter is_execute (effects_of s a)) \<le> (if a \<in> set (x_completed s) then 1 else 0) \<and>
    length (filter is_release (effects_of s a)) = (if a \<in> set (x_deleted s) then 1 else 0)"
proof -
  note inv = reachable_inv [OF assms]
  then have "length (filter is_execute (effects_of s a)) \<le> count_list (x_completed s) a"
    "length (filter is_release (effects_of s a)) = count_list (x_deleted s) a"
    by (simp_all add: ext_inv_def inv_effects_def)
  then show ?thesis
    using at_most_once [OF completed_distinct [OF inv], of a] at_most_once [OF deleted_distinct [OF inv], of a] by simp
qed

theorem callback_once_release_once_witness:
  "\<exists>s. ext_run extension_start s \<and> length (filter is_release (effects_of s 7)) = 1 \<and>
     length (filter is_execute (effects_of s 7)) \<le> 1"
proof -
  obtain s where s: "ext_run extension_start s" "x_deleted s = [7]" "x_completed s = [7]" using sample_run by blast
  with callback_once_release_once [OF s(1), of 7] show ?thesis by auto
qed

text \<open>
  C20: the unlocked test of \<^verbatim>\<open>FrameHook\<close> is safe.  Although \<^verbatim>\<open>Empty()\<close> is read without the
  lock, \<^verbatim>\<open>Pop\<close> never meets an empty queue, and the context it takes is alive, with a curl
  handle, when \<^verbatim>\<open>OnCompleted\<close> and the destructor use it; the mutexes are held exactly while
  \<^verbatim>\<open>AsyncPerformRequests\<close> and the completion of a request run.
\<close>

theorem frame_hook_safe:
  assumes "ext_run extension_start s"
  shows "x_game s \<noteq> G_Popped_Empty \<and>
    (\<forall>a. a \<in> set (game_hand (x_game s)) \<longrightarrow>
       (\<exists>c opts. x_contexts s a = Some c \<and> ctx_curl c = Curl_Easy opts) \<and>
       lq_mutex (g_CompletedRequestQueue s) = Some Game_Thread) \<and>
    (lq_mutex (g_RequestQueue s) \<noteq> None \<longrightarrow> (\<exists>n. x_loop s = L_Performing n \<and> n \<le> MAX_PROCESS))"
proof -
  note inv = reachable_inv [OF assms, unfolded ext_inv_def]
  have "\<exists>c opts. x_contexts s a = Some c \<and> ctx_curl c = Curl_Easy opts" if "a \<in> set (game_hand (x_game s))" for a
  proof -
    have a: "a \<in> set (in_flight s)" using that by (simp add: in_flight_def)
    then have "a \<in> dom (x_contexts s)"
      using inv places_distinct [of s] in_flight_started [of s] by (auto simp: inv_contexts_def inv_order_def)
    moreover obtain opts where "ctx_curl (the (x_contexts s a)) = Curl_Easy opts"
      using inv a by (auto simp: inv_contexts_def)
    ultimately show ?thesis by (auto simp: dom_def)
  qed
  then show ?thesis using inv by (auto simp: inv_locks_def split: loop_pc.splits if_splits)
qed

theorem frame_hook_safe_witness:
  "\<exists>s. ext_run extension_start s \<and> x_completed s = [7] \<and> x_game s \<noteq> G_Popped_Empty"
  using sample_run frame_hook_safe by blast

text \<open>
  C23: callbacks come in the order in which libcurl reported the transfers, and when both
  threads are idle and nothing is queued or running, every context that was ever added has
  been deleted.
\<close>

theorem completions_in_order_and_drained:
  assumes "ext_run extension_start s"
  shows "x_reported s = x_completed s @ completing (x_game s) @ completions s \<and>
    (requests s = [] \<and> g_Curl s = [] \<and> completions s = [] \<and> x_loop s = L_Idle \<and> x_game s = G_Idle \<longrightarrow>
       set (x_deleted s) = set (x_added s) \<and> x_contexts s = Map.empty)"
proof -
  note inv = reachable_inv [OF assms, unfolded ext_inv_def]
  then have "x_reported s = x_completed s @ completing (x_game s) @ completions s" by (simp add: inv_report_def)
  moreover have "set (x_deleted s) = set (x_added s) \<and> x_contexts s = Map.empty"
    if "requests s = [] \<and> g_Curl s = [] \<and> completions s = [] \<and> x_loop s = L_Idle \<and> x_game s = G_Idle"
  proof -
    have "in_flight s = []" using that by (simp add: in_flight_def)
    then have "set (x_deleted s) = set (x_added s)" using inv that in_flight_started [of s] by (simp add: inv_order_def)
    then show ?thesis using inv by (auto simp: inv_contexts_def)
  qed
  ultimately show ?thesis by blast
qed

theorem completions_in_order_and_drained_witness:
  "\<exists>s. ext_run extension_start s \<and> x_added s = [7] \<and> x_reported s = [7] \<and> x_contexts s = Map.empty"
proof -
  obtain s where s: "ext_run extension_start s" "requests s = []" "g_Curl s = []" "completions s = []"
      "x_loop s = L_Idle" "x_game s = G_Idle" "x_added s = [7]" "x_completed s = [7]" using sample_run by blast
  with completions_in_order_and_drained [OF s(1)] show ?thesis by auto
qed

text \<open>
  C24: a call of \<^verbatim>\<open>AsyncPerformRequests\<close> returns with the lock released, adds at most
  \<^verbatim>\<open>MAX_PROCESS\<close> transfers to libcurl, and takes at least \<^verbatim>\<open>MAX_PROCESS\<close> requests from the
  queue or empties it, whichever transfers could be set up; so each wake-up makes progress
  until no request is left.
\<close>

theorem perform_requests_progress:
  assumes "x_loop s = L_Idle" "g_AsyncPending s" "lq_mutex (g_RequestQueue s) = None"
  shows "\<exists>s'. AsyncPerformRequests env s = Some s' \<and> ext_run s s' \<and> x_loop s' = L_Idle \<and>
    lq_mutex (g_RequestQueue s') = None \<and> length (g_Curl s') \<le> length (g_Curl s) + MAX_PROCESS \<and>
    length (requests s') \<le> length (requests s) - MAX_PROCESS"
proof -
  let ?s1 = "s\<lparr>g_RequestQueue := g_RequestQueue s\<lparr>lq_mutex := Some Loop_Thread\<rparr>, g_AsyncPending := False, x_loop := L_Performing 0\<rparr>"
  have b: "AsyncPerform_begin s = Some ?s1" using assms(3) by (simp add: AsyncPerform_begin_def Lock_def)
  have st: "ext_step s ?s1" using perform [OF assms(1,2) b] .
  have "x_loop ?s1 = L_Performing 0" "length (requests ?s1) < Suc (length (requests s))" by simp_all
  from AsyncPerform_loop_result [OF this, of env] show ?thesis
    using b ext_run_trans [OF _ st] by (simp add: AsyncPerformRequests_def)
qed

theorem perform_requests_progress_witness:
  "\<exists>s'. AsyncPerformRequests \<lparr>ie_easy_init = True, ie_caBundlePath = [], ie_fopen = None\<rparr>
     (extension_start\<lparr>g_AsyncPending := True\<rparr>) = Some s' \<and> x_loop s' = L_Idle"
proof -
  have "x_loop (extension_start\<lparr>g_AsyncPending := True\<rparr>) = L_Idle" "g_AsyncPending (extension_start\<lparr>g_AsyncPending := True\<rparr>)"
    "lq_mutex (g_RequestQueue (extension_start\<lparr>g_AsyncPending := True\<rparr>)) = None"
    by (simp_all add: extension_start_def LockedQueue_new_def)
  from perform_requests_progress [OF this] show ?thesis by blast
qed

end
