(* ===== verification/Native_Interface.thy ===== *)
theory Native_Interface
  imports Json_Roundtrip Json_Dump_Loops Http_Request
begin

text \<open>
  What the natives share: cells and their conversions, SourceMod as a record of functions over a state of its own, the objects
  behind handles, and \<^verbatim>\<open>OnHandleDestroy\<close> of \<^verbatim>\<open>extension.cpp\<close>.  SourceMod is not part of the sources: its handle
  system, plugin memory, formatting and forwards are parameters, and \<^verbatim>\<open>handle_laws\<close> states what the natives rely on.
\<close>

section \<open>Cells\<close>

text \<open>
  A \<^verbatim>\<open>cell_t\<close> is a 32 bit signed integer, here an \<^typ>\<open>int\<close> in that range; the conversions to and from
  \<^verbatim>\<open>cell_t\<close>, \<^verbatim>\<open>Handle_t\<close> and \<^verbatim>\<open>size_t\<close> wrap around.
\<close>

definition to_cell :: "int \<Rightarrow> int" where
  "to_cell x = sint (word_of_int x :: 32 word)"

definition to_handle :: "int \<Rightarrow> nat" where
  "to_handle x = nat (x mod 2 ^ 32)"

definition to_size :: "int \<Rightarrow> nat" where
  "to_size x = nat (x mod 2 ^ 64)"

definition of_bool_cell :: "bool \<Rightarrow> int" where
  "of_bool_cell b = (if b then 1 else 0)"

type_synonym params = "nat \<Rightarrow> int"

section \<open>SourceMod\<close>

datatype HandleType = htJSON | htJSONObjectKeys | htHTTPClient | htHTTPRequest | htHTTPResponse

text \<open>
  What the natives ask of SourceMod, over a state of its own: its handle system, with the error code 0 for
  \<^verbatim>\<open>HandleError_None\<close>, the memory and the pending error of the calling plugin, the formatting of arguments and
  the creation of forwards.  \<^verbatim>\<open>FreeHandle\<close> tells which object the handle system destroys, if any; a handle
  may have copies.  A \<^verbatim>\<open>void *\<close> is an address or \<^const>\<open>None\<close>.
\<close>

record 'h sourcemod =
  sm_ReadHandle :: "HandleType \<Rightarrow> nat \<Rightarrow> 'h \<Rightarrow> int \<times> nat option"
  sm_CreateHandleEx :: "HandleType \<Rightarrow> nat option \<Rightarrow> 'h \<Rightarrow> (nat \<times> int) \<times> 'h"
  sm_FreeHandle :: "nat \<Rightarrow> 'h \<Rightarrow> (HandleType \<times> nat option) option \<times> 'h"
  sm_LocalToString :: "int \<Rightarrow> 'h \<Rightarrow> byte list"
  sm_StringToLocalUTF8 :: "int \<Rightarrow> int \<Rightarrow> byte list \<Rightarrow> 'h \<Rightarrow> 'h"
  sm_ThrowNativeError :: "byte list \<Rightarrow> 'h \<Rightarrow> 'h"
  sm_FormatString :: "nat \<Rightarrow> params \<Rightarrow> nat \<Rightarrow> 'h \<Rightarrow> byte list option \<times> 'h"
  sm_CreateForward :: "int \<Rightarrow> 'h \<Rightarrow> forward_env \<times> 'h"
  sm_LogError :: "byte list \<Rightarrow> 'h \<Rightarrow> 'h"
  sm_BuildPath :: "byte list \<Rightarrow> byte list"
  sm_ctof :: "int \<Rightarrow> float32"
  sm_ftoc :: "float32 \<Rightarrow> int"

text \<open>
  The rest of the surroundings: the decimal point of the locale, the files that open for reading or writing
  and what \<^verbatim>\<open>strerror\<close> says of one that does not, how \<^verbatim>\<open>fwrite\<close> and \<^verbatim>\<open>fclose\<close> behave, and libcurl as in
  \<^verbatim>\<open>httprequest.cpp\<close>.
\<close>

record io_env =
  io_point :: byte
  io_reason :: "byte list \<Rightarrow> byte list"
  io_can_write :: "byte list \<Rightarrow> bool"
  io_fwrite :: "byte list \<Rightarrow> byte list \<Rightarrow> nat \<times> byte list"
  io_fclose :: "byte list \<Rightarrow> int"
  io_header_order :: header_order
  io_slist :: mem
  io_easy_init :: bool
  io_escape :: "byte list \<Rightarrow> byte list option"

section \<open>The state of the extension's objects\<close>

record JSONObjectKeys =
  jk_object :: ptr
  jk_iter :: "iter option"

text \<open>
  The JSON heap, the objects made by \<^verbatim>\<open>new\<close> behind handles, the files, and the contexts given to
  \<^verbatim>\<open>AddRequestToQueue\<close>.
\<close>

record 'h natives =
  n_sm :: 'h
  n_world :: world
  n_keys :: "nat \<rightharpoonup> JSONObjectKeys"
  n_clients :: "nat \<rightharpoonup> HTTPClient"
  n_requests :: "nat \<rightharpoonup> HTTPRequest"
  n_responses :: "nat \<rightharpoonup> HTTPResponse"
  n_fresh :: nat
  n_files :: "byte list \<rightharpoonup> byte list"
  n_queue :: "IHTTPContext list"

type_synonym 'h native = "'h sourcemod \<Rightarrow> io_env \<Rightarrow> params \<Rightarrow> 'h natives \<Rightarrow> int \<times> 'h natives"

definition ThrowNativeError :: "'h sourcemod \<Rightarrow> byte list \<Rightarrow> 'h natives \<Rightarrow> int \<times> 'h natives" where
  "ThrowNativeError sm msg s = (0, s\<lparr>n_sm := sm_ThrowNativeError sm msg (n_sm s)\<rparr>)"

definition StringToLocalUTF8 :: "'h sourcemod \<Rightarrow> int \<Rightarrow> int \<Rightarrow> byte list \<Rightarrow> 'h natives \<Rightarrow> 'h natives" where
  "StringToLocalUTF8 sm addr maxlen str s = s\<lparr>n_sm := sm_StringToLocalUTF8 sm addr maxlen (c_string str) (n_sm s)\<rparr>"

text \<open>A call of the JSON library.\<close>

definition on_world :: "(world \<Rightarrow> 'r \<times> world) \<Rightarrow> 'h natives \<Rightarrow> 'r \<times> 'h natives" where
  "on_world f s = (case f (n_world s) of (r, w) \<Rightarrow> (r, s\<lparr>n_world := w\<rparr>))"

definition key_param :: "'h sourcemod \<Rightarrow> params \<Rightarrow> nat \<Rightarrow> 'h natives \<Rightarrow> byte list" where
  "key_param sm params i s = c_string (sm_LocalToString sm (params i) (n_sm s))"

text \<open>\<^verbatim>\<open>JSONHandler::OnHandleDestroy\<close> and the others.\<close>

fun OnHandleDestroy :: "HandleType \<Rightarrow> nat option \<Rightarrow> 'h natives \<Rightarrow> 'h natives" where
  "OnHandleDestroy htJSON object s = s\<lparr>n_world := json_decref object (n_world s)\<rparr>"
| "OnHandleDestroy htJSONObjectKeys object s = s\<lparr>n_keys := (n_keys s)(the object := None)\<rparr>"
| "OnHandleDestroy htHTTPClient object s = s\<lparr>n_clients := (n_clients s)(the object := None)\<rparr>"
| "OnHandleDestroy htHTTPRequest object s = s\<lparr>n_requests := (n_requests s)(the object := None)\<rparr>"
| "OnHandleDestroy htHTTPResponse object s = s"

text \<open>\<^verbatim>\<open>handlesys->FreeHandle\<close>, also for a plugin's \<^verbatim>\<open>delete\<close>.\<close>

definition FreeHandle_call :: "'h sourcemod \<Rightarrow> nat \<Rightarrow> 'h natives \<Rightarrow> 'h natives" where
  "FreeHandle_call sm hndl s =
     (case sm_FreeHandle sm hndl (n_sm s) of
        (destroyed, h) \<Rightarrow>
          (case destroyed of
             None \<Rightarrow> s\<lparr>n_sm := h\<rparr>
           | Some (t, object) \<Rightarrow> OnHandleDestroy t object (s\<lparr>n_sm := h\<rparr>)))"

section \<open>What the handle system promises\<close>

text \<open>
  The objects that handles refer to.  A handle that reads belongs to an object of that type; a created handle adds
  its object, a failed creation adds nothing; freeing takes away at most the object it destroys; nothing else
  touches the handles.
\<close>

definition handle_laws :: "'h sourcemod \<Rightarrow> ('h \<Rightarrow> (HandleType \<times> nat option) multiset) \<Rightarrow> bool" where
  "handle_laws sm owned \<longleftrightarrow>
     (\<forall>t x h y. sm_ReadHandle sm t x h = (0, y) \<longrightarrow> (t, y) \<in># owned h) \<and>
     (\<forall>t y h x e h'. sm_CreateHandleEx sm t y h = ((x, e), h') \<longrightarrow>
        owned h' = (if x = BAD_HANDLE then owned h else add_mset (t, y) (owned h))) \<and>
     (\<forall>x h d h'. sm_FreeHandle sm x h = (d, h') \<longrightarrow>
        owned h = (case d of None \<Rightarrow> owned h' | Some object \<Rightarrow> add_mset object (owned h'))) \<and>
     (\<forall>a n str h. owned (sm_StringToLocalUTF8 sm a n str h) = owned h) \<and>
     (\<forall>msg h. owned (sm_ThrowNativeError sm msg h) = owned h) \<and>
     (\<forall>n ps i h v h'. sm_FormatString sm n ps i h = (v, h') \<longrightarrow> owned h' = owned h) \<and>
     (\<forall>c h f h'. sm_CreateForward sm c h = (f, h') \<longrightarrow> owned h' = owned h) \<and>
     (\<forall>msg h. owned (sm_LogError sm msg h) = owned h)"

end
