(* ===== verification/Json_Natives.thy ===== *)
theory Json_Natives
  imports Native_Interface
begin

text \<open>
  \<^verbatim>\<open>json_natives.cpp\<close>: the natives of \<^verbatim>\<open>JSONObject\<close>, \<^verbatim>\<open>JSONObjectKeys\<close>, \<^verbatim>\<open>JSONArray\<close> and \<^verbatim>\<open>JSON\<close>, with the table
  that registers them.  Each native takes SourceMod, the surroundings, its parameters and the state, and gives
  the cell it returns.  Natives that differ in one call are instances of a common definition.
\<close>

section \<open>Objects\<close>

text \<open>\<^const>\<open>None\<close> is the null pointer, returned with the error thrown.\<close>

definition GetJSONFromHandle :: "'h sourcemod \<Rightarrow> int \<Rightarrow> 'h natives \<Rightarrow> ptr option \<times> 'h natives" where
  "GetJSONFromHandle sm param s =
     (let hndl = to_handle param in
      case sm_ReadHandle sm htJSON hndl (n_sm s) of
        (err, json) \<Rightarrow>
          if err \<noteq> 0 then
            (None, snd (ThrowNativeError sm
               (cstr ''Invalid JSON handle '' @ fmt_x hndl @ cstr '' (error '' @ fmt_d err @ cstr '')'') s))
          else (json, s))"

text \<open>The beginning of most natives: \<^verbatim>\<open>if (object == NULL) return 0\<close>.\<close>

definition with_json :: "'h sourcemod \<Rightarrow> int \<Rightarrow> (ptr \<Rightarrow> 'h natives \<Rightarrow> int \<times> 'h natives) \<Rightarrow> 'h natives \<Rightarrow> int \<times> 'h natives" where
  "with_json sm param f s =
     (case GetJSONFromHandle sm param s of (None, s1) \<Rightarrow> (0, s1) | (Some object, s1) \<Rightarrow> f object s1)"

text \<open>The end of the natives that return a new handle.\<close>

definition new_json_handle :: "'h sourcemod \<Rightarrow> (int \<Rightarrow> byte list) \<Rightarrow> ptr option \<Rightarrow> 'h natives \<Rightarrow> int \<times> 'h natives" where
  "new_json_handle sm msg object s =
     (case sm_CreateHandleEx sm htJSON object (n_sm s) of
        ((hndl, err), h) \<Rightarrow>
          let s1 = s\<lparr>n_sm := h\<rparr> in
          if hndl = BAD_HANDLE then
            ThrowNativeError sm (msg err) (s1\<lparr>n_world := json_decref object (n_world s1)\<rparr>)
          else (to_cell (int hndl), s1))"

definition object_handle_msg :: "int \<Rightarrow> byte list" where
  "object_handle_msg err = cstr ''Could not create object handle (error '' @ fmt_d err @ cstr '')''"

definition CreateObject :: "'h native" where
  "CreateObject sm io params s =
     (case on_world json_object s of (object, s1) \<Rightarrow> new_json_handle sm object_handle_msg object s1)"

definition GetObjectSize :: "'h native" where
  "GetObjectSize sm io params =
     with_json sm (params 1) (\<lambda>object s. (to_cell (int (json_object_size (n_world s) (Some object))), s))"

text \<open>\<^verbatim>\<open>GetObjectValue\<close> and \<^verbatim>\<open>GetArrayValue\<close> after the lookup: a handle that owns a reference.\<close>

definition value_handle :: "'h sourcemod \<Rightarrow> ptr \<Rightarrow> 'h natives \<Rightarrow> int \<times> 'h natives" where
  "value_handle sm v s =
     (case sm_CreateHandleEx sm htJSON (Some v) (n_sm s) of
        ((hndlValue, err), h) \<Rightarrow>
          let s1 = s\<lparr>n_sm := h\<rparr> in
          if hndlValue = BAD_HANDLE then
            ThrowNativeError sm (cstr ''Could not create value handle (error '' @ fmt_d err @ cstr '')'') s1
          else (to_cell (int hndlValue), s1\<lparr>n_world := json_incref (Some v) (n_world s1)\<rparr>))"

definition key_msg :: "byte list \<Rightarrow> byte list" where
  "key_msg key = cstr ''Could not retrieve value for key '' @ [39] @ key @ [39]"

text \<open>
  The lookup of a member; \<^term>\<open>missing\<close> is what the native does without one: it throws, or in
  \<^verbatim>\<open>GetObjectInt64Value\<close> and \<^verbatim>\<open>GetObjectStringValue\<close> returns 0.
\<close>

definition with_member ::
  "'h sourcemod \<Rightarrow> params \<Rightarrow> (byte list \<Rightarrow> 'h natives \<Rightarrow> int \<times> 'h natives) \<Rightarrow> (ptr \<Rightarrow> 'h natives \<Rightarrow> int \<times> 'h natives) \<Rightarrow>
   'h natives \<Rightarrow> int \<times> 'h natives" where
  "with_member sm params missing f =
     with_json sm (params 1) (\<lambda>object s.
       let key = key_param sm params 2 s in
       case json_object_get (n_world s) (Some object) (Some key) of
         None \<Rightarrow> missing key s
       | Some v \<Rightarrow> f v s)"

definition GetObjectValue :: "'h native" where
  "GetObjectValue sm io params = with_member sm params (\<lambda>key. ThrowNativeError sm (key_msg key)) (value_handle sm)"

definition GetObjectBoolValue :: "'h native" where
  "GetObjectBoolValue sm io params =
     with_member sm params (\<lambda>key. ThrowNativeError sm (key_msg key))
       (\<lambda>v s. (of_bool_cell (json_is_true (n_world s) (Some v)), s))"

definition GetObjectFloatValue :: "'h native" where
  "GetObjectFloatValue sm io params =
     with_member sm params (\<lambda>key. ThrowNativeError sm (key_msg key))
       (\<lambda>v s. (sm_ftoc sm (float_of_double (json_number_value (n_world s) (Some v))), s))"

definition GetObjectIntValue :: "'h native" where
  "GetObjectIntValue sm io params =
     with_member sm params (\<lambda>key. ThrowNativeError sm (key_msg key))
       (\<lambda>v s. (to_cell (json_integer_value (n_world s) (Some v)), s))"

text \<open>\<^verbatim>\<open>snprintf\<close> into \<^verbatim>\<open>char result[20]\<close>.\<close>

definition int64_text :: "int \<Rightarrow> byte list" where
  "int64_text i = take 19 (fmt_d i)"

definition store_int64 :: "'h sourcemod \<Rightarrow> params \<Rightarrow> ptr \<Rightarrow> 'h natives \<Rightarrow> int \<times> 'h natives" where
  "store_int64 sm params v s =
     (1, StringToLocalUTF8 sm (params 3) (params 4) (int64_text (json_integer_value (n_world s) (Some v))) s)"

definition store_string :: "'h sourcemod \<Rightarrow> params \<Rightarrow> ptr \<Rightarrow> 'h natives \<Rightarrow> int \<times> 'h natives" where
  "store_string sm params v s =
     (case json_string_value (n_world s) (Some v) of
        None \<Rightarrow> (0, s)
      | Some result \<Rightarrow> (1, StringToLocalUTF8 sm (params 3) (params 4) result s))"

definition GetObjectInt64Value :: "'h native" where
  "GetObjectInt64Value sm io params = with_member sm params (\<lambda>key s. (0, s)) (store_int64 sm params)"

definition GetObjectStringValue :: "'h native" where
  "GetObjectStringValue sm io params = with_member sm params (\<lambda>key s. (0, s)) (store_string sm params)"

definition IsObjectNullValue :: "'h native" where
  "IsObjectNullValue sm io params =
     with_member sm params (\<lambda>key. ThrowNativeError sm (key_msg key))
       (\<lambda>v s. (of_bool_cell (json_is_null (n_world s) (Some v)), s))"

definition IsObjectKeyValid :: "'h native" where
  "IsObjectKeyValid sm io params = with_member sm params (\<lambda>key s. (0, s)) (\<lambda>v s. (1, s))"

text \<open>\<^verbatim>\<open>return (... == 0)\<close>.\<close>

definition succeeded :: "int \<times> 'h natives \<Rightarrow> int \<times> 'h natives" where
  "succeeded rs = (case rs of (r, s) \<Rightarrow> (of_bool_cell (r = 0), s))"

definition SetObjectValue :: "'h native" where
  "SetObjectValue sm io params =
     with_json sm (params 1) (\<lambda>object s.
       let key = key_param sm params 2 s in
       with_json sm (params 3) (\<lambda>v s1.
         succeeded (on_world (json_object_set (Some object) (Some key) (Some v)) s1)) s)"

text \<open>The setters of a new value, which \<^term>\<open>create\<close> makes.\<close>

definition set_member ::
  "'h sourcemod \<Rightarrow> params \<Rightarrow> ('h natives \<Rightarrow> ptr option \<times> 'h natives) \<Rightarrow> 'h natives \<Rightarrow> int \<times> 'h natives" where
  "set_member sm params create =
     with_json sm (params 1) (\<lambda>object s.
       let key = key_param sm params 2 s in
       case create s of
         (v, s1) \<Rightarrow> succeeded (on_world (json_object_set_new (Some object) (Some key) v) s1))"

definition new_bool :: "params \<Rightarrow> nat \<Rightarrow> 'h natives \<Rightarrow> ptr option \<times> 'h natives" where
  "new_bool params i s = (json_boolean (params i \<noteq> 0), s)"

definition new_float :: "'h sourcemod \<Rightarrow> params \<Rightarrow> nat \<Rightarrow> 'h natives \<Rightarrow> ptr option \<times> 'h natives" where
  "new_float sm params i s = on_world (json_real (double_of_float (sm_ctof sm (params i)))) s"

definition new_int :: "params \<Rightarrow> nat \<Rightarrow> 'h natives \<Rightarrow> ptr option \<times> 'h natives" where
  "new_int params i s = on_world (json_integer (params i)) s"

definition new_int64 :: "'h sourcemod \<Rightarrow> params \<Rightarrow> nat \<Rightarrow> 'h natives \<Rightarrow> ptr option \<times> 'h natives" where
  "new_int64 sm params i s = on_world (json_integer (fst (strtoll (key_param sm params i s)))) s"

definition new_null :: "'h natives \<Rightarrow> ptr option \<times> 'h natives" where
  "new_null s = (json_null, s)"

definition new_string :: "'h sourcemod \<Rightarrow> params \<Rightarrow> nat \<Rightarrow> 'h natives \<Rightarrow> ptr option \<times> 'h natives" where
  "new_string sm params i s = on_world (json_string (Some (key_param sm params i s))) s"

definition SetObjectBoolValue :: "'h native" where
  "SetObjectBoolValue sm io params = set_member sm params (new_bool params 3)"

definition SetObjectFloatValue :: "'h native" where
  "SetObjectFloatValue sm io params = set_member sm params (new_float sm params 3)"

definition SetObjectIntValue :: "'h native" where
  "SetObjectIntValue sm io params = set_member sm params (new_int params 3)"

definition SetObjectInt64Value :: "'h native" where
  "SetObjectInt64Value sm io params = set_member sm params (new_int64 sm params 3)"

definition SetObjectNullValue :: "'h native" where
  "SetObjectNullValue sm io params = set_member sm params new_null"

definition SetObjectStringValue :: "'h native" where
  "SetObjectStringValue sm io params = set_member sm params (new_string sm params 3)"

definition RemoveFromObject :: "'h native" where
  "RemoveFromObject sm io params =
     with_json sm (params 1) (\<lambda>object s.
       succeeded (on_world (json_object_del (Some object) (Some (key_param sm params 2 s))) s))"

definition ClearObject :: "'h native" where
  "ClearObject sm io params = with_json sm (params 1) (\<lambda>object s. succeeded (on_world (json_object_clear (Some object)) s))"

subsection \<open>Keys\<close>

definition JSONObjectKeys_new :: "world \<Rightarrow> ptr \<Rightarrow> JSONObjectKeys" where
  "JSONObjectKeys_new w object = \<lparr>jk_object = object, jk_iter = json_object_iter w (Some object)\<rparr>"

definition JSONObjectKeys_GetKey :: "world \<Rightarrow> JSONObjectKeys \<Rightarrow> byte list option" where
  "JSONObjectKeys_GetKey w keys = json_object_iter_key w (jk_iter keys)"

definition JSONObjectKeys_Next :: "world \<Rightarrow> JSONObjectKeys \<Rightarrow> JSONObjectKeys" where
  "JSONObjectKeys_Next w keys = keys\<lparr>jk_iter := json_object_iter_next w (Some (jk_object keys)) (jk_iter keys)\<rparr>"

text \<open>Whether the iterator still points to a pair of a table that exists.\<close>

definition iter_live :: "world \<Rightarrow> JSONObjectKeys \<Rightarrow> bool" where
  "iter_live w keys \<longleftrightarrow>
     (case jk_iter keys of
        None \<Rightarrow> True
      | Some (p, z) \<Rightarrow> (case object_table w (Some p) of None \<Rightarrow> False | Some h \<Rightarrow> ht_pairs h z \<noteq> None))"

definition CreateObjectKeys :: "'h native" where
  "CreateObjectKeys sm io params =
     with_json sm (params 1) (\<lambda>object s.
       let a = n_fresh s;
           s1 = s\<lparr>n_keys := (n_keys s)(a \<mapsto> JSONObjectKeys_new (n_world s) object), n_fresh := a + 1\<rparr>
       in case sm_CreateHandleEx sm htJSONObjectKeys (Some a) (n_sm s1) of
            ((hndlKeys, err), h) \<Rightarrow>
              let s2 = s1\<lparr>n_sm := h\<rparr> in
              if hndlKeys = BAD_HANDLE then
                ThrowNativeError sm (cstr ''Could not create object keys handle (error '' @ fmt_d err @ cstr '')'')
                  (s2\<lparr>n_keys := (n_keys s2)(a := None)\<rparr>)
              else (to_cell (int hndlKeys), s2))"

text \<open>Reading through an iterator whose pair is gone is recorded as a fault.\<close>

definition ReadObjectKey :: "'h native" where
  "ReadObjectKey sm io params s =
     (let hndlKeys = to_handle (params 1) in
      case sm_ReadHandle sm htJSONObjectKeys hndlKeys (n_sm s) of
        (err, object) \<Rightarrow>
          if err \<noteq> 0 then
            ThrowNativeError sm (cstr ''Invalid object keys handle '' @ fmt_x hndlKeys @ cstr '' (error '' @ fmt_d err @ cstr '')'') s
          else
            let a = the object;
                keys = the (n_keys s a);
                s1 = (if iter_live (n_world s) keys then s else s\<lparr>n_world := (n_world s)\<lparr>w_fault := True\<rparr>\<rparr>)
            in case JSONObjectKeys_GetKey (n_world s1) keys of
                 None \<Rightarrow> (0, s1)
               | Some key \<Rightarrow>
                   let s2 = StringToLocalUTF8 sm (params 2) (params 3) key s1
                   in (1, s2\<lparr>n_keys := (n_keys s2)(a \<mapsto> JSONObjectKeys_Next (n_world s2) keys)\<rparr>))"

section \<open>Arrays\<close>

definition CreateArray :: "'h native" where
  "CreateArray sm io params s =
     (case on_world json_array s of
        (object, s1) \<Rightarrow> new_json_handle sm (\<lambda>err. cstr ''Could not create array handle.'') object s1)"

definition GetArraySize :: "'h native" where
  "GetArraySize sm io params =
     with_json sm (params 1) (\<lambda>object s. (to_cell (int (json_array_size (n_world s) (Some object))), s))"

definition index_msg :: "int \<Rightarrow> byte list" where
  "index_msg index = cstr ''Could not retrieve value at index '' @ fmt_d index"

definition with_element ::
  "'h sourcemod \<Rightarrow> params \<Rightarrow> (ptr \<Rightarrow> 'h natives \<Rightarrow> int \<times> 'h natives) \<Rightarrow> 'h natives \<Rightarrow> int \<times> 'h natives" where
  "with_element sm params f =
     with_json sm (params 1) (\<lambda>object s.
       let index = params 2 in
       case json_array_get (n_world s) (Some object) (to_size index) of
         None \<Rightarrow> ThrowNativeError sm (index_msg index) s
       | Some v \<Rightarrow> f v s)"

definition GetArrayValue :: "'h native" where
  "GetArrayValue sm io params = with_element sm params (value_handle sm)"

definition GetArrayBoolValue :: "'h native" where
  "GetArrayBoolValue sm io params =
     with_element sm params (\<lambda>v s. (of_bool_cell (json_is_true (n_world s) (Some v)), s))"

definition GetArrayFloatValue :: "'h native" where
  "GetArrayFloatValue sm io params =
     with_element sm params (\<lambda>v s. (sm_ftoc sm (float_of_double (json_number_value (n_world s) (Some v))), s))"

definition GetArrayIntValue :: "'h native" where
  "GetArrayIntValue sm io params =
     with_element sm params (\<lambda>v s. (to_cell (json_integer_value (n_world s) (Some v)), s))"

definition GetArrayInt64Value :: "'h native" where
  "GetArrayInt64Value sm io params = with_element sm params (store_int64 sm params)"

definition GetArrayStringValue :: "'h native" where
  "GetArrayStringValue sm io params = with_element sm params (store_string sm params)"

definition IsArrayNullValue :: "'h native" where
  "IsArrayNullValue sm io params =
     with_element sm params (\<lambda>v s. (of_bool_cell (json_is_null (n_world s) (Some v)), s))"

definition SetArrayValue :: "'h native" where
  "SetArrayValue sm io params =
     with_json sm (params 1) (\<lambda>object s.
       with_json sm (params 3) (\<lambda>v s1.
         succeeded (on_world (json_array_set (Some object) (to_size (params 2)) (Some v)) s1)) s)"

definition set_element ::
  "'h sourcemod \<Rightarrow> params \<Rightarrow> ('h natives \<Rightarrow> ptr option \<times> 'h natives) \<Rightarrow> 'h natives \<Rightarrow> int \<times> 'h natives" where
  "set_element sm params create =
     with_json sm (params 1) (\<lambda>object s.
       case create s of
         (v, s1) \<Rightarrow> succeeded (on_world (json_array_set_new (Some object) (to_size (params 2)) v) s1))"

definition SetArrayBoolValue :: "'h native" where
  "SetArrayBoolValue sm io params = set_element sm params (new_bool params 3)"

definition SetArrayFloatValue :: "'h native" where
  "SetArrayFloatValue sm io params = set_element sm params (new_float sm params 3)"

definition SetArrayIntValue :: "'h native" where
  "SetArrayIntValue sm io params = set_element sm params (new_int params 3)"

definition SetArrayInt64Value :: "'h native" where
  "SetArrayInt64Value sm io params = set_element sm params (new_int64 sm params 3)"

definition SetArrayNullValue :: "'h native" where
  "SetArrayNullValue sm io params = set_element sm params new_null"

definition SetArrayStringValue :: "'h native" where
  "SetArrayStringValue sm io params = set_element sm params (new_string sm params 3)"

definition PushArrayValue :: "'h native" where
  "PushArrayValue sm io params =
     with_json sm (params 1) (\<lambda>object s.
       with_json sm (params 2) (\<lambda>v s1. succeeded (on_world (json_array_append (Some object) (Some v)) s1)) s)"

definition push_element ::
  "'h sourcemod \<Rightarrow> params \<Rightarrow> ('h natives \<Rightarrow> ptr option \<times> 'h natives) \<Rightarrow> 'h natives \<Rightarrow> int \<times> 'h natives" where
  "push_element sm params create =
     with_json sm (params 1) (\<lambda>object s.
       case create s of (v, s1) \<Rightarrow> succeeded (on_world (json_array_append_new (Some object) v) s1))"

definition PushArrayBoolValue :: "'h native" where
  "PushArrayBoolValue sm io params = push_element sm params (new_bool params 2)"

definition PushArrayFloatValue :: "'h native" where
  "PushArrayFloatValue sm io params = push_element sm params (new_float sm params 2)"

definition PushArrayIntValue :: "'h native" where
  "PushArrayIntValue sm io params = push_element sm params (new_int params 2)"

definition PushArrayInt64Value :: "'h native" where
  "PushArrayInt64Value sm io params = push_element sm params (new_int64 sm params 2)"

definition PushArrayNullValue :: "'h native" where
  "PushArrayNullValue sm io params = push_element sm params new_null"

definition PushArrayStringValue :: "'h native" where
  "PushArrayStringValue sm io params = push_element sm params (new_string sm params 2)"

definition RemoveFromArray :: "'h native" where
  "RemoveFromArray sm io params =
     with_json sm (params 1) (\<lambda>object s. succeeded (on_world (json_array_remove (Some object) (to_size (params 2))) s))"

definition ClearArray :: "'h native" where
  "ClearArray sm io params = with_json sm (params 1) (\<lambda>object s. succeeded (on_world (json_array_clear (Some object)) s))"

section \<open>Text and files\<close>

text \<open>The uninitialised \<^verbatim>\<open>json_error_t error\<close>, which the decoder fills in.\<close>

definition stack_error :: json_error_t where
  "stack_error = \<lparr>err_line = 0, err_column = 0, err_position = 0, err_source = [], err_text = [], err_code = json_error_unknown\<rparr>"

definition invalid_json_msg :: "json_error_t option \<Rightarrow> byte list" where
  "invalid_json_msg error =
     (case error of
        None \<Rightarrow> []
      | Some e \<Rightarrow> cstr ''Invalid JSON in line '' @ fmt_d (err_line e) @ cstr '', column '' @ fmt_d (err_column e) @
                  cstr '': '' @ err_text e)"

text \<open>The part that \<^verbatim>\<open>FromString\<close> and \<^verbatim>\<open>FromFile\<close> share.  The decoder always returns (\<^verbatim>\<open>decoding_ends\<close>).\<close>

definition from_loaded :: "'h sourcemod \<Rightarrow> load_result \<Rightarrow> 'h natives \<Rightarrow> int \<times> 'h natives" where
  "from_loaded sm res s =
     (case res of
        (object, error, w) \<Rightarrow>
          let s1 = s\<lparr>n_world := w\<rparr> in
          if object = None then ThrowNativeError sm (invalid_json_msg error) s1
          else new_json_handle sm object_handle_msg object s1)"

definition FromString :: "'h native" where
  "FromString sm io params s =
     from_loaded sm (the (json_loads (io_point io) (Some (key_param sm params 1 s)) (to_size (params 2)) (Some stack_error) (n_world s))) s"

text \<open>A file opened for reading is the rest of its content.\<close>

fun file_getc :: "byte list \<Rightarrow> int \<times> byte list" where
  "file_getc [] = (-1, [])"
| "file_getc (b # bs) = (uint b, bs)"

definition open_read :: "io_env \<Rightarrow> 'h natives \<Rightarrow> byte list \<Rightarrow> byte list + byte list" where
  "open_read io s path = (case n_files s path of None \<Rightarrow> Inl (io_reason io path) | Some content \<Rightarrow> Inr content)"

definition FromFile :: "'h native" where
  "FromFile sm io params s =
     (let realpath = sm_BuildPath sm (key_param sm params 1 s);
          n = load_fuel (case n_files s realpath of None \<Rightarrow> 0 | Some content \<Rightarrow> length content)
      in from_loaded sm (the (json_load_file n (io_point io) (open_read io s) file_getc (Some realpath) (to_size (params 2))
           (Some stack_error) (n_world s))) s)"

definition ToString :: "'h native" where
  "ToString sm io params =
     with_json sm (params 1) (\<lambda>object s.
       case on_world (json_dumps (io_point io) (Some object) (to_size (params 4))) s of
         (None, s1) \<Rightarrow> (0, s1)
       | (Some result, s1) \<Rightarrow> (1, StringToLocalUTF8 sm (params 2) (params 3) result s1))"

definition open_write :: "io_env \<Rightarrow> byte list \<Rightarrow> byte list option" where
  "open_write io path = (if io_can_write io path then Some [] else None)"

definition ToFile :: "'h native" where
  "ToFile sm io params =
     with_json sm (params 1) (\<lambda>object s.
       let realpath = sm_BuildPath sm (key_param sm params 2 s) in
       case json_dump_file (io_point io) (open_write io) (io_fwrite io) (io_fclose io) (Some object) realpath
              (to_size (params 3)) (n_world s) of
         (r, file, w) \<Rightarrow>
           (of_bool_cell (r = 0),
            s\<lparr>n_world := w, n_files := (case file of None \<Rightarrow> n_files s | Some content \<Rightarrow> (n_files s)(realpath \<mapsto> content))\<rparr>))"

definition json_natives :: "(string \<times> 'h native) list" where
  "json_natives =
     [(''JSONObject.JSONObject'', CreateObject), (''JSONObject.Size.get'', GetObjectSize),
      (''JSONObject.Get'', GetObjectValue), (''JSONObject.GetBool'', GetObjectBoolValue),
      (''JSONObject.GetFloat'', GetObjectFloatValue), (''JSONObject.GetInt'', GetObjectIntValue),
      (''JSONObject.GetInt64'', GetObjectInt64Value), (''JSONObject.GetString'', GetObjectStringValue),
      (''JSONObject.IsNull'', IsObjectNullValue), (''JSONObject.HasKey'', IsObjectKeyValid),
      (''JSONObject.Set'', SetObjectValue), (''JSONObject.SetBool'', SetObjectBoolValue),
      (''JSONObject.SetFloat'', SetObjectFloatValue), (''JSONObject.SetInt'', SetObjectIntValue),
      (''JSONObject.SetInt64'', SetObjectInt64Value), (''JSONObject.SetNull'', SetObjectNullValue),
      (''JSONObject.SetString'', SetObjectStringValue), (''JSONObject.Remove'', RemoveFromObject),
      (''JSONObject.Clear'', ClearObject), (''JSONObject.Keys'', CreateObjectKeys),
      (''JSONObjectKeys.ReadKey'', ReadObjectKey),
      (''JSONArray.JSONArray'', CreateArray), (''JSONArray.Length.get'', GetArraySize),
      (''JSONArray.Get'', GetArrayValue), (''JSONArray.GetBool'', GetArrayBoolValue),
      (''JSONArray.GetFloat'', GetArrayFloatValue), (''JSONArray.GetInt'', GetArrayIntValue),
      (''JSONArray.GetInt64'', GetArrayInt64Value), (''JSONArray.GetString'', GetArrayStringValue),
      (''JSONArray.IsNull'', IsArrayNullValue), (''JSONArray.Set'', SetArrayValue),
      (''JSONArray.SetBool'', SetArrayBoolValue), (''JSONArray.SetFloat'', SetArrayFloatValue),
      (''JSONArray.SetInt'', SetArrayIntValue), (''JSONArray.SetInt64'', SetArrayInt64Value),
      (''JSONArray.SetNull'', SetArrayNullValue), (''JSONArray.SetString'', SetArrayStringValue),
      (''JSONArray.Push'', PushArrayValue), (''JSONArray.PushBool'', PushArrayBoolValue),
      (''JSONArray.PushFloat'', PushArrayFloatValue), (''JSONArray.PushInt'', PushArrayIntValue),
      (''JSONArray.PushInt64'', PushArrayInt64Value), (''JSONArray.PushNull'', PushArrayNullValue),
      (''JSONArray.PushString'', PushArrayStringValue), (''JSONArray.Remove'', RemoveFromArray),
      (''JSONArray.Clear'', ClearArray), (''JSONObject.FromString'', FromString), (''JSONObject.FromFile'', FromFile),
      (''JSONArray.FromString'', FromString), (''JSONArray.FromFile'', FromFile), (''JSON.ToString'', ToString),
      (''JSON.ToFile'', ToFile)]"

end
