(* ===== verification/Http_Natives.thy ===== *)
theory Http_Natives
  imports Json_Natives
begin

text \<open>
  \<^verbatim>\<open>http_natives.cpp\<close>: the natives of \<^verbatim>\<open>HTTPClient\<close>, \<^verbatim>\<open>HTTPRequest\<close> and \<^verbatim>\<open>HTTPResponse\<close>, with the table that
  registers them.  A request ends as a context appended to \<^verbatim>\<open>n_queue\<close>, the arguments of \<^verbatim>\<open>AddRequestToQueue\<close> in order.
\<close>

section \<open>Handles\<close>

definition client_msg :: "nat \<Rightarrow> int \<Rightarrow> byte list" where
  "client_msg hndl err = cstr ''Invalid HTTP client handle '' @ fmt_x hndl @ cstr '' (error '' @ fmt_d err @ cstr '')''"

text \<open>The beginning of the natives of a client: its address and the object.\<close>

definition with_client ::
  "'h sourcemod \<Rightarrow> int \<Rightarrow> (nat \<Rightarrow> HTTPClient \<Rightarrow> 'h natives \<Rightarrow> int \<times> 'h natives) \<Rightarrow> 'h natives \<Rightarrow> int \<times> 'h natives" where
  "with_client sm param f s =
     (let hndlClient = to_handle param in
      case sm_ReadHandle sm htHTTPClient hndlClient (n_sm s) of
        (err, object) \<Rightarrow>
          if err \<noteq> 0 then ThrowNativeError sm (client_msg hndlClient err) s
          else f (the object) (the (n_clients s (the object))) s)"

definition GetRequestFromHandle :: "'h sourcemod \<Rightarrow> int \<Rightarrow> 'h natives \<Rightarrow> nat option \<times> 'h natives" where
  "GetRequestFromHandle sm param s =
     (let hndl = to_handle param in
      case sm_ReadHandle sm htHTTPRequest hndl (n_sm s) of
        (err, request) \<Rightarrow>
          if err \<noteq> 0 then
            (None, snd (ThrowNativeError sm
               (cstr ''Invalid HTTPRequest handle '' @ fmt_x hndl @ cstr '' (error '' @ fmt_d err @ cstr '')'') s))
          else (request, s))"

definition with_request ::
  "'h sourcemod \<Rightarrow> int \<Rightarrow> (nat \<Rightarrow> HTTPRequest \<Rightarrow> 'h natives \<Rightarrow> int \<times> 'h natives) \<Rightarrow> 'h natives \<Rightarrow> int \<times> 'h natives" where
  "with_request sm param f s =
     (case GetRequestFromHandle sm param s of
        (None, s1) \<Rightarrow> (0, s1)
      | (Some a, s1) \<Rightarrow> f a (the (n_requests s1 a)) s1)"

definition with_response ::
  "'h sourcemod \<Rightarrow> int \<Rightarrow> (nat \<Rightarrow> HTTPResponse \<Rightarrow> 'h natives \<Rightarrow> int \<times> 'h natives) \<Rightarrow> 'h natives \<Rightarrow> int \<times> 'h natives" where
  "with_response sm param f s =
     (let hndlResponse = to_handle param in
      case sm_ReadHandle sm htHTTPResponse hndlResponse (n_sm s) of
        (err, object) \<Rightarrow>
          if err \<noteq> 0 then
            ThrowNativeError sm (cstr ''Invalid HTTP response handle '' @ fmt_x hndlResponse @ cstr '' (error '' @ fmt_d err @ cstr '')'') s
          else f (the object) (the (n_responses s (the object))) s)"

section \<open>Clients\<close>

definition CreateClient :: "'h native" where
  "CreateClient sm io params s =
     (let baseURL = key_param sm params 1 s in
      if baseURL = [] then ThrowNativeError sm (cstr ''Base URL cannot be empty.'') s
      else
        let a = n_fresh s;
            s1 = s\<lparr>n_clients := (n_clients s)(a \<mapsto> HTTPClient_new baseURL), n_fresh := a + 1\<rparr>
        in case sm_CreateHandleEx sm htHTTPClient (Some a) (n_sm s1) of
             ((hndl, err), h) \<Rightarrow>
               let s2 = s1\<lparr>n_sm := h\<rparr> in
               if hndl = BAD_HANDLE then
                 ThrowNativeError sm (cstr ''Could not create HTTP client handle (error '' @ fmt_d err @ cstr '')'')
                   (s2\<lparr>n_clients := (n_clients s2)(a := None)\<rparr>)
               else (to_cell (int hndl), s2))"

definition put_client :: "nat \<Rightarrow> HTTPClient \<Rightarrow> 'h natives \<Rightarrow> int \<times> 'h natives" where
  "put_client a client s = (1, s\<lparr>n_clients := (n_clients s)(a \<mapsto> client)\<rparr>)"

definition SetClientHeader :: "'h native" where
  "SetClientHeader sm io params =
     with_client sm (params 1) (\<lambda>a client s.
       put_client a (HTTPClient_SetHeader (key_param sm params 2 s) (key_param sm params 3 s) client) s)"

text \<open>
  The outcome of a method of \<^verbatim>\<open>HTTPClient\<close> that makes a request: a context for the queue, or an error in
  the log, which the native does not see.
\<close>

definition submitted :: "'h sourcemod \<Rightarrow> effect list + IHTTPContext \<Rightarrow> 'h natives \<Rightarrow> 'h natives" where
  "submitted sm outcome s =
     (case outcome of
        Inl effs \<Rightarrow> fold (\<lambda>e s. case e of LogError msg \<Rightarrow> s\<lparr>n_sm := sm_LogError sm msg (n_sm s)\<rparr> | _ \<Rightarrow> s) effs s
      | Inr context \<Rightarrow> s\<lparr>n_queue := n_queue s @ [context]\<rparr>)"

definition client_request ::
  "'h sourcemod \<Rightarrow> io_env \<Rightarrow> byte list \<Rightarrow> byte list \<Rightarrow> ptr option \<Rightarrow> int \<Rightarrow> int \<Rightarrow> HTTPClient \<Rightarrow> 'h natives \<Rightarrow> int \<times> 'h natives" where
  "client_request sm io method endpoint data callback v client s =
     (case sm_CreateForward sm callback (n_sm s) of
        (fe, h) \<Rightarrow>
          (case HTTPClient_Request (io_point io) (io_header_order io) fe (io_slist io) client method endpoint data v (n_world s) of
             (outcome, w) \<Rightarrow> (1, submitted sm outcome (s\<lparr>n_sm := h, n_world := w\<rparr>))))"

definition GetRequest :: "'h native" where
  "GetRequest sm io params =
     with_client sm (params 1) (\<lambda>a client s.
       client_request sm io (cstr ''GET'') (key_param sm params 2 s) None (params 3) (params 4) client s)"

definition DeleteRequest :: "'h native" where
  "DeleteRequest sm io params =
     with_client sm (params 1) (\<lambda>a client s.
       client_request sm io (cstr ''DELETE'') (key_param sm params 2 s) None (params 3) (params 4) client s)"

text \<open>\<^verbatim>\<open>PostRequest\<close>, \<^verbatim>\<open>PutRequest\<close> and \<^verbatim>\<open>PatchRequest\<close> differ in the method.\<close>

definition client_send :: "byte list \<Rightarrow> 'h native" where
  "client_send method sm io params =
     with_client sm (params 1) (\<lambda>a client s.
       let endpoint = key_param sm params 2 s; hndlData = to_handle (params 3) in
       case sm_ReadHandle sm htJSON hndlData (n_sm s) of
         (err, data) \<Rightarrow>
           if err \<noteq> 0 then
             ThrowNativeError sm (cstr ''Invalid data handle '' @ fmt_x hndlData @ cstr '' (error '' @ fmt_d err @ cstr '')'') s
           else client_request sm io method endpoint data (params 4) (params 5) client s)"

definition PostRequest :: "'h native" where "PostRequest = client_send (cstr ''POST'')"
definition PutRequest :: "'h native" where "PutRequest = client_send (cstr ''PUT'')"
definition PatchRequest :: "'h native" where "PatchRequest = client_send (cstr ''PATCH'')"

definition client_transfer ::
  "(header_order \<Rightarrow> forward_env \<Rightarrow> mem \<Rightarrow> HTTPClient \<Rightarrow> byte list \<Rightarrow> byte list \<Rightarrow> int \<Rightarrow> effect list + IHTTPContext) \<Rightarrow> 'h native" where
  "client_transfer transfer sm io params =
     with_client sm (params 1) (\<lambda>a client s.
       let endpoint = key_param sm params 2 s; path = key_param sm params 3 s in
       case sm_CreateForward sm (params 4) (n_sm s) of
         (fe, h) \<Rightarrow>
           (1, submitted sm (transfer (io_header_order io) fe (io_slist io) client endpoint path (params 5)) (s\<lparr>n_sm := h\<rparr>)))"

definition DownloadFile :: "'h native" where "DownloadFile = client_transfer HTTPClient_DownloadFile"
definition UploadFile :: "'h native" where "UploadFile = client_transfer HTTPClient_UploadFile"

subsection \<open>Options\<close>

definition client_get :: "(HTTPClient \<Rightarrow> int) \<Rightarrow> 'h native" where
  "client_get g sm io params = with_client sm (params 1) (\<lambda>a client s. (g client, s))"

definition client_set :: "(int \<Rightarrow> HTTPClient \<Rightarrow> HTTPClient) \<Rightarrow> 'h native" where
  "client_set g sm io params = with_client sm (params 1) (\<lambda>a client. put_client a (g (params 2) client))"

definition GetClientConnectTimeout :: "'h native" where "GetClientConnectTimeout = client_get hc_connectTimeout"
definition SetClientConnectTimeout :: "'h native" where "SetClientConnectTimeout = client_set HTTPClient_SetConnectTimeout"
definition GetClientFollowLocation :: "'h native" where "GetClientFollowLocation = client_get (\<lambda>c. of_bool_cell (hc_followLocation c))"
definition SetClientFollowLocation :: "'h native" where "SetClientFollowLocation = client_set (\<lambda>x. HTTPClient_SetFollowLocation (x = 1))"
definition GetClientTimeout :: "'h native" where "GetClientTimeout = client_get hc_timeout"
definition SetClientTimeout :: "'h native" where "SetClientTimeout = client_set HTTPClient_SetTimeout"
definition GetClientMaxSendSpeed :: "'h native" where "GetClientMaxSendSpeed = client_get hc_maxSendSpeed"
definition SetClientMaxSendSpeed :: "'h native" where "SetClientMaxSendSpeed = client_set HTTPClient_SetMaxSendSpeed"
definition GetClientMaxRecvSpeed :: "'h native" where "GetClientMaxRecvSpeed = client_get hc_maxRecvSpeed"
definition SetClientMaxRecvSpeed :: "'h native" where "SetClientMaxRecvSpeed = client_set HTTPClient_SetMaxRecvSpeed"

section \<open>Requests\<close>

definition CreateRequest :: "'h native" where
  "CreateRequest sm io params s =
     (let url = key_param sm params 1 s in
      if url = [] then ThrowNativeError sm (cstr ''URL cannot be empty.'') s
      else
        let a = n_fresh s;
            s1 = s\<lparr>n_requests := (n_requests s)(a \<mapsto> HTTPRequest_new url), n_fresh := a + 1\<rparr>
        in case sm_CreateHandleEx sm htHTTPRequest (Some a) (n_sm s1) of
             ((hndlRequest, err), h) \<Rightarrow>
               let s2 = s1\<lparr>n_sm := h\<rparr> in
               if hndlRequest = BAD_HANDLE then
                 ThrowNativeError sm (cstr ''Could not create HTTPRequest handle (error '' @ fmt_d err @ cstr '')'')
                   (s2\<lparr>n_requests := (n_requests s2)(a := None)\<rparr>)
               else (to_cell (int hndlRequest), s2))"

definition put_request :: "nat \<Rightarrow> HTTPRequest \<Rightarrow> 'h natives \<Rightarrow> int \<times> 'h natives" where
  "put_request a request s = (1, s\<lparr>n_requests := (n_requests s)(a \<mapsto> request)\<rparr>)"

text \<open>
  The natives that take a name and a formatted value, in \<^verbatim>\<open>char value[8192]\<close>; \<^verbatim>\<open>FormatString\<close> gives
  \<^const>\<open>None\<close> when it threw.
\<close>

definition request_named :: "byte list \<Rightarrow> (io_env \<Rightarrow> byte list \<Rightarrow> byte list \<Rightarrow> HTTPRequest \<Rightarrow> HTTPRequest) \<Rightarrow> 'h native" where
  "request_named empty_msg change sm io params =
     with_request sm (params 1) (\<lambda>a request s.
       let name = key_param sm params 2 s in
       if name = [] then ThrowNativeError sm empty_msg s
       else
         case sm_FormatString sm 8192 params 3 (n_sm s) of
           (None, h) \<Rightarrow> (0, s\<lparr>n_sm := h\<rparr>)
         | (Some v, h) \<Rightarrow> put_request a (change io name v request) (s\<lparr>n_sm := h\<rparr>))"

definition AppendRequestFormParam :: "'h native" where
  "AppendRequestFormParam =
     request_named (cstr ''Parameter name cannot be empty.'') (\<lambda>io. HTTPRequest_AppendFormParam (io_easy_init io) (io_escape io))"

definition AppendRequestQueryParam :: "'h native" where
  "AppendRequestQueryParam =
     request_named (cstr ''Parameter name cannot be empty.'') (\<lambda>io. HTTPRequest_AppendQueryParam (io_easy_init io) (io_escape io))"

definition SetRequestHeader :: "'h native" where
  "SetRequestHeader = request_named (cstr ''Header name cannot be empty.'') (\<lambda>io. HTTPRequest_SetHeader)"

definition SetRequestBasicAuth :: "'h native" where
  "SetRequestBasicAuth sm io params =
     with_request sm (params 1) (\<lambda>a request s.
       put_request a (HTTPRequest_SetBasicAuth (key_param sm params 2 s) (key_param sm params 3 s) request) s)"

text \<open>
  The natives that perform a request: a forward, the method, which puts a context into the queue, and the request
  handle, which the native frees.
\<close>

definition performs ::
  "'h sourcemod \<Rightarrow> params \<Rightarrow> nat \<Rightarrow> (nat \<Rightarrow> 'h natives \<Rightarrow> 'h natives) \<Rightarrow> 'h natives \<Rightarrow> int \<times> 'h natives" where
  "performs sm params callback start s =
     (case sm_CreateForward sm (params callback) (n_sm s) of
        (fe, h) \<Rightarrow>
          let s1 = s\<lparr>n_sm := h\<rparr> in
          if forward_failed fe then ThrowNativeError sm (cstr ''Could not create forward.'') s1
          else (1, FreeHandle_call sm (to_handle (params 1)) (start (the (fe_forward fe)) s1)))"

definition request_start ::
  "io_env \<Rightarrow> byte list \<Rightarrow> ptr option \<Rightarrow> int \<Rightarrow> HTTPRequest \<Rightarrow> nat \<Rightarrow> 'h natives \<Rightarrow> 'h natives" where
  "request_start io method data v request forward s =
     (case HTTPRequest_Perform (io_point io) (io_header_order io) (io_slist io) request method data forward v (n_world s) of
        (context, w) \<Rightarrow> s\<lparr>n_world := w, n_queue := n_queue s @ [context]\<rparr>)"

definition request_bare :: "byte list \<Rightarrow> 'h native" where
  "request_bare method sm io params =
     with_request sm (params 1) (\<lambda>a request. performs sm params 2 (request_start io method None (params 3) request))"

definition request_send :: "byte list \<Rightarrow> 'h native" where
  "request_send method sm io params =
     with_request sm (params 1) (\<lambda>a request.
       with_json sm (params 2) (\<lambda>data. performs sm params 3 (request_start io method (Some data) (params 4) request)))"

definition PerformGetRequest :: "'h native" where "PerformGetRequest = request_bare (cstr ''GET'')"
definition PerformDeleteRequest :: "'h native" where "PerformDeleteRequest = request_bare (cstr ''DELETE'')"
definition PerformPostRequest :: "'h native" where "PerformPostRequest = request_send (cstr ''POST'')"
definition PerformPutRequest :: "'h native" where "PerformPutRequest = request_send (cstr ''PUT'')"
definition PerformPatchRequest :: "'h native" where "PerformPatchRequest = request_send (cstr ''PATCH'')"

text \<open>The methods that change the request object before they use it.\<close>

definition changed_start :: "nat \<Rightarrow> (nat \<Rightarrow> IHTTPContext \<times> HTTPRequest) \<Rightarrow> nat \<Rightarrow> 'h natives \<Rightarrow> 'h natives" where
  "changed_start a method forward s =
     (case method forward of (context, request) \<Rightarrow> (snd (put_request a request s))\<lparr>n_queue := n_queue s @ [context]\<rparr>)"

definition request_transfer ::
  "(header_order \<Rightarrow> mem \<Rightarrow> HTTPRequest \<Rightarrow> byte list \<Rightarrow> nat \<Rightarrow> int \<Rightarrow> IHTTPContext \<times> HTTPRequest) \<Rightarrow> 'h native" where
  "request_transfer transfer sm io params =
     with_request sm (params 1) (\<lambda>a request s.
       let path = key_param sm params 2 s in
       performs sm params 3
         (changed_start a (\<lambda>forward. transfer (io_header_order io) (io_slist io) request path forward (params 4))) s)"

definition PerformDownloadFile :: "'h native" where "PerformDownloadFile = request_transfer HTTPRequest_DownloadFile"
definition PerformUploadFile :: "'h native" where "PerformUploadFile = request_transfer HTTPRequest_UploadFile"

definition PerformPostForm :: "'h native" where
  "PerformPostForm sm io params =
     with_request sm (params 1) (\<lambda>a request.
       performs sm params 2
         (changed_start a (\<lambda>forward. HTTPRequest_PostForm (io_header_order io) (io_slist io) request forward (params 3))))"

subsection \<open>Options\<close>

definition request_get :: "(HTTPRequest \<Rightarrow> int) \<Rightarrow> 'h native" where
  "request_get g sm io params = with_request sm (params 1) (\<lambda>a request s. (g request, s))"

definition request_set :: "(int \<Rightarrow> HTTPRequest \<Rightarrow> HTTPRequest) \<Rightarrow> 'h native" where
  "request_set g sm io params = with_request sm (params 1) (\<lambda>a request. put_request a (g (params 2) request))"

definition GetRequestConnectTimeout :: "'h native" where "GetRequestConnectTimeout = request_get hr_connectTimeout"
definition SetRequestConnectTimeout :: "'h native" where "SetRequestConnectTimeout = request_set HTTPRequest_SetConnectTimeout"
definition GetRequestMaxRedirects :: "'h native" where "GetRequestMaxRedirects = request_get hr_maxRedirects"
definition SetRequestMaxRedirects :: "'h native" where "SetRequestMaxRedirects = request_set HTTPRequest_SetMaxRedirects"
definition GetRequestMaxRecvSpeed :: "'h native" where "GetRequestMaxRecvSpeed = request_get hr_maxRecvSpeed"
definition SetRequestMaxRecvSpeed :: "'h native" where "SetRequestMaxRecvSpeed = request_set HTTPRequest_SetMaxRecvSpeed"
definition GetRequestMaxSendSpeed :: "'h native" where "GetRequestMaxSendSpeed = request_get hr_maxSendSpeed"
definition SetRequestMaxSendSpeed :: "'h native" where "SetRequestMaxSendSpeed = request_set HTTPRequest_SetMaxSendSpeed"
definition GetRequestTimeout :: "'h native" where "GetRequestTimeout = request_get hr_timeout"
definition SetRequestTimeout :: "'h native" where "SetRequestTimeout = request_set HTTPRequest_SetTimeout"

section \<open>Responses\<close>

definition put_response :: "nat \<Rightarrow> HTTPResponse \<Rightarrow> 'h natives \<Rightarrow> 'h natives" where
  "put_response a response s = s\<lparr>n_responses := (n_responses s)(a \<mapsto> response)\<rparr>"

definition GetResponseData :: "'h native" where
  "GetResponseData sm io params =
     with_response sm (params 1) (\<lambda>a response s.
       if rs_hndlData response \<noteq> BAD_HANDLE then (to_cell (int (rs_hndlData response)), s)
       else
         case the (json_loads (io_point io) (rs_body response) 0 (Some stack_error) (n_world s)) of
           (data, error, w) \<Rightarrow>
             let response = response\<lparr>rs_data := data\<rparr>; s1 = put_response a response (s\<lparr>n_world := w\<rparr>) in
             if data = None then ThrowNativeError sm (invalid_json_msg error) s1
             else
               case sm_CreateHandleEx sm htJSON data (n_sm s1) of
                 ((hndlData, err), h) \<Rightarrow>
                   let s2 = put_response a (response\<lparr>rs_hndlData := hndlData\<rparr>) (s1\<lparr>n_sm := h\<rparr>) in
                   if hndlData = BAD_HANDLE then
                     ThrowNativeError sm (cstr ''Could not create data handle (error '' @ fmt_d err @ cstr '')'')
                       (s2\<lparr>n_world := json_decref data (n_world s2)\<rparr>)
                   else (to_cell (int hndlData), s2))"

definition GetResponseStatus :: "'h native" where
  "GetResponseStatus sm io params = with_response sm (params 1) (\<lambda>a response s. (to_cell (rs_status response), s))"

definition GetResponseHeader :: "'h native" where
  "GetResponseHeader sm io params =
     with_response sm (params 1) (\<lambda>a response s.
       let lowercaseName = map tolower (key_param sm params 2 s) in
       case rs_headers response (c_string lowercaseName) of
         None \<Rightarrow> (0, s)
       | Some header \<Rightarrow> (1, StringToLocalUTF8 sm (params 3) (params 4) header s))"

definition http_natives :: "(string \<times> 'h native) list" where
  "http_natives =
     [(''HTTPClient.HTTPClient'', CreateClient), (''HTTPClient.SetHeader'', SetClientHeader),
      (''HTTPClient.Get'', GetRequest), (''HTTPClient.Post'', PostRequest), (''HTTPClient.Put'', PutRequest),
      (''HTTPClient.Patch'', PatchRequest), (''HTTPClient.Delete'', DeleteRequest),
      (''HTTPClient.DownloadFile'', DownloadFile), (''HTTPClient.UploadFile'', UploadFile),
      (''HTTPClient.ConnectTimeout.get'', GetClientConnectTimeout), (''HTTPClient.ConnectTimeout.set'', SetClientConnectTimeout),
      (''HTTPClient.FollowLocation.get'', GetClientFollowLocation), (''HTTPClient.FollowLocation.set'', SetClientFollowLocation),
      (''HTTPClient.Timeout.get'', GetClientTimeout), (''HTTPClient.Timeout.set'', SetClientTimeout),
      (''HTTPClient.MaxSendSpeed.get'', GetClientMaxSendSpeed), (''HTTPClient.MaxSendSpeed.set'', SetClientMaxSendSpeed),
      (''HTTPClient.MaxRecvSpeed.get'', GetClientMaxRecvSpeed), (''HTTPClient.MaxRecvSpeed.set'', SetClientMaxRecvSpeed),
      (''HTTPRequest.HTTPRequest'', CreateRequest), (''HTTPRequest.AppendFormParam'', AppendRequestFormParam),
      (''HTTPRequest.AppendQueryParam'', AppendRequestQueryParam), (''HTTPRequest.SetBasicAuth'', SetRequestBasicAuth),
      (''HTTPRequest.SetHeader'', SetRequestHeader), (''HTTPRequest.Get'', PerformGetRequest),
      (''HTTPRequest.Post'', PerformPostRequest), (''HTTPRequest.Put'', PerformPutRequest),
      (''HTTPRequest.Patch'', PerformPatchRequest), (''HTTPRequest.Delete'', PerformDeleteRequest),
      (''HTTPRequest.DownloadFile'', PerformDownloadFile), (''HTTPRequest.UploadFile'', PerformUploadFile),
      (''HTTPRequest.PostForm'', PerformPostForm),
      (''HTTPRequest.ConnectTimeout.get'', GetRequestConnectTimeout), (''HTTPRequest.ConnectTimeout.set'', SetRequestConnectTimeout),
      (''HTTPRequest.MaxRedirects.get'', GetRequestMaxRedirects), (''HTTPRequest.MaxRedirects.set'', SetRequestMaxRedirects),
      (''HTTPRequest.MaxRecvSpeed.get'', GetRequestMaxRecvSpeed), (''HTTPRequest.MaxRecvSpeed.set'', SetRequestMaxRecvSpeed),
      (''HTTPRequest.MaxSendSpeed.get'', GetRequestMaxSendSpeed), (''HTTPRequest.MaxSendSpeed.set'', SetRequestMaxSendSpeed),
      (''HTTPRequest.Timeout.get'', GetRequestTimeout), (''HTTPRequest.Timeout.set'', SetRequestTimeout),
      (''HTTPResponse.Data.get'', GetResponseData), (''HTTPResponse.Status.get'', GetResponseStatus),
      (''HTTPResponse.GetHeader'', GetResponseHeader)]"

end
