(* ===== verification/Extension_Setup.thy ===== *)
theory Extension_Setup
  imports Event_Loop Http_Natives Json_Natives
begin

text \<open>
  The rest of \<^verbatim>\<open>extension.cpp\<close> and \<^verbatim>\<open>CurlContext\<close> of \<^verbatim>\<open>extension.h\<close>: how the sockets and the timer that libcurl asks for are watched with libuv, as a
  state machine refined to what libcurl last asked for, and what loading and unloading register and take back.
\<close>

unbundle bit_operations_syntax

section \<open>Sockets\<close>

definition CURL_POLL_IN :: int where "CURL_POLL_IN = 1"
definition CURL_POLL_OUT :: int where "CURL_POLL_OUT = 2"
definition CURL_POLL_INOUT :: int where "CURL_POLL_INOUT = 3"
definition CURL_POLL_REMOVE :: int where "CURL_POLL_REMOVE = 4"
definition CURL_CSELECT_IN :: nat where "CURL_CSELECT_IN = 1"
definition CURL_CSELECT_OUT :: nat where "CURL_CSELECT_OUT = 2"
definition CURL_SOCKET_TIMEOUT :: int where "CURL_SOCKET_TIMEOUT = -1"
definition UV_READABLE :: nat where "UV_READABLE = 1"
definition UV_WRITABLE :: nat where "UV_WRITABLE = 2"

lemmas poll_defs = CURL_POLL_IN_def CURL_POLL_OUT_def CURL_POLL_INOUT_def CURL_POLL_REMOVE_def
lemmas event_defs = CURL_CSELECT_IN_def CURL_CSELECT_OUT_def UV_READABLE_def UV_WRITABLE_def

text \<open>
  \<^verbatim>\<open>CurlContext\<close>: its socket and the state of its poll handle, that is, the events it waits for, if it is started,
  and whether it is being closed.
\<close>

record CurlContext =
  cc_socket :: int
  cc_events :: "nat option"
  cc_closing :: bool

text \<open>
  The contexts by address, the pointers given to \<^verbatim>\<open>curl_multi_assign\<close>, the timer \<^verbatim>\<open>g_Timeout\<close> with its delay if it is started, and
  the calls of \<^verbatim>\<open>curl_multi_socket_action\<close> so far.  A use of a context that is gone or already closing is recorded as a fault.
\<close>

record sockets =
  sk_contexts :: "nat \<rightharpoonup> CurlContext"
  sk_fresh :: nat
  sk_assigned :: "int \<rightharpoonup> nat"
  g_Timeout :: "nat option"
  sk_actions :: "(int \<times> nat) list"
  sk_fault :: bool

definition sockets_start :: sockets where
  "sockets_start = \<lparr>sk_contexts = Map.empty, sk_fresh = 1, sk_assigned = Map.empty, g_Timeout = None, sk_actions = [], sk_fault = False\<rparr>"

definition CurlContext_new :: "int \<Rightarrow> sockets \<Rightarrow> nat \<times> sockets" where
  "CurlContext_new socket s =
     (let a = sk_fresh s
      in (a, s\<lparr>sk_contexts := (sk_contexts s)(a \<mapsto> \<lparr>cc_socket = socket, cc_events = None, cc_closing = False\<rparr>), sk_fresh := a + 1\<rparr>))"

text \<open>A call on the poll handle of a context, which must exist and must not be closing.\<close>

definition on_context :: "(CurlContext \<Rightarrow> CurlContext) \<Rightarrow> nat \<Rightarrow> sockets \<Rightarrow> sockets" where
  "on_context f a s =
     (case sk_contexts s a of
        None \<Rightarrow> s\<lparr>sk_fault := True\<rparr>
      | Some c \<Rightarrow> if cc_closing c then s\<lparr>sk_fault := True\<rparr> else s\<lparr>sk_contexts := (sk_contexts s)(a \<mapsto> f c)\<rparr>)"

definition uv_poll_start :: "nat \<Rightarrow> nat \<Rightarrow> sockets \<Rightarrow> sockets" where
  "uv_poll_start a events = on_context (\<lambda>c. c\<lparr>cc_events := Some events\<rparr>) a"

definition CurlContext_Destroy :: "nat \<Rightarrow> sockets \<Rightarrow> sockets" where
  "CurlContext_Destroy = on_context (\<lambda>c. c\<lparr>cc_events := None, cc_closing := True\<rparr>)"

definition CurlContext_OnClosed :: "nat \<Rightarrow> sockets \<Rightarrow> sockets" where
  "CurlContext_OnClosed a s = s\<lparr>sk_contexts := (sk_contexts s)(a := None)\<rparr>"

definition curl_multi_assign :: "int \<Rightarrow> nat option \<Rightarrow> sockets \<Rightarrow> sockets" where
  "curl_multi_assign socket context s = s\<lparr>sk_assigned := (sk_assigned s)(socket := context)\<rparr>"

definition curl_multi_socket_action :: "int \<Rightarrow> nat \<Rightarrow> sockets \<Rightarrow> sockets" where
  "curl_multi_socket_action socket flags s = s\<lparr>sk_actions := sk_actions s @ [(socket, flags)]\<rparr>"

text \<open>
  What \<^verbatim>\<open>CheckCompletedRequests\<close> does after \<^verbatim>\<open>curl_multi_socket_action\<close> is in \<^verbatim>\<open>Event_Loop\<close>.
\<close>

definition CurlSocketActivity :: "nat \<Rightarrow> nat \<Rightarrow> sockets \<Rightarrow> sockets" where
  "CurlSocketActivity a events s =
     (case sk_contexts s a of
        None \<Rightarrow> s\<lparr>sk_fault := True\<rparr>
      | Some c \<Rightarrow>
          let flags = 0;
              flags = (if events AND UV_READABLE \<noteq> 0 then flags OR CURL_CSELECT_IN else flags);
              flags = (if events AND UV_WRITABLE \<noteq> 0 then flags OR CURL_CSELECT_OUT else flags)
          in curl_multi_socket_action (cc_socket c) flags s)"

definition CurlSocketCallback :: "int \<Rightarrow> int \<Rightarrow> nat option \<Rightarrow> sockets \<Rightarrow> int \<times> sockets" where
  "CurlSocketCallback socket action socketdata s =
     (if action = CURL_POLL_IN \<or> action = CURL_POLL_OUT \<or> action = CURL_POLL_INOUT then
        case (case socketdata of Some context \<Rightarrow> (context, s) | None \<Rightarrow> CurlContext_new socket s) of
          (context, s1) \<Rightarrow>
            let s2 = curl_multi_assign socket (Some context) s1;
                events = 0;
                events = (if action \<noteq> CURL_POLL_IN then events OR UV_WRITABLE else events);
                events = (if action \<noteq> CURL_POLL_OUT then events OR UV_READABLE else events)
            in (0, uv_poll_start context events s2)
      else if action = CURL_POLL_REMOVE then
        case socketdata of
          None \<Rightarrow> (0, s)
        | Some context \<Rightarrow> (0, curl_multi_assign socket None (CurlContext_Destroy context s))
      else (0, s))"

text \<open>The timer is started with a delay of type \<^verbatim>\<open>uint64_t\<close>, and does not repeat.\<close>

definition CurlTimeoutCallback :: "int \<Rightarrow> sockets \<Rightarrow> int \<times> sockets" where
  "CurlTimeoutCallback timeout_ms s =
     (if timeout_ms = -1 then (0, s\<lparr>g_Timeout := None\<rparr>)
      else (0, s\<lparr>g_Timeout := Some (nat (timeout_ms mod 2 ^ 64))\<rparr>))"

definition PerformRequests :: "sockets \<Rightarrow> sockets" where
  "PerformRequests s = curl_multi_socket_action CURL_SOCKET_TIMEOUT 0 s"

section \<open>What libcurl and libuv do\<close>

text \<open>
  libcurl calls the two callbacks at any time, with the pointer it was last given for the socket; libuv reports events that a started
  poll handle waits for, calls back for a handle that is closing, and fires the timer once.
\<close>

datatype socket_event =
    Socket_Call int int
  | Timer_Call int
  | Poll nat nat
  | Closed nat
  | Fire

inductive sockets_step :: "socket_event \<Rightarrow> sockets \<Rightarrow> sockets \<Rightarrow> bool" where
  socket_call: "sockets_step (Socket_Call socket action) s (snd (CurlSocketCallback socket action (sk_assigned s socket) s))"
| timer_call: "sockets_step (Timer_Call ms) s (snd (CurlTimeoutCallback ms s))"
| poll: "sk_contexts s a = Some c \<Longrightarrow> cc_events c = Some wanted \<Longrightarrow> events AND wanted = events \<Longrightarrow>
    sockets_step (Poll a events) s (CurlSocketActivity a events s)"
| closed: "sk_contexts s a = Some c \<Longrightarrow> cc_closing c \<Longrightarrow> sockets_step (Closed a) s (CurlContext_OnClosed a s)"
| fire: "g_Timeout s \<noteq> None \<Longrightarrow> sockets_step Fire s (PerformRequests (s\<lparr>g_Timeout := None\<rparr>))"

inductive sockets_run :: "socket_event list \<Rightarrow> sockets \<Rightarrow> bool" where
  start: "sockets_run [] sockets_start"
| event: "sockets_run tr s \<Longrightarrow> sockets_step ev s s' \<Longrightarrow> sockets_run (tr @ [ev]) s'"

section \<open>What libcurl asked for\<close>

text \<open>The events libcurl last asked for, by socket, and the delay it last asked for.\<close>

fun asked :: "socket_event \<Rightarrow> (int \<rightharpoonup> nat) \<Rightarrow> (int \<rightharpoonup> nat)" where
  "asked (Socket_Call socket action) m =
     (if action = CURL_POLL_IN then m(socket \<mapsto> UV_READABLE)
      else if action = CURL_POLL_OUT then m(socket \<mapsto> UV_WRITABLE)
      else if action = CURL_POLL_INOUT then m(socket \<mapsto> UV_READABLE OR UV_WRITABLE)
      else if action = CURL_POLL_REMOVE then m(socket := None)
      else m)"
| "asked _ m = m"

definition watched :: "sockets \<Rightarrow> (int \<rightharpoonup> nat)" where
  "watched s socket = Option.bind (sk_assigned s socket) (\<lambda>a. Option.bind (sk_contexts s a) cc_events)"

definition sockets_inv :: "sockets \<Rightarrow> bool" where
  "sockets_inv s \<longleftrightarrow> \<not> sk_fault s \<and> (\<forall>a \<in> dom (sk_contexts s). a < sk_fresh s) \<and>
     (\<forall>socket a. sk_assigned s socket = Some a \<longrightarrow>
        (\<exists>events. sk_contexts s a = Some \<lparr>cc_socket = socket, cc_events = Some events, cc_closing = False\<rparr>)) \<and>
     (\<forall>a c. sk_contexts s a = Some c \<longrightarrow> \<not> cc_closing c \<longrightarrow> sk_assigned s (cc_socket c) = Some a) \<and>
     (\<forall>a c. sk_contexts s a = Some c \<longrightarrow> cc_closing c \<longrightarrow> cc_events c = None)"

text \<open>The four things a socket callback can do.\<close>

definition events_for :: "int \<Rightarrow> nat" where
  "events_for action = (if action = CURL_POLL_IN then UV_READABLE else if action = CURL_POLL_OUT then UV_WRITABLE else UV_READABLE OR UV_WRITABLE)"

definition watches :: "int \<Rightarrow> bool" where
  "watches action \<longleftrightarrow> action = CURL_POLL_IN \<or> action = CURL_POLL_OUT \<or> action = CURL_POLL_INOUT"

lemma asked_cases:
  "asked (Socket_Call socket action) m =
     (if watches action then m(socket \<mapsto> events_for action) else if action = CURL_POLL_REMOVE then m(socket := None) else m)"
  by (simp add: watches_def events_for_def poll_defs)

lemma callback_result:
  "watches action \<Longrightarrow> snd (CurlSocketCallback socket action None s) =
     s\<lparr>sk_contexts := (sk_contexts s)(sk_fresh s \<mapsto> \<lparr>cc_socket = socket, cc_events = Some (events_for action), cc_closing = False\<rparr>),
       sk_fresh := sk_fresh s + 1, sk_assigned := (sk_assigned s)(socket \<mapsto> sk_fresh s)\<rparr>"
  "watches action \<Longrightarrow> sk_contexts s a = Some c \<Longrightarrow> \<not> cc_closing c \<Longrightarrow> snd (CurlSocketCallback socket action (Some a) s) =
     s\<lparr>sk_contexts := (sk_contexts s)(a \<mapsto> c\<lparr>cc_events := Some (events_for action)\<rparr>), sk_assigned := (sk_assigned s)(socket \<mapsto> a)\<rparr>"
  "sk_contexts s a = Some c \<Longrightarrow> \<not> cc_closing c \<Longrightarrow> snd (CurlSocketCallback socket CURL_POLL_REMOVE (Some a) s) =
     s\<lparr>sk_contexts := (sk_contexts s)(a \<mapsto> c\<lparr>cc_events := None, cc_closing := True\<rparr>), sk_assigned := (sk_assigned s)(socket := None)\<rparr>"
  "\<not> watches action \<Longrightarrow> action \<noteq> CURL_POLL_REMOVE \<or> d = None \<Longrightarrow> snd (CurlSocketCallback socket action d s) = s"
  by (auto simp: CurlSocketCallback_def watches_def events_for_def poll_defs event_defs CurlContext_new_def CurlContext_Destroy_def
      uv_poll_start_def on_context_def curl_multi_assign_def or.commute Let_def split: option.split)

lemma sockets_invD:
  assumes "sockets_inv s"
  shows "\<not> sk_fault s" "a \<in> dom (sk_contexts s) \<Longrightarrow> a < sk_fresh s"
    "sk_assigned s socket = Some a \<Longrightarrow> \<exists>events. sk_contexts s a = Some \<lparr>cc_socket = socket, cc_events = Some events, cc_closing = False\<rparr>"
    "sk_contexts s a = Some c \<Longrightarrow> \<not> cc_closing c \<Longrightarrow> sk_assigned s (cc_socket c) = Some a"
    "sk_contexts s a = Some c \<Longrightarrow> cc_closing c \<Longrightarrow> cc_events c = None"
  using assms unfolding sockets_inv_def by blast+

lemma watch_new:
  assumes inv: "sockets_inv s" and none: "sk_assigned s socket = None"
    and s': "s' = s\<lparr>sk_contexts := (sk_contexts s)(sk_fresh s \<mapsto> \<lparr>cc_socket = socket, cc_events = Some events, cc_closing = False\<rparr>),
      sk_fresh := sk_fresh s + 1, sk_assigned := (sk_assigned s)(socket \<mapsto> sk_fresh s)\<rparr>"
  shows "sockets_inv s' \<and> watched s' = (watched s)(socket \<mapsto> events)"
proof -
  have fresh: "sk_contexts s (sk_fresh s) = None" using sockets_invD(2) [OF inv, of "sk_fresh s"] by auto
  have other: "a \<noteq> sk_fresh s" if "sk_assigned s k = Some a" for k a using sockets_invD(3) [OF inv that] fresh by auto
  have "sockets_inv s'" unfolding sockets_inv_def s'
  proof (intro conjI allI ballI impI)
    fix k a assume "sk_assigned (s\<lparr>sk_contexts := (sk_contexts s)(sk_fresh s \<mapsto> \<lparr>cc_socket = socket, cc_events = Some events, cc_closing = False\<rparr>),
      sk_fresh := sk_fresh s + 1, sk_assigned := (sk_assigned s)(socket \<mapsto> sk_fresh s)\<rparr>) k = Some a"
    then show "\<exists>ev. sk_contexts (s\<lparr>sk_contexts := (sk_contexts s)(sk_fresh s \<mapsto> \<lparr>cc_socket = socket, cc_events = Some events, cc_closing = False\<rparr>),
      sk_fresh := sk_fresh s + 1, sk_assigned := (sk_assigned s)(socket \<mapsto> sk_fresh s)\<rparr>) a = Some \<lparr>cc_socket = k, cc_events = Some ev, cc_closing = False\<rparr>"
      using other [of k a] sockets_invD(3) [OF inv, of k a] by (auto split: if_splits)
  qed (use sockets_invD(1,2,4,5) [OF inv] none in \<open>auto simp: less_Suc_eq split: if_splits\<close>)
  moreover have "watched s' = (watched s)(socket \<mapsto> events)" unfolding s'
    by (rule ext) (auto simp: watched_def dest: other split: Option.bind_splits)
  ultimately show ?thesis by blast
qed

text \<open>The context of a watched socket changes, and stays with its socket or leaves it to be closed.\<close>

lemma change_context:
  assumes inv: "sockets_inv s" and a: "sk_assigned s socket = Some a"
    and c': "c' = \<lparr>cc_socket = socket, cc_events = ev, cc_closing = (ev = None)\<rparr>"
    and s': "s' = s\<lparr>sk_contexts := (sk_contexts s)(a \<mapsto> c'), sk_assigned := (sk_assigned s)(socket := (if ev = None then None else Some a))\<rparr>"
  shows "sockets_inv s' \<and> watched s' = (watched s)(socket := ev)"
proof -
  note I = sockets_invD [OF inv]
  obtain c where c: "sk_contexts s a = Some c" "cc_socket c = socket" "\<not> cc_closing c" using I(3) [OF a] by fastforce
  have only: "k = socket" if "sk_assigned s k = Some a" for k using I(3) [OF that] c by auto
  have "sockets_inv s'" unfolding sockets_inv_def
  proof (intro conjI allI ballI impI)
    show "\<not> sk_fault s'" using s' I(1) by simp
  next
    fix b assume "b \<in> dom (sk_contexts s')"
    then show "b < sk_fresh s'" using s' I(2) [of b] I(2) [of a] c(1) by (cases "b = a") auto
  next
    fix k b assume k: "sk_assigned s' k = Some b"
    show "\<exists>events. sk_contexts s' b = Some \<lparr>cc_socket = k, cc_events = Some events, cc_closing = False\<rparr>"
    proof (cases "k = socket")
      case True
      then show ?thesis using k s' c' by (auto split: if_splits)
    next
      case False
      then have "sk_assigned s k = Some b" "b \<noteq> a" using k s' only by (auto split: if_splits)
      then show ?thesis using I(3) [of k b] s' by simp
    qed
  next
    fix b d assume d: "sk_contexts s' b = Some d" "\<not> cc_closing d"
    show "sk_assigned s' (cc_socket d) = Some b"
    proof (cases "b = a")
      case True
      then show ?thesis using d s' c' by auto
    next
      case False
      then have "sk_assigned s (cc_socket d) = Some b" using d s' I(4) [of b d] by simp
      then show ?thesis using s' False a by auto
    qed
  next
    fix b d assume "sk_contexts s' b = Some d" "cc_closing d"
    then show "cc_events d = None" using s' c' I(5) [of b d] by (cases "b = a") auto
  qed
  moreover have "watched s' = (watched s)(socket := ev)"
  proof
    fix k
    show "watched s' k = ((watched s)(socket := ev)) k"
    proof (cases "k = socket")
      case True
      then show ?thesis using s' c' by (simp add: watched_def)
    next
      case False
      then have "sk_assigned s k \<noteq> Some a" using only by auto
      then show ?thesis using False s' by (cases "sk_assigned s k") (auto simp: watched_def)
    qed
  qed
  ultimately show ?thesis by blast
qed

lemma callback_step:
  assumes inv: "sockets_inv s"
  shows "sockets_inv (snd (CurlSocketCallback socket action (sk_assigned s socket) s)) \<and>
    watched (snd (CurlSocketCallback socket action (sk_assigned s socket) s)) = asked (Socket_Call socket action) (watched s)"
proof -
  have rm: "\<not> watches CURL_POLL_REMOVE" by (simp add: watches_def poll_defs)
  show ?thesis
  proof (cases "sk_assigned s socket")
    case None
    then have "(watched s)(socket := None) = watched s" by (auto simp: watched_def)
    then show ?thesis using watch_new [OF inv None] callback_result(1,4) None inv rm unfolding asked_cases by simp
  next
    case (Some a)
    then obtain e where c: "sk_contexts s a = Some \<lparr>cc_socket = socket, cc_events = Some e, cc_closing = False\<rparr>"
      using sockets_invD(3) [OF inv] by blast
    consider "watches action" | "action = CURL_POLL_REMOVE" | "\<not> watches action" "action \<noteq> CURL_POLL_REMOVE" by blast
    then show ?thesis
    proof cases
      case 1
      then show ?thesis using change_context [OF inv Some refl refl, of "Some (events_for action)"] callback_result(2) [OF 1 c, of socket] Some
        unfolding asked_cases by simp
    next
      case 2
      then show ?thesis using change_context [OF inv Some refl refl, of None] callback_result(3) [OF c, of socket] Some rm
        unfolding asked_cases by simp
    next
      case 3
      then show ?thesis using callback_result(4) [OF 3(1), of "Some a"] inv Some unfolding asked_cases by simp
    qed
  qed
qed

fun delay :: "socket_event \<Rightarrow> nat option \<Rightarrow> nat option" where
  "delay (Timer_Call ms) t = (if ms = -1 then None else Some (nat (ms mod 2 ^ 64)))"
| "delay Fire t = None"
| "delay _ t = t"

lemma sockets_step_inv:
  assumes "sockets_step ev s s'" "sockets_inv s"
  shows "sockets_inv s' \<and> watched s' = asked ev (watched s) \<and> g_Timeout s' = delay ev (g_Timeout s)"
  using assms
proof cases
  case (socket_call socket action)
  have "g_Timeout (snd (CurlSocketCallback socket action d s)) = g_Timeout s" for d
    by (simp add: CurlSocketCallback_def CurlContext_new_def CurlContext_Destroy_def uv_poll_start_def on_context_def curl_multi_assign_def Let_def
        split: option.split)
  then show ?thesis using callback_step [OF assms(2)] socket_call by simp
next
  case (closed a c)
  note I = sockets_invD [OF assms(2)]
  have un: "sk_assigned s k \<noteq> Some a" for k using I(3) [of k a] closed by auto
  have "sockets_inv s'" unfolding sockets_inv_def
  proof (intro conjI allI ballI impI)
    fix k b assume "sk_assigned s' k = Some b"
    then show "\<exists>events. sk_contexts s' b = Some \<lparr>cc_socket = k, cc_events = Some events, cc_closing = False\<rparr>"
      using I(3) [of k b] un [of k] closed by (auto simp: CurlContext_OnClosed_def)
  qed (use I(1,2,4,5) closed in \<open>auto simp: CurlContext_OnClosed_def split: if_splits\<close>)
  moreover have "watched s' k = watched s k" for k
    using un [of k] closed by (cases "sk_assigned s k") (auto simp: watched_def CurlContext_OnClosed_def)
  ultimately show ?thesis using closed by (auto simp: CurlContext_OnClosed_def)
next
  case (poll a c wanted events)
  then show ?thesis using assms(2)
    by (simp add: CurlSocketActivity_def curl_multi_socket_action_def sockets_inv_def watched_def Let_def fun_eq_iff)
next
  case (timer_call ms)
  then show ?thesis using assms(2) by (simp add: CurlTimeoutCallback_def sockets_inv_def watched_def fun_eq_iff)
next
  case fire
  then show ?thesis using assms(2) by (simp add: PerformRequests_def curl_multi_socket_action_def sockets_inv_def watched_def fun_eq_iff)
qed

lemma sockets_run_inv:
  "sockets_run tr s \<Longrightarrow> sockets_inv s \<and> watched s = fold asked tr Map.empty \<and> g_Timeout s = fold delay tr None"
proof (induction rule: sockets_run.induct)
  case start
  show ?case by (simp add: sockets_inv_def sockets_start_def watched_def fun_eq_iff)
next
  case (event tr s ev s')
  then show ?case using sockets_step_inv [OF event(2)] by simp
qed



section \<open>Loading and unloading\<close>

text \<open>
  What is set up in SourceMod, libcurl and libuv.  A handle type has the two rights that the extension may change from
  their defaults.  A multi handle is named by a number; what \<^verbatim>\<open>curl_multi_cleanup\<close> is given is such a handle or the address of
  the variable \<^verbatim>\<open>g_Curl\<close>.
\<close>

datatype multi_ref = Multi nat | Address_of_g_Curl

record handle_type =
  ty_type :: HandleType
  ty_free_delete :: bool
  ty_identity_clone :: bool

record registrations =
  su_natives :: "string list"
  su_library :: bool
  su_curl_global :: bool
  su_multis :: "nat set"
  su_multi_callbacks :: bool
  su_loop_handles :: "string list"
  su_loop_open :: bool
  su_thread :: bool
  su_types :: "handle_type list"
  su_frame_hook :: bool
  su_caBundlePath :: "byte list"

definition unloaded :: registrations where
  "unloaded = \<lparr>su_natives = [], su_library = False, su_curl_global = False, su_multis = {}, su_multi_callbacks = False,
     su_loop_handles = [], su_loop_open = False, su_thread = False, su_types = [], su_frame_hook = False, su_caBundlePath = []\<rparr>"

record load_env =
  le_curl_global_init :: int
  le_strerror :: "int \<Rightarrow> byte list"
  le_multi :: nat
  le_BuildPath :: "byte list \<Rightarrow> byte list"

text \<open>The result, what was written to \<^verbatim>\<open>error\<close>, and the state.\<close>

definition SDK_OnLoad :: "load_env \<Rightarrow> nat \<Rightarrow> registrations \<Rightarrow> bool \<times> byte list option \<times> registrations" where
  "SDK_OnLoad env maxlength s =
     (let s = s\<lparr>su_natives := su_natives s @ map fst (http_natives :: (string \<times> unit native) list) @ map fst (json_natives :: (string \<times> unit native) list),
                su_library := True\<rparr>;
          res = le_curl_global_init env
      in if res \<noteq> 0 then (False, Some (take (maxlength - 1) (le_strerror env res)), s)
         else
           let s = s\<lparr>su_curl_global := True, su_multis := insert (le_multi env) (su_multis s), su_multi_callbacks := True\<rparr>;
               s = s\<lparr>su_loop_open := True, su_loop_handles := su_loop_handles s @ [''g_Timeout'', ''g_AsyncPerformRequests'', ''g_AsyncStopLoop''],
                     su_thread := True\<rparr>;
               s = s\<lparr>su_types := su_types s @
                       [\<lparr>ty_type = htHTTPClient, ty_free_delete = False, ty_identity_clone = False\<rparr>,
                        \<lparr>ty_type = htHTTPRequest, ty_free_delete = True, ty_identity_clone = False\<rparr>,
                        \<lparr>ty_type = htHTTPResponse, ty_free_delete = False, ty_identity_clone = True\<rparr>,
                        \<lparr>ty_type = htJSON, ty_free_delete = True, ty_identity_clone = False\<rparr>,
                        \<lparr>ty_type = htJSONObjectKeys, ty_free_delete = False, ty_identity_clone = False\<rparr>]\<rparr>
           in (True, None, s\<lparr>su_frame_hook := True, su_caBundlePath := le_BuildPath env (cstr ''configs/ripext/ca-bundle.crt'')\<rparr>))"

text \<open>\<^verbatim>\<open>uv_loop_close\<close> gives \<^verbatim>\<open>UV_EBUSY\<close> while the loop has handles; \<^verbatim>\<open>curl_multi_cleanup\<close> rejects what is not a multi handle.\<close>

definition uv_loop_close :: "registrations \<Rightarrow> registrations" where
  "uv_loop_close s = (if su_loop_handles s = [] then s\<lparr>su_loop_open := False\<rparr> else s)"

definition curl_multi_cleanup :: "multi_ref \<Rightarrow> registrations \<Rightarrow> registrations" where
  "curl_multi_cleanup r s = (case r of Multi m \<Rightarrow> s\<lparr>su_multis := su_multis s - {m}\<rparr> | Address_of_g_Curl \<Rightarrow> s)"

definition RemoveType :: "HandleType \<Rightarrow> registrations \<Rightarrow> registrations" where
  "RemoveType t s = s\<lparr>su_types := filter (\<lambda>ty. ty_type ty \<noteq> t) (su_types s)\<rparr>"

definition SDK_OnUnload :: "registrations \<Rightarrow> registrations" where
  "SDK_OnUnload s =
     (let s = s\<lparr>su_thread := False\<rparr>;
          s = uv_loop_close s;
          s = curl_multi_cleanup Address_of_g_Curl s;
          s = s\<lparr>su_curl_global := False\<rparr>;
          s = fold RemoveType [htHTTPClient, htHTTPRequest, htHTTPResponse, htJSON, htJSONObjectKeys] s
      in s\<lparr>su_frame_hook := False\<rparr>)"

text \<open>
  Unloading takes the thread, the handle types and the frame hook away again, but the multi handle and the loop stay: the call that
  should free the handle is given the address of the variable, and the loop still has its timer and its two async handles.
\<close>

lemma unload_leaves_curl_and_loop:
  assumes "SDK_OnLoad env maxlength unloaded = (True, e, s)"
  shows "su_types (SDK_OnUnload s) = []" "\<not> su_frame_hook (SDK_OnUnload s)" "\<not> su_thread (SDK_OnUnload s)"
    "su_multis (SDK_OnUnload s) = {le_multi env}" "su_loop_open (SDK_OnUnload s)"
  using assms by (auto simp: SDK_OnLoad_def SDK_OnUnload_def unloaded_def uv_loop_close_def curl_multi_cleanup_def RemoveType_def Let_def split: if_splits)

lemma failed_load_registers_natives_only:
  assumes "SDK_OnLoad env maxlength unloaded = (False, e, s)"
  shows "s = unloaded\<lparr>su_natives := su_natives s, su_library := True\<rparr>" "length (the e) \<le> maxlength - 1"
  using assms by (auto simp: SDK_OnLoad_def unloaded_def Let_def split: if_splits)

lemma native_names_distinct:
  "distinct (su_natives (snd (snd (SDK_OnLoad env maxlength unloaded))))"
  by (simp add: SDK_OnLoad_def unloaded_def http_natives_def json_natives_def Let_def)

end
