(* ===== verification/Native_Account.thy ===== *)
theory Native_Account
  imports Http_Natives
begin

text \<open>
  The natives and the reference counts.  A state is \<^verbatim>\<open>accounted\<close> when the references held by JSON handles are exactly the outside
  references of the heap.  Every native of the two tables, and the destruction of a handle, keeps the account, whatever
  fails on the way: the lemmas follow the combinators the natives are made of.
\<close>

section \<open>One reference for each handle\<close>

definition json_refs :: "(HandleType \<times> nat option) multiset \<Rightarrow> ptr multiset" where
  "json_refs M = image_mset (\<lambda>x. the (snd x)) (filter_mset (\<lambda>x. fst x = htJSON \<and> snd x \<noteq> None) M)"

lemma json_refs_add [simp]:
  "json_refs (add_mset (htJSON, r) M) = plus_result r (json_refs M)"
  "t \<noteq> htJSON \<Longrightarrow> json_refs (add_mset (t, r) M) = json_refs M"
  by (auto simp: json_refs_def plus_result_def split: option.split)

lemma json_refs_in: "(htJSON, Some p) \<in># M \<Longrightarrow> p \<in># json_refs M"
  by (force simp: json_refs_def image_iff)

definition accounted :: "('h \<Rightarrow> (HandleType \<times> nat option) multiset) \<Rightarrow> 'h natives \<Rightarrow> bool" where
  "accounted owned s \<longleftrightarrow> rc_inv {} (json_refs (owned (n_sm s))) (n_world s)"

lemma accountedD: "accounted owned s \<Longrightarrow> rc_inv {} (json_refs (owned (n_sm s))) (n_world s)"
  by (simp add: accounted_def)

text \<open>
  The limits of the machine: no count is about to reach the value that marks the constants, objects and texts have fewer than
  \<open>2\<^sup>3\<^sup>1\<close> members and bytes, addresses have 64 bits.
\<close>

definition roomy :: "'h sourcemod \<Rightarrow> 'h natives \<Rightarrow> bool" where
  "roomy sm s \<longleftrightarrow>
     (\<forall>q c. w_heap (n_world s) q = Some c \<longrightarrow> q \<notin> statics \<longrightarrow> Suc (j_refcount c) < SIZE_MAX) \<and>
     (\<forall>q. json_object_size (n_world s) (Some q) < 2 ^ 31) \<and>
     w_brk (n_world s) \<le> 2 ^ 64 \<and> card (dom (w_heap (n_world s))) < 2 ^ 31 \<and>
     (\<forall>a. length (sm_LocalToString sm a (n_sm s)) + 1 < 2 ^ 31) \<and>
     (\<forall>path content. n_files s path = Some content \<longrightarrow> length content + 1 < 2 ^ 31)"

text \<open>A native keeps the account.\<close>

definition keeps_account :: "'h sourcemod \<Rightarrow> ('h \<Rightarrow> (HandleType \<times> nat option) multiset) \<Rightarrow> ('h natives \<Rightarrow> int \<times> 'h natives) \<Rightarrow> bool" where
  "keeps_account sm owned f \<longleftrightarrow> (\<forall>s. accounted owned s \<longrightarrow> roomy sm s \<longrightarrow> accounted owned (snd (f s)))"

lemma handle_lawsD:
  assumes "handle_laws sm owned"
  shows "\<And>t x h y. sm_ReadHandle sm t x h = (0, y) \<Longrightarrow> (t, y) \<in># owned h"
    "\<And>t y h x e h'. sm_CreateHandleEx sm t y h = ((x, e), h') \<Longrightarrow>
        owned h' = (if x = BAD_HANDLE then owned h else add_mset (t, y) (owned h))"
    "\<And>x h d h'. sm_FreeHandle sm x h = (d, h') \<Longrightarrow>
        owned h = (case d of None \<Rightarrow> owned h' | Some object \<Rightarrow> add_mset object (owned h'))"
    "\<And>a n str h. owned (sm_StringToLocalUTF8 sm a n str h) = owned h"
    "\<And>msg h. owned (sm_ThrowNativeError sm msg h) = owned h"
proof -
  note L = assms [unfolded handle_laws_def]
  show "\<And>t x h y. sm_ReadHandle sm t x h = (0, y) \<Longrightarrow> (t, y) \<in># owned h" using L [THEN conjunct1] by blast
  note L2 = L [THEN conjunct2]
  show "\<And>t y h x e h'. sm_CreateHandleEx sm t y h = ((x, e), h') \<Longrightarrow>
      owned h' = (if x = BAD_HANDLE then owned h else add_mset (t, y) (owned h))" using L2 [THEN conjunct1] by blast
  note L3 = L2 [THEN conjunct2]
  show "\<And>x h d h'. sm_FreeHandle sm x h = (d, h') \<Longrightarrow>
      owned h = (case d of None \<Rightarrow> owned h' | Some object \<Rightarrow> add_mset object (owned h'))" using L3 [THEN conjunct1] by blast
  note L4 = L3 [THEN conjunct2]
  show "\<And>a n str h. owned (sm_StringToLocalUTF8 sm a n str h) = owned h" "\<And>msg h. owned (sm_ThrowNativeError sm msg h) = owned h"
    using L4 by simp_all
qed

lemma accounted_throw [simp]:
  "handle_laws sm owned \<Longrightarrow> accounted owned (snd (ThrowNativeError sm msg s)) = accounted owned s"
  by (simp add: ThrowNativeError_def accounted_def handle_lawsD(5))

lemma accounted_store [simp]:
  "handle_laws sm owned \<Longrightarrow> accounted owned (StringToLocalUTF8 sm a n str s) = accounted owned s"
  by (simp add: StringToLocalUTF8_def accounted_def handle_lawsD(4))

lemma with_json_account:
  assumes laws: "handle_laws sm owned"
    and f: "\<And>p s. accounted owned s \<Longrightarrow> roomy sm s \<Longrightarrow> p \<in># json_refs (owned (n_sm s)) \<Longrightarrow> accounted owned (snd (f p s))"
  shows "keeps_account sm owned (with_json sm param f)"
  unfolding keeps_account_def
proof (intro allI impI)
  fix s assume s: "accounted owned s" "roomy sm s"
  obtain err y where r: "sm_ReadHandle sm htJSON (to_handle param) (n_sm s) = (err, y)" by (metis surj_pair)
  show "accounted owned (snd (with_json sm param f s))"
  proof (cases "err = 0")
    case False
    then show ?thesis using r s laws by (simp add: with_json_def GetJSONFromHandle_def Let_def del: cstr_Cons)
  next
    case True
    show ?thesis
    proof (cases y)
      case None
      then show ?thesis using r s True by (simp add: with_json_def GetJSONFromHandle_def)
    next
      case (Some p)
      then have "p \<in># json_refs (owned (n_sm s))" using json_refs_in handle_lawsD(1) [OF laws] r True by blast
      then show ?thesis using f [OF s] r True Some by (simp add: with_json_def GetJSONFromHandle_def)
    qed
  qed
qed

lemma value_live: "rc_inv {} E w \<Longrightarrow> p \<in># E \<Longrightarrow> p \<in> dom (w_heap w)"
  using rc_invD(9) by blast

lemma member_live:
  assumes inv: "rc_inv {} E w" and g: "json_object_get w (Some p) (Some key) = Some v"
  shows "v \<in> dom (w_heap w)"
proof -
  obtain h where h: "object_table w (Some p) = Some h" "hashtable_get (w_seed w) key h = Some v"
    using g by (auto simp: json_object_get_def split: option.splits)
  then have d: "data_at w (Some p) = Some (JObject h)"
    by (auto simp: object_table_def split: option.splits json_data.splits)
  obtain al where al: "ht_rel (w_seed w) h al" "snd ` set al \<subseteq> dom (w_heap w)" by (rule object_cell [OF inv d])
  then have "map_of al key = Some v" using h(2) hashtable_get_map_of [OF al(1)] by simp
  then show ?thesis using al(2) map_of_SomeD by force
qed

lemma element_live:
  assumes inv: "rc_inv {} E w" and g: "json_array_get w (Some p) i = Some v"
  shows "v \<in> dom (w_heap w)"
proof -
  obtain a where a: "array_at w (Some p) = Some a" "i < a_entries a" "v = a_table a ! i"
    using g by (auto simp: json_array_get_def split: option.splits if_splits)
  then have d: "data_at w (Some p) = Some (JArray a)"
    by (auto simp: array_at_def split: option.splits json_data.splits)
  show ?thesis using array_cell(1,2) [OF inv d] a(2,3) by (force simp: in_set_conv_nth)
qed

lemma incref_account:
  assumes "accounted owned s" "roomy sm s" "p \<in> dom (w_heap (n_world s))"
  shows "rc_inv {} (add_mset p (json_refs (owned (n_sm s)))) (json_incref (Some p) (n_world s))"
proof (rule json_incref_inv)
  obtain c where c: "w_heap (n_world s) p = Some c" using assms(3) by auto
  then show "p \<in> statics \<or> Suc (rc_of (n_world s) p) < SIZE_MAX" using assms(2) unfolding roomy_def by fastforce
qed (use assms in \<open>auto simp: accounted_def\<close>)

lemma value_handle_account:
  assumes laws: "handle_laws sm owned" and s: "accounted owned s" "roomy sm s" and v: "v \<in> dom (w_heap (n_world s))"
  shows "accounted owned (snd (value_handle sm v s))"
proof -
  obtain x e h where c: "sm_CreateHandleEx sm htJSON (Some v) (n_sm s) = ((x, e), h)" by (metis surj_pair)
  note o = handle_lawsD(2) [OF laws c]
  show ?thesis using s incref_account [OF s v] c o laws
    by (auto simp: value_handle_def Let_def accounted_def ThrowNativeError_def handle_lawsD(5) [OF laws] simp del: cstr_Cons)
qed

lemma new_handle_account:
  assumes laws: "handle_laws sm owned" and inv: "rc_inv {} (plus_result r (json_refs (owned (n_sm s)))) (n_world s)"
  shows "accounted owned (snd (new_json_handle sm msg r s))"
proof -
  obtain x e h where c: "sm_CreateHandleEx sm htJSON r (n_sm s) = ((x, e), h)" by (metis surj_pair)
  note o = handle_lawsD(2) [OF laws c]
  have "rc_inv {} (json_refs (owned (n_sm s))) (json_decref r (n_world s))"
    using inv json_decref_inv by (cases r) (auto simp: json_decref_def)
  then show ?thesis using inv c o
    by (auto simp: new_json_handle_def Let_def accounted_def ThrowNativeError_def handle_lawsD(5) [OF laws])
qed

section \<open>Storing new values\<close>

definition gives_value :: "('h \<Rightarrow> (HandleType \<times> nat option) multiset) \<Rightarrow> ('h natives \<Rightarrow> ptr option \<times> 'h natives) \<Rightarrow> bool" where
  "gives_value owned create \<longleftrightarrow> (\<forall>s v s1. accounted owned s \<longrightarrow> create s = (v, s1) \<longrightarrow> n_sm s1 = n_sm s \<and>
     rc_inv {} (plus_result v (json_refs (owned (n_sm s)))) (n_world s1) \<and>
     keeps (json_refs (owned (n_sm s))) (n_world s) (n_world s1))"

lemma json_string_creates:
  assumes "json_string (Some t) w = (r, w')"
  shows "creates (JString t) r w w'"
proof (cases "utf8_check_string t")
  case True
  obtain d m where s: "jsonp_strndup t (length t) (w_mem w) = (d, m)" by (metis surj_pair)
  have "d = None \<or> d = Some t" using s by (auto simp: jsonp_strndup_def split: prod.splits bool.splits if_splits)
  then show ?thesis
  proof
    assume "d = Some t"
    then have "creates (JString t) r (w\<lparr>w_mem := m\<rparr>) w'"
      using assms s True by (intro alloc_creates) (simp add: json_string_def json_stringn_def json_stringn_nocheck_def string_create_def)
    then show ?thesis by simp
  qed (use assms s True in \<open>auto simp: json_string_def json_stringn_def json_stringn_nocheck_def string_create_def creates_def\<close>)
qed (use assms in \<open>auto simp: json_string_def json_stringn_def creates_def\<close>)

lemma on_world_gives:
  assumes "\<And>E w v w'. rc_inv {} E w \<Longrightarrow> f w = (v, w') \<Longrightarrow> rc_inv {} (plus_result v E) w'"
    and "\<And>w v w'. f w = (v, w') \<Longrightarrow> \<exists>d. creates d v w w'"
    and "accounted owned s" "on_world f s = (v, s1)"
  shows "n_sm s1 = n_sm s \<and> rc_inv {} (plus_result v (json_refs (owned (n_sm s)))) (n_world s1) \<and>
     keeps (json_refs (owned (n_sm s))) (n_world s) (n_world s1)"
proof -
  obtain w' where w': "f (n_world s) = (v, w')" "s1 = s\<lparr>n_world := w'\<rparr>"
    using assms(4) by (auto simp: on_world_def split: prod.splits)
  show ?thesis using assms(1,3) assms(2) [OF w'(1)] w' creates_keeps by (auto simp: accounted_def)
qed

lemma static_gives:
  assumes "p \<in> statics" "accounted owned s"
  shows "rc_inv {} (plus_result (Some p) (json_refs (owned (n_sm s)))) (n_world s)"
  using rc_inv_add_static assms by (simp add: accounted_def)

lemma new_values_give:
  "gives_value owned (new_bool params i)" "gives_value owned (new_float sm params i)" "gives_value owned (new_int params i)"
  "gives_value owned (new_int64 sm params i)" "gives_value owned new_null" "gives_value owned (new_string sm params i)"
proof -
  show "gives_value owned (new_bool params i)" "gives_value owned new_null"
    unfolding gives_value_def new_bool_def new_null_def
    by (auto simp: json_boolean_def json_null_def json_true_def json_false_def statics_def simp del: plus_result_simps intro!: static_gives)
  show "gives_value owned (new_float sm params i)"
    unfolding gives_value_def new_float_def
    by (intro allI impI, rule on_world_gives) (auto intro: json_real_inv json_real_creates)
  show "gives_value owned (new_int params i)"
    unfolding gives_value_def new_int_def
    by (intro allI impI, rule on_world_gives) (auto intro: json_integer_inv json_integer_creates)
  show "gives_value owned (new_int64 sm params i)"
    unfolding gives_value_def new_int64_def
    by (intro allI impI, rule on_world_gives) (auto intro: json_integer_inv json_integer_creates)
  show "gives_value owned (new_string sm params i)"
    unfolding gives_value_def new_string_def
    by (intro allI impI, rule on_world_gives) (auto intro: json_string_inv json_string_creates)
qed

lemma on_world_account:
  assumes "rc_inv {} (json_refs (owned (n_sm s))) (snd (f (n_world s)))"
  shows "accounted owned (snd (succeeded (on_world f s)))"
  using assms by (auto simp: succeeded_def on_world_def accounted_def split: prod.splits)

lemma set_member_account:
  assumes "handle_laws sm owned" "gives_value owned create"
  shows "keeps_account sm owned (set_member sm params create)"
  unfolding set_member_def
proof (rule with_json_account [OF assms(1)])
  fix p s assume s: "accounted owned s" "roomy sm s" "p \<in># json_refs (owned (n_sm s))"
  obtain v s1 where c: "create s = (v, s1)" by (metis surj_pair)
  then have g: "n_sm s1 = n_sm s" "rc_inv {} (plus_result v (json_refs (owned (n_sm s)))) (n_world s1)"
    "keeps (json_refs (owned (n_sm s))) (n_world s) (n_world s1)" using assms(2) s(1) unfolding gives_value_def by blast+
  have "json_object_size (n_world s1) (Some p) < 2 ^ 31"
    using object_size_data [of "n_world s1" p "n_world s"] g(3) s(2,3) by (simp add: keeps_def roomy_def)
  then have "rc_inv {} (json_refs (owned (n_sm s1))) (snd (json_object_set_new (Some p) key v (n_world s1)))" for key
    using json_object_set_new_inv g(1,2) s(3)
    by (cases v) (auto simp: json_object_set_new_def [of _ _ None] json_object_set_new_nocheck_def json_decref_def split: option.splits)
  then show "accounted owned (snd (let key = key_param sm params 2 s in
      case create s of (v, s1) \<Rightarrow> succeeded (on_world (json_object_set_new (Some p) (Some key) v) s1)))"
    using c by (auto simp: Let_def intro!: on_world_account)
qed

lemma set_element_account:
  assumes "handle_laws sm owned" "gives_value owned create"
  shows "keeps_account sm owned (set_element sm params create)"
  unfolding set_element_def
proof (rule with_json_account [OF assms(1)])
  fix p s assume s: "accounted owned s" "roomy sm s" "p \<in># json_refs (owned (n_sm s))"
  obtain v s1 where c: "create s = (v, s1)" by (metis surj_pair)
  then have g: "n_sm s1 = n_sm s" "rc_inv {} (plus_result v (json_refs (owned (n_sm s)))) (n_world s1)"
    using assms(2) s(1) unfolding gives_value_def by blast+
  then have "rc_inv {} (json_refs (owned (n_sm s1))) (snd (json_array_set_new (Some p) i v (n_world s1)))" for i
    using json_array_set_new_inv s(3) by (cases v) (auto simp: json_array_set_new_def)
  then show "accounted owned (snd (case create s of (v, s1) \<Rightarrow>
      succeeded (on_world (json_array_set_new (Some p) (to_size (params 2)) v) s1)))"
    using c by (auto intro!: on_world_account)
qed

lemma push_element_account:
  assumes "handle_laws sm owned" "gives_value owned create"
  shows "keeps_account sm owned (push_element sm params create)"
  unfolding push_element_def
proof (rule with_json_account [OF assms(1)])
  fix p s assume s: "accounted owned s" "roomy sm s" "p \<in># json_refs (owned (n_sm s))"
  obtain v s1 where c: "create s = (v, s1)" by (metis surj_pair)
  then have g: "n_sm s1 = n_sm s" "rc_inv {} (plus_result v (json_refs (owned (n_sm s)))) (n_world s1)"
    using assms(2) s(1) unfolding gives_value_def by blast+
  then have "rc_inv {} (json_refs (owned (n_sm s1))) (snd (json_array_append_new (Some p) v (n_world s1)))"
    using json_array_append_new_inv s(3) by (cases v) (auto simp: json_array_append_new_def)
  then show "accounted owned (snd (case create s of (v, s1) \<Rightarrow> succeeded (on_world (json_array_append_new (Some p) v) s1)))"
    using c by (auto intro!: on_world_account)
qed

section \<open>Texts and files\<close>

interpretation fsrc: byte_source file_getc "\<lambda>bs. bs"
  by unfold_locales auto

lemma json_load_file_result:
  fixes fs :: "byte list \<Rightarrow> byte list + byte list"
  assumes "\<And>content. fs path = Inr content \<Longrightarrow> length content + 1 < 2 ^ 31 \<and> load_fuel (length content) \<le> n"
    and inv: "rc_inv {} E w"
  shows "\<exists>r e w'. json_load_file n point fs file_getc (Some path) flags error w = Some (r, e, w') \<and>
    rc_inv {} (plus_result r E) w'"
proof (cases "fs path")
  case (Inl reason)
  then show ?thesis using inv by (auto simp: json_load_file_def Let_def)
next
  case (Inr content)
  let ?e = "jsonp_error_init (jsonp_error_init error (Some path)) (Some (cstr ''<stream>''))"
  have "\<exists>x. load_with n point file_getc content flags ?e w = Some x"
    by (rule fsrc.load_with_total) (use assms(1) [OF Inr] in \<open>simp add: load_fuel_def\<close>)
  then obtain r e w' where l: "load_with n point file_getc content flags ?e w = Some (r, e, w')" by (metis prod_cases3)
  have "rc_inv {} (plus_result r E) w'" using fsrc.load_with_accounts [OF l inv] assms(1) [OF Inr] by simp
  then show ?thesis using l Inr by (simp add: json_load_file_def json_loadf_def Let_def del: cstr_Cons)
qed

lemma json_loads_result:
  assumes "rc_inv {} E w" "length t + 1 < 2 ^ 31"
  shows "\<exists>r e w'. json_loads point (Some t) flags error w = Some (r, e, w') \<and> rc_inv {} (plus_result r E) w'"
proof -
  obtain r e w' where l: "json_loads point (Some t) flags error w = Some (r, e, w')" using json_loads_ends by blast
  have "length (string_rest \<lparr>sd_data = t, sd_pos = 0\<rparr>) \<le> length t"
    by (simp add: string_rest_def c_string_def length_takeWhile_le)
  then have "rc_inv {} (plus_result r E) w'"
    using str.load_with_accounts [OF _ assms(1)] assms(2) l by (auto simp: json_loads_def Let_def)
  then show ?thesis using l by blast
qed

lemma from_loaded_account:
  assumes "handle_laws sm owned" "rc_inv {} (plus_result r (json_refs (owned (n_sm s)))) w'"
  shows "accounted owned (snd (from_loaded sm (r, e, w') s))"
proof (cases r)
  case None
  then show ?thesis using assms by (simp add: from_loaded_def accounted_def ThrowNativeError_def handle_lawsD(5))
next
  case (Some p)
  then show ?thesis using assms new_handle_account [of sm owned r "s\<lparr>n_world := w'\<rparr>"] by (simp add: from_loaded_def)
qed

lemma key_length: "roomy sm s \<Longrightarrow> length (key_param sm params i s) + 1 < 2 ^ 31"
  by (auto simp: roomy_def key_param_def c_string_def intro: le_less_trans [OF length_takeWhile_le])

lemma FromString_account:
  assumes "handle_laws sm owned"
  shows "keeps_account sm owned (FromString sm io params)"
  unfolding keeps_account_def
proof (intro allI impI)
  fix s assume s: "accounted owned s" "roomy sm s"
  obtain r e w' where "json_loads (io_point io) (Some (key_param sm params 1 s)) (to_size (params 2)) (Some stack_error) (n_world s) = Some (r, e, w')"
    "rc_inv {} (plus_result r (json_refs (owned (n_sm s)))) w'"
    using json_loads_result key_length [OF s(2)] s(1) unfolding accounted_def by blast
  then show "accounted owned (snd (FromString sm io params s))" using from_loaded_account [OF assms] by (simp add: FromString_def)
qed

lemma FromFile_account:
  assumes "handle_laws sm owned"
  shows "keeps_account sm owned (FromFile sm io params)"
  unfolding keeps_account_def
proof (intro allI impI)
  fix s assume s: "accounted owned s" "roomy sm s"
  let ?path = "sm_BuildPath sm (key_param sm params 1 s)"
  let ?n = "load_fuel (case n_files s ?path of None \<Rightarrow> 0 | Some content \<Rightarrow> length content)"
  have "\<exists>r e w'. json_load_file ?n (io_point io) (open_read io s) file_getc (Some ?path) (to_size (params 2)) (Some stack_error) (n_world s) =
      Some (r, e, w') \<and> rc_inv {} (plus_result r (json_refs (owned (n_sm s)))) w'"
    by (rule json_load_file_result) (use s in \<open>auto simp: open_read_def roomy_def accounted_def split: option.splits\<close>)
  then show "accounted owned (snd (FromFile sm io params s))" using from_loaded_account [OF assms] by (auto simp: FromFile_def Let_def)
qed

lemma dumped_account:
  assumes "accounted owned s" "same_heap (n_world s) w'"
  shows "rc_inv {} (json_refs (owned (n_sm s))) w'"
  using assms rc_inv_same_heap [OF assms(2)] by (simp add: accounted_def)

lemma roomy_loopable: "accounted owned s \<Longrightarrow> roomy sm s \<Longrightarrow> loopable (n_world s)"
  by (auto simp: accounted_def roomy_def loopable_def)

lemma ToString_account:
  assumes laws: "handle_laws sm owned"
  shows "keeps_account sm owned (ToString sm io params)"
  unfolding ToString_def
proof (rule with_json_account [OF laws])
  fix p s assume s: "accounted owned s" "roomy sm s" "p \<in># json_refs (owned (n_sm s))"
  obtain t w' where d: "json_dumps (io_point io) (Some p) (to_size (params 4)) (n_world s) = (t, w')" by (metis surj_pair)
  have "p \<in> dom (w_heap (n_world s))" using value_live s(1,3) unfolding accounted_def by blast
  then have "rc_inv {} (json_refs (owned (n_sm s))) w'"
    using dumped_account [OF s(1)] json_dumps_runs [OF roomy_loopable [OF s(1,2)] _ d] by blast
  then have "accounted owned (s\<lparr>n_world := w'\<rparr>)" by (simp add: accounted_def)
  then show "accounted owned (snd (case on_world (json_dumps (io_point io) (Some p) (to_size (params 4))) s of
         (None, s1) \<Rightarrow> (0, s1)
       | (Some result, s1) \<Rightarrow> (1, StringToLocalUTF8 sm (params 2) (params 3) result s1)))"
    using d laws by (cases t) (simp_all add: on_world_def)
qed

lemma json_dump_file_runs:
  assumes "loopable w" "p \<in> dom (w_heap w)" "json_dump_file point fopen fwrite fclose (Some p) path flags w = (r, f, w')"
  shows "same_heap w w'"
proof (cases "fopen path")
  case (Some out)
  obtain x out1 w1 where c: "json_dump_callback point (Some p) (dump_to_file fwrite) out flags w = (x, out1, w1)" by (metis prod_cases3)
  then have "w' = w1" using assms(3) Some by (auto simp: json_dump_file_def json_dumpf_def split: if_splits)
  then show ?thesis using qfile.json_dump_callback_runs [OF assms(1,2) c] by simp
qed (use assms in \<open>simp add: json_dump_file_def\<close>)

lemma ToFile_account:
  assumes laws: "handle_laws sm owned"
  shows "keeps_account sm owned (ToFile sm io params)"
  unfolding ToFile_def
proof (rule with_json_account [OF laws])
  fix p s assume s: "accounted owned s" "roomy sm s" "p \<in># json_refs (owned (n_sm s))"
  let ?path = "sm_BuildPath sm (key_param sm params 2 s)"
  obtain r f w' where d: "json_dump_file (io_point io) (open_write io) (io_fwrite io) (io_fclose io) (Some p) ?path (to_size (params 3)) (n_world s) = (r, f, w')"
    by (metis prod_cases3)
  have p: "p \<in> dom (w_heap (n_world s))" using value_live s(1,3) unfolding accounted_def by blast
  have "rc_inv {} (json_refs (owned (n_sm s))) w'"
    by (rule dumped_account [OF s(1) json_dump_file_runs [OF roomy_loopable [OF s(1,2)] p d]])
  then show "accounted owned (snd (let realpath = ?path in
       case json_dump_file (io_point io) (open_write io) (io_fwrite io) (io_fclose io) (Some p) realpath
              (to_size (params 3)) (n_world s) of
         (r, file, w) \<Rightarrow>
           (of_bool_cell (r = 0),
            s\<lparr>n_world := w, n_files := (case file of None \<Rightarrow> n_files s | Some content \<Rightarrow> (n_files s)(realpath \<mapsto> content))\<rparr>)))"
    using d by (simp add: accounted_def Let_def)
qed

section \<open>Every native\<close>

lemma with_member_account:
  assumes "handle_laws sm owned"
    and "\<And>key s. accounted owned s \<Longrightarrow> accounted owned (snd (missing key s))"
    and "\<And>v s. accounted owned s \<Longrightarrow> roomy sm s \<Longrightarrow> v \<in> dom (w_heap (n_world s)) \<Longrightarrow> accounted owned (snd (f v s))"
  shows "keeps_account sm owned (with_member sm params missing f)"
  unfolding with_member_def
  by (rule with_json_account [OF assms(1)])
    (auto simp: Let_def intro!: assms(2,3) dest: member_live [OF accountedD] split: option.splits)

lemma with_element_account:
  assumes "handle_laws sm owned"
    and "\<And>v s. accounted owned s \<Longrightarrow> roomy sm s \<Longrightarrow> v \<in> dom (w_heap (n_world s)) \<Longrightarrow> accounted owned (snd (f v s))"
  shows "keeps_account sm owned (with_element sm params f)"
  unfolding with_element_def
proof (rule with_json_account [OF assms(1)])
  fix p s assume s: "accounted owned s" "roomy sm s" "p \<in># json_refs (owned (n_sm s))"
  show "accounted owned (snd (let index = params 2 in case json_array_get (n_world s) (Some p) (to_size index) of
         None \<Rightarrow> ThrowNativeError sm (index_msg index) s | Some v \<Rightarrow> f v s))"
    using s assms(1) by (auto simp: Let_def intro!: assms(2) dest: element_live [OF accountedD] split: option.splits)
qed

lemma store_account:
  assumes "handle_laws sm owned" "accounted owned s"
  shows "accounted owned (snd (store_int64 sm params v s))" "accounted owned (snd (store_string sm params v s))"
  using assms by (auto simp: store_int64_def store_string_def split: option.splits)

lemma incref_data: "v \<in> dom (w_heap w) \<Longrightarrow> data_at (json_incref (Some v) w) q = data_at w q"
  by (cases q) (auto simp: json_incref_def data_at_def set_cell_def)

lemma stored_value_account:
  assumes laws: "handle_laws sm owned" and s: "accounted owned s" "roomy sm s"
    and f: "\<And>v. rc_inv {} (add_mset v (json_refs (owned (n_sm s)))) (json_incref (Some v) (n_world s)) \<Longrightarrow>
      json_object_size (json_incref (Some v) (n_world s)) (Some p) < 2 ^ 31 \<Longrightarrow>
      rc_inv {} (json_refs (owned (n_sm s))) (snd (f v (n_world s)))"
  shows "accounted owned (snd (with_json sm param (\<lambda>v s1. succeeded (on_world (f v) s1)) s))"
proof -
  obtain err y where r: "sm_ReadHandle sm htJSON (to_handle param) (n_sm s) = (err, y)" by (metis surj_pair)
  consider "err \<noteq> 0" | "err = 0" "y = None" | v where "err = 0" "y = Some v" by (cases y) auto
  then show ?thesis
  proof cases
    case 3
    then have "v \<in># json_refs (owned (n_sm s))" using json_refs_in handle_lawsD(1) [OF laws] r by blast
    then have v: "v \<in> dom (w_heap (n_world s))" by (rule value_live [OF accountedD [OF s(1)]])
    have "data_at (json_incref (Some v) (n_world s)) (Some p) = data_at (n_world s) (Some p)" using v by (rule incref_data)
    from object_size_data [OF this] have "json_object_size (json_incref (Some v) (n_world s)) (Some p) < 2 ^ 31"
      using s(2) unfolding roomy_def by presburger
    then have "accounted owned (snd (succeeded (on_world (f v) s)))"
      by (intro on_world_account f incref_account [OF s v])
    then show ?thesis using r 3 by (simp add: with_json_def GetJSONFromHandle_def)
  qed (use r s laws in \<open>simp_all add: with_json_def GetJSONFromHandle_def Let_def del: cstr_Cons\<close>)
qed

lemma store_handles_account:
  assumes laws: "handle_laws sm owned"
  shows "keeps_account sm owned (SetObjectValue sm io params)" "keeps_account sm owned (SetArrayValue sm io params)"
    "keeps_account sm owned (PushArrayValue sm io params)"
proof -
  show "keeps_account sm owned (SetObjectValue sm io params)" unfolding SetObjectValue_def
  proof (rule with_json_account [OF laws])
    fix p s assume s: "accounted owned s" "roomy sm s" "p \<in># json_refs (owned (n_sm s))"
    show "accounted owned (snd (let key = key_param sm params 2 s in
       with_json sm (params 3) (\<lambda>v s1. succeeded (on_world (json_object_set (Some p) (Some key) (Some v)) s1)) s))"
      unfolding Let_def by (rule stored_value_account [where p = p, OF laws s(1,2)])
        (use s(3) in \<open>auto simp: json_object_set_def intro: json_object_set_new_inv\<close>)
  qed
  show "keeps_account sm owned (SetArrayValue sm io params)" unfolding SetArrayValue_def
  proof (rule with_json_account [OF laws])
    fix p s assume s: "accounted owned s" "roomy sm s" "p \<in># json_refs (owned (n_sm s))"
    show "accounted owned (snd (with_json sm (params 3) (\<lambda>v s1. succeeded (on_world (json_array_set (Some p) (to_size (params 2)) (Some v)) s1)) s))"
      by (rule stored_value_account [where p = p, OF laws s(1,2)])
        (use s(3) in \<open>auto simp: json_array_set_def intro: json_array_set_new_inv\<close>)
  qed
  show "keeps_account sm owned (PushArrayValue sm io params)" unfolding PushArrayValue_def
  proof (rule with_json_account [OF laws])
    fix p s assume s: "accounted owned s" "roomy sm s" "p \<in># json_refs (owned (n_sm s))"
    show "accounted owned (snd (with_json sm (params 2) (\<lambda>v s1. succeeded (on_world (json_array_append (Some p) (Some v)) s1)) s))"
      by (rule stored_value_account [where p = p, OF laws s(1,2)])
        (use s(3) in \<open>auto simp: json_array_append_def intro: json_array_append_new_inv\<close>)
  qed
qed

lemma removal_account:
  assumes laws: "handle_laws sm owned"
  shows "keeps_account sm owned (RemoveFromObject sm io params)" "keeps_account sm owned (ClearObject sm io params)"
    "keeps_account sm owned (RemoveFromArray sm io params)" "keeps_account sm owned (ClearArray sm io params)"
  unfolding RemoveFromObject_def ClearObject_def RemoveFromArray_def ClearArray_def
  by (rule with_json_account [OF laws], rule on_world_account,
      auto simp: accounted_def intro: json_object_del_inv json_object_clear_inv json_array_remove_inv json_array_clear_inv)+

lemma creation_account:
  assumes laws: "handle_laws sm owned"
  shows "keeps_account sm owned (CreateObject sm io params)" "keeps_account sm owned (CreateArray sm io params)"
proof -
  have "accounted owned (snd (case on_world f s of (object, s1) \<Rightarrow> new_json_handle sm msg object s1))"
    if "accounted owned s" "\<And>E w r w'. rc_inv {} E w \<Longrightarrow> f w = (r, w') \<Longrightarrow> rc_inv {} (plus_result r E) w'" for f msg s
    using that new_handle_account [OF laws] by (auto simp: on_world_def accounted_def [of owned s] split: prod.splits)
  then show "keeps_account sm owned (CreateObject sm io params)" "keeps_account sm owned (CreateArray sm io params)"
    unfolding keeps_account_def CreateObject_def CreateArray_def by (blast intro: json_object_inv json_array_inv)+
qed

lemma keys_account:
  assumes laws: "handle_laws sm owned"
  shows "keeps_account sm owned (CreateObjectKeys sm io params)"
  unfolding CreateObjectKeys_def
proof (rule with_json_account [OF laws], goal_cases)
  case (1 p s)
  obtain x e h where c: "sm_CreateHandleEx sm htJSONObjectKeys (Some (n_fresh s)) (n_sm s) = ((x, e), h)" by (metis surj_pair)
  note o = handle_lawsD(2) [OF laws c]
  then show ?case using 1 c o
    by (auto simp: Let_def accounted_def ThrowNativeError_def handle_lawsD(5) [OF laws] simp del: cstr_Cons)
qed

lemmas account_intros =
  creation_account keys_account store_handles_account removal_account FromString_account FromFile_account ToString_account ToFile_account
  set_member_account set_element_account push_element_account new_values_give with_json_account with_member_account with_element_account

lemmas getter_defs =
  GetObjectSize_def GetObjectValue_def GetObjectBoolValue_def GetObjectFloatValue_def GetObjectIntValue_def GetObjectInt64Value_def
  GetObjectStringValue_def IsObjectNullValue_def IsObjectKeyValid_def GetArraySize_def GetArrayValue_def GetArrayBoolValue_def
  GetArrayFloatValue_def GetArrayIntValue_def GetArrayInt64Value_def GetArrayStringValue_def IsArrayNullValue_def

lemmas setter_defs =
  SetObjectBoolValue_def SetObjectFloatValue_def SetObjectIntValue_def SetObjectInt64Value_def SetObjectNullValue_def
  SetObjectStringValue_def SetArrayBoolValue_def SetArrayFloatValue_def SetArrayIntValue_def SetArrayInt64Value_def
  SetArrayNullValue_def SetArrayStringValue_def PushArrayBoolValue_def PushArrayFloatValue_def PushArrayIntValue_def
  PushArrayInt64Value_def PushArrayNullValue_def PushArrayStringValue_def

lemma native_account:
  assumes laws: "handle_laws sm owned" and f: "(name, f) \<in> set json_natives" "name \<noteq> ''JSONObjectKeys.ReadKey''"
  shows "keeps_account sm owned (f sm io params)"
proof -
  let ?ok = "\<lambda>nf. fst nf \<noteq> ''JSONObjectKeys.ReadKey'' \<longrightarrow> keeps_account sm owned (snd nf sm io params)"
  have "list_all ?ok json_natives"
    unfolding json_natives_def list.pred_inject fst_conv snd_conv
    by (intro conjI impI TrueI; (simp only: getter_defs setter_defs)?)
      (use laws in \<open>auto intro!: account_intros value_handle_account store_account\<close>)
  then show ?thesis using f by (auto simp: list_all_iff)
qed

section \<open>The HTTP natives and the reference counts\<close>

lemma handle_effects:
  assumes "handle_laws sm owned"
  shows "\<And>n ps i h v h'. sm_FormatString sm n ps i h = (v, h') \<Longrightarrow> owned h' = owned h"
    "\<And>c h f h'. sm_CreateForward sm c h = (f, h') \<Longrightarrow> owned h' = owned h"
    "\<And>msg h. owned (sm_LogError sm msg h) = owned h"
proof -
  note L = assms [unfolded handle_laws_def, THEN conjunct2, THEN conjunct2, THEN conjunct2, THEN conjunct2, THEN conjunct2]
  show "\<And>n ps i h v h'. sm_FormatString sm n ps i h = (v, h') \<Longrightarrow> owned h' = owned h" using L [THEN conjunct1] by blast
  note L2 = L [THEN conjunct2]
  show "\<And>c h f h'. sm_CreateForward sm c h = (f, h') \<Longrightarrow> owned h' = owned h" using L2 [THEN conjunct1] by blast
  show "\<And>msg h. owned (sm_LogError sm msg h) = owned h" using L2 [THEN conjunct2] by blast
qed

lemma accounted_cong:
  "owned (n_sm s') = owned (n_sm s) \<Longrightarrow> n_world s' = n_world s \<Longrightarrow> accounted owned s' = accounted owned s"
  by (simp add: accounted_def)

lemma with_client_account:
  assumes "handle_laws sm owned" "\<And>a c s. accounted owned s \<Longrightarrow> roomy sm s \<Longrightarrow> accounted owned (snd (f a c s))"
  shows "keeps_account sm owned (with_client sm param f)"
  using assms by (auto simp: keeps_account_def with_client_def Let_def split: prod.splits)

lemma with_response_account:
  assumes "handle_laws sm owned" "\<And>a c s. accounted owned s \<Longrightarrow> roomy sm s \<Longrightarrow> accounted owned (snd (f a c s))"
  shows "keeps_account sm owned (with_response sm param f)"
  using assms by (auto simp: keeps_account_def with_response_def Let_def simp del: cstr_Cons split: prod.splits)

lemma with_request_account:
  assumes "handle_laws sm owned" "\<And>a c. keeps_account sm owned (f a c)"
  shows "keeps_account sm owned (with_request sm param f)"
  using assms by (auto simp: keeps_account_def with_request_def GetRequestFromHandle_def Let_def simp del: cstr_Cons split: prod.splits option.splits)

lemma submitted_account:
  assumes "handle_laws sm owned"
  shows "accounted owned (submitted sm outcome s) = accounted owned s"
proof -
  have "accounted owned (fold (\<lambda>e s. case e of LogError msg \<Rightarrow> s\<lparr>n_sm := sm_LogError sm msg (n_sm s)\<rparr> | _ \<Rightarrow> s) effs s) = accounted owned s"
    for effs s
  proof (induction effs arbitrary: s)
    case (Cons e effs)
    have "accounted owned (s\<lparr>n_sm := sm_LogError sm msg (n_sm s)\<rparr>) = accounted owned s" for msg
      by (simp add: accounted_def handle_effects(3) [OF assms])
    then show ?case using Cons by (cases e) simp_all
  qed simp
  then show ?thesis by (cases outcome) (simp_all add: submitted_def accounted_def)
qed

definition live_data :: "('h \<Rightarrow> (HandleType \<times> nat option) multiset) \<Rightarrow> ptr option \<Rightarrow> 'h natives \<Rightarrow> bool" where
  "live_data owned data s \<longleftrightarrow> (\<forall>p. data = Some p \<longrightarrow> p \<in># json_refs (owned (n_sm s)))"

lemma context_new_same:
  assumes "loopable w" "\<And>p. data = Some p \<Longrightarrow> p \<in> dom (w_heap w)"
    and "HTTPRequestContext_new point method url data headers forward v opts w = (c, w')"
  shows "same_heap w w'"
proof (cases data)
  case (Some p)
  obtain t w1 where d: "json_dumps point (Some p) 0 w = (t, w1)" by (metis surj_pair)
  then have "w' = w1" using assms(3) Some by (auto simp: HTTPRequestContext_new_def Let_def split: option.splits prod.splits)
  then show ?thesis using json_dumps_runs [OF assms(1) _ d] assms(2) Some by blast
qed (use assms(3) in \<open>auto simp: HTTPRequestContext_new_def Let_def\<close>)

lemma client_request_account:
  assumes laws: "handle_laws sm owned" and s: "accounted owned s" "roomy sm s" "live_data owned data s"
  shows "accounted owned (snd (client_request sm io method endpoint data callback v client s))"
proof -
  obtain fe h where f: "sm_CreateForward sm callback (n_sm s) = (fe, h)" by (metis surj_pair)
  obtain out w where r: "HTTPClient_Request (io_point io) (io_header_order io) fe (io_slist io) client method endpoint data v (n_world s) = (out, w)"
    by (metis surj_pair)
  have live: "\<And>p. data = Some p \<Longrightarrow> p \<in> dom (w_heap (n_world s))"
    using s(3) value_live [OF accountedD [OF s(1)]] by (simp add: live_data_def)
  have "same_heap (n_world s) w"
    using r context_new_same [OF roomy_loopable [OF s(1,2)] live]
    by (auto simp: HTTPClient_Request_def Let_def simp del: cstr_Cons split: if_splits prod.splits)
  then have "rc_inv {} (json_refs (owned h)) w" using dumped_account [OF s(1)] handle_effects(2) [OF laws f] by simp
  then show ?thesis using f r submitted_account [OF laws] by (simp add: client_request_def accounted_def)
qed

lemma FreeHandle_account:
  assumes laws: "handle_laws sm owned" and s: "accounted owned s"
  shows "accounted owned (FreeHandle_call sm hndl s)"
proof -
  obtain d h where f: "sm_FreeHandle sm hndl (n_sm s) = (d, h)" by (metis surj_pair)
  note o = handle_lawsD(3) [OF laws f]
  show ?thesis
  proof (cases d)
    case None
    then show ?thesis using f o s by (simp add: FreeHandle_call_def accounted_def)
  next
    case (Some x)
    obtain t y where x: "x = (t, y)" by force
    have "rc_inv {} (json_refs (owned h)) (json_decref y (n_world s))" if "t = htJSON"
      using s o Some x that json_decref_inv by (cases y) (auto simp: accounted_def json_decref_def [of None])
    then show ?thesis using f o s Some x by (cases t) (auto simp: FreeHandle_call_def accounted_def)
  qed
qed

lemma performs_account:
  assumes laws: "handle_laws sm owned" and s: "accounted owned s"
    and start: "\<And>fw h. owned h = owned (n_sm s) \<Longrightarrow> accounted owned (start fw (s\<lparr>n_sm := h\<rparr>))"
  shows "accounted owned (snd (performs sm params k start s))"
proof -
  obtain fe h where f: "sm_CreateForward sm (params k) (n_sm s) = (fe, h)" by (metis surj_pair)
  have "accounted owned (s\<lparr>n_sm := h\<rparr>)" using s handle_effects(2) [OF laws f] by (simp add: accounted_def)
  then show ?thesis using f start [OF handle_effects(2) [OF laws f]] laws FreeHandle_account [OF laws]
    by (simp add: performs_def Let_def del: cstr_Cons)
qed

lemma request_start_account:
  assumes laws: "handle_laws sm owned" and s: "accounted owned s" "roomy sm s" "live_data owned data s" and h: "owned h = owned (n_sm s)"
  shows "accounted owned (request_start io method data v request fw (s\<lparr>n_sm := h\<rparr>))"
proof -
  obtain c w where p: "HTTPRequest_Perform (io_point io) (io_header_order io) (io_slist io) request method data fw v (n_world s) = (c, w)"
    by (metis surj_pair)
  have live: "\<And>p. data = Some p \<Longrightarrow> p \<in> dom (w_heap (n_world s))"
    using s(3) value_live [OF accountedD [OF s(1)]] by (simp add: live_data_def)
  have "same_heap (n_world s) w"
    using p context_new_same [OF roomy_loopable [OF s(1,2)] live] by (auto simp: HTTPRequest_Perform_def split: prod.splits)
  then have "rc_inv {} (json_refs (owned h)) w" using dumped_account [OF s(1)] h by simp
  then show ?thesis using p by (simp add: request_start_def accounted_def)
qed

lemma changed_start_account:
  "accounted owned s \<Longrightarrow> owned h = owned (n_sm s) \<Longrightarrow> accounted owned (changed_start a method fw (s\<lparr>n_sm := h\<rparr>))"
  by (simp add: changed_start_def put_request_def accounted_def split: prod.splits)

lemma put_account [simp]:
  "accounted owned (snd (put_client a c s)) = accounted owned s" "accounted owned (snd (put_request a r s)) = accounted owned s"
  by (simp_all add: put_client_def put_request_def accounted_def)

lemma new_object_account:
  assumes laws: "handle_laws sm owned"
  shows "keeps_account sm owned (CreateClient sm io params)" "keeps_account sm owned (CreateRequest sm io params)"
proof -
  have o: "json_refs (owned h) = json_refs (owned g)"
    if "sm_CreateHandleEx sm t (Some a) g = ((x, e), h)" "t \<noteq> htJSON" for t a g x e h
    using handle_lawsD(2) [OF laws that(1)] that(2) by simp
  show "keeps_account sm owned (CreateClient sm io params)" "keeps_account sm owned (CreateRequest sm io params)"
    by (auto simp: keeps_account_def CreateClient_def CreateRequest_def Let_def accounted_def ThrowNativeError_def handle_lawsD(5) [OF laws]
        simp del: cstr_Cons split: prod.splits dest!: o)
qed

lemma client_natives_account:
  assumes laws: "handle_laws sm owned"
  shows "keeps_account sm owned (SetClientHeader sm io params)" "keeps_account sm owned (GetRequest sm io params)"
    "keeps_account sm owned (DeleteRequest sm io params)" "keeps_account sm owned (client_send method sm io params)"
    "keeps_account sm owned (client_transfer transfer sm io params)" "keeps_account sm owned (client_get g sm io params)"
    "keeps_account sm owned (client_set u sm io params)"
proof -
  show "keeps_account sm owned (SetClientHeader sm io params)" "keeps_account sm owned (client_get g sm io params)"
    "keeps_account sm owned (client_set u sm io params)"
    unfolding SetClientHeader_def client_get_def client_set_def using laws by (auto intro!: with_client_account)
  show "keeps_account sm owned (GetRequest sm io params)" "keeps_account sm owned (DeleteRequest sm io params)"
    unfolding GetRequest_def DeleteRequest_def
    by (rule with_client_account [OF laws], rule client_request_account [OF laws], simp_all add: live_data_def)+
  show "keeps_account sm owned (client_send method sm io params)" unfolding client_send_def
  proof (rule with_client_account [OF laws])
    fix a client s assume s: "accounted owned s" "roomy sm s"
    obtain err data where r: "sm_ReadHandle sm htJSON (to_handle (params 3)) (n_sm s) = (err, data)" by (metis surj_pair)
    have "live_data owned data s" if "err = 0"
      using handle_lawsD(1) [OF laws] r that json_refs_in unfolding live_data_def by blast
    then show "accounted owned (snd (let endpoint = key_param sm params 2 s; hndlData = to_handle (params 3) in
       case sm_ReadHandle sm htJSON hndlData (n_sm s) of
         (err, data) \<Rightarrow>
           if err \<noteq> 0 then
             ThrowNativeError sm (cstr ''Invalid data handle '' @ fmt_x hndlData @ cstr '' (error '' @ fmt_d err @ cstr '')'') s
           else client_request sm io method endpoint data (params 4) (params 5) client s))"
      using r s client_request_account [OF laws s] laws by (simp add: Let_def del: cstr_Cons)
  qed
  show "keeps_account sm owned (client_transfer transfer sm io params)" unfolding client_transfer_def
  proof (rule with_client_account [OF laws])
    fix a client s assume s: "accounted owned s" "roomy sm s"
    obtain fe h where f: "sm_CreateForward sm (params 4) (n_sm s) = (fe, h)" by (metis surj_pair)
    then have "accounted owned (s\<lparr>n_sm := h\<rparr>)" using s handle_effects(2) [OF laws f] by (simp add: accounted_def)
    then show "accounted owned (snd (let endpoint = key_param sm params 2 s; path = key_param sm params 3 s in
       case sm_CreateForward sm (params 4) (n_sm s) of
         (fe, h) \<Rightarrow>
           (1, submitted sm (transfer (io_header_order io) fe (io_slist io) client endpoint path (params 5)) (s\<lparr>n_sm := h\<rparr>))))"
      using f submitted_account [OF laws] by (simp add: Let_def)
  qed
qed

lemma request_natives_account:
  assumes laws: "handle_laws sm owned"
  shows "keeps_account sm owned (request_named msg change sm io params)" "keeps_account sm owned (SetRequestBasicAuth sm io params)"
    "keeps_account sm owned (request_bare method sm io params)" "keeps_account sm owned (request_send method sm io params)"
    "keeps_account sm owned (request_transfer transfer sm io params)" "keeps_account sm owned (PerformPostForm sm io params)"
    "keeps_account sm owned (request_get g sm io params)" "keeps_account sm owned (request_set u sm io params)"
proof -
  show "keeps_account sm owned (request_named msg change sm io params)" unfolding request_named_def
  proof (rule with_request_account [OF laws])
    fix a request
    have "accounted owned (s\<lparr>n_sm := h\<rparr>)" if "accounted owned s" "sm_FormatString sm 8192 params 3 (n_sm s) = (v, h)" for s v h
      using that handle_effects(1) [OF laws] by (simp add: accounted_def)
    then show "keeps_account sm owned (\<lambda>s. let name = key_param sm params 2 s in
       if name = [] then ThrowNativeError sm msg s
       else
         case sm_FormatString sm 8192 params 3 (n_sm s) of
           (None, h) \<Rightarrow> (0, s\<lparr>n_sm := h\<rparr>)
         | (Some v, h) \<Rightarrow> put_request a (change io name v request) (s\<lparr>n_sm := h\<rparr>))"
      using laws by (auto simp: keeps_account_def Let_def split: prod.splits option.splits)
  qed
  show "keeps_account sm owned (SetRequestBasicAuth sm io params)" "keeps_account sm owned (request_get g sm io params)"
    "keeps_account sm owned (request_set u sm io params)"
    unfolding SetRequestBasicAuth_def request_get_def request_set_def
    by (rule with_request_account [OF laws], simp add: keeps_account_def)+
  show "keeps_account sm owned (request_bare method sm io params)" unfolding request_bare_def
    by (rule with_request_account [OF laws]) (auto simp: keeps_account_def live_data_def
        intro!: performs_account [OF laws] request_start_account [OF laws])
  show "keeps_account sm owned (request_send method sm io params)" unfolding request_send_def
    by (rule with_request_account [OF laws], rule with_json_account [OF laws])
      (auto simp: live_data_def intro!: performs_account [OF laws] request_start_account [OF laws])
  show "keeps_account sm owned (request_transfer transfer sm io params)" unfolding request_transfer_def
    by (rule with_request_account [OF laws]) (auto simp: keeps_account_def Let_def
        intro!: performs_account [OF laws] changed_start_account)
  show "keeps_account sm owned (PerformPostForm sm io params)" unfolding PerformPostForm_def
    by (rule with_request_account [OF laws]) (auto simp: keeps_account_def
        intro!: performs_account [OF laws] changed_start_account)
qed

lemma json_loads_option_result:
  assumes "rc_inv {} E w" "\<And>t. body = Some t \<Longrightarrow> length t + 1 < 2 ^ 31"
  shows "\<exists>r e w'. json_loads point body flags error w = Some (r, e, w') \<and> rc_inv {} (plus_result r E) w'"
  using assms json_loads_result by (cases body) (auto simp: json_loads_def [of _ None] Let_def)

text \<open>A response handle leads to a response, whose body has fewer than \<open>2\<^sup>3\<^sup>1\<close> bytes.\<close>

definition responses_ok :: "('h \<Rightarrow> (HandleType \<times> nat option) multiset) \<Rightarrow> 'h natives \<Rightarrow> bool" where
  "responses_ok owned s \<longleftrightarrow> (\<forall>object. (htHTTPResponse, object) \<in># owned (n_sm s) \<longrightarrow>
     (\<exists>a r. object = Some a \<and> n_responses s a = Some r \<and> (\<forall>t. rs_body r = Some t \<longrightarrow> length t + 1 < 2 ^ 31)))"

lemma put_response_account [simp]: "accounted owned (put_response a r s) = accounted owned s"
  by (simp add: put_response_def accounted_def)

lemma put_response_world [simp]: "n_world (put_response a r s) = n_world s" "n_sm (put_response a r s) = n_sm s"
  by (simp_all add: put_response_def)

lemma GetResponseData_account:
  assumes laws: "handle_laws sm owned" and s: "accounted owned s" "responses_ok owned s"
  shows "accounted owned (snd (GetResponseData sm io params s))"
proof -
  obtain err object where r: "sm_ReadHandle sm htHTTPResponse (to_handle (params 1)) (n_sm s) = (err, object)" by (metis surj_pair)
  show ?thesis
  proof (cases "err = 0")
    case False
    then show ?thesis using r s laws by (simp add: GetResponseData_def with_response_def Let_def del: cstr_Cons)
  next
    case True
    then obtain a rs where a: "object = Some a" "n_responses s a = Some rs" "\<And>t. rs_body rs = Some t \<Longrightarrow> length t + 1 < 2 ^ 31"
      using handle_lawsD(1) [OF laws] r s(2) unfolding responses_ok_def by blast
    obtain d e w where l: "json_loads (io_point io) (rs_body rs) 0 (Some stack_error) (n_world s) = Some (d, e, w)"
      "rc_inv {} (plus_result d (json_refs (owned (n_sm s)))) w"
      using json_loads_option_result [OF accountedD [OF s(1)] a(3)] by blast
    obtain x err2 h where c: "sm_CreateHandleEx sm htJSON d (n_sm s) = ((x, err2), h)" by (metis surj_pair)
    have "rc_inv {} (json_refs (owned (n_sm s))) (json_decref d w)"
      using l(2) json_decref_inv by (cases d) (auto simp: json_decref_def)
    then show ?thesis using r True a l c s handle_lawsD(2) [OF laws c]
      by (auto simp: GetResponseData_def with_response_def Let_def accounted_def ThrowNativeError_def handle_lawsD(5) [OF laws]
          simp del: cstr_Cons)
  qed
qed

lemmas http_option_defs =
  GetClientConnectTimeout_def SetClientConnectTimeout_def GetClientFollowLocation_def SetClientFollowLocation_def GetClientTimeout_def
  SetClientTimeout_def GetClientMaxSendSpeed_def SetClientMaxSendSpeed_def GetClientMaxRecvSpeed_def SetClientMaxRecvSpeed_def
  GetRequestConnectTimeout_def SetRequestConnectTimeout_def GetRequestMaxRedirects_def SetRequestMaxRedirects_def
  GetRequestMaxRecvSpeed_def SetRequestMaxRecvSpeed_def GetRequestMaxSendSpeed_def SetRequestMaxSendSpeed_def
  GetRequestTimeout_def SetRequestTimeout_def

lemmas http_request_defs =
  PostRequest_def PutRequest_def PatchRequest_def DownloadFile_def UploadFile_def AppendRequestFormParam_def AppendRequestQueryParam_def
  SetRequestHeader_def PerformGetRequest_def PerformDeleteRequest_def PerformPostRequest_def PerformPutRequest_def
  PerformPatchRequest_def PerformDownloadFile_def PerformUploadFile_def

lemma http_native_account:
  assumes laws: "handle_laws sm owned" and f: "(name, f) \<in> set http_natives" and s: "accounted owned s" "roomy sm s" "responses_ok owned s"
  shows "accounted owned (snd (f sm io params s))"
proof -
  let ?ok = "\<lambda>nf. keeps_account sm owned (snd nf sm io params) \<or> snd nf = GetResponseData"
  have "keeps_account sm owned (GetResponseStatus sm io params)" "keeps_account sm owned (GetResponseHeader sm io params)"
    unfolding GetResponseStatus_def GetResponseHeader_def
    using laws by (auto simp: Let_def intro!: with_response_account split: option.splits)
  then have "list_all ?ok http_natives"
    unfolding http_natives_def list.pred_inject snd_conv http_option_defs http_request_defs
    by (intro conjI list.pred_inject(1); blast intro: new_object_account [OF laws] client_natives_account [OF laws] request_natives_account [OF laws])
  then have "?ok (name, f)" using f by (auto simp: list_all_iff)
  then show ?thesis using GetResponseData_account [OF laws s(1,3)] s(1,2) by (auto simp: keeps_account_def)
qed

end
