(* ===== verification/Plugin_Runs.thy ===== *)
theory Plugin_Runs
  imports Native_Account
begin

text \<open>
  Plugins as a whole: a step relation whose steps are calls of natives, deletions of handles and the arrival of
  responses, and what holds in every state a plugin reaches.  A small host shows that the assumptions on SourceMod can be met.
\<close>

section \<open>Runs of a plugin\<close>

text \<open>
  \<^verbatim>\<open>ReadKey\<close> reads through an iterator that does not own the object; \<^term>\<open>reads_live\<close> says that its pair still exists.
\<close>

definition reads_live :: "'h sourcemod \<Rightarrow> params \<Rightarrow> 'h natives \<Rightarrow> bool" where
  "reads_live sm params s \<longleftrightarrow>
     (case sm_ReadHandle sm htJSONObjectKeys (to_handle (params 1)) (n_sm s) of
        (err, object) \<Rightarrow> err \<noteq> 0 \<or> iter_live (n_world s) (the (n_keys s (the object))))"

lemma ReadObjectKey_account:
  assumes laws: "handle_laws sm owned" and s: "accounted owned s" "reads_live sm params s"
  shows "accounted owned (snd (ReadObjectKey sm io params s))"
proof -
  have [simp]: "accounted owned (u\<lparr>n_keys := k\<rparr>) = accounted owned u" for u k by (simp add: accounted_def)
  show ?thesis using s laws
    by (auto simp: ReadObjectKey_def reads_live_def Let_def simp del: cstr_Cons split: prod.splits option.splits)
qed

text \<open>
  A plugin calls natives and deletes handles, in any order and with any arguments; between its calls the extension may
  hand it a response.
\<close>

inductive plugin_step ::
  "'h sourcemod \<Rightarrow> ('h \<Rightarrow> (HandleType \<times> nat option) multiset) \<Rightarrow> io_env \<Rightarrow> 'h natives \<Rightarrow> 'h natives \<Rightarrow> bool"
  for sm owned io where
  json_call: "(name, f) \<in> set json_natives \<Longrightarrow> roomy sm s \<Longrightarrow> (name = ''JSONObjectKeys.ReadKey'' \<longrightarrow> reads_live sm params s) \<Longrightarrow>
    plugin_step sm owned io s (snd (f sm io params s))"
| http_call: "(name, f) \<in> set http_natives \<Longrightarrow> roomy sm s \<Longrightarrow> responses_ok owned s \<Longrightarrow>
    plugin_step sm owned io s (snd (f sm io params s))"
| delete: "plugin_step sm owned io s (FreeHandle_call sm hndl s)"
| response: "sm_CreateHandleEx sm htHTTPResponse (Some a) (n_sm s) = (x, h) \<Longrightarrow>
    plugin_step sm owned io s (s\<lparr>n_sm := h, n_responses := (n_responses s)(a \<mapsto> r)\<rparr>)"

inductive plugin_run ::
  "'h sourcemod \<Rightarrow> ('h \<Rightarrow> (HandleType \<times> nat option) multiset) \<Rightarrow> io_env \<Rightarrow> 'h natives \<Rightarrow> 'h natives \<Rightarrow> bool"
  for sm owned io where
  no_step: "plugin_run sm owned io s s"
| more_steps: "plugin_run sm owned io s s' \<Longrightarrow> plugin_step sm owned io s' s'' \<Longrightarrow> plugin_run sm owned io s s''"

lemma plugin_step_account:
  assumes "handle_laws sm owned" "plugin_step sm owned io s s'" "accounted owned s"
  shows "accounted owned s'"
  using assms(2,3)
proof cases
  case (json_call name f params)
  show ?thesis
  proof (cases "name = ''JSONObjectKeys.ReadKey''")
    case True
    then have "f = ReadObjectKey" using json_call(2) by (simp add: json_natives_def)
    then show ?thesis using ReadObjectKey_account [OF assms(1,3)] json_call True by simp
  next
    case False
    then show ?thesis using native_account [OF assms(1) json_call(2)] json_call(1,3) assms(3) by (simp add: keeps_account_def)
  qed
next
  case (http_call name f params)
  then show ?thesis using http_native_account [OF assms(1)] assms(3) by blast
next
  case (delete hndl)
  then show ?thesis using FreeHandle_account [OF assms(1,3)] by simp
next
  case (response a x h r)
  obtain y e where x: "x = (y, e)" by force
  show ?thesis using handle_lawsD(2) [OF assms(1) response(2) [unfolded x]] response(1) assms(3) by (simp add: accounted_def)
qed

lemma plugin_run_account:
  assumes "handle_laws sm owned" "plugin_run sm owned io s s'" "accounted owned s"
  shows "accounted owned s'"
  using assms(2,3) by induction (auto intro: plugin_step_account [OF assms(1)])

definition loaded :: "('h \<Rightarrow> (HandleType \<times> nat option) multiset) \<Rightarrow> 'h natives \<Rightarrow> bool" where
  "loaded owned s \<longleftrightarrow> owned (n_sm s) = {#} \<and> (\<exists>m env. n_world s = initial_world m env)"

lemma loaded_account: "loaded owned s \<Longrightarrow> accounted owned s"
  using initial_world_inv by (auto simp: loaded_def accounted_def json_refs_def)

section \<open>A simple host\<close>

text \<open>A handle is the position of its slot; strings of the plugin are kept by address.\<close>

record host =
  ho_slots :: "(HandleType \<times> nat option) option list"
  ho_memory :: "int \<Rightarrow> byte list"
  ho_error :: "byte list option"

definition host_owned :: "host \<Rightarrow> (HandleType \<times> nat option) multiset" where
  "host_owned h = mset (map the (filter (\<lambda>x. x \<noteq> None) (ho_slots h)))"

definition host_slot :: "nat \<Rightarrow> host \<Rightarrow> (HandleType \<times> nat option) option" where
  "host_slot x h = (if 0 < x \<and> x \<le> length (ho_slots h) then ho_slots h ! (x - 1) else None)"

definition host_sm :: "host sourcemod" where
  "host_sm =
     \<lparr>sm_ReadHandle = (\<lambda>t x h. case host_slot x h of None \<Rightarrow> (3, None) | Some (t', y) \<Rightarrow> if t' = t then (0, y) else (1, None)),
      sm_CreateHandleEx = (\<lambda>t y h. ((length (ho_slots h) + 1, 0), h\<lparr>ho_slots := ho_slots h @ [Some (t, y)]\<rparr>)),
      sm_FreeHandle = (\<lambda>x h. case host_slot x h of None \<Rightarrow> (None, h)
         | Some object \<Rightarrow> (Some object, h\<lparr>ho_slots := (ho_slots h)[x - 1 := None]\<rparr>)),
      sm_LocalToString = (\<lambda>a h. ho_memory h a),
      sm_StringToLocalUTF8 = (\<lambda>a n str h. h\<lparr>ho_memory := (ho_memory h)(a := take (nat n - 1) str)\<rparr>),
      sm_ThrowNativeError = (\<lambda>msg h. h\<lparr>ho_error := Some msg\<rparr>),
      sm_FormatString = (\<lambda>n ps i h. (Some (take (n - 1) (ho_memory h (ps i))), h)),
      sm_CreateForward = (\<lambda>c h. (\<lparr>fe_forward = Some 1, fe_added = True\<rparr>, h)),
      sm_LogError = (\<lambda>msg h. h), sm_BuildPath = (\<lambda>p. p),
      sm_ctof = word_of_int, sm_ftoc = sint\<rparr>"

definition host_io :: io_env where
  "host_io =
     \<lparr>io_point = 46, io_reason = (\<lambda>_. []), io_can_write = (\<lambda>_. True), io_fwrite = (\<lambda>b f. (1, f @ b)), io_fclose = (\<lambda>_. 0),
      io_header_order = (\<lambda>_. []), io_slist = mem_ok, io_easy_init = True, io_escape = Some\<rparr>"

text \<open>A plugin whose memory holds the string \<^verbatim>\<open>a\<close>, just loaded.\<close>

definition host_start :: "host natives" where
  "host_start =
     \<lparr>n_sm = \<lparr>ho_slots = [], ho_memory = (\<lambda>_. cstr ''a''), ho_error = None\<rparr>, n_world = initial_world mem_ok plain_env,
      n_keys = Map.empty, n_clients = Map.empty, n_requests = Map.empty, n_responses = Map.empty, n_fresh = 1,
      n_files = Map.empty, n_queue = []\<rparr>"

lemma slots_update:
  "i < length xs \<Longrightarrow> xs ! i = Some y \<Longrightarrow>
     mset (map the (filter (\<lambda>x. x \<noteq> None) xs)) = add_mset y (mset (map the (filter (\<lambda>x. x \<noteq> None) (xs[i := None]))))"
proof (induction xs arbitrary: i)
  case (Cons x xs)
  then show ?case by (cases i) auto
qed simp

lemma host_free:
  assumes "host_slot x h = Some object"
  shows "host_owned h = add_mset object (host_owned (h\<lparr>ho_slots := (ho_slots h)[x - 1 := None]\<rparr>))"
  unfolding host_owned_def using assms slots_update [of "x - 1" "ho_slots h" object] by (auto simp: host_slot_def split: if_splits)

lemma host_read: "host_slot x h = Some y \<Longrightarrow> y \<in># host_owned h"
proof -
  assume "host_slot x h = Some y"
  then have "Some y \<in> set (ho_slots h)" by (auto simp: host_slot_def in_set_conv_nth split: if_splits intro: exI [of _ "x - 1"])
  then show ?thesis by (force simp: host_owned_def)
qed

lemma host_laws: "handle_laws host_sm host_owned"
  unfolding handle_laws_def
proof (intro conjI allI impI)
  fix t x h y
  assume "sm_ReadHandle host_sm t x h = (0, y)"
  then have "host_slot x h = Some (t, y)" by (auto simp: host_sm_def split: option.splits if_splits)
  then show "(t, y) \<in># host_owned h" by (rule host_read)
next
  fix x h d h'
  assume "sm_FreeHandle host_sm x h = (d, h')"
  then have "d = host_slot x h \<and> h' = (case d of None \<Rightarrow> h | Some _ \<Rightarrow> h\<lparr>ho_slots := (ho_slots h)[x - 1 := None]\<rparr>)"
    by (auto simp: host_sm_def split: option.splits)
  then show "host_owned h = (case d of None \<Rightarrow> host_owned h' | Some object \<Rightarrow> add_mset object (host_owned h'))"
    using host_free [of x h] by (auto split: option.split)
qed (auto simp: host_sm_def host_owned_def BAD_HANDLE_def)


section \<open>What the natives promise\<close>

definition one_array :: "host natives" where
  "one_array = snd (CreateArray host_sm host_io (\<lambda>_. 0) host_start)"

lemma host_start_ok: "loaded host_owned host_start" "roomy host_sm host_start"
proof -
  show "loaded host_owned host_start" by (auto simp: loaded_def host_start_def host_owned_def)
  have dom: "dom (w_heap (n_world host_start)) = {1, 2, 3}"
    by (auto simp: host_start_def initial_world_def true_ptr_def false_ptr_def null_ptr_def split: if_splits)
  have size: "json_object_size (n_world host_start) (Some q) = 0" for q
    by (simp add: json_object_size_def object_table_def data_at_def host_start_def initial_world_def)
  have stat: "q \<in> statics" if "w_heap (n_world host_start) q = Some c" for q c
    using that by (auto simp: host_start_def initial_world_def statics_def split: if_splits)
  show "roomy host_sm host_start" unfolding roomy_def dom size
    using stat by (auto simp: host_sm_def) (auto simp: host_start_def initial_world_def)
qed

lemma one_array_run: "plugin_run host_sm host_owned host_io host_start one_array"
  unfolding one_array_def
  by (rule more_steps [OF no_step json_call [where name = "''JSONArray.JSONArray''" and f = CreateArray, OF _ host_start_ok(2)]])
    (simp_all add: json_natives_def)

definition empty_array :: world where
  "empty_array = set_cell 4 \<lparr>j_refcount = 1, j_data = JArray \<lparr>a_size = 8, a_entries = 0, a_table = replicate 8 0\<rparr>\<rparr>
     ((initial_world mem_ok plain_env)\<lparr>w_brk := 5\<rparr>)"

lemma json_array_start: "json_array (initial_world mem_ok plain_env) = (Some 4, empty_array)"
  by (simp add: json_array_def json_init_def w_malloc_def initial_world_def SIZEOF_JSON_ARRAY_def SIZEOF_POINTER_def Let_def
      empty_array_def set_cell_def)

lemma one_array_state: "ho_slots (n_sm one_array) = [Some (htJSON, Some 4)]" "n_world one_array = empty_array"
  using json_array_start by (simp_all add: one_array_def CreateArray_def new_json_handle_def on_world_def
      host_start_def host_sm_def BAD_HANDLE_def Let_def)



text \<open>
  C17: nothing leaks.  When a plugin has deleted all its handles, and did not build a value that contains itself, the extension
  holds no JSON value beyond the three constants.
\<close>

theorem deleted_handles_free_everything:
  assumes "handle_laws sm owned" "loaded owned s0" "plugin_run sm owned io s0 s" "owned (n_sm s) = {#}"
    and "\<forall>p c q. w_heap (n_world s) p = Some c \<longrightarrow> q \<in># cell_refs (j_data c) \<longrightarrow> (rank q :: nat) < rank p"
  shows "dom (w_heap (n_world s)) = statics"
proof -
  have "accounted owned s" by (rule plugin_run_account [OF assms(1,3) loaded_account [OF assms(2)]])
  then have "rc_inv {} {#} (n_world s)" using assms(4) by (simp add: accounted_def json_refs_def)
  then show ?thesis by (rule no_leak [where rank = rank]) (use assms(5) in blast)
qed

theorem deleted_handles_free_everything_witness:
  "dom (w_heap (n_world (FreeHandle_call host_sm 1 one_array))) = statics"
proof (rule deleted_handles_free_everything [OF host_laws host_start_ok(1)])
  show "plugin_run host_sm host_owned host_io host_start (FreeHandle_call host_sm 1 one_array)"
    by (rule more_steps [OF one_array_run delete])
  have d: "FreeHandle_call host_sm 1 one_array =
      one_array\<lparr>n_sm := (n_sm one_array)\<lparr>ho_slots := [None]\<rparr>, n_world := json_decref (Some 4) empty_array\<rparr>"
    by (simp add: FreeHandle_call_def host_sm_def host_slot_def one_array_state)
  then show "host_owned (n_sm (FreeHandle_call host_sm 1 one_array)) = {#}" by (simp add: host_owned_def)
  have "cell_refs (j_data c) = {#}" if cell: "w_heap (n_world (FreeHandle_call host_sm 1 one_array)) p = Some c" for p c
  proof -
    have "shrinks empty_array (json_decref (Some 4) empty_array)" by simp
    then obtain c' where c': "w_heap empty_array p = Some c'" "j_data c' = j_data c" using cell d unfolding shrinks_def by fastforce
    have "cell_refs (j_data c') = {#}" using c'(1) by (auto simp: empty_array_def initial_world_def set_cell_def split: if_splits)
    then show ?thesis using c'(2) by simp
  qed
  then show "\<forall>p c q. w_heap (n_world (FreeHandle_call host_sm 1 one_array)) p = Some c \<longrightarrow> q \<in># cell_refs (j_data c) \<longrightarrow> (\<lambda>x. 0) q < (\<lambda>x. 0 :: nat) p"
    by fastforce
qed

end
