(* ===== verification/Json_Natives_Correct.thy ===== *)
theory Json_Natives_Correct
  imports Plugin_Runs
begin

text \<open>
  What the JSON natives compute.  The storing natives are followed through the handle lookup, the constructor and the
  library's \<^verbatim>\<open>json_object_set_new\<close> and \<^verbatim>\<open>json_array_set_new\<close>, the reading natives through the lookup back: what a plugin stores it reads
  again, the getters answer by the type of the member, and 64-bit integers of nineteen digits and a sign lose a digit.
\<close>

section \<open>What is stored is found\<close>

lemma shrinks_seed: "shrinks w w' \<Longrightarrow> w_seed w' = w_seed w"
  by (simp add: shrinks_def)

lemma object_set_members:
  assumes inv: "rc_inv {} (add_mset v E) w" and p: "p \<in># E" and size: "json_object_size w (Some p) < 2 ^ 31"
    and st: "json_object_set_new (Some p) (Some k) (Some v) w = (0, w')"
  obtains h al h' where "object_table w (Some p) = Some h" "ht_rel (w_seed w) h al" "p \<noteq> v"
    "object_table w' (Some p) = Some h'" "ht_rel (w_seed w') h' (AList.update k v al)" "rc_inv {} E w'" "loses p w w'"
proof -
  have st': "json_object_set_new_nocheck (Some p) (Some k) (Some v) w = (0, w')"
    using st by (auto simp: json_object_set_new_def split: if_splits)
  have inv': "rc_inv {} E w'" using json_object_set_new_nocheck_inv [OF inv p size, of "Some k"] st' by simp
  obtain h where h: "object_table w (Some p) = Some h" "p \<noteq> v"
    using st' by (auto simp: json_object_set_new_nocheck_def split: option.splits if_splits prod.splits)
  obtain c al where c: "w_heap w p = Some c" and al: "ht_rel (w_seed w) h al" using object_tableD [OF inv h(1)] by blast
  have len: "length al < 2 ^ 31" using size h ht_rel_size [OF al] by (auto simp: json_object_size_def)
  obtain r h' m w1 where s: "hashtable_set decref_ptr (w_seed w) k v h (w_mem w) w = (r, h', m, w1)" by (metis prod_cases4)
  have w': "r = 0" "w' = set_data p (JObject h') (w1\<lparr>w_mem := m\<rparr>)"
    using st' h s by (auto simp: json_object_set_new_nocheck_def Let_def split: if_splits)
  have rel: "ht_rel (w_seed w) h' (AList.update k v al)" by (rule hashtable_set_rel(1) [OF al len s w'(1)])
  have seed: "w_seed w' = w_seed w" using w'(2) shrinks_seed [OF hashtable_set_shrinks [OF s]] by simp
  have "p \<in> dom (w_heap w')" by (rule value_live [OF inv' p])
  then have tab: "object_table w' (Some p) = Some h'"
    using w'(2) by (auto simp: object_table_def data_at_def set_data_def split: option.splits)
  show thesis using that [OF h(1) al h(2) tab _ inv' json_object_set_loses [OF st']] rel seed by simp
qed

lemma object_set_get:
  assumes inv: "rc_inv {} (add_mset v E) w" and p: "p \<in># E" and size: "json_object_size w (Some p) < 2 ^ 31"
    and st: "json_object_set_new (Some p) (Some k) (Some v) w = (0, w')"
  shows "json_object_get w' (Some p) (Some k) = Some v \<and> data_at w' (Some v) = data_at w (Some v)"
proof -
  obtain al h' where h': "p \<noteq> v" "object_table w' (Some p) = Some h'" "ht_rel (w_seed w') h' (AList.update k v al)"
    "rc_inv {} E w'" "loses p w w'"
    using object_set_members [OF assms] by metis
  have get: "json_object_get w' (Some p) (Some k) = Some v"
    using h'(2) hashtable_get_map_of [OF h'(3), of k] by (simp add: json_object_get_def update_conv)
  obtain c' where "w_heap w' v = Some c'" using member_live [OF h'(4) get] by auto
  then show ?thesis using get h'(1,5) by (fastforce simp: loses_def data_at_def)
qed

lemma array_set_get:
  assumes inv: "rc_inv {} (add_mset v E) w" and p: "p \<in># E" and st: "json_array_set_new (Some p) i (Some v) w = (0, w')"
  shows "json_array_get w' (Some p) i = Some v \<and> data_at w' (Some v) = data_at w (Some v)"
proof -
  have inv': "rc_inv {} E w'" using json_array_set_new_inv [OF inv p, of i] st by simp
  obtain a where a: "array_at w (Some p) = Some a" "p \<noteq> v" "i < a_entries a"
    using st by (auto simp: json_array_set_new_def split: option.splits if_splits prod.splits)
  obtain c where c: "w_heap w p = Some c" "a_entries a \<le> a_size a" "length (a_table a) = a_size a" using array_atD [OF inv a(1)] by blast
  let ?a = "a\<lparr>a_table := (a_table a)[i := v]\<rparr>"
  have w': "w' = set_data p (JArray ?a) (decref_ptr (a_table a ! i) w)"
    using st a by (auto simp: json_array_set_new_def Let_def split: if_splits)
  have l: "loses p w w'" using w' by (auto intro: loses_steps)
  have "p \<in> dom (w_heap w')" by (rule value_live [OF inv' p])
  then have tab: "array_at w' (Some p) = Some ?a"
    using w' by (auto simp: array_at_def data_at_def set_data_def split: option.splits)
  have get: "json_array_get w' (Some p) i = Some v" using tab a(3) c by (simp add: json_array_get_def)
  obtain c' where "w_heap w' v = Some c'" using element_live [OF inv' get] by auto
  then have "data_at w' (Some v) = data_at w (Some v)" using l a(2) by (fastforce simp: loses_def data_at_def)
  then show ?thesis using get by simp
qed

lemma array_append_get:
  assumes inv: "rc_inv {} (add_mset v E) w" and p: "p \<in># E" and st: "json_array_append_new (Some p) (Some v) w = (0, w')"
  shows "json_array_get w' (Some p) (json_array_size w (Some p)) = Some v \<and> data_at w' (Some v) = data_at w (Some v)"
proof -
  have inv': "rc_inv {} E w'" using json_array_append_new_inv [OF inv p] st by simp
  obtain a where a: "array_at w (Some p) = Some a" "p \<noteq> v"
    using st by (auto simp: json_array_append_new_def split: option.splits if_splits prod.splits)
  obtain c where c: "w_heap w p = Some c" "a_entries a \<le> a_size a" "length (a_table a) = a_size a" using array_atD [OF inv a(1)] by blast
  obtain t a1 w1 where g: "json_array_grow a 1 True w = (t, a1, w1)" by (metis prod_cases3)
  let ?a = "a1\<lparr>a_table := (a_table a1)[a_entries a1 := v], a_entries := a_entries a1 + 1\<rparr>"
  have w': "t \<noteq> None" "w' = set_data p (JArray ?a) w1" using st a g by (auto simp: json_array_append_new_def split: option.splits)
  then have a1: "a_entries a1 = a_entries a" "a_entries a < length (a_table a1)" using json_array_grow_ok [of a 1 w _ a1 w1] g c by auto
  have "p \<in> dom (w_heap w')" by (rule value_live [OF inv' p])
  then have tab: "array_at w' (Some p) = Some ?a"
    using w'(2) by (auto simp: array_at_def data_at_def set_data_def split: option.splits)
  have get: "json_array_get w' (Some p) (json_array_size w (Some p)) = Some v"
    using tab a1 a(1) by (simp add: json_array_get_def json_array_size_def)
  obtain c' where "w_heap w' v = Some c'" using element_live [OF inv' get] by auto
  then have "data_at w' (Some v) = data_at w (Some v)"
    using json_array_append_loses [OF st] a(2) by (fastforce simp: loses_def data_at_def)
  then show ?thesis using get by simp
qed

text \<open>A native that puts a new value with the data \<^term>\<open>d\<close>.\<close>

definition gives_data :: "('h natives \<Rightarrow> ptr option \<times> 'h natives) \<Rightarrow> json_data \<Rightarrow> 'h natives \<Rightarrow> bool" where
  "gives_data create d s \<longleftrightarrow> (\<forall>v s1. create s = (Some v, s1) \<longrightarrow> data_at (n_world s1) (Some v) = Some d)"

lemma with_json_read:
  assumes "with_json sm param f s = (r, s')" "r \<noteq> 0"
  obtains p where "sm_ReadHandle sm htJSON (to_handle param) (n_sm s) = (0, Some p)" "f p s = (r, s')"
  using assms by (auto simp: with_json_def GetJSONFromHandle_def Let_def simp del: cstr_Cons split: prod.splits option.splits if_splits)

lemma with_json_eq:
  "sm_ReadHandle sm htJSON (to_handle param) (n_sm s) = (0, Some p) \<Longrightarrow> with_json sm param f s = f p s"
  by (simp add: with_json_def GetJSONFromHandle_def)

lemma gives_valueD:
  assumes "gives_value owned create" "accounted owned s" "create s = (v, s1)"
  shows "n_sm s1 = n_sm s" "rc_inv {} (plus_result v (json_refs (owned (n_sm s)))) (n_world s1)"
    "keeps (json_refs (owned (n_sm s))) (n_world s) (n_world s1)"
  using assms unfolding gives_value_def by blast+

lemma succeeded_on_world:
  assumes "succeeded (on_world f s) = (1, s')"
  obtains w' where "f (n_world s) = (0, w')" "s' = s\<lparr>n_world := w'\<rparr>"
proof -
  obtain r w' where f: "f (n_world s) = (r, w')" by (metis surj_pair)
  then have "r = 0" "s' = s\<lparr>n_world := w'\<rparr>"
    using assms by (simp_all add: succeeded_def on_world_def of_bool_cell_def split: if_splits)
  then show thesis using that f by simp
qed

lemma set_member_stores:
  assumes laws: "handle_laws sm owned" and s: "accounted owned s" "roomy sm s"
    and create: "gives_value owned create" "gives_data create d s" and st: "set_member sm params create s = (1, s')"
  obtains p v where "sm_ReadHandle sm htJSON (to_handle (params 1)) (n_sm s') = (0, Some p)" "n_sm s' = n_sm s"
    "json_object_get (n_world s') (Some p) (Some (key_param sm params 2 s')) = Some v" "data_at (n_world s') (Some v) = Some d"
proof -
  let ?E = "json_refs (owned (n_sm s))"
  obtain x s1 where c: "create s = (x, s1)" by (metis surj_pair)
  obtain p where p: "sm_ReadHandle sm htJSON (to_handle (params 1)) (n_sm s) = (0, Some p)"
    "succeeded (on_world (json_object_set_new (Some p) (Some (key_param sm params 2 s)) x) s1) = (1, s')"
    using with_json_read [OF st [unfolded set_member_def]] c by (auto simp: Let_def)
  obtain w' where w': "json_object_set_new (Some p) (Some (key_param sm params 2 s)) x (n_world s1) = (0, w')" "s' = s1\<lparr>n_world := w'\<rparr>"
    by (rule succeeded_on_world [OF p(2)])
  then obtain v where x: "x = Some v" by (cases x) (auto simp: json_object_set_new_def json_object_set_new_nocheck_def split: if_splits)
  have pE: "p \<in># ?E" using json_refs_in handle_lawsD(1) [OF laws p(1)] by blast
  have g: "n_sm s1 = n_sm s" "rc_inv {} (add_mset v ?E) (n_world s1)" "keeps ?E (n_world s) (n_world s1)"
    using gives_valueD [OF create(1) s(1) c [unfolded x]] by auto
  have "json_object_size (n_world s1) (Some p) < 2 ^ 31"
    using object_size_data [of "n_world s1" p "n_world s"] g(3) s(2) pE by (simp add: keeps_def roomy_def)
  from object_set_get [OF g(2) pE this w'(1) [unfolded x]]
  have "json_object_get w' (Some p) (Some (key_param sm params 2 s)) = Some v" "data_at w' (Some v) = Some d"
    using create(2) c x by (auto simp: gives_data_def)
  then show thesis using that [of p v] p(1) w'(2) g(1) by (simp add: key_param_def)
qed

lemma set_element_stores:
  assumes laws: "handle_laws sm owned" and s: "accounted owned s"
    and create: "gives_value owned create" "gives_data create d s" and st: "set_element sm params create s = (1, s')"
  obtains p v where "sm_ReadHandle sm htJSON (to_handle (params 1)) (n_sm s') = (0, Some p)" "n_sm s' = n_sm s"
    "json_array_get (n_world s') (Some p) (to_size (params 2)) = Some v" "data_at (n_world s') (Some v) = Some d"
proof -
  obtain x s1 where c: "create s = (x, s1)" by (metis surj_pair)
  obtain p where p: "sm_ReadHandle sm htJSON (to_handle (params 1)) (n_sm s) = (0, Some p)"
    "succeeded (on_world (json_array_set_new (Some p) (to_size (params 2)) x) s1) = (1, s')"
    using with_json_read [OF st [unfolded set_element_def]] c by auto
  obtain w' where w': "json_array_set_new (Some p) (to_size (params 2)) x (n_world s1) = (0, w')" "s' = s1\<lparr>n_world := w'\<rparr>"
    by (rule succeeded_on_world [OF p(2)])
  then obtain v where x: "x = Some v" by (cases x) (auto simp: json_array_set_new_def)
  note g = gives_valueD [OF create(1) s c [unfolded x], unfolded plus_result_simps]
  have pE: "p \<in># json_refs (owned (n_sm s))" using json_refs_in handle_lawsD(1) [OF laws p(1)] by blast
  from array_set_get [OF g(2) pE w'(1) [unfolded x]]
  have "json_array_get w' (Some p) (to_size (params 2)) = Some v" "data_at w' (Some v) = Some d"
    using create(2) c x by (auto simp: gives_data_def)
  then show thesis using that [of p v] p(1) w'(2) g(1) by simp
qed

lemma push_element_stores:
  assumes laws: "handle_laws sm owned" and s: "accounted owned s"
    and create: "gives_value owned create" "gives_data create d s" and st: "push_element sm params create s = (1, s')"
  obtains p v where "sm_ReadHandle sm htJSON (to_handle (params 1)) (n_sm s') = (0, Some p)" "n_sm s' = n_sm s"
    "json_array_get (n_world s') (Some p) (json_array_size (n_world s) (Some p)) = Some v" "data_at (n_world s') (Some v) = Some d"
proof -
  obtain x s1 where c: "create s = (x, s1)" by (metis surj_pair)
  obtain p where p: "sm_ReadHandle sm htJSON (to_handle (params 1)) (n_sm s) = (0, Some p)"
    "succeeded (on_world (json_array_append_new (Some p) x) s1) = (1, s')"
    using with_json_read [OF st [unfolded push_element_def]] c by auto
  obtain w' where w': "json_array_append_new (Some p) x (n_world s1) = (0, w')" "s' = s1\<lparr>n_world := w'\<rparr>"
    by (rule succeeded_on_world [OF p(2)])
  then obtain v where x: "x = Some v" by (cases x) (auto simp: json_array_append_new_def)
  note g = gives_valueD [OF create(1) s c [unfolded x], unfolded plus_result_simps]
  have pE: "p \<in># json_refs (owned (n_sm s))" using json_refs_in handle_lawsD(1) [OF laws p(1)] by blast
  have size: "json_array_size (n_world s1) (Some p) = json_array_size (n_world s) (Some p)"
    using g(3) pE by (simp add: keeps_def json_array_size_def array_at_def)
  from array_append_get [OF g(2) pE w'(1) [unfolded x]]
  have "json_array_get w' (Some p) (json_array_size (n_world s) (Some p)) = Some v" "data_at w' (Some v) = Some d"
    using create(2) c x size by (auto simp: gives_data_def)
  then show thesis using that [of p v] p(1) w'(2) g(1) by simp
qed

section \<open>Typed values\<close>

lemma creates_data: "creates d (Some v) w w' \<Longrightarrow> data_at w' (Some v) = Some d"
  by (simp add: creates_def data_at_def)

lemma on_world_data:
  assumes "\<And>v w'. f s (n_world s) = (Some v, w') \<Longrightarrow> creates d (Some v) (n_world s) w'"
  shows "gives_data (\<lambda>u. on_world (f u) u) d s"
  unfolding gives_data_def on_world_def using assms by (auto dest: creates_data split: prod.splits)

lemma accounted_statics:
  assumes "accounted owned s"
  shows "data_at (n_world s) (Some true_ptr) = Some JTrue" "data_at (n_world s) (Some false_ptr) = Some JFalse"
    "data_at (n_world s) (Some null_ptr) = Some JNull"
  using rc_invD(4) [OF accountedD [OF assms]] by (simp_all add: statics_ok_def data_at_def)

lemma new_values_data:
  assumes "accounted owned s"
  shows "gives_data (new_int params i) (JInteger (params i)) s"
    "gives_data (new_bool params i) (if params i \<noteq> 0 then JTrue else JFalse) s"
    "gives_data new_null JNull s"
    "gives_data (new_string sm params i) (JString (key_param sm params i s)) s"
    "gives_data (new_int64 sm params i) (JInteger (fst (strtoll (key_param sm params i s)))) s"
    "gives_data (new_float sm params i) (JReal (double_of_float (sm_ctof sm (params i)))) s"
proof -
  show "gives_data (new_bool params i) (if params i \<noteq> 0 then JTrue else JFalse) s" "gives_data new_null JNull s"
    using accounted_statics [OF assms] by (auto simp: gives_data_def new_bool_def new_null_def json_boolean_def json_true_def json_false_def json_null_def)
  show "gives_data (new_int params i) (JInteger (params i)) s"
    "gives_data (new_string sm params i) (JString (key_param sm params i s)) s"
    "gives_data (new_int64 sm params i) (JInteger (fst (strtoll (key_param sm params i s)))) s"
    "gives_data (new_float sm params i) (JReal (double_of_float (sm_ctof sm (params i)))) s"
    unfolding new_int_def [abs_def] new_string_def [abs_def] new_int64_def [abs_def] new_float_def [abs_def]
    by (auto intro!: on_world_data dest: json_integer_creates json_string_creates json_real_creates)
qed

lemma member_found:
  assumes "sm_ReadHandle sm htJSON (to_handle (params 1)) (n_sm s) = (0, Some p)"
    "json_object_get (n_world s) (Some p) (Some (key_param sm params 2 s)) = Some v"
  shows "with_member sm params missing f s = f v s"
  using assms by (simp add: with_member_def with_json_eq Let_def)

lemma element_found:
  assumes "sm_ReadHandle sm htJSON (to_handle (params 1)) (n_sm s) = (0, Some p)"
    "json_array_get (n_world s) (Some p) (to_size (params 2)) = Some v"
  shows "with_element sm params f s = f v s"
  using assms by (simp add: with_element_def with_json_eq Let_def)

text \<open>What a typed getter reads from a value.\<close>

lemma value_readings:
  assumes "data_at w (Some v) = Some d"
  shows "json_integer_value w (Some v) = (case d of JInteger i \<Rightarrow> i | _ \<Rightarrow> 0)"
    "json_is_true w (Some v) = (d = JTrue)" "json_is_null w (Some v) = (d = JNull)"
    "json_string_value w (Some v) = (case d of JString t \<Rightarrow> Some t | _ \<Rightarrow> None)"
    "json_number_value w (Some v) = (case d of JInteger i \<Rightarrow> double_of_int i | JReal x \<Rightarrow> x | _ \<Rightarrow> 0)"
  using assms
  by (cases d; simp add: json_integer_value_def json_is_true_def json_is_null_def json_string_value_def json_number_value_def
      json_is_integer_def json_is_real_def json_real_value_def json_typeof_def)+

lemma to_cell_id: "-(2 ^ 31) \<le> x \<Longrightarrow> x < 2 ^ 31 \<Longrightarrow> to_cell x = x"
  by (simp add: to_cell_def signed_of_int signed_take_bit_int_eq_self)

section \<open>Stores do not fail while memory lasts\<close>

lemma object_store_ok:
  assumes inv: "rc_inv {} E w" and m: "w_mem w = mem_ok" and h: "object_table w (Some p) = Some h" and size: "json_object_size w (Some p) < 2 ^ 31"
    and k: "utf8_check_string k" "length k < 2 ^ 62" and v: "v \<noteq> p"
  shows "\<exists>w'. json_object_set_new (Some p) (Some k) (Some v) w = (0, w')"
proof -
  obtain c al where al: "ht_rel (w_seed w) h al" using object_tableD [OF inv h] by blast
  have "length al < 2 ^ 31" using size h ht_rel_size [OF al] by (auto simp: json_object_size_def)
  then obtain h' w' where "hashtable_set decref_ptr (w_seed w) k v h mem_ok w = (0, h', mem_ok, w')"
    using hashtable_set_mem_ok [OF al _ k(2), of decref_ptr v w] by blast
  then show ?thesis using h m k(1) v by (simp add: json_object_set_new_def json_object_set_new_nocheck_def Let_def)
qed

lemma SetInt_ok:
  assumes s: "accounted owned s" "roomy sm s" "w_mem (n_world s) = mem_ok" and p: "sm_ReadHandle sm htJSON (to_handle (params 1)) (n_sm s) = (0, Some p)"
    and h: "object_table (n_world s) (Some p) = Some h" and k: "utf8_check_string (key_param sm params 2 s)"
  shows "\<exists>s'. SetObjectIntValue sm io params s = (1, s')"
proof -
  obtain r w1 where i: "json_integer (params 3) (n_world s) = (r, w1)" by (metis surj_pair)
  note mk = json_integer_makes [OF s(3) i]
  have inv: "rc_inv {} (json_refs (owned (n_sm s))) (n_world s)" by (rule accountedD [OF s(1)])
  obtain c where c: "w_heap (n_world s) p = Some c" using object_tableD [OF inv h] by blast
  then have lt: "p < w_brk (n_world s)" using rc_invD(3) [OF inv] by force
  have r: "r = Some (w_brk (n_world s))" "w_mem w1 = mem_ok" using mk by (auto simp: makes_def)
  have inv1: "rc_inv {} (plus_result r (json_refs (owned (n_sm s)))) w1" by (rule json_integer_inv [OF inv i])
  have d: "data_at w1 (Some p) = data_at (n_world s) (Some p)" using mk lt by (simp add: makes_def data_at_def)
  have h1: "object_table w1 (Some p) = Some h" "json_object_size w1 (Some p) < 2 ^ 31"
    using h d object_size_data [OF d] s(2) by (simp_all add: object_table_def roomy_def)
  have "length (key_param sm params 2 s) < 2 ^ 62" using key_length [OF s(2), of params 2] by simp
  from object_store_ok [OF inv1 r(2) h1 k this, of "w_brk (n_world s)"] lt r(1) obtain w' where
    "json_object_set_new (Some p) (Some (key_param sm params 2 s)) r w1 = (0, w')" by auto
  then show ?thesis using p i
    by (simp add: SetObjectIntValue_def set_member_def with_json_eq Let_def new_int_def on_world_def succeeded_def of_bool_cell_def)
qed

section \<open>A plugin with an object\<close>

definition one_object :: "host natives" where
  "one_object = snd (CreateObject host_sm host_io (\<lambda>_. 0) host_start)"

text \<open>Handle 1, the key \<^verbatim>\<open>a\<close> and the value 5.\<close>

definition five_params :: params where
  "five_params i = (if i = 1 then 1 else if i = 3 then 5 else 0)"

lemma one_object_state:
  shows "ho_slots (n_sm one_object) = [Some (htJSON, Some 4)]" "ho_memory (n_sm one_object) = (\<lambda>_. cstr ''a'')"
    "\<exists>h. makes (JObject h) (Some 4) (initial_world mem_ok plain_env) (n_world one_object) \<and> ht_rel (w_seed (n_world one_object)) h []"
    "n_files one_object = Map.empty"
proof -
  obtain r w' where o: "json_object (initial_world mem_ok plain_env) = (r, w')" by (metis surj_pair)
  have m: "w_mem (initial_world mem_ok plain_env) = mem_ok" by (simp add: initial_world_def)
  obtain h where mk: "makes (JObject h) r (initial_world mem_ok plain_env) w'" "ht_rel (w_seed w') h []" using json_object_makes [OF m o] by blast
  then have r: "r = Some 4" by (simp add: makes_def initial_world_def)
  have st: "ho_slots (n_sm one_object) = [Some (htJSON, r)]" "ho_memory (n_sm one_object) = (\<lambda>_. cstr ''a'')" "n_world one_object = w'" "n_files one_object = Map.empty"
    using o by (simp_all add: one_object_def CreateObject_def new_json_handle_def on_world_def host_start_def host_sm_def BAD_HANDLE_def Let_def)
  show "ho_slots (n_sm one_object) = [Some (htJSON, Some 4)]" "ho_memory (n_sm one_object) = (\<lambda>_. cstr ''a'')" "n_files one_object = Map.empty"
    using st r by simp_all
  show "\<exists>h. makes (JObject h) (Some 4) (initial_world mem_ok plain_env) (n_world one_object) \<and> ht_rel (w_seed (n_world one_object)) h []"
    using st mk r by auto
qed

lemma one_object_heap:
  obtains h where "w_heap (n_world one_object) 4 = Some \<lparr>j_refcount = 1, j_data = JObject h\<rparr>" "ht_rel (w_seed (n_world one_object)) h []"
    "w_mem (n_world one_object) = mem_ok" "w_brk (n_world one_object) = 5" "dom (w_heap (n_world one_object)) = {1, 2, 3, 4}"
    "\<And>q c. w_heap (n_world one_object) q = Some c \<Longrightarrow> q \<notin> statics \<Longrightarrow> c = \<lparr>j_refcount = 1, j_data = JObject h\<rparr>"
    "\<And>q. json_object_size (n_world one_object) (Some q) = 0"
proof -
  obtain h where mk: "makes (JObject h) (Some 4) (initial_world mem_ok plain_env) (n_world one_object)" and rel: "ht_rel (w_seed (n_world one_object)) h []"
    using one_object_state(3) by blast
  have hp: "w_heap (n_world one_object) = (w_heap (initial_world mem_ok plain_env))(4 \<mapsto> \<lparr>j_refcount = 1, j_data = JObject h\<rparr>)"
    using mk by (auto simp: makes_def initial_world_def)
  show thesis
  proof (rule that [of h])
    show "dom (w_heap (n_world one_object)) = {1, 2, 3, 4}" unfolding hp
      by (auto simp: initial_world_def true_ptr_def false_ptr_def null_ptr_def split: if_splits)
    show "c = \<lparr>j_refcount = 1, j_data = JObject h\<rparr>" if "w_heap (n_world one_object) q = Some c" "q \<notin> statics" for q c
      using that unfolding hp by (auto simp: initial_world_def statics_def split: if_splits)
    show "json_object_size (n_world one_object) (Some q) = 0" for q
      using ht_rel_size [OF rel] by (auto simp: json_object_size_def object_table_def data_at_def hp initial_world_def)
  qed (use mk rel hp in \<open>simp_all add: makes_def initial_world_def\<close>)
qed

lemma one_object_roomy: "roomy host_sm one_object"
proof -
  obtain h where H: "w_brk (n_world one_object) = 5" "dom (w_heap (n_world one_object)) = {1, 2, 3, 4}"
    "\<And>q c. w_heap (n_world one_object) q = Some c \<Longrightarrow> q \<notin> statics \<Longrightarrow> c = \<lparr>j_refcount = 1, j_data = JObject h\<rparr>"
    "\<And>q. json_object_size (n_world one_object) (Some q) = 0" using one_object_heap by metis
  show ?thesis unfolding roomy_def H(1,2,4)
  proof (intro conjI allI impI)
    fix q c assume c: "w_heap (n_world one_object) q = Some c" "q \<notin> statics"
    show "Suc (j_refcount c) < SIZE_MAX" using H(3) [OF c] by (simp add: SIZE_MAX_def)
  qed (simp_all add: host_sm_def one_object_state)
qed

lemma one_object_run: "plugin_run host_sm host_owned host_io host_start one_object"
  unfolding one_object_def
  by (rule more_steps [OF no_step json_call [where name = "''JSONObject.JSONObject''" and f = CreateObject, OF _ host_start_ok(2)]])
    (simp_all add: json_natives_def)

lemma one_object_accounted: "accounted host_owned one_object"
  by (rule plugin_run_account [OF host_laws one_object_run loaded_account [OF host_start_ok(1)]])

lemma one_object_read: "sm_ReadHandle host_sm htJSON (to_handle (five_params 1)) (n_sm one_object) = (0, Some 4)"
  by (simp add: host_sm_def host_slot_def five_params_def to_handle_def one_object_state)

lemma one_object_set: "\<exists>s'. SetObjectIntValue host_sm host_io five_params one_object = (1, s')"
proof -
  obtain h where h: "w_heap (n_world one_object) 4 = Some \<lparr>j_refcount = 1, j_data = JObject h\<rparr>" "w_mem (n_world one_object) = mem_ok"
    using one_object_heap by metis
  show ?thesis
  proof (rule SetInt_ok [where params = five_params, OF one_object_accounted one_object_roomy h(2) one_object_read])
    show "object_table (n_world one_object) (Some 4) = Some h" using h by (simp add: object_table_def data_at_def)
    show "utf8_check_string (key_param host_sm five_params 2 one_object)"
      by (rule check_string_ascii) (simp add: key_param_def host_sm_def one_object_state c_string_def)
  qed
qed

section \<open>Round trips through the typed natives\<close>

text \<open>
  The getters and setters of a container, given what its stores and lookups do.
\<close>

lemma typed_reads:
  assumes "data_at (n_world s) (Some v) = Some d"
  shows "d = JInteger i \<Longrightarrow> -(2 ^ 31) \<le> i \<Longrightarrow> i < 2 ^ 31 \<Longrightarrow> to_cell (json_integer_value (n_world s) (Some v)) = i"
    "d = (if b then JTrue else JFalse) \<Longrightarrow> json_is_true (n_world s) (Some v) = b"
    "d = JString t \<Longrightarrow> store_string sm params v s = (1, StringToLocalUTF8 sm (params 3) (params 4) t s)"
    "d = JInteger i \<Longrightarrow> store_int64 sm params v s = (1, StringToLocalUTF8 sm (params 3) (params 4) (int64_text i) s)"
    "d = JNull \<Longrightarrow> json_is_null (n_world s) (Some v)"
  using value_readings [OF assms] to_cell_id by (auto simp: store_string_def store_int64_def)



lemma to_size_nat: "n < 2 ^ 31 \<Longrightarrow> to_size (to_cell (int n)) = n"
  by (simp add: to_cell_id to_size_def)

text \<open>
  C11: what a plugin pushes or sets in an array it gets back.  A pushed value is found at the length the array had before,
  a set value at its index, with its type; so after \<^verbatim>\<open>PushInt\<close> or \<^verbatim>\<open>PushString\<close> the getter at the old length
  returns the value, and after \<^verbatim>\<open>SetInt\<close> or \<^verbatim>\<open>SetString\<close> the getter at the index does.
\<close>

theorem array_set_get_roundtrip:
  assumes "handle_laws sm owned" "accounted owned s" "get 1 = params 1" "\<forall>p. json_array_size (n_world s) (Some p) < 2 ^ 31"
  shows "(SetArrayIntValue sm io params s = (1, s') \<and> get 2 = params 2 \<and> -(2 ^ 31) \<le> params 3 \<and> params 3 < 2 ^ 31 \<longrightarrow>
      GetArrayIntValue sm io get s' = (params 3, s')) \<and>
    (SetArrayStringValue sm io params s = (1, s') \<and> get 2 = params 2 \<longrightarrow>
      GetArrayStringValue sm io get s' = (1, StringToLocalUTF8 sm (get 3) (get 4) (key_param sm params 3 s) s')) \<and>
    (PushArrayIntValue sm io params s = (1, s') \<and> GetArraySize sm io params s = (get 2, s) \<and> -(2 ^ 31) \<le> params 2 \<and> params 2 < 2 ^ 31 \<longrightarrow>
      GetArrayIntValue sm io get s' = (params 2, s')) \<and>
    (PushArrayStringValue sm io params s = (1, s') \<and> GetArraySize sm io params s = (get 2, s) \<longrightarrow>
      GetArrayStringValue sm io get s' = (1, StringToLocalUTF8 sm (get 3) (get 4) (key_param sm params 2 s) s'))"
proof -
  have set: "\<exists>v. data_at (n_world s') (Some v) = Some d \<and> (\<forall>f. with_element sm get f s' = f v s')"
    if st: "set_element sm params create s = (1, s')" "gives_value owned create" "gives_data create d s" "get 2 = params 2" for create d
  proof -
    obtain p v where "sm_ReadHandle sm htJSON (to_handle (params 1)) (n_sm s') = (0, Some p)"
      "json_array_get (n_world s') (Some p) (to_size (params 2)) = Some v" "data_at (n_world s') (Some v) = Some d"
      using set_element_stores [OF assms(1,2) st(2,3,1)] by metis
    then show ?thesis using element_found [of sm get s' p v] assms(3) st(4) by auto
  qed
  have push: "\<exists>v. data_at (n_world s') (Some v) = Some d \<and> (\<forall>f. with_element sm get f s' = f v s')"
    if st: "push_element sm params create s = (1, s')" "gives_value owned create" "gives_data create d s" "GetArraySize sm io params s = (get 2, s)"
    for create d
  proof -
    obtain p v where p: "sm_ReadHandle sm htJSON (to_handle (params 1)) (n_sm s') = (0, Some p)" "n_sm s' = n_sm s"
      "json_array_get (n_world s') (Some p) (json_array_size (n_world s) (Some p)) = Some v" "data_at (n_world s') (Some v) = Some d"
      using push_element_stores [OF assms(1,2) st(2,3,1)] by metis
    then have "get 2 = to_cell (int (json_array_size (n_world s) (Some p)))" using st(4) by (simp add: GetArraySize_def with_json_eq)
    then show ?thesis using p element_found [of sm get s' p v] assms(3,4) to_size_nat by auto
  qed
  note data = new_values_data [OF assms(2)]
  show ?thesis
  proof (intro conjI impI)
    assume a: "SetArrayIntValue sm io params s = (1, s') \<and> get 2 = params 2 \<and> -(2 ^ 31) \<le> params 3 \<and> params 3 < 2 ^ 31"
    then obtain v where "data_at (n_world s') (Some v) = Some (JInteger (params 3))" "\<And>f. with_element sm get f s' = f v s'"
      using set [OF _ new_values_give(3) data(1)] unfolding setter_defs by blast
    then show "GetArrayIntValue sm io get s' = (params 3, s')" using a by (simp add: getter_defs typed_reads(1))
  next
    assume "SetArrayStringValue sm io params s = (1, s') \<and> get 2 = params 2"
    then obtain v where "data_at (n_world s') (Some v) = Some (JString (key_param sm params 3 s))" "\<And>f. with_element sm get f s' = f v s'"
      using set [OF _ new_values_give(6) data(4)] unfolding setter_defs by blast
    then show "GetArrayStringValue sm io get s' = (1, StringToLocalUTF8 sm (get 3) (get 4) (key_param sm params 3 s) s')"
      by (simp add: getter_defs typed_reads(3))
  next
    assume a: "PushArrayIntValue sm io params s = (1, s') \<and> GetArraySize sm io params s = (get 2, s) \<and> -(2 ^ 31) \<le> params 2 \<and> params 2 < 2 ^ 31"
    then obtain v where "data_at (n_world s') (Some v) = Some (JInteger (params 2))" "\<And>f. with_element sm get f s' = f v s'"
      using push [OF _ new_values_give(3) data(1)] unfolding setter_defs by blast
    then show "GetArrayIntValue sm io get s' = (params 2, s')" using a by (simp add: getter_defs typed_reads(1))
  next
    assume "PushArrayStringValue sm io params s = (1, s') \<and> GetArraySize sm io params s = (get 2, s)"
    then obtain v where "data_at (n_world s') (Some v) = Some (JString (key_param sm params 2 s))" "\<And>f. with_element sm get f s' = f v s'"
      using push [OF _ new_values_give(6) data(4)] unfolding setter_defs by blast
    then show "GetArrayStringValue sm io get s' = (1, StringToLocalUTF8 sm (get 3) (get 4) (key_param sm params 2 s) s')"
      by (simp add: getter_defs typed_reads(3))
  qed
qed

text \<open>Handle 1 and the value 7.\<close>

definition seven_params :: params where
  "seven_params i = (if i = 1 then 1 else if i = 2 then 7 else 0)"

lemma one_array_push: "\<exists>s'. PushArrayIntValue host_sm host_io seven_params one_array = (1, s')"
  by (simp add: PushArrayIntValue_def push_element_def with_json_def GetJSONFromHandle_def new_int_def on_world_def json_integer_def w_malloc_def
      json_init_def json_array_append_new_def array_at_def data_at_def json_array_grow_def succeeded_def of_bool_cell_def one_array_state
      empty_array_def seven_params_def host_sm_def host_slot_def to_handle_def initial_world_def SIZEOF_JSON_INTEGER_def Let_def)

theorem array_set_get_roundtrip_witness:
  "\<exists>s'. PushArrayIntValue host_sm host_io seven_params one_array = (1, s') \<and>
     GetArrayIntValue host_sm host_io (seven_params(2 := 0)) s' = (7, s')"
proof -
  obtain s' where s': "PushArrayIntValue host_sm host_io seven_params one_array = (1, s')" using one_array_push by blast
  have size: "json_array_size (n_world one_array) (Some q) = 0" for q
    by (simp add: one_array_state empty_array_def json_array_size_def array_at_def data_at_def initial_world_def)
  have "GetArraySize host_sm host_io seven_params one_array = (0, one_array)"
    by (simp add: GetArraySize_def with_json_def GetJSONFromHandle_def seven_params_def host_sm_def host_slot_def to_handle_def one_array_state(1)
        size to_cell_def)
  moreover have "accounted host_owned one_array"
    by (rule plugin_run_account [OF host_laws one_array_run loaded_account [OF host_start_ok(1)]])
  moreover have "seven_params 2 = 7" by (simp add: seven_params_def)
  ultimately show ?thesis
    using array_set_get_roundtrip [OF host_laws, of one_array "seven_params(2 := 0)" seven_params host_io s'] s' size by simp
qed

section \<open>Getters on values of every type\<close>

text \<open>
  C14: the getters of an object respect the type of the member.  A member that is not an integer reads as the integer 0, one that
  is not \<^verbatim>\<open>true\<close> as false, one that is not a number as 0.0, and a string is written only if the member
  is a string; an integer outside the cells wraps around, and no getter changes the JSON values.
\<close>

theorem typed_getters_by_type:
  assumes "sm_ReadHandle sm htJSON (to_handle (params 1)) (n_sm s) = (0, Some p)"
    and "json_object_get (n_world s) (Some p) (Some (key_param sm params 2 s)) = Some v" "data_at (n_world s) (Some v) = Some d"
  shows "GetObjectIntValue sm io params s = (case d of JInteger i \<Rightarrow> to_cell i | _ \<Rightarrow> 0, s) \<and>
    GetObjectBoolValue sm io params s = (if d = JTrue then 1 else 0, s) \<and>
    IsObjectNullValue sm io params s = (if d = JNull then 1 else 0, s) \<and>
    GetObjectFloatValue sm io params s =
      (sm_ftoc sm (float_of_double (case d of JInteger i \<Rightarrow> double_of_int i | JReal x \<Rightarrow> x | _ \<Rightarrow> 0)), s) \<and>
    GetObjectStringValue sm io params s =
      (case d of JString t \<Rightarrow> (1, StringToLocalUTF8 sm (params 3) (params 4) t s) | _ \<Rightarrow> (0, s)) \<and>
    GetObjectInt64Value sm io params s =
      (1, StringToLocalUTF8 sm (params 3) (params 4) (int64_text (case d of JInteger i \<Rightarrow> i | _ \<Rightarrow> 0)) s) \<and>
    IsObjectKeyValid sm io params s = (1, s)"
proof -
  have found: "with_member sm params missing f s = f v s" for missing f by (rule member_found [OF assms(1,2)])
  have "to_cell 0 = 0" by (simp add: to_cell_def)
  then show ?thesis using value_readings [OF assms(3)]
    by (simp add: getter_defs found of_bool_cell_def store_string_def store_int64_def split: json_data.split)
qed

lemma one_object_five:
  obtains s' v where "SetObjectIntValue host_sm host_io five_params one_object = (1, s')"
    "sm_ReadHandle host_sm htJSON (to_handle (five_params 1)) (n_sm s') = (0, Some 4)"
    "json_object_get (n_world s') (Some 4) (Some (key_param host_sm five_params 2 s')) = Some v" "data_at (n_world s') (Some v) = Some (JInteger 5)"
proof -
  obtain s' where s': "SetObjectIntValue host_sm host_io five_params one_object = (1, s')" using one_object_set by blast
  have "gives_data (new_int five_params 3) (JInteger (five_params 3)) one_object" by (rule new_values_data(1) [OF one_object_accounted])
  then obtain p v where v: "sm_ReadHandle host_sm htJSON (to_handle (five_params 1)) (n_sm s') = (0, Some p)" "n_sm s' = n_sm one_object"
    "json_object_get (n_world s') (Some p) (Some (key_param host_sm five_params 2 s')) = Some v" "data_at (n_world s') (Some v) = Some (JInteger (five_params 3))"
    using set_member_stores [OF host_laws one_object_accounted one_object_roomy new_values_give(3) _ s' [unfolded SetObjectIntValue_def]] by metis
  moreover have "p = 4" using v(1,2) one_object_read by simp
  ultimately show thesis using that s' by (simp add: five_params_def)
qed

theorem typed_getters_by_type_witness:
  "\<exists>s'. SetObjectIntValue host_sm host_io five_params one_object = (1, s') \<and> GetObjectIntValue host_sm host_io five_params s' = (5, s') \<and>
     GetObjectBoolValue host_sm host_io five_params s' = (0, s') \<and> GetObjectStringValue host_sm host_io five_params s' = (0, s')"
proof -
  obtain s' v where s': "SetObjectIntValue host_sm host_io five_params one_object = (1, s')"
    "sm_ReadHandle host_sm htJSON (to_handle (five_params 1)) (n_sm s') = (0, Some 4)"
    "json_object_get (n_world s') (Some 4) (Some (key_param host_sm five_params 2 s')) = Some v" "data_at (n_world s') (Some v) = Some (JInteger 5)"
    by (rule one_object_five)
  show ?thesis using typed_getters_by_type [OF s'(2-4), of host_io] s'(1) by (simp add: to_cell_def)
qed

section \<open>64 bit integers as text\<close>

lemma fmt_u_length_ge: "10 ^ k \<le> n \<Longrightarrow> k < length (fmt_u n)"
proof -
  assume n: "10 ^ k \<le> n"
  have bound: "foldl (\<lambda>v d. 10 * v + d) a ds < (a + 1) * 10 ^ length ds" if "\<forall>d \<in> set ds. d < 10" for ds and a :: nat
    using that
  proof (induction ds arbitrary: a)
    case (Cons d ds)
    have "foldl (\<lambda>v d. 10 * v + d) (10 * a + d) ds < (10 * a + d + 1) * 10 ^ length ds" using Cons by simp
    also have "\<dots> \<le> (10 * (a + 1)) * 10 ^ length ds" using Cons.prems by (intro mult_right_mono) auto
    finally show ?case by (simp add: algebra_simps)
  qed simp
  have "n < 10 ^ length (nat_digits 10 n)"
    using bound [of "nat_digits 10 n" 0] nat_digits_value [of 10 n] nat_digits_less [of 10 _ n] by simp
  then have "10 ^ k < (10 :: nat) ^ length (nat_digits 10 n)" using n by linarith
  then show ?thesis by (simp add: fmt_u_def)
qed

lemma fmt_u_length_le: "n < 10 ^ k \<Longrightarrow> 0 < k \<Longrightarrow> length (fmt_u n) \<le> k"
  using nat_digits_length [of 10 n k] by (simp add: fmt_u_def)

lemma int64_text_cases:
  assumes "LLONG_MIN \<le> i" "i \<le> LLONG_MAX"
  shows "int64_text i = (if i \<le> -(10 ^ 18) then butlast (fmt_d i) else fmt_d i)"
proof (cases "i \<le> -(10 ^ 18)")
  case True
  have n: "10 ^ 18 \<le> nat (- i)" "nat (- i) < 10 ^ 19" using True assms by (simp_all add: LLONG_MIN_def le_nat_iff nat_less_iff)
  have "length (fmt_u (nat (- i))) = 19" using fmt_u_length_ge [OF n(1)] fmt_u_length_le [OF n(2)] by simp
  then have "length (fmt_d i) = 20" using True by (simp add: fmt_d_def)
  then show ?thesis using True by (simp add: int64_text_def butlast_conv_take)
next
  case False
  have "length (fmt_d i) \<le> 19"
  proof (cases "i < 0")
    case neg: True
    have "nat (- i) < 10 ^ 18" using False neg by (simp add: nat_less_iff)
    from fmt_u_length_le [OF this] show ?thesis using neg by (simp add: fmt_d_def)
  next
    case pos: False
    have "nat i < 10 ^ 19" using assms pos by (simp add: LLONG_MAX_def nat_less_iff)
    from fmt_u_length_le [OF this] show ?thesis using pos by (simp add: fmt_d_def)
  qed
  then show ?thesis using False by (simp add: int64_text_def)
qed

text \<open>
  C38: the limit of \<^verbatim>\<open>GetInt64\<close>.  The text of a 64 bit integer is complete for every integer above
  \<open>-10\<^sup>1\<^sup>8\<close>; from there down it needs twenty characters, and the twenty byte buffer with its terminating NUL loses the
  last digit.
\<close>

theorem get_int64_loses_digit:
  assumes "sm_ReadHandle sm htJSON (to_handle (params 1)) (n_sm s) = (0, Some p)"
    and "json_object_get (n_world s) (Some p) (Some (key_param sm params 2 s)) = Some v"
    and "data_at (n_world s) (Some v) = Some (JInteger i)" "LLONG_MIN \<le> i" "i \<le> LLONG_MAX"
  shows "GetObjectInt64Value sm io params s =
    (1, StringToLocalUTF8 sm (params 3) (params 4) (if i \<le> -(10 ^ 18) then butlast (fmt_d i) else fmt_d i) s)"
  using member_found [OF assms(1,2)] typed_reads(4) [OF assms(3) refl] int64_text_cases [OF assms(4,5)] by (simp add: getter_defs)

theorem get_int64_loses_digit_witness:
  "\<exists>s'. SetObjectIntValue host_sm host_io five_params one_object = (1, s') \<and>
     GetObjectInt64Value host_sm host_io five_params s' = (1, StringToLocalUTF8 host_sm 5 0 (cstr ''5'') s')"
proof -
  obtain s' v where s': "SetObjectIntValue host_sm host_io five_params one_object = (1, s')"
    "sm_ReadHandle host_sm htJSON (to_handle (five_params 1)) (n_sm s') = (0, Some 4)"
    "json_object_get (n_world s') (Some 4) (Some (key_param host_sm five_params 2 s')) = Some v" "data_at (n_world s') (Some v) = Some (JInteger 5)"
    by (rule one_object_five)
  have "fmt_d 5 = cstr ''5''" by (simp add: fmt_d_def fmt_u_def digit_byte_def nat_digits.simps)
  then show ?thesis using get_int64_loses_digit [OF s'(2-4), of host_io] s'(1) by (simp add: LLONG_MIN_def LLONG_MAX_def five_params_def)
qed

section \<open>The keys of an object\<close>

text \<open>A number of calls of \<^verbatim>\<open>ReadKey\<close> in a row, with what they return.\<close>

primrec read_keys :: "nat \<Rightarrow> 'h sourcemod \<Rightarrow> io_env \<Rightarrow> params \<Rightarrow> 'h natives \<Rightarrow> int list \<times> 'h natives" where
  "read_keys 0 sm io params s = ([], s)"
| "read_keys (Suc n) sm io params s =
     (case ReadObjectKey sm io params s of
        (r, s1) \<Rightarrow> case read_keys n sm io params s1 of (rs, s2) \<Rightarrow> (r # rs, s2))"

text \<open>What the plugin's memory holds once a list of keys has been stored in its buffer, one after the other.\<close>

definition stored :: "'h sourcemod \<Rightarrow> params \<Rightarrow> byte list list \<Rightarrow> 'h \<Rightarrow> 'h" where
  "stored sm params = fold (\<lambda>k. sm_StringToLocalUTF8 sm (params 2) (params 3) (c_string k))"

lemma ReadObjectKey_at:
  assumes "sm_ReadHandle sm htJSONObjectKeys (to_handle (get 1)) (n_sm s) = (0, Some a)"
    and "n_keys s a = Some \<lparr>jk_object = p, jk_iter = map_option (Pair p) it\<rparr>" "object_table (n_world s) (Some p) = Some h"
  shows "it = None \<Longrightarrow> ReadObjectKey sm io get s = (0, s)"
    "it = Some z \<Longrightarrow> ht_pairs h z = Some pair \<Longrightarrow> ReadObjectKey sm io get s =
      (1, s\<lparr>n_sm := stored sm get [p_key pair] (n_sm s),
            n_keys := (n_keys s)(a \<mapsto> \<lparr>jk_object = p, jk_iter = map_option (Pair p) (hashtable_iter_next h z)\<rparr>)\<rparr>)"
  using assms by (simp_all add: ReadObjectKey_def iter_live_def JSONObjectKeys_GetKey_def json_object_iter_key_def JSONObjectKeys_Next_def
      json_object_iter_next_def hashtable_iter_key_def StringToLocalUTF8_def stored_def Let_def)

lemma read_keys_walk:
  assumes "object_table (n_world s) (Some p) = Some h" "dseg (ht_ordered_list h) b ys 0" "0 \<notin> set ys" "set ys \<subseteq> dom (ht_pairs h)"
    and "n_keys s a = Some \<lparr>jk_object = p, jk_iter = map_option (Pair p) (hashtable_iter_next h b)\<rparr>"
    and same: "\<And>h addr len str. sm_ReadHandle sm t x (sm_StringToLocalUTF8 sm addr len str h) = sm_ReadHandle sm t x h"
    and "sm_ReadHandle sm htJSONObjectKeys (to_handle (get 1)) (n_sm s) = (0, Some a)" "t = htJSONObjectKeys" "x = to_handle (get 1)"
  shows "\<exists>s'. read_keys (length ys + 1) sm io get s = (replicate (length ys) 1 @ [0], s') \<and> n_world s' = n_world s \<and>
    n_sm s' = stored sm get (map fst (entries h ys)) (n_sm s)"
  using assms(1-5,7)
proof (induction ys arbitrary: b s)
  case Nil
  then have "hashtable_iter_next h b = None" by (simp add: hashtable_iter_next_def)
  then show ?case using ReadObjectKey_at(1) [of sm get s a p None h io] Nil by (simp add: entries_def stored_def)
next
  case (Cons y ys)
  obtain pair where pair: "ht_pairs h y = Some pair" using Cons.prems by auto
  have y: "hashtable_iter_next h b = Some y" using Cons.prems by (simp add: hashtable_iter_next_def Let_def)
  let ?s = "s\<lparr>n_sm := stored sm get [p_key pair] (n_sm s),
    n_keys := (n_keys s)(a \<mapsto> \<lparr>jk_object = p, jk_iter = map_option (Pair p) (hashtable_iter_next h y)\<rparr>)\<rparr>"
  have step: "ReadObjectKey sm io get s = (1, ?s)"
    using ReadObjectKey_at(2) [of sm get s a p "Some y" h y pair io] Cons.prems y pair by simp
  have "sm_ReadHandle sm htJSONObjectKeys (to_handle (get 1)) (n_sm ?s) = (0, Some a)"
    using same Cons.prems assms(8,9) by (simp add: stored_def)
  then obtain s' where "read_keys (length ys + 1) sm io get ?s = (replicate (length ys) 1 @ [0], s')" "n_world s' = n_world s"
    "n_sm s' = stored sm get (map fst (entries h ys)) (n_sm ?s)"
    using Cons.IH [of ?s y] Cons.prems by auto
  then show ?case using step pair by (simp add: entries_def stored_def)
qed

text \<open>The plugin's object once it has the member \<^verbatim>\<open>a\<close>.\<close>

lemma one_member:
  obtains s' h v where "SetObjectIntValue host_sm host_io five_params one_object = (1, s')" "n_sm s' = n_sm one_object"
    "object_table (n_world s') (Some 4) = Some h" "ht_rel (w_seed (n_world s')) h [(cstr ''a'', v)]" "accounted host_owned s'"
    "4 \<notin># heap_refs {} (n_world s')"
proof -
  let ?w = "n_world one_object"
  obtain s' where s': "SetObjectIntValue host_sm host_io five_params one_object = (1, s')" using one_object_set by blast
  obtain h0 where h0: "w_heap ?w 4 = Some \<lparr>j_refcount = 1, j_data = JObject h0\<rparr>" "ht_rel (w_seed ?w) h0 []" "w_mem ?w = mem_ok" "w_brk ?w = 5"
    "dom (w_heap ?w) = {1, 2, 3, 4}" "\<And>q. json_object_size ?w (Some q) = 0"
    using one_object_heap by metis
  obtain r w1 where i: "json_integer (five_params 3) ?w = (r, w1)" by (metis surj_pair)
  note mk = json_integer_makes [OF h0(3) i]
  have r: "r = Some 5" "w_heap w1 = (w_heap ?w)(5 \<mapsto> \<lparr>j_refcount = 1, j_data = JInteger (five_params 3)\<rparr>)" using mk h0(4) by (auto simp: makes_def)
  have E: "json_refs (host_owned (n_sm one_object)) = {#4#}" by (simp add: host_owned_def one_object_state json_refs_def)
  have inv1: "rc_inv {} (add_mset 5 {#4#}) w1"
    using json_integer_inv [OF accountedD [OF one_object_accounted] i] r(1) E by simp
  have k: "key_param host_sm five_params 2 one_object = cstr ''a''" by (simp add: key_param_def host_sm_def one_object_state c_string_def)
  have "succeeded (on_world (json_object_set_new (Some 4) (Some (cstr ''a'')) r) (one_object\<lparr>n_world := w1\<rparr>)) = (1, s')"
    using s' [unfolded SetObjectIntValue_def set_member_def with_json_eq [OF one_object_read]] i k by (simp add: Let_def new_int_def on_world_def)
  then obtain w' where w': "json_object_set_new (Some 4) (Some (cstr ''a'')) (Some 5) w1 = (0, w')" "s' = one_object\<lparr>n_world := w'\<rparr>"
    using r(1) by (auto elim: succeeded_on_world)
  have t1: "object_table w1 (Some 4) = Some h0" using h0(1) r(2) by (simp add: object_table_def data_at_def)
  have size: "json_object_size w1 (Some 4) < 2 ^ 31" using t1 ht_rel_size [OF h0(2)] by (simp add: json_object_size_def)
  obtain h al h' where H: "object_table w1 (Some 4) = Some h" "ht_rel (w_seed w1) h al" "object_table w' (Some 4) = Some h'"
    "ht_rel (w_seed w') h' (AList.update (cstr ''a'') 5 al)" "rc_inv {} {#4#} w'" "loses 4 w1 w'"
    by (rule object_set_members [OF inv1 _ size w'(1)]) auto
  have "al = []" using ht_rel_size [OF H(2)] ht_rel_size [OF h0(2)] H(1) t1 by simp
  then have rel: "ht_rel (w_seed w') h' [(cstr ''a'', 5)]" using H(4) by simp
  have other: "cell_refs (j_data c) = {#}" if "w_heap ?w q = Some c" "q \<noteq> 4" for q c
  proof -
    have "q = 1 \<or> q = 2 \<or> q = 3" using that h0(5) by (auto simp: dom_def set_eq_iff)
    then show ?thesis using that(1) accounted_statics [OF one_object_accounted]
      by (auto simp: data_at_def true_ptr_def false_ptr_def null_ptr_def)
  qed
  have none: "4 \<notin># heap_refs {} w'"
  proof -
    have "4 \<notin># cell_refs (j_data c)" if q: "w_heap w' q = Some c" for q c
    proof (cases "q = 4")
      case True
      then have "j_data c = JObject h'" using H(3) q(1) by (auto simp: object_table_def data_at_def split: json_data.splits)
      then show ?thesis using cell_refs_object [OF rel] by simp
    next
      case False
      then obtain c1 where "w_heap w1 q = Some c1" "j_data c = j_data c1" using H(6) q unfolding loses_def by blast
      then show ?thesis using other [of q] False r(2) by (auto split: if_splits)
    qed
    then show ?thesis using heap_refs_none [OF rc_invD(2) [OF H(5)], of 4] by (auto simp: not_in_iff)
  qed
  show thesis using that [OF s' _ _ _ _ ] rel H(3,5) none w'(2) E by (simp add: accounted_def)
qed

lemma one_member_run: "SetObjectIntValue host_sm host_io five_params one_object = (1, s') \<Longrightarrow> n_sm s' = n_sm one_object \<Longrightarrow>
   sm_ReadHandle host_sm htJSON (to_handle (five_params 1)) (n_sm s') = (0, Some 4)"
  using one_object_read by simp

lemma one_member_keys:
  assumes "n_sm s' = n_sm one_object"
  obtains s1 where "CreateObjectKeys host_sm host_io five_params s' = (2, s1)" "n_world s1 = n_world s'"
    "ho_slots (n_sm s1) = [Some (htJSON, Some 4), Some (htJSONObjectKeys, Some (n_fresh s'))]"
    "n_keys s1 (n_fresh s') = Some (JSONObjectKeys_new (n_world s') 4)"
  using one_object_read that unfolding CreateObjectKeys_def assms [symmetric]
  by (simp add: with_json_eq host_sm_def assms one_object_state BAD_HANDLE_def to_cell_def Let_def del: One_nat_def)

text \<open>
  C12: \<^verbatim>\<open>JSONObject.Keys\<close> and \<^verbatim>\<open>ReadKey\<close> enumerate an object.  After \<^verbatim>\<open>Keys\<close> on an object whose members are \<open>al\<close>, in the order
  in which they were added, the calls of \<^verbatim>\<open>ReadKey\<close> return 1 once for each member and store its key, in that order, and then
  return 0; the JSON values stay as they are.  Assumed: the new handle reads as the new iterator object, and storing
  strings in the plugin's memory does not change how handles read.
\<close>

theorem read_keys_enumerates:
  assumes "sm_ReadHandle sm htJSON (to_handle (params 1)) (n_sm s) = (0, Some p)"
    and "object_table (n_world s) (Some p) = Some h" "ht_rel (w_seed (n_world s)) h al"
    and "CreateObjectKeys sm io params s = (get 1, s1)" "get 1 \<noteq> 0"
    and "sm_ReadHandle sm htJSONObjectKeys (to_handle (get 1)) (n_sm s1) = (0, Some (n_fresh s))"
    and "\<And>t x addr len str u. sm_ReadHandle sm t x (sm_StringToLocalUTF8 sm addr len str u) = sm_ReadHandle sm t x u"
  shows "\<exists>s2. read_keys (length al + 1) sm io get s1 = (replicate (length al) 1 @ [0], s2) \<and>
    n_sm s2 = stored sm get (map fst al) (n_sm s1) \<and> n_world s2 = n_world s"
proof -
  obtain segs os where rep: "ht_rep (w_seed (n_world s)) h segs os" and al: "al = entries h os" using assms(3) by (auto simp: ht_rel_def)
  note R = ht_repD [OF rep]
  obtain x e u' where c: "sm_CreateHandleEx sm htJSONObjectKeys (Some (n_fresh s)) (n_sm s) = ((x, e), u')" by (metis surj_pair)
  note cr = assms(4) [unfolded CreateObjectKeys_def with_json_eq [OF assms(1)]]
  have x: "x \<noteq> BAD_HANDLE"
    using cr assms(5) c by (auto simp: ThrowNativeError_def Let_def simp del: cstr_Cons One_nat_def split: if_splits)
  have s1: "s1 = s\<lparr>n_keys := (n_keys s)(n_fresh s \<mapsto> JSONObjectKeys_new (n_world s) p), n_fresh := n_fresh s + 1, n_sm := u'\<rparr>"
    using cr c x by (simp add: Let_def)
  have "\<exists>s2. read_keys (length os + 1) sm io get s1 = (replicate (length os) 1 @ [0], s2) \<and> n_world s2 = n_world s1 \<and>
    n_sm s2 = stored sm get (map fst (entries h os)) (n_sm s1)"
  proof (rule read_keys_walk [where p = p and h = h and b = 0 and a = "n_fresh s", OF _ _ _ _ _ assms(7) _ refl refl])
    show "n_keys s1 (n_fresh s) = Some \<lparr>jk_object = p, jk_iter = map_option (Pair p) (hashtable_iter_next h 0)\<rparr>"
      using assms(2) s1 by (simp add: JSONObjectKeys_new_def json_object_iter_def hashtable_iter_def)
  qed (use assms(2,6) s1 R(2,4) in \<open>auto simp: dll_def\<close>)
  then show ?thesis using al s1 by (auto simp: entries_def)
qed

theorem read_keys_enumerates_witness:
  "\<exists>s' s1 s2. SetObjectIntValue host_sm host_io five_params one_object = (1, s') \<and>
     CreateObjectKeys host_sm host_io five_params s' = (2, s1) \<and>
     read_keys 2 host_sm host_io (five_params(1 := 2)) s1 = ([1, 0], s2) \<and>
     n_sm s2 = stored host_sm (five_params(1 := 2)) [cstr ''a''] (n_sm s1)"
proof -
  obtain s' h v where s': "SetObjectIntValue host_sm host_io five_params one_object = (1, s')" "n_sm s' = n_sm one_object"
    "object_table (n_world s') (Some 4) = Some h" "ht_rel (w_seed (n_world s')) h [(cstr ''a'', v)]" by (rule one_member)
  obtain s1 where s1: "CreateObjectKeys host_sm host_io five_params s' = (2, s1)"
    "ho_slots (n_sm s1) = [Some (htJSON, Some 4), Some (htJSONObjectKeys, Some (n_fresh s'))]" by (rule one_member_keys [OF s'(2)])
  have "\<exists>s2. read_keys (length [(cstr ''a'', v)] + 1) host_sm host_io (five_params(1 := 2)) s1 = (replicate (length [(cstr ''a'', v)]) 1 @ [0], s2) \<and>
    n_sm s2 = stored host_sm (five_params(1 := 2)) (map fst [(cstr ''a'', v)]) (n_sm s1) \<and> n_world s2 = n_world s'"
    by (rule read_keys_enumerates [where params = five_params and s = s' and p = 4 and h = h, OF one_member_run [OF s'(1,2)] s'(3,4)])
      (use s1 in \<open>simp_all add: host_sm_def host_slot_def to_handle_def\<close>)
  then show ?thesis using s'(1) s1(1) by (auto simp: numeral_2_eq_2)
qed

text \<open>
  C39: the iterator of \<^verbatim>\<open>JSONObject.Keys\<close> does not keep its object.  When the handle is the only reference to a non-empty object,
  then deleting it before the keys are read frees the object, and the next \<^verbatim>\<open>ReadKey\<close> reads freed memory.
\<close>

theorem keys_outlive_object:
  assumes "accounted owned s"
    and "sm_ReadHandle sm htJSON (to_handle (params 1)) (n_sm s) = (0, Some p)" "object_table (n_world s) (Some p) = Some h" "0 < ht_size h"
    and "count (json_refs (owned (n_sm s))) p = 1" "p \<notin># heap_refs {} (n_world s)"
    and "CreateObjectKeys sm io params s = (get 1, s1)" "get 1 \<noteq> 0"
    and "sm_FreeHandle sm hndl (n_sm s1) = (Some (htJSON, Some p), u)"
    and "sm_ReadHandle sm htJSONObjectKeys (to_handle (get 1)) u = (0, Some (n_fresh s))"
  shows "\<not> w_fault (n_world s) \<and> w_fault (n_world (snd (ReadObjectKey sm io get (FreeHandle_call sm hndl s1))))"
proof -
  have inv: "rc_inv {} (json_refs (owned (n_sm s))) (n_world s)" by (rule accountedD [OF assms(1)])
  obtain c al where c: "w_heap (n_world s) p = Some c" "p \<notin> statics" and al: "ht_rel (w_seed (n_world s)) h al"
    using object_tableD [OF inv assms(3)] by metis
  obtain E where E: "json_refs (owned (n_sm s)) = add_mset p E" using assms(5) by (metis count_eq_zero_iff insert_DiffM zero_neq_one)
  have "rc_of (n_world s) p = 1" using rc_invD(7) [OF inv c] assms(5,6) c(1) by (simp add: not_in_iff)
  then have freed: "w_heap (json_decref (Some p) (n_world s)) p = None" using json_decref_frees [OF inv [unfolded E] c(2)] by simp
  have "iter_walk (ht_size h) h (hashtable_iter h) \<noteq> []" using iter_walk_rel [OF al] ht_rel_size [OF al] assms(4) by auto
  then obtain z where z: "hashtable_iter h = Some z" using assms(4) by (cases "ht_size h"; cases "hashtable_iter h") auto
  obtain x e u' where cr: "sm_CreateHandleEx sm htJSONObjectKeys (Some (n_fresh s)) (n_sm s) = ((x, e), u')" by (metis surj_pair)
  note k = assms(7) [unfolded CreateObjectKeys_def with_json_eq [OF assms(2)]]
  have x: "x \<noteq> BAD_HANDLE"
    using k assms(8) cr by (auto simp: ThrowNativeError_def Let_def simp del: cstr_Cons One_nat_def split: if_splits)
  have s1: "n_world s1 = n_world s" "n_keys s1 (n_fresh s) = Some \<lparr>jk_object = p, jk_iter = Some (p, z)\<rparr>"
    using k cr x assms(3) z by (auto simp: Let_def JSONObjectKeys_new_def json_object_iter_def)
  have free: "FreeHandle_call sm hndl s1 = s1\<lparr>n_sm := u, n_world := json_decref (Some p) (n_world s)\<rparr>"
    using assms(9) s1(1) by (simp add: FreeHandle_call_def)
  have "\<not> iter_live (json_decref (Some p) (n_world s)) (the (n_keys s1 (n_fresh s)))"
    using s1(2) freed by (simp add: iter_live_def object_table_def data_at_def)
  then show ?thesis using assms(10) rc_invD(1) [OF inv] unfolding free
    by (auto simp: ReadObjectKey_def Let_def StringToLocalUTF8_def split: option.splits)
qed

theorem keys_outlive_object_witness:
  "\<exists>s' s1. SetObjectIntValue host_sm host_io five_params one_object = (1, s') \<and> CreateObjectKeys host_sm host_io five_params s' = (2, s1) \<and>
     \<not> w_fault (n_world s') \<and> w_fault (n_world (snd (ReadObjectKey host_sm host_io (five_params(1 := 2)) (FreeHandle_call host_sm 1 s1))))"
proof -
  obtain s' h v where s': "SetObjectIntValue host_sm host_io five_params one_object = (1, s')" "n_sm s' = n_sm one_object"
    "object_table (n_world s') (Some 4) = Some h" "ht_rel (w_seed (n_world s')) h [(cstr ''a'', v)]" "accounted host_owned s'"
    "4 \<notin># heap_refs {} (n_world s')" by (rule one_member)
  obtain s1 where s1: "CreateObjectKeys host_sm host_io five_params s' = (2, s1)"
    "ho_slots (n_sm s1) = [Some (htJSON, Some 4), Some (htJSONObjectKeys, Some (n_fresh s'))]" by (rule one_member_keys [OF s'(2)])
  have "count (json_refs (host_owned (n_sm s'))) 4 = 1" using s'(2) by (simp add: host_owned_def one_object_state json_refs_def)
  moreover have "0 < ht_size h" using ht_rel_size [OF s'(4)] by simp
  ultimately have "\<not> w_fault (n_world s') \<and> w_fault (n_world (snd (ReadObjectKey host_sm host_io (five_params(1 := 2)) (FreeHandle_call host_sm 1 s1))))"
    using s1(2)
    by (intro keys_outlive_object [where params = five_params and p = 4 and h = h, OF s'(5) one_member_run [OF s'(1,2)] s'(3) _ _ s'(6)])
      (use s1(1) in \<open>auto simp: host_sm_def host_slot_def to_handle_def\<close>)
  then show ?thesis using s'(1) s1(1) by blast
qed

end
