(* ===== verification/Native_Requests.thy ===== *)
theory Native_Requests
  imports Json_Natives_Correct
begin

text \<open>
  What all natives share and what the HTTP natives start: a native given an invalid handle only reports it, and a native that posts a value
  puts one context in the queue, from which libcurl reads the text of the value.
\<close>

section \<open>Invalid handles\<close>

text \<open>The type of handle a native takes as its first parameter, and how its error message calls it; the constructors take none.\<close>

definition native_handle :: "string \<Rightarrow> HandleType option" where
  "native_handle name =
     (if name \<in> {''JSONObject.JSONObject'', ''JSONArray.JSONArray'', ''JSONObject.FromString'', ''JSONObject.FromFile'',
         ''JSONArray.FromString'', ''JSONArray.FromFile'', ''HTTPClient.HTTPClient'', ''HTTPRequest.HTTPRequest''} then None
      else if name = ''JSONObjectKeys.ReadKey'' then Some htJSONObjectKeys
      else if take 4 name = ''JSON'' then Some htJSON
      else if take 10 name = ''HTTPClient'' then Some htHTTPClient
      else if take 11 name = ''HTTPRequest'' then Some htHTTPRequest
      else Some htHTTPResponse)"

fun handle_name :: "HandleType \<Rightarrow> byte list" where
  "handle_name htJSON = cstr ''JSON handle ''"
| "handle_name htJSONObjectKeys = cstr ''object keys handle ''"
| "handle_name htHTTPClient = cstr ''HTTP client handle ''"
| "handle_name htHTTPRequest = cstr ''HTTPRequest handle ''"
| "handle_name htHTTPResponse = cstr ''HTTP response handle ''"

definition invalid_handle :: "'h sourcemod \<Rightarrow> HandleType \<Rightarrow> int \<Rightarrow> 'h natives \<Rightarrow> int \<times> 'h natives" where
  "invalid_handle sm t param s =
     ThrowNativeError sm (cstr ''Invalid '' @ handle_name t @ fmt_x (to_handle param) @
       cstr '' (error '' @ fmt_d (fst (sm_ReadHandle sm t (to_handle param) (n_sm s))) @ cstr '')'') s"

definition unreadable :: "'h sourcemod \<Rightarrow> HandleType \<Rightarrow> int \<Rightarrow> 'h natives \<Rightarrow> bool" where
  "unreadable sm t param s \<longleftrightarrow> fst (sm_ReadHandle sm t (to_handle param) (n_sm s)) \<noteq> 0"

lemma lookups_reject:
  "unreadable sm htJSON param s \<Longrightarrow> with_json sm param f s = invalid_handle sm htJSON param s"
  "unreadable sm htHTTPClient param s \<Longrightarrow> with_client sm param g s = invalid_handle sm htHTTPClient param s"
  "unreadable sm htHTTPRequest param s \<Longrightarrow> with_request sm param k s = invalid_handle sm htHTTPRequest param s"
  "unreadable sm htHTTPResponse param s \<Longrightarrow> with_response sm param r s = invalid_handle sm htHTTPResponse param s"
  by (auto simp: unreadable_def invalid_handle_def with_json_def GetJSONFromHandle_def with_client_def with_request_def GetRequestFromHandle_def
      with_response_def ThrowNativeError_def client_msg_def Let_def split: prod.splits)

lemma ReadKey_rejects: "unreadable sm htJSONObjectKeys (params 1) s \<Longrightarrow> ReadObjectKey sm io params s = invalid_handle sm htJSONObjectKeys (params 1) s"
  by (auto simp: unreadable_def invalid_handle_def ReadObjectKey_def Let_def split: prod.splits)

lemmas reject_defs =
  getter_defs setter_defs with_member_def with_element_def set_member_def set_element_def push_element_def SetObjectValue_def SetArrayValue_def
  PushArrayValue_def RemoveFromObject_def ClearObject_def RemoveFromArray_def ClearArray_def CreateObjectKeys_def ToString_def ToFile_def
  http_option_defs http_request_defs client_get_def client_set_def request_get_def request_set_def client_send_def client_transfer_def
  GetRequest_def DeleteRequest_def SetClientHeader_def request_named_def SetRequestBasicAuth_def request_bare_def request_send_def
  request_transfer_def PerformPostForm_def GetResponseData_def GetResponseStatus_def GetResponseHeader_def



section \<open>From the plugin to the server and back\<close>

lemma FreeHandle_queue [simp]:
  fixes u :: "'h natives"
  shows "n_queue (FreeHandle_call sm x u) = n_queue u"
proof -
  have "n_queue (OnHandleDestroy t y k) = n_queue k" for t y and k :: "'h natives" by (cases t) simp_all
  then show ?thesis by (simp add: FreeHandle_call_def split: option.split prod.split)
qed

lemma request_send_queues:
  assumes "sm_ReadHandle sm htHTTPRequest (to_handle (params 1)) (n_sm s) = (0, Some a)"
    and "sm_ReadHandle sm htJSON (to_handle (params 2)) (n_sm s) = (0, Some p)"
    and "sm_CreateForward sm (params 3) (n_sm s) = (fe, h)" "\<not> forward_failed fe"
    and "heap_ok (n_world s)" "views (n_world s) v p" "printable (io_point io) 0 v" "container v" "io_point io \<noteq> 0"
    and "length (value_text (io_point io) 0 0 v) \<le> 2 ^ 60"
    and "list_all (\<lambda>(s, n). s * n < 2 ^ 64) asks" "length (value_text (io_point io) 0 0 v) \<le> (\<Sum>(s, n) \<leftarrow> asks. s * n)"
  shows "\<exists>c. request_send method sm io params s =
      (1, FreeHandle_call sm (to_handle (params 1)) (s\<lparr>n_sm := h, n_queue := n_queue s @ [Request_Context c]\<rparr>)) \<and>
    rq_method c = method \<and> cx_url c = HTTPRequest_BuildURL (the (n_requests s a)) \<and> cx_value c = params 4 \<and>
    cx_headers c = HTTPRequest_BuildHeaders (io_header_order io) (the (n_requests s a)) (io_slist io) \<and>
    rq_response c = HTTPResponse_new \<and> fst (read_all asks c) = value_text (io_point io) 0 0 v"
proof -
  let ?text = "value_text (io_point io) 0 0 v" and ?r = "the (n_requests s a)"
  have dumps: "json_dumps (io_point io) (Some p) 0 (n_world s) = (Some ?text, n_world s)"
    by (rule json_dumps_text) (use assms in \<open>auto simp: dflag_def container_def\<close>)
  obtain c where c: "HTTPRequest_Perform (io_point io) (io_header_order io) (io_slist io) ?r method (Some p) (the (fe_forward fe)) (params 4) (n_world s) =
      (Request_Context c, n_world s)" "rq_body c = Some ?text" "rq_size c = length ?text" "rq_pos c = 0" "rq_method c = method"
      "cx_url c = HTTPRequest_BuildURL ?r" "cx_headers c = HTTPRequest_BuildHeaders (io_header_order io) ?r (io_slist io)" "cx_value c = params 4"
      "rq_response c = HTTPResponse_new"
    using dumps by (simp add: HTTPRequest_Perform_def HTTPRequestContext_new_def Let_def)
  have "rq_wf c" using c(2-4) assms(10) by (simp add: rq_wf_def)
  then have "fst (read_all asks c) = ?text"
    using read_all_prefix [of c asks "fst (read_all asks c)" "snd (read_all asks c)"] c(2-4) assms(11,12) by (simp add: body_left_def)
  moreover have "request_send method sm io params s =
      (1, FreeHandle_call sm (to_handle (params 1)) (s\<lparr>n_sm := h, n_queue := n_queue s @ [Request_Context c]\<rparr>))"
    unfolding request_send_def using assms(1,2)
    by (simp add: with_request_def GetRequestFromHandle_def with_json_eq performs_def assms(3,4) request_start_def c(1) Let_def)
  ultimately show ?thesis using c by blast
qed

lemma write_all_handle: "write_all chunks r = Some r' \<Longrightarrow> rs_hndlData r' = rs_hndlData r"
proof (induction chunks arbitrary: r)
  case (Cons chunk chunks)
  have "rs_hndlData r1 = rs_hndlData r" if "WriteResponseBody True chunk 1 (length chunk) r = Some (n, r1)" for n r1
    using that by (auto simp: WriteResponseBody_def Let_def split: if_splits)
  then show ?case using Cons by (fastforce split: option.splits if_splits)
qed simp

lemma received_text:
  assumes "write_all chunks HTTPResponse_new = Some r" "concat chunks \<noteq> []" "length (concat chunks) \<le> 2 ^ 60" "0 \<notin> set (concat chunks)"
  shows "\<exists>b. rs_body r = Some b \<and> c_string b = concat chunks" "rs_hndlData r = BAD_HANDLE"
proof -
  have R: "rs_wf r" "rs_content r = concat chunks" "rs_size r = length (concat chunks)"
    using write_all_content [OF HTTPResponse_new_wf(1), of chunks] assms(1,3) by auto
  show "rs_hndlData r = BAD_HANDLE" using write_all_handle [OF assms(1)] by (simp add: HTTPResponse_new_def)
  obtain b where b: "rs_body r = Some b" using R assms(2) by (cases "rs_body r") (auto simp: rs_wf_def)
  then have "b = concat chunks @ [0]" using rs_body_content [OF R(1)] R by auto
  then show "\<exists>b. rs_body r = Some b \<and> c_string b = concat chunks" using b assms(4) by (auto simp: c_string_def takeWhile_tail)
qed

end
