(* ===== verification/Spec2Isabelle.thy ===== *)
theory Spec2Isabelle
  imports Utf8 Strbuffer C_Numbers Lookup3 Hashtable_Correct Seeding Strconv Json_Error
    Json_Roundtrip Json_Dump_Loops Json_Unpack Locked_Queue Http_Context Http_Request Extension_Setup Native_Requests
begin

text \<open>
  A verification library for sm-ripext (REST in Pawn), the SourceMod extension that gives plugins an HTTP
  client and JSON values.

  \<^bold>\<open>The program.\<close>  Plugins call natives (\<^verbatim>\<open>src/json_natives.cpp\<close>, \<^verbatim>\<open>src/http_natives.cpp\<close>) that build JSON values
  with the bundled jansson library (\<^verbatim>\<open>src/jansson/src\<close>) and start HTTP requests.  A request becomes a context
  object (\<^verbatim>\<open>httprequestcontext.cpp\<close>, \<^verbatim>\<open>httpfilecontext.cpp\<close>, \<^verbatim>\<open>httpformcontext.cpp\<close>) that the game thread puts in a
  locked queue (\<^verbatim>\<open>queue.h\<close>).  The loop thread of \<^verbatim>\<open>extension.cpp\<close> starts the transfers with libcurl, watches their sockets with libuv and
  puts the finished contexts in a second queue, from which the frame hook of the game thread runs the plugin callbacks.

  \<^bold>\<open>How the state is modelled.\<close>  C strings are byte lists, \<^verbatim>\<open>size_t\<close> and 32 bit values wrap where the code can overflow.  An
  allocator is the sequence of outcomes of its calls, so every theorem about failing allocations ranges over all of them.  JSON
  values are reference-counted cells of a heap (\<^verbatim>\<open>world\<close> of Json_Value); touching a freed cell sets the field \<^verbatim>\<open>w_fault\<close>.
  libcurl, libuv, SourceMod, the file system and the locale are parameters, with what the code relies on as
  hypotheses (\<^verbatim>\<open>handle_laws\<close> for the handle system); a small host meets them in the witnesses.

  \<^bold>\<open>The theories.\<close>
  \<^item> Ripext_Prelude: bytes, C strings, the allocator (\<^verbatim>\<open>memory.c\<close>) and the lemmas on lists and words the
    components share.
  \<^item> Utf8 (\<^verbatim>\<open>utf.c\<close>): decoding accepts exactly the shortest encodings of scalar values.  Strbuffer (\<^verbatim>\<open>strbuffer.c\<close>).  C_Numbers and Strconv
    (\<^verbatim>\<open>strconv.c\<close> and the parts of the C library's number conversion it uses).  Json_Error (\<^verbatim>\<open>error.c\<close>).
  \<^item> Lookup3 (\<^verbatim>\<open>lookup3.h\<close>): \<^verbatim>\<open>hashlittle\<close> on 32 bit words, with the agreement of its three paths.
  \<^item> Hashtable (\<^verbatim>\<open>hashtable.c\<close>) on explicit list links, and Hashtable_Correct: the links form two lists, and every
    operation refines one on an insertion-ordered finite map.
  \<^item> Seeding (\<^verbatim>\<open>hashtable_seed.c\<close>): the seeds, and the threads that race to set one.
  \<^item> Json_Value (\<^verbatim>\<open>value.c\<close>, \<^verbatim>\<open>jansson.h\<close>): values and their operations; Json_Refcount: every count is the number of
    references, in all states a client of the library can reach, and what is given back is freed.
  \<^item> Json_Load (\<^verbatim>\<open>load.c\<close>): stream, lexer, parser and entry points; Json_Lex and Json_Parse: every scan and every
    parse ends; Json_Parse_Heap: the decoder's use of references on every path.
  \<^item> Json_Dump (\<^verbatim>\<open>dump.c\<close>); Json_Dump_Correct: the text that is printed, for all flags; Json_Dump_Loops: the encoder on arbitrary heaps, cyclic ones
    included, with any allocator.
  \<^item> Json_Scan_Text and Json_Roundtrip: the decoder on the encoder's text; decoding gives the same tree.
  \<^item> Json_Pack and Json_Unpack (\<^verbatim>\<open>pack_unpack.c\<close>): building and taking apart values by format strings, over explicit argument lists;
    what C leaves undefined, such as an argument of another type than the format says, sets \<^verbatim>\<open>pk_undefined\<close>.  Json_Pack_Correct and Json_Unpack show
    that both end on every format string and keep the reference counts.
  \<^item> Locked_Queue (\<^verbatim>\<open>queue.h\<close>), Http_Context (the three contexts), Http_Request (\<^verbatim>\<open>httpclient.cpp\<close>,
    \<^verbatim>\<open>httprequest.cpp\<close>).
  \<^item> Event_Loop (\<^verbatim>\<open>extension.cpp\<close>): the two threads as a step relation; each context is in one place, is called back at most once
    and released once.  Extension_Setup: the sockets and the timer watched for libcurl, loading and unloading.
  \<^item> Native_Interface: cells, SourceMod as a record of functions, the objects behind handles and \<^verbatim>\<open>OnHandleDestroy\<close>.  Json_Natives and Http_Natives:
    every native of the two tables.
  \<^item> Native_Account: every native keeps the account of references held by handles; Plugin_Runs: plugins as sequences of calls and
    deletions, whose handles own their references and leak nothing; Json_Natives_Correct: what the JSON natives store, find, enumerate and
    convert; Native_Requests: invalid handles and posted values.
  \<^item> This theory: a value on its way from a plugin to a server and back, through all of the above.

  \<^bold>\<open>Interfaces.\<close>  Locales state what one component asks of another: the queue with its lock (Locked_Queue), a byte source that ends, over which
  the lexer and the parser are verified once for strings, buffers, files and callbacks (Json_Lex), a sink for the encoder (Json_Dump_Correct,
  Json_Dump_Loops) and the insertion-ordered map of the hash table.  Each is interpreted on the definitions that model the code.

  \<^bold>\<open>Fuel.\<close>  Recursions whose end is not structural take a bound.  The decoder's entry points use twice the length of the input plus eight, and
  \<^verbatim>\<open>decoding_ends\<close> shows that it never runs out.  The encoder uses one more than the number of addresses, and \<^verbatim>\<open>json_dumps_cycle_safe\<close> shows that
  it ends on every heap.  Giving back a reference uses the size of the heap, which is enough because each nested release frees a cell.
  Packing and unpacking use twice the length of the format plus eight, which \<^verbatim>\<open>json_vpack_ex_balanced\<close> and \<^verbatim>\<open>json_vunpack_ex_reads_only\<close> show
  to be enough.

  \<^bold>\<open>Not modelled.\<close>  The libraries under \<^verbatim>\<open>src/curl\<close>, \<^verbatim>\<open>src/libuv\<close>, \<^verbatim>\<open>src/mbedtls\<close>, \<^verbatim>\<open>src/nghttp2\<close> and \<^verbatim>\<open>src/zlib\<close> are third-party code that the
  extension only calls: their documented behaviour enters as parameters and hypotheses.  The Pawn include files declare the natives for plugin authors,
  and the build scripts and tools hold no logic of the program.
\<close>

section \<open>From the plugin to the server and back\<close>

text \<open>A plugin with a request and the array \<^verbatim>\<open>[null, 5]\<close>, and one that has a response.\<close>

definition posting :: "host natives" where
  "posting = host_start\<lparr>n_sm := (n_sm host_start)\<lparr>ho_slots := [Some (htHTTPRequest, Some 1), Some (htJSON, Some 5), Some (htHTTPResponse, Some 1)]\<rparr>,
     n_world := small_array, n_requests := [1 \<mapsto> HTTPRequest_new (cstr ''u'')]\<rparr>"

definition post_params :: params where
  "post_params i = int i"

lemma posting_reads:
  "sm_ReadHandle host_sm htHTTPRequest (to_handle (post_params 1)) (n_sm posting) = (0, Some 1)"
  "sm_ReadHandle host_sm htJSON (to_handle (post_params 2)) (n_sm posting) = (0, Some 5)"
  "sm_ReadHandle host_sm htHTTPResponse (to_handle (post_params 3)) (n_sm posting) = (0, Some 1)"
  by (simp_all add: posting_def post_params_def host_sm_def host_slot_def to_handle_def host_start_def)

lemma small_array_readable:
  "readable 0 (VArray [VNull, VInteger 5])" "container (VArray [VNull, VInteger 5])" "height (VArray [VNull, VInteger 5]) \<le> JSON_PARSER_MAX_DEPTH"
  by (auto simp: container_def LLONG_MIN_def LLONG_MAX_def JSON_PARSER_MAX_DEPTH_def)



text \<open>
  C8: a value survives the way to a server that echoes it.  When the response to a posted value, received in any chunks, holds the bytes that
  libcurl read from the request's context, then \<^verbatim>\<open>HTTPResponse.Data\<close> gives a handle to a value with the same tree as
  the one that was posted.  The value consists of nulls, booleans, 64 bit integers, UTF-8 strings without NUL, arrays and
  objects, nested at most as deep as the decoder allows; memory lasts and the handle is created.
\<close>

theorem echo_roundtrip:
  assumes "sm_ReadHandle sm htHTTPRequest (to_handle (params 1)) (n_sm s) = (0, Some a)"
    and "sm_ReadHandle sm htJSON (to_handle (params 2)) (n_sm s) = (0, Some p)"
    and "heap_ok (n_world s)" "views (n_world s) v p" "readable 0 v" "height v \<le> JSON_PARSER_MAX_DEPTH" "container v" "io_point io \<noteq> 0"
    and "length (value_text (io_point io) 0 0 v) \<le> 2 ^ 60"
    and "PerformPostRequest sm io params s = (1, s')" "n_queue s' = queued @ [Request_Context c]"
    and "list_all (\<lambda>(s, n). s * n < 2 ^ 64) asks" "length (value_text (io_point io) 0 0 v) \<le> (\<Sum>(s, n) \<leftarrow> asks. s * n)"
    and "concat chunks = fst (read_all asks c)" "write_all chunks (rq_response c) = Some r"
    and "sm_ReadHandle sm htHTTPResponse (to_handle (get 1)) (n_sm u) = (0, Some b)" "n_responses u b = Some (r\<lparr>rs_status := st, rs_headers := hs\<rparr>)"
    and "heap_ok (n_world u)" "\<And>q. fst (fst (sm_CreateHandleEx sm htJSON (Some q) (n_sm u))) \<noteq> BAD_HANDLE"
  shows "\<exists>q y e u'. GetResponseData sm io get u = (to_cell (int y), u') \<and>
    sm_CreateHandleEx sm htJSON (Some q) (n_sm u) = ((y, e), n_sm u') \<and> views (n_world u') v q"
proof -
  let ?text = "value_text (io_point io) 0 0 v"
  obtain fe h where fe: "sm_CreateForward sm (params 3) (n_sm s) = (fe, h)" by force
  have ok: "\<not> forward_failed fe" using assms(1,2,10) fe
    by (auto simp: PerformPostRequest_def request_send_def with_request_def GetRequestFromHandle_def with_json_eq performs_def ThrowNativeError_def
        simp del: cstr_Cons One_nat_def)
  from request_send_queues [OF assms(1,2) fe ok assms(3,4) readable_printable [OF assms(5)] assms(7-9,12,13), of "cstr ''POST''"]
  have c: "rq_response c = HTTPResponse_new" "fst (read_all asks c) = ?text"
    using assms(10,11) unfolding PerformPostRequest_def by auto
  have "?text \<noteq> []" using assms(7) by (auto simp: container_def bracket_text_def split: if_splits)
  then obtain bd where bd: "rs_body r = Some bd" "c_string bd = ?text" "rs_hndlData r = BAD_HANDLE"
    using received_text [of chunks r] assms(8,9,14,15) c value_text_nonzero [of "io_point io" 0 0 v] by auto
  have "statics_below (n_world u)" "w_mem (n_world u) = mem_ok"
    using assms(18) by (auto simp: heap_ok_def statics_below_def statics_ok_def statics_def)
  then obtain q e w' where l: "json_loads (io_point io) (Some bd) 0 (Some stack_error) (n_world u) = Some (Some q, e, w')" "views w' v q"
    using json_loads_reads_body [OF bd(2) assms(7,5,6,9), of "n_world u" "Some stack_error"] reordered_same [of 0 v]
    by (auto simp: flag_set_def dflag_def)
  obtain y err h' where y: "sm_CreateHandleEx sm htJSON (Some q) (n_sm u) = ((y, err), h')" "y \<noteq> BAD_HANDLE" using assms(19) [of q] by (metis prod.exhaust_sel)
  show ?thesis using assms(16,17) bd l y
    by (intro exI [of _ q] exI [of _ y]) (auto simp: GetResponseData_def with_response_def put_response_def Let_def)
qed

theorem echo_roundtrip_witness:
  "\<exists>s' c r q y e u'. PerformPostRequest host_sm host_io post_params posting = (1, s') \<and> n_queue s' = [Request_Context c] \<and>
     write_all [cstr ''[null, 5]''] (rq_response c) = Some r \<and>
     GetResponseData host_sm host_io (post_params(1 := 3)) (posting\<lparr>n_responses := [1 \<mapsto> r]\<rparr>) = (to_cell (int y), u') \<and>
     sm_CreateHandleEx host_sm htJSON (Some q) (n_sm posting) = ((y, e), n_sm u') \<and> views (n_world u') (VArray [VNull, VInteger 5]) q"
proof -
  let ?v = "VArray [VNull, VInteger 5]" and ?asks = "[(1, 4), (1, 16)]"
  have w: "n_world posting = small_array" "io_point host_io = 46" "n_queue posting = []" by (simp_all add: posting_def host_io_def host_start_def)
  have cf: "sm_CreateForward host_sm (post_params 3) (n_sm posting) = (\<lparr>fe_forward = Some 1, fe_added = True\<rparr>, n_sm posting)" by (simp add: host_sm_def)
  note facts = w small_array_text small_array_ok small_array_views small_array_readable readable_printable [OF small_array_readable(1)]
  have "\<exists>c. request_send (cstr ''POST'') host_sm host_io post_params posting = (1, FreeHandle_call host_sm (to_handle (post_params 1))
      (posting\<lparr>n_sm := n_sm posting, n_queue := n_queue posting @ [Request_Context c]\<rparr>)) \<and>
    rq_method c = cstr ''POST'' \<and> cx_url c = HTTPRequest_BuildURL (the (n_requests posting 1)) \<and> cx_value c = post_params 4 \<and>
    cx_headers c = HTTPRequest_BuildHeaders (io_header_order host_io) (the (n_requests posting 1)) (io_slist host_io) \<and>
    rq_response c = HTTPResponse_new \<and> fst (read_all ?asks c) = value_text (io_point host_io) 0 0 ?v"
    by (rule request_send_queues [OF posting_reads(1,2) cf]) (simp_all only: facts, simp_all add: forward_failed_def)
  then obtain s' c where c: "PerformPostRequest host_sm host_io post_params posting = (1, s')" "n_queue s' = [Request_Context c]"
    "rq_response c = HTTPResponse_new" "fst (read_all ?asks c) = cstr ''[null, 5]''"
    unfolding PerformPostRequest_def facts by fastforce
  obtain r where r: "write_all [cstr ''[null, 5]''] (rq_response c) = Some r"
    using write_all_content [OF HTTPResponse_new_wf(1), of "[cstr ''[null, 5]'']"] c(3) by auto
  have "\<exists>q y e u'. GetResponseData host_sm host_io (post_params(1 := 3)) (posting\<lparr>n_responses := [1 \<mapsto> r]\<rparr>) = (to_cell (int y), u') \<and>
     sm_CreateHandleEx host_sm htJSON (Some q) (n_sm (posting\<lparr>n_responses := [1 \<mapsto> r]\<rparr>)) = ((y, e), n_sm u') \<and> views (n_world u') ?v q"
    by (rule echo_roundtrip [where asks = ?asks and st = "rs_status r" and hs = "rs_headers r" and queued = "[]", OF posting_reads(1,2) _ _ _ _ _ _ _ c(1) _ _ _ _ r])
      (use c(2,4) posting_reads(3) in \<open>simp_all only: facts, simp_all add: host_sm_def post_params_def facts BAD_HANDLE_def\<close>)
  then show ?thesis using c r by auto
qed

end
